(* ===== verification/Myc_Prelude.thy ===== *)
theory Myc_Prelude
  imports Main "HOL-Library.Word" "HOL-Library.List_Lexorder" "HOL-Library.Sublist"
begin

text \<open>
  Shared vocabulary of the development: the Rust types the components use (results as sums,
  bytes as 8-bit words, identifiers and clock values as natural numbers), table operations in
  the shape of the SQL statements the stores issue (insert, conditional update, delete and
  count over a list of rows in insertion order), and the contracts that several components
  share: string codecs of enumerations and keyed tables.
\<close>

section \<open>Types\<close>

text \<open>
  \<^item> \<open>byte\<close>, \<open>bytes\<close>: \<^verbatim>\<open>u8\<close> and \<^verbatim>\<open>Vec<u8>\<close> / \<^verbatim>\<open>&[u8]\<close>.
  \<^item> \<open>rstring\<close>: a Rust \<^verbatim>\<open>String\<close>, as its list of Unicode scalar values (\<^verbatim>\<open>chars()\<close>).  Rust
    compares strings byte-wise on UTF-8, which is the lexicographic order of the scalar
    values, so the order of \<^verbatim>\<open>List_Lexorder\<close> is the order of \<^verbatim>\<open>String::cmp\<close>.
  \<^item> \<open>uuid\<close>: a \<^verbatim>\<open>Uuid\<close>, as its 128-bit number.
  \<^item> \<open>timestamp\<close>: an instant, as a number of nanoseconds.  The stores keep RFC 3339 strings
    written by \<^verbatim>\<open>Utc::now().to_rfc3339()\<close> and compare them as text; for UTC strings of that
    writer the text order is the order of the instants.
\<close>

type_synonym byte = "8 word"
type_synonym bytes = "byte list"
type_synonym rstring = "nat list"
type_synonym uuid = nat
type_synonym timestamp = nat

text \<open>\<open>str\<close> turns a HOL literal into the Rust string with the same ASCII characters.\<close>

definition str :: "string \<Rightarrow> rstring" where
  "str s = map of_char s"

lemma str_Nil [simp]: "str [] = []"
  by (simp add: str_def)

lemma str_Cons [simp]: "str (c # s) = of_char c # str s"
  by (simp add: str_def)

lemma length_str [simp]: "length (str s) = length s"
  by (simp add: str_def)

lemma str_inject [simp]: "str s = str t \<longleftrightarrow> s = t"
  unfolding str_def by (rule inj_map_eq_map) (simp add: inj_def)

section \<open>Collections of facts\<close>

named_theorems row_simps \<open>effect of the table operations on lookups, counts and identifiers\<close>
named_theorems codec_simps \<open>string codecs of the enumerations\<close>

section \<open>Results\<close>

text \<open>The \<^verbatim>\<open>?\<close> operator: the error is returned, the value is passed on.\<close>

definition and_then :: "'e + 'a \<Rightarrow> ('a \<Rightarrow> 'e + 'b) \<Rightarrow> 'e + 'b" where
  "and_then r f = (case r of Inl e \<Rightarrow> Inl e | Inr x \<Rightarrow> f x)"

lemma and_then_simps [simp]:
  "and_then (Inl e) f = Inl e"
  "and_then (Inr x) f = f x"
  by (simp_all add: and_then_def)

lemma and_then_eq_Inr:
  "and_then r f = Inr y \<longleftrightarrow> (\<exists>x. r = Inr x \<and> f x = Inr y)"
  by (cases r) auto

text \<open>\<^verbatim>\<open>Option::ok_or\<close>.\<close>

definition ok_or :: "'a option \<Rightarrow> 'e \<Rightarrow> 'e + 'a" where
  "ok_or v e = (case v of None \<Rightarrow> Inl e | Some x \<Rightarrow> Inr x)"

lemma ok_or_simps [simp]:
  "ok_or None e = Inl e"
  "ok_or (Some x) e = Inr x"
  by (simp_all add: ok_or_def)

lemma ok_or_Inr [simp]: "ok_or v e = Inr x \<longleftrightarrow> v = Some x"
  by (auto simp: ok_or_def split: option.splits)

text \<open>\<^verbatim>\<open>iter().map(f).collect::<Result<Vec<_>, _>>()\<close>: the first error wins.\<close>

fun collect_results :: "('e + 'a) list \<Rightarrow> 'e + 'a list" where
  "collect_results [] = Inr []"
| "collect_results (r # rs) =
     and_then r (\<lambda>x. and_then (collect_results rs) (\<lambda>xs. Inr (x # xs)))"

lemma collect_results_all_Inr:
  "(\<And>x. x \<in> set xs \<Longrightarrow> f x = Inr (g x)) \<Longrightarrow> collect_results (map f xs) = Inr (map g xs)"
  by (induction xs) auto

text \<open>\<^verbatim>\<open>Vec::get(i)\<close>.\<close>

definition get_at :: "'a list \<Rightarrow> nat \<Rightarrow> 'a option" where
  "get_at xs i = (if i < length xs then Some (xs ! i) else None)"

lemma get_at_simps [simp]:
  "get_at [] i = None"
  "get_at (x # xs) 0 = Some x"
  "get_at (x # xs) (Suc i) = get_at xs i"
  by (simp_all add: get_at_def)

lemma get_at_append [simp]: "get_at (xs @ ys) (length xs + i) = get_at ys i"
  by (induction xs) simp_all

lemma get_at_drop: "get_at xs (n + i) = get_at (drop n xs) i"
  by (auto simp: get_at_def)

section \<open>Tables\<close>

text \<open>
  A table is the list of its rows in insertion order.  \<open>update_where p u\<close> is
  \<^verbatim>\<open>UPDATE t SET u WHERE p\<close> and \<open>rows_affected p\<close> the row count the driver reports for it;
  \<open>delete_where p\<close> is \<^verbatim>\<open>DELETE FROM t WHERE p\<close>, \<open>count_where p\<close> is
  \<^verbatim>\<open>SELECT COUNT(*) FROM t WHERE p\<close>.  A statement is atomic: it is one function application.
\<close>

definition update_where :: "('r \<Rightarrow> bool) \<Rightarrow> ('r \<Rightarrow> 'r) \<Rightarrow> 'r list \<Rightarrow> 'r list" where
  "update_where p u rows = map (\<lambda>r. if p r then u r else r) rows"

definition delete_where :: "('r \<Rightarrow> bool) \<Rightarrow> 'r list \<Rightarrow> 'r list" where
  "delete_where p rows = filter (\<lambda>r. \<not> p r) rows"

definition count_where :: "('r \<Rightarrow> bool) \<Rightarrow> 'r list \<Rightarrow> nat" where
  "count_where p rows = length (filter p rows)"

definition rows_affected :: "('r \<Rightarrow> bool) \<Rightarrow> 'r list \<Rightarrow> nat" where
  "rows_affected p rows = length (filter p rows)"

text \<open>\<open>fetch_optional p\<close> is \<^verbatim>\<open>SELECT ... WHERE p\<close> followed by \<^verbatim>\<open>fetch_optional\<close>: the first match.\<close>

definition fetch_optional :: "('r \<Rightarrow> bool) \<Rightarrow> 'r list \<Rightarrow> 'r option" where
  "fetch_optional p rows = List.find p rows"

text \<open>
  \<open>order_by f\<close> is \<^verbatim>\<open>ORDER BY f\<close>.  SQL leaves the order of equal keys open; the model keeps the
  insertion order there, as SQLite's sorter does.
\<close>

definition order_by :: "('r \<Rightarrow> 'k::linorder) \<Rightarrow> 'r list \<Rightarrow> 'r list" where
  "order_by f rows = sort_key f rows"

lemma length_update_where [simp]: "length (update_where p u rows) = length rows"
  by (simp add: update_where_def)

lemma update_where_Nil [simp]: "update_where p u [] = []"
  by (simp add: update_where_def)

lemma update_where_Cons [simp]:
  "update_where p u (r # rows) = (if p r then u r else r) # update_where p u rows"
  by (simp add: update_where_def)

lemma update_where_append [simp]:
  "update_where p u (xs @ ys) = update_where p u xs @ update_where p u ys"
  by (simp add: update_where_def)

lemma set_update_where:
  "set (update_where p u rows) = (\<lambda>r. if p r then u r else r) ` set rows"
  by (simp add: update_where_def)

lemma update_where_mem:
  "r \<in> set rows \<Longrightarrow> (if p r then u r else r) \<in> set (update_where p u rows)"
  by (simp add: set_update_where)

lemma update_where_none:
  "(\<And>r. r \<in> set rows \<Longrightarrow> \<not> p r) \<Longrightarrow> update_where p u rows = rows"
  by (induction rows) auto

lemma update_where_key [row_simps]:
  "(\<And>r. k (u r) = k r) \<Longrightarrow> map k (update_where p u rows) = map k rows"
  by (simp add: update_where_def)

lemma filter_update_where_other:
  assumes "\<And>r. r \<in> set rows \<Longrightarrow> p r \<Longrightarrow> \<not> q r" and "\<And>r. q (u r) = q r"
  shows "filter q (update_where p u rows) = filter q rows"
  using assms by (induction rows) auto

lemma delete_where_simps [simp]:
  "delete_where p [] = []"
  "delete_where p (r # rows) = (if p r then delete_where p rows else r # delete_where p rows)"
  by (simp_all add: delete_where_def)

lemma set_delete_where [simp]: "set (delete_where p rows) = {r \<in> set rows. \<not> p r}"
  by (auto simp: delete_where_def)

lemma count_where_simps [simp]:
  "count_where p [] = 0"
  "count_where p (r # rows) = (if p r then 1 else 0) + count_where p rows"
  "count_where p (xs @ ys) = count_where p xs + count_where p ys"
  by (simp_all add: count_where_def)

lemma count_where_mono:
  "(\<And>r. r \<in> set rows \<Longrightarrow> p r \<Longrightarrow> q r) \<Longrightarrow> count_where p rows \<le> count_where q rows"
  by (induction rows) auto

lemma count_where_update_same:
  "(\<And>r. r \<in> set rows \<Longrightarrow> p r \<Longrightarrow> q (u r) = q r) \<Longrightarrow>
   count_where q (update_where p u rows) = count_where q rows"
  by (induction rows) auto

lemma count_where_update_le:
  "(\<And>r. r \<in> set rows \<Longrightarrow> p r \<Longrightarrow> q (u r) \<Longrightarrow> q r) \<Longrightarrow>
   count_where q (update_where p u rows) \<le> count_where q rows"
proof (induction rows)
  case (Cons r rows)
  then have "count_where q (update_where p u rows) \<le> count_where q rows" by simp
  with Cons.prems show ?case by auto
qed simp

lemma rows_affected_pos: "0 < rows_affected p rows \<longleftrightarrow> (\<exists>r \<in> set rows. p r)"
  by (auto simp: rows_affected_def filter_empty_conv)

lemma rows_affected_0: "rows_affected p rows = 0 \<longleftrightarrow> (\<forall>r \<in> set rows. \<not> p r)"
  by (auto simp: rows_affected_def filter_empty_conv)

lemma fetch_optional_simps [simp]:
  "fetch_optional p [] = None"
  "fetch_optional p (r # rows) = (if p r then Some r else fetch_optional p rows)"
  by (simp_all add: fetch_optional_def)

lemma fetch_optional_append:
  "fetch_optional p (xs @ ys) =
     (case fetch_optional p xs of None \<Rightarrow> fetch_optional p ys | Some r \<Rightarrow> Some r)"
  by (induction xs) auto

lemma fetch_optional_None: "fetch_optional p rows = None \<longleftrightarrow> (\<forall>r \<in> set rows. \<not> p r)"
  by (induction rows) auto

lemma fetch_optional_SomeD: "fetch_optional p rows = Some r \<Longrightarrow> r \<in> set rows \<and> p r"
  by (induction rows) (auto split: if_splits)

text \<open>A table with a unique key: the first match by key is the only one.\<close>

lemma fetch_optional_by_key:
  assumes "distinct (map k rows)" and "r \<in> set rows" and "p r"
    and key: "\<And>r'. p r' \<Longrightarrow> k r' = k r"
  shows "fetch_optional p rows = Some r"
proof -
  from assms(2,3) obtain r' where r': "fetch_optional p rows = Some r'"
    by (metis fetch_optional_None not_Some_eq)
  then have "r' \<in> set rows" and "p r'"
    by (auto dest: fetch_optional_SomeD)
  from this(2) have "k r' = k r" by (rule key)
  with assms(1,2) \<open>r' \<in> set rows\<close> have "r' = r"
    by (metis distinct_map inj_onD)
  with r' show ?thesis by simp
qed

lemma fetch_optional_update:
  assumes "\<And>r. q (u r) = q r"
  shows "fetch_optional q (update_where p u rows) =
           map_option (\<lambda>r. if p r then u r else r) (fetch_optional q rows)"
  using assms by (induction rows) auto

lemma fetch_optional_delete:
  assumes "\<And>r. r \<in> set rows \<Longrightarrow> q r \<Longrightarrow> \<not> p r"
  shows "fetch_optional q (delete_where p rows) = fetch_optional q rows"
  using assms by (induction rows) auto

lemma fetch_optional_delete_None:
  assumes "\<And>r. r \<in> set rows \<Longrightarrow> q r \<Longrightarrow> p r"
  shows "fetch_optional q (delete_where p rows) = None"
  using assms by (induction rows) auto

lemma set_order_by [simp]: "set (order_by f rows) = set rows"
  by (simp add: order_by_def)

lemma sorted_order_by: "sorted (map f (order_by f rows))"
  by (simp add: order_by_def)

lemma order_by_Nil [simp]: "order_by f [] = []"
  by (simp add: order_by_def)

lemma order_by_eq_Nil [simp]: "order_by f rows = [] \<longleftrightarrow> rows = []"
  by (metis set_empty set_order_by)

section \<open>Codecs of enumerations\<close>

text \<open>
  Every enumeration that is stored or sent as text has an \<^verbatim>\<open>as_str\<close> writer and a partial reader
  (\<^verbatim>\<open>parse\<close> or \<^verbatim>\<open>from_str\<close>).  The contract: the reader accepts exactly the written forms.
\<close>

locale str_codec =
  fixes as_str :: "'a \<Rightarrow> rstring"
    and from_str :: "rstring \<Rightarrow> 'a option"
  assumes parse_print: "from_str (as_str x) = Some x"
    and print_parse: "from_str s = Some x \<Longrightarrow> as_str x = s"
begin

lemma as_str_inject: "as_str x = as_str y \<longleftrightarrow> x = y"
  by (metis option.inject parse_print)

lemma from_str_iff: "from_str s = Some x \<longleftrightarrow> s = as_str x"
  using parse_print print_parse by blast

lemma from_str_None_iff: "from_str s = None \<longleftrightarrow> s \<notin> range as_str"
  by (metis from_str_iff not_Some_eq rangeE rangeI)

end

section \<open>Keyed tables\<close>

text \<open>
  The contract of a table addressed by a key, as the configuration store, the throttle maps
  and the encrypted file repository provide it: what a lookup returns after a write and after
  a delete, under the well-formedness every operation keeps.
\<close>

locale keyed_store =
  fixes lookup :: "'s \<Rightarrow> 'k \<Rightarrow> 'v option"
    and insert_at :: "'k \<Rightarrow> 'v \<Rightarrow> 's \<Rightarrow> 's"
    and delete_at :: "'k \<Rightarrow> 's \<Rightarrow> 's"
    and wf :: "'s \<Rightarrow> bool"
  assumes lookup_insert: "wf s \<Longrightarrow> lookup (insert_at k v s) = (lookup s)(k := Some v)"
    and lookup_delete: "wf s \<Longrightarrow> lookup (delete_at k s) = (lookup s)(k := None)"
    and wf_insert: "wf s \<Longrightarrow> wf (insert_at k v s)"
    and wf_delete: "wf s \<Longrightarrow> wf (delete_at k s)"
begin

lemma read_your_write: "wf s \<Longrightarrow> lookup (insert_at k v s) k = Some v"
  by (simp add: lookup_insert)

lemma last_write_wins:
  "wf s \<Longrightarrow> lookup (insert_at k w (insert_at k v s)) = lookup (insert_at k w s)"
  by (simp add: lookup_insert wf_insert)

lemma delete_idempotent: "wf s \<Longrightarrow> lookup (delete_at k (delete_at k s)) = lookup (delete_at k s)"
  by (simp add: lookup_delete wf_delete)

lemma writes_commute:
  "wf s \<Longrightarrow> j \<noteq> k \<Longrightarrow>
   lookup (insert_at j v (insert_at k w s)) = lookup (insert_at k w (insert_at j v s))"
  by (simp add: lookup_insert wf_insert fun_upd_twist)

end

end
