(* ===== verification/Rust_Text.thy ===== *)
theory Rust_Text
  imports Myc_Prelude
begin

text \<open>
  The part of the Rust standard library on strings that the sources use, on lists of Unicode
  scalar values: whitespace and trimming, prefixes and suffixes, the splitting iterators,
  \<^verbatim>\<open>u32\<close> parsing and printing, and UTF-8 (byte lengths and the encoding behind \<^verbatim>\<open>as_bytes\<close>).
\<close>

section \<open>Characters\<close>

text \<open>\<^verbatim>\<open>char::is_whitespace\<close>: the Unicode \<^verbatim>\<open>White_Space\<close> property.\<close>

definition is_whitespace :: "nat \<Rightarrow> bool" where
  "is_whitespace c \<longleftrightarrow>
     (9 \<le> c \<and> c \<le> 13) \<or> c = 32 \<or> c = 133 \<or> c = 160 \<or> c = 5760 \<or> (8192 \<le> c \<and> c \<le> 8202) \<or>
     c = 8232 \<or> c = 8233 \<or> c = 8239 \<or> c = 8287 \<or> c = 12288"

definition is_ascii_digit :: "nat \<Rightarrow> bool" where
  "is_ascii_digit c \<longleftrightarrow> 48 \<le> c \<and> c \<le> 57"

definition is_ascii_lowercase :: "nat \<Rightarrow> bool" where
  "is_ascii_lowercase c \<longleftrightarrow> 97 \<le> c \<and> c \<le> 122"

definition is_ascii_uppercase :: "nat \<Rightarrow> bool" where
  "is_ascii_uppercase c \<longleftrightarrow> 65 \<le> c \<and> c \<le> 90"

definition is_ascii_alphanumeric :: "nat \<Rightarrow> bool" where
  "is_ascii_alphanumeric c \<longleftrightarrow>
     is_ascii_digit c \<or> is_ascii_lowercase c \<or> is_ascii_uppercase c"

text \<open>ASCII case folding, as \<^verbatim>\<open>COLLATE NOCASE\<close> and \<^verbatim>\<open>LIKE\<close> of SQLite apply it.\<close>

definition ascii_lower :: "nat \<Rightarrow> nat" where
  "ascii_lower c = (if is_ascii_uppercase c then c + 32 else c)"

definition nocase_eq :: "rstring \<Rightarrow> rstring \<Rightarrow> bool" where
  "nocase_eq s t \<longleftrightarrow> map ascii_lower s = map ascii_lower t"

lemma nocase_eq_refl [simp]: "nocase_eq s s"
  by (simp add: nocase_eq_def)

lemma nocase_eq_sym: "nocase_eq s t \<Longrightarrow> nocase_eq t s"
  by (simp add: nocase_eq_def)

lemma nocase_eq_trans: "nocase_eq s t \<Longrightarrow> nocase_eq t u \<Longrightarrow> nocase_eq s u"
  by (simp add: nocase_eq_def)

text \<open>Names of the characters the sources mention.\<close>

abbreviation (input) NL :: nat where "NL \<equiv> 10"
abbreviation (input) CR :: nat where "CR \<equiv> 13"
abbreviation (input) SPACE :: nat where "SPACE \<equiv> 32"
abbreviation (input) HASH :: nat where "HASH \<equiv> 35"
abbreviation (input) DASH :: nat where "DASH \<equiv> 45"
abbreviation (input) SLASH :: nat where "SLASH \<equiv> 47"
abbreviation (input) BACKTICK :: nat where "BACKTICK \<equiv> 96"

section \<open>Trimming\<close>

definition trim_start :: "rstring \<Rightarrow> rstring" where
  "trim_start s = dropWhile is_whitespace s"

definition trim_end :: "rstring \<Rightarrow> rstring" where
  "trim_end s = rev (dropWhile is_whitespace (rev s))"

definition trim :: "rstring \<Rightarrow> rstring" where
  "trim s = trim_end (trim_start s)"

lemma dropWhile_all_append:
  "\<forall>c \<in> set w. P c \<Longrightarrow> dropWhile P (w @ s) = dropWhile P s"
  by (induction w) auto

lemma trim_end_append_ws: "\<forall>c \<in> set w. is_whitespace c \<Longrightarrow> trim_end (s @ w) = trim_end s"
  by (simp add: trim_end_def dropWhile_all_append)

lemma trim_end_id: "s = [] \<or> \<not> is_whitespace (last s) \<Longrightarrow> trim_end s = s"
proof (cases s rule: rev_cases)
  case (snoc ys y)
  assume "s = [] \<or> \<not> is_whitespace (last s)"
  with snoc show ?thesis by (simp add: trim_end_def)
qed (simp add: trim_end_def)

lemma trim_end_snoc:
  "trim_end (s @ [c]) = (if is_whitespace c then trim_end s else s @ [c])"
  by (simp add: trim_end_def)

lemma trim_end_eq_Nil: "trim_end s = [] \<longleftrightarrow> (\<forall>c \<in> set s. is_whitespace c)"
  by (simp add: trim_end_def dropWhile_eq_Nil_conv)

lemma trim_start_eq_Nil: "trim_start s = [] \<longleftrightarrow> (\<forall>c \<in> set s. is_whitespace c)"
  by (simp add: trim_start_def dropWhile_eq_Nil_conv)

lemma trim_eq_Nil: "trim s = [] \<longleftrightarrow> (\<forall>c \<in> set s. is_whitespace c)"
proof -
  have "(\<forall>c \<in> set (trim_start s). is_whitespace c) \<longleftrightarrow> trim_start s = []"
    by (metis dropWhile_eq_Nil_conv empty_iff empty_set hd_dropWhile list.set_sel(1) trim_start_def)
  then show ?thesis
    by (simp add: trim_def trim_end_eq_Nil trim_start_eq_Nil)
qed

section \<open>Prefixes and suffixes\<close>

definition starts_with :: "rstring \<Rightarrow> rstring \<Rightarrow> bool" where
  "starts_with s p \<longleftrightarrow> take (length p) s = p"

definition ends_with :: "rstring \<Rightarrow> rstring \<Rightarrow> bool" where
  "ends_with s p \<longleftrightarrow> length p \<le> length s \<and> drop (length s - length p) s = p"

definition strip_prefix :: "rstring \<Rightarrow> rstring \<Rightarrow> rstring option" where
  "strip_prefix s p = (if starts_with s p then Some (drop (length p) s) else None)"

definition strip_suffix :: "rstring \<Rightarrow> rstring \<Rightarrow> rstring option" where
  "strip_suffix s p = (if ends_with s p then Some (take (length s - length p) s) else None)"

lemma starts_with_iff: "starts_with s p \<longleftrightarrow> (\<exists>t. s = p @ t)"
  unfolding starts_with_def by (metis append_eq_conv_conj append_take_drop_id)

lemma ends_with_iff: "ends_with s p \<longleftrightarrow> (\<exists>t. s = t @ p)"
proof
  assume "ends_with s p"
  then show "\<exists>t. s = t @ p" unfolding ends_with_def by (metis append_take_drop_id)
qed (auto simp: ends_with_def)

lemma starts_with_append [simp]: "starts_with (p @ t) p"
  by (auto simp: starts_with_iff)

lemma strip_prefix_Some: "strip_prefix s p = Some t \<longleftrightarrow> s = p @ t"
  by (auto simp: strip_prefix_def starts_with_iff)

lemma strip_prefix_append [simp]: "strip_prefix (p @ t) p = Some t"
  by (simp add: strip_prefix_Some)

lemma strip_suffix_Some: "strip_suffix s p = Some t \<longleftrightarrow> s = t @ p"
  by (auto simp: strip_suffix_def ends_with_iff)

lemma strip_suffix_append [simp]: "strip_suffix (t @ p) p = Some t"
  by (simp add: strip_suffix_Some)

text \<open>\<^verbatim>\<open>str::trim_start_matches\<close> and \<^verbatim>\<open>trim_end_matches\<close> with a string pattern.\<close>

function trim_start_matches :: "rstring \<Rightarrow> rstring \<Rightarrow> rstring" where
  "trim_start_matches p s =
     (if p \<noteq> [] \<and> starts_with s p then trim_start_matches p (drop (length p) s) else s)"
  by pat_completeness auto
termination
  by (relation "measure (\<lambda>(p, s). length s)") (auto simp: starts_with_iff)

declare trim_start_matches.simps [simp del]

definition trim_end_matches :: "rstring \<Rightarrow> rstring \<Rightarrow> rstring" where
  "trim_end_matches p s = rev (trim_start_matches (rev p) (rev s))"

text \<open>\<^verbatim>\<open>LIKE 'p%'\<close> of SQLite: ASCII case-insensitive prefix.\<close>

definition like_prefix :: "rstring \<Rightarrow> rstring \<Rightarrow> bool" where
  "like_prefix p s \<longleftrightarrow> nocase_eq (take (length p) s) p"

section \<open>Splitting\<close>

text \<open>\<^verbatim>\<open>split_once(c)\<close>, \<^verbatim>\<open>split(c)\<close>, \<^verbatim>\<open>splitn(n, c)\<close> and \<^verbatim>\<open>split_inclusive(c)\<close>.\<close>

definition split_once :: "nat \<Rightarrow> rstring \<Rightarrow> (rstring \<times> rstring) option" where
  "split_once c s =
     (if c \<in> set s then Some (takeWhile (\<lambda>x. x \<noteq> c) s, tl (dropWhile (\<lambda>x. x \<noteq> c) s)) else None)"

fun split_on :: "nat \<Rightarrow> rstring \<Rightarrow> rstring list" where
  "split_on c [] = [[]]"
| "split_on c (x # xs) =
     (if x = c then [] # split_on c xs
      else (case split_on c xs of [] \<Rightarrow> [[x]] | y # ys \<Rightarrow> (x # y) # ys))"

fun splitn :: "nat \<Rightarrow> nat \<Rightarrow> rstring \<Rightarrow> rstring list" where
  "splitn 0 c s = []"
| "splitn (Suc 0) c s = [s]"
| "splitn (Suc (Suc n)) c s =
     (case split_once c s of None \<Rightarrow> [s] | Some (a, b) \<Rightarrow> a # splitn (Suc n) c b)"

fun split_inclusive :: "nat \<Rightarrow> rstring \<Rightarrow> rstring list" where
  "split_inclusive c [] = []"
| "split_inclusive c (x # xs) =
     (if x = c then [x] # split_inclusive c xs
      else (case split_inclusive c xs of [] \<Rightarrow> [[x]] | y # ys \<Rightarrow> (x # y) # ys))"

lemma split_once_append [simp]:
  "c \<notin> set a \<Longrightarrow> split_once c (a @ c # b) = Some (a, b)"
  by (induction a) (auto simp: split_once_def)

lemma split_once_None: "split_once c s = None \<longleftrightarrow> c \<notin> set s"
  by (simp add: split_once_def)

lemma split_once_SomeD: "split_once c s = Some (a, b) \<Longrightarrow> s = a @ c # b \<and> c \<notin> set a"
proof -
  assume h: "split_once c s = Some (a, b)"
  then have "c \<in> set s" by (auto simp: split_once_def split: if_splits)
  then obtain u v where "s = u @ c # v" "c \<notin> set u" by (meson split_list_first)
  with h show ?thesis by simp
qed

lemma split_on_not_Nil [simp]: "split_on c s \<noteq> []"
  by (induction s) (auto split: list.splits)

lemma split_on_no_sep [simp]: "c \<notin> set s \<Longrightarrow> split_on c s = [s]"
  by (induction s) auto

lemma split_on_append: "c \<notin> set a \<Longrightarrow> split_on c (a @ c # b) = a # split_on c b"
  by (induction a) auto

lemma concat_split_inclusive [simp]: "concat (split_inclusive c s) = s"
  by (induction s) (auto split: list.splits)

lemma split_inclusive_not_Nil: "[] \<notin> set (split_inclusive c s)"
  by (induction s) (auto split: list.splits)

text \<open>A piece is a run without the separator, closed by it (the last one may be open).\<close>

lemma split_inclusive_line:
  "c \<notin> set a \<Longrightarrow> split_inclusive c (a @ c # b) = (a @ [c]) # split_inclusive c b"
  by (induction a) auto

lemma split_inclusive_last: "c \<notin> set a \<Longrightarrow> a \<noteq> [] \<Longrightarrow> split_inclusive c a = [a]"
proof (induction a)
  case (Cons x xs)
  then show ?case by (cases xs) auto
qed simp

lemma split_inclusive_append_nl:
  "split_inclusive c (a @ c # b) = split_inclusive c (a @ [c]) @ split_inclusive c b"
proof (induction a)
  case (Cons x xs)
  have "split_inclusive c (xs @ [c]) \<noteq> []"
    by (metis concat.simps(1) concat_split_inclusive snoc_eq_iff_butlast)
  with Cons show ?case by (auto split: list.splits)
qed simp

text \<open>\<^verbatim>\<open>[String]::join(sep)\<close>, \<^verbatim>\<open>str::lines()\<close> and \<^verbatim>\<open>str::split_whitespace()\<close>.\<close>

fun join_with :: "rstring \<Rightarrow> rstring list \<Rightarrow> rstring" where
  "join_with sep [] = []"
| "join_with sep [x] = x"
| "join_with sep (x # y # xs) = x @ sep @ join_with sep (y # xs)"

definition line_body :: "rstring \<Rightarrow> rstring" where
  "line_body l =
     (case rev l of
        [] \<Rightarrow> []
      | c # r \<Rightarrow> if c = NL then (case r of [] \<Rightarrow> [] | d # q \<Rightarrow> if d = CR then rev q else rev r) else l)"

definition str_lines :: "rstring \<Rightarrow> rstring list" where
  "str_lines s = map line_body (split_inclusive NL s)"

fun words_from :: "rstring \<Rightarrow> rstring \<Rightarrow> rstring list" where
  "words_from w [] = (if w = [] then [] else [w])"
| "words_from w (c # s) =
     (if is_whitespace c then (if w = [] then words_from [] s else w # words_from [] s) else words_from (w @ [c]) s)"

definition split_whitespace :: "rstring \<Rightarrow> rstring list" where
  "split_whitespace s = words_from [] s"

text \<open>A line is its body and its end, which is blank.\<close>

lemma line_body_end: "\<exists>e. l = line_body l @ e \<and> set e \<subseteq> {NL, CR}"
proof (cases "rev l")
  case (Cons c r)
  then have l: "l = rev r @ [c]" by (metis rev.simps(2) rev_rev_ident)
  show ?thesis
  proof (cases "c = NL")
    case True
    then show ?thesis using Cons l by (cases r) (auto simp: line_body_def)
  qed (simp add: line_body_def Cons)
qed (simp add: line_body_def)

section \<open>Integers as text\<close>

text \<open>\<^verbatim>\<open>str::parse::<u32>()\<close>: an optional plus sign, at least one digit, no overflow.\<close>

definition digits_value :: "rstring \<Rightarrow> nat" where
  "digits_value s = foldl (\<lambda>v c. 10 * v + (c - 48)) 0 s"

definition parse_u32 :: "rstring \<Rightarrow> nat option" where
  "parse_u32 s =
     (let d = (case s of [] \<Rightarrow> [] | c # r \<Rightarrow> if c = 43 then r else s)
      in if d = [] \<or> \<not> list_all is_ascii_digit d then None
         else if digits_value d < 2 ^ 32 then Some (digits_value d) else None)"

text \<open>\<^verbatim>\<open>format!("{n}")\<close> for an unsigned integer.\<close>

fun show_nat :: "nat \<Rightarrow> rstring" where
  "show_nat n = (if n < 10 then [48 + n] else show_nat (n div 10) @ [48 + n mod 10])"

declare show_nat.simps [simp del]

lemma digits_value_snoc: "digits_value (s @ [c]) = 10 * digits_value s + (c - 48)"
  by (simp add: digits_value_def)

lemma digits_value_show_nat [simp]: "digits_value (show_nat n) = n"
proof (induction n rule: show_nat.induct)
  case (1 n)
  show ?case
  proof (cases "n < 10")
    case True
    then show ?thesis by (simp add: show_nat.simps [of n] digits_value_def)
  next
    case False
    with 1 show ?thesis by (simp add: show_nat.simps [of n] digits_value_snoc)
  qed
qed

lemma show_nat_digits: "list_all is_ascii_digit (show_nat n)"
proof (induction n rule: show_nat.induct)
  case (1 n)
  have "is_ascii_digit (48 + n mod 10)"
    using mod_less_divisor [of 10 n] by (simp add: is_ascii_digit_def)
  with 1 show ?case
    by (auto simp: show_nat.simps [of n] is_ascii_digit_def)
qed

lemma show_nat_not_Nil [simp]: "show_nat n \<noteq> []"
  by (subst show_nat.simps) simp

lemma show_nat_set: "c \<in> set (show_nat n) \<Longrightarrow> 48 \<le> c \<and> c \<le> 57"
  using show_nat_digits [of n] by (auto simp: list_all_iff is_ascii_digit_def)

lemma parse_show_u32: "n < 2 ^ 32 \<Longrightarrow> parse_u32 (show_nat n) = Some n"
proof -
  assume n: "n < 2 ^ 32"
  obtain c r where cr: "show_nat n = c # r" by (cases "show_nat n") auto
  with show_nat_set [of c n] have "c \<noteq> 43" by auto
  with cr n show ?thesis
    using show_nat_digits [of n] digits_value_show_nat [of n]
    by (simp add: parse_u32_def Let_def)
qed

lemma show_nat_inject [simp]: "show_nat m = show_nat n \<longleftrightarrow> m = n"
  by (metis digits_value_show_nat)

section \<open>UTF-8\<close>

text \<open>\<^verbatim>\<open>char::len_utf8\<close> and \<^verbatim>\<open>str::len\<close> (a length in bytes).\<close>

definition utf8_len_char :: "nat \<Rightarrow> nat" where
  "utf8_len_char c = (if c < 128 then 1 else if c < 2048 then 2 else if c < 65536 then 3 else 4)"

definition utf8_len :: "rstring \<Rightarrow> nat" where
  "utf8_len s = sum_list (map utf8_len_char s)"

lemma utf8_len_simps [simp]:
  "utf8_len [] = 0"
  "utf8_len (c # s) = utf8_len_char c + utf8_len s"
  "utf8_len (s @ t) = utf8_len s + utf8_len t"
  by (simp_all add: utf8_len_def)

lemma utf8_len_char_pos: "1 \<le> utf8_len_char c \<and> utf8_len_char c \<le> 4"
  by (simp add: utf8_len_char_def)

lemma length_le_utf8_len: "length s \<le> utf8_len s"
proof (induction s)
  case (Cons c s)
  with utf8_len_char_pos [of c] show ?case by simp
qed simp

lemma utf8_len_ascii: "\<forall>c \<in> set s. c < 128 \<Longrightarrow> utf8_len s = length s"
  by (induction s) (auto simp: utf8_len_char_def)

definition is_scalar :: "nat \<Rightarrow> bool" where
  "is_scalar c \<longleftrightarrow> c < 1114112 \<and> \<not> (55296 \<le> c \<and> c \<le> 57343)"

text \<open>\<^verbatim>\<open>n as u8\<close>.\<close>

definition byte_of :: "nat \<Rightarrow> byte" where
  "byte_of n = of_nat n"

lemma unat_byte_of: "n < 256 \<Longrightarrow> unat (byte_of n) = n"
  by (simp add: byte_of_def unat_of_nat)

definition utf8_char :: "nat \<Rightarrow> bytes" where
  "utf8_char c =
     (if c < 128 then [byte_of c]
      else if c < 2048 then [byte_of (192 + c div 64), byte_of (128 + c mod 64)]
      else if c < 65536 then
        [byte_of (224 + c div 4096), byte_of (128 + c div 64 mod 64), byte_of (128 + c mod 64)]
      else
        [byte_of (240 + c div 262144), byte_of (128 + c div 4096 mod 64),
         byte_of (128 + c div 64 mod 64), byte_of (128 + c mod 64)])"

text \<open>\<^verbatim>\<open>str::as_bytes\<close>.\<close>

definition as_bytes :: "rstring \<Rightarrow> bytes" where
  "as_bytes s = concat (map utf8_char s)"

lemma as_bytes_simps [simp]:
  "as_bytes [] = []"
  "as_bytes (c # s) = utf8_char c @ as_bytes s"
  "as_bytes (s @ t) = as_bytes s @ as_bytes t"
  by (simp_all add: as_bytes_def)

lemma length_as_bytes: "length (as_bytes s) = utf8_len s"
  by (induction s) (auto simp: utf8_char_def utf8_len_char_def)

text \<open>Decoding the first character of a well-formed byte string, to show the encoding injective.\<close>

definition utf8_decode :: "bytes \<Rightarrow> nat \<times> nat" where
  "utf8_decode bs =
     (let b = (\<lambda>i. unat (bs ! i)) in
      if b 0 < 128 then (b 0, 1)
      else if b 0 < 224 then ((b 0 - 192) * 64 + (b 1 - 128), 2)
      else if b 0 < 240 then ((b 0 - 224) * 4096 + (b 1 - 128) * 64 + (b 2 - 128), 3)
      else ((b 0 - 240) * 262144 + (b 1 - 128) * 4096 + (b 2 - 128) * 64 + (b 3 - 128), 4))"

lemma nth_Cons_numerals [simp]:
  "(x # xs) ! 2 = xs ! 1" "(x # xs) ! 3 = xs ! 2"
  by (simp_all add: nth_Cons')

lemma base64_digits3: "c div 4096 * 4096 + c div 64 mod 64 * 64 + c mod 64 = (c::nat)"
proof -
  have "c div 64 div 64 = c div 4096" by (simp add: div_mult2_eq [symmetric])
  then show ?thesis
    using mult_div_mod_eq [of 64 c] mult_div_mod_eq [of 64 "c div 64"] by linarith
qed

lemma base64_digits4:
  "c div 262144 * 262144 + c div 4096 mod 64 * 4096 + c div 64 mod 64 * 64 + c mod 64 = (c::nat)"
proof -
  have "c div 4096 div 64 = c div 262144" by (simp add: div_mult2_eq [symmetric])
  then show ?thesis
    using base64_digits3 [of c] mult_div_mod_eq [of 64 "c div 4096"] by linarith
qed

lemma utf8_decode_char:
  assumes "is_scalar c"
  shows "utf8_decode (utf8_char c @ rest) = (c, length (utf8_char c))"
proof -
  have m: "x mod 64 < 64" for x :: nat by simp
  consider "c < 128" | "128 \<le> c" "c < 2048" | "2048 \<le> c" "c < 65536"
    | "65536 \<le> c" "c < 1114112"
    using assms unfolding is_scalar_def by linarith
  then show ?thesis
  proof cases
    case 1
    then show ?thesis by (simp add: utf8_char_def utf8_decode_def unat_byte_of)
  next
    case 2
    then have "192 + c div 64 < 224" by auto
    with 2 m [of c] show ?thesis
      by (simp add: utf8_char_def utf8_decode_def unat_byte_of)
  next
    case 3
    then have a: "224 + c div 4096 < 240" by auto
    have "c div 4096 * 4096 + c div 64 mod 64 * 64 + c mod 64 = c"
      by (rule base64_digits3)
    with a 3 m [of c] m [of "c div 64"] show ?thesis
      by (simp add: utf8_char_def utf8_decode_def unat_byte_of)
  next
    case 4
    then have a: "240 + c div 262144 < 245" by auto
    have "c div 262144 * 262144 + c div 4096 mod 64 * 4096 + c div 64 mod 64 * 64 + c mod 64 = c"
      by (rule base64_digits4)
    with a 4 m [of c] m [of "c div 64"] m [of "c div 4096"] show ?thesis
      by (simp add: utf8_char_def utf8_decode_def unat_byte_of)
  qed
qed

lemma utf8_char_not_Nil [simp]: "utf8_char c \<noteq> []"
  by (simp add: utf8_char_def)

lemma as_bytes_inject:
  assumes "list_all is_scalar s" and "list_all is_scalar t" and "as_bytes s = as_bytes t"
  shows "s = t"
  using assms
proof (induction s arbitrary: t)
  case Nil
  then show ?case by (cases t) auto
next
  case (Cons c s)
  then obtain d t' where t: "t = d # t'" by (cases t) auto
  with Cons.prems have eq: "utf8_char c @ as_bytes s = utf8_char d @ as_bytes t'" by simp
  from Cons.prems t have sc: "is_scalar c" "is_scalar d" by auto
  with eq have "(c, length (utf8_char c)) = (d, length (utf8_char d))"
    by (metis utf8_decode_char)
  with eq have "c = d" "as_bytes s = as_bytes t'" by auto
  with Cons t show ?case by auto
qed

text \<open>\<^verbatim>\<open>String::from_utf8\<close>: the shortest-form encodings of scalar values, and nothing else.\<close>

function from_utf8 :: "bytes \<Rightarrow> rstring option" where
  "from_utf8 [] = Some []"
| "from_utf8 (b # bs) =
     (let (c, n) = utf8_decode (b # bs)
      in if is_scalar c \<and> take n (b # bs) = utf8_char c
         then map_option (Cons c) (from_utf8 (drop n (b # bs))) else None)"
  by pat_completeness auto
termination
  by (relation "measure length") (auto simp: utf8_decode_def Let_def split: if_splits)

lemma from_utf8_as_bytes:
  assumes "list_all is_scalar s"
  shows "from_utf8 (as_bytes s) = Some s"
  using assms
proof (induction s)
  case (Cons c s)
  then have sc: "is_scalar c" and IH: "from_utf8 (as_bytes s) = Some s" by simp_all
  obtain b bs where enc: "utf8_char c = b # bs" by (cases "utf8_char c") auto
  have "utf8_decode (utf8_char c @ as_bytes s) = (c, length (utf8_char c))"
    using sc by (rule utf8_decode_char)
  then have "utf8_decode (b # bs @ as_bytes s) = (c, Suc (length bs))" by (simp add: enc)
  then show ?case using sc IH by (simp add: enc)
qed simp

lemma as_bytes_from_utf8: "from_utf8 bs = Some s \<Longrightarrow> as_bytes s = bs \<and> list_all is_scalar s"
proof (induction bs arbitrary: s rule: from_utf8.induct)
  case (2 b bs)
  obtain c n where cn: "utf8_decode (b # bs) = (c, n)" by force
  with 2(2) obtain t where t: "is_scalar c" "take n (b # bs) = utf8_char c"
    "from_utf8 (drop n (b # bs)) = Some t" "s = c # t"
    by (auto split: if_splits)
  from 2(1) [OF cn [symmetric] refl conjI [OF t(1,2)] t(3)] t(1,2,4) show ?case
    by (metis append_take_drop_id as_bytes_simps(2) list.pred_inject(2))
qed simp

section \<open>Integers as bytes\<close>

text \<open>\<^verbatim>\<open>usize::to_le_bytes\<close> and \<^verbatim>\<open>usize::from_le_bytes\<close> on a 64-bit target.\<close>

fun le_bytes :: "nat \<Rightarrow> nat \<Rightarrow> bytes" where
  "le_bytes 0 n = []"
| "le_bytes (Suc k) n = byte_of (n mod 256) # le_bytes k (n div 256)"

fun le_value :: "bytes \<Rightarrow> nat" where
  "le_value [] = 0"
| "le_value (b # bs) = unat b + 256 * le_value bs"

lemma length_le_bytes [simp]: "length (le_bytes k n) = k"
  by (induction k arbitrary: n) simp_all

lemma le_value_le_bytes: "n < 256 ^ k \<Longrightarrow> le_value (le_bytes k n) = n"
proof (induction k arbitrary: n)
  case (Suc k)
  then have "n div 256 < 256 ^ k" by (simp add: less_mult_imp_div_less mult.commute)
  with Suc.IH show ?case by (simp add: unat_byte_of)
qed simp

lemma le_bytes_le_value: "le_bytes (length bs) (le_value bs) = bs"
proof (induction bs)
  case (Cons b bs)
  have b: "unat b < 256" using unsigned_less [of b, where 'a = nat] by simp
  then have "(unat b + 256 * le_value bs) mod 256 = unat b" "(unat b + 256 * le_value bs) div 256 = le_value bs"
    by simp_all
  with Cons show ?case by (simp add: byte_of_def)
qed simp

text \<open>The 16 bytes of a \<^verbatim>\<open>Uuid\<close>, most significant first.\<close>

definition uuid_bytes :: "uuid \<Rightarrow> bytes" where
  "uuid_bytes u = rev (le_bytes 16 u)"

end
