(* ===== verification/Mutation_Queue.thy ===== *)
theory Mutation_Queue
  imports Rust_Text
begin

text \<open>
  The MCP mutation queue: the row operations of \<^verbatim>\<open>crates/mycelium-store/src/mutation_queue.rs\<close>
  over the \<^verbatim>\<open>mutation_queue\<close> table and the row models of \<^verbatim>\<open>crates/mycelium-store/src/models.rs\<close>.
  Each SQL statement is one application of the table operations of \<^verbatim>\<open>Myc_Prelude\<close>; an
  operation that issues several statements is their composition, so that other clients can be
  interleaved between the statements (section on events).  Columns that hold an enumeration
  are kept as text, as in the table, so the decode errors of the readers are branches.  Fresh
  identifiers and the clock are arguments; the JSON writer of \<^verbatim>\<open>serde_json\<close> is a parameter.
\<close>

section \<open>Enumerations\<close>

datatype queue_tool = Add | Update | Maintain

fun queue_tool_as_str :: "queue_tool \<Rightarrow> rstring" where
  "queue_tool_as_str Add = str ''add''"
| "queue_tool_as_str Update = str ''update''"
| "queue_tool_as_str Maintain = str ''maintain''"

definition queue_tool_from_str :: "rstring \<Rightarrow> queue_tool option" where
  "queue_tool_from_str s =
     (if s = str ''add'' then Some Add
      else if s = str ''update'' then Some Update
      else if s = str ''maintain'' then Some Maintain
      else None)"

datatype queue_status = Staging | Pending | Running | Done | Dead

fun queue_status_as_str :: "queue_status \<Rightarrow> rstring" where
  "queue_status_as_str Staging = str ''staging''"
| "queue_status_as_str Pending = str ''pending''"
| "queue_status_as_str Running = str ''running''"
| "queue_status_as_str Done = str ''done''"
| "queue_status_as_str Dead = str ''dead''"

definition queue_status_from_str :: "rstring \<Rightarrow> queue_status option" where
  "queue_status_from_str s =
     (if s = str ''staging'' then Some Staging
      else if s = str ''pending'' then Some Pending
      else if s = str ''running'' then Some Running
      else if s = str ''done'' then Some Done
      else if s = str ''dead'' then Some Dead
      else None)"

datatype ingest_status = IngestPending | IngestRunning | IngestDone | IngestFailed

fun ingest_status_as_str :: "ingest_status \<Rightarrow> rstring" where
  "ingest_status_as_str IngestPending = str ''pending''"
| "ingest_status_as_str IngestRunning = str ''running''"
| "ingest_status_as_str IngestDone = str ''done''"
| "ingest_status_as_str IngestFailed = str ''failed''"

definition ingest_status_parse :: "rstring \<Rightarrow> ingest_status option" where
  "ingest_status_parse s =
     (if s = str ''pending'' then Some IngestPending
      else if s = str ''running'' then Some IngestRunning
      else if s = str ''done'' then Some IngestDone
      else if s = str ''failed'' then Some IngestFailed
      else None)"

interpretation tool_codec: str_codec queue_tool_as_str queue_tool_from_str
proof
  show "queue_tool_from_str (queue_tool_as_str x) = Some x" for x
    by (cases x) (simp_all add: queue_tool_from_str_def)
  show "queue_tool_as_str x = s" if "queue_tool_from_str s = Some x" for s x
    using that by (auto simp: queue_tool_from_str_def split: if_splits)
qed

interpretation status_codec: str_codec queue_status_as_str queue_status_from_str
proof
  show "queue_status_from_str (queue_status_as_str x) = Some x" for x
    by (cases x) (simp_all add: queue_status_from_str_def)
  show "queue_status_as_str x = s" if "queue_status_from_str s = Some x" for s x
    using that by (auto simp: queue_status_from_str_def split: if_splits)
qed

interpretation ingest_codec: str_codec ingest_status_as_str ingest_status_parse
proof
  show "ingest_status_parse (ingest_status_as_str x) = Some x" for x
    by (cases x) (simp_all add: ingest_status_parse_def)
  show "ingest_status_as_str x = s" if "ingest_status_parse s = Some x" for s x
    using that by (auto simp: ingest_status_parse_def split: if_splits)
qed

lemmas [codec_simps, simp] =
  tool_codec.parse_print status_codec.parse_print ingest_codec.parse_print
  tool_codec.as_str_inject status_codec.as_str_inject ingest_codec.as_str_inject

section \<open>Rows, items and errors\<close>

text \<open>A row of the \<^verbatim>\<open>mutation_queue\<close> table (\<^verbatim>\<open>QueueRow\<close>).\<close>

record queue_row =
  q_id :: uuid
  q_user_id :: uuid
  q_tool :: rstring
  q_status :: rstring
  q_attempts :: int
  q_detail :: rstring
  q_created_at :: timestamp
  q_updated_at :: timestamp
  q_next_retry_at :: "timestamp option"
  q_final_paths :: "rstring option"
  q_source :: rstring

text \<open>\<^verbatim>\<open>MutationQueueItem\<close>: a decoded row.\<close>

record mutation_queue_item =
  mi_id :: uuid
  mi_user_id :: uuid
  mi_tool :: queue_tool
  mi_status :: queue_status
  mi_attempts :: nat
  mi_detail :: rstring
  mi_created_at :: timestamp
  mi_updated_at :: timestamp
  mi_next_retry_at :: "timestamp option"
  mi_final_paths :: "rstring option"
  mi_source :: rstring

text \<open>\<^verbatim>\<open>QueueWaitingRow\<close>: one row of the admin scans.\<close>

record queue_waiting_row =
  w_id :: uuid
  w_username :: rstring
  w_tool :: queue_tool
  w_status :: queue_status
  w_attempts :: nat
  w_detail :: "rstring option"
  w_created_at :: timestamp

text \<open>
  \<^verbatim>\<open>QueueError\<close>, with the driver errors that the statements can raise on their own: a decode
  error, a violated constraint; \<open>ExpectFailed\<close> stands for the panic of \<^verbatim>\<open>expect\<close>.
\<close>

datatype sqlx_error = DecodeError | UniqueViolation | ForeignKeyViolation
datatype queue_error = Capacity | Db sqlx_error | ExpectFailed

text \<open>
  The tables the queue touches: its own and the user names it joins (\<^verbatim>\<open>users\<close>, as pairs of
  identifier and name).
\<close>

record qstore =
  qs_users :: "(uuid \<times> rstring) list"
  qs_rows :: "queue_row list"

section \<open>Decoding\<close>

text \<open>\<^verbatim>\<open>u32::try_from(attempts).unwrap_or(0)\<close>.\<close>

definition attempts_u32 :: "int \<Rightarrow> nat" where
  "attempts_u32 a = (if 0 \<le> a \<and> a < 2 ^ 32 then nat a else 0)"

definition decode_item :: "queue_row \<Rightarrow> queue_error + mutation_queue_item" where
  "decode_item r =
     and_then (ok_or (queue_tool_from_str (q_tool r)) (Db DecodeError)) (\<lambda>tool.
     and_then (ok_or (queue_status_from_str (q_status r)) (Db DecodeError)) (\<lambda>status.
       Inr \<lparr>mi_id = q_id r, mi_user_id = q_user_id r, mi_tool = tool, mi_status = status,
            mi_attempts = attempts_u32 (q_attempts r), mi_detail = q_detail r,
            mi_created_at = q_created_at r, mi_updated_at = q_updated_at r,
            mi_next_retry_at = q_next_retry_at r, mi_final_paths = q_final_paths r,
            mi_source = q_source r\<rparr>))"

text \<open>\<^verbatim>\<open>decode_admin_row\<close>: the joined columns of an admin scan; an empty detail reads as none.\<close>

definition decode_admin_row :: "queue_row \<times> rstring \<Rightarrow> queue_error + queue_waiting_row" where
  "decode_admin_row ru =
     (case ru of (r, username) \<Rightarrow>
      and_then (ok_or (queue_tool_from_str (q_tool r)) (Db DecodeError)) (\<lambda>tool.
      and_then (ok_or (queue_status_from_str (q_status r)) (Db DecodeError)) (\<lambda>status.
        Inr \<lparr>w_id = q_id r, w_username = username, w_tool = tool, w_status = status,
             w_attempts = attempts_u32 (q_attempts r),
             w_detail = (if q_detail r = [] then None else Some (q_detail r)),
             w_created_at = q_created_at r\<rparr>)))"

section \<open>Operations\<close>

text \<open>
  Every operation takes the database and returns its result with the new database.  The
  predicates of the \<^verbatim>\<open>WHERE\<close> clauses come first.
\<close>

definition has_status :: "queue_status list \<Rightarrow> queue_row \<Rightarrow> bool" where
  "has_status ss r \<longleftrightarrow> q_status r \<in> set (map queue_status_as_str ss)"

definition by_id :: "uuid \<Rightarrow> queue_row \<Rightarrow> bool" where
  "by_id qid r \<longleftrightarrow> q_id r = qid"

definition non_terminal :: "queue_row \<Rightarrow> bool" where
  "non_terminal r \<longleftrightarrow> has_status [Staging, Pending, Running] r"

definition is_due :: "timestamp \<Rightarrow> queue_row \<Rightarrow> bool" where
  "is_due now r \<longleftrightarrow>
     has_status [Pending] r \<and> (case q_next_retry_at r of None \<Rightarrow> True | Some t \<Rightarrow> t \<le> now)"

definition set_rows :: "(queue_row list \<Rightarrow> queue_row list) \<Rightarrow> qstore \<Rightarrow> qstore" where
  "set_rows f db = db\<lparr>qs_rows := f (qs_rows db)\<rparr>"

text \<open>\<^verbatim>\<open>Store::enqueue\<close>: the INSERT, with the primary key and the reference to \<^verbatim>\<open>users\<close> checked.\<close>

definition staged_row ::
  "uuid \<Rightarrow> timestamp \<Rightarrow> uuid \<Rightarrow> queue_tool \<Rightarrow> rstring \<Rightarrow> queue_row" where
  "staged_row new_id now user_id tool source =
     \<lparr>q_id = new_id, q_user_id = user_id, q_tool = queue_tool_as_str tool,
      q_status = queue_status_as_str Staging, q_attempts = 0, q_detail = [],
      q_created_at = now, q_updated_at = now, q_next_retry_at = None,
      q_final_paths = None, q_source = source\<rparr>"

definition enqueue ::
  "uuid \<Rightarrow> timestamp \<Rightarrow> uuid \<Rightarrow> queue_tool \<Rightarrow> rstring \<Rightarrow> qstore \<Rightarrow> (queue_error + uuid) \<times> qstore" where
  "enqueue new_id now user_id tool source db =
     (if \<exists>r \<in> set (qs_rows db). q_id r = new_id then (Inl (Db UniqueViolation), db)
      else if user_id \<notin> fst ` set (qs_users db) then (Inl (Db ForeignKeyViolation), db)
      else (Inr new_id,
            set_rows (\<lambda>rows. rows @ [staged_row new_id now user_id tool source]) db))"

text \<open>\<^verbatim>\<open>Store::enqueue_capped\<close>: the depth check, then the INSERT.\<close>

definition user_depth :: "uuid \<Rightarrow> qstore \<Rightarrow> nat" where
  "user_depth user_id db =
     count_where (\<lambda>r. q_user_id r = user_id \<and> non_terminal r) (qs_rows db)"

definition enqueue_capped ::
  "uuid \<Rightarrow> timestamp \<Rightarrow> uuid \<Rightarrow> queue_tool \<Rightarrow> nat \<Rightarrow> rstring \<Rightarrow> qstore \<Rightarrow>
   (queue_error + uuid) \<times> qstore" where
  "enqueue_capped new_id now user_id tool cap source db =
     (if user_depth user_id db \<ge> cap then (Inl Capacity, db)
      else enqueue new_id now user_id tool source db)"

text \<open>\<^verbatim>\<open>Store::activate\<close>: staging (or pending) to pending.\<close>

definition activate :: "timestamp \<Rightarrow> uuid \<Rightarrow> qstore \<Rightarrow> (queue_error + unit) \<times> qstore" where
  "activate now qid db =
     (Inr (), set_rows (update_where
        (\<lambda>r. by_id qid r \<and> has_status [Staging, Pending] r)
        (\<lambda>r. r\<lparr>q_status := queue_status_as_str Pending, q_updated_at := now\<rparr>)) db)"

text \<open>\<^verbatim>\<open>Store::queue_item\<close>: the lookup scoped to the user.\<close>

definition queue_item :: "uuid \<Rightarrow> uuid \<Rightarrow> qstore \<Rightarrow> queue_error + mutation_queue_item option" where
  "queue_item user_id qid db =
     (case fetch_optional (\<lambda>r. q_id r = qid \<and> q_user_id r = user_id) (qs_rows db) of
        None \<Rightarrow> Inr None
      | Some r \<Rightarrow> and_then (decode_item r) (\<lambda>item. Inr (Some item)))"

text \<open>
  \<^verbatim>\<open>Store::claim_due_for_user\<close>.  \<open>claim_candidates\<close> is its SELECT, \<open>claim_row\<close> the conditional
  UPDATE that decides the race, \<open>claim_loop\<close> the loop over the candidates.
\<close>

definition claim_candidates :: "timestamp \<Rightarrow> uuid \<Rightarrow> qstore \<Rightarrow> uuid list" where
  "claim_candidates now user_id db =
     map q_id (take 8 (order_by q_created_at
       (filter (\<lambda>r. q_user_id r = user_id \<and> is_due now r) (qs_rows db))))"

definition claimable :: "uuid \<Rightarrow> queue_row \<Rightarrow> bool" where
  "claimable qid r \<longleftrightarrow> by_id qid r \<and> has_status [Pending] r"

definition claim_row :: "timestamp \<Rightarrow> uuid \<Rightarrow> qstore \<Rightarrow> nat \<times> qstore" where
  "claim_row now qid db =
     (rows_affected (claimable qid) (qs_rows db),
      set_rows (update_where (claimable qid)
        (\<lambda>r. r\<lparr>q_status := queue_status_as_str Running, q_attempts := q_attempts r + 1,
               q_updated_at := now\<rparr>)) db)"

fun claim_loop ::
  "timestamp \<Rightarrow> uuid \<Rightarrow> uuid list \<Rightarrow> qstore \<Rightarrow>
   (queue_error + mutation_queue_item option) \<times> qstore" where
  "claim_loop now user_id [] db = (Inr None, db)"
| "claim_loop now user_id (qid # ids) db =
     (case claim_row now qid db of (n, db') \<Rightarrow>
        if n > 0 then
          ((case queue_item user_id qid db' of
              Inl e \<Rightarrow> Inl e
            | Inr None \<Rightarrow> Inl ExpectFailed
            | Inr (Some item) \<Rightarrow> Inr (Some item)), db')
        else claim_loop now user_id ids db')"

definition claim_due_for_user ::
  "timestamp \<Rightarrow> uuid \<Rightarrow> qstore \<Rightarrow> (queue_error + mutation_queue_item option) \<times> qstore" where
  "claim_due_for_user now user_id db =
     claim_loop now user_id (claim_candidates now user_id db) db"

text \<open>
  \<^verbatim>\<open>mark_done\<close>, \<^verbatim>\<open>mark_failed\<close>, \<^verbatim>\<open>mark_dead\<close>.  The UPDATEs name the row by its identifier only.
  \<open>to_json\<close> stands for \<^verbatim>\<open>serde_json::to_string\<close> on the list of paths.
\<close>

definition mark_done ::
  "(rstring list \<Rightarrow> rstring option) \<Rightarrow> timestamp \<Rightarrow> uuid \<Rightarrow> rstring list \<Rightarrow> rstring \<Rightarrow> qstore \<Rightarrow>
   (queue_error + unit) \<times> qstore" where
  "mark_done to_json now qid paths detail db =
     (let paths_json = (case to_json paths of None \<Rightarrow> str ''[]'' | Some j \<Rightarrow> j)
      in (Inr (), set_rows (update_where (by_id qid)
           (\<lambda>r. r\<lparr>q_status := queue_status_as_str Done, q_final_paths := Some paths_json,
                  q_detail := detail, q_updated_at := now, q_next_retry_at := None\<rparr>)) db))"

definition mark_failed ::
  "timestamp \<Rightarrow> uuid \<Rightarrow> timestamp \<Rightarrow> rstring \<Rightarrow> qstore \<Rightarrow> (queue_error + unit) \<times> qstore" where
  "mark_failed now qid next_retry_at detail db =
     (Inr (), set_rows (update_where (by_id qid)
        (\<lambda>r. r\<lparr>q_status := queue_status_as_str Pending, q_next_retry_at := Some next_retry_at,
               q_detail := detail, q_updated_at := now\<rparr>)) db)"

definition mark_dead :: "timestamp \<Rightarrow> uuid \<Rightarrow> rstring \<Rightarrow> qstore \<Rightarrow> (queue_error + unit) \<times> qstore" where
  "mark_dead now qid detail db =
     (Inr (), set_rows (update_where (by_id qid)
        (\<lambda>r. r\<lparr>q_status := queue_status_as_str Dead, q_detail := detail,
               q_updated_at := now, q_next_retry_at := None\<rparr>)) db)"

section \<open>Scans\<close>

text \<open>
  \<^verbatim>\<open>queue_users_with_due\<close>: the groups of due rows by user, ordered by the oldest row of the
  group.
\<close>

definition oldest_due :: "timestamp \<Rightarrow> qstore \<Rightarrow> uuid \<Rightarrow> timestamp" where
  "oldest_due now db user_id =
     Min (q_created_at ` set (filter (\<lambda>r. is_due now r \<and> q_user_id r = user_id) (qs_rows db)))"

definition queue_users_with_due :: "timestamp \<Rightarrow> qstore \<Rightarrow> uuid list" where
  "queue_users_with_due now db =
     order_by (oldest_due now db)
       (sort (remdups (map q_user_id (filter (is_due now) (qs_rows db)))))"

definition rows_with_status ::
  "queue_status \<Rightarrow> qstore \<Rightarrow> queue_error + mutation_queue_item list" where
  "rows_with_status status db =
     and_then
       (collect_results (map (\<lambda>r. queue_item (q_user_id r) (q_id r) db)
          (order_by q_created_at (filter (has_status [status]) (qs_rows db)))))
       (\<lambda>items. Inr (List.map_filter (\<lambda>i. i) items))"

definition staging_rows :: "qstore \<Rightarrow> queue_error + mutation_queue_item list" where
  "staging_rows db = rows_with_status Staging db"

definition running_rows :: "qstore \<Rightarrow> queue_error + mutation_queue_item list" where
  "running_rows db = rows_with_status Running db"

text \<open>The inner join of the admin scans with \<^verbatim>\<open>users\<close>.\<close>

definition join_users :: "qstore \<Rightarrow> queue_row list \<Rightarrow> (queue_row \<times> rstring) list" where
  "join_users db rows =
     concat (map (\<lambda>r. map (\<lambda>u. (r, snd u)) (filter (\<lambda>u. fst u = q_user_id r) (qs_users db))) rows)"

definition queue_waiting_rows :: "qstore \<Rightarrow> queue_error + queue_waiting_row list" where
  "queue_waiting_rows db =
     collect_results (map decode_admin_row
       (join_users db (order_by q_created_at (filter (has_status [Staging, Pending]) (qs_rows db)))))"

definition queue_recent_rows :: "nat \<Rightarrow> qstore \<Rightarrow> queue_error + queue_waiting_row list" where
  "queue_recent_rows limit db =
     collect_results (map decode_admin_row
       (take limit (join_users db (rev (order_by q_created_at (qs_rows db))))))"

section \<open>Counters\<close>

record queue_health =
  qh_depth :: nat
  qh_oldest_pending_age_seconds :: "nat option"
  qh_dead_count :: nat
  qh_per_tool :: "(queue_tool \<times> nat) list"

record queue_totals_rec =
  qt_queued_per_tool :: "(queue_tool \<times> nat) list"
  qt_integrated :: nat
  qt_fallback :: nat
  qt_dead :: nat

definition has_tool :: "queue_tool \<Rightarrow> queue_row \<Rightarrow> bool" where
  "has_tool t r \<longleftrightarrow> q_tool r = queue_tool_as_str t"

definition queue_health_counts :: "timestamp \<Rightarrow> qstore \<Rightarrow> queue_health" where
  "queue_health_counts now db =
     (let rows = qs_rows db; pending = filter (has_status [Pending]) rows;
          oldest = (if pending = [] then None else Some (Min (q_created_at ` set pending)))
      in \<lparr>qh_depth = count_where non_terminal rows,
          qh_oldest_pending_age_seconds = map_option (\<lambda>t. (now - t) div 10 ^ 9) oldest,
          qh_dead_count = count_where (has_status [Dead]) rows,
          qh_per_tool = map (\<lambda>t. (t, count_where (\<lambda>r. has_tool t r \<and> non_terminal r) rows))
            [Add, Update, Maintain]\<rparr>)"

definition fallback_detail :: rstring where
  "fallback_detail = str ''integrated via deterministic fallback''"

definition queue_totals :: "qstore \<Rightarrow> queue_totals_rec" where
  "queue_totals db =
     (let rows = qs_rows db
      in \<lparr>qt_queued_per_tool = map (\<lambda>t. (t, count_where (has_tool t) rows)) [Add, Update, Maintain],
          qt_integrated = count_where
            (\<lambda>r. has_status [Done] r \<and> \<not> like_prefix fallback_detail (q_detail r)) rows,
          qt_fallback = count_where
            (\<lambda>r. has_status [Done] r \<and> like_prefix fallback_detail (q_detail r)) rows,
          qt_dead = count_where (has_status [Dead]) rows\<rparr>)"

section \<open>Paths of the payloads\<close>

text \<open>
  \<^verbatim>\<open>payload_path\<close> and \<^verbatim>\<open>stage_note_path\<close>; \<open>show_uuid\<close> stands for the \<^verbatim>\<open>Display\<close> of the \<^verbatim>\<open>uuid\<close>
  crate.
\<close>

record mutation_payload =
  mp_tool :: queue_tool
  mp_args_json :: rstring
  mp_content :: rstring

definition payload_path :: "(uuid \<Rightarrow> rstring) \<Rightarrow> uuid \<Rightarrow> rstring" where
  "payload_path show_uuid qid = str ''/mutation-queue/'' @ show_uuid qid"

definition stage_note_path :: "(uuid \<Rightarrow> rstring) \<Rightarrow> uuid \<Rightarrow> rstring" where
  "stage_note_path show_uuid qid = str ''/mutation-queue/'' @ show_uuid qid @ str ''.md''"

end
