(* ===== verification/Queue_Events.thy ===== *)
theory Queue_Events
  imports Mutation_Queue
begin

text \<open>
  The mutation queue under interleaving.  Several processes issue statements against one
  table: MCP requests enqueue and activate, drain passes claim and mark, the boot sweep
  requeues.  Here every state-changing statement is an event, a run is a list of events with
  their clock readings, and the theorems hold for every order of the events.
\<close>

section \<open>Events\<close>

text \<open>The running-to-pending repair of \<^verbatim>\<open>QueueWorker::recover_on_boot\<close> on one row.\<close>

definition requeue_running :: "timestamp \<Rightarrow> uuid \<Rightarrow> qstore \<Rightarrow> qstore" where
  "requeue_running now qid db =
     set_rows (update_where (\<lambda>r. by_id qid r \<and> has_status [Running] r)
       (\<lambda>r. r\<lparr>q_status := queue_status_as_str Pending, q_detail := str ''interrupted by restart'',
              q_updated_at := now, q_next_retry_at := None\<rparr>)) db"

datatype queue_event =
    EvEnqueue uuid uuid queue_tool nat rstring
  | EvActivate uuid
  | EvClaim uuid
  | EvDone uuid "rstring list" rstring
  | EvFailed uuid timestamp rstring
  | EvDead uuid rstring
  | EvRequeue uuid

fun queue_step ::
  "(rstring list \<Rightarrow> rstring option) \<Rightarrow> timestamp \<Rightarrow> queue_event \<Rightarrow> qstore \<Rightarrow> qstore" where
  "queue_step tj now (EvEnqueue qid u t cap src) db = snd (enqueue_capped qid now u t cap src db)"
| "queue_step tj now (EvActivate qid) db = snd (activate now qid db)"
| "queue_step tj now (EvClaim qid) db = snd (claim_row now qid db)"
| "queue_step tj now (EvDone qid ps d) db = snd (mark_done tj now qid ps d db)"
| "queue_step tj now (EvFailed qid t d) db = snd (mark_failed now qid t d db)"
| "queue_step tj now (EvDead qid d) db = snd (mark_dead now qid d db)"
| "queue_step tj now (EvRequeue qid) db = requeue_running now qid db"

fun queue_run ::
  "(rstring list \<Rightarrow> rstring option) \<Rightarrow> (timestamp \<times> queue_event) list \<Rightarrow> qstore \<Rightarrow> qstore" where
  "queue_run tj [] db = db"
| "queue_run tj (ne # es) db = queue_run tj es (queue_step tj (fst ne) (snd ne) db)"

text \<open>An event wins the claim of a row when its UPDATE affects it.\<close>

definition wins :: "uuid \<Rightarrow> queue_event \<Rightarrow> qstore \<Rightarrow> bool" where
  "wins qid e db \<longleftrightarrow> e = EvClaim qid \<and> fst (claim_row 0 qid db) > 0"

fun won_claims ::
  "(rstring list \<Rightarrow> rstring option) \<Rightarrow> uuid \<Rightarrow> (timestamp \<times> queue_event) list \<Rightarrow> qstore \<Rightarrow> nat" where
  "won_claims tj qid [] db = 0"
| "won_claims tj qid (ne # es) db =
     (if wins qid (snd ne) db then 1 else 0)
     + won_claims tj qid es (queue_step tj (fst ne) (snd ne) db)"

definition row_of :: "uuid \<Rightarrow> qstore \<Rightarrow> queue_row option" where
  "row_of qid db = fetch_optional (by_id qid) (qs_rows db)"

definition attempts_of :: "uuid \<Rightarrow> qstore \<Rightarrow> int" where
  "attempts_of qid db = (case row_of qid db of None \<Rightarrow> 0 | Some r \<Rightarrow> q_attempts r)"

text \<open>The events that put a row back to pending.\<close>

fun requeues :: "uuid \<Rightarrow> queue_event \<Rightarrow> bool" where
  "requeues qid (EvFailed q t d) = (q = qid)"
| "requeues qid (EvRequeue q) = (q = qid)"
| "requeues qid e = False"

fun is_enqueue :: "queue_event \<Rightarrow> bool" where
  "is_enqueue (EvEnqueue _ _ _ _ _) = True"
| "is_enqueue _ = False"

section \<open>Invariant\<close>

definition row_ok :: "qstore \<Rightarrow> queue_row \<Rightarrow> bool" where
  "row_ok db r \<longleftrightarrow>
     q_user_id r \<in> fst ` set (qs_users db) \<and>
     queue_tool_from_str (q_tool r) \<noteq> None \<and>
     queue_status_from_str (q_status r) \<noteq> None \<and>
     0 \<le> q_attempts r"

definition queue_inv :: "qstore \<Rightarrow> bool" where
  "queue_inv db \<longleftrightarrow>
     distinct (map fst (qs_users db)) \<and> distinct (map q_id (qs_rows db)) \<and>
     list_all (row_ok db) (qs_rows db)"

text \<open>
  The callers of the retry mark (\<^verbatim>\<open>queue_worker.rs\<close>) apply it to a row they have claimed.  The
  UPDATE itself does not check it, so a run in which it is respected is a hypothesis where it
  matters.
\<close>

fun retries_open_rows ::
  "(rstring list \<Rightarrow> rstring option) \<Rightarrow> (timestamp \<times> queue_event) list \<Rightarrow> qstore \<Rightarrow> bool" where
  "retries_open_rows tj [] db = True"
| "retries_open_rows tj (ne # es) db =
     ((case snd ne of
         EvFailed qid _ _ \<Rightarrow> list_all (\<lambda>r. by_id qid r \<longrightarrow> non_terminal r) (qs_rows db)
       | _ \<Rightarrow> True) \<and> retries_open_rows tj es (queue_step tj (fst ne) (snd ne) db))"

fun caps_below :: "nat \<Rightarrow> queue_event \<Rightarrow> bool" where
  "caps_below k (EvEnqueue _ _ _ cap _) = (cap \<le> k)"
| "caps_below k _ = True"

text \<open>A small database for the examples: two pending items of one user, the second one older.\<close>

definition sample_queue :: qstore where
  "sample_queue = \<lparr>qs_users = [(7, str ''ann''), (8, str ''bob'')], qs_rows =
     [(staged_row 1 20 7 Add [])\<lparr>q_status := str ''pending''\<rparr>,
      (staged_row 2 10 7 Update [])\<lparr>q_status := str ''pending''\<rparr>,
      staged_row 3 5 8 Maintain []]\<rparr>"

section \<open>Every event but an enqueue is one conditional update\<close>

fun event_pred :: "queue_event \<Rightarrow> queue_row \<Rightarrow> bool" where
  "event_pred (EvEnqueue _ _ _ _ _) r = False"
| "event_pred (EvActivate qid) r = (by_id qid r \<and> has_status [Staging, Pending] r)"
| "event_pred (EvClaim qid) r = claimable qid r"
| "event_pred (EvDone qid _ _) r = by_id qid r"
| "event_pred (EvFailed qid _ _) r = by_id qid r"
| "event_pred (EvDead qid _) r = by_id qid r"
| "event_pred (EvRequeue qid) r = (by_id qid r \<and> has_status [Running] r)"

fun event_update ::
  "(rstring list \<Rightarrow> rstring option) \<Rightarrow> timestamp \<Rightarrow> queue_event \<Rightarrow> queue_row \<Rightarrow> queue_row" where
  "event_update tj now (EvEnqueue _ _ _ _ _) r = r"
| "event_update tj now (EvActivate qid) r =
     r\<lparr>q_status := queue_status_as_str Pending, q_updated_at := now\<rparr>"
| "event_update tj now (EvClaim qid) r =
     r\<lparr>q_status := queue_status_as_str Running, q_attempts := q_attempts r + 1, q_updated_at := now\<rparr>"
| "event_update tj now (EvDone qid ps d) r =
     r\<lparr>q_status := queue_status_as_str Done,
       q_final_paths := Some (case tj ps of None \<Rightarrow> str ''[]'' | Some j \<Rightarrow> j),
       q_detail := d, q_updated_at := now, q_next_retry_at := None\<rparr>"
| "event_update tj now (EvFailed qid t d) r =
     r\<lparr>q_status := queue_status_as_str Pending, q_next_retry_at := Some t, q_detail := d,
       q_updated_at := now\<rparr>"
| "event_update tj now (EvDead qid d) r =
     r\<lparr>q_status := queue_status_as_str Dead, q_detail := d, q_updated_at := now,
       q_next_retry_at := None\<rparr>"
| "event_update tj now (EvRequeue qid) r =
     r\<lparr>q_status := queue_status_as_str Pending, q_detail := str ''interrupted by restart'',
       q_updated_at := now, q_next_retry_at := None\<rparr>"

lemmas queue_op_defs =
  activate_def claim_row_def mark_done_def mark_failed_def mark_dead_def requeue_running_def

lemma set_rows_sel [simp]:
  "qs_rows (set_rows f db) = f (qs_rows db)"
  "qs_users (set_rows f db) = qs_users db"
  by (simp_all add: set_rows_def)

lemma staged_row_sel [simp]:
  "q_id (staged_row q now u t src) = q"
  "q_user_id (staged_row q now u t src) = u"
  "q_tool (staged_row q now u t src) = queue_tool_as_str t"
  "q_status (staged_row q now u t src) = queue_status_as_str Staging"
  "q_attempts (staged_row q now u t src) = 0"
  "q_created_at (staged_row q now u t src) = now"
  "q_next_retry_at (staged_row q now u t src) = None"
  by (simp_all add: staged_row_def)

lemma row_ok_set_rows [simp]: "row_ok (set_rows f db) = row_ok db"
  by (simp add: row_ok_def fun_eq_iff)

lemma queue_step_enqueue:
  "queue_step tj now (EvEnqueue qid u t cap src) db =
     (if user_depth u db \<ge> cap \<or> (\<exists>r \<in> set (qs_rows db). q_id r = qid)
         \<or> u \<notin> fst ` set (qs_users db) then db
      else set_rows (\<lambda>rows. rows @ [staged_row qid now u t src]) db)"
  by (auto simp: enqueue_capped_def enqueue_def)

lemma queue_step_update:
  "\<not> is_enqueue e \<Longrightarrow>
   queue_step tj now e db = set_rows (update_where (event_pred e) (event_update tj now e)) db"
proof (cases e)
  case (EvDone qid ps d)
  then show ?thesis
    by (simp add: mark_done_def Let_def update_where_def set_rows_def)
qed (simp_all add: queue_op_defs update_where_def set_rows_def cong: map_cong)

lemma event_update_keeps [simp]:
  "q_id (event_update tj now e r) = q_id r"
  "q_user_id (event_update tj now e r) = q_user_id r"
  "q_tool (event_update tj now e r) = q_tool r"
  "q_created_at (event_update tj now e r) = q_created_at r"
  "q_source (event_update tj now e r) = q_source r"
  by (cases e; simp)+

lemma event_update_attempts:
  "q_attempts (event_update tj now e r) =
     q_attempts r + (case e of EvClaim _ \<Rightarrow> 1 | _ \<Rightarrow> 0)"
  by (cases e) simp_all

lemma event_update_status:
  "queue_status_from_str (q_status r) \<noteq> None \<Longrightarrow>
   queue_status_from_str (q_status (event_update tj now e r)) \<noteq> None"
  by (cases e) (auto simp del: queue_status_as_str.simps)

lemma by_id_event_update [simp]: "by_id qid (event_update tj now e r) = by_id qid r"
  by (simp add: by_id_def)

lemma event_pred_id: "event_pred e r \<Longrightarrow> \<exists>qid. by_id qid r"
  by (auto simp: by_id_def)

lemma queue_step_users [simp]: "qs_users (queue_step tj now e db) = qs_users db"
proof (cases e)
  case (EvEnqueue qid u t cap src)
  then show ?thesis by (simp only: queue_step_enqueue) simp
qed (simp_all add: queue_op_defs Let_def)

lemma row_of_update:
  "\<not> is_enqueue e \<Longrightarrow>
   row_of qid (queue_step tj now e db) =
     map_option (\<lambda>r. if event_pred e r then event_update tj now e r else r) (row_of qid db)"
  by (simp add: queue_step_update row_of_def fetch_optional_update del: queue_step.simps)

lemma row_of_enqueue:
  "row_of qid (queue_step tj now (EvEnqueue q u t cap src) db) =
     (case row_of qid db of
        Some r \<Rightarrow> Some r
      | None \<Rightarrow> if queue_step tj now (EvEnqueue q u t cap src) db = db \<or> q \<noteq> qid then None
                else Some (staged_row q now u t src))"
  unfolding queue_step_enqueue
  by (auto simp: row_of_def fetch_optional_append set_rows_def by_id_def split: option.splits
      dest: arg_cong [where f = qs_rows])

section \<open>The invariant holds along every run\<close>

lemma sample_queue_inv: "queue_inv sample_queue"
  by (simp add: sample_queue_def queue_inv_def row_ok_def queue_tool_from_str_def
      queue_status_from_str_def)

lemma queue_step_inv:
  assumes inv: "queue_inv db"
  shows "queue_inv (queue_step tj now e db)"
proof (cases "is_enqueue e")
  case True
  then obtain qid u t cap src where "e = EvEnqueue qid u t cap src" by (cases e) auto
  with inv show ?thesis
    by (auto simp: queue_step_enqueue queue_inv_def row_ok_def list_all_iff
        simp del: queue_step.simps queue_tool_as_str.simps queue_status_as_str.simps)
next
  case False
  then have step: "queue_step tj now e db =
      set_rows (update_where (event_pred e) (event_update tj now e)) db"
    by (intro queue_step_update)
  have row: "row_ok db (event_update tj now e r)" if "row_ok db r" for r
    using that event_update_status [of r tj now e]
    by (cases e) (auto simp: row_ok_def event_update_attempts)
  have "map q_id (update_where (event_pred e) (event_update tj now e) (qs_rows db))
      = map q_id (qs_rows db)"
    by (rule update_where_key) simp
  then show ?thesis
    using inv row unfolding step queue_inv_def
    by (auto simp: list_all_iff set_update_where)
qed

lemma queue_run_inv: "queue_inv db \<Longrightarrow> queue_inv (queue_run tj es db)"
  by (induction es arbitrary: db) (simp_all add: queue_step_inv)

section \<open>Claims\<close>

lemma wins_iff: "wins qid e db \<longleftrightarrow> e = EvClaim qid \<and> (\<exists>r \<in> set (qs_rows db). claimable qid r)"
  by (simp add: wins_def claim_row_def rows_affected_pos)

lemma row_of_SomeD: "row_of qid db = Some r \<Longrightarrow> r \<in> set (qs_rows db) \<and> by_id qid r"
  unfolding row_of_def by (rule fetch_optional_SomeD)

lemma row_of_unique:
  assumes "queue_inv db" and "r \<in> set (qs_rows db)" and "by_id qid r"
  shows "row_of qid db = Some r"
  unfolding row_of_def using assms
  by (intro fetch_optional_by_key [where k = q_id]) (auto simp: queue_inv_def by_id_def)

lemma wins_row_of:
  assumes "queue_inv db"
  shows "wins qid e db \<longleftrightarrow>
    e = EvClaim qid \<and> (\<exists>r. row_of qid db = Some r \<and> has_status [Pending] r)"
proof
  assume "wins qid e db"
  then obtain r where "e = EvClaim qid" "r \<in> set (qs_rows db)" "by_id qid r" "has_status [Pending] r"
    by (auto simp: wins_iff claimable_def)
  with row_of_unique [OF assms] show "e = EvClaim qid \<and> (\<exists>r. row_of qid db = Some r \<and> has_status [Pending] r)"
    by blast
next
  assume "e = EvClaim qid \<and> (\<exists>r. row_of qid db = Some r \<and> has_status [Pending] r)"
  then show "wins qid e db"
    by (auto simp: wins_iff claimable_def dest: row_of_SomeD)
qed

lemma attempts_of_step:
  assumes inv: "queue_inv db"
  shows "attempts_of qid (queue_step tj now e db) =
    attempts_of qid db + (if wins qid e db then 1 else 0)"
proof (cases "is_enqueue e")
  case True
  then obtain q u t cap src where "e = EvEnqueue q u t cap src" by (cases e) auto
  then show ?thesis
    by (auto simp: attempts_of_def row_of_enqueue wins_iff simp del: queue_step.simps
        split: option.splits if_splits)
next
  case False
  then have ro: "row_of qid (queue_step tj now e db) =
     map_option (\<lambda>r. if event_pred e r then event_update tj now e r else r) (row_of qid db)"
    by (intro row_of_update)
  have "by_id qid r" if "row_of qid db = Some r" for r
    using that by (blast dest: row_of_SomeD)
  with inv show ?thesis
    unfolding attempts_of_def ro
    by (cases e) (auto simp: wins_row_of claimable_def by_id_def split: option.splits)
qed

text \<open>Along any interleaving of queue statements, the attempts counter of an item grows by
  exactly the number of claim statements that affected its row: a claimer that lost the race
  is never counted, and no other statement touches the counter.\<close>
theorem attempts_count_claims:
  assumes "queue_inv db"
  shows "attempts_of qid (queue_run tj es db) = attempts_of qid db + int (won_claims tj qid es db)"
  using assms
proof (induction es arbitrary: db)
  case (Cons ne es)
  then show ?case
    by (simp add: queue_step_inv attempts_of_step)
qed simp

theorem attempts_count_claims_witness:
  "attempts_of 2 (queue_run (\<lambda>_. None)
     [(30, EvClaim 2), (31, EvClaim 2), (32, EvFailed 2 60 []), (61, EvClaim 2)] sample_queue) = 2"
proof -
  have "won_claims (\<lambda>_. None) 2
     [(30, EvClaim 2), (31, EvClaim 2), (32, EvFailed 2 60 []), (61, EvClaim 2)] sample_queue = 2"
    by code_simp
  moreover have "attempts_of 2 sample_queue = 0" by code_simp
  ultimately show ?thesis
    using attempts_count_claims [OF sample_queue_inv, of 2 "\<lambda>_. None"
        "[(30, EvClaim 2), (31, EvClaim 2), (32, EvFailed 2 60 []), (61, EvClaim 2)]"] by simp
qed

definition not_claimable :: "uuid \<Rightarrow> qstore \<Rightarrow> bool" where
  "not_claimable qid db \<longleftrightarrow>
     (\<exists>r. row_of qid db = Some r \<and> \<not> has_status [Staging, Pending] r)"

lemma has_status_as_str [simp]:
  "has_status ss (r\<lparr>q_status := queue_status_as_str s\<rparr>) \<longleftrightarrow> s \<in> set ss"
  by (auto simp: has_status_def)

lemma has_status_frame [simp]:
  "has_status ss (r\<lparr>q_attempts := a\<rparr>) = has_status ss r"
  "has_status ss (r\<lparr>q_detail := d\<rparr>) = has_status ss r"
  "has_status ss (r\<lparr>q_updated_at := t\<rparr>) = has_status ss r"
  "has_status ss (r\<lparr>q_next_retry_at := nr\<rparr>) = has_status ss r"
  "has_status ss (r\<lparr>q_final_paths := fp\<rparr>) = has_status ss r"
  by (simp_all add: has_status_def)

lemma not_claimable_step:
  assumes "not_claimable qid db" and "\<not> requeues qid e"
  shows "not_claimable qid (queue_step tj now e db)"
proof (cases "is_enqueue e")
  case True
  then obtain q u t cap src where "e = EvEnqueue q u t cap src" by (cases e) auto
  with assms(1) show ?thesis
    by (auto simp: not_claimable_def row_of_enqueue simp del: queue_step.simps)
next
  case False
  then have ro: "row_of qid (queue_step tj now e db) =
     map_option (\<lambda>r. if event_pred e r then event_update tj now e r else r) (row_of qid db)"
    by (intro row_of_update)
  from assms(1) obtain r where r: "row_of qid db = Some r" and ns: "\<not> has_status [Staging, Pending] r"
    by (auto simp: not_claimable_def)
  from r have "by_id qid r" by (blast dest: row_of_SomeD)
  with assms(2) r ns show ?thesis
    unfolding not_claimable_def ro
    by (cases e) (auto simp: claimable_def by_id_def simp del: queue_status_as_str.simps)
qed

lemma not_claimable_run:
  "not_claimable qid db \<Longrightarrow> \<forall>ne \<in> set es. \<not> requeues qid (snd ne) \<Longrightarrow>
   not_claimable qid (queue_run tj es db)"
  by (induction es arbitrary: db) (auto intro: not_claimable_step)

lemma not_claimable_no_win: "queue_inv db \<Longrightarrow> not_claimable qid db \<Longrightarrow> \<not> wins qid e db"
  by (auto simp: wins_row_of not_claimable_def has_status_def)

lemma wins_not_claimable:
  assumes "queue_inv db" and "wins qid e db"
  shows "not_claimable qid (queue_step tj now e db)"
proof -
  from assms have e: "e = EvClaim qid" by (simp add: wins_iff)
  from assms obtain r where r: "row_of qid db = Some r" "has_status [Pending] r"
    by (auto simp: wins_row_of)
  then have "by_id qid r" by (blast dest: row_of_SomeD)
  with r show ?thesis
    unfolding not_claimable_def e
    by (subst row_of_update) (auto simp: claimable_def simp del: queue_step.simps queue_status_as_str.simps)
qed

text \<open>C22.  A queue item is worked by one claimer at a time: once a claim statement has taken a
  row, no other claim statement takes it, whatever is interleaved (activations, other claims,
  done or dead marks, new enqueues), until a retry mark or the boot sweep puts the row back.\<close>
theorem claim_exclusive:
  assumes "queue_inv db" and "wins qid e db"
    and "\<forall>ne \<in> set es. \<not> requeues qid (snd ne)"
  shows "\<not> wins qid e' (queue_run tj es (queue_step tj now e db))"
proof (rule not_claimable_no_win)
  show "queue_inv (queue_run tj es (queue_step tj now e db))"
    using assms(1) by (intro queue_run_inv queue_step_inv)
  show "not_claimable qid (queue_run tj es (queue_step tj now e db))"
    using assms by (intro not_claimable_run wins_not_claimable)
qed

theorem claim_exclusive_witness:
  "\<not> wins 2 (EvClaim 2) (queue_run (\<lambda>_. None) [(31, EvActivate 2), (32, EvClaim 1)]
       (queue_step (\<lambda>_. None) 30 (EvClaim 2) sample_queue))"
proof (rule claim_exclusive [OF sample_queue_inv])
  show "wins 2 (EvClaim 2) sample_queue" by code_simp
qed simp

section \<open>Claiming for a user\<close>

lemma order_by_head:
  assumes "D \<noteq> []"
  obtains r rest where "order_by f D = r # rest" and "r \<in> set D" and "\<forall>r' \<in> set D. f r \<le> f r'"
proof -
  from assms obtain r rest where o: "order_by f D = r # rest"
    by (metis list.exhaust order_by_eq_Nil)
  then have "set D = set (r # rest)" by (metis set_order_by)
  moreover have "sorted (map f (r # rest))" by (metis o sorted_order_by)
  ultimately show ?thesis using o by (intro that [of r rest]) auto
qed

lemma claim_candidates_empty:
  "\<forall>r \<in> set (qs_rows db). \<not> (q_user_id r = u \<and> is_due now r) \<Longrightarrow> claim_candidates now u db = []"
  by (simp add: claim_candidates_def filter_empty_conv)

lemma queue_item_after_claim:
  assumes inv: "queue_inv db" and r: "r \<in> set (qs_rows db)" "has_status [Pending] r"
  shows "\<exists>item. queue_item (q_user_id r) (q_id r) (snd (claim_row now (q_id r) db)) = Inr (Some item)
    \<and> mi_id item = q_id r \<and> mi_user_id item = q_user_id r \<and> mi_status item = Running
    \<and> mi_attempts item = attempts_u32 (q_attempts r + 1) \<and> mi_created_at item = q_created_at r"
proof -
  let ?e = "EvClaim (q_id r)" and ?db = "snd (claim_row now (q_id r) db)"
  let ?r = "event_update (\<lambda>_. None) now ?e r"
  have db: "?db = queue_step (\<lambda>_. None) now ?e db" by simp
  have "row_of (q_id r) db = Some r" using inv r(1) by (simp add: row_of_unique by_id_def)
  moreover have "event_pred ?e r" using r(2) by (simp add: claimable_def by_id_def)
  ultimately have "row_of (q_id r) ?db = Some ?r"
    unfolding db by (subst row_of_update) auto
  then have mem: "?r \<in> set (qs_rows ?db)" by (blast dest: row_of_SomeD)
  have inv': "queue_inv ?db" unfolding db by (rule queue_step_inv [OF inv])
  have "fetch_optional (\<lambda>r'. q_id r' = q_id r \<and> q_user_id r' = q_user_id r) (qs_rows ?db) = Some ?r"
    using inv' mem
    by (intro fetch_optional_by_key [where k = q_id])
      (auto simp: queue_inv_def simp del: event_update.simps)
  moreover have "queue_tool_from_str (q_tool r) \<noteq> None"
    using inv r(1) by (simp add: queue_inv_def row_ok_def list_all_iff)
  ultimately show ?thesis
    by (auto simp: queue_item_def decode_item_def simp del: queue_status_as_str.simps)
qed

lemma claim_due_cases:
  assumes inv: "queue_inv db"
  shows "if \<exists>r \<in> set (qs_rows db). q_user_id r = u \<and> is_due now r
    then \<exists>r item. r \<in> set (qs_rows db) \<and> q_user_id r = u \<and> is_due now r
      \<and> (\<forall>r' \<in> set (qs_rows db). q_user_id r' = u \<and> is_due now r' \<longrightarrow> q_created_at r \<le> q_created_at r')
      \<and> claim_due_for_user now u db = (Inr (Some item), queue_step tj now (EvClaim (q_id r)) db)
      \<and> mi_id item = q_id r \<and> mi_user_id item = u \<and> mi_status item = Running
      \<and> mi_attempts item = attempts_u32 (q_attempts r + 1) \<and> mi_created_at item = q_created_at r
    else claim_due_for_user now u db = (Inr None, db)"
proof (cases "\<exists>r \<in> set (qs_rows db). q_user_id r = u \<and> is_due now r")
  case False
  then show ?thesis by (auto simp: claim_due_for_user_def claim_candidates_empty)
next
  case True
  let ?D = "filter (\<lambda>r. q_user_id r = u \<and> is_due now r) (qs_rows db)"
  from True have "?D \<noteq> []" by (simp add: filter_empty_conv)
  then obtain r rest where o: "order_by q_created_at ?D = r # rest" and r: "r \<in> set ?D"
    and least: "\<forall>r' \<in> set ?D. q_created_at r \<le> q_created_at r'"
    by (rule order_by_head)
  from r have mem: "r \<in> set (qs_rows db)" and u: "q_user_id r = u" and due: "is_due now r" by auto
  then have pend: "has_status [Pending] r" by (simp add: is_due_def)
  obtain ids where cand: "claim_candidates now u db = q_id r # ids"
    by (simp add: claim_candidates_def o)
  from mem pend have n: "fst (claim_row now (q_id r) db) > 0"
    by (auto simp: claim_row_def rows_affected_pos claimable_def by_id_def)
  from queue_item_after_claim [OF inv mem pend] obtain item where
    item: "queue_item u (q_id r) (snd (claim_row now (q_id r) db)) = Inr (Some item)"
      "mi_id item = q_id r" "mi_user_id item = u" "mi_status item = Running"
      "mi_attempts item = attempts_u32 (q_attempts r + 1)" "mi_created_at item = q_created_at r"
    using u by blast
  have "claim_due_for_user now u db = (Inr (Some item), queue_step tj now (EvClaim (q_id r)) db)"
    using n item(1) by (simp add: claim_due_for_user_def cand case_prod_beta)
  with True mem u due least item(2-) show ?thesis by auto
qed

text \<open>Claiming for a user takes the user's oldest due pending item, if there is one: the item
  comes back running, with its attempts counted, and the database changes by that one claim.
  If no item of the user is due, nothing is claimed and nothing changes.\<close>
theorem claim_takes_oldest_due:
  assumes inv: "queue_inv db"
  shows "if \<exists>r \<in> set (qs_rows db). q_user_id r = u \<and> is_due now r
    then \<exists>r item. r \<in> set (qs_rows db) \<and> q_user_id r = u \<and> is_due now r
      \<and> (\<forall>r' \<in> set (qs_rows db). q_user_id r' = u \<and> is_due now r' \<longrightarrow> q_created_at r \<le> q_created_at r')
      \<and> claim_due_for_user now u db = (Inr (Some item), queue_step tj now (EvClaim (q_id r)) db)
      \<and> mi_id item = q_id r \<and> mi_user_id item = u \<and> mi_status item = Running
      \<and> mi_attempts item = attempts_u32 (q_attempts r + 1) \<and> mi_created_at item = q_created_at r
    else claim_due_for_user now u db = (Inr None, db)"
  using inv by (rule claim_due_cases)

theorem claim_takes_oldest_due_witness:
  "queue_inv sample_queue \<and>
   (\<exists>item. fst (claim_due_for_user 30 7 sample_queue) = Inr (Some item) \<and> mi_id item = 2)"
proof -
  have due: "\<exists>r \<in> set (qs_rows sample_queue). q_user_id r = 7 \<and> is_due 30 r"
    by (simp add: sample_queue_def is_due_def has_status_def)
  from claim_takes_oldest_due [OF sample_queue_inv, of 7 30 "\<lambda>_. None"] due
  obtain r item where "r \<in> set (qs_rows sample_queue)" "q_user_id r = 7"
    "\<forall>r' \<in> set (qs_rows sample_queue). q_user_id r' = 7 \<and> is_due 30 r' \<longrightarrow> q_created_at r \<le> q_created_at r'"
    "fst (claim_due_for_user 30 7 sample_queue) = Inr (Some item)" "mi_id item = q_id r"
    by auto
  then show ?thesis
    using sample_queue_inv by (auto simp: sample_queue_def is_due_def has_status_def)
qed

section \<open>Isolation between users\<close>

lemma claim_other_users:
  assumes inv: "queue_inv db"
  shows "filter (\<lambda>r. q_user_id r \<noteq> u) (qs_rows (snd (claim_due_for_user now u db))) =
    filter (\<lambda>r. q_user_id r \<noteq> u) (qs_rows db)"
proof (cases "\<exists>r \<in> set (qs_rows db). q_user_id r = u \<and> is_due now r")
  case False
  with claim_due_cases [OF inv, of u now] show ?thesis by simp
next
  case True
  with claim_due_cases [OF inv, of u now "\<lambda>_. None"] obtain r where
    r: "r \<in> set (qs_rows db)" "q_user_id r = u"
    and db': "snd (claim_due_for_user now u db) = queue_step (\<lambda>_. None) now (EvClaim (q_id r)) db"
    by auto
  have same: "r' = r" if "r' \<in> set (qs_rows db)" "q_id r' = q_id r" for r'
    using inv that r(1) unfolding queue_inv_def by (metis distinct_map inj_onD)
  show ?thesis
    unfolding db' queue_step.simps claim_row_def snd_conv set_rows_sel
    by (rule filter_update_where_other) (auto simp: claimable_def by_id_def r(2) dest: same)
qed

text \<open>Users are isolated: a receipt lookup returns an item only to the user who owns the row
  (another user's identifier looks exactly like an unknown one), and a claim for a user leaves
  every row of every other user as it was.\<close>
theorem queue_user_isolation:
  assumes "queue_inv db"
  shows "(row_of qid db = None \<or> (\<exists>r. row_of qid db = Some r \<and> q_user_id r \<noteq> u) \<longrightarrow>
            queue_item u qid db = Inr None)
    \<and> (\<forall>item. queue_item u qid db = Inr (Some item) \<longrightarrow> mi_user_id item = u \<and> mi_id item = qid)
    \<and> filter (\<lambda>r. q_user_id r \<noteq> u) (qs_rows (snd (claim_due_for_user now u db))) =
        filter (\<lambda>r. q_user_id r \<noteq> u) (qs_rows db)"
proof (intro conjI impI allI)
  assume h: "row_of qid db = None \<or> (\<exists>r. row_of qid db = Some r \<and> q_user_id r \<noteq> u)"
  have "row_of qid db = Some r" if "r \<in> set (qs_rows db)" "q_id r = qid" for r
    using assms that by (simp add: row_of_unique by_id_def)
  with h have "fetch_optional (\<lambda>r. q_id r = qid \<and> q_user_id r = u) (qs_rows db) = None"
    by (fastforce simp: fetch_optional_None)
  then show "queue_item u qid db = Inr None" by (simp add: queue_item_def)
next
  fix item
  assume "queue_item u qid db = Inr (Some item)"
  then obtain r where "fetch_optional (\<lambda>r. q_id r = qid \<and> q_user_id r = u) (qs_rows db) = Some r"
    and "decode_item r = Inr item"
    by (auto simp: queue_item_def and_then_eq_Inr split: option.splits)
  then show "mi_user_id item = u" "mi_id item = qid"
    by (auto simp: decode_item_def and_then_eq_Inr dest: fetch_optional_SomeD)
qed (rule claim_other_users [OF assms])

theorem queue_user_isolation_witness:
  "queue_inv sample_queue \<and> queue_item 8 2 sample_queue = Inr None"
proof -
  have "\<exists>r. row_of 2 sample_queue = Some r \<and> q_user_id r \<noteq> 8"
    by (simp add: row_of_def sample_queue_def by_id_def)
  with queue_user_isolation [OF sample_queue_inv, of 2 8 0] sample_queue_inv show ?thesis by blast
qed

section \<open>The depth cap\<close>

lemma non_terminal_frame [simp]:
  "non_terminal (r\<lparr>q_attempts := a\<rparr>) = non_terminal r"
  "non_terminal (r\<lparr>q_detail := d\<rparr>) = non_terminal r"
  "non_terminal (r\<lparr>q_updated_at := t\<rparr>) = non_terminal r"
  "non_terminal (r\<lparr>q_next_retry_at := nr\<rparr>) = non_terminal r"
  "non_terminal (r\<lparr>q_final_paths := fp\<rparr>) = non_terminal r"
  by (simp_all add: non_terminal_def)

lemma non_terminal_status [simp]:
  "non_terminal (r\<lparr>q_status := queue_status_as_str s\<rparr>) \<longleftrightarrow> s \<in> {Staging, Pending, Running}"
  by (simp add: non_terminal_def del: queue_status_as_str.simps)

lemma has_status_mono: "has_status ss r \<Longrightarrow> set ss \<subseteq> set ts \<Longrightarrow> has_status ts r"
  by (auto simp: has_status_def)

lemma event_opens_only_retries:
  assumes "event_pred e r" and "non_terminal (event_update tj now e r)"
  shows "non_terminal r \<or> (\<exists>qid t d. e = EvFailed qid t d)"
  using assms
  by (cases e) (auto simp: claimable_def non_terminal_def intro: has_status_mono
      simp del: queue_status_as_str.simps)

lemma user_depth_step:
  assumes "user_depth u db \<le> k" and "caps_below k e"
    and open_rows: "\<And>qid t d. e = EvFailed qid t d \<Longrightarrow>
      list_all (\<lambda>r. by_id qid r \<longrightarrow> non_terminal r) (qs_rows db)"
  shows "user_depth u (queue_step tj now e db) \<le> k"
proof (cases "is_enqueue e")
  case True
  then obtain qid v t cap src where "e = EvEnqueue qid v t cap src" by (cases e) auto
  with assms(1,2) show ?thesis
    by (auto simp: queue_step_enqueue user_depth_def simp del: queue_step.simps)
next
  case False
  have "user_depth u (queue_step tj now e db) \<le> user_depth u db"
    unfolding queue_step_update [OF False] user_depth_def set_rows_sel
  proof (rule count_where_update_le)
    fix r assume "r \<in> set (qs_rows db)" "event_pred e r"
      "q_user_id (event_update tj now e r) = u \<and> non_terminal (event_update tj now e r)"
    then show "q_user_id r = u \<and> non_terminal r"
      using event_opens_only_retries [of e r tj now] open_rows
      by (auto simp: list_all_iff)
  qed
  with assms(1) show ?thesis by simp
qed

text \<open>The depth cap is an invariant, not only a check at the door: as long as every enqueue
  goes through the capped entry point and retry marks are applied to open rows, no
  interleaving of queue statements gives a user more than the cap of open items.\<close>
theorem depth_cap_invariant:
  assumes "user_depth u db \<le> k" and "\<forall>ne \<in> set es. caps_below k (snd ne)"
    and "retries_open_rows tj es db"
  shows "user_depth u (queue_run tj es db) \<le> k"
  using assms
proof (induction es arbitrary: db)
  case (Cons ne es)
  have "user_depth u (queue_step tj (fst ne) (snd ne) db) \<le> k"
    using Cons.prems by (intro user_depth_step) auto
  with Cons show ?case by simp
qed simp

theorem depth_cap_invariant_witness:
  "user_depth 7 (queue_run (\<lambda>_. None)
     [(30, EvClaim 2), (31, EvFailed 2 60 []), (40, EvEnqueue 9 7 Add 3 []), (41, EvEnqueue 10 7 Add 3 [])]
     sample_queue) \<le> 3"
proof (rule depth_cap_invariant)
  show "user_depth 7 sample_queue \<le> 3" by code_simp
  show "retries_open_rows (\<lambda>_. None)
     [(30, EvClaim 2), (31, EvFailed 2 60 []), (40, EvEnqueue 9 7 Add 3 []), (41, EvEnqueue 10 7 Add 3 [])]
     sample_queue" by code_simp
qed simp

section \<open>Accounting\<close>

lemma count_where_partition:
  "(\<And>r. r \<in> set rows \<Longrightarrow> (\<Sum>p \<leftarrow> ps. if p r then 1 else 0) = (if q r then 1 else (0::nat))) \<Longrightarrow>
   (\<Sum>p \<leftarrow> ps. count_where p rows) = count_where q rows"
proof (induction rows)
  case Nil
  then show ?case by (simp add: sum_list_triv)
next
  case (Cons r rows)
  have "(\<Sum>p \<leftarrow> ps. count_where p (r # rows)) =
      (\<Sum>p \<leftarrow> ps. if p r then 1 else 0) + (\<Sum>p \<leftarrow> ps. count_where p rows)"
    by (simp add: sum_list_addf)
  with Cons show ?case by simp
qed

lemma row_status_cases:
  assumes "row_ok db r"
  obtains s where "q_status r = queue_status_as_str s"
  using assms status_codec.print_parse unfolding row_ok_def by (metis option.exhaust)

lemma row_tool_cases:
  assumes "row_ok db r"
  obtains t where "q_tool r = queue_tool_as_str t"
  using assms tool_codec.print_parse unfolding row_ok_def by (metis option.exhaust)

lemma has_tool_count:
  assumes "row_ok db r"
  shows "(\<Sum>t \<leftarrow> [Add, Update, Maintain]. if has_tool t r then 1 else 0) = (1::nat)"
  using assms
proof (rule row_tool_cases)
  fix t assume "q_tool r = queue_tool_as_str t"
  then show ?thesis by (cases t) (simp_all add: has_tool_def)
qed

lemma sum_has_tool:
  assumes "queue_inv db"
  shows "(\<Sum>t \<leftarrow> [Add, Update, Maintain]. count_where (\<lambda>r. has_tool t r \<and> p r) (qs_rows db)) =
    count_where p (qs_rows db)"
proof -
  have "(\<Sum>c \<leftarrow> map (\<lambda>t r. has_tool t r \<and> p r) [Add, Update, Maintain]. count_where c (qs_rows db)) =
      count_where p (qs_rows db)"
  proof (rule count_where_partition)
    fix r assume "r \<in> set (qs_rows db)"
    with assms have "row_ok db r" by (simp add: queue_inv_def list_all_iff)
    from has_tool_count [OF this]
    show "(\<Sum>c \<leftarrow> map (\<lambda>t r. has_tool t r \<and> p r) [Add, Update, Maintain]. if c r then 1 else 0) =
        (if p r then 1 else (0::nat))"
      by (simp split: if_splits)
  qed
  then show ?thesis by simp
qed

lemma sum_statuses:
  assumes "queue_inv db"
  shows "count_where non_terminal (qs_rows db) + count_where (has_status [Done]) (qs_rows db)
     + count_where (has_status [Dead]) (qs_rows db) = length (qs_rows db)"
proof -
  have "(\<Sum>c \<leftarrow> [non_terminal, has_status [Done], has_status [Dead]]. count_where c (qs_rows db)) =
      count_where (\<lambda>_. True) (qs_rows db)"
  proof (rule count_where_partition)
    fix r assume "r \<in> set (qs_rows db)"
    with assms have "row_ok db r" by (simp add: queue_inv_def list_all_iff)
    then obtain s where "q_status r = queue_status_as_str s" by (rule row_status_cases)
    then show "(\<Sum>c \<leftarrow> [non_terminal, has_status [Done], has_status [Dead]]. if c r then 1 else 0) =
        (if True then 1 else (0::nat))"
      by (cases s) (simp_all add: non_terminal_def has_status_def)
  qed
  then show ?thesis by (simp add: count_where_def)
qed

lemma done_split:
  "count_where (\<lambda>r. p r \<and> \<not> q r) rows + count_where (\<lambda>r. p r \<and> q r) rows = count_where p rows"
  by (induction rows) auto

text \<open>The counters of the health endpoint and of the metrics endpoint agree: every item ever
  enqueued is counted under exactly one tool, and is open, integrated by the agent, integrated
  by the fallback or dead; the open ones are the reported depth, split exactly by tool.\<close>
theorem queue_counters_agree:
  assumes "queue_inv db"
  shows "sum_list (map snd (qt_queued_per_tool (queue_totals db))) =
      qh_depth (queue_health_counts now db) + qt_integrated (queue_totals db)
      + qt_fallback (queue_totals db) + qt_dead (queue_totals db)
    \<and> sum_list (map snd (qh_per_tool (queue_health_counts now db))) =
      qh_depth (queue_health_counts now db)
    \<and> qh_dead_count (queue_health_counts now db) = qt_dead (queue_totals db)"
proof -
  have "count_where (has_tool Add) (qs_rows db) + (count_where (has_tool Update) (qs_rows db)
      + count_where (has_tool Maintain) (qs_rows db)) = length (qs_rows db)"
    using sum_has_tool [OF assms, of "\<lambda>_. True"] by (simp add: count_where_def)
  with sum_statuses [OF assms] sum_has_tool [OF assms, of non_terminal]
    done_split [of "has_status [Done]" "\<lambda>r. like_prefix fallback_detail (q_detail r)" "qs_rows db"]
  show ?thesis by (simp add: queue_totals_def queue_health_counts_def Let_def)
qed

theorem queue_counters_agree_witness:
  "sum_list (map snd (qt_queued_per_tool (queue_totals sample_queue))) = 3
   \<and> qh_depth (queue_health_counts 50 sample_queue) = 3"
proof -
  have "qh_depth (queue_health_counts 50 sample_queue) = 3"
    "qt_integrated (queue_totals sample_queue) = 0" "qt_fallback (queue_totals sample_queue) = 0"
    "qt_dead (queue_totals sample_queue) = 0"
    by (simp_all add: queue_health_counts_def queue_totals_def sample_queue_def Let_def
        non_terminal_def has_status_def)
  with queue_counters_agree [OF sample_queue_inv, of 50] show ?thesis by simp
qed

end
