(* ===== verification/Llm_Gate.thy ===== *)
theory Llm_Gate
  imports Myc_Prelude
begin

text \<open>
  The process-wide LLM admission gate (\<^verbatim>\<open>crates/mycelium-librarian/src/llm_gate.rs\<close>).  The record
  holds what the gate's mutex protects (\<^verbatim>\<open>Inner\<close>) and, for the environment around it, the
  one-shot channels of the waiters (\<open>g_mail\<close>: outcomes sent and not yet received), the
  permits that are alive (\<open>g_permits\<close>) and the position reports made so far.  Every critical
  section is one function on the record, so the step relation ranges over every order in
  which threads can enter the lock.  The clock is an argument; waiting times are summed exactly
  in nanoseconds where the code adds floating-point seconds for a metric.
\<close>

section \<open>State\<close>

datatype outcome = Admitted | Closed

record waiter =
  wt_id :: nat
  wt_user :: "uuid option"
  wt_enqueued_at :: timestamp
  wt_last_position :: "nat option"
  wt_closed :: bool

record gate =
  g_capacity :: nat
  g_per_user_active :: nat
  g_chat_queue_depth :: nat
  g_active :: nat
  g_per_user :: "uuid \<rightharpoonup> nat"
  g_queue :: "waiter list"
  g_next_id :: nat
  g_admissions_total :: nat
  g_timeouts_total :: nat
  g_wait_ns_total :: nat
  g_wait_count :: nat
  g_mail :: "(nat \<times> uuid option \<times> outcome) list"
  g_permits :: "uuid option list"
  g_positions :: "(nat \<times> nat) list"

text \<open>\<^verbatim>\<open>GateError\<close>, and what a call of \<^verbatim>\<open>enter\<close> has become after one critical section.\<close>

datatype gate_error = GateTimeout | GateClosed

datatype enter_state = Waiting nat | Entered | Failed gate_error

definition DEFAULT_CAPACITY :: nat where "DEFAULT_CAPACITY = 2"
definition DEFAULT_PER_USER_ACTIVE :: nat where "DEFAULT_PER_USER_ACTIVE = 2"
definition DEFAULT_CHAT_QUEUE_DEPTH :: nat where "DEFAULT_CHAT_QUEUE_DEPTH = 64"
definition CAPACITY_MAX :: nat where "CAPACITY_MAX = 1024"
definition PER_USER_MAX :: nat where "PER_USER_MAX = 16"
definition QUEUE_DEPTH_MAX :: nat where "QUEUE_DEPTH_MAX = 1024"

text \<open>\<^verbatim>\<open>n.clamp(1, hi)\<close>.\<close>

definition clamp_from_1 :: "nat \<Rightarrow> nat \<Rightarrow> nat" where
  "clamp_from_1 hi n = (if n < 1 then 1 else if n > hi then hi else n)"

definition new_gate :: "nat \<Rightarrow> gate" where
  "new_gate capacity =
     \<lparr>g_capacity = clamp_from_1 CAPACITY_MAX capacity,
      g_per_user_active = DEFAULT_PER_USER_ACTIVE,
      g_chat_queue_depth = DEFAULT_CHAT_QUEUE_DEPTH,
      g_active = 0, g_per_user = Map.empty, g_queue = [], g_next_id = 0,
      g_admissions_total = 0, g_timeouts_total = 0, g_wait_ns_total = 0, g_wait_count = 0,
      g_mail = [], g_permits = [], g_positions = []\<rparr>"

section \<open>Critical sections\<close>

definition user_slots :: "gate \<Rightarrow> uuid \<Rightarrow> nat" where
  "user_slots g u = (case g_per_user g u of None \<Rightarrow> 0 | Some n \<Rightarrow> n)"

definition at_user_cap :: "gate \<Rightarrow> uuid option \<Rightarrow> bool" where
  "at_user_cap g user =
     (case user of None \<Rightarrow> False | Some u \<Rightarrow> user_slots g u \<ge> g_per_user_active g)"

definition take_slot :: "uuid option \<Rightarrow> gate \<Rightarrow> gate" where
  "take_slot user g =
     g\<lparr>g_active := g_active g + 1,
       g_per_user := (case user of None \<Rightarrow> g_per_user g
                      | Some u \<Rightarrow> (g_per_user g)(u \<mapsto> user_slots g u + 1)),
       g_admissions_total := g_admissions_total g + 1\<rparr>"

definition free_slot :: "uuid option \<Rightarrow> gate \<Rightarrow> gate" where
  "free_slot user g =
     g\<lparr>g_active := g_active g - 1,
       g_per_user := (case user of None \<Rightarrow> g_per_user g
                      | Some u \<Rightarrow> (case g_per_user g u of None \<Rightarrow> g_per_user g
                          | Some n \<Rightarrow> if n - 1 = 0 then (g_per_user g)(u := None)
                                     else (g_per_user g)(u \<mapsto> n - 1)))\<rparr>"

definition record_wait :: "nat \<Rightarrow> gate \<Rightarrow> gate" where
  "record_wait waited g =
     g\<lparr>g_wait_ns_total := g_wait_ns_total g + waited, g_wait_count := g_wait_count g + 1\<rparr>"

text \<open>\<^verbatim>\<open>tx.send(outcome)\<close> on a waiter whose receiver is alive.\<close>

definition send :: "waiter \<Rightarrow> outcome \<Rightarrow> gate \<Rightarrow> gate" where
  "send w out g = g\<lparr>g_mail := g_mail g @ [(wt_id w, wt_user w, out)]\<rparr>"

text \<open>\<^verbatim>\<open>position\<close> followed by \<^verbatim>\<open>remove\<close>: the first element that satisfies the predicate.\<close>

fun take_first :: "('a \<Rightarrow> bool) \<Rightarrow> 'a list \<Rightarrow> ('a \<times> 'a list) option" where
  "take_first p [] = None"
| "take_first p (x # xs) =
     (if p x then Some (x, xs) else map_option (\<lambda>(y, ys). (y, x # ys)) (take_first p xs))"

text \<open>\<^verbatim>\<open>notify_positions\<close>: report to every waiter whose position moved.\<close>

definition moved_positions :: "waiter list \<Rightarrow> (nat \<times> nat) list" where
  "moved_positions q =
     map (\<lambda>(i, w). (wt_id w, i)) (filter (\<lambda>(i, w). wt_last_position w \<noteq> Some i) (enumerate 0 q))"

definition notify_positions :: "gate \<Rightarrow> gate" where
  "notify_positions g =
     g\<lparr>g_queue := map (\<lambda>(i, w). w\<lparr>wt_last_position := Some i\<rparr>) (enumerate 0 (g_queue g)),
       g_positions := g_positions g @ moved_positions (g_queue g)\<rparr>"

lemma take_first_length: "take_first p xs = Some (y, ys) \<Longrightarrow> length ys < length xs"
  by (induction xs arbitrary: ys) (auto split: if_splits)

lemma gate_frame_queue [simp]:
  "g_queue (take_slot user g) = g_queue g"
  "g_queue (free_slot user g) = g_queue g"
  "g_queue (record_wait n g) = g_queue g"
  "g_queue (send w out g) = g_queue g"
  by (simp_all add: take_slot_def free_slot_def record_wait_def send_def)

text \<open>The \<^verbatim>\<open>while\<close> loop of \<^verbatim>\<open>dispatch\<close>.\<close>

function dispatch_loop :: "timestamp \<Rightarrow> gate \<Rightarrow> gate" where
  "dispatch_loop now g =
     (if g_active g < g_capacity g then
        (case take_first (\<lambda>w. \<not> at_user_cap g (wt_user w)) (g_queue g) of
           None \<Rightarrow> g
         | Some (w, q) \<Rightarrow>
             let g1 = record_wait (now - wt_enqueued_at w) (take_slot (wt_user w) (g\<lparr>g_queue := q\<rparr>))
             in if wt_closed w then dispatch_loop now (free_slot (wt_user w) g1)
                else dispatch_loop now (send w Admitted g1))
      else g)"
  by pat_completeness auto
termination
  by (relation "measure (\<lambda>(now, g). length (g_queue g))") (auto dest: take_first_length)

declare dispatch_loop.simps [simp del]

definition dispatch :: "timestamp \<Rightarrow> gate \<Rightarrow> gate" where
  "dispatch now g =
     notify_positions (dispatch_loop now (g\<lparr>g_queue := filter (\<lambda>w. \<not> wt_closed w) (g_queue g)\<rparr>))"

definition set_capacity :: "timestamp \<Rightarrow> nat \<Rightarrow> gate \<Rightarrow> gate" where
  "set_capacity now n g = dispatch now (g\<lparr>g_capacity := clamp_from_1 CAPACITY_MAX n\<rparr>)"

definition set_per_user_active :: "timestamp \<Rightarrow> nat \<Rightarrow> gate \<Rightarrow> gate" where
  "set_per_user_active now n g =
     dispatch now (g\<lparr>g_per_user_active := clamp_from_1 PER_USER_MAX n\<rparr>)"

definition set_chat_queue_depth :: "nat \<Rightarrow> gate \<Rightarrow> gate" where
  "set_chat_queue_depth n g = g\<lparr>g_chat_queue_depth := clamp_from_1 QUEUE_DEPTH_MAX n\<rparr>"

text \<open>\<^verbatim>\<open>try_enter\<close>: the try class.\<close>

definition try_enter :: "gate \<Rightarrow> gate option" where
  "try_enter g =
     (if g_queue g = [] \<and> g_active g < g_capacity g
      then let g1 = take_slot None g in Some (g1\<lparr>g_permits := g_permits g1 @ [None]\<rparr>)
      else None)"

text \<open>\<^verbatim>\<open>enter\<close>, first critical section: the fast path, or a seat in the queue.\<close>

definition enter :: "timestamp \<Rightarrow> uuid option \<Rightarrow> gate \<Rightarrow> enter_state \<times> gate" where
  "enter now user g =
     (if g_queue g = [] \<and> g_active g < g_capacity g \<and> \<not> at_user_cap g user
      then let g1 = record_wait 0 (take_slot user g)
           in (Entered, g1\<lparr>g_permits := g_permits g1 @ [user]\<rparr>)
      else let wid = g_next_id g
           in (Waiting wid,
               dispatch now
                 (g\<lparr>g_next_id := (wid + 1) mod 2 ^ 64,
                    g_queue := g_queue g @
                      [\<lparr>wt_id = wid, wt_user = user, wt_enqueued_at = now,
                        wt_last_position = None, wt_closed = False\<rparr>]\<rparr>)))"

text \<open>The receiver side of the channel: the outcome waiting for a seat, and taking it out.\<close>

definition mail_for :: "nat \<Rightarrow> gate \<Rightarrow> (uuid option \<times> outcome) option" where
  "mail_for wid g = map_of (g_mail g) wid"

definition take_mail :: "nat \<Rightarrow> gate \<Rightarrow> gate" where
  "take_mail wid g = g\<lparr>g_mail := filter (\<lambda>m. fst m \<noteq> wid) (g_mail g)\<rparr>"

text \<open>
  \<^verbatim>\<open>enter\<close>, on waking with an outcome (the first two arms of the \<^verbatim>\<open>match\<close>); a seat with no
  outcome keeps waiting.
\<close>

definition receive :: "nat \<Rightarrow> gate \<Rightarrow> enter_state \<times> gate" where
  "receive wid g =
     (case mail_for wid g of
        None \<Rightarrow> (Waiting wid, g)
      | Some (user, Admitted) \<Rightarrow>
          (Entered, (take_mail wid g)\<lparr>g_permits := g_permits g @ [user]\<rparr>)
      | Some (user, Closed) \<Rightarrow> (Failed GateClosed, take_mail wid g))"

text \<open>\<^verbatim>\<open>enter\<close>, when the bound elapses (the last arm).\<close>

definition enter_timeout :: "nat \<Rightarrow> gate \<Rightarrow> enter_state \<times> gate" where
  "enter_timeout wid g =
     (case take_first (\<lambda>w. wt_id w = wid) (g_queue g) of
        Some (w, q) \<Rightarrow>
          (Failed GateTimeout,
           notify_positions (g\<lparr>g_queue := q, g_timeouts_total := g_timeouts_total g + 1\<rparr>))
      | None \<Rightarrow>
          (case mail_for wid g of
             Some (user, Admitted) \<Rightarrow>
               (Entered, (take_mail wid g)\<lparr>g_permits := g_permits g @ [user]\<rparr>)
           | _ \<Rightarrow> (Failed GateClosed, take_mail wid g)))"

text \<open>\<^verbatim>\<open>release\<close> and the \<^verbatim>\<open>Drop\<close> of a permit.\<close>

definition release :: "timestamp \<Rightarrow> uuid option \<Rightarrow> gate \<Rightarrow> gate" where
  "release now user g = dispatch now (free_slot user g)"

definition drop_permit :: "timestamp \<Rightarrow> uuid option \<Rightarrow> gate \<Rightarrow> gate" where
  "drop_permit now user g = release now user (g\<lparr>g_permits := remove1 user (g_permits g)\<rparr>)"

text \<open>The \<^verbatim>\<open>Drop\<close> of an armed \<^verbatim>\<open>QueuedWaiter\<close>: the \<^verbatim>\<open>enter\<close> future was cancelled.\<close>

definition cancel_waiter :: "timestamp \<Rightarrow> nat \<Rightarrow> gate \<Rightarrow> gate" where
  "cancel_waiter now wid g =
     (case take_first (\<lambda>w. wt_id w = wid) (g_queue g) of
        Some (w, q) \<Rightarrow>
          dispatch now (g\<lparr>g_queue := q, g_timeouts_total := g_timeouts_total g + 1\<rparr>)
      | None \<Rightarrow>
          (case mail_for wid g of
             Some (user, Admitted) \<Rightarrow> release now user (take_mail wid g)
           | _ \<Rightarrow> take_mail wid g))"

text \<open>\<^verbatim>\<open>close\<close>: every queued waiter is released with \<open>Closed\<close>.\<close>

definition close_gate :: "gate \<Rightarrow> gate" where
  "close_gate g =
     g\<lparr>g_queue := [], g_timeouts_total := g_timeouts_total g + length (g_queue g),
       g_mail := g_mail g @ map (\<lambda>w. (wt_id w, wt_user w, Closed))
                   (filter (\<lambda>w. \<not> wt_closed w) (g_queue g))\<rparr>"

record gate_stats =
  st_active :: nat
  st_queued :: nat
  st_capacity :: nat
  st_admissions_total :: nat
  st_timeouts_total :: nat
  st_wait_ns_total :: nat
  st_wait_count :: nat

definition stats :: "gate \<Rightarrow> gate_stats" where
  "stats g =
     \<lparr>st_active = g_active g, st_queued = length (g_queue g), st_capacity = g_capacity g,
      st_admissions_total = g_admissions_total g, st_timeouts_total = g_timeouts_total g,
      st_wait_ns_total = g_wait_ns_total g, st_wait_count = g_wait_count g\<rparr>"

section \<open>The gate as a transition system\<close>

text \<open>
  One rule per critical section.  A permit is dropped by the run that holds it.  The premise of
  \<open>enter_step\<close> says that the 64-bit seat number has not wrapped around onto a live seat.
\<close>

definition live_ids :: "gate \<Rightarrow> nat set" where
  "live_ids g = wt_id ` set (g_queue g) \<union> fst ` set (g_mail g)"

inductive gate_step :: "gate \<Rightarrow> gate \<Rightarrow> bool" where
  try_step: "try_enter g = Some g' \<Longrightarrow> gate_step g g'"
| enter_step: "g_next_id g \<notin> live_ids g \<Longrightarrow> gate_step g (snd (enter now user g))"
| receive_step: "gate_step g (snd (receive wid g))"
| timeout_step: "gate_step g (snd (enter_timeout wid g))"
| cancel_step: "gate_step g (cancel_waiter now wid g)"
| drop_step: "user \<in> set (g_permits g) \<Longrightarrow> gate_step g (drop_permit now user g)"
| capacity_step: "gate_step g (set_capacity now n g)"
| per_user_step: "gate_step g (set_per_user_active now n g)"
| depth_step: "gate_step g (set_chat_queue_depth n g)"
| close_step: "gate_step g (close_gate g)"

inductive gate_reach :: "gate \<Rightarrow> bool" where
  start: "gate_reach (new_gate capacity)"
| step: "gate_reach g \<Longrightarrow> gate_step g g' \<Longrightarrow> gate_reach g'"

end
