(* ===== verification/Llm_Gate_Safety.thy ===== *)
theory Llm_Gate_Safety
  imports Llm_Gate "HOL-Library.Multiset"
begin

text \<open>
  Safety of the LLM gate over all interleavings of its critical sections: slots are neither
  leaked nor returned twice, no slot stays free while a waiter may run, limits bound the
  admissions, and a waiter is overtaken only while its user is at the per-user cap.
\<close>

section \<open>Holders of slots\<close>

text \<open>A slot is held by a live permit or by an admission that its waiter has not received yet.\<close>

definition mail_holders :: "(nat \<times> uuid option \<times> outcome) list \<Rightarrow> uuid option multiset" where
  "mail_holders ms = mset (map (\<lambda>m. fst (snd m)) (filter (\<lambda>m. snd (snd m) = Admitted) ms))"

definition holders :: "gate \<Rightarrow> uuid option multiset" where
  "holders g = mset (g_permits g) + mail_holders (g_mail g)"

definition slots_for :: "uuid option multiset \<Rightarrow> gate \<Rightarrow> bool" where
  "slots_for H g \<longleftrightarrow> g_active g = size H \<and>
     (\<forall>u. g_per_user g u = (if count H (Some u) = 0 then None else Some (count H (Some u))))"

definition no_closed :: "gate \<Rightarrow> bool" where
  "no_closed g \<longleftrightarrow> (\<forall>w \<in> set (g_queue g). \<not> wt_closed w)"

definition seat_ids :: "gate \<Rightarrow> nat multiset" where
  "seat_ids g = mset (map wt_id (g_queue g)) + mset (map fst (g_mail g))"

definition limits_ok :: "gate \<Rightarrow> bool" where
  "limits_ok g \<longleftrightarrow> 1 \<le> g_capacity g \<and> g_capacity g \<le> CAPACITY_MAX \<and>
     1 \<le> g_per_user_active g \<and> g_per_user_active g \<le> PER_USER_MAX"

text \<open>No slot is free while some waiter could take it.\<close>

definition settled :: "gate \<Rightarrow> bool" where
  "settled g \<longleftrightarrow> g_capacity g \<le> g_active g \<or> (\<forall>w \<in> set (g_queue g). at_user_cap g (wt_user w))"

definition gate_inv :: "gate \<Rightarrow> bool" where
  "gate_inv g \<longleftrightarrow> slots_for (holders g) g \<and> no_closed g \<and> limits_ok g \<and> settled g \<and>
     (\<forall>i. count (seat_ids g) i \<le> 1)"

lemmas gate_op_defs = take_slot_def free_slot_def record_wait_def send_def take_mail_def

lemma mail_holders_simps [simp]:
  "mail_holders [] = {#}"
  "mail_holders (ms @ ns) = mail_holders ms + mail_holders ns"
  "mail_holders ((i, u, Admitted) # ms) = add_mset u (mail_holders ms)"
  "mail_holders ((i, u, Closed) # ms) = mail_holders ms"
  by (simp_all add: mail_holders_def)

lemma mail_holders_map_Closed [simp]: "mail_holders (map (\<lambda>w. (f w, h w, Closed)) ws) = {#}"
  by (induction ws) simp_all

lemma slots_take: "slots_for H g \<Longrightarrow> slots_for (add_mset user H) (take_slot user g)"
  by (auto simp: slots_for_def take_slot_def user_slots_def count_eq_zero_iff split: option.splits)

lemma slots_free: "slots_for (add_mset user H) g \<Longrightarrow> slots_for H (free_slot user g)"
  by (auto simp: slots_for_def free_slot_def count_eq_zero_iff split: option.splits if_splits)

text \<open>Updates of the other fields do not disturb the slot accounting.\<close>

lemma slots_frame [simp]:
  "slots_for H (record_wait n g) = slots_for H g"
  "slots_for H (send w out g) = slots_for H g"
  "slots_for H (take_mail i g) = slots_for H g"
  "slots_for H (g\<lparr>g_queue := q\<rparr>) = slots_for H g"
  "slots_for H (g\<lparr>g_permits := ps\<rparr>) = slots_for H g"
  "slots_for H (g\<lparr>g_mail := ms\<rparr>) = slots_for H g"
  "slots_for H (g\<lparr>g_capacity := n\<rparr>) = slots_for H g"
  "slots_for H (g\<lparr>g_per_user_active := n\<rparr>) = slots_for H g"
  "slots_for H (g\<lparr>g_chat_queue_depth := n\<rparr>) = slots_for H g"
  "slots_for H (g\<lparr>g_timeouts_total := n\<rparr>) = slots_for H g"
  "slots_for H (g\<lparr>g_next_id := n\<rparr>) = slots_for H g"
  "slots_for H (notify_positions g) = slots_for H g"
  by (simp_all add: slots_for_def gate_op_defs notify_positions_def)

section \<open>Dispatch\<close>

lemma take_first_Some:
  "take_first p xs = Some (y, ys) \<Longrightarrow>
   \<exists>a b. xs = a @ y # b \<and> ys = a @ b \<and> p y \<and> (\<forall>x \<in> set a. \<not> p x)"
proof (induction xs arbitrary: ys)
  case (Cons x xs)
  show ?case
  proof (cases "p x")
    case True
    with Cons.prems have "x # xs = [] @ y # ys \<and> ys = [] @ ys \<and> p y \<and> (\<forall>x \<in> set []. \<not> p x)" by simp
    then show ?thesis by blast
  next
    case False
    with Cons obtain zs where "take_first p xs = Some (y, zs)" "ys = x # zs" by auto
    with Cons.IH obtain a b where "xs = a @ y # b" "zs = a @ b" "p y" "\<forall>x \<in> set a. \<not> p x" by blast
    with False \<open>ys = x # zs\<close> show ?thesis by (intro exI [of _ "x # a"] exI [of _ b]) auto
  qed
qed simp

lemma take_first_None: "take_first p xs = None \<longleftrightarrow> (\<forall>x \<in> set xs. \<not> p x)"
  by (induction xs) auto

text \<open>One round of the dispatch loop.\<close>

definition admit :: "timestamp \<Rightarrow> waiter \<Rightarrow> waiter list \<Rightarrow> gate \<Rightarrow> gate" where
  "admit now w q g =
     send w Admitted (record_wait (now - wt_enqueued_at w) (take_slot (wt_user w) (g\<lparr>g_queue := q\<rparr>)))"

lemma admit_sel [simp]:
  "g_queue (admit now w q g) = q"
  "g_active (admit now w q g) = g_active g + 1"
  "g_capacity (admit now w q g) = g_capacity g"
  "g_per_user_active (admit now w q g) = g_per_user_active g"
  "g_permits (admit now w q g) = g_permits g"
  "g_next_id (admit now w q g) = g_next_id g"
  "g_mail (admit now w q g) = g_mail g @ [(wt_id w, wt_user w, Admitted)]"
  by (simp_all add: admit_def gate_op_defs)

lemma user_slots_admit:
  "user_slots (admit now w q g) u = user_slots g u + (if wt_user w = Some u then 1 else 0)"
  by (auto simp: user_slots_def admit_def gate_op_defs split: option.splits)

lemma at_user_cap_admit: "at_user_cap g x \<Longrightarrow> at_user_cap (admit now w q g) x"
  by (auto simp: at_user_cap_def user_slots_admit split: option.splits)

text \<open>Induction over the rounds of a dispatch: a property that every admission keeps holds
  afterwards, and afterwards nothing more can be admitted.\<close>

lemma dispatch_loop_invariant:
  assumes "no_closed g" and "I g"
    and admission: "\<And>t g w a b. \<lbrakk>I g; no_closed g; g_active g < g_capacity g; g_queue g = a @ w # b;
      \<not> at_user_cap g (wt_user w); \<forall>v \<in> set a. at_user_cap g (wt_user v)\<rbrakk> \<Longrightarrow> I (admit t w (a @ b) g)"
  shows "I (dispatch_loop now g) \<and> no_closed (dispatch_loop now g) \<and> settled (dispatch_loop now g)"
  using assms(1,2)
proof (induction now g rule: dispatch_loop.induct)
  case (1 now g)
  show ?case
  proof (cases "g_active g < g_capacity g")
    case False
    then have "dispatch_loop now g = g" by (subst dispatch_loop.simps) simp
    with False "1.prems" show ?thesis by (simp add: settled_def)
  next
    case True
    show ?thesis
    proof (cases "take_first (\<lambda>w. \<not> at_user_cap g (wt_user w)) (g_queue g)")
      case None
      with True have "dispatch_loop now g = g" by (subst dispatch_loop.simps) simp
      with None "1.prems" show ?thesis by (simp add: settled_def take_first_None)
    next
      case (Some wq)
      then obtain w q where wq: "wq = (w, q)" by (cases wq)
      from take_first_Some [OF Some [unfolded wq]]
      obtain a b where ab: "g_queue g = a @ w # b" "q = a @ b"
        "\<not> at_user_cap g (wt_user w)" "\<forall>v \<in> set a. at_user_cap g (wt_user v)" by auto
      from ab(1) "1.prems"(1) have nc: "\<not> wt_closed w" "no_closed (admit now w q g)"
        by (auto simp: no_closed_def ab(2))
      have "I (admit now w q g)" unfolding ab(2)
        using "1.prems" True ab by (intro admission) auto
      moreover have "dispatch_loop now g = dispatch_loop now (admit now w q g)"
        using True Some wq nc(1) by (subst dispatch_loop.simps) (simp add: admit_def Let_def)
      moreover note "1.IH"(2) [OF True Some wq [symmetric] refl nc(1), folded admit_def, OF nc(2)]
      ultimately show ?thesis by simp
    qed
  qed
qed

text \<open>Reporting positions changes nothing but the positions.\<close>

lemma map_renumber:
  "(\<And>w x. f (w\<lparr>wt_last_position := x\<rparr>) = f w) \<Longrightarrow>
   map f (map (\<lambda>(i, w). w\<lparr>wt_last_position := Some i\<rparr>) (enumerate n q)) = map f q"
  by (induction q arbitrary: n) auto

lemma notify_frame [simp]:
  "g_active (notify_positions g) = g_active g"
  "g_per_user (notify_positions g) = g_per_user g"
  "g_capacity (notify_positions g) = g_capacity g"
  "g_per_user_active (notify_positions g) = g_per_user_active g"
  "g_mail (notify_positions g) = g_mail g"
  "g_permits (notify_positions g) = g_permits g"
  "map wt_id (g_queue (notify_positions g)) = map wt_id (g_queue g)"
  "map wt_user (g_queue (notify_positions g)) = map wt_user (g_queue g)"
  "map wt_closed (g_queue (notify_positions g)) = map wt_closed (g_queue g)"
  by (simp_all add: notify_positions_def map_renumber del: map_map)

lemma notify_views [simp]:
  "user_slots (notify_positions g) = user_slots g"
  "at_user_cap (notify_positions g) = at_user_cap g"
  "holders (notify_positions g) = holders g"
  "limits_ok (notify_positions g) = limits_ok g"
  "seat_ids (notify_positions g) = seat_ids g"
  by (simp_all add: fun_eq_iff user_slots_def at_user_cap_def holders_def limits_ok_def seat_ids_def
      del: mset_map split: option.splits)

lemma ball_via_map: "(\<forall>w \<in> set q. P (f w)) \<longleftrightarrow> (\<forall>x \<in> set (map f q). P x)"
  by simp

lemma notify_settled [simp]:
  "no_closed (notify_positions g) = no_closed g"
  "settled (notify_positions g) = settled g"
  unfolding no_closed_def settled_def
  by (simp_all add: ball_via_map [of _ Not wt_closed] ball_via_map [of _ "at_user_cap g" wt_user]
      del: set_map)

definition gate_core :: "gate \<Rightarrow> bool" where
  "gate_core g \<longleftrightarrow> slots_for (holders g) g \<and> limits_ok g \<and> (\<forall>i. count (seat_ids g) i \<le> 1)"

lemma gate_inv_iff: "gate_inv g \<longleftrightarrow> gate_core g \<and> no_closed g \<and> settled g"
  by (auto simp: gate_inv_def gate_core_def)

lemma gate_core_admit:
  assumes "gate_core g" "g_queue g = a @ w # b"
  shows "gate_core (admit now w (a @ b) g)"
proof -
  have "holders (admit now w (a @ b) g) = add_mset (wt_user w) (holders g)"
    by (simp add: holders_def)
  moreover have "slots_for (add_mset (wt_user w) (holders g)) (admit now w (a @ b) g)"
    using assms(1) by (simp add: admit_def slots_take gate_core_def)
  moreover have "seat_ids (admit now w (a @ b) g) = seat_ids g"
    using assms(2) by (simp add: seat_ids_def)
  ultimately show ?thesis using assms(1) by (simp add: gate_core_def limits_ok_def)
qed

text \<open>\<^verbatim>\<open>dispatch\<close> establishes the invariant from the slot accounting alone.\<close>

lemma gate_core_purge:
  assumes "gate_core g"
  shows "gate_core (g\<lparr>g_queue := filter P (g_queue g)\<rparr>)"
proof -
  have "count (mset (map wt_id (filter P q))) i \<le> count (mset (map wt_id q)) i" for q i
    by (induction q) auto
  with assms show ?thesis
    unfolding gate_core_def holders_def limits_ok_def seat_ids_def
    by (auto intro: order_trans [OF add_right_mono])
qed

lemma dispatch_gate_inv:
  assumes "gate_core g"
  shows "gate_inv (dispatch now g)"
proof -
  let ?g = "g\<lparr>g_queue := filter (\<lambda>w. \<not> wt_closed w) (g_queue g)\<rparr>"
  have "gate_core (dispatch_loop now ?g) \<and> no_closed (dispatch_loop now ?g) \<and>
        settled (dispatch_loop now ?g)"
    by (rule dispatch_loop_invariant)
      (auto simp: no_closed_def gate_core_purge [OF assms] intro: gate_core_admit)
  then show ?thesis
    by (simp add: dispatch_def gate_inv_iff) (simp add: gate_core_def)
qed

section \<open>Every critical section keeps the invariant\<close>

text \<open>A view of the fields the accounting depends on.\<close>

lemma gate_core_cong:
  assumes "gate_core g" and "g_active g' = g_active g" "g_per_user g' = g_per_user g"
    and "holders g' = holders g" and "limits_ok g'" and "\<And>i. count (seat_ids g') i \<le> count (seat_ids g) i"
  shows "gate_core g'"
  using assms by (auto simp: gate_core_def slots_for_def intro: order_trans)

lemma settled_mono:
  assumes "settled g" "g_capacity g' = g_capacity g" "g_active g' = g_active g"
    "g_per_user g' = g_per_user g" "g_per_user_active g' = g_per_user_active g"
    "wt_user ` set (g_queue g') \<subseteq> wt_user ` set (g_queue g)"
  shows "settled g'"
proof -
  have "at_user_cap g' = at_user_cap g"
    using assms(4,5) by (intro ext) (simp add: at_user_cap_def user_slots_def cong: option.case_cong)
  with assms show ?thesis unfolding settled_def by (metis (no_types, lifting) image_eqI image_iff subsetD)
qed

lemma settled_no_queue: "g_queue g = [] \<Longrightarrow> settled g"
  by (simp add: settled_def)

lemma gate_core_take:
  assumes "gate_core g"
  shows "gate_core ((take_slot user g)\<lparr>g_permits := g_permits g @ [user]\<rparr>)"
proof -
  have "holders ((take_slot user g)\<lparr>g_permits := g_permits g @ [user]\<rparr>) = add_mset user (holders g)"
    by (simp add: holders_def take_slot_def)
  moreover have "seat_ids ((take_slot user g)\<lparr>g_permits := g_permits g @ [user]\<rparr>) = seat_ids g"
    by (simp add: seat_ids_def take_slot_def)
  moreover have "limits_ok ((take_slot user g)\<lparr>g_permits := g_permits g @ [user]\<rparr>)"
    using assms by (simp add: gate_core_def limits_ok_def take_slot_def)
  ultimately show ?thesis using assms by (simp add: gate_core_def slots_take)
qed

lemma gate_core_record_wait [simp]: "gate_core (record_wait n g) = gate_core g"
  by (simp add: gate_core_def holders_def seat_ids_def limits_ok_def) (simp add: record_wait_def)

lemma gate_core_free:
  assumes "gate_core g'" and "g_active g = g_active g'" "g_per_user g = g_per_user g'"
    and "holders g' = add_mset user (holders g)" "limits_ok g"
    and "\<And>i. count (seat_ids g) i \<le> count (seat_ids g') i"
  shows "gate_core (free_slot user g)"
proof -
  from assms(1-4) have "slots_for (add_mset user (holders g)) g"
    by (simp add: gate_core_def slots_for_def)
  then have "slots_for (holders g) (free_slot user g)" by (rule slots_free)
  moreover have "holders (free_slot user g) = holders g" "seat_ids (free_slot user g) = seat_ids g"
    "limits_ok (free_slot user g) = limits_ok g"
    by (simp_all add: holders_def seat_ids_def free_slot_def limits_ok_def)
  ultimately show ?thesis
    using assms(1,5,6) by (auto simp: gate_core_def intro: order_trans)
qed

text \<open>Taking an outcome out of its channel.\<close>

lemma take_mail_holders:
  assumes "\<forall>i. count (mset (map fst ms)) i \<le> 1" and "map_of ms wid = Some (user, out)"
  shows "mail_holders ms =
    (if out = Admitted then add_mset user else (\<lambda>H. H)) (mail_holders (filter (\<lambda>m. fst m \<noteq> wid) ms))"
  using assms
proof (induction ms)
  case (Cons m ms)
  obtain i u out' where m: "m = (i, u, out')" by (cases m)
  have le: "\<forall>i. count (mset (map fst ms)) i \<le> 1"
    using Cons.prems(1) by (metis (no_types, lifting) count_add_mset le_SucI list.simps(9) mset.simps(2) not_less_eq_eq)
  show ?case
  proof (cases "i = wid")
    case True
    with Cons.prems(1) m have "count (mset (map fst ms)) wid = 0"
      by (metis One_nat_def Suc_le_mono count_add_mset fst_conv le_zero_eq list.simps(9) mset.simps(2))
    then have "filter (\<lambda>m. fst m \<noteq> wid) ms = ms"
      by (auto simp: count_eq_zero_iff filter_id_conv)
    with True m Cons.prems(2) show ?thesis by (cases out) auto
  next
    case False
    with Cons.prems(2) m have "map_of ms wid = Some (user, out)" by simp
    with Cons.IH [OF le] False m show ?thesis by (cases out') (auto split: if_splits)
  qed
qed simp

lemma seat_ids_take_mail: "count (seat_ids (take_mail wid g)) i \<le> count (seat_ids g) i"
proof -
  have "count (mset (map fst (filter (\<lambda>m. fst m \<noteq> wid) ms))) i \<le> count (mset (map fst ms)) i"
    for ms :: "(nat \<times> uuid option \<times> outcome) list"
    by (induction ms) auto
  then show ?thesis by (simp add: seat_ids_def take_mail_def)
qed

lemma mail_ids_unique:
  "gate_core g \<Longrightarrow> \<forall>i. count (mset (map fst (g_mail g))) i \<le> 1"
  unfolding gate_core_def seat_ids_def by (metis add_leE count_union)

lemma holders_take_mail:
  assumes "gate_core g" and "mail_for wid g = Some (user, out)"
  shows "holders g = (if out = Admitted then add_mset user else (\<lambda>H. H)) (holders (take_mail wid g))"
  using take_mail_holders [OF mail_ids_unique [OF assms(1)] assms(2) [unfolded mail_for_def]]
  by (simp add: holders_def take_mail_def)

lemma take_mail_absent: "mail_for wid g = None \<Longrightarrow> take_mail wid g = g"
  by (cases g) (auto simp: take_mail_def mail_for_def map_of_eq_None_iff filter_id_conv)

text \<open>The four ways an outcome leaves its channel.\<close>

lemma gate_core_receive_admitted:
  assumes "gate_core g" and "mail_for wid g = Some (user, Admitted)"
  shows "gate_core ((take_mail wid g)\<lparr>g_permits := g_permits g @ [user]\<rparr>)"
proof (rule gate_core_cong [OF assms(1)])
  show "holders ((take_mail wid g)\<lparr>g_permits := g_permits g @ [user]\<rparr>) = holders g"
    using holders_take_mail [OF assms] by (simp add: holders_def take_mail_def)
  show "count (seat_ids ((take_mail wid g)\<lparr>g_permits := g_permits g @ [user]\<rparr>)) i \<le> count (seat_ids g) i"
    for i using seat_ids_take_mail [of wid g i] by (simp add: seat_ids_def)
qed (use assms(1) in \<open>simp_all add: gate_core_def limits_ok_def take_mail_def\<close>)

lemma gate_core_receive_closed:
  assumes "gate_core g" and "mail_for wid g = Some (user, Closed)"
  shows "gate_core (take_mail wid g)"
  using holders_take_mail [OF assms] seat_ids_take_mail [of wid g] assms(1)
  by (intro gate_core_cong [OF assms(1)]) (simp_all add: gate_core_def limits_ok_def take_mail_def)

lemma gate_core_abandon:
  assumes "gate_core g" and "mail_for wid g = Some (user, Admitted)"
  shows "gate_core (free_slot user (take_mail wid g))"
  using holders_take_mail [OF assms] seat_ids_take_mail [of wid g] assms(1)
  by (intro gate_core_free [OF assms(1)]) (simp_all add: gate_core_def limits_ok_def take_mail_def)

lemma gate_core_drop:
  assumes "gate_core g" and "user \<in> set (g_permits g)"
  shows "gate_core (free_slot user (g\<lparr>g_permits := remove1 user (g_permits g)\<rparr>))"
proof (rule gate_core_free [OF assms(1)])
  show "holders g = add_mset user (holders (g\<lparr>g_permits := remove1 user (g_permits g)\<rparr>))"
    using assms(2) by (simp add: holders_def)
qed (use assms(1) in \<open>simp_all add: gate_core_def limits_ok_def seat_ids_def\<close>)

lemma gate_core_drop_seat:
  assumes "gate_core g" and "g_queue g = a @ w # b"
  shows "gate_core (g\<lparr>g_queue := a @ b, g_timeouts_total := n\<rparr>)"
proof (rule gate_core_cong [OF assms(1)])
  show "count (seat_ids (g\<lparr>g_queue := a @ b, g_timeouts_total := n\<rparr>)) i \<le> count (seat_ids g) i" for i
    using assms(2) by (simp add: seat_ids_def)
qed (use assms(1) in \<open>simp_all add: gate_core_def limits_ok_def holders_def\<close>)

lemma gate_core_queue_up:
  assumes "gate_core g" and "g_next_id g \<notin> live_ids g"
  shows "gate_core (g\<lparr>g_next_id := n, g_queue := g_queue g @
           [\<lparr>wt_id = g_next_id g, wt_user = user, wt_enqueued_at = t,
             wt_last_position = None, wt_closed = False\<rparr>]\<rparr>)"
proof -
  from assms(2) have "count (seat_ids g) (g_next_id g) = 0"
    by (auto simp: live_ids_def seat_ids_def count_eq_zero_iff)
  with assms(1) show ?thesis
    by (auto simp: gate_core_def limits_ok_def holders_def seat_ids_def slots_for_def)
qed

lemma clamp_from_1_bounds: "1 \<le> hi \<Longrightarrow> 1 \<le> clamp_from_1 hi n \<and> clamp_from_1 hi n \<le> hi"
  by (simp add: clamp_from_1_def)

lemma gate_core_limits:
  assumes "gate_core g"
  shows "gate_core (g\<lparr>g_capacity := clamp_from_1 CAPACITY_MAX n\<rparr>)"
    and "gate_core (g\<lparr>g_per_user_active := clamp_from_1 PER_USER_MAX n\<rparr>)"
  using assms clamp_from_1_bounds [of CAPACITY_MAX n] clamp_from_1_bounds [of PER_USER_MAX n]
  by (simp_all add: gate_core_def limits_ok_def holders_def seat_ids_def CAPACITY_MAX_def PER_USER_MAX_def)

text \<open>Cases of a search for a seat by its number.\<close>

lemma seat_search_cases:
  obtains a w b where "take_first (\<lambda>w. wt_id w = wid) q = Some (w, a @ b)" "q = a @ w # b" "wt_id w = wid"
  | "take_first (\<lambda>w. wt_id w = wid) q = None"
proof (cases "take_first (\<lambda>w. wt_id w = wid) q")
  case (Some wq)
  then have hit: "take_first (\<lambda>w. wt_id w = wid) q = Some (fst wq, snd wq)" by simp
  from take_first_Some [OF this]
  obtain a b where "q = a @ fst wq # b" "snd wq = a @ b" "wt_id (fst wq) = wid" by auto
  with hit show ?thesis by (intro that(1)) simp_all
qed (use that(2) in simp)

lemma settled_timeout:
  assumes "settled g" "g_queue g = a @ w # b"
  shows "settled (g\<lparr>g_queue := a @ b, g_timeouts_total := n\<rparr>)"
  by (rule settled_mono [OF assms(1)]) (use assms(2) in auto)

lemma settled_take_mail [simp]:
  "settled (take_mail wid g) = settled g"
  "settled (g\<lparr>g_permits := ps\<rparr>) = settled g"
  "no_closed (take_mail wid g) = no_closed g"
  "no_closed (g\<lparr>g_permits := ps\<rparr>) = no_closed g"
  by (simp_all add: settled_def no_closed_def at_user_cap_def user_slots_def take_mail_def
      cong: option.case_cong)

lemma receive_keeps_inv:
  assumes "gate_inv g"
  shows "gate_inv (snd (receive wid g))"
  using assms gate_core_receive_admitted [of g wid] gate_core_receive_closed [of g wid]
  by (auto simp: gate_inv_iff receive_def split: option.splits outcome.splits)

lemma enter_timeout_keeps_inv:
  assumes "gate_inv g"
  shows "gate_inv (snd (enter_timeout wid g))"
proof (cases rule: seat_search_cases [of wid "g_queue g"])
  case (1 a w b)
  let ?g = "g\<lparr>g_queue := a @ b, g_timeouts_total := g_timeouts_total g + 1\<rparr>"
  have "gate_core (notify_positions ?g)"
    using gate_core_drop_seat [of g a w b] assms 1(2) by (simp add: gate_inv_iff) (simp add: gate_core_def)
  moreover have "no_closed ?g" using assms 1(2) by (auto simp: gate_inv_iff no_closed_def)
  ultimately show ?thesis
    using settled_timeout [of g a w b] assms 1 by (simp add: gate_inv_iff enter_timeout_def)
next
  case 2
  then show ?thesis
    using assms gate_core_receive_admitted [of g wid] gate_core_receive_closed [of g wid]
    by (auto simp: gate_inv_iff enter_timeout_def take_mail_absent split: option.splits outcome.splits)
qed

lemma cancel_keeps_inv:
  assumes "gate_inv g"
  shows "gate_inv (cancel_waiter now wid g)"
proof (cases rule: seat_search_cases [of wid "g_queue g"])
  case (1 a w b)
  then show ?thesis
    using gate_core_drop_seat [of g a w b] assms
    by (simp add: gate_inv_iff cancel_waiter_def) (simp add: dispatch_gate_inv gate_inv_iff [symmetric])
next
  case 2
  have core: "gate_core g" using assms by (simp add: gate_inv_iff)
  show ?thesis
  proof (cases "mail_for wid g")
    case None
    with 2 assms show ?thesis by (simp add: cancel_waiter_def take_mail_absent)
  next
    case (Some uo)
    then show ?thesis
      using 2 assms gate_core_receive_closed [OF core, of wid]
        dispatch_gate_inv [OF gate_core_abandon [OF core, of wid]]
      by (cases uo) (auto simp: cancel_waiter_def release_def gate_inv_iff split: outcome.splits)
  qed
qed

lemma enter_keeps_inv:
  assumes "gate_inv g" and "g_next_id g \<notin> live_ids g"
  shows "gate_inv (snd (enter now user g))"
proof (cases "g_queue g = [] \<and> g_active g < g_capacity g \<and> \<not> at_user_cap g user")
  case True
  have "(record_wait 0 (take_slot user g))\<lparr>g_permits := g_permits g @ [user]\<rparr> =
        record_wait 0 ((take_slot user g)\<lparr>g_permits := g_permits g @ [user]\<rparr>)"
    by (simp add: record_wait_def)
  moreover have "g_permits (record_wait 0 (take_slot user g)) = g_permits g"
    by (simp add: gate_op_defs)
  ultimately show ?thesis
    using True assms(1) gate_core_take [of g user]
    by (simp add: enter_def gate_inv_iff settled_no_queue no_closed_def)
next
  case False
  with assms show ?thesis
    unfolding enter_def if_not_P [OF False] Let_def snd_conv
    by (intro dispatch_gate_inv gate_core_queue_up) (simp_all add: gate_inv_iff)
qed

lemma close_keeps_inv:
  assumes "gate_inv g"
  shows "gate_inv (close_gate g)"
proof -
  have all: "filter (\<lambda>w. \<not> wt_closed w) (g_queue g) = g_queue g"
    using assms by (simp add: gate_inv_iff no_closed_def filter_id_conv)
  have "gate_core (close_gate g)"
  proof (rule gate_core_cong)
    show "count (seat_ids (close_gate g)) i \<le> count (seat_ids g) i" for i
      by (simp add: close_gate_def all seat_ids_def comp_def)
  qed (use assms in \<open>simp_all add: gate_inv_iff gate_core_def limits_ok_def holders_def close_gate_def\<close>)
  then show ?thesis
    by (simp add: gate_inv_iff settled_no_queue no_closed_def close_gate_def)
qed

lemma gate_step_inv: "gate_step g g' \<Longrightarrow> gate_inv g \<Longrightarrow> gate_inv g'"
proof (induction rule: gate_step.induct)
  case (try_step g g')
  then show ?case
    using gate_core_take [of g None]
    by (auto simp: try_enter_def Let_def gate_inv_iff settled_no_queue no_closed_def split: if_splits)
      (auto simp: take_slot_def)
next
  case (drop_step user g now)
  then show ?case
    using dispatch_gate_inv gate_core_drop by (simp add: drop_permit_def release_def gate_inv_iff [of g])
next
  case (capacity_step g now n)
  then show ?case using dispatch_gate_inv gate_core_limits(1) by (simp add: set_capacity_def gate_inv_iff [of g])
next
  case (per_user_step g now n)
  then show ?case using dispatch_gate_inv gate_core_limits(2) by (simp add: set_per_user_active_def gate_inv_iff [of g])
next
  case (depth_step g n)
  then have "settled g" by (simp add: gate_inv_def)
  then have "settled (set_chat_queue_depth n g)"
    by (rule settled_mono) (simp_all add: set_chat_queue_depth_def)
  with depth_step show ?case
    by (simp add: gate_inv_def set_chat_queue_depth_def no_closed_def limits_ok_def holders_def seat_ids_def)
qed (simp_all add: receive_keeps_inv enter_timeout_keeps_inv cancel_keeps_inv enter_keeps_inv close_keeps_inv)

lemma gate_reach_inv: "gate_reach g \<Longrightarrow> gate_inv g"
proof (induction rule: gate_reach.induct)
  case (start capacity)
  show ?case
    using clamp_from_1_bounds [of CAPACITY_MAX capacity]
    by (simp add: new_gate_def gate_inv_def slots_for_def holders_def no_closed_def limits_ok_def
        settled_def seat_ids_def CAPACITY_MAX_def PER_USER_MAX_def DEFAULT_PER_USER_ACTIVE_def)
qed (rule gate_step_inv)

section \<open>Bounds on admissions\<close>

text \<open>A step leaves the counts below the larger of their value before and the limit in force.\<close>

definition counts_below :: "nat \<Rightarrow> (uuid \<Rightarrow> nat) \<Rightarrow> gate \<Rightarrow> bool" where
  "counts_below A U g \<longleftrightarrow> g_active g \<le> max A (g_capacity g) \<and>
     (\<forall>u. user_slots g u \<le> max (U u) (g_per_user_active g))"

lemma counts_below_admit:
  assumes "counts_below A U g" "g_active g < g_capacity g" "\<not> at_user_cap g (wt_user w)"
  shows "counts_below A U (admit now w q g)"
proof -
  have "user_slots (admit now w q g) u \<le> max (U u) (g_per_user_active g)" for u
    using assms(1,3) by (auto simp: counts_below_def user_slots_admit at_user_cap_def)
  with assms(1,2) show ?thesis by (simp add: counts_below_def)
qed

lemma counts_below_dispatch:
  assumes "counts_below A U g"
  shows "counts_below A U (dispatch now g)"
proof -
  let ?g = "g\<lparr>g_queue := filter (\<lambda>w. \<not> wt_closed w) (g_queue g)\<rparr>"
  have "counts_below A U (dispatch_loop now ?g) \<and> no_closed (dispatch_loop now ?g) \<and>
        settled (dispatch_loop now ?g)"
  proof (rule dispatch_loop_invariant)
    show "counts_below A U ?g"
      using assms by (simp add: counts_below_def user_slots_def)
  qed (auto simp: no_closed_def intro: counts_below_admit)
  then show ?thesis by (simp add: dispatch_def counts_below_def)
qed

lemma user_slots_take:
  "user_slots (take_slot user g) u = user_slots g u + (if user = Some u then 1 else 0)"
  by (auto simp: user_slots_def take_slot_def split: option.splits)

lemma user_slots_free: "user_slots (free_slot user g) u \<le> user_slots g u"
  by (auto simp: user_slots_def free_slot_def split: option.splits)

lemma user_slots_frame [simp]:
  "user_slots (record_wait n g) = user_slots g"
  "user_slots (take_mail wid g) = user_slots g"
  "user_slots (g\<lparr>g_permits := ps\<rparr>) = user_slots g"
  "user_slots (g\<lparr>g_queue := q\<rparr>) = user_slots g"
  "user_slots (g\<lparr>g_next_id := n\<rparr>) = user_slots g"
  "user_slots (g\<lparr>g_capacity := n\<rparr>) = user_slots g"
  "user_slots (g\<lparr>g_per_user_active := n\<rparr>) = user_slots g"
  "user_slots (g\<lparr>g_timeouts_total := n\<rparr>) = user_slots g"
  "user_slots (g\<lparr>g_chat_queue_depth := n\<rparr>) = user_slots g"
  by (simp_all add: fun_eq_iff user_slots_def gate_op_defs)

lemma active_frame [simp]:
  "g_active (take_slot user g) = g_active g + 1" "g_active (free_slot user g) = g_active g - 1"
  "g_active (record_wait n g) = g_active g" "g_active (take_mail wid g) = g_active g"
  "g_capacity (take_slot user g) = g_capacity g" "g_capacity (free_slot user g) = g_capacity g"
  "g_capacity (record_wait n g) = g_capacity g" "g_capacity (take_mail wid g) = g_capacity g"
  "g_per_user_active (take_slot user g) = g_per_user_active g"
  "g_per_user_active (free_slot user g) = g_per_user_active g"
  "g_per_user_active (record_wait n g) = g_per_user_active g"
  "g_per_user_active (take_mail wid g) = g_per_user_active g"
  by (simp_all add: gate_op_defs)

lemma counts_below_unchanged:
  "g_active g' \<le> g_active g \<Longrightarrow> (\<And>u. user_slots g' u \<le> user_slots g u) \<Longrightarrow>
   counts_below (g_active g) (user_slots g) g'"
  by (simp add: counts_below_def max_def) (metis nle_le order_trans)

lemma counts_below_release:
  assumes "g_active g' \<le> g_active g" "\<And>u. user_slots g' u \<le> user_slots g u"
  shows "counts_below (g_active g) (user_slots g) (release now user g')"
  unfolding release_def
proof (intro counts_below_dispatch counts_below_unchanged)
  show "g_active (free_slot user g') \<le> g_active g" using assms(1) by simp
  show "user_slots (free_slot user g') u \<le> user_slots g u" for u
    by (rule order_trans [OF user_slots_free assms(2)])
qed

lemma counts_below_step: "gate_step g g' \<Longrightarrow> counts_below (g_active g) (user_slots g) g'"
proof (induction rule: gate_step.induct)
  case (try_step g g')
  then show ?case
    by (auto simp: try_enter_def Let_def counts_below_def user_slots_take split: if_splits)
next
  case (enter_step g now user)
  show ?case
  proof (cases "g_queue g = [] \<and> g_active g < g_capacity g \<and> \<not> at_user_cap g user")
    case True
    then show ?thesis
      by (auto simp: enter_def Let_def counts_below_def user_slots_take at_user_cap_def)
  next
    case False
    show ?thesis
      unfolding enter_def if_not_P [OF False] Let_def snd_conv
      by (intro counts_below_dispatch counts_below_unchanged) simp_all
  qed
next
  case (receive_step g wid)
  show ?case
    by (rule counts_below_unchanged) (simp_all add: receive_def split: option.splits outcome.splits)
next
  case (timeout_step g wid)
  show ?case
    by (rule counts_below_unchanged) (simp_all add: enter_timeout_def split: option.splits outcome.splits)
next
  case (cancel_step g now wid)
  have "counts_below (g_active g) (user_slots g) (release now user (take_mail wid g))" for user
    by (rule counts_below_release) simp_all
  moreover have "counts_below (g_active g) (user_slots g) (dispatch now (g\<lparr>g_queue := q, g_timeouts_total := n\<rparr>))"
    for q n by (intro counts_below_dispatch counts_below_unchanged) simp_all
  moreover have "counts_below (g_active g) (user_slots g) (take_mail wid g)"
    by (rule counts_below_unchanged) simp_all
  ultimately show ?case
    by (simp add: cancel_waiter_def split: option.split outcome.split)
next
  case (drop_step user g now)
  show ?case unfolding drop_permit_def by (rule counts_below_release) simp_all
next
  case (capacity_step g now n)
  show ?case unfolding set_capacity_def
    by (intro counts_below_dispatch counts_below_unchanged) simp_all
next
  case (per_user_step g now n)
  show ?case unfolding set_per_user_active_def
    by (intro counts_below_dispatch counts_below_unchanged) simp_all
qed (rule counts_below_unchanged; simp add: set_chat_queue_depth_def close_gate_def user_slots_def)+

section \<open>Order of admission\<close>

text \<open>\<open>w\<close> stands before \<open>v\<close> in the queue exactly when \<open>[w, v]\<close> is a subsequence of it.\<close>

lemma subseq_mem: "subseq [w, v] q \<Longrightarrow> w \<in> set q \<and> v \<in> set q"
  using subseq_Cons' [of w "[v]" q] subseq_order.order_trans [of "[w]" "[w, v]" q]
  by (simp add: subseq_singleton_left)

lemma subseq_pair_before:
  "subseq [w, v] (a @ v # b) \<Longrightarrow> distinct (a @ v # b) \<Longrightarrow> w \<in> set a"
  by (induction a) (auto simp: subseq_singleton_left dest: subseq_mem split: if_splits)

lemma subseq_pair_skip:
  assumes "subseq [w, v] (a @ x # b)" "distinct (a @ x # b)" "w \<noteq> x" "v \<noteq> x"
  shows "subseq [w, v] (a @ b)"
proof -
  have "filter (\<lambda>y. y \<noteq> x) (a @ x # b) = a @ b"
    using assms(2) by (auto simp: filter_id_conv intro!: arg_cong2 [of _ _ _ _ "(@)"])
  moreover have "subseq (filter (\<lambda>y. y \<noteq> x) [w, v]) (filter (\<lambda>y. y \<noteq> x) (a @ x # b))"
    using assms(1) by (rule subseq_filter)
  ultimately show ?thesis using assms(3,4) by simp
qed

text \<open>During a dispatch: either the order still stands, or the front one is gone, or it is held
  back by its own cap.\<close>

definition in_turn :: "waiter \<Rightarrow> waiter \<Rightarrow> gate \<Rightarrow> bool" where
  "in_turn w v g \<longleftrightarrow> distinct (g_queue g) \<and>
     (subseq [w, v] (g_queue g) \<or> w \<notin> set (g_queue g) \<or> at_user_cap g (wt_user w))"

lemma in_turn_admit:
  assumes "in_turn w v g" "g_queue g = a @ x # b" "\<forall>y \<in> set a. at_user_cap g (wt_user y)"
  shows "in_turn w v (admit now x (a @ b) g)"
proof -
  have dist: "distinct (a @ x # b)" using assms(1,2) by (simp add: in_turn_def)
  consider "x = w" | "x = v" "x \<noteq> w" "subseq [w, v] (a @ x # b)"
    | "x \<noteq> w" "x \<noteq> v" "subseq [w, v] (a @ x # b)" | "w \<notin> set (a @ x # b)" | "at_user_cap g (wt_user w)"
    using assms(1,2) by (auto simp: in_turn_def)
  then have "subseq [w, v] (a @ b) \<or> w \<notin> set (a @ b) \<or> at_user_cap g (wt_user w)"
  proof cases
    case 2
    with subseq_pair_before [of w v a b] dist assms(3) show ?thesis by auto
  next
    case 3
    with subseq_pair_skip [of w v a x b] dist show ?thesis by auto
  qed (use dist in auto)
  with dist show ?thesis by (auto simp: in_turn_def at_user_cap_admit)
qed

lemma distinct_seats: "gate_core g \<Longrightarrow> distinct (map wt_id (g_queue g)) \<and>
   wt_id ` set (g_queue g) \<inter> fst ` set (g_mail g) = {}"
proof (intro conjI)
  assume core: "gate_core g"
  then have le: "count (mset (map wt_id (g_queue g))) i + count (mset (map fst (g_mail g))) i \<le> 1" for i
    by (simp add: gate_core_def seat_ids_def)
  then have "count (mset (map wt_id (g_queue g))) i \<le> 1" for i
    using add_leD1 by blast
  then show "distinct (map wt_id (g_queue g))"
    unfolding distinct_count_atmost_1
    by (metis One_nat_def count_eq_zero_iff le_Suc_eq le_zero_eq set_mset_mset)
  show "wt_id ` set (g_queue g) \<inter> fst ` set (g_mail g) = {}"
  proof (rule ccontr)
    assume "\<not> ?thesis"
    then obtain i where "i \<in># mset (map wt_id (g_queue g))" "i \<in># mset (map fst (g_mail g))" by auto
    then have "1 \<le> count (mset (map wt_id (g_queue g))) i" "1 \<le> count (mset (map fst (g_mail g))) i"
      by (simp_all only: count_greater_eq_one_iff)
    with le [of i] show False by linarith
  qed
qed

text \<open>The dispatch admits in queue order, except past waiters at their cap.\<close>

lemma dispatch_in_order:
  assumes core: "gate_core g" and before: "subseq [w, v] (g_queue g)" and open_g: "no_closed g"
    and still: "wt_id w \<in> wt_id ` set (g_queue (dispatch now g))"
    and gone: "(wt_id v, wt_user v, Admitted) \<in> set (g_mail (dispatch now g))"
  shows "at_user_cap (dispatch now g) (wt_user w)"
proof -
  let ?q = "g_queue g"
  let ?I = "\<lambda>g. in_turn w v g \<and> set (g_queue g) \<subseteq> set ?q"
  have purge: "filter (\<lambda>w. \<not> wt_closed w) ?q = ?q"
    using open_g by (simp add: no_closed_def filter_id_conv)
  have inj: "inj_on wt_id (set ?q)" "distinct ?q"
    using distinct_seats [OF core] by (simp_all add: distinct_map)
  have wv: "w \<in> set ?q" "v \<in> set ?q"
    using subseq_mem [OF before] by simp_all
  have "?I (dispatch_loop now g) \<and> no_closed (dispatch_loop now g) \<and> settled (dispatch_loop now g)"
  proof (rule dispatch_loop_invariant [OF open_g])
    show "?I g" using before inj(2) by (simp add: in_turn_def)
  qed (auto intro: in_turn_admit)
  then have loop: "in_turn w v (dispatch_loop now g)" "set (g_queue (dispatch_loop now g)) \<subseteq> set ?q"
    by simp_all
  have D: "dispatch now g = notify_positions (dispatch_loop now g)" by (simp add: dispatch_def purge)
  have seats: "wt_id ` set (g_queue (dispatch now g)) = wt_id ` set (g_queue (dispatch_loop now g))"
    using notify_frame(7) [of "dispatch_loop now g"] unfolding D by (metis set_map)
  from still obtain x where x: "x \<in> set (g_queue (dispatch_loop now g))" "wt_id x = wt_id w"
    unfolding seats by auto
  from inj_onD [OF inj(1) x(2)] x(1) loop(2) wv(1) have "x = w" by blast
  with x(1) have "w \<in> set (g_queue (dispatch_loop now g))" by simp
  moreover have "v \<notin> set (g_queue (dispatch_loop now g))"
  proof
    assume "v \<in> set (g_queue (dispatch_loop now g))"
    then have "wt_id v \<in> wt_id ` set (g_queue (dispatch now g))" unfolding seats by simp
    moreover have "wt_id v \<in> fst ` set (g_mail (dispatch now g))" using gone by force
    moreover have "gate_core (dispatch now g)"
      using dispatch_gate_inv [OF core] by (simp add: gate_inv_iff)
    ultimately show False using distinct_seats by blast
  qed
  ultimately show ?thesis
    using loop(1) by (auto simp: D in_turn_def dest: subseq_mem)
qed

text \<open>Steps without a dispatch send no admission.\<close>

lemma no_dispatch_no_admission:
  "try_enter g = Some g' \<Longrightarrow> g_mail g' = g_mail g"
  "set (g_mail (snd (receive wid g))) \<subseteq> set (g_mail g)"
  "set (g_mail (snd (enter_timeout wid g))) \<subseteq> set (g_mail g)"
  "(i, u, Admitted) \<in> set (g_mail (close_gate g)) \<Longrightarrow> (i, u, Admitted) \<in> set (g_mail g)"
  by (auto simp: try_enter_def receive_def enter_timeout_def close_gate_def gate_op_defs Let_def
      split: if_splits option.splits outcome.splits)

lemma queued_not_mailed:
  "gate_core g \<Longrightarrow> v \<in> set (g_queue g) \<Longrightarrow> (wt_id v, u, out) \<notin> set (g_mail g)"
  using distinct_seats [of g] by force

text \<open>A dispatch invents no seat.\<close>

lemma live_ids_dispatch: "live_ids (dispatch now g) \<subseteq> live_ids g"
proof -
  let ?g = "g\<lparr>g_queue := filter (\<lambda>w. \<not> wt_closed w) (g_queue g)\<rparr>"
  have "live_ids (dispatch_loop now ?g) \<subseteq> live_ids g \<and> no_closed (dispatch_loop now ?g) \<and>
        settled (dispatch_loop now ?g)"
    by (rule dispatch_loop_invariant) (auto simp: no_closed_def live_ids_def)
  moreover have "live_ids (notify_positions h) = live_ids h" for h
    unfolding live_ids_def by (simp only: set_map [symmetric] notify_frame)
  ultimately show ?thesis by (simp add: dispatch_def)
qed

lemma cancel_in_order:
  assumes inv: "gate_inv g" and before: "subseq [w, v] (g_queue g)"
    and still: "wt_id w \<in> wt_id ` set (g_queue (cancel_waiter now wid g))"
    and gone: "(wt_id v, wt_user v, Admitted) \<in> set (g_mail (cancel_waiter now wid g))"
  shows "at_user_cap (cancel_waiter now wid g) (wt_user w)"
proof -
  have core: "gate_core g" and opn: "no_closed g" using inv by (simp_all add: gate_inv_iff)
  have vq: "v \<in> set (g_queue g)" using subseq_mem [OF before] by simp
  show ?thesis
  proof (cases rule: seat_search_cases [of wid "g_queue g"])
    case (1 a x b)
    let ?g = "g\<lparr>g_queue := a @ b, g_timeouts_total := g_timeouts_total g + 1\<rparr>"
    have C: "cancel_waiter now wid g = dispatch now ?g" using 1(1) by (simp add: cancel_waiter_def)
    have "wt_id x \<notin> live_ids ?g"
      using distinct_seats [OF core] 1(2) by (auto simp: live_ids_def image_iff)
    then have "wt_id x \<notin> live_ids (dispatch now ?g)" using live_ids_dispatch by blast
    with still gone have "w \<noteq> x" "v \<noteq> x" by (force simp: C live_ids_def)+
    then have "subseq [w, v] (a @ b)"
      using subseq_pair_skip [of w v a x b] before 1(2) distinct_seats [OF core]
      by (auto simp: distinct_map)
    then show ?thesis
      using dispatch_in_order [of ?g w v now] gate_core_drop_seat [OF core 1(2)] opn 1(2) still gone
      by (simp add: C no_closed_def)
  next
    case 2
    have drop: "gate_core (free_slot user (take_mail wid g))" if "mail_for wid g = Some (user, Admitted)" for user
      by (rule gate_core_abandon [OF core that])
    have frame: "g_queue (take_mail wid g) = g_queue g" "set (g_mail (take_mail wid g)) \<subseteq> set (g_mail g)"
      by (auto simp: take_mail_def)
    from 2 gone frame(2) queued_not_mailed [OF core vq]
    obtain user where m: "mail_for wid g = Some (user, Admitted)"
      by (auto simp: cancel_waiter_def split: option.splits outcome.splits)
    then have C: "cancel_waiter now wid g = dispatch now (free_slot user (take_mail wid g))"
      using 2 by (simp add: cancel_waiter_def release_def)
    show ?thesis
      using dispatch_in_order [OF drop [OF m], of w v now] before opn still gone frame(1)
      by (simp add: C no_closed_def)
  qed
qed

lemma step_in_order:
  assumes "gate_step g g'" and inv: "gate_inv g" and before: "subseq [w, v] (g_queue g)"
    and still: "wt_id w \<in> wt_id ` set (g_queue g')"
    and gone: "(wt_id v, wt_user v, Admitted) \<in> set (g_mail g')"
  shows "at_user_cap g' (wt_user w)"
proof -
  have core: "gate_core g" and opn: "no_closed g" using inv by (simp_all add: gate_inv_iff)
  have v: "(wt_id v, wt_user v, Admitted) \<notin> set (g_mail g)"
    using queued_not_mailed [OF core] subseq_mem [OF before] by blast
  from assms(1) inv before still gone core opn v show ?thesis
  proof (induction rule: gate_step.induct)
    case (enter_step g now user)
    show ?case
    proof (cases "g_queue g = [] \<and> g_active g < g_capacity g \<and> \<not> at_user_cap g user")
      case True
      with enter_step show ?thesis by simp
    next
      case False
      let ?g = "g\<lparr>g_next_id := (g_next_id g + 1) mod 2 ^ 64, g_queue := g_queue g @
        [\<lparr>wt_id = g_next_id g, wt_user = user, wt_enqueued_at = now,
          wt_last_position = None, wt_closed = False\<rparr>]\<rparr>"
      have E: "snd (enter now user g) = dispatch now ?g"
        unfolding enter_def if_not_P [OF False] Let_def snd_conv ..
      have "gate_core ?g" by (rule gate_core_queue_up) (use enter_step in simp_all)
      moreover have "subseq [w, v] (g_queue ?g)" "no_closed ?g"
        using enter_step by (auto simp: no_closed_def intro: subseq_rev_drop_many)
      ultimately show ?thesis using dispatch_in_order [of ?g w v now] enter_step by (simp add: E)
    qed
  next
    case (cancel_step g now wid)
    then show ?case by (intro cancel_in_order)
  next
    case (drop_step user g now)
    then show ?case
      using dispatch_in_order [OF gate_core_drop, of g user w v now]
      by (simp add: drop_permit_def release_def no_closed_def)
  next
    case (capacity_step g now n)
    then show ?case
      using dispatch_in_order [OF gate_core_limits(1), of g w v n now]
      by (simp add: set_capacity_def no_closed_def)
  next
    case (per_user_step g now n)
    then show ?case
      using dispatch_in_order [OF gate_core_limits(2), of g w v n now]
      by (simp add: set_per_user_active_def no_closed_def)
  next
    case (receive_step g wid)
    then show ?case using no_dispatch_no_admission(2) by blast
  next
    case (timeout_step g wid)
    then show ?case using no_dispatch_no_admission(3) by blast
  next
    case (close_step g)
    then show ?case using no_dispatch_no_admission(4) by blast
  qed (auto simp: no_dispatch_no_admission set_chat_queue_depth_def)
qed

section \<open>The properties\<close>

text \<open>A gate of two slots: user 7 holds both, and a waiter of user 7 and one of user 8 queue up.\<close>

definition full_gate :: gate where
  "full_gate =
     snd (enter 30 (Some 8) (snd (enter 20 (Some 7) (snd (enter 10 (Some 7) (snd (enter 5 (Some 7)
       (new_gate 2))))))))"

definition busy_gate :: gate where
  "busy_gate =
     \<lparr>g_capacity = 2, g_per_user_active = 2, g_chat_queue_depth = 64, g_active = 2,
      g_per_user = [7 \<mapsto> 2],
      g_queue = [\<lparr>wt_id = 0, wt_user = Some 7, wt_enqueued_at = 20, wt_last_position = Some 0, wt_closed = False\<rparr>,
                 \<lparr>wt_id = 1, wt_user = Some 8, wt_enqueued_at = 30, wt_last_position = Some 1, wt_closed = False\<rparr>],
      g_next_id = 2, g_admissions_total = 2, g_timeouts_total = 0, g_wait_ns_total = 0, g_wait_count = 2,
      g_mail = [], g_permits = [Some 7, Some 7], g_positions = [(0, 0), (1, 1)]\<rparr>"

lemmas gate_eval = full_gate_def busy_gate_def new_gate_def enter_def dispatch_def dispatch_loop.simps
  gate_op_defs at_user_cap_def user_slots_def clamp_from_1_def CAPACITY_MAX_def PER_USER_MAX_def
  DEFAULT_PER_USER_ACTIVE_def DEFAULT_CHAT_QUEUE_DEPTH_def notify_positions_def moved_positions_def

lemma full_gate_eq: "full_gate = busy_gate"
  by (simp add: gate_eval Let_def enumerate_eq_zip) (simp add: numeral_2_eq_2)

lemma busy_gate_reach: "gate_reach busy_gate"
proof -
  have enter_reach: "gate_reach g \<Longrightarrow> g_next_id g \<notin> live_ids g \<Longrightarrow> gate_reach (snd (enter now user g))"
    for now user g by (rule gate_reach.step [OF _ gate_step.enter_step])
  have "gate_reach full_gate"
    unfolding full_gate_def
    by (intro enter_reach gate_reach.start) (simp_all add: gate_eval Let_def enumerate_eq_zip live_ids_def)
  then show ?thesis by (simp add: full_gate_eq)
qed

text \<open>C1.  Slots are conserved.  In every state the gate can reach, over every interleaving of
  entering, receiving, timing out, cancelling, dropping permits, reconfiguring and closing, the
  active counter is the number of live permits plus the admissions still on their way to a waiter,
  and the per-user table counts exactly those of each user, with no entry for a user with none: no
  path leaks a slot and none returns one twice.\<close>
theorem gate_slots_conserved:
  assumes "gate_reach g"
  shows "g_active g = size (holders g) \<and>
    (\<forall>u. g_per_user g u = (if Some u \<in># holders g then Some (count (holders g) (Some u)) else None))"
  using gate_reach_inv [OF assms] by (simp add: gate_inv_def slots_for_def not_in_iff)

theorem gate_slots_conserved_witness:
  "gate_reach busy_gate \<and> g_active busy_gate = 2 \<and> size (holders busy_gate) = 2"
  using gate_slots_conserved [OF busy_gate_reach] busy_gate_reach by (simp add: busy_gate_def)

text \<open>C2.  Work conservation.  In every reachable state, if a slot is free then each queued waiter
  belongs to a user who already holds the per-user maximum; in particular an anonymous waiter is
  never left queued beside a free slot.\<close>
theorem gate_work_conserving:
  assumes "gate_reach g" and "g_active g < g_capacity g" and "w \<in> set (g_queue g)"
  shows "\<exists>u. wt_user w = Some u \<and> g_per_user_active g \<le> count (holders g) (Some u)"
proof -
  from gate_reach_inv [OF assms(1)] have slots: "slots_for (holders g) g" and "settled g"
    by (simp_all add: gate_inv_def)
  with assms(2,3) have "at_user_cap g (wt_user w)" by (simp add: settled_def)
  with slots show ?thesis
    by (auto simp: at_user_cap_def user_slots_def slots_for_def split: option.splits if_splits)
qed

text \<open>Raising the capacity to four admits user 8 past the first waiter, whose user is at the cap.\<close>

definition roomy_gate :: gate where
  "roomy_gate = set_capacity 40 4 busy_gate"

lemma roomy_step: "gate_step busy_gate roomy_gate"
  unfolding roomy_gate_def by (rule gate_step.capacity_step)

lemma roomy_gate_fields:
  "g_capacity roomy_gate = 4" "g_active roomy_gate = 3" "g_per_user roomy_gate = [7 \<mapsto> 2, 8 \<mapsto> 1]"
  "map wt_id (g_queue roomy_gate) = [0]" "map wt_user (g_queue roomy_gate) = [Some 7]"
  "g_mail roomy_gate = [(1, Some 8, Admitted)]" "g_permits roomy_gate = [Some 7, Some 7]"
  "g_per_user_active roomy_gate = 2"
  by (simp_all add: roomy_gate_def gate_eval set_capacity_def Let_def enumerate_eq_zip)

theorem gate_work_conserving_witness:
  "gate_reach roomy_gate \<and> g_active roomy_gate < g_capacity roomy_gate \<and>
   (\<exists>w u. w \<in> set (g_queue roomy_gate) \<and> wt_user w = Some u \<and> 2 \<le> count (holders roomy_gate) (Some u))"
proof -
  have reach: "gate_reach roomy_gate" by (rule gate_reach.step [OF busy_gate_reach roomy_step])
  have free: "g_active roomy_gate < g_capacity roomy_gate" by (simp add: roomy_gate_fields)
  obtain w where "w \<in> set (g_queue roomy_gate)"
    using roomy_gate_fields(4) by (cases "g_queue roomy_gate") auto
  with gate_work_conserving [OF reach free] reach free show ?thesis
    by (metis roomy_gate_fields(8))
qed

text \<open>Admission respects the limits.  A step of the gate never leaves more slots in use than the
  larger of what was in use and the capacity in force after the step, and the same per user with
  the per-user limit.  Lowering a limit therefore drains instead of revoking, and no sequence of
  events admits past a limit.\<close>
theorem gate_limits_respected:
  assumes "gate_step g g'"
  shows "g_active g' \<le> max (g_active g) (g_capacity g') \<and>
    (\<forall>u. user_slots g' u \<le> max (user_slots g u) (g_per_user_active g'))"
  using counts_below_step [OF assms] by (simp add: counts_below_def)

theorem gate_limits_respected_witness:
  "gate_step busy_gate roomy_gate \<and> g_active roomy_gate \<le> max (g_active busy_gate) (g_capacity roomy_gate) \<and>
   user_slots roomy_gate 8 \<le> max (user_slots busy_gate 8) (g_per_user_active roomy_gate)"
  using gate_limits_respected [OF roomy_step] roomy_step by blast

text \<open>C3.  First come, first served.  When one step of a reachable gate admits a waiter while a waiter
  that was queued before it keeps waiting, the user of the one left behind is at the per-user cap;
  there is no other reason to be overtaken.\<close>
theorem gate_no_overtaking:
  assumes "gate_reach g" and "gate_step g g'" and "subseq [w, v] (g_queue g)"
    and "wt_id w \<in> wt_id ` set (g_queue g')"
    and "(wt_id v, wt_user v, Admitted) \<in> set (g_mail g')"
  shows "at_user_cap g' (wt_user w)"
  using step_in_order [OF assms(2) gate_reach_inv [OF assms(1)] assms(3-5)] .

theorem gate_no_overtaking_witness:
  "at_user_cap roomy_gate (Some 7)"
proof -
  let ?w = "\<lparr>wt_id = 0, wt_user = Some 7, wt_enqueued_at = 20, wt_last_position = Some 0, wt_closed = False\<rparr>"
  let ?v = "\<lparr>wt_id = 1, wt_user = Some 8, wt_enqueued_at = 30, wt_last_position = Some 1, wt_closed = False\<rparr>"
  have "subseq [?w, ?v] (g_queue busy_gate)" by (simp add: busy_gate_def)
  moreover have "wt_id ?w \<in> wt_id ` set (g_queue roomy_gate)"
    using roomy_gate_fields(4) by (simp add: set_map [symmetric] del: set_map)
  moreover have "(wt_id ?v, wt_user ?v, Admitted) \<in> set (g_mail roomy_gate)"
    by (simp add: roomy_gate_fields)
  ultimately show ?thesis
    using gate_no_overtaking [OF busy_gate_reach roomy_step, of ?w ?v] by simp
qed

end
