(* ===== verification/Llm_Health.thy ===== *)
theory Llm_Health
  imports Rust_Text
begin

text \<open>
  The backend-health registry (\<^verbatim>\<open>crates/mycelium-librarian/src/llm_health.rs\<close>): the record is what
  its mutex protects, clocks and the staleness inputs are arguments as in the \<^verbatim>\<open>_at\<close> methods.  The
  abstract specification reads the reported state off the history of observations; the machine
  refines it.  \<^verbatim>\<open>short_detail\<close>, the bound on persisted error texts, is modelled on UTF-8 lengths.
\<close>

section \<open>The machine\<close>

datatype backend_state = Disabled | Green | Yellow | Red

fun backend_state_as_str :: "backend_state \<Rightarrow> rstring" where
  "backend_state_as_str Disabled = str ''disabled''"
| "backend_state_as_str Green = str ''green''"
| "backend_state_as_str Yellow = str ''yellow''"
| "backend_state_as_str Red = str ''red''"

definition MODEL_SUCCESS_STALE_SECS :: nat where "MODEL_SUCCESS_STALE_SECS = 600"
definition RED_FAILURE_THRESHOLD :: nat where "RED_FAILURE_THRESHOLD = 3"

record health =
  configured :: bool
  consecutive_failures :: nat
  down_since :: "nat option"
  last_observation :: "nat option"
  checked_at :: "nat option"

record health_snapshot =
  hs_state :: backend_state
  hs_down_since :: "nat option"
  hs_last_observation :: "nat option"
  hs_consecutive_failures :: nat
  hs_checked_at :: "nat option"

definition default_health :: health where
  "default_health =
     \<lparr>configured = True, consecutive_failures = 0, down_since = None, last_observation = None,
      checked_at = None\<rparr>"

definition base_state :: "health \<Rightarrow> backend_state" where
  "base_state h =
     (if \<not> configured h then Disabled
      else if consecutive_failures h = 0 then Green
      else if consecutive_failures h < RED_FAILURE_THRESHOLD then Yellow
      else Red)"

definition effective_state :: "nat \<Rightarrow> nat option \<Rightarrow> bool \<Rightarrow> health \<Rightarrow> backend_state" where
  "effective_state now last_model_success busy h =
     (let base = base_state h in
      if base = Green \<and> busy \<and>
         (case last_model_success of None \<Rightarrow> True | Some ts \<Rightarrow> now - ts > MODEL_SUCCESS_STALE_SECS)
      then Yellow else base)"

definition snapshot_at :: "nat \<Rightarrow> nat option \<Rightarrow> bool \<Rightarrow> health \<Rightarrow> health_snapshot" where
  "snapshot_at now last_model_success busy h =
     \<lparr>hs_state = effective_state now last_model_success busy h, hs_down_since = down_since h,
      hs_last_observation = last_observation h, hs_consecutive_failures = consecutive_failures h,
      hs_checked_at = checked_at h\<rparr>"

text \<open>The inputs the chat instance reads from the process globals; \<open>0\<close> means never observed.\<close>

definition success_clock :: "nat \<Rightarrow> nat option" where
  "success_clock ts = (if ts = 0 then None else Some ts)"

definition state_of :: "nat \<Rightarrow> nat \<Rightarrow> nat \<Rightarrow> nat \<Rightarrow> health \<Rightarrow> backend_state" where
  "state_of now llm_last_success active queued h =
     effective_state now (success_clock llm_last_success) (active + queued > 0) h"

definition embedding_state :: "nat \<Rightarrow> nat \<Rightarrow> health \<Rightarrow> backend_state" where
  "embedding_state now emb_last_success h = effective_state now (success_clock emb_last_success) False h"

definition embedding_snapshot :: "nat \<Rightarrow> nat \<Rightarrow> health \<Rightarrow> health_snapshot" where
  "embedding_snapshot now emb_last_success h = snapshot_at now (success_clock emb_last_success) False h"

definition note_ok_at :: "nat \<Rightarrow> health \<Rightarrow> health" where
  "note_ok_at now h =
     (if \<not> configured h then h
      else h\<lparr>consecutive_failures := 0, down_since := None, last_observation := Some now,
             checked_at := Some now\<rparr>)"

text \<open>\<^verbatim>\<open>u32::saturating_add(1)\<close>.\<close>

definition saturating_incr :: "nat \<Rightarrow> nat" where
  "saturating_incr n = min (n + 1) (2 ^ 32 - 1)"

definition note_failure_at :: "nat \<Rightarrow> health \<Rightarrow> health" where
  "note_failure_at now h =
     (if \<not> configured h then h
      else h\<lparr>down_since := (if consecutive_failures h = 0 then Some now else down_since h),
             consecutive_failures := saturating_incr (consecutive_failures h),
             checked_at := Some now\<rparr>)"

definition set_disabled :: "health \<Rightarrow> health" where
  "set_disabled h = h\<lparr>configured := False\<rparr>"

definition note_configured :: "health \<Rightarrow> health" where
  "note_configured h = (if configured h then h else default_health)"

text \<open>The verdict of \<^verbatim>\<open>probe_once\<close> on the outcome of its request: an HTTP status, or no response.\<close>

definition probe_verdict :: "nat option \<Rightarrow> bool" where
  "probe_verdict response =
     (case response of
        Some status \<Rightarrow> \<not> (status \<ge> 500 \<or> status = 401 \<or> status = 403)
      | None \<Rightarrow> False)"

section \<open>History\<close>

datatype health_event = Ok_note nat | Failure_note nat | Disable | Configure

fun health_step :: "health \<Rightarrow> health_event \<Rightarrow> health" where
  "health_step h (Ok_note t) = note_ok_at t h"
| "health_step h (Failure_note t) = note_failure_at t h"
| "health_step h Disable = set_disabled h"
| "health_step h Configure = note_configured h"

definition health_run :: "health_event list \<Rightarrow> health" where
  "health_run es = foldl health_step default_health es"

lemma health_run_simps [simp]:
  "health_run [] = default_health"
  "health_run (es @ [e]) = health_step (health_run es) e"
  by (simp_all add: health_run_def)

text \<open>
  The specification.  An observation counts when the machine is configured at that moment; the
  effective history is what has counted since the machine was last configured afresh.
\<close>

datatype observation = Good nat | Bad nat

fun counted :: "bool \<times> observation list \<Rightarrow> health_event \<Rightarrow> bool \<times> observation list" where
  "counted (True, obs) (Ok_note t) = (True, obs @ [Good t])"
| "counted (True, obs) (Failure_note t) = (True, obs @ [Bad t])"
| "counted (c, obs) Disable = (False, obs)"
| "counted (False, obs) Configure = (True, [])"
| "counted (c, obs) e = (c, obs)"

definition history :: "health_event list \<Rightarrow> bool \<times> observation list" where
  "history es = foldl counted (True, []) es"

lemma history_simps [simp]:
  "history [] = (True, [])"
  "history (es @ [e]) = counted (history es) e"
  by (simp_all add: history_def)

fun is_bad :: "observation \<Rightarrow> bool" where
  "is_bad (Good t) = False"
| "is_bad (Bad t) = True"

fun obs_time :: "observation \<Rightarrow> nat" where
  "obs_time (Good t) = t"
| "obs_time (Bad t) = t"

text \<open>The failures since the last good observation, oldest first.\<close>

definition outage :: "observation list \<Rightarrow> observation list" where
  "outage obs = rev (takeWhile is_bad (rev obs))"

definition spec_state :: "bool \<times> observation list \<Rightarrow> backend_state" where
  "spec_state ho =
     (if \<not> fst ho then Disabled
      else case length (outage (snd ho)) of
             0 \<Rightarrow> Green
           | Suc 0 \<Rightarrow> Yellow
           | Suc (Suc 0) \<Rightarrow> Yellow
           | _ \<Rightarrow> Red)"

definition spec_down_since :: "observation list \<Rightarrow> nat option" where
  "spec_down_since obs = (case outage obs of [] \<Rightarrow> None | b # _ \<Rightarrow> Some (obs_time b))"

definition last_good :: "observation list \<Rightarrow> nat option" where
  "last_good obs = (case rev (filter (\<lambda>b. \<not> is_bad b) obs) of [] \<Rightarrow> None | b # _ \<Rightarrow> Some (obs_time b))"

definition last_time :: "observation list \<Rightarrow> nat option" where
  "last_time obs = (case rev obs of [] \<Rightarrow> None | b # _ \<Rightarrow> Some (obs_time b))"

lemma obs_snoc [simp]:
  "outage (obs @ [Good t]) = []"
  "outage (obs @ [Bad t]) = outage obs @ [Bad t]"
  "last_good (obs @ [Good t]) = Some t"
  "last_good (obs @ [Bad t]) = last_good obs"
  "last_time (obs @ [b]) = Some (obs_time b)"
  "outage [] = []" "last_good [] = None" "last_time [] = None"
  by (simp_all add: outage_def last_good_def last_time_def)

lemma spec_down_since_snoc [simp]:
  "spec_down_since [] = None"
  "spec_down_since (obs @ [Good t]) = None"
  "spec_down_since (obs @ [Bad t]) = (if outage obs = [] then Some t else spec_down_since obs)"
  by (simp_all add: spec_down_since_def split: list.splits)

text \<open>The simulation relation between the machine and its history.\<close>

definition tracks :: "health \<Rightarrow> bool \<times> observation list \<Rightarrow> bool" where
  "tracks h ho \<longleftrightarrow> configured h = fst ho \<and>
     consecutive_failures h = min (length (outage (snd ho))) (2 ^ 32 - 1) \<and>
     down_since h = spec_down_since (snd ho) \<and>
     last_observation h = last_good (snd ho) \<and> checked_at h = last_time (snd ho)"

lemma tracks_step:
  assumes "tracks h (c, obs)"
  shows "tracks (health_step h e) (counted (c, obs) e)"
  using assms
  by (cases e; cases c)
    (auto simp: tracks_def note_ok_at_def note_failure_at_def set_disabled_def note_configured_def
      saturating_incr_def default_health_def min_def)

lemma tracks_run: "tracks (health_run es) (history es)"
proof (induction es rule: rev_induct)
  case Nil
  show ?case by (simp add: tracks_def default_health_def)
next
  case (snoc e es)
  then show ?case using tracks_step [of "health_run es" "fst (history es)" "snd (history es)" e] by simp
qed

text \<open>The health machine reports what the history of observations says.  After any sequence of
  ok notes, failure notes, disabling and configuring: the base state is Disabled exactly while
  unconfigured, Green with no failure since the last good observation, Yellow with one or two, Red
  with three or more (also when the 32-bit counter has saturated); \<^verbatim>\<open>down_since\<close> is the time of the
  first failure of the running outage, \<^verbatim>\<open>last_observation\<close> that of the last good observation and
  \<^verbatim>\<open>checked_at\<close> that of the last one, where notes made while disabled do not count.\<close>
theorem health_refines_history:
  "base_state (health_run es) = spec_state (history es) \<and>
   down_since (health_run es) = spec_down_since (snd (history es)) \<and>
   last_observation (health_run es) = last_good (snd (history es)) \<and>
   checked_at (health_run es) = last_time (snd (history es))"
proof -
  have T: "tracks (health_run es) (history es)" by (rule tracks_run)
  then have "base_state (health_run es) = spec_state (history es)"
    by (auto simp: tracks_def base_state_def spec_state_def RED_FAILURE_THRESHOLD_def min_def
        split: nat.splits if_splits)
  with T show ?thesis by (simp add: tracks_def)
qed

text \<open>The staleness rule only ever turns a Green into a Yellow: it applies exactly when the
  gate is busy and the last model success is missing or more than ten minutes old, and the
  embeddings instance, which is never busy, always reports its base state.\<close>
theorem staleness_rule:
  "effective_state now ls busy h =
     (if base_state h = Green \<and> busy \<and> (\<forall>ts. ls = Some ts \<longrightarrow> ts + 600 < now) then Yellow
      else base_state h) \<and>
   embedding_state now emb h = base_state h"
  by (auto simp: effective_state_def embedding_state_def MODEL_SUCCESS_STALE_SECS_def Let_def
      split: option.splits)

theorem staleness_rule_witness:
  "effective_state 1000 (Some 300) True default_health = Yellow \<and>
   effective_state 900 (Some 300) True default_health = Green"
  using staleness_rule [of 1000 "Some 300" True default_health]
    staleness_rule [of 900 "Some 300" True default_health]
  by (simp add: base_state_def default_health_def)

section \<open>Bounded error texts\<close>

definition DETAIL_CAP :: nat where "DETAIL_CAP = 512"

text \<open>\<^verbatim>\<open>str::is_char_boundary\<close>: the offset is the byte length of a prefix of characters.\<close>

definition is_char_boundary :: "rstring \<Rightarrow> nat \<Rightarrow> bool" where
  "is_char_boundary s i \<longleftrightarrow> list_ex (\<lambda>k. utf8_len (take k s) = i) [0..<length s + 1]"

text \<open>The \<^verbatim>\<open>while\<close> loop that walks back to a boundary.\<close>

fun floor_boundary :: "rstring \<Rightarrow> nat \<Rightarrow> nat" where
  "floor_boundary s 0 = 0"
| "floor_boundary s (Suc i) = (if is_char_boundary s (Suc i) then Suc i else floor_boundary s i)"

text \<open>\<^verbatim>\<open>&s[..end]\<close> at a boundary: the characters within the first \<open>n\<close> bytes.\<close>

fun slice_to :: "rstring \<Rightarrow> nat \<Rightarrow> rstring" where
  "slice_to [] n = []"
| "slice_to (c # s) n = (if utf8_len_char c \<le> n then c # slice_to s (n - utf8_len_char c) else [])"

definition truncated_marker :: rstring where
  "truncated_marker = 8230 # str '' [truncated]''"

definition short_detail :: "rstring \<Rightarrow> rstring" where
  "short_detail s =
     (if utf8_len s \<le> DETAIL_CAP then s
      else slice_to s (floor_boundary s DETAIL_CAP) @ truncated_marker)"

lemma is_char_boundary_iff: "is_char_boundary s i \<longleftrightarrow> (\<exists>a b. s = a @ b \<and> utf8_len a = i)"
proof
  assume "is_char_boundary s i"
  then obtain k where "utf8_len (take k s) = i" unfolding is_char_boundary_def list_ex_iff by blast
  then show "\<exists>a b. s = a @ b \<and> utf8_len a = i" by (metis append_take_drop_id)
next
  assume "\<exists>a b. s = a @ b \<and> utf8_len a = i"
  then obtain a b where "s = a @ b" "utf8_len a = i" by blast
  then show "is_char_boundary s i"
    unfolding is_char_boundary_def list_ex_iff by (intro bexI [of _ "length a"]) auto
qed

lemma is_char_boundary_0: "is_char_boundary s 0"
  by (auto simp: is_char_boundary_iff intro: exI [of _ "[]"])

lemma floor_boundary_props:
  "floor_boundary s n \<le> n \<and> is_char_boundary s (floor_boundary s n) \<and>
   (\<forall>i \<le> n. is_char_boundary s i \<longrightarrow> i \<le> floor_boundary s n)"
proof (induction n)
  case (Suc n)
  then show ?case by (auto simp: le_Suc_eq)
qed (simp add: is_char_boundary_0)

lemma slice_to_append: "slice_to (a @ b) (utf8_len a) = a @ slice_to b 0"
  by (induction a) simp_all

lemma slice_to_0: "slice_to s 0 = []"
  using utf8_len_char_pos by (cases s) (auto simp: Suc_le_eq dest: not_le_imp_less)

lemma slice_to_boundary: "s = a @ b \<Longrightarrow> slice_to s (utf8_len a) = a"
  by (simp add: slice_to_append slice_to_0)

lemma floor_boundary_split:
  assumes "n < utf8_len s"
  obtains a c b where "s = a @ c # b" "floor_boundary s n = utf8_len a" "utf8_len a \<le> n"
    "n < utf8_len a + utf8_len_char c"
proof -
  from floor_boundary_props obtain a r where a: "s = a @ r" "utf8_len a = floor_boundary s n"
    by (metis is_char_boundary_iff)
  with assms floor_boundary_props [of s n] obtain c b where r: "r = c # b" by (cases r) auto
  have "is_char_boundary s (utf8_len a + utf8_len_char c)"
    unfolding is_char_boundary_iff by (intro exI [of _ "a @ [c]"] exI [of _ b]) (simp add: a(1) r)
  with floor_boundary_props [of s n] a(2) utf8_len_char_pos [of c]
  have "n < utf8_len a + utf8_len_char c" by (metis add_le_same_cancel1 not_le not_one_le_zero order_trans)
  with a r that floor_boundary_props [of s n] show thesis by metis
qed

text \<open>Error texts are bounded without breaking a character.  \<^verbatim>\<open>short_detail\<close> returns a text of at
  most 512 bytes unchanged; a longer one is cut to the longest run of whole characters that fits in
  512 bytes, followed by the marker, so the result never exceeds 527 bytes.\<close>
theorem short_detail_bounded:
  "utf8_len (short_detail s) \<le> 527 \<and>
   (if utf8_len s \<le> 512 then short_detail s = s
    else \<exists>a c b. s = a @ c # b \<and> short_detail s = a @ truncated_marker \<and>
           utf8_len a \<le> 512 \<and> 512 < utf8_len (a @ [c]))"
proof (cases "utf8_len s \<le> 512")
  case True
  then show ?thesis by (simp add: short_detail_def DETAIL_CAP_def)
next
  case False
  then obtain a c b where s: "s = a @ c # b" "floor_boundary s 512 = utf8_len a" "utf8_len a \<le> 512"
    "512 < utf8_len a + utf8_len_char c"
    by (meson floor_boundary_split not_le)
  then have "short_detail s = a @ truncated_marker"
    using False by (simp add: short_detail_def DETAIL_CAP_def s(2)) (simp add: s(1) slice_to_boundary)
  moreover have "utf8_len truncated_marker = 15"
    by (simp add: truncated_marker_def utf8_len_char_def of_char_def)
  ultimately show ?thesis using False s by auto
qed

end
