(* ===== verification/Llm_Client.thy ===== *)
theory Llm_Client
  imports Complex_Main Llm_Gate_Safety Llm_Health
begin

text \<open>
  The LLM client: \<^verbatim>\<open>crates/mycelium-librarian/src/llm.rs\<close>.  The admin configuration and how it reaches
  the gate, the error type, the request a call sends, what it makes of the response, and the pass
  that keeps a conversation within the context budget.  The HTTP exchange is a parameter: a function
  from the request to a transport error or a response.
\<close>

section \<open>Configuration\<close>

record llm_config =
  lc_url :: rstring
  lc_model :: rstring
  lc_api_key :: "rstring option"
  lc_max_parallel :: nat
  lc_per_user_active :: nat
  lc_query_wait_secs :: nat
  lc_chat_wait_secs :: nat
  lc_chat_queue_depth :: nat

definition MAX_PARALLEL_RANGE :: "nat \<times> nat" where "MAX_PARALLEL_RANGE = (1, 64)"
definition PER_USER_ACTIVE_RANGE :: "nat \<times> nat" where "PER_USER_ACTIVE_RANGE = (1, 16)"
definition QUERY_WAIT_SECS_RANGE :: "nat \<times> nat" where "QUERY_WAIT_SECS_RANGE = (1, 600)"
definition CHAT_WAIT_SECS_RANGE :: "nat \<times> nat" where "CHAT_WAIT_SECS_RANGE = (1, 7200)"
definition CHAT_QUEUE_DEPTH_RANGE :: "nat \<times> nat" where "CHAT_QUEUE_DEPTH_RANGE = (1, 1024)"

lemmas llm_ranges = MAX_PARALLEL_RANGE_def PER_USER_ACTIVE_RANGE_def QUERY_WAIT_SECS_RANGE_def
  CHAT_WAIT_SECS_RANGE_def CHAT_QUEUE_DEPTH_RANGE_def

definition default_llm_config :: llm_config where
  "default_llm_config = \<lparr>lc_url = str ''http://localhost:11434/v1'', lc_model = str ''default'', lc_api_key = None,
     lc_max_parallel = 2, lc_per_user_active = 2, lc_query_wait_secs = 30, lc_chat_wait_secs = 600,
     lc_chat_queue_depth = 64\<rparr>"

text \<open>\<^verbatim>\<open>Ord::clamp\<close>.\<close>

definition clamp_to :: "nat \<times> nat \<Rightarrow> nat \<Rightarrow> nat" where
  "clamp_to r n = (if n < fst r then fst r else if snd r < n then snd r else n)"

definition llm_clamp :: "llm_config \<Rightarrow> llm_config" where
  "llm_clamp c = \<lparr>lc_url = lc_url c, lc_model = lc_model c, lc_api_key = lc_api_key c,
     lc_max_parallel = clamp_to MAX_PARALLEL_RANGE (lc_max_parallel c),
     lc_per_user_active = clamp_to PER_USER_ACTIVE_RANGE (lc_per_user_active c),
     lc_query_wait_secs = clamp_to QUERY_WAIT_SECS_RANGE (lc_query_wait_secs c),
     lc_chat_wait_secs = clamp_to CHAT_WAIT_SECS_RANGE (lc_chat_wait_secs c),
     lc_chat_queue_depth = clamp_to CHAT_QUEUE_DEPTH_RANGE (lc_chat_queue_depth c)\<rparr>"

definition apply_to_gate :: "timestamp \<Rightarrow> llm_config \<Rightarrow> gate \<Rightarrow> gate" where
  "apply_to_gate now c g =
     (let cfg = llm_clamp c in
      set_capacity now (lc_max_parallel cfg)
        (set_chat_queue_depth (lc_chat_queue_depth cfg)
          (set_per_user_active now (lc_per_user_active cfg) g)))"

section \<open>Errors and health notes\<close>

text \<open>\<^verbatim>\<open>LlmError\<close>; a transport error carries its text.\<close>

datatype llm_error = Request rstring | EmptyResponse | Status nat rstring

fun is_backend_down :: "llm_error \<Rightarrow> bool" where
  "is_backend_down (Request _) = True"
| "is_backend_down (Status status _) = (status \<ge> 500 \<or> status = 401 \<or> status = 403)"
| "is_backend_down EmptyResponse = False"

fun show_llm_error :: "llm_error \<Rightarrow> rstring" where
  "show_llm_error (Request e) = str ''LLM request failed: '' @ e"
| "show_llm_error EmptyResponse = str ''LLM response missing content''"
| "show_llm_error (Status s body) = str ''LLM endpoint returned status '' @ show_nat s @ str '': '' @ body"

text \<open>The process globals \<^verbatim>\<open>LLM_LAST_SUCCESS\<close> and \<^verbatim>\<open>LLM_HEALTH\<close>.\<close>

record llm_globals =
  lg_last_success :: nat
  lg_health :: health

definition record_llm_success :: "timestamp \<Rightarrow> llm_globals \<Rightarrow> llm_globals" where
  "record_llm_success now G = \<lparr>lg_last_success = now, lg_health = note_ok_at now (lg_health G)\<rparr>"

definition record_outcome :: "timestamp \<Rightarrow> llm_error + 'a \<Rightarrow> llm_globals \<Rightarrow> llm_globals" where
  "record_outcome now result G =
     (case result of
        Inl e \<Rightarrow> if is_backend_down e then G\<lparr>lg_health := note_failure_at now (lg_health G)\<rparr> else G
      | Inr _ \<Rightarrow> G)"

section \<open>Requests and responses\<close>

record tool_call =
  tc_id :: rstring
  tc_kind :: rstring
  tc_name :: rstring
  tc_arguments :: rstring

record tool_spec =
  ts_kind :: rstring
  ts_name :: rstring
  ts_description :: rstring
  ts_parameters :: rstring

definition make_tool_spec :: "rstring \<Rightarrow> rstring \<Rightarrow> rstring \<Rightarrow> tool_spec" where
  "make_tool_spec name description parameters =
     \<lparr>ts_kind = str ''function'', ts_name = name, ts_description = description, ts_parameters = parameters\<rparr>"

record chat_message =
  cm_role :: rstring
  cm_content :: "rstring option"
  cm_tool_calls :: "tool_call list option"
  cm_tool_call_id :: "rstring option"

record chat_request =
  cq_model :: rstring
  cq_messages :: "chat_message list"
  cq_temperature :: real
  cq_tools :: "tool_spec list option"

record response_message =
  rm_content :: "rstring option"
  rm_tool_calls :: "tool_call list option"

text \<open>A response: its status, its text (empty when it cannot be read), and its body as JSON, the
  messages of its choices or the error of the parser.\<close>

record http_response =
  hr_status :: nat
  hr_text :: rstring
  hr_json :: "rstring + response_message list"

type_synonym transport = "rstring \<Rightarrow> rstring option \<Rightarrow> chat_request \<Rightarrow> rstring + http_response"

record llm_client =
  cl_http :: transport
  cl_base_url :: rstring
  cl_model :: rstring
  cl_api_key :: "rstring option"

definition new_client :: "transport \<Rightarrow> llm_config \<Rightarrow> llm_client" where
  "new_client http c = \<lparr>cl_http = http, cl_base_url = trim_end_matches (str ''/'') (lc_url c), cl_model = lc_model c,
     cl_api_key = lc_api_key c\<rparr>"

definition post_chat :: "llm_client \<Rightarrow> rstring \<Rightarrow> chat_request \<Rightarrow> llm_error + http_response" where
  "post_chat C url body = (case cl_http C url (cl_api_key C) body of Inl e \<Rightarrow> Inl (Request e) | Inr r \<Rightarrow> Inr r)"

definition is_success :: "nat \<Rightarrow> bool" where
  "is_success status \<longleftrightarrow> 200 \<le> status \<and> status < 300"

text \<open>The part both send paths share: post, check the status, parse the choices.\<close>

definition completions_url :: "llm_client \<Rightarrow> rstring" where
  "completions_url C = cl_base_url C @ str ''/chat/completions''"

definition exchange :: "llm_client \<Rightarrow> chat_request \<Rightarrow> llm_error + response_message list" where
  "exchange C body =
     and_then (post_chat C (completions_url C) body) (\<lambda>response.
       if \<not> is_success (hr_status response) then Inl (Status (hr_status response) (take 500 (hr_text response)))
       else (case hr_json response of Inl e \<Rightarrow> Inl (Request e) | Inr choices \<Rightarrow> Inr choices))"

definition text_message :: "rstring \<Rightarrow> rstring \<Rightarrow> chat_message" where
  "text_message role content = \<lparr>cm_role = role, cm_content = Some content, cm_tool_calls = None, cm_tool_call_id = None\<rparr>"

definition chat_system_impl ::
  "llm_client \<Rightarrow> timestamp \<Rightarrow> rstring option \<Rightarrow> rstring \<Rightarrow> real \<Rightarrow> llm_globals \<Rightarrow> (llm_error + rstring) \<times> llm_globals" where
  "chat_system_impl C now system prompt temperature G =
     (let messages = (case system of Some sys \<Rightarrow> [text_message (str ''system'') sys] | None \<Rightarrow> [])
            @ [text_message (str ''user'') prompt];
          body = \<lparr>cq_model = cl_model C, cq_messages = messages, cq_temperature = temperature, cq_tools = None\<rparr> in
      case exchange C body of
        Inl e \<Rightarrow> (Inl e, G)
      | Inr choices \<Rightarrow>
          (case choices of
             [] \<Rightarrow> (Inl EmptyResponse, G)
           | m # _ \<Rightarrow>
               (case rm_content m of
                  None \<Rightarrow> (Inl EmptyResponse, G)
                | Some content \<Rightarrow> (Inr content, record_llm_success now G))))"

definition chat_system ::
  "llm_client \<Rightarrow> timestamp \<Rightarrow> rstring option \<Rightarrow> rstring \<Rightarrow> real \<Rightarrow> llm_globals \<Rightarrow> (llm_error + rstring) \<times> llm_globals" where
  "chat_system C now system prompt temperature G =
     (case chat_system_impl C now system prompt temperature G of (result, G') \<Rightarrow> (result, record_outcome now result G'))"

definition chat :: "llm_client \<Rightarrow> timestamp \<Rightarrow> rstring \<Rightarrow> llm_globals \<Rightarrow> (llm_error + rstring) \<times> llm_globals" where
  "chat C now prompt G =
     (case chat_system_impl C now None prompt (2 / 10) G of (result, G') \<Rightarrow> (result, record_outcome now result G'))"

section \<open>Conversations\<close>

datatype conversation_turn =
    User_turn rstring
  | Assistant_turn rstring
  | Assistant_tool_calls "tool_call list"
  | Tool_result rstring rstring

definition MAX_TOOL_RESULT_CHARS :: nat where "MAX_TOOL_RESULT_CHARS = 24000"
definition CONTEXT_TOKENS_BUDGET :: nat where "CONTEXT_TOKENS_BUDGET = 96000"

definition TOOL_RESULT_TRUNCATION_MARKER :: rstring where
  "TOOL_RESULT_TRUNCATION_MARKER = [NL, NL] @ str ''[tool output truncated at 24000 chars]''"

definition bound_tool_result :: "rstring \<Rightarrow> rstring" where
  "bound_tool_result text =
     (if utf8_len text \<le> MAX_TOOL_RESULT_CHARS then text
      else slice_to text (floor_boundary text MAX_TOOL_RESULT_CHARS) @ TOOL_RESULT_TRUNCATION_MARKER)"

fun turn_bytes :: "conversation_turn \<Rightarrow> nat" where
  "turn_bytes (User_turn text) = utf8_len text"
| "turn_bytes (Assistant_turn text) = utf8_len text"
| "turn_bytes (Assistant_tool_calls calls) =
     sum_list (map (\<lambda>c. utf8_len (tc_id c) + utf8_len (tc_name c) + utf8_len (tc_arguments c)) calls)"
| "turn_bytes (Tool_result call_id result) = utf8_len call_id + utf8_len result"

definition est_tokens :: "nat \<Rightarrow> nat" where
  "est_tokens text_bytes = text_bytes div 4"

fun is_user :: "conversation_turn \<Rightarrow> bool" where
  "is_user (User_turn _) = True"
| "is_user _ = False"

fun is_tool_result :: "conversation_turn \<Rightarrow> bool" where
  "is_tool_result (Tool_result _ _) = True"
| "is_tool_result _ = False"

function results_end :: "conversation_turn list \<Rightarrow> nat \<Rightarrow> nat" where
  "results_end turns stop =
     (case get_at turns stop of
        Some t \<Rightarrow> if is_tool_result t then results_end turns (stop + 1) else stop
      | None \<Rightarrow> stop)"
  by pat_completeness auto
termination
  by (relation "measure (\<lambda>(turns, e). length turns - e)") (auto simp: get_at_def split: if_splits)

declare results_end.simps [simp del]

definition unit_end :: "conversation_turn list \<Rightarrow> nat \<Rightarrow> nat" where
  "unit_end turns start =
     (case get_at turns start of
        Some (User_turn _) \<Rightarrow> (case get_at turns (start + 1) of Some (Assistant_turn _) \<Rightarrow> start + 2 | _ \<Rightarrow> start + 1)
      | Some (Assistant_tool_calls _) \<Rightarrow> results_end turns (start + 1)
      | _ \<Rightarrow> start + 1)"

lemma results_end_ge: "stop \<le> results_end turns stop"
  by (induction turns stop rule: results_end.induct) (subst results_end.simps, force split: option.split)

lemma unit_end_gt: "start < unit_end turns start"
  using results_end_ge [of "start + 1" turns]
  by (auto simp: unit_end_def split: option.split conversation_turn.split)

function units_from :: "conversation_turn list \<Rightarrow> nat \<Rightarrow> (nat \<times> nat) list" where
  "units_from turns start =
     (if start < length turns then (start, unit_end turns start) # units_from turns (unit_end turns start) else [])"
  by pat_completeness auto
termination
  by (relation "measure (\<lambda>(turns, s). length turns - s)") (auto intro: diff_less_mono2 unit_end_gt)

declare units_from.simps [simp del]

definition subrange :: "nat \<times> nat \<Rightarrow> 'a list \<Rightarrow> 'a list" where
  "subrange u xs = take (snd u - fst u) (drop (fst u) xs)"

text \<open>\<^verbatim>\<open>Iterator::rposition\<close>.\<close>

definition rposition :: "('a \<Rightarrow> bool) \<Rightarrow> 'a list \<Rightarrow> nat option" where
  "rposition p xs = (case filter (\<lambda>i. p (xs ! i)) (rev [0..<length xs]) of [] \<Rightarrow> None | i # _ \<Rightarrow> Some i)"

function drop_loop :: "nat \<Rightarrow> nat list \<Rightarrow> nat \<Rightarrow> nat \<Rightarrow> nat" where
  "drop_loop droppable_max unit_bytes n remaining =
     (if n < droppable_max \<and> CONTEXT_TOKENS_BUDGET < est_tokens remaining
      then drop_loop droppable_max unit_bytes (n + 1) (remaining - unit_bytes ! n)
      else n)"
  by pat_completeness auto
termination
  by (relation "measure (\<lambda>(m, b, n, r). m - n)") auto

declare drop_loop.simps [simp del]

definition droppable :: "conversation_turn list \<Rightarrow> nat" where
  "droppable turns =
     (let units = units_from turns 0 in
      min (case rposition (\<lambda>u. list_ex is_user (subrange u turns)) units of Some i \<Rightarrow> i | None \<Rightarrow> length units) (length units - 1))"

definition trim_conversation :: "conversation_turn list \<Rightarrow> conversation_turn list" where
  "trim_conversation turns =
     (let units = units_from turns 0;
          unit_bytes = map (\<lambda>u. sum_list (map turn_bytes (subrange u turns))) units;
          n = drop_loop (droppable turns) unit_bytes 0 (sum_list unit_bytes) in
      case get_at units n of Some (start, _) \<Rightarrow> drop start turns | None \<Rightarrow> [])"

fun bound_turn :: "conversation_turn \<Rightarrow> conversation_turn" where
  "bound_turn (Tool_result call_id result) = Tool_result call_id (bound_tool_result result)"
| "bound_turn t = t"

fun turn_message :: "conversation_turn \<Rightarrow> chat_message" where
  "turn_message (User_turn text) = text_message (str ''user'') text"
| "turn_message (Assistant_turn text) = text_message (str ''assistant'') text"
| "turn_message (Assistant_tool_calls calls) =
     \<lparr>cm_role = str ''assistant'', cm_content = None, cm_tool_calls = Some calls, cm_tool_call_id = None\<rparr>"
| "turn_message (Tool_result call_id result) =
     \<lparr>cm_role = str ''tool'', cm_content = Some result, cm_tool_calls = None, cm_tool_call_id = Some call_id\<rparr>"

definition tools_request :: "llm_client \<Rightarrow> rstring \<Rightarrow> conversation_turn list \<Rightarrow> tool_spec list \<Rightarrow> real \<Rightarrow> chat_request" where
  "tools_request C system conversation tools temperature =
     \<lparr>cq_model = cl_model C,
      cq_messages = text_message (str ''system'') system # map turn_message (map bound_turn (trim_conversation conversation)),
      cq_temperature = temperature, cq_tools = Some tools\<rparr>"

datatype step_output = Step_tool_calls "tool_call list" | Step_text rstring

definition chat_with_tools_impl ::
  "llm_client \<Rightarrow> timestamp \<Rightarrow> rstring \<Rightarrow> conversation_turn list \<Rightarrow> tool_spec list \<Rightarrow> real \<Rightarrow> llm_globals
   \<Rightarrow> (llm_error + step_output) \<times> llm_globals" where
  "chat_with_tools_impl C now system conversation tools temperature G =
     (case exchange C (tools_request C system conversation tools temperature) of
        Inl e \<Rightarrow> (Inl e, G)
      | Inr [] \<Rightarrow> (Inl EmptyResponse, G)
      | Inr (m # _) \<Rightarrow>
          (let calls = (case rm_tool_calls m of Some cs \<Rightarrow> cs | None \<Rightarrow> []) in
           (Inr (if calls \<noteq> [] then Step_tool_calls calls
                 else Step_text (case rm_content m of Some t \<Rightarrow> t | None \<Rightarrow> [])), record_llm_success now G)))"

definition chat_with_tools ::
  "llm_client \<Rightarrow> timestamp \<Rightarrow> rstring \<Rightarrow> conversation_turn list \<Rightarrow> tool_spec list \<Rightarrow> real \<Rightarrow> llm_globals
   \<Rightarrow> (llm_error + step_output) \<times> llm_globals" where
  "chat_with_tools C now system conversation tools temperature G =
     (case chat_with_tools_impl C now system conversation tools temperature G of
        (result, G') \<Rightarrow> (result, record_outcome now result G'))"

definition strip_code_fence :: "rstring \<Rightarrow> rstring" where
  "strip_code_fence text =
     (let trimmed = trim text in
      case strip_prefix trimmed (str ''```'') of
        None \<Rightarrow> trimmed
      | Some rest \<Rightarrow>
          (let rest = (case split_once NL rest of Some (_, r) \<Rightarrow> r | None \<Rightarrow> rest) in
           case strip_suffix rest (str ''```'') of None \<Rightarrow> trim rest | Some stripped \<Rightarrow> trim stripped))"

section \<open>Trimming keeps whole units\<close>

lemma results_end_eq: "results_end turns e = e + length (takeWhile is_tool_result (drop e turns))"
proof (induction turns e rule: results_end.induct)
  case (1 turns e)
  show ?case
  proof (cases "e < length turns")
    case True
    then have "drop e turns = turns ! e # drop (Suc e) turns" by (simp add: Cons_nth_drop_Suc)
    with 1 True show ?thesis by (subst results_end.simps) (simp add: get_at_def)
  qed (subst results_end.simps, simp add: get_at_def)
qed

definition unit_len :: "conversation_turn list \<Rightarrow> nat" where
  "unit_len ts = unit_end ts 0"

lemma unit_end_len: "unit_end turns s = s + unit_len (drop s turns)"
proof -
  have "get_at turns s = get_at (drop s turns) 0" "get_at turns (s + 1) = get_at (drop s turns) 1"
    using get_at_drop [of turns s 0] get_at_drop [of turns s 1] by simp_all
  then show ?thesis
    by (auto simp: unit_len_def unit_end_def results_end_eq split: option.split conversation_turn.split)
qed

lemma unit_len_pos: "0 < unit_len ts"
  using unit_end_gt [of 0 ts] by (simp add: unit_len_def)

lemma unit_len_simps:
  "unit_len (User_turn x # Assistant_turn y # ts) = 2"
  "unit_len (Assistant_tool_calls cs # ts) = Suc (length (takeWhile is_tool_result ts))"
  by (simp_all add: unit_len_def unit_end_def results_end_eq)

lemma units_concat: "concat (map (\<lambda>u. subrange u turns) (units_from turns s)) = drop s turns"
proof (induction turns s rule: units_from.induct)
  case (1 turns s)
  show ?case
  proof (cases "s < length turns")
    case True
    let ?k = "unit_end turns s - s"
    have "unit_end turns s = ?k + s" using unit_end_gt [of s turns] by simp
    then have "drop (unit_end turns s) turns = drop ?k (drop s turns)" using drop_drop [of ?k s turns] by simp
    then have "take ?k (drop s turns) @ drop (unit_end turns s) turns = drop s turns" by (metis append_take_drop_id)
    with 1 True show ?thesis by (subst units_from.simps) (simp add: subrange_def)
  qed (subst units_from.simps, simp)
qed

lemma units_drop:
  "n < length (units_from turns s) \<Longrightarrow>
   drop n (units_from turns s) = units_from turns (fst (units_from turns s ! n)) \<and> fst (units_from turns s ! n) < length turns"
proof (induction n arbitrary: s)
  case 0
  then have "s < length turns" by (subst (asm) units_from.simps) (simp split: if_splits)
  then show ?case by (subst units_from.simps) (subst (3) units_from.simps, simp add: units_from.simps [of turns s])
next
  case (Suc n)
  then have "s < length turns" by (subst (asm) units_from.simps) (simp split: if_splits)
  then have "units_from turns s = (s, unit_end turns s) # units_from turns (unit_end turns s)" by (subst units_from.simps) simp
  with Suc show ?case by simp
qed

lemma drop_loop_spec:
  assumes "n \<le> m" "r = sum_list (drop n B)" "m \<le> length B"
  shows "n \<le> drop_loop m B n r \<and> drop_loop m B n r \<le> m
    \<and> (drop_loop m B n r = m \<or> est_tokens (sum_list (drop (drop_loop m B n r) B)) \<le> CONTEXT_TOKENS_BUDGET)
    \<and> (n < drop_loop m B n r \<longrightarrow> CONTEXT_TOKENS_BUDGET < est_tokens r)"
  using assms
proof (induction m B n r rule: drop_loop.induct)
  case (1 m B n r)
  show ?case
  proof (cases "n < m \<and> CONTEXT_TOKENS_BUDGET < est_tokens r")
    case True
    with 1(4) have "drop n B = B ! n # drop (Suc n) B" by (simp add: Cons_nth_drop_Suc)
    then have "r - B ! n = sum_list (drop (n + 1) B)" using 1(3) by simp
    from 1(1) [OF True _ this 1(4)] True show ?thesis by (subst (1 2 3 4 5) drop_loop.simps) auto
  next
    case False
    with 1(2,3) show ?thesis by (subst (1 2 3 4 5) drop_loop.simps) auto
  qed
qed

lemma rposition_Some: "rposition p xs = Some i \<Longrightarrow> i < length xs \<and> p (xs ! i) \<and> (\<forall>j. i < j \<longrightarrow> j < length xs \<longrightarrow> \<not> p (xs ! j))"
proof -
  assume "rposition p xs = Some i"
  then obtain r where f: "filter (\<lambda>i. p (xs ! i)) (rev [0..<length xs]) = i # r"
    by (auto simp: rposition_def split: list.splits)
  then obtain us vs where u: "rev [0..<length xs] = us @ i # vs" "\<forall>j \<in> set us. \<not> p (xs ! j)" "p (xs ! i)"
    by (auto dest: filter_eq_ConsD)
  have "[0..<length xs] = rev vs @ [i] @ rev us" using arg_cong [OF u(1), of rev] by simp
  then have s: "sorted (rev vs @ [i] @ rev us)" "distinct (rev vs @ [i] @ rev us)" "set (rev vs @ [i] @ rev us) = {0..<length xs}"
    by (metis sorted_upt, metis distinct_upt, metis set_upt)
  have "j \<in> set us" if "i < j" "j < length xs" for j
  proof -
    have "j \<in> set (rev vs @ [i] @ rev us)" unfolding s(3) using that by simp
    then show ?thesis using s(1) that(1) by (auto simp: sorted_append)
  qed
  with u s(3) show ?thesis by auto
qed

lemma rposition_None: "rposition p xs = None \<Longrightarrow> \<forall>x \<in> set xs. \<not> p x"
  by (auto simp: rposition_def filter_empty_conv in_set_conv_nth split: list.splits)

text \<open>Every tool result follows, with nothing but tool results between, the turn that asked for it.\<close>

fun paired :: "bool \<Rightarrow> conversation_turn list \<Rightarrow> bool" where
  "paired asked [] \<longleftrightarrow> True"
| "paired asked (Tool_result _ _ # ts) \<longleftrightarrow> asked \<and> paired asked ts"
| "paired asked (Assistant_tool_calls _ # ts) \<longleftrightarrow> paired True ts"
| "paired asked (t # ts) \<longleftrightarrow> paired False ts"

lemma paired_results: "paired True ts \<Longrightarrow> paired False (dropWhile is_tool_result ts)"
proof (induction ts)
  case (Cons t ts)
  then show ?case by (cases t) simp_all
qed simp

lemma paired_weaken: "paired False ts \<Longrightarrow> paired True ts"
  by (cases ts; cases "hd ts") simp_all

lemma paired_drop_unit: "paired False ts \<Longrightarrow> paired False (drop (unit_len ts) ts)"
proof (cases ts)
  case (Cons t r)
  assume p: "paired False ts"
  show ?thesis
  proof (cases t)
    case (User_turn x)
    then show ?thesis using p Cons
      by (cases r; cases "hd r") (auto simp: unit_len_def unit_end_def)
  next
    case (Assistant_tool_calls cs)
    then show ?thesis using p Cons paired_results [of r] by (simp add: unit_len_simps dropWhile_eq_drop)
  qed (use p Cons in \<open>simp_all add: unit_len_def unit_end_def\<close>)
qed simp

lemma paired_units:
  "paired False (drop s turns) \<Longrightarrow> u \<in> set (units_from turns s) \<Longrightarrow> paired False (drop (fst u) turns)"
proof (induction turns s rule: units_from.induct)
  case (1 turns s)
  have "s < length turns" using 1(3) by (subst (asm) units_from.simps) (simp split: if_splits)
  moreover have "paired False (drop (unit_end turns s) turns)"
    using paired_drop_unit [OF 1(2)] by (simp add: unit_end_len add.commute)
  ultimately show ?case using 1 by (cases "u = (s, unit_end turns s)") (auto simp: units_from.simps [of turns s])
qed

lemma units_nonempty: "turns \<noteq> [] \<longleftrightarrow> units_from turns 0 \<noteq> []"
  by (subst units_from.simps) simp

text \<open>What the pass returns: the turns from some unit on, and which unit.\<close>

lemma trim_unit:
  assumes "turns \<noteq> []"
  defines "units \<equiv> units_from turns 0"
  obtains n where "n < length units" "n \<le> droppable turns" "trim_conversation turns = drop (fst (units ! n)) turns"
    "n = droppable turns \<or> est_tokens (sum_list (map turn_bytes (trim_conversation turns))) \<le> CONTEXT_TOKENS_BUDGET"
    "0 < n \<longrightarrow> CONTEXT_TOKENS_BUDGET < est_tokens (sum_list (map turn_bytes turns))"
    "concat (map (\<lambda>u. subrange u turns) (drop n units)) = trim_conversation turns"
proof -
  let ?sub = "\<lambda>u. subrange u turns"
  define B where "B = map (\<lambda>u. sum_list (map turn_bytes (?sub u))) units"
  define n where "n = drop_loop (droppable turns) B 0 (sum_list B)"
  have nonempty: "0 < length units" using assms units_nonempty by simp
  have m: "droppable turns \<le> length units - 1" by (simp add: droppable_def Let_def units_def)
  have "droppable turns \<le> length B" using m by (simp add: B_def)
  then have spec: "n \<le> droppable turns"
    "n = droppable turns \<or> est_tokens (sum_list (drop n B)) \<le> CONTEXT_TOKENS_BUDGET"
    "0 < n \<longrightarrow> CONTEXT_TOKENS_BUDGET < est_tokens (sum_list B)"
    using drop_loop_spec [of 0 "droppable turns" "sum_list B" B] by (simp_all add: n_def)
  have lt: "n < length units" using spec(1) m nonempty by linarith
  then have trim: "trim_conversation turns = drop (fst (units ! n)) turns"
    by (simp add: trim_conversation_def Let_def units_def [symmetric] B_def [symmetric] n_def [symmetric] get_at_def split: prod.split)
  have cat: "concat (map ?sub (drop n units)) = trim_conversation turns"
    using units_drop [of n turns 0] lt units_concat [of turns] by (simp add: units_def trim)
  have sums: "sum_list (map turn_bytes (concat (map ?sub us))) = sum_list (map (\<lambda>u. sum_list (map turn_bytes (?sub u))) us)" for us
    by (induction us) simp_all
  have "sum_list (drop n B) = sum_list (map turn_bytes (trim_conversation turns))"
    by (simp add: B_def drop_map sums flip: cat)
  moreover have "sum_list B = sum_list (map turn_bytes turns)"
    using sums [of units] units_concat [of turns 0] by (simp add: B_def units_def)
  ultimately show thesis using that [OF lt spec(1) trim _ _ cat] spec(2,3) by simp
qed

lemma drop_nth_conv: "x \<in> set (drop n xs) \<Longrightarrow> \<exists>j \<ge> n. j < length xs \<and> x = xs ! j"
proof -
  assume "x \<in> set (drop n xs)"
  then obtain k where "k < length (drop n xs)" "x = drop n xs ! k" by (metis in_set_conv_nth)
  then show ?thesis by (intro exI [of _ "n + k"]) auto
qed

lemma drop_nth_mem: "n \<le> j \<Longrightarrow> j < length xs \<Longrightarrow> xs ! j \<in> set (drop n xs)"
  using nth_mem [of "j - n" "drop n xs"] by simp

lemma last_user_unit:
  assumes "n < length units" "n \<le> droppable turns" "units = units_from turns 0" "list_ex is_user turns"
  shows "list_ex is_user (concat (map (\<lambda>u. subrange u turns) (drop n units)))"
proof -
  let ?p = "\<lambda>u. list_ex is_user (subrange u turns)"
  have "list_ex is_user (concat (map (\<lambda>u. subrange u turns) units))"
    using assms(3,4) units_concat [of turns 0] by simp
  then have "\<exists>u \<in> set units. ?p u" by (auto simp: list_ex_iff)
  then obtain i where i: "rposition ?p units = Some i" using rposition_None [of ?p units] by (cases "rposition ?p units") auto
  then have "n \<le> i" using assms(2) by (simp add: droppable_def Let_def flip: assms(3))
  then have "units ! i \<in> set (drop n units)" using rposition_Some [OF i] by (simp add: drop_nth_mem)
  then show ?thesis using rposition_Some [OF i] by (auto simp: list_ex_iff)
qed

lemma units_head: "units_from turns s = u # us \<Longrightarrow> u = (s, unit_end turns s) \<and> us = units_from turns (unit_end turns s) \<and> s < length turns"
  by (subst (asm) units_from.simps) (auto split: if_splits)

text \<open>A trimmed conversation that is over the budget still cannot be trimmed further.\<close>

lemma stuck_at_droppable:
  fixes turns :: "conversation_turn list"
  defines "units \<equiv> units_from turns 0" and "r \<equiv> trim_conversation turns"
  assumes n: "n < length units" "n = droppable turns" "r = drop (fst (units ! n)) turns"
  shows "length r \<le> unit_len r \<or> list_ex is_user (take (unit_len r) r) \<and> \<not> list_ex is_user (drop (unit_len r) r)"
proof -
  let ?p = "\<lambda>u. list_ex is_user (subrange u turns)"
  let ?s = "fst (units ! n)"
  have d: "drop n units = units_from turns ?s" "?s < length turns" using units_drop [of n turns 0] n(1) by (simp_all add: units_def)
  have hd: "units ! n = (?s, unit_end turns ?s)" "drop (Suc n) units = units_from turns (unit_end turns ?s)"
    using units_head [of turns ?s "units ! n" "drop (Suc n) units"] d(1) Cons_nth_drop_Suc [OF n(1)] by simp_all
  have sub: "subrange (units ! n) turns = take (unit_len r) r"
    by (subst hd(1)) (simp add: subrange_def unit_end_len n(3))
  have rest: "concat (map (\<lambda>u. subrange u turns) (drop (Suc n) units)) = drop (unit_len r) r"
    unfolding hd(2) units_concat by (simp add: unit_end_len n(3) add.commute)
  show ?thesis
  proof (cases "n = length units - 1")
    case True
    then have "drop (Suc n) units = []" by simp
    with rest have "drop (unit_len r) r = []" by simp
    then show ?thesis by simp
  next
    case False
    then obtain i where i: "rposition ?p units = Some i" "n = i"
      using n(1,2) by (auto simp: droppable_def Let_def units_def split: option.splits)
    have "\<not> ?p u" if "u \<in> set (drop (Suc n) units)" for u
      using rposition_Some [OF i(1)] i(2) drop_nth_conv [OF that] by (auto simp: Suc_le_eq)
    then have "\<not> list_ex is_user (concat (map (\<lambda>u. subrange u turns) (drop (Suc n) units)))"
      by (auto simp: list_ex_iff)
    with rposition_Some [OF i(1)] i(2) sub rest show ?thesis by simp
  qed
qed

text \<open>C16.  A conversation fits the context budget or cannot be cut further.  What is sent is the end of the
  conversation, never empty, from the start of a unit on; its last user message survives; every tool
  result still follows the call that asked for it; nothing is dropped while the whole fits; and when
  the rest does not fit, its first unit is its last one or holds its only user message.\<close>
theorem trim_conversation_sound:
  assumes "turns \<noteq> []"
  defines "r \<equiv> trim_conversation turns"
  shows "r \<noteq> [] \<and> (\<exists>dropped. turns = dropped @ r)
    \<and> (list_ex is_user turns \<longrightarrow> list_ex is_user r)
    \<and> (paired False turns \<longrightarrow> paired False r)
    \<and> (est_tokens (sum_list (map turn_bytes turns)) \<le> CONTEXT_TOKENS_BUDGET \<longrightarrow> r = turns)
    \<and> (est_tokens (sum_list (map turn_bytes r)) \<le> CONTEXT_TOKENS_BUDGET \<or> length r \<le> unit_len r
       \<or> list_ex is_user (take (unit_len r) r) \<and> \<not> list_ex is_user (drop (unit_len r) r))"
proof -
  let ?u = "units_from turns 0"
  obtain n where n: "n < length ?u" "n \<le> droppable turns" "r = drop (fst (?u ! n)) turns"
    "n = droppable turns \<or> est_tokens (sum_list (map turn_bytes r)) \<le> CONTEXT_TOKENS_BUDGET"
    "0 < n \<longrightarrow> CONTEXT_TOKENS_BUDGET < est_tokens (sum_list (map turn_bytes turns))"
    "concat (map (\<lambda>u. subrange u turns) (drop n ?u)) = r"
    using trim_unit [OF assms(1)] unfolding r_def by metis
  have s: "fst (?u ! n) < length turns" using units_drop [OF n(1)] by simp
  have "fst (?u ! 0) = 0" using units_head [of turns 0] n(1) by (cases ?u) auto
  then have "n = 0 \<longrightarrow> r = turns" using n(3) by simp
  moreover have "list_ex is_user turns \<longrightarrow> list_ex is_user r" using last_user_unit [OF n(1,2) refl] n(6) by simp
  moreover have "paired False turns \<longrightarrow> paired False r" using paired_units [of 0 turns] n(1,3) by simp
  moreover have "n = droppable turns \<Longrightarrow> length r \<le> unit_len r
      \<or> list_ex is_user (take (unit_len r) r) \<and> \<not> list_ex is_user (drop (unit_len r) r)"
    using stuck_at_droppable [OF n(1)] n(3) unfolding r_def by blast
  moreover have "turns = take (fst (?u ! n)) turns @ r" unfolding n(3) by simp
  moreover have "r \<noteq> []" using s n(3) by simp
  ultimately show ?thesis using n(4,5) by (metis gr0I not_le)
qed

definition huge_text :: rstring where
  "huge_text = replicate 400000 65"

definition long_talk :: "conversation_turn list" where
  "long_talk = [Assistant_tool_calls [], Tool_result [] huge_text, User_turn (str ''q''), Assistant_turn (str ''a'')]"

text \<open>A tool result too large for the budget goes, with the call that asked for it.\<close>

theorem trim_conversation_sound_witness:
  "paired False long_talk \<and> list_ex is_user (trim_conversation long_talk) \<and> paired False (trim_conversation long_talk)
    \<and> trim_conversation long_talk = drop 2 long_talk"
proof -
  have ends: "unit_end long_talk 0 = 2" "unit_end long_talk 2 = 4"
    by (simp_all add: unit_end_def results_end_eq long_talk_def get_at_def)
  have "length long_talk = 4" by (simp add: long_talk_def)
  then have units: "units_from long_talk 0 = [(0, 2), (2, 4)]"
    by (simp add: units_from.simps [of long_talk] ends)
  have big: "utf8_len huge_text = 400000" unfolding huge_text_def by (subst utf8_len_ascii) simp_all
  have "\<not> list_ex is_user (subrange (0, 2) long_talk)" "list_ex is_user (subrange (2, 4) long_talk)"
    by (simp_all add: subrange_def long_talk_def)
  then have drp: "droppable long_talk = 1"
    by (simp add: droppable_def units rposition_def numeral_2_eq_2)
  have bytes: "map (\<lambda>u. sum_list (map turn_bytes (subrange u long_talk))) [(0, 2), (2, 4)] = [400000, 2]"
    by (simp add: subrange_def long_talk_def big utf8_len_char_def)
  have "trim_conversation long_talk = drop 2 long_talk"
    unfolding trim_conversation_def units Let_def bytes drp
    by (simp add: drop_loop.simps [of "Suc 0"] est_tokens_def CONTEXT_TOKENS_BUDGET_def)
  moreover have "long_talk \<noteq> []" "paired False long_talk" "list_ex is_user long_talk" by (simp_all add: long_talk_def)
  ultimately show ?thesis using trim_conversation_sound [of long_talk] by simp
qed

section \<open>Bounds\<close>

text \<open>A tool result is cut at the last whole character within the cap.\<close>

lemma bound_tool_result_cases:
  "if utf8_len s \<le> MAX_TOOL_RESULT_CHARS then bound_tool_result s = s
   else \<exists>a c b. s = a @ c # b \<and> bound_tool_result s = a @ TOOL_RESULT_TRUNCATION_MARKER
     \<and> utf8_len a \<le> MAX_TOOL_RESULT_CHARS \<and> MAX_TOOL_RESULT_CHARS < utf8_len (a @ [c])"
proof (cases "utf8_len s \<le> MAX_TOOL_RESULT_CHARS")
  case False
  then obtain a c b where s: "s = a @ c # b" "floor_boundary s MAX_TOOL_RESULT_CHARS = utf8_len a"
    "utf8_len a \<le> MAX_TOOL_RESULT_CHARS" "MAX_TOOL_RESULT_CHARS < utf8_len a + utf8_len_char c"
    by (meson floor_boundary_split not_le)
  then have "bound_tool_result s = a @ TOOL_RESULT_TRUNCATION_MARKER"
    using False by (simp add: bound_tool_result_def) (simp add: slice_to_boundary)
  with False s show ?thesis by auto
qed (simp add: bound_tool_result_def)

lemma marker_len: "utf8_len TOOL_RESULT_TRUNCATION_MARKER = 40"
  by (subst utf8_len_ascii) (simp_all add: TOOL_RESULT_TRUNCATION_MARKER_def)

text \<open>Whatever the tools return, one message of a request carries at most 24040 bytes of tool output.\<close>

lemma sent_tool_result_bounded:
  assumes "m \<in> set (cq_messages (tools_request C system conversation tools temperature))"
    "cm_tool_call_id m = Some i" "cm_content m = Some out"
  shows "utf8_len out \<le> 24040"
proof -
  from assms obtain t where "m = turn_message (bound_turn t)"
    by (auto simp: tools_request_def text_message_def)
  with assms(2,3) obtain res where "out = bound_tool_result res" by (cases t) (auto simp: text_message_def)
  then show ?thesis using bound_tool_result_cases [of res]
    by (auto simp: marker_len MAX_TOOL_RESULT_CHARS_def split: if_splits)
qed

lemma clamp_to_range: "fst r \<le> snd r \<Longrightarrow> fst r \<le> clamp_to r n \<and> clamp_to r n \<le> snd r"
  by (simp add: clamp_to_def)

lemma dispatch_limits:
  "g_capacity (dispatch now g) = g_capacity g"
  "g_per_user_active (dispatch now g) = g_per_user_active g"
  "g_chat_queue_depth (dispatch now g) = g_chat_queue_depth g"
proof -
  let ?g = "g\<lparr>g_queue := filter (\<lambda>w. \<not> wt_closed w) (g_queue g)\<rparr>"
  let ?I = "\<lambda>h. g_capacity h = g_capacity g \<and> g_per_user_active h = g_per_user_active g
    \<and> g_chat_queue_depth h = g_chat_queue_depth g"
  have "no_closed ?g" by (simp add: no_closed_def)
  then have "?I (dispatch_loop now ?g)"
    using dispatch_loop_invariant [of ?g ?I now] by (simp add: admit_def gate_op_defs)
  then show "g_capacity (dispatch now g) = g_capacity g"
    "g_per_user_active (dispatch now g) = g_per_user_active g"
    "g_chat_queue_depth (dispatch now g) = g_chat_queue_depth g"
    by (simp_all add: dispatch_def notify_positions_def)
qed

lemma clamped_in_range:
  "1 \<le> lc_max_parallel (llm_clamp c) \<and> lc_max_parallel (llm_clamp c) \<le> 64"
  "1 \<le> lc_per_user_active (llm_clamp c) \<and> lc_per_user_active (llm_clamp c) \<le> 16"
  "1 \<le> lc_query_wait_secs (llm_clamp c) \<and> lc_query_wait_secs (llm_clamp c) \<le> 600"
  "1 \<le> lc_chat_wait_secs (llm_clamp c) \<and> lc_chat_wait_secs (llm_clamp c) \<le> 7200"
  "1 \<le> lc_chat_queue_depth (llm_clamp c) \<and> lc_chat_queue_depth (llm_clamp c) \<le> 1024"
  by (simp_all add: llm_clamp_def clamp_to_def llm_ranges)

lemma clamp_to_id: "fst r \<le> n \<Longrightarrow> n \<le> snd r \<Longrightarrow> clamp_to r n = n"
  by (simp add: clamp_to_def)

text \<open>A stored configuration cannot open an unbounded gate.  Clamping twice is clamping once, and after
  a configuration is applied the gate has the clamped limits, whatever the row says, in a state
  of the gate's own machine.\<close>
theorem llm_config_applied:
  "llm_clamp (llm_clamp c) = llm_clamp c
   \<and> 1 \<le> lc_max_parallel (llm_clamp c) \<and> lc_max_parallel (llm_clamp c) \<le> 64
   \<and> g_capacity (apply_to_gate now c g) = lc_max_parallel (llm_clamp c)
   \<and> g_per_user_active (apply_to_gate now c g) = lc_per_user_active (llm_clamp c)
   \<and> g_chat_queue_depth (apply_to_gate now c g) = lc_chat_queue_depth (llm_clamp c)
   \<and> (gate_reach g \<longrightarrow> gate_reach (apply_to_gate now c g))"
proof -
  have "gate_reach (apply_to_gate now c g)" if "gate_reach g"
    unfolding apply_to_gate_def Let_def
    by (intro gate_reach.step [OF _ gate_step.capacity_step] gate_reach.step [OF _ gate_step.depth_step]
        gate_reach.step [OF _ gate_step.per_user_step] that)
  moreover have "llm_clamp (llm_clamp c) = llm_clamp c"
    using clamped_in_range [of c] by (subst llm_clamp_def) (simp add: clamp_to_id llm_ranges)
  moreover have "clamp_from_1 CAPACITY_MAX (lc_max_parallel (llm_clamp c)) = lc_max_parallel (llm_clamp c)"
    "clamp_from_1 PER_USER_MAX (lc_per_user_active (llm_clamp c)) = lc_per_user_active (llm_clamp c)"
    "clamp_from_1 QUEUE_DEPTH_MAX (lc_chat_queue_depth (llm_clamp c)) = lc_chat_queue_depth (llm_clamp c)"
    using clamped_in_range [of c] by (auto simp: clamp_from_1_def CAPACITY_MAX_def PER_USER_MAX_def QUEUE_DEPTH_MAX_def)
  ultimately show ?thesis using clamped_in_range(1) [of c]
    by (simp add: apply_to_gate_def set_capacity_def set_per_user_active_def set_chat_queue_depth_def dispatch_limits Let_def)
qed

text \<open>
  The order of the setters lets a burst in under the old capacity: raising the cap per user
  dispatches at once, before the capacity is lowered.
\<close>

definition squeeze :: llm_config where
  "squeeze = default_llm_config\<lparr>lc_max_parallel := 1, lc_per_user_active := 3\<rparr>"

lemma burst_under_old_capacity:
  "g_active roomy_gate = 3 \<and> g_active (apply_to_gate 50 squeeze roomy_gate) = 4
    \<and> g_capacity (apply_to_gate 50 squeeze roomy_gate) = 1"
proof -
  have c: "llm_clamp squeeze = squeeze"
    by (simp add: squeeze_def default_llm_config_def llm_clamp_def clamp_to_def llm_ranges)
  have "g_active (set_per_user_active 50 3 roomy_gate) = 4"
    by (simp add: set_per_user_active_def roomy_gate_def gate_eval set_capacity_def Let_def enumerate_eq_zip)
  then have "g_active (set_capacity 50 1 (set_chat_queue_depth 64 (set_per_user_active 50 3 roomy_gate))) = 4"
    by (simp add: set_capacity_def set_chat_queue_depth_def dispatch_def dispatch_loop.simps clamp_from_1_def CAPACITY_MAX_def)
  moreover have "apply_to_gate 50 squeeze roomy_gate =
      set_capacity 50 1 (set_chat_queue_depth 64 (set_per_user_active 50 3 roomy_gate))"
    by (simp add: apply_to_gate_def c) (simp add: squeeze_def default_llm_config_def)
  ultimately show ?thesis
    by (simp add: roomy_gate_fields set_capacity_def dispatch_limits clamp_from_1_def CAPACITY_MAX_def)
qed

end
