(* ===== verification/Hot_Memory.thy ===== *)
theory Hot_Memory
  imports Rust_Text
begin

text \<open>
  Hot memory (\<^verbatim>\<open>crates/mycelium-librarian/src/hot_memory.rs\<close>): per scope, the recently written
  paths and the recent answers.  The global is an optional table of scopes; \<open>state_for\<close> and
  \<open>put_state\<close> are its two critical sections, and every operation is composed of them as in the
  code.  The concept store's \<^verbatim>\<open>get\<close>, the model call and Unicode upper-casing are parameters.
\<close>

section \<open>State\<close>

record hot_qa =
  hq_question :: rstring
  hq_answer :: rstring
  hq_at :: timestamp

record hot_scope_state =
  hot_concepts :: "(rstring \<times> timestamp) list"
  hot_qas :: "hot_qa list"

type_synonym hot_global = "(rstring \<rightharpoonup> hot_scope_state) option"

definition MAX_CONCEPTS :: nat where "MAX_CONCEPTS = 10"
definition MAX_QAS :: nat where "MAX_QAS = 10"
definition HOT_TTL :: nat where "HOT_TTL = 3600 * 10 ^ 9"
definition MAX_EXCERPT_CHARS :: nat where "MAX_EXCERPT_CHARS = 1500"

definition default_scope :: hot_scope_state where
  "default_scope = \<lparr>hot_concepts = [], hot_qas = []\<rparr>"

text \<open>\<^verbatim>\<open>guard.get_or_insert_with(HashMap::new)\<close>.\<close>

definition scopes_of :: "hot_global \<Rightarrow> rstring \<rightharpoonup> hot_scope_state" where
  "scopes_of hot = (case hot of None \<Rightarrow> Map.empty | Some m \<Rightarrow> m)"

definition state_for :: "rstring \<Rightarrow> hot_global \<Rightarrow> hot_scope_state \<times> hot_global" where
  "state_for scope hot =
     (case scopes_of hot scope of None \<Rightarrow> default_scope | Some s \<Rightarrow> s, Some ((scopes_of hot)(scope := None)))"

definition put_state :: "rstring \<Rightarrow> hot_scope_state \<Rightarrow> hot_global \<Rightarrow> hot_global" where
  "put_state scope s hot = Some ((scopes_of hot)(scope \<mapsto> s))"

text \<open>\<^verbatim>\<open>while v.len() > n { v.remove(0) }\<close>.\<close>

fun drop_oldest :: "nat \<Rightarrow> 'a list \<Rightarrow> 'a list" where
  "drop_oldest n [] = []"
| "drop_oldest n (x # xs) = (if length (x # xs) > n then drop_oldest n xs else x # xs)"

definition forget_path :: "rstring \<Rightarrow> (rstring \<times> timestamp) list \<Rightarrow> (rstring \<times> timestamp) list" where
  "forget_path path cs = filter (\<lambda>c. fst c \<noteq> path) cs"

section \<open>Operations\<close>

definition record_hot_write :: "timestamp \<Rightarrow> rstring \<Rightarrow> rstring \<Rightarrow> hot_global \<Rightarrow> hot_global" where
  "record_hot_write now scope path hot =
     (let (s, hot1) = state_for scope hot
      in put_state scope
           (s\<lparr>hot_concepts := drop_oldest MAX_CONCEPTS (forget_path path (hot_concepts s) @ [(path, now)]),
              hot_qas := []\<rparr>) hot1)"

definition record_hot_delete :: "rstring \<Rightarrow> rstring \<Rightarrow> hot_global \<Rightarrow> hot_global" where
  "record_hot_delete scope path hot =
     (let (s, hot1) = state_for scope hot
      in put_state scope (s\<lparr>hot_concepts := forget_path path (hot_concepts s), hot_qas := []\<rparr>) hot1)"

definition record_hot_query :: "timestamp \<Rightarrow> rstring \<Rightarrow> rstring \<Rightarrow> rstring \<Rightarrow> hot_global \<Rightarrow> hot_global" where
  "record_hot_query now scope question answer hot =
     (let (s, hot1) = state_for scope hot
      in put_state scope
           (s\<lparr>hot_qas := drop_oldest MAX_QAS
                (hot_qas s @ [\<lparr>hq_question = question, hq_answer = answer, hq_at = now\<rparr>])\<rparr>) hot1)"

definition clear_hot_memory :: "rstring option \<Rightarrow> hot_global \<Rightarrow> hot_global" where
  "clear_hot_memory scope hot =
     (case scope of None \<Rightarrow> None | Some i \<Rightarrow> map_option (\<lambda>m. m(i := None)) hot)"

text \<open>What \<^verbatim>\<open>hot_lookup\<close> reads of a concept.\<close>

record concept_view =
  cv_source_path :: rstring
  cv_title :: "rstring option"
  cv_description :: "rstring option"
  cv_body :: rstring

definition concept_header :: "concept_view \<Rightarrow> rstring" where
  "concept_header c =
     (let title = (case cv_title c of None \<Rightarrow> [] | Some t \<Rightarrow> t);
          desc = (case cv_description c of None \<Rightarrow> [] | Some d \<Rightarrow> d);
          head = str ''CONCEPT '' @ cv_source_path c
      in if title = [] then head
         else if desc = [] then head @ [32, 8212, 32] @ title
         else head @ [32, 8212, 32] @ title @ str '' ('' @ desc @ str '')'')"

definition concept_section :: "concept_view \<Rightarrow> rstring" where
  "concept_section c = concept_header c @ [NL] @ take MAX_EXCERPT_CHARS (cv_body c)"

definition qa_section :: "hot_qa \<Rightarrow> rstring" where
  "qa_section q =
     str ''PREVIOUS Q&A'' @ [NL] @ str ''Q: '' @ hq_question q @ [NL] @ str ''A: '' @ hq_answer q"

text \<open>The loop over the hot paths: expired ones are skipped, unreadable ones leave the global table.\<close>

fun concept_sections ::
  "timestamp \<Rightarrow> rstring \<Rightarrow> (rstring \<Rightarrow> concept_view option) \<Rightarrow> (rstring \<times> timestamp) list \<Rightarrow> hot_global
   \<Rightarrow> rstring list \<times> hot_global" where
  "concept_sections now scope get [] hot = ([], hot)"
| "concept_sections now scope get ((path, touched) # cs) hot =
     (if now - touched > HOT_TTL then concept_sections now scope get cs hot
      else (case get path of
              Some c \<Rightarrow>
                (let (secs, hot1) = concept_sections now scope get cs hot
                 in (concept_section c # secs, hot1))
            | None \<Rightarrow>
                (let (s, hot1) = state_for scope hot;
                     hot2 = put_state scope (s\<lparr>hot_concepts := forget_path path (hot_concepts s)\<rparr>) hot1
                 in concept_sections now scope get cs hot2)))"

definition qa_sections :: "timestamp \<Rightarrow> hot_qa list \<Rightarrow> rstring list" where
  "qa_sections now qas = map qa_section (filter (\<lambda>q. \<not> now - hq_at q > HOT_TTL) qas)"

definition hot_system :: rstring where
  "hot_system =
     str (''You answer questions using ONLY the recent-memory excerpts provided. '' @
          ''These are the most recently touched pieces of a larger knowledge base. '' @
          ''If they fully and confidently answer the question, answer concisely (and '' @
          ''cite concept paths when you used them). If they do NOT contain enough to '' @
          ''answer confidently, reply with exactly: UNKNOWN'')"

definition hot_prompt :: "rstring list \<Rightarrow> rstring \<Rightarrow> rstring" where
  "hot_prompt secs question =
     str ''RECENT MEMORY:'' @ [NL, NL] @
     join_with ([NL, NL] @ str ''---'' @ [NL, NL]) secs @ [NL, NL] @ str ''QUESTION: '' @ question"

definition confident :: "(rstring \<Rightarrow> rstring) \<Rightarrow> rstring option \<Rightarrow> rstring option" where
  "confident to_upper reply =
     (case reply of None \<Rightarrow> None
      | Some text \<Rightarrow>
          (let t = trim text
           in if t = [] \<or> starts_with (to_upper t) (str ''UNKNOWN'') then None else Some t))"

definition hot_lookup ::
  "(rstring \<Rightarrow> rstring) \<Rightarrow> (rstring \<Rightarrow> rstring \<Rightarrow> rstring option) \<Rightarrow> timestamp \<Rightarrow> rstring
   \<Rightarrow> (rstring \<Rightarrow> concept_view option) \<Rightarrow> rstring \<Rightarrow> hot_global \<Rightarrow> rstring option \<times> hot_global" where
  "hot_lookup to_upper chat now scope get question hot =
     (let (s, hot1) = state_for scope hot;
          (secs, hot2) = concept_sections now scope get (hot_concepts s) hot1;
          secs' = secs @ qa_sections now (hot_qas s)
      in if secs' = [] then (None, hot2)
         else (confident to_upper (chat hot_system (hot_prompt secs' question)), hot2))"

section \<open>Bounds and isolation\<close>

definition scope_ok :: "hot_scope_state \<Rightarrow> bool" where
  "scope_ok s \<longleftrightarrow> length (hot_concepts s) \<le> MAX_CONCEPTS \<and> distinct (map fst (hot_concepts s)) \<and>
     length (hot_qas s) \<le> MAX_QAS"

definition hot_ok :: "hot_global \<Rightarrow> bool" where
  "hot_ok hot \<longleftrightarrow> (\<forall>scope s. scopes_of hot scope = Some s \<longrightarrow> scope_ok s)"

lemma scopes_simps [simp]:
  "scopes_of None = Map.empty"
  "scopes_of (Some m) = m"
  "scopes_of (put_state scope s hot) = (scopes_of hot)(scope \<mapsto> s)"
  "scopes_of (snd (state_for scope hot)) = (scopes_of hot)(scope := None)"
  by (simp_all add: scopes_of_def put_state_def state_for_def)

lemma drop_oldest_props:
  "length (drop_oldest n xs) \<le> n" "suffix (drop_oldest n xs) xs"
  "length xs \<le> n \<Longrightarrow> drop_oldest n xs = xs"
  by (induction xs) (auto simp: suffix_ConsI)

lemma distinct_drop_oldest: "distinct (map f xs) \<Longrightarrow> distinct (map f (drop_oldest n xs))"
  using drop_oldest_props(2) [of n xs] by (metis distinct_append map_append suffix_def)

lemma forget_path_props:
  "path \<notin> fst ` set (forget_path path cs)"
  "distinct (map fst cs) \<Longrightarrow> distinct (map fst (forget_path path cs))"
  "length (forget_path path cs) \<le> length cs"
  by (auto simp: forget_path_def distinct_map_filter)

lemma scope_ok_default: "scope_ok default_scope"
  by (simp add: scope_ok_def default_scope_def)

lemma state_for_ok: "hot_ok hot \<Longrightarrow> scope_ok (fst (state_for scope hot))"
  by (auto simp: hot_ok_def state_for_def scope_ok_default split: option.splits)

lemma put_state_ok: "hot_ok hot \<Longrightarrow> scope_ok s \<Longrightarrow> hot_ok (put_state scope s (snd (state_for scope hot)))"
  by (auto simp: hot_ok_def)

lemma scope_ok_forget: "scope_ok s \<Longrightarrow> scope_ok (s\<lparr>hot_concepts := forget_path path (hot_concepts s)\<rparr>)"
  using order_trans [OF forget_path_props(3)] by (simp add: scope_ok_def forget_path_props(2))

lemma concept_sections_ok: "hot_ok hot \<Longrightarrow> hot_ok (snd (concept_sections now scope get cs hot))"
proof (induction now scope get cs hot rule: concept_sections.induct)
  case (2 now scope get path touched cs hot)
  let ?s = "fst (state_for scope hot)"
  have step: "hot_ok (put_state scope (?s\<lparr>hot_concepts := forget_path path (hot_concepts ?s)\<rparr>)
                        (snd (state_for scope hot)))"
    using 2(4) by (intro put_state_ok scope_ok_forget state_for_ok)
  show ?case
    using 2 step by (auto simp: case_prod_unfold Let_def split: option.splits)
qed simp

lemma concept_sections_frame:
  "j \<noteq> scope \<Longrightarrow> scopes_of (snd (concept_sections now scope get cs hot)) j = scopes_of hot j"
proof (induction now scope get cs hot rule: concept_sections.induct)
  case (2 now scope get path touched cs hot)
  then show ?case by (auto simp: case_prod_unfold Let_def split: option.splits)
qed simp

datatype hot_event = Hot_write timestamp rstring rstring | Hot_delete rstring rstring
  | Hot_query timestamp rstring rstring rstring
  | Hot_lookup timestamp rstring "rstring \<Rightarrow> concept_view option" rstring

fun event_scope :: "hot_event \<Rightarrow> rstring" where
  "event_scope (Hot_write now scope path) = scope"
| "event_scope (Hot_delete scope path) = scope"
| "event_scope (Hot_query now scope q a) = scope"
| "event_scope (Hot_lookup now scope get q) = scope"

fun hot_step ::
  "(rstring \<Rightarrow> rstring) \<Rightarrow> (rstring \<Rightarrow> rstring \<Rightarrow> rstring option) \<Rightarrow> hot_global \<Rightarrow> hot_event \<Rightarrow> hot_global" where
  "hot_step up chat hot (Hot_write now scope path) = record_hot_write now scope path hot"
| "hot_step up chat hot (Hot_delete scope path) = record_hot_delete scope path hot"
| "hot_step up chat hot (Hot_query now scope q a) = record_hot_query now scope q a hot"
| "hot_step up chat hot (Hot_lookup now scope get q) = snd (hot_lookup up chat now scope get q hot)"

lemma hot_lookup_state:
  "snd (hot_lookup up chat now scope get q hot) =
     snd (concept_sections now scope get (hot_concepts (fst (state_for scope hot))) (snd (state_for scope hot)))"
  by (simp add: hot_lookup_def case_prod_unfold Let_def)

lemma hot_step_ok:
  assumes "hot_ok hot"
  shows "hot_ok (hot_step up chat hot e)"
proof (cases e)
  case (Hot_write now scope path)
  let ?s = "fst (state_for scope hot)"
  let ?cs = "drop_oldest MAX_CONCEPTS (forget_path path (hot_concepts ?s) @ [(path, now)])"
  have "scope_ok ?s" using assms by (rule state_for_ok)
  then have "distinct (map fst (forget_path path (hot_concepts ?s) @ [(path, now)]))"
    using forget_path_props(1,2) by (fastforce simp: scope_ok_def)
  then have "scope_ok (?s\<lparr>hot_concepts := ?cs, hot_qas := []\<rparr>)"
    by (simp add: scope_ok_def drop_oldest_props distinct_drop_oldest)
  with assms show ?thesis
    by (simp add: Hot_write record_hot_write_def case_prod_unfold Let_def put_state_ok)
next
  case (Hot_delete scope path)
  have "scope_ok ((fst (state_for scope hot))\<lparr>hot_concepts := forget_path path
          (hot_concepts (fst (state_for scope hot))), hot_qas := []\<rparr>)"
    using scope_ok_forget [OF state_for_ok [OF assms], of path scope] by (simp add: scope_ok_def)
  with assms show ?thesis
    by (simp add: Hot_delete record_hot_delete_def case_prod_unfold Let_def put_state_ok)
next
  case (Hot_query now scope q a)
  have "scope_ok ((fst (state_for scope hot))\<lparr>hot_qas := drop_oldest MAX_QAS xs\<rparr>)" for xs
    using state_for_ok [OF assms, of scope] by (simp add: scope_ok_def drop_oldest_props)
  with assms show ?thesis
    by (simp add: Hot_query record_hot_query_def case_prod_unfold Let_def put_state_ok)
next
  case (Hot_lookup now scope get q)
  have "hot_ok (snd (state_for scope hot))" using assms by (simp add: hot_ok_def)
  then show ?thesis by (simp add: Hot_lookup hot_lookup_state concept_sections_ok)
qed

lemma hot_step_frame: "j \<noteq> event_scope e \<Longrightarrow> scopes_of (hot_step up chat hot e) j = scopes_of hot j"
  by (cases e)
    (simp_all add: record_hot_write_def record_hot_delete_def record_hot_query_def hot_lookup_state
      concept_sections_frame case_prod_unfold Let_def)

text \<open>What an operation leaves in its own scope depends on nothing but that scope.\<close>

lemma state_for_local: "scopes_of h1 scope = scopes_of h2 scope \<Longrightarrow>
   fst (state_for scope h1) = fst (state_for scope h2)"
  by (simp add: state_for_def)

lemma concept_sections_local:
  "scopes_of h1 scope = scopes_of h2 scope \<Longrightarrow>
   scopes_of (snd (concept_sections now scope get cs h1)) scope =
   scopes_of (snd (concept_sections now scope get cs h2)) scope"
proof (induction cs arbitrary: h1 h2)
  case (Cons c cs)
  obtain path touched where c: "c = (path, touched)" by (cases c)
  have "fst (state_for scope h1) = fst (state_for scope h2)"
    using Cons.prems by (rule state_for_local)
  then show ?case
    using Cons.prems by (auto simp: c case_prod_unfold Let_def split: option.splits intro!: Cons.IH)
qed simp

lemma hot_step_local:
  assumes "event_scope e = scope" "scopes_of h1 scope = scopes_of h2 scope"
  shows "scopes_of (hot_step up chat h1 e) scope = scopes_of (hot_step up chat h2 e) scope"
  using assms state_for_local [OF assms(2)]
  by (cases e)
    (auto simp: record_hot_write_def record_hot_delete_def record_hot_query_def hot_lookup_state
      case_prod_unfold Let_def intro!: concept_sections_local)

lemma hot_run_isolated:
  "scopes_of (foldl (hot_step up chat) hot es) scope =
   scopes_of (foldl (hot_step up chat) hot (filter (\<lambda>e. event_scope e = scope) es)) scope"
proof (induction es rule: rev_induct)
  case (snoc e es)
  show ?case
  proof (cases "event_scope e = scope")
    case True
    with hot_step_local [OF True snoc.IH] show ?thesis by simp
  next
    case False
    with snoc.IH show ?thesis by (simp add: hot_step_frame)
  qed
qed simp

text \<open>Hot memory stays small and its scopes do not interfere: after any sequence of writes,
  deletes, recorded answers and lookups, each scope holds at most ten distinct paths and ten
  answers, and it holds exactly what the events of its own scope alone would have left there.\<close>
theorem hot_memory_bounded:
  "hot_ok (foldl (hot_step up chat) None es) \<and>
   scopes_of (foldl (hot_step up chat) None es) scope =
   scopes_of (foldl (hot_step up chat) None (filter (\<lambda>e. event_scope e = scope) es)) scope"
proof -
  have run: "hot_ok hot \<Longrightarrow> hot_ok (foldl (hot_step up chat) hot es)" for hot
    by (induction es arbitrary: hot) (simp_all add: hot_step_ok)
  have "hot_ok None" by (simp add: hot_ok_def)
  from run [OF this] hot_run_isolated [of up chat None es scope] show ?thesis by simp
qed

section \<open>A write purges recorded answers; a lookup empties the hot set\<close>

definition hot_of :: "rstring \<Rightarrow> hot_global \<Rightarrow> hot_scope_state" where
  "hot_of scope hot = fst (state_for scope hot)"

text \<open>After a write the path is the newest of its scope and no recorded answer of the scope
  survives; after a delete the path is gone and the answers too; a recorded answer is the newest
  one and leaves the paths alone.\<close>
theorem hot_writes_purge_answers:
  "(\<exists>older. hot_concepts (hot_of scope (record_hot_write now scope path hot)) = older @ [(path, now)] \<and>
      path \<notin> fst ` set older) \<and>
   hot_qas (hot_of scope (record_hot_write now scope path hot)) = [] \<and>
   path \<notin> fst ` set (hot_concepts (hot_of scope (record_hot_delete scope path hot))) \<and>
   hot_qas (hot_of scope (record_hot_delete scope path hot)) = [] \<and>
   hot_concepts (hot_of scope (record_hot_query now scope q a hot)) = hot_concepts (hot_of scope hot) \<and>
   last (hot_qas (hot_of scope (record_hot_query now scope q a hot))) =
     \<lparr>hq_question = q, hq_answer = a, hq_at = now\<rparr>"
proof -
  let ?s = "fst (state_for scope hot)"
  have newest: "\<exists>older. drop_oldest (Suc n) (xs @ [x]) = older @ [x] \<and> set older \<subseteq> set xs" for n xs and x :: 'b
    by (induction xs) (auto split: if_splits)
  have put: "hot_of scope (put_state scope s h) = s" for s h by (simp add: hot_of_def state_for_def)
  from newest [of 9 "forget_path path (hot_concepts ?s)" "(path, now)"]
  obtain older where "drop_oldest 10 (forget_path path (hot_concepts ?s) @ [(path, now)]) = older @ [(path, now)]"
    "set older \<subseteq> set (forget_path path (hot_concepts ?s))" by auto
  moreover have "last (drop_oldest 10 (hot_qas ?s @ [x])) = x" for x
    using newest [of 9 "hot_qas ?s" x] by auto
  ultimately show ?thesis
    using forget_path_props(1) [of path "hot_concepts ?s"]
    by (auto simp: record_hot_write_def record_hot_delete_def record_hot_query_def case_prod_unfold Let_def
        put MAX_CONCEPTS_def MAX_QAS_def hot_of_def [of scope hot])
qed

lemma concept_sections_stays_empty:
  "hot_of scope hot = default_scope \<Longrightarrow>
   hot_of scope (snd (concept_sections now scope get cs hot)) = default_scope"
proof (induction cs arbitrary: hot)
  case (Cons c cs)
  obtain path touched where c: "c = (path, touched)" by (cases c)
  have put: "hot_of scope (put_state scope default_scope h) = default_scope" for h
    by (simp add: hot_of_def state_for_def)
  have same: "default_scope\<lparr>hot_concepts := forget_path path (hot_concepts default_scope)\<rparr> = default_scope"
    by (simp add: default_scope_def forget_path_def)
  from Cons.prems have "fst (state_for scope hot) = default_scope" by (simp add: hot_of_def)
  then show ?case
    using Cons.IH [OF Cons.prems] Cons.IH [OF put]
    by (simp add: c case_prod_unfold Let_def same split: option.split)
qed simp

text \<open>A lookup empties the hot set of its scope.  \<^verbatim>\<open>hot_lookup\<close> takes the state out of the table
  and never puts it back, so whatever it answered, the paths and answers recorded so far are gone
  and the next lookup of the scope misses without consulting the model.\<close>
theorem hot_lookup_empties_scope:
  "hot_of scope (snd (hot_lookup up chat now scope get q hot)) = default_scope \<and>
   fst (hot_lookup up' chat' now' scope get' q' (snd (hot_lookup up chat now scope get q hot))) = None"
proof -
  let ?h = "snd (hot_lookup up chat now scope get q hot)"
  have "fst (state_for scope (snd (state_for scope hot))) = default_scope"
    by (simp add: state_for_def)
  then have "hot_of scope ?h = default_scope"
    unfolding hot_lookup_state hot_of_def [symmetric] by (rule concept_sections_stays_empty)
  then show ?thesis
    by (simp add: hot_of_def hot_lookup_def case_prod_unfold Let_def default_scope_def qa_sections_def)
qed

end
