(* ===== verification/Crypto_Box.thy ===== *)
theory Crypto_Box
  imports Rust_Text
begin

text \<open>
  The crypto layer up to authenticated boxes: \<^verbatim>\<open>crates/mycelium-crypto/src/envelope.rs\<close>,
  \<^verbatim>\<open>aead.rs\<close>, \<^verbatim>\<open>keys.rs\<close>, \<^verbatim>\<open>file.rs\<close>, \<^verbatim>\<open>store_keys.rs\<close> and \<^verbatim>\<open>chat_keys.rs\<close>.  The third-party
  primitives (AES-256-GCM, HKDF-SHA256, HMAC-SHA256, Argon2id, hexadecimal coding) are the fields
  of a record that every definition takes as its first argument; random bytes are arguments.  What
  the theorems use of the primitives is the predicate \<open>good_prims\<close>.  The texts inside error
  values are not modelled.
\<close>

section \<open>Primitives\<close>

text \<open>
  \<open>gcm_seal key nonce aad plain\<close> is the ciphertext with its tag, or nothing when the library
  refuses the input; \<open>gcm_open\<close> the reverse.  \<open>hkdf key info\<close> expands to 32 bytes, with no salt.
\<close>

record prims =
  gcm_seal :: "bytes \<Rightarrow> bytes \<Rightarrow> bytes \<Rightarrow> bytes \<Rightarrow> bytes option"
  gcm_open :: "bytes \<Rightarrow> bytes \<Rightarrow> bytes \<Rightarrow> bytes \<Rightarrow> bytes option"
  hkdf :: "bytes \<Rightarrow> bytes \<Rightarrow> bytes"
  hmac :: "bytes \<Rightarrow> bytes \<Rightarrow> bytes"
  argon2 :: "bytes \<Rightarrow> bytes \<Rightarrow> bytes option"
  hex_encode :: "bytes \<Rightarrow> rstring"
  hex_decode :: "rstring \<Rightarrow> bytes option"

text \<open>
  Documented behaviour of the libraries.  Galois/counter mode: the tag adds 16 bytes, opening what
  was sealed under the same key, nonce and associated data returns the plaintext, and a message
  opens only when it is the sealing of its plaintext (the tag is recomputed and compared).  The
  derivations produce the requested 32 bytes.  Hexadecimal text has two digits per byte and decoding
  it reverses encoding.
\<close>

definition good_prims :: "prims \<Rightarrow> bool" where
  "good_prims P \<longleftrightarrow>
     (\<forall>k n a p c. gcm_seal P k n a p = Some c \<longrightarrow> length c = length p + 16 \<and> gcm_open P k n a c = Some p) \<and>
     (\<forall>k n a p c. gcm_open P k n a c = Some p \<longrightarrow> gcm_seal P k n a p = Some c) \<and>
     (\<forall>k i. length (hkdf P k i) = 32) \<and> (\<forall>k m. length (hmac P k m) = 32) \<and>
     (\<forall>w s k. argon2 P w s = Some k \<longrightarrow> length k = 32) \<and>
     (\<forall>b. hex_decode P (hex_encode P b) = Some b \<and> length (hex_encode P b) = 2 * length b \<and>
          list_all is_ascii_alphanumeric (hex_encode P b))"

lemma good_primsD:
  assumes "good_prims P"
  shows "gcm_seal P k n a p = Some c \<Longrightarrow> length c = length p + 16"
    and "gcm_seal P k n a p = Some c \<Longrightarrow> gcm_open P k n a c = Some p"
    and "gcm_open P k n a c = Some p \<Longrightarrow> gcm_seal P k n a p = Some c"
    and "length (hkdf P k i) = 32" and "length (hmac P k m) = 32"
    and "argon2 P w s = Some k' \<Longrightarrow> length k' = 32"
    and "hex_decode P (hex_encode P b) = Some b"
    and "length (hex_encode P b) = 2 * length b"
    and "list_all is_ascii_alphanumeric (hex_encode P b)"
  using assms unfolding good_prims_def by blast+

section \<open>Errors\<close>

datatype key_error = Argon2_failed | Invalid_length nat nat | Invalid_recovery_key | Invalid_key_path rstring

datatype seal_error = Unseal_failed | Unsupported_seal_version byte | Hex_error

datatype envelope_error = Too_short nat | Bad_magic | Unsupported_version byte

datatype crypto_error = Key key_error | Seal seal_error | Envelope_err envelope_error | Encrypt | Decrypt

section \<open>Envelopes\<close>

definition ENVELOPE_MAGIC :: bytes where "ENVELOPE_MAGIC = as_bytes (str ''MYC2'')"
definition ENVELOPE_VERSION :: byte where "ENVELOPE_VERSION = 1"
definition NONCE_LEN :: nat where "NONCE_LEN = 12"
definition TAG_LEN :: nat where "TAG_LEN = 16"
definition HEADER_LEN :: nat where "HEADER_LEN = length ENVELOPE_MAGIC + 1 + NONCE_LEN"
definition EMPTY_ENVELOPE_LEN :: nat where "EMPTY_ENVELOPE_LEN = HEADER_LEN + TAG_LEN"

record envelope =
  env_version :: byte
  env_nonce :: bytes
  env_ciphertext :: bytes

definition to_bytes :: "envelope \<Rightarrow> bytes" where
  "to_bytes e = ENVELOPE_MAGIC @ [env_version e] @ env_nonce e @ env_ciphertext e"

definition from_bytes :: "bytes \<Rightarrow> crypto_error + envelope" where
  "from_bytes b =
     (if length b < HEADER_LEN + TAG_LEN then Inl (Envelope_err (Too_short (length b)))
      else if take (length ENVELOPE_MAGIC) b \<noteq> ENVELOPE_MAGIC then Inl (Envelope_err Bad_magic)
      else let version = b ! length ENVELOPE_MAGIC in
        if version \<noteq> ENVELOPE_VERSION then Inl (Envelope_err (Unsupported_version version))
        else Inr \<lparr>env_version = version,
                  env_nonce = take NONCE_LEN (drop (length ENVELOPE_MAGIC + 1) b),
                  env_ciphertext = drop HEADER_LEN b\<rparr>)"

text \<open>The fixed-size fields of the Rust type, and the shortest ciphertext.\<close>

definition envelope_ok :: "envelope \<Rightarrow> bool" where
  "envelope_ok e \<longleftrightarrow> env_version e = ENVELOPE_VERSION \<and> length (env_nonce e) = NONCE_LEN \<and>
     TAG_LEN \<le> length (env_ciphertext e)"

lemma length_magic [simp]: "length ENVELOPE_MAGIC = 4"
  by (simp add: ENVELOPE_MAGIC_def utf8_char_def)

lemma header_len [simp]: "HEADER_LEN = 17"
  by (simp add: HEADER_LEN_def NONCE_LEN_def)

lemma from_bytes_to_bytes:
  assumes "envelope_ok e"
  shows "from_bytes (to_bytes e) = Inr e"
  using assms
  by (cases e) (simp add: envelope_ok_def from_bytes_def to_bytes_def NONCE_LEN_def TAG_LEN_def nth_append)

lemma from_bytes_Inr:
  assumes "from_bytes b = Inr e"
  shows "envelope_ok e \<and> to_bytes e = b"
proof -
  from assms have len: "33 \<le> length b" and magic: "take 4 b = ENVELOPE_MAGIC" and v: "b ! 4 = ENVELOPE_VERSION"
    and e: "e = \<lparr>env_version = b ! 4, env_nonce = take 12 (drop 5 b), env_ciphertext = drop 17 b\<rparr>"
    by (auto simp: from_bytes_def TAG_LEN_def NONCE_LEN_def Let_def split: if_splits)
  have "b = take 4 b @ b ! 4 # drop 5 b" using len id_take_nth_drop [of 4 b] by simp
  also have "drop 5 b = take 12 (drop 5 b) @ drop 17 b"
    using append_take_drop_id [of 12 "drop 5 b"] by simp
  finally show ?thesis using len magic v e by (simp add: envelope_ok_def to_bytes_def NONCE_LEN_def TAG_LEN_def)
qed

text \<open>Envelopes round-trip exactly.  Every envelope of the current version with a 12-byte nonce
  and at least a tag is parsed back from its serialisation, and the parser accepts nothing else:
  accepted bytes are the serialisation of what was parsed.\<close>
theorem envelope_roundtrip:
  "from_bytes b = Inr e \<longleftrightarrow> envelope_ok e \<and> b = to_bytes e"
  using from_bytes_Inr from_bytes_to_bytes by blast

section \<open>Keys\<close>

datatype kek = Kek bytes
datatype master_key = MasterKey bytes
datatype dek = Dek bytes
datatype recovery_key = RecoveryKey bytes
datatype service_key = ServiceKey bytes

text \<open>\<^verbatim>\<open>from_bytes\<close> of the key types: exactly 32 bytes.\<close>

definition key_from_bytes :: "(bytes \<Rightarrow> 'k) \<Rightarrow> bytes \<Rightarrow> key_error + 'k" where
  "key_from_bytes con b = (if length b = 32 then Inr (con b) else Inl (Invalid_length 32 (length b)))"

fun dek_bytes :: "dek \<Rightarrow> bytes" where "dek_bytes (Dek b) = b"
fun kek_bytes :: "kek \<Rightarrow> bytes" where "kek_bytes (Kek b) = b"
fun master_bytes :: "master_key \<Rightarrow> bytes" where "master_bytes (MasterKey b) = b"
fun recovery_bytes :: "recovery_key \<Rightarrow> bytes" where "recovery_bytes (RecoveryKey b) = b"
fun service_bytes :: "service_key \<Rightarrow> bytes" where "service_bytes (ServiceKey b) = b"

definition SALT_LEN :: nat where "SALT_LEN = 16"
definition RECOVERY_KEY_LEN :: nat where "RECOVERY_KEY_LEN = 32"
definition DEK_INFO :: bytes where "DEK_INFO = as_bytes (str ''mycelium2/dek/v1'')"

definition derive_kek :: "prims \<Rightarrow> rstring \<Rightarrow> bytes \<Rightarrow> key_error + kek" where
  "derive_kek P password salt =
     (if length salt \<noteq> SALT_LEN then Inl (Invalid_length SALT_LEN (length salt))
      else case argon2 P (as_bytes password) salt of
             None \<Rightarrow> Inl Argon2_failed
           | Some k \<Rightarrow> Inr (Kek k))"

definition derive_dek :: "prims \<Rightarrow> master_key \<Rightarrow> rstring \<Rightarrow> key_error + dek" where
  "derive_dek P master path =
     (if path = [] \<or> \<not> starts_with path (str ''/'') then Inl (Invalid_key_path path)
      else Inr (Dek (hkdf P (master_bytes master) (DEK_INFO @ as_bytes path))))"

definition service_seal_dek :: "prims \<Rightarrow> service_key \<Rightarrow> dek" where
  "service_seal_dek P service =
     Dek (hkdf P (service_bytes service) (as_bytes (str ''mycelium2/service-seal-dek/v1'')))"

definition RECOVERY_PREFIX :: rstring where "RECOVERY_PREFIX = str ''myc2-recovery-''"

text \<open>\<^verbatim>\<open>generate_recovery_key\<close> on the random bytes it draws.\<close>

definition generate_recovery_key :: "prims \<Rightarrow> bytes \<Rightarrow> rstring" where
  "generate_recovery_key P random = RECOVERY_PREFIX @ hex_encode P random"

definition parse_recovery_key :: "prims \<Rightarrow> rstring \<Rightarrow> key_error + recovery_key" where
  "parse_recovery_key P key =
     (case strip_prefix key RECOVERY_PREFIX of
        None \<Rightarrow> Inl Invalid_recovery_key
      | Some hex_part \<Rightarrow>
          (case hex_decode P hex_part of
             None \<Rightarrow> Inl Invalid_recovery_key
           | Some b \<Rightarrow> if length b \<noteq> RECOVERY_KEY_LEN then Inl Invalid_recovery_key else Inr (RecoveryKey b)))"

lemma parse_generated_recovery_key:
  "good_prims P \<Longrightarrow> length random = 32 \<Longrightarrow>
   parse_recovery_key P (generate_recovery_key P random) = Inr (RecoveryKey random)"
  by (simp add: parse_recovery_key_def generate_recovery_key_def good_primsD(7) RECOVERY_KEY_LEN_def)

section \<open>Authenticated encryption\<close>

text \<open>\<open>nonce\<close> is what the random generator filled in.\<close>

definition aead_seal :: "prims \<Rightarrow> bytes \<Rightarrow> bytes \<Rightarrow> bytes \<Rightarrow> dek \<Rightarrow> crypto_error + bytes" where
  "aead_seal P nonce plaintext aad key =
     (if length (dek_bytes key) \<noteq> 32 then Inl Encrypt
      else case gcm_seal P (dek_bytes key) nonce aad plaintext of
             None \<Rightarrow> Inl Encrypt
           | Some c \<Rightarrow> Inr (to_bytes \<lparr>env_version = ENVELOPE_VERSION, env_nonce = nonce, env_ciphertext = c\<rparr>))"

definition aead_open :: "prims \<Rightarrow> bytes \<Rightarrow> bytes \<Rightarrow> dek \<Rightarrow> crypto_error + bytes" where
  "aead_open P envelope_bytes aad key =
     and_then (from_bytes envelope_bytes) (\<lambda>e.
       if length (dek_bytes key) \<noteq> 32 then Inl Decrypt
       else case gcm_open P (dek_bytes key) (env_nonce e) aad (env_ciphertext e) of
              None \<Rightarrow> Inl Decrypt
            | Some plain \<Rightarrow> Inr plain)"

text \<open>
  The contract of a box that is sealed and opened under a context: opening reverses sealing, and
  whatever opens was sealed with that content in that context.  \<open>good\<close> collects what is assumed
  of the primitives.
\<close>

locale authenticated_box =
  fixes good :: "'p \<Rightarrow> bool"
    and seal_box :: "'p \<Rightarrow> bytes \<Rightarrow> bytes \<Rightarrow> 'c \<Rightarrow> 'k \<Rightarrow> crypto_error + bytes"
    and open_box :: "'p \<Rightarrow> bytes \<Rightarrow> 'c \<Rightarrow> 'k \<Rightarrow> crypto_error + bytes"
  assumes open_seal: "good p \<Longrightarrow> length n = NONCE_LEN \<Longrightarrow> seal_box p n m c k = Inr b \<Longrightarrow> open_box p b c k = Inr m"
    and open_genuine: "good p \<Longrightarrow> open_box p b c k = Inr m \<Longrightarrow>
      \<exists>n. length n = NONCE_LEN \<and> seal_box p n m c k = Inr b"
    and seal_length: "good p \<Longrightarrow> length n = NONCE_LEN \<Longrightarrow> seal_box p n m c k = Inr b \<Longrightarrow>
      length b = EMPTY_ENVELOPE_LEN + length m"
begin

lemma seal_determines:
  "good p \<Longrightarrow> length n = NONCE_LEN \<Longrightarrow> length n' = NONCE_LEN \<Longrightarrow>
   seal_box p n m c k = Inr b \<Longrightarrow> seal_box p n' m' c k = Inr b \<Longrightarrow> m = m'"
  by (metis open_seal sum.inject(2))

lemma open_iff:
  "good p \<Longrightarrow> open_box p b c k = Inr m \<longleftrightarrow> (\<exists>n. length n = NONCE_LEN \<and> seal_box p n m c k = Inr b)"
  using open_seal open_genuine by blast

lemma open_length: "good p \<Longrightarrow> open_box p b c k = Inr m \<Longrightarrow> length b = EMPTY_ENVELOPE_LEN + length m"
  using open_genuine seal_length by blast

lemma short_never_opens:
  assumes "good p" "length b < EMPTY_ENVELOPE_LEN"
  shows "\<exists>e. open_box p b c k = Inl e"
  using assms open_length by (cases "open_box p b c k") fastforce+

end

lemma aead_seal_Inr:
  "aead_seal P n m a k = Inr b \<longleftrightarrow> length (dek_bytes k) = 32 \<and>
     (\<exists>c. gcm_seal P (dek_bytes k) n a m = Some c \<and>
       b = to_bytes \<lparr>env_version = ENVELOPE_VERSION, env_nonce = n, env_ciphertext = c\<rparr>)"
  by (auto simp: aead_seal_def split: option.splits)

lemma aead_open_Inr:
  "aead_open P b a k = Inr m \<longleftrightarrow> length (dek_bytes k) = 32 \<and>
     (\<exists>e. from_bytes b = Inr e \<and> gcm_open P (dek_bytes k) (env_nonce e) a (env_ciphertext e) = Some m)"
  by (auto simp: aead_open_def and_then_eq_Inr split: option.splits if_splits)

lemma envelope_ok_sealed:
  assumes "good_prims P" "length n = NONCE_LEN" "gcm_seal P k n a m = Some c"
  shows "envelope_ok \<lparr>env_version = ENVELOPE_VERSION, env_nonce = n, env_ciphertext = c\<rparr>"
  using assms good_primsD(1) by (simp add: envelope_ok_def TAG_LEN_def)

interpretation aead_box: authenticated_box good_prims aead_seal aead_open
proof
  fix P n m and a :: bytes and k b
  assume good: "good_prims P" and n: "length n = NONCE_LEN" and s: "aead_seal P n m a k = Inr b"
  then obtain c where c: "length (dek_bytes k) = 32" "gcm_seal P (dek_bytes k) n a m = Some c"
    and b: "b = to_bytes \<lparr>env_version = ENVELOPE_VERSION, env_nonce = n, env_ciphertext = c\<rparr>"
    by (auto simp: aead_seal_Inr)
  then have "from_bytes b = Inr \<lparr>env_version = ENVELOPE_VERSION, env_nonce = n, env_ciphertext = c\<rparr>"
    using from_bytes_to_bytes [OF envelope_ok_sealed [OF good n c(2)]] by simp
  then show "aead_open P b a k = Inr m"
    using c good_primsD(2) [OF good c(2)] by (simp add: aead_open_Inr)
  show "length b = EMPTY_ENVELOPE_LEN + length m"
    using good_primsD(1) [OF good c(2)] n by (simp add: b to_bytes_def EMPTY_ENVELOPE_LEN_def TAG_LEN_def NONCE_LEN_def)
next
  fix P b and a :: bytes and k m
  assume good: "good_prims P" and o: "aead_open P b a k = Inr m"
  then obtain e where e: "length (dek_bytes k) = 32" "from_bytes b = Inr e"
    "gcm_open P (dek_bytes k) (env_nonce e) a (env_ciphertext e) = Some m"
    by (auto simp: aead_open_Inr)
  from from_bytes_Inr [OF e(2)] have ok: "envelope_ok e" "to_bytes e = b" by simp_all
  then have "aead_seal P (env_nonce e) m a k = Inr b"
    using e(1) good_primsD(3) [OF good e(3)] by (cases e) (simp add: aead_seal_Inr envelope_ok_def)
  with ok(1) show "\<exists>n. length n = NONCE_LEN \<and> aead_seal P n m a k = Inr b"
    by (auto simp: envelope_ok_def)
qed

section \<open>Files\<close>

definition encrypt_file :: "prims \<Rightarrow> bytes \<Rightarrow> bytes \<Rightarrow> rstring \<Rightarrow> master_key \<Rightarrow> crypto_error + bytes" where
  "encrypt_file P nonce plaintext path master =
     (case derive_dek P master path of
        Inl e \<Rightarrow> Inl (Key e)
      | Inr dek \<Rightarrow> aead_seal P nonce plaintext (as_bytes path) dek)"

definition decrypt_file :: "prims \<Rightarrow> bytes \<Rightarrow> rstring \<Rightarrow> master_key \<Rightarrow> crypto_error + bytes" where
  "decrypt_file P ciphertext path master =
     (case derive_dek P master path of
        Inl e \<Rightarrow> Inl (Key e)
      | Inr dek \<Rightarrow> aead_open P ciphertext (as_bytes path) dek)"

interpretation file_box: authenticated_box good_prims encrypt_file decrypt_file
  by unfold_locales
    (auto simp: encrypt_file_def decrypt_file_def aead_box.open_seal aead_box.seal_length
      dest: aead_box.open_genuine split: sum.splits)

section \<open>Purpose-bound keys\<close>

definition FILENAME_INFO :: bytes where "FILENAME_INFO = as_bytes (str ''mycelium2/filename/v1'')"
definition META_DEK_INFO :: bytes where "META_DEK_INFO = as_bytes (str ''mycelium2/meta-dek/v1'')"
definition INDEX_TOKEN_INFO :: bytes where "INDEX_TOKEN_INFO = as_bytes (str ''mycelium2/index-token/v1'')"
definition INDEX_DEK_INFO :: bytes where "INDEX_DEK_INFO = as_bytes (str ''mycelium2/index-dek/v1'')"
definition CHAT_DEK_INFO :: bytes where "CHAT_DEK_INFO = as_bytes (str ''mycelium2/chat-dek/v1'')"

definition derive_hmac_key :: "prims \<Rightarrow> master_key \<Rightarrow> bytes \<Rightarrow> bytes" where
  "derive_hmac_key P master info = hkdf P (master_bytes master) info"

definition derive_hmac_key_service :: "prims \<Rightarrow> service_key \<Rightarrow> bytes \<Rightarrow> bytes" where
  "derive_hmac_key_service P service info = hkdf P (service_bytes service) info"

definition derive_dek_from :: "prims \<Rightarrow> master_key \<Rightarrow> bytes \<Rightarrow> dek" where
  "derive_dek_from P master info = Dek (hkdf P (master_bytes master) info)"

definition derive_dek_from_service :: "prims \<Rightarrow> service_key \<Rightarrow> bytes \<Rightarrow> dek" where
  "derive_dek_from_service P service info = Dek (hkdf P (service_bytes service) info)"

definition derive_service_dek :: "prims \<Rightarrow> service_key \<Rightarrow> bytes \<Rightarrow> dek" where
  "derive_service_dek P service info = derive_dek_from_service P service info"

record file_keys =
  filename_key :: bytes
  meta_dek :: dek

definition file_keys_from_master_key :: "prims \<Rightarrow> master_key \<Rightarrow> file_keys" where
  "file_keys_from_master_key P master =
     \<lparr>filename_key = derive_hmac_key P master FILENAME_INFO,
      meta_dek = derive_dek_from P master META_DEK_INFO\<rparr>"

definition file_keys_from_service_key :: "prims \<Rightarrow> service_key \<Rightarrow> file_keys" where
  "file_keys_from_service_key P service =
     \<lparr>filename_key = derive_hmac_key_service P service FILENAME_INFO,
      meta_dek = derive_dek_from_service P service META_DEK_INFO\<rparr>"

definition stored_name :: "prims \<Rightarrow> file_keys \<Rightarrow> rstring \<Rightarrow> rstring" where
  "stored_name P keys canonical_path = hex_encode P (hmac P (filename_key keys) (as_bytes canonical_path))"

record index_keys =
  token_key :: bytes
  index_dek :: dek

definition index_keys_from_master_key :: "prims \<Rightarrow> master_key \<Rightarrow> index_keys" where
  "index_keys_from_master_key P master =
     \<lparr>token_key = derive_hmac_key P master INDEX_TOKEN_INFO,
      index_dek = derive_dek_from P master INDEX_DEK_INFO\<rparr>"

definition index_keys_from_service_key :: "prims \<Rightarrow> service_key \<Rightarrow> index_keys" where
  "index_keys_from_service_key P service =
     \<lparr>token_key = derive_hmac_key_service P service INDEX_TOKEN_INFO,
      index_dek = derive_dek_from_service P service INDEX_DEK_INFO\<rparr>"

definition index_token :: "prims \<Rightarrow> index_keys \<Rightarrow> rstring \<Rightarrow> rstring" where
  "index_token P keys term = hex_encode P (hmac P (token_key keys) (as_bytes term))"

definition chat_keys_from_master_key :: "prims \<Rightarrow> master_key \<Rightarrow> dek" where
  "chat_keys_from_master_key P master = derive_dek_from P master CHAT_DEK_INFO"

definition seal_chat :: "prims \<Rightarrow> bytes \<Rightarrow> bytes \<Rightarrow> rstring \<Rightarrow> dek \<Rightarrow> crypto_error + bytes" where
  "seal_chat P nonce plain aad dek = aead_seal P nonce plain (as_bytes aad) dek"

definition open_chat :: "prims \<Rightarrow> bytes \<Rightarrow> rstring \<Rightarrow> dek \<Rightarrow> crypto_error + bytes" where
  "open_chat P sealed aad dek = aead_open P sealed (as_bytes aad) dek"

interpretation chat_box: authenticated_box good_prims seal_chat open_chat
  by unfold_locales
    (auto simp: seal_chat_def open_chat_def aead_box.open_seal aead_box.seal_length
      dest: aead_box.open_genuine)

section \<open>Properties\<close>

text \<open>Small primitives that satisfy the assumptions, for evaluating the theorems on inputs.\<close>

definition pad_to :: "nat \<Rightarrow> bytes \<Rightarrow> bytes" where
  "pad_to n b = take n (b @ replicate n 0)"

definition hex_digit :: "nat \<Rightarrow> nat" where
  "hex_digit n = (if n < 10 then 48 + n else 87 + n)"

definition hex_value :: "nat \<Rightarrow> nat" where
  "hex_value c = (if c < 58 then c - 48 else c - 87)"

definition toy_hex :: "bytes \<Rightarrow> rstring" where
  "toy_hex b = concat (map (\<lambda>x. [hex_digit (unat x div 16), hex_digit (unat x mod 16)]) b)"

fun toy_unhex :: "rstring \<Rightarrow> bytes option" where
  "toy_unhex [] = Some []"
| "toy_unhex [c] = None"
| "toy_unhex (c # d # s) =
     (if is_ascii_alphanumeric c \<and> is_ascii_alphanumeric d
      then map_option (Cons (byte_of (16 * hex_value c + hex_value d))) (toy_unhex s) else None)"

lemma hex_digit_props: "n < 16 \<Longrightarrow> hex_value (hex_digit n) = n \<and> is_ascii_alphanumeric (hex_digit n)"
  by (simp add: hex_digit_def hex_value_def is_ascii_alphanumeric_def is_ascii_digit_def
      is_ascii_lowercase_def is_ascii_uppercase_def)

lemma toy_hex_props:
  "toy_unhex (toy_hex b) = Some b \<and> length (toy_hex b) = 2 * length b \<and>
   list_all is_ascii_alphanumeric (toy_hex b)"
proof (induction b)
  case (Cons x b)
  have "unat x div 16 < 16" using unsigned_less [of x, where 'a = nat] by (simp add: less_mult_imp_div_less)
  moreover have "byte_of (unat x) = x" by (simp add: byte_of_def)
  ultimately show ?case
    using Cons by (simp add: toy_hex_def hex_digit_props)
qed (simp add: toy_hex_def)

definition toy_prims :: prims where
  "toy_prims =
     \<lparr>gcm_seal = (\<lambda>k n a p. Some (p @ pad_to 16 (a @ k))),
      gcm_open = (\<lambda>k n a c. let m = length c - 16 in
        if 16 \<le> length c \<and> drop m c = pad_to 16 (a @ k) then Some (take m c) else None),
      hkdf = (\<lambda>k i. pad_to 32 (i @ k)), hmac = (\<lambda>k m. pad_to 32 (m @ k)),
      argon2 = (\<lambda>w s. Some (pad_to 32 (w @ s))),
      hex_encode = toy_hex, hex_decode = toy_unhex\<rparr>"

lemma length_pad_to [simp]: "length (pad_to n b) = n"
  by (simp add: pad_to_def)

lemma good_toy_prims: "good_prims toy_prims"
proof -
  have "take (length c - 16) c @ pad_to 16 x = c" if "drop (length c - 16) c = pad_to 16 x" for c x
    using that append_take_drop_id [of "length c - 16" c] by simp
  then show ?thesis
    by (auto simp: good_prims_def toy_prims_def Let_def toy_hex_props split: if_splits)
qed

text \<open>Authenticated encryption.  What \<^verbatim>\<open>aead_seal\<close> produced opens to the plaintext under the same
  key and associated data; conversely bytes open to a plaintext only if they are exactly a sealing
  of that plaintext under that key and that associated data, so no change of the stored bytes goes
  unnoticed; and an envelope is 33 bytes longer than its plaintext, which makes emptiness visible
  from the stored length.\<close>
theorem aead_open_exactly_sealed:
  assumes "good_prims P"
  shows "(aead_open P b aad key = Inr m \<longleftrightarrow> (\<exists>n. length n = 12 \<and> aead_seal P n m aad key = Inr b)) \<and>
    (aead_open P b aad key = Inr m \<longrightarrow>
       length b = 33 + length m \<and> (length b \<le> EMPTY_ENVELOPE_LEN \<longleftrightarrow> m = []))"
  using aead_box.open_iff [OF assms, of b aad key m] aead_box.open_length [OF assms, of b aad key m]
  by (auto simp: NONCE_LEN_def EMPTY_ENVELOPE_LEN_def TAG_LEN_def)

theorem aead_open_exactly_sealed_witness:
  "\<exists>n. length n = 12 \<and>
     aead_seal toy_prims n [1, 2] [7] (Dek (replicate 32 9)) =
       Inr (as_bytes (str ''MYC2'') @ [1] @ replicate 12 0 @ [1, 2, 7] @ replicate 15 9)"
proof -
  have "aead_open toy_prims (as_bytes (str ''MYC2'') @ [1] @ replicate 12 0 @ [1, 2, 7] @ replicate 15 9) [7]
      (Dek (replicate 32 9)) = Inr [1, 2]"
    by (simp add: aead_open_def from_bytes_def toy_prims_def pad_to_def ENVELOPE_MAGIC_def ENVELOPE_VERSION_def
        NONCE_LEN_def TAG_LEN_def HEADER_LEN_def utf8_char_def numeral_eq_Suc)
  then show ?thesis using aead_open_exactly_sealed [OF good_toy_prims] by blast
qed

text \<open>A file decrypts only at its own path.  \<^verbatim>\<open>decrypt_file\<close> returns a plaintext exactly when the
  bytes are an encryption of that plaintext made for the same canonical path and master key; a path
  that is empty or does not start with a slash is refused on both sides.\<close>
theorem file_roundtrip:
  assumes "good_prims P"
  shows "(decrypt_file P b path mk = Inr m \<longleftrightarrow> (\<exists>n. length n = 12 \<and> encrypt_file P n m path mk = Inr b)) \<and>
    (\<not> starts_with path (str ''/'') \<longrightarrow>
       decrypt_file P b path mk = Inl (Key (Invalid_key_path path)) \<and>
       encrypt_file P n m path mk = Inl (Key (Invalid_key_path path)))"
  using file_box.open_iff [OF assms, of b path mk m]
  by (auto simp: NONCE_LEN_def decrypt_file_def encrypt_file_def derive_dek_def)

theorem file_roundtrip_witness:
  "decrypt_file toy_prims [] (str ''a.md'') (MasterKey []) = Inl (Key (Invalid_key_path (str ''a.md'')))"
  using file_roundtrip [OF good_toy_prims, of "[]" "str ''a.md''" "MasterKey []" "[]" "[]"]
  by (simp add: starts_with_def)

end
