(* ===== verification/Key_Seal.thy ===== *)
theory Key_Seal
  imports Crypto_Box
begin

unbundle bit_operations_syntax

text \<open>
  Sealed master keys (\<^verbatim>\<open>crates/mycelium-crypto/src/seal.rs\<close>) and the service key file
  (\<^verbatim>\<open>service.rs\<close>).  Salts, nonces and generated keys are arguments.  For the service key the
  surrounding file system is a record of what its calls return.
\<close>

section \<open>Sealed master keys\<close>

definition SEALED_VERSION :: byte where "SEALED_VERSION = 1"
definition PASSWORD_SEAL_AAD :: bytes where "PASSWORD_SEAL_AAD = as_bytes (str ''mycelium2/seal/password/v1'')"
definition RECOVERY_SEAL_AAD :: bytes where "RECOVERY_SEAL_AAD = as_bytes (str ''mycelium2/seal/recovery/v1'')"

record sealed_master_key =
  sealed_version :: byte
  salt_hex :: rstring
  password_sealed_hex :: rstring
  recovery_sealed_hex :: rstring

definition key_err :: "key_error + 'a \<Rightarrow> crypto_error + 'a" where
  "key_err r = (case r of Inl e \<Rightarrow> Inl (Key e) | Inr x \<Rightarrow> Inr x)"

definition hex_or :: "prims \<Rightarrow> rstring \<Rightarrow> crypto_error + bytes" where
  "hex_or P s = ok_or (hex_decode P s) (Seal Hex_error)"

definition wrap_as_dek :: "bytes \<Rightarrow> dek" where
  "wrap_as_dek key = Dek key"

definition check_version :: "sealed_master_key \<Rightarrow> crypto_error + unit" where
  "check_version sealed =
     (if sealed_version sealed \<noteq> SEALED_VERSION
      then Inl (Seal (Unsupported_seal_version (sealed_version sealed))) else Inr ())"

definition seal_master_key ::
  "prims \<Rightarrow> bytes \<Rightarrow> bytes \<Rightarrow> bytes \<Rightarrow> master_key \<Rightarrow> rstring \<Rightarrow> rstring \<Rightarrow> crypto_error + sealed_master_key" where
  "seal_master_key P salt n1 n2 master password recovery_key =
     and_then (key_err (parse_recovery_key P recovery_key)) (\<lambda>recovery.
     and_then (key_err (derive_kek P password salt)) (\<lambda>kek.
     and_then (aead_seal P n1 (master_bytes master) PASSWORD_SEAL_AAD (wrap_as_dek (kek_bytes kek))) (\<lambda>password_sealed.
     and_then (aead_seal P n2 (master_bytes master) RECOVERY_SEAL_AAD (wrap_as_dek (recovery_bytes recovery))) (\<lambda>recovery_sealed.
     Inr \<lparr>sealed_version = SEALED_VERSION, salt_hex = hex_encode P salt,
          password_sealed_hex = hex_encode P password_sealed,
          recovery_sealed_hex = hex_encode P recovery_sealed\<rparr>))))"

definition unseal_with_password :: "prims \<Rightarrow> sealed_master_key \<Rightarrow> rstring \<Rightarrow> crypto_error + master_key" where
  "unseal_with_password P sealed password =
     and_then (check_version sealed) (\<lambda>_.
     and_then (hex_or P (salt_hex sealed)) (\<lambda>salt.
     if length salt \<noteq> SALT_LEN then Inl (Seal Unseal_failed)
     else and_then (key_err (derive_kek P password salt)) (\<lambda>kek.
     and_then (hex_or P (password_sealed_hex sealed)) (\<lambda>sealed_bytes.
     and_then (aead_open P sealed_bytes PASSWORD_SEAL_AAD (wrap_as_dek (kek_bytes kek))) (\<lambda>master.
     key_err (key_from_bytes MasterKey master))))))"

definition unseal_with_recovery :: "prims \<Rightarrow> sealed_master_key \<Rightarrow> rstring \<Rightarrow> crypto_error + master_key" where
  "unseal_with_recovery P sealed recovery_key =
     and_then (check_version sealed) (\<lambda>_.
     and_then (key_err (parse_recovery_key P recovery_key)) (\<lambda>recovery.
     and_then (hex_or P (recovery_sealed_hex sealed)) (\<lambda>sealed_bytes.
     and_then (aead_open P sealed_bytes RECOVERY_SEAL_AAD (wrap_as_dek (recovery_bytes recovery))) (\<lambda>master.
     key_err (key_from_bytes MasterKey master)))))"

definition change_password ::
  "prims \<Rightarrow> bytes \<Rightarrow> bytes \<Rightarrow> sealed_master_key \<Rightarrow> rstring \<Rightarrow> rstring \<Rightarrow> crypto_error + sealed_master_key" where
  "change_password P salt nonce sealed old_password new_password =
     and_then (unseal_with_password P sealed old_password) (\<lambda>master.
     and_then (key_err (derive_kek P new_password salt)) (\<lambda>kek.
     and_then (aead_seal P nonce (master_bytes master) PASSWORD_SEAL_AAD (wrap_as_dek (kek_bytes kek))) (\<lambda>password_sealed.
     Inr \<lparr>sealed_version = SEALED_VERSION, salt_hex = hex_encode P salt,
          password_sealed_hex = hex_encode P password_sealed,
          recovery_sealed_hex = recovery_sealed_hex sealed\<rparr>)))"

definition rotate_recovery_key ::
  "prims \<Rightarrow> bytes \<Rightarrow> sealed_master_key \<Rightarrow> rstring \<Rightarrow> rstring \<Rightarrow> crypto_error + sealed_master_key" where
  "rotate_recovery_key P nonce sealed password new_recovery_key =
     and_then (key_err (parse_recovery_key P new_recovery_key)) (\<lambda>recovery.
     and_then (unseal_with_password P sealed password) (\<lambda>master.
     and_then (aead_seal P nonce (master_bytes master) RECOVERY_SEAL_AAD (wrap_as_dek (recovery_bytes recovery))) (\<lambda>recovery_sealed.
     Inr \<lparr>sealed_version = SEALED_VERSION, salt_hex = salt_hex sealed,
          password_sealed_hex = password_sealed_hex sealed,
          recovery_sealed_hex = hex_encode P recovery_sealed\<rparr>)))"

section \<open>Both credentials recover the master key\<close>

lemma key_err_Inr [simp]: "key_err r = Inr x \<longleftrightarrow> r = Inr x"
  by (auto simp: key_err_def split: sum.splits)

lemma hex_or_Inr [simp]: "hex_or P s = Inr b \<longleftrightarrow> hex_decode P s = Some b"
  by (auto simp: hex_or_def ok_or_def split: option.splits)

lemma check_version_Inr [simp]: "check_version sealed = Inr u \<longleftrightarrow> sealed_version sealed = SEALED_VERSION"
  by (auto simp: check_version_def)

lemma unseal_password_Inr:
  "unseal_with_password P sealed password = Inr master \<longleftrightarrow>
     sealed_version sealed = SEALED_VERSION \<and>
     (\<exists>salt kek b. hex_decode P (salt_hex sealed) = Some salt \<and> length salt = SALT_LEN \<and>
        derive_kek P password salt = Inr kek \<and> hex_decode P (password_sealed_hex sealed) = Some b \<and>
        aead_open P b PASSWORD_SEAL_AAD (wrap_as_dek (kek_bytes kek)) = Inr (master_bytes master) \<and>
        length (master_bytes master) = 32)"
  by (cases master)
    (auto simp: unseal_with_password_def and_then_eq_Inr key_from_bytes_def split: if_splits)

lemma unseal_recovery_Inr:
  "unseal_with_recovery P sealed recovery_key = Inr master \<longleftrightarrow>
     sealed_version sealed = SEALED_VERSION \<and>
     (\<exists>recovery b. parse_recovery_key P recovery_key = Inr recovery \<and>
        hex_decode P (recovery_sealed_hex sealed) = Some b \<and>
        aead_open P b RECOVERY_SEAL_AAD (wrap_as_dek (recovery_bytes recovery)) = Inr (master_bytes master) \<and>
        length (master_bytes master) = 32)"
  by (cases master)
    (auto simp: unseal_with_recovery_def and_then_eq_Inr key_from_bytes_def split: if_splits)

definition opens_to :: "prims \<Rightarrow> sealed_master_key \<Rightarrow> rstring \<Rightarrow> rstring \<Rightarrow> master_key \<Rightarrow> bool" where
  "opens_to P sealed password recovery_key master \<longleftrightarrow>
     unseal_with_password P sealed password = Inr master \<and>
     unseal_with_recovery P sealed recovery_key = Inr master"

lemma derive_kek_salt: "derive_kek P password salt = Inr kek \<Longrightarrow> length salt = SALT_LEN"
  by (auto simp: derive_kek_def split: if_splits)

lemma seal_opens:
  assumes "good_prims P" "length n1 = NONCE_LEN" "length n2 = NONCE_LEN" "length (master_bytes master) = 32"
    and "seal_master_key P salt n1 n2 master password recovery_key = Inr sealed"
  shows "opens_to P sealed password recovery_key master"
  using assms aead_box.open_seal [OF assms(1,2)] aead_box.open_seal [OF assms(1,3)]
  by (auto simp: seal_master_key_def and_then_eq_Inr opens_to_def unseal_password_Inr unseal_recovery_Inr
      good_primsD(7) [OF assms(1)] dest: derive_kek_salt)

lemma change_password_opens:
  assumes "good_prims P" "length nonce = NONCE_LEN"
    and "opens_to P sealed old_password recovery_key master"
    and "change_password P salt nonce sealed old_password new_password = Inr sealed'"
  shows "opens_to P sealed' new_password recovery_key master"
  using assms aead_box.open_seal [OF assms(1,2)]
  by (auto simp: change_password_def and_then_eq_Inr opens_to_def unseal_recovery_Inr
      unseal_password_Inr [of P sealed'] good_primsD(7) [OF assms(1)] dest: derive_kek_salt)

lemma rotate_opens:
  assumes "good_prims P" "length nonce = NONCE_LEN"
    and "opens_to P sealed password recovery_key master"
    and "rotate_recovery_key P nonce sealed password new_recovery_key = Inr sealed'"
  shows "opens_to P sealed' password new_recovery_key master"
  using assms aead_box.open_seal [OF assms(1,2)]
  by (auto simp: rotate_recovery_key_def and_then_eq_Inr opens_to_def unseal_password_Inr
      unseal_recovery_Inr [of P sealed'] good_primsD(7) [OF assms(1)])

text \<open>The life of a record: what the owner does to it, with the random bytes drawn.\<close>

datatype seal_event = Change_password bytes bytes rstring | Rotate_recovery bytes rstring

record credentials =
  cr_sealed :: sealed_master_key
  cr_password :: rstring
  cr_recovery :: rstring

fun seal_step :: "prims \<Rightarrow> credentials \<Rightarrow> seal_event \<Rightarrow> credentials" where
  "seal_step P c (Change_password salt nonce new) =
     (case change_password P salt nonce (cr_sealed c) (cr_password c) new of
        Inl e \<Rightarrow> c
      | Inr sealed \<Rightarrow> c\<lparr>cr_sealed := sealed, cr_password := new\<rparr>)"
| "seal_step P c (Rotate_recovery nonce new) =
     (case rotate_recovery_key P nonce (cr_sealed c) (cr_password c) new of
        Inl e \<Rightarrow> c
      | Inr sealed \<Rightarrow> c\<lparr>cr_sealed := sealed, cr_recovery := new\<rparr>)"

fun event_nonce :: "seal_event \<Rightarrow> bytes" where
  "event_nonce (Change_password salt nonce new) = nonce"
| "event_nonce (Rotate_recovery nonce new) = nonce"

lemma seal_step_opens:
  assumes "good_prims P" "length (event_nonce e) = NONCE_LEN"
    and "opens_to P (cr_sealed c) (cr_password c) (cr_recovery c) master"
  shows "opens_to P (cr_sealed (seal_step P c e)) (cr_password (seal_step P c e)) (cr_recovery (seal_step P c e)) master"
  using assms change_password_opens [OF assms(1) _ assms(3)] rotate_opens [OF assms(1) _ assms(3)]
  by (cases e) (auto split: sum.splits)

lemma seal_run_opens:
  assumes "good_prims P" "\<forall>e \<in> set es. length (event_nonce e) = NONCE_LEN"
    and "opens_to P (cr_sealed c) (cr_password c) (cr_recovery c) master"
  shows "let c' = foldl (seal_step P) c es in opens_to P (cr_sealed c') (cr_password c') (cr_recovery c') master"
  using assms(2,3)
proof (induction es arbitrary: c)
  case (Cons e es)
  then show ?case using seal_step_opens [OF assms(1)] by (simp add: Let_def)
qed simp

text \<open>C33.  The master key survives every change of credentials.  From a freshly sealed record, after
  any sequence of password changes and recovery-key rotations (failed ones leave the record as it
  was), the current password and the current recovery key each unseal exactly the master key the
  account was created with; file ciphertext never has to be rewritten.\<close>
theorem master_key_survives:
  assumes "good_prims P" and "length n1 = 12" and "length n2 = 12" and "length (master_bytes master) = 32"
    and "seal_master_key P salt n1 n2 master password recovery = Inr sealed"
    and "\<forall>e \<in> set es. length (event_nonce e) = 12"
  shows "let c = foldl (seal_step P) \<lparr>cr_sealed = sealed, cr_password = password, cr_recovery = recovery\<rparr> es
    in unseal_with_password P (cr_sealed c) (cr_password c) = Inr master \<and>
       unseal_with_recovery P (cr_sealed c) (cr_recovery c) = Inr master"
proof -
  have "opens_to P sealed password recovery master"
    using assms by (intro seal_opens) (simp_all add: NONCE_LEN_def)
  with seal_run_opens [of P es "\<lparr>cr_sealed = sealed, cr_password = password, cr_recovery = recovery\<rparr>" master]
    assms(1,6) show ?thesis
    by (simp add: opens_to_def NONCE_LEN_def Let_def)
qed

definition demo_recovery :: rstring where
  "demo_recovery = RECOVERY_PREFIX @ toy_hex (replicate 32 5)"

definition demo_master :: master_key where
  "demo_master = MasterKey (replicate 32 3)"

lemma demo_sealed:
  "\<exists>sealed. seal_master_key toy_prims (replicate 16 1) (replicate 12 0) (replicate 12 0) demo_master
     (str ''old'') demo_recovery = Inr sealed"
  by (simp add: seal_master_key_def demo_recovery_def demo_master_def parse_recovery_key_def toy_prims_def
      toy_hex_props RECOVERY_KEY_LEN_def derive_kek_def SALT_LEN_def key_err_def aead_seal_def wrap_as_dek_def)

theorem master_key_survives_witness:
  "\<exists>sealed. let c = foldl (seal_step toy_prims)
       \<lparr>cr_sealed = sealed, cr_password = str ''old'', cr_recovery = demo_recovery\<rparr>
       [Change_password (replicate 16 2) (replicate 12 1) (str ''new'')]
     in unseal_with_password toy_prims (cr_sealed c) (cr_password c) = Inr demo_master"
proof -
  from demo_sealed obtain sealed where s: "seal_master_key toy_prims (replicate 16 1) (replicate 12 0)
    (replicate 12 0) demo_master (str ''old'') demo_recovery = Inr sealed" ..
  have "length (master_bytes demo_master) = 32" by (simp add: demo_master_def)
  from master_key_survives [OF good_toy_prims _ _ this s,
    of "[Change_password (replicate 16 2) (replicate 12 1) (str ''new'')]"]
  show ?thesis by (intro exI [of _ sealed]) (simp add: Let_def)
qed

text \<open>Each operation touches one seal.  A password change keeps the recovery seal and a rotation
  keeps the password seal and its salt, byte for byte; a record of an unknown version is refused
  before any key is derived.\<close>
theorem seals_are_independent:
  "(change_password P salt nonce sealed old new = Inr sealed' \<longrightarrow>
      recovery_sealed_hex sealed' = recovery_sealed_hex sealed) \<and>
   (rotate_recovery_key P nonce sealed old rec = Inr sealed' \<longrightarrow>
      salt_hex sealed' = salt_hex sealed \<and> password_sealed_hex sealed' = password_sealed_hex sealed) \<and>
   (sealed_version sealed \<noteq> 1 \<longrightarrow>
      unseal_with_password P sealed old = Inl (Seal (Unsupported_seal_version (sealed_version sealed))) \<and>
      unseal_with_recovery P sealed rec = Inl (Seal (Unsupported_seal_version (sealed_version sealed))))"
  by (auto simp: change_password_def rotate_recovery_key_def and_then_eq_Inr unseal_with_password_def
      unseal_with_recovery_def check_version_def SEALED_VERSION_def)

theorem seals_are_independent_witness:
  "unseal_with_password toy_prims
     \<lparr>sealed_version = 2, salt_hex = [], password_sealed_hex = [], recovery_sealed_hex = []\<rparr> [] =
   Inl (Seal (Unsupported_seal_version 2))"
  using seals_are_independent [of toy_prims "[]" "[]"
      "\<lparr>sealed_version = 2, salt_hex = [], password_sealed_hex = [], recovery_sealed_hex = []\<rparr>" "[]" "[]" _ "[]"]
  by simp

section \<open>The service key\<close>

datatype service_key_error = Service_io | Service_malformed | Bad_env | Service_absent

text \<open>
  What the calls on \<^verbatim>\<open>config/service.key\<close> return: whether the path exists, the contents seen by the
  \<open>i\<close>-th read of the retry loop, the permission bits, whether the directory can be created and what
  \<^verbatim>\<open>create_new\<close> reports.
\<close>

datatype create_outcome = Created | Already_exists | Create_failed

record key_world =
  kw_exists :: bool
  kw_read :: "nat \<Rightarrow> rstring option"
  kw_mode :: "32 word option"
  kw_mkdir_ok :: bool
  kw_create :: create_outcome

definition parse_key_hex :: "prims \<Rightarrow> rstring \<Rightarrow> service_key option" where
  "parse_key_hex P s =
     (case hex_decode P s of
        None \<Rightarrow> None
      | Some b \<Rightarrow> (case key_from_bytes ServiceKey b of Inl e \<Rightarrow> None | Inr k \<Rightarrow> Some k))"

definition check_permissions :: "key_world \<Rightarrow> service_key_error + unit" where
  "check_permissions w =
     (case kw_mode w of
        None \<Rightarrow> Inl Service_io
      | Some mode \<Rightarrow> if mode AND 63 \<noteq> 0 then Inl Service_malformed else Inr ())"

fun read_attempts :: "prims \<Rightarrow> key_world \<Rightarrow> nat \<Rightarrow> nat \<Rightarrow> service_key_error + service_key" where
  "read_attempts P w i 0 = Inl Service_malformed"
| "read_attempts P w i (Suc n) =
     (case kw_read w i of
        None \<Rightarrow> read_attempts P w (Suc i) n
      | Some contents \<Rightarrow>
          (case parse_key_hex P (trim contents) of
             None \<Rightarrow> read_attempts P w (Suc i) n
           | Some key \<Rightarrow> and_then (check_permissions w) (\<lambda>_. Inr key)))"

definition load_existing_key_with_retry :: "prims \<Rightarrow> key_world \<Rightarrow> service_key_error + service_key" where
  "load_existing_key_with_retry P w = read_attempts P w 0 50"

text \<open>The result, and the text written to a newly created file.\<close>

definition load_or_create_service_key_with ::
  "prims \<Rightarrow> key_world \<Rightarrow> bytes \<Rightarrow> rstring option \<Rightarrow> (service_key_error + service_key) \<times> rstring option" where
  "load_or_create_service_key_with P w generated env_hex =
     (case env_hex of
        Some s \<Rightarrow> (ok_or (parse_key_hex P s) Bad_env, None)
      | None \<Rightarrow>
          if kw_exists w then (load_existing_key_with_retry P w, None)
          else if \<not> kw_mkdir_ok w then (Inl Service_io, None)
          else (case kw_create w of
                  Created \<Rightarrow> (Inr (ServiceKey generated), Some (hex_encode P generated @ [NL]))
                | Already_exists \<Rightarrow> (load_existing_key_with_retry P w, None)
                | Create_failed \<Rightarrow> (Inl Service_io, None)))"

definition load_service_key_with ::
  "prims \<Rightarrow> key_world \<Rightarrow> rstring option \<Rightarrow> service_key_error + service_key" where
  "load_service_key_with P w env_hex =
     (case env_hex of
        Some s \<Rightarrow> ok_or (parse_key_hex P s) Bad_env
      | None \<Rightarrow> if \<not> kw_exists w then Inl Service_absent else load_existing_key_with_retry P w)"

lemma trim_alnum:
  assumes "list_all is_ascii_alphanumeric s"
  shows "trim (s @ [NL]) = s"
proof -
  have no_ws: "\<not> is_whitespace c" if "c \<in> set s" for c
    using that assms
    by (auto simp: list_all_iff is_ascii_alphanumeric_def is_ascii_digit_def is_ascii_lowercase_def
        is_ascii_uppercase_def is_whitespace_def)
  show ?thesis
  proof (cases "s = []")
    case True
    then show ?thesis by (simp add: trim_eq_Nil is_whitespace_def)
  next
    case False
    then obtain c s' where s: "s = c # s'" by (cases s) auto
    have "trim_start (s @ [NL]) = s @ [NL]"
      using no_ws [of c] by (simp add: s trim_start_def)
    moreover have "trim_end (s @ [NL]) = trim_end s" by (rule trim_end_append_ws) (simp add: is_whitespace_def)
    moreover have "trim_end s = s" using no_ws [of "last s"] False by (intro trim_end_id) simp
    ultimately show ?thesis by (simp add: trim_def)
  qed
qed

lemma read_attempts_first:
  "kw_read w i = Some contents \<Longrightarrow> parse_key_hex P (trim contents) = Some key \<Longrightarrow>
   check_permissions w = Inr () \<Longrightarrow> read_attempts P w i (Suc n) = Inr key"
  by simp

lemma read_attempts_permissions: "read_attempts P w i n = Inr key \<Longrightarrow> check_permissions w = Inr ()"
  by (induction P w i n rule: read_attempts.induct)
    (auto simp: and_then_eq_Inr split: option.splits)

text \<open>The service key is stable and private.  The key written at first boot is the key every later
  start loads from the file, if its permissions are still owner-only; a key is never loaded from a
  file whose group or other permission bits are set; and where the creating entry point made a key,
  the load-only one reports it absent instead.\<close>
theorem service_key_stable:
  assumes "good_prims P" and "length generated = 32"
    and "load_or_create_service_key_with P w generated None = (Inr key, Some contents)"
    and "kw_exists w'" and "kw_read w' 0 = Some contents" and "kw_mode w' = Some mode"
  shows "(if mode AND 63 = 0 then load_or_create_service_key_with P w' generated' None = (Inr key, None) \<and>
            load_service_key_with P w' None = Inr key
          else load_service_key_with P w' None = Inl Service_malformed) \<and>
    (kw_exists w = False \<longrightarrow> load_service_key_with P w None = Inl Service_absent)"
proof -
  from assms(3) have key: "key = ServiceKey generated" and c: "contents = hex_encode P generated @ [NL]"
    by (auto simp: load_or_create_service_key_with_def split: if_splits create_outcome.splits)
  have "parse_key_hex P (trim contents) = Some key"
    using assms(1,2) by (simp add: c key trim_alnum good_primsD(7,9) parse_key_hex_def key_from_bytes_def)
  then have "load_existing_key_with_retry P w' = and_then (check_permissions w') (\<lambda>_. Inr key)"
    using assms(5) by (simp add: load_existing_key_with_retry_def numeral_eq_Suc)
  with assms(4,6) show ?thesis
    by (simp add: load_or_create_service_key_with_def load_service_key_with_def check_permissions_def)
qed

theorem service_key_stable_witness:
  "load_service_key_with toy_prims
     \<lparr>kw_exists = True, kw_read = (\<lambda>i. Some (toy_hex (replicate 32 4) @ [NL])), kw_mode = Some 384,
      kw_mkdir_ok = True, kw_create = Created\<rparr> None = Inr (ServiceKey (replicate 32 4))"
proof -
  let ?w = "\<lparr>kw_exists = False, kw_read = (\<lambda>i. None), kw_mode = None, kw_mkdir_ok = True, kw_create = Created\<rparr>"
  let ?w' = "\<lparr>kw_exists = True, kw_read = (\<lambda>i. Some (toy_hex (replicate 32 4) @ [NL])), kw_mode = Some 384,
      kw_mkdir_ok = True, kw_create = Created\<rparr>"
  have "load_or_create_service_key_with toy_prims ?w (replicate 32 4) None =
      (Inr (ServiceKey (replicate 32 4)), Some (toy_hex (replicate 32 4) @ [NL]))"
    by (simp add: load_or_create_service_key_with_def toy_prims_def)
  from service_key_stable [OF good_toy_prims _ this, of ?w' 384 "[]"] show ?thesis by simp
qed

end
