(* ===== verification/File_Repo.thy ===== *)
theory File_Repo
  imports Key_Seal Mutation_Queue
begin

text \<open>
  The encrypted file repository (\<^verbatim>\<open>crates/mycelium-store/src/file_repo.rs\<close>) and the payload blobs of
  the mutation queue kept in it (\<^verbatim>\<open>mutation_queue.rs\<close>).  A directory is a map from file names to
  contents; a write is the sequence of file-system operations the code issues, so that a crash
  between two of them can be described.  The JSON coding of the path metadata is a parameter.
\<close>

section \<open>Scopes and names\<close>

datatype scope = User_scope master_key | Service_scope service_key

definition scope_file_keys :: "prims \<Rightarrow> scope \<Rightarrow> file_keys" where
  "scope_file_keys P sc =
     (case sc of
        User_scope master \<Rightarrow> file_keys_from_master_key P master
      | Service_scope service \<Rightarrow> file_keys_from_service_key P service)"

datatype corruption = Bad_json | Missing_length_prefix | Length_overflow | Truncated_inner

datatype file_repo_error = Not_found | Io | Crypto crypto_error | Path_mismatch rstring
  | Corrupt rstring corruption | Invalid_path rstring

text \<open>\<^verbatim>\<open>serde_json\<close> on \<^verbatim>\<open>PathMeta\<close>: writer and reader of the path it holds.\<close>

record meta_json =
  meta_to_json :: "rstring \<Rightarrow> bytes option"
  meta_from_json :: "bytes \<Rightarrow> rstring option"

definition good_json :: "meta_json \<Rightarrow> bool" where
  "good_json J \<longleftrightarrow> (\<forall>p b. meta_to_json J p = Some b \<longrightarrow> meta_from_json J b = Some p)"

definition validate_path :: "rstring \<Rightarrow> file_repo_error + unit" where
  "validate_path p = (if p = [] \<or> \<not> starts_with p (str ''/'') then Inl (Invalid_path p) else Inr ())"

definition FILE_DEK_INFO :: bytes where "FILE_DEK_INFO = as_bytes (str ''mycelium2/file-dek/v1'')"

definition dek_for_name :: "prims \<Rightarrow> file_keys \<Rightarrow> rstring \<Rightarrow> dek" where
  "dek_for_name P keys name = Dek (hkdf P (dek_bytes (meta_dek keys)) (FILE_DEK_INFO @ as_bytes name))"

section \<open>Reading and writing\<close>

type_synonym directory = "rstring \<rightharpoonup> bytes"

datatype fs_op = Fs_write rstring bytes | Fs_sync rstring | Fs_rename rstring rstring

fun fs_apply :: "fs_op \<Rightarrow> directory \<Rightarrow> directory" where
  "fs_apply (Fs_write name b) d = d(name \<mapsto> b)"
| "fs_apply (Fs_sync name) d = d"
| "fs_apply (Fs_rename a b) d = (case d a of None \<Rightarrow> d | Some c \<Rightarrow> d(b \<mapsto> c, a := None))"

definition fs_run :: "fs_op list \<Rightarrow> directory \<Rightarrow> directory" where
  "fs_run ops d = foldl (\<lambda>d op. fs_apply op d) d ops"

definition crypto_err :: "crypto_error + 'a \<Rightarrow> file_repo_error + 'a" where
  "crypto_err r = (case r of Inl e \<Rightarrow> Inl (Crypto e) | Inr x \<Rightarrow> Inr x)"

text \<open>The stored bytes of a file; \<open>n1\<close>, \<open>n2\<close> are the nonces of the inner and the outer envelope.\<close>

definition stored_bytes ::
  "prims \<Rightarrow> meta_json \<Rightarrow> bytes \<Rightarrow> bytes \<Rightarrow> rstring \<Rightarrow> bytes \<Rightarrow> scope \<Rightarrow> file_repo_error + bytes" where
  "stored_bytes P J n1 n2 path plaintext sc =
     (let keys = scope_file_keys P sc; name = stored_name P keys path in
      and_then (ok_or (meta_to_json J path) (Corrupt name Bad_json)) (\<lambda>meta.
      and_then (crypto_err (aead_seal P n1 meta (as_bytes name) (meta_dek keys))) (\<lambda>inner.
      crypto_err (aead_seal P n2 (le_bytes 8 (length inner) @ inner @ plaintext) (as_bytes name)
        (dek_for_name P keys name)))))"

definition tmp_name :: "rstring \<Rightarrow> rstring \<Rightarrow> rstring" where
  "tmp_name name uuid_text = name @ str ''.tmp-'' @ uuid_text"

definition write_ops ::
  "prims \<Rightarrow> meta_json \<Rightarrow> bytes \<Rightarrow> bytes \<Rightarrow> rstring \<Rightarrow> rstring \<Rightarrow> bytes \<Rightarrow> scope \<Rightarrow> file_repo_error + fs_op list" where
  "write_ops P J n1 n2 uuid_text path plaintext sc =
     and_then (validate_path path) (\<lambda>_.
     and_then (stored_bytes P J n1 n2 path plaintext sc) (\<lambda>outer.
     let name = stored_name P (scope_file_keys P sc) path; tmp = tmp_name name uuid_text in
     Inr [Fs_write tmp outer, Fs_sync tmp, Fs_rename tmp name]))"

definition write_file ::
  "prims \<Rightarrow> meta_json \<Rightarrow> bytes \<Rightarrow> bytes \<Rightarrow> rstring \<Rightarrow> rstring \<Rightarrow> bytes \<Rightarrow> scope \<Rightarrow> directory
   \<Rightarrow> (file_repo_error + unit) \<times> directory" where
  "write_file P J n1 n2 uuid_text path plaintext sc d =
     (case write_ops P J n1 n2 uuid_text path plaintext sc of
        Inl e \<Rightarrow> (Inl e, d)
      | Inr ops \<Rightarrow> (Inr (), fs_run ops d))"

text \<open>Splitting the opened outer plaintext at the length prefix, with checked arithmetic.\<close>

definition split_outer :: "rstring \<Rightarrow> bytes \<Rightarrow> file_repo_error + bytes \<times> bytes" where
  "split_outer name b =
     (if length b < 8 then Inl (Corrupt name Missing_length_prefix)
      else let inner_len = le_value (take 8 b) in
        if inner_len + 8 \<ge> 2 ^ 64 then Inl (Corrupt name Length_overflow)
        else if length b < inner_len + 8 then Inl (Corrupt name Truncated_inner)
        else Inr (take inner_len (drop 8 b), drop (inner_len + 8) b))"

definition read_file ::
  "prims \<Rightarrow> meta_json \<Rightarrow> rstring \<Rightarrow> scope \<Rightarrow> directory \<Rightarrow> file_repo_error + bytes" where
  "read_file P J path sc d =
     and_then (validate_path path) (\<lambda>_.
     let keys = scope_file_keys P sc; name = stored_name P keys path in
     and_then (ok_or (d name) Not_found) (\<lambda>outer.
     and_then (crypto_err (aead_open P outer (as_bytes name) (dek_for_name P keys name))) (\<lambda>outer_plaintext.
     and_then (split_outer name outer_plaintext) (\<lambda>(inner, content).
     and_then (crypto_err (aead_open P inner (as_bytes name) (meta_dek keys))) (\<lambda>meta_json.
     and_then (ok_or (meta_from_json J meta_json) (Corrupt name Bad_json)) (\<lambda>meta_path.
     if meta_path \<noteq> path then Inl (Path_mismatch name) else Inr content))))))"

definition delete_file ::
  "prims \<Rightarrow> rstring \<Rightarrow> scope \<Rightarrow> directory \<Rightarrow> (file_repo_error + unit) \<times> directory" where
  "delete_file P path sc d =
     (case validate_path path of
        Inl e \<Rightarrow> (Inl e, d)
      | Inr _ \<Rightarrow> (Inr (), d(stored_name P (scope_file_keys P sc) path := None)))"

text \<open>\<^verbatim>\<open>str::contains\<close>.\<close>

definition contains_str :: "rstring \<Rightarrow> rstring \<Rightarrow> bool" where
  "contains_str s p \<longleftrightarrow> list_ex (\<lambda>i. starts_with (drop i s) p) [0..<length s + 1]"

text \<open>\<^verbatim>\<open>list\<close> on the names of the directory entries.\<close>

definition list_names :: "rstring list \<Rightarrow> rstring list" where
  "list_names entries =
     sort (filter (\<lambda>n. \<not> (starts_with n (str ''.'') \<or> contains_str n (str ''.tmp-''))) entries)"

section \<open>Round trip\<close>

lemma crypto_err_Inr [simp]: "crypto_err r = Inr x \<longleftrightarrow> r = Inr x"
  by (auto simp: crypto_err_def split: sum.splits)

lemma validate_path_Inr [simp]: "validate_path p = Inr u \<longleftrightarrow> p \<noteq> [] \<and> starts_with p (str ''/'')"
  by (auto simp: validate_path_def)

lemma split_outer_join:
  assumes "length inner + 8 < 2 ^ 64"
  shows "split_outer name (le_bytes 8 (length inner) @ inner @ content) = Inr (inner, content)"
proof -
  have "le_value (le_bytes 8 (length inner)) = length inner"
    using assms by (intro le_value_le_bytes) simp
  with assms show ?thesis by (simp add: split_outer_def Let_def)
qed

lemma split_outer_Inr:
  assumes "split_outer name b = Inr (inner, content)"
  shows "b = le_bytes 8 (length inner) @ inner @ content"
proof -
  let ?k = "le_value (take 8 b)"
  from assms have len: "8 \<le> length b" "?k + 8 \<le> length b"
    and ic: "inner = take ?k (drop 8 b)" "content = drop (?k + 8) b"
    by (auto simp: split_outer_def Let_def split: if_splits)
  then have "length inner = ?k" by simp
  moreover have "le_bytes 8 ?k = take 8 b"
    using le_bytes_le_value [of "take 8 b"] len(1) by (simp add: min_absorb2)
  moreover have "drop 8 b = inner @ content"
    using append_take_drop_id [of ?k "drop 8 b"] ic by (simp add: add.commute)
  ultimately show ?thesis using append_take_drop_id [of 8 b] by metis
qed

text \<open>What \<open>read_file\<close> accepts, spelt out on the stored bytes.\<close>

lemma read_file_Inr:
  "read_file P J path sc d = Inr content \<longleftrightarrow>
     path \<noteq> [] \<and> starts_with path (str ''/'') \<and>
     (\<exists>outer op inner meta. d (stored_name P (scope_file_keys P sc) path) = Some outer \<and>
        aead_open P outer (as_bytes (stored_name P (scope_file_keys P sc) path))
          (dek_for_name P (scope_file_keys P sc) (stored_name P (scope_file_keys P sc) path)) = Inr op \<and>
        split_outer (stored_name P (scope_file_keys P sc) path) op = Inr (inner, content) \<and>
        aead_open P inner (as_bytes (stored_name P (scope_file_keys P sc) path)) (meta_dek (scope_file_keys P sc)) = Inr meta \<and>
        meta_from_json J meta = Some path)"
  by (auto simp: read_file_def Let_def and_then_eq_Inr split: if_splits prod.splits)

lemma stored_bytes_Inr:
  "stored_bytes P J n1 n2 path content sc = Inr outer \<longleftrightarrow>
     (\<exists>meta inner. meta_to_json J path = Some meta \<and>
        aead_seal P n1 meta (as_bytes (stored_name P (scope_file_keys P sc) path)) (meta_dek (scope_file_keys P sc)) = Inr inner \<and>
        aead_seal P n2 (le_bytes 8 (length inner) @ inner @ content)
          (as_bytes (stored_name P (scope_file_keys P sc) path))
          (dek_for_name P (scope_file_keys P sc) (stored_name P (scope_file_keys P sc) path)) = Inr outer)"
  by (auto simp: stored_bytes_def Let_def and_then_eq_Inr)

lemma read_stored:
  assumes "good_prims P" "good_json J" "length n1 = NONCE_LEN" "length n2 = NONCE_LEN"
    and "path \<noteq> []" "starts_with path (str ''/'')" "length outer < 2 ^ 64"
    and "stored_bytes P J n1 n2 path content sc = Inr outer"
    and "d (stored_name P (scope_file_keys P sc) path) = Some outer"
  shows "read_file P J path sc d = Inr content"
proof -
  from assms(8) obtain meta inner where m: "meta_to_json J path = Some meta"
    "aead_seal P n1 meta (as_bytes (stored_name P (scope_file_keys P sc) path)) (meta_dek (scope_file_keys P sc)) = Inr inner"
    "aead_seal P n2 (le_bytes 8 (length inner) @ inner @ content)
      (as_bytes (stored_name P (scope_file_keys P sc) path))
      (dek_for_name P (scope_file_keys P sc) (stored_name P (scope_file_keys P sc) path)) = Inr outer"
    by (auto simp: stored_bytes_Inr)
  have "length outer = EMPTY_ENVELOPE_LEN + (8 + (length inner + length content))"
    using aead_box.seal_length [OF assms(1,4) m(3)] by simp
  with assms(7) have "length inner + 8 < 2 ^ 64" by simp
  then have "split_outer name (le_bytes 8 (length inner) @ inner @ content) = Inr (inner, content)" for name
    by (rule split_outer_join)
  then show ?thesis
    unfolding read_file_Inr
    using assms(2,5,6,9) m(1) aead_box.open_seal [OF assms(1,3) m(2)] aead_box.open_seal [OF assms(1,4) m(3)]
    by (auto simp: good_json_def)
qed

text \<open>Stored names are 64 characters, temporary names are longer.\<close>

lemma stored_name_length: "good_prims P \<Longrightarrow> length (stored_name P keys path) = 64"
  by (simp add: stored_name_def good_primsD(5,8))

lemma stored_name_not_tmp: "good_prims P \<Longrightarrow> stored_name P keys path \<noteq> tmp_name (stored_name P keys' path') u"
  by (auto dest!: arg_cong [of _ _ length] simp: stored_name_length tmp_name_def)

lemma write_ops_Inr:
  "write_ops P J n1 n2 u path plaintext sc = Inr ops \<longleftrightarrow>
     path \<noteq> [] \<and> starts_with path (str ''/'') \<and>
     (\<exists>outer. stored_bytes P J n1 n2 path plaintext sc = Inr outer \<and>
        ops = [Fs_write (tmp_name (stored_name P (scope_file_keys P sc) path) u) outer,
               Fs_sync (tmp_name (stored_name P (scope_file_keys P sc) path) u),
               Fs_rename (tmp_name (stored_name P (scope_file_keys P sc) path) u) (stored_name P (scope_file_keys P sc) path)])"
  by (auto simp: write_ops_def and_then_eq_Inr Let_def)

lemma fs_run_write:
  "fs_run [Fs_write tmp outer, Fs_sync tmp, Fs_rename tmp name] d = d(name \<mapsto> outer, tmp := None)"
  by (auto simp: fs_run_def fun_eq_iff)

lemma read_file_cong:
  "d (stored_name P (scope_file_keys P sc) path) = d' (stored_name P (scope_file_keys P sc) path) \<Longrightarrow>
   read_file P J path sc d = read_file P J path sc d'"
  by (simp add: read_file_def Let_def)

text \<open>A file of the repository fits in the 64-bit address space.\<close>

definition fits :: "directory \<Rightarrow> bool" where
  "fits d \<longleftrightarrow> (\<forall>name b. d name = Some b \<longrightarrow> length b < 2 ^ 64)"

lemma write_then_read:
  assumes "good_prims P" "good_json J" "length n1 = NONCE_LEN" "length n2 = NONCE_LEN"
    and w: "write_file P J n1 n2 u path plaintext sc d = (Inr (), d')" and "fits d'"
  shows "read_file P J path sc d' = Inr plaintext"
    and "stored_name P (scope_file_keys P sc') path' \<noteq> stored_name P (scope_file_keys P sc) path \<Longrightarrow>
      read_file P J path' sc' d' = read_file P J path' sc' d"
proof -
  let ?name = "stored_name P (scope_file_keys P sc) path"
  from w obtain ops where ops: "write_ops P J n1 n2 u path plaintext sc = Inr ops" "d' = fs_run ops d"
    by (auto simp: write_file_def split: sum.splits)
  then obtain outer where o: "path \<noteq> []" "starts_with path (str ''/'')"
    "stored_bytes P J n1 n2 path plaintext sc = Inr outer"
    and d': "d' = d(?name \<mapsto> outer, tmp_name ?name u := None)"
    by (auto simp: write_ops_Inr fs_run_write)
  have "d' ?name = Some outer" using stored_name_not_tmp [OF assms(1)] by (simp add: d')
  moreover from this assms(6) have "length outer < 2 ^ 64" unfolding fits_def by blast
  ultimately show "read_file P J path sc d' = Inr plaintext"
    using read_stored [OF assms(1-4) o(1,2) _ o(3)] by blast
  show "read_file P J path' sc' d' = read_file P J path' sc' d"
    if "stored_name P (scope_file_keys P sc') path' \<noteq> ?name"
    by (rule read_file_cong) (use that stored_name_not_tmp [OF assms(1)] in \<open>simp add: d'\<close>)
qed

text \<open>The repository is a keyed store.  After a successful write, reading the same path in the same
  scope returns exactly the bytes written, and reading any path whose stored name differs returns
  what it returned before, in every scope; after a delete the path is not found.\<close>
theorem repo_write_read:
  assumes "good_prims P" and "good_json J" and "length n1 = 12" and "length n2 = 12"
    and "write_file P J n1 n2 u path plaintext sc d = (Inr (), d')" and "fits d'"
  shows "read_file P J path sc d' = Inr plaintext \<and>
    (stored_name P (scope_file_keys P sc') path' \<noteq> stored_name P (scope_file_keys P sc) path \<longrightarrow>
       read_file P J path' sc' d' = read_file P J path' sc' d) \<and>
    read_file P J path sc (snd (delete_file P path sc d')) = Inl Not_found"
proof -
  have "path \<noteq> [] \<and> starts_with path (str ''/'')"
    using assms(5) by (auto simp: write_file_def write_ops_Inr split: sum.splits)
  then have "read_file P J path sc (snd (delete_file P path sc d')) = Inl Not_found"
    by (simp add: delete_file_def validate_path_def read_file_def Let_def)
  then show ?thesis
    using write_then_read [OF assms(1,2) _ _ assms(5,6)] assms(3,4) by (simp add: NONCE_LEN_def)
qed

definition ascii_json :: meta_json where
  "ascii_json = \<lparr>meta_to_json = (\<lambda>p. if list_all is_scalar p then Some (as_bytes p) else None),
                 meta_from_json = from_utf8\<rparr>"

lemma good_ascii_json: "good_json ascii_json"
  by (auto simp: good_json_def ascii_json_def from_utf8_as_bytes split: if_splits)

definition demo_scope :: scope where "demo_scope = User_scope (MasterKey (replicate 32 3))"

lemma demo_write:
  "\<exists>d'. write_file toy_prims ascii_json (replicate 12 0) (replicate 12 0) [] (str ''/a'') [1, 2] demo_scope Map.empty
     = (Inr (), d') \<and> fits d'"
proof -
  have "\<exists>outer. stored_bytes toy_prims ascii_json (replicate 12 0) (replicate 12 0) (str ''/a'') [1, 2] demo_scope = Inr outer
      \<and> length outer < 2 ^ 64"
    by (simp add: stored_bytes_def Let_def ascii_json_def is_scalar_def aead_seal_def demo_scope_def scope_file_keys_def
        file_keys_from_master_key_def derive_dek_from_def dek_for_name_def crypto_err_def toy_prims_def to_bytes_def
        utf8_char_def)
  then obtain outer where "stored_bytes toy_prims ascii_json (replicate 12 0) (replicate 12 0) (str ''/a'') [1, 2] demo_scope = Inr outer"
    "length outer < 2 ^ 64" by blast
  then show ?thesis
    by (auto simp: write_file_def write_ops_def validate_path_def starts_with_def fs_run_write Let_def fits_def)
qed

theorem repo_write_read_witness:
  "\<exists>d'. write_file toy_prims ascii_json (replicate 12 0) (replicate 12 0) [] (str ''/a'') [1, 2] demo_scope Map.empty
     = (Inr (), d') \<and> read_file toy_prims ascii_json (str ''/a'') demo_scope d' = Inr [1, 2]"
proof -
  from demo_write obtain d' where d': "write_file toy_prims ascii_json (replicate 12 0) (replicate 12 0) [] (str ''/a'')
    [1, 2] demo_scope Map.empty = (Inr (), d')" "fits d'" by blast
  from repo_write_read [OF good_toy_prims good_ascii_json _ _ d'] d'(1) show ?thesis by auto
qed

text \<open>C34.  Nothing but a genuine file is read.  When a read succeeds, the stored bytes are an outer
  envelope made for that stored name, around an inner envelope made for that name whose metadata
  names the requested path, followed by exactly the content returned; a file that was changed, or
  put in the place of another, is refused.\<close>
theorem repo_read_authentic:
  assumes "good_prims P" and "read_file P J path sc d = Inr content"
  shows "\<exists>outer inner meta n1 n2.
    d (stored_name P (scope_file_keys P sc) path) = Some outer \<and> length n1 = 12 \<and> length n2 = 12 \<and>
    meta_from_json J meta = Some path \<and>
    aead_seal P n1 meta (as_bytes (stored_name P (scope_file_keys P sc) path)) (meta_dek (scope_file_keys P sc)) = Inr inner \<and>
    aead_seal P n2 (le_bytes 8 (length inner) @ inner @ content)
      (as_bytes (stored_name P (scope_file_keys P sc) path))
      (dek_for_name P (scope_file_keys P sc) (stored_name P (scope_file_keys P sc) path)) = Inr outer"
proof -
  from assms(2) obtain outer opened inner meta where r:
    "d (stored_name P (scope_file_keys P sc) path) = Some outer"
    "aead_open P outer (as_bytes (stored_name P (scope_file_keys P sc) path))
       (dek_for_name P (scope_file_keys P sc) (stored_name P (scope_file_keys P sc) path)) = Inr opened"
    "split_outer (stored_name P (scope_file_keys P sc) path) opened = Inr (inner, content)"
    "aead_open P inner (as_bytes (stored_name P (scope_file_keys P sc) path)) (meta_dek (scope_file_keys P sc)) = Inr meta"
    "meta_from_json J meta = Some path"
    by (auto simp: read_file_Inr)
  with aead_box.open_genuine [OF assms(1) r(2)] aead_box.open_genuine [OF assms(1) r(4)] split_outer_Inr [OF r(3)]
  show ?thesis by (auto simp: NONCE_LEN_def)
qed

theorem repo_read_authentic_witness:
  "\<exists>d' outer. read_file toy_prims ascii_json (str ''/a'') demo_scope d' = Inr [1, 2] \<and>
     d' (stored_name toy_prims (scope_file_keys toy_prims demo_scope) (str ''/a'')) = Some outer"
proof -
  from demo_write obtain d' where d': "write_file toy_prims ascii_json (replicate 12 0) (replicate 12 0) [] (str ''/a'')
    [1, 2] demo_scope Map.empty = (Inr (), d')" "fits d'" by blast
  have "read_file toy_prims ascii_json (str ''/a'') demo_scope d' = Inr [1, 2]"
    using write_then_read(1) [OF good_toy_prims good_ascii_json _ _ d'] by (simp add: NONCE_LEN_def)
  with repo_read_authentic [OF good_toy_prims this] show ?thesis by blast
qed



section \<open>Payloads of queued mutations\<close>

text \<open>\<^verbatim>\<open>serde_json\<close> on \<^verbatim>\<open>MutationPayload\<close>, and the \<^verbatim>\<open>Display\<close> of identifiers.\<close>

record payload_json =
  pl_show_uuid :: "uuid \<Rightarrow> rstring"
  payload_to_json :: "mutation_payload \<Rightarrow> bytes option"
  payload_from_json :: "bytes \<Rightarrow> mutation_payload option"

definition good_payload_json :: "payload_json \<Rightarrow> bool" where
  "good_payload_json L \<longleftrightarrow> (\<forall>c b. payload_to_json L c = Some b \<longrightarrow> payload_from_json L b = Some c)"

definition write_payload ::
  "prims \<Rightarrow> meta_json \<Rightarrow> payload_json \<Rightarrow> bytes \<Rightarrow> bytes \<Rightarrow> rstring \<Rightarrow> master_key \<Rightarrow> uuid \<Rightarrow> mutation_payload
   \<Rightarrow> directory \<Rightarrow> (file_repo_error + unit) \<times> directory" where
  "write_payload P J L n1 n2 u master qid content d =
     (case payload_to_json L content of
        None \<Rightarrow> (Inl Io, d)
      | Some b \<Rightarrow> write_file P J n1 n2 u (payload_path (pl_show_uuid L) qid) b (User_scope master) d)"

definition read_payload ::
  "prims \<Rightarrow> meta_json \<Rightarrow> payload_json \<Rightarrow> master_key \<Rightarrow> uuid \<Rightarrow> directory \<Rightarrow> file_repo_error + mutation_payload option" where
  "read_payload P J L master qid d =
     (case read_file P J (payload_path (pl_show_uuid L) qid) (User_scope master) d of
        Inr b \<Rightarrow> Inr (payload_from_json L b)
      | Inl Not_found \<Rightarrow> Inr None
      | Inl e \<Rightarrow> Inl e)"

text \<open>A staged payload is what the drain reads back.  After a successful \<^verbatim>\<open>write_payload\<close> the payload
  of that identifier reads back unchanged, payloads of identifiers stored under other names read as
  before, and a payload that was never written reads as absent, not as an error.\<close>
theorem payload_roundtrip:
  assumes "good_prims P" and "good_json J" and "length n1 = 12" and "length n2 = 12"
    and json: "good_payload_json L"
    and w: "write_payload P J L n1 n2 u master qid content d = (Inr (), d')" and "fits d'"
  shows "read_payload P J L master qid d' = Inr (Some content) \<and>
    (stored_name P (scope_file_keys P (User_scope master')) (payload_path (pl_show_uuid L) qid') \<noteq>
       stored_name P (scope_file_keys P (User_scope master)) (payload_path (pl_show_uuid L) qid) \<longrightarrow>
       read_payload P J L master' qid' d' = read_payload P J L master' qid' d) \<and>
    read_payload P J L master qid Map.empty = Inr None"
proof -
  from w obtain b where b: "payload_to_json L content = Some b"
    "write_file P J n1 n2 u (payload_path (pl_show_uuid L) qid) b (User_scope master) d = (Inr (), d')"
    by (auto simp: write_payload_def split: option.splits)
  have n: "length n1 = NONCE_LEN" "length n2 = NONCE_LEN" using assms(3,4) by (simp_all add: NONCE_LEN_def)
  note wr = write_then_read [OF assms(1,2) n b(2) assms(7)]
  have "read_file P J (payload_path (pl_show_uuid L) qid) (User_scope master) Map.empty = Inl Not_found"
    by (simp add: read_file_def validate_path_def payload_path_def starts_with_def Let_def)
  with wr json b(1) show ?thesis by (simp add: read_payload_def good_payload_json_def)
qed

definition toy_payload_json :: payload_json where
  "toy_payload_json = \<lparr>pl_show_uuid = show_nat,
     payload_to_json = (\<lambda>c. if c = \<lparr>mp_tool = Add, mp_args_json = [], mp_content = str ''x''\<rparr> then Some [1] else None),
     payload_from_json = (\<lambda>b. if b = [1] then Some \<lparr>mp_tool = Add, mp_args_json = [], mp_content = str ''x''\<rparr> else None)\<rparr>"

theorem payload_roundtrip_witness:
  "\<exists>d'. read_payload toy_prims ascii_json toy_payload_json (MasterKey (replicate 32 3)) 5 d' =
     Inr (Some \<lparr>mp_tool = Add, mp_args_json = [], mp_content = str ''x''\<rparr>)"
proof -
  let ?c = "\<lparr>mp_tool = Add, mp_args_json = [], mp_content = str ''x''\<rparr>"
  let ?m = "MasterKey (replicate 32 3)"
  have "\<exists>outer. stored_bytes toy_prims ascii_json (replicate 12 0) (replicate 12 0)
      (payload_path show_nat 5) [1] (User_scope ?m) = Inr outer \<and> length outer < 2 ^ 64"
    by (simp add: stored_bytes_def Let_def ascii_json_def is_scalar_def aead_seal_def scope_file_keys_def
        file_keys_from_master_key_def derive_dek_from_def dek_for_name_def crypto_err_def toy_prims_def to_bytes_def
        utf8_char_def payload_path_def show_nat.simps [of 5])
  then obtain outer where "stored_bytes toy_prims ascii_json (replicate 12 0) (replicate 12 0)
      (payload_path show_nat 5) [1] (User_scope ?m) = Inr outer" "length outer < 2 ^ 64" by blast
  then obtain d' where "write_payload toy_prims ascii_json toy_payload_json (replicate 12 0) (replicate 12 0) [] ?m 5 ?c
      Map.empty = (Inr (), d')" "fits d'"
    by (auto simp: write_payload_def toy_payload_json_def write_file_def write_ops_def validate_path_def
        payload_path_def starts_with_def fs_run_write Let_def fits_def split: if_splits)
  moreover have "good_payload_json toy_payload_json"
    by (auto simp: good_payload_json_def toy_payload_json_def split: if_splits)
  ultimately show ?thesis
    using payload_roundtrip [OF good_toy_prims good_ascii_json, of "replicate 12 0" "replicate 12 0"]
    by (meson length_replicate)
qed

end
