(* ===== verification/Queue_Worker.thy ===== *)
theory Queue_Worker
  imports Queue_Events Llm_Client Hot_Memory File_Repo
begin

text \<open>
  The drain of the mutation queue, \<^verbatim>\<open>crates/mycelium-librarian/src/queue_worker.rs\<close>, and the enqueue
  path that feeds it (\<^verbatim>\<open>enqueue_mutation\<close> and \<^verbatim>\<open>abandon_row\<close> of \<^verbatim>\<open>crates/mycelium-mcp/src/tools.rs\<close>).
  The state is the queue table, the LLM gate, the directories with the payload blobs, the concept
  store with the hot memory, and the counters.  An operation returns its result and the new state.

  The agent run, the deterministic fallback writes and the concept store are parameters over a
  state \<open>'c\<close> of their own; the agent and the fallback cannot reach the payload blobs, whose paths are
  reserved.  What varies from one turn of the drain to the next (clock readings, backend health,
  whether the master key can be recovered, what the agent run returns) is the record
  \<open>drain_turn\<close>; theorems hold for every such record.
\<close>

section \<open>Limits and errors\<close>

record queue_limits =
  ql_capacity :: nat
  ql_drain_step_cap :: nat
  ql_max_attempts :: nat
  ql_age_deadline_secs :: int
  ql_depth_cap :: nat
  ql_backoff_secs :: "int list"
  ql_sweep_secs :: nat

definition default_limits :: queue_limits where
  "default_limits = \<lparr>ql_capacity = 2, ql_drain_step_cap = 12, ql_max_attempts = 3,
     ql_age_deadline_secs = 600, ql_depth_cap = 50, ql_backoff_secs = [30, 60, 120], ql_sweep_secs = 60\<rparr>"

text \<open>\<^verbatim>\<open>ConceptStoreError\<close>: the worker tells \<^verbatim>\<open>NotFound\<close> from the rest, which carry their text.\<close>

datatype concept_store_error = Cs_not_found rstring | Cs_other rstring

datatype agent_error =
    Agent_store concept_store_error
  | Agent_llm llm_error
  | StepCapExceeded
  | BadToolArgs rstring rstring

text \<open>The \<^verbatim>\<open>Display\<close> of these errors, as declared by their \<^verbatim>\<open>#[error]\<close> attributes.\<close>

fun show_store_error :: "concept_store_error \<Rightarrow> rstring" where
  "show_store_error (Cs_not_found p) = str ''concept not found: '' @ p"
| "show_store_error (Cs_other t) = t"

fun show_agent_error :: "agent_error \<Rightarrow> rstring" where
  "show_agent_error (Agent_store e) = str ''store error: '' @ show_store_error e"
| "show_agent_error (Agent_llm e) = str ''LLM error: '' @ show_llm_error e"
| "show_agent_error StepCapExceeded = str ''agent step cap exceeded''"
| "show_agent_error (BadToolArgs name reason) =
     str ''tool '' @ name @ str '' returned invalid arguments: '' @ reason"

fun agent_is_backend_down :: "agent_error \<Rightarrow> bool" where
  "agent_is_backend_down (Agent_llm e) = is_backend_down e"
| "agent_is_backend_down (Agent_store _) = False"
| "agent_is_backend_down StepCapExceeded = False"
| "agent_is_backend_down (BadToolArgs _ _) = False"

fun is_transient :: "agent_error \<Rightarrow> bool" where
  "is_transient StepCapExceeded = True"
| "is_transient (Agent_llm EmptyResponse) = True"
| "is_transient (Agent_llm e) = is_backend_down e"
| "is_transient _ = False"

datatype queue_worker_error =
    Worker_queue queue_error
  | Worker_store concept_store_error
  | Worker_file file_repo_error

record mutation_result =
  mr_summary :: rstring
  mr_files_changed :: "rstring list"
  mr_steps :: nat

text \<open>What the awaited run leaves: its result, or the payload of a caught panic.\<close>

datatype panic_payload = Panic_str rstring | Panic_string rstring | Panic_other
datatype run_outcome = Returned "agent_error + mutation_result" | Panicked panic_payload

fun panic_message :: "panic_payload \<Rightarrow> rstring" where
  "panic_message (Panic_str s) = s"
| "panic_message (Panic_string s) = s"
| "panic_message Panic_other = str ''non-string panic payload''"

fun caught_run :: "run_outcome \<Rightarrow> agent_error + mutation_result" where
  "caught_run (Returned r) = r"
| "caught_run (Panicked p) =
     Inl (BadToolArgs (str ''(panic)'') (str ''agent run panicked: '' @ panic_message p))"

section \<open>State and parameters\<close>

record 'c sys =
  sy_db :: qstore
  sy_gate :: gate
  sy_dirs :: "uuid \<Rightarrow> directory"
  sy_concepts :: "'c \<times> hot_global"
  sy_fallback_count :: "64 word"
  sy_dead_count :: "64 word"
  sy_integrated_count :: "64 word"

text \<open>
  The concept store, for a user with a master key (and, where the code sets it, the provenance of
  the item), and the fallback writes of \<^verbatim>\<open>fallback.rs\<close>, which also keep the hot memory coherent.
\<close>

record 'c concept_api =
  ca_list :: "uuid \<Rightarrow> master_key \<Rightarrow> 'c \<Rightarrow> concept_store_error + rstring list"
  ca_get :: "uuid \<Rightarrow> master_key \<Rightarrow> rstring \<Rightarrow> 'c \<Rightarrow> concept_store_error + unit"
  ca_delete_internal :: "uuid \<Rightarrow> master_key \<Rightarrow> rstring \<Rightarrow> 'c \<Rightarrow> (concept_store_error + unit) \<times> 'c"
  ca_put_note :: "uuid \<Rightarrow> master_key \<Rightarrow> rstring \<Rightarrow> rstring \<Rightarrow> 'c \<Rightarrow> (concept_store_error + unit) \<times> 'c"
  direct_write_add :: "uuid \<Rightarrow> master_key \<Rightarrow> rstring \<Rightarrow> rstring \<Rightarrow> rstring option \<Rightarrow> rstring option \<Rightarrow>
    rstring option \<Rightarrow> 'c \<times> hot_global \<Rightarrow> (concept_store_error + rstring) \<times> ('c \<times> hot_global)"
  dated_addendum_update :: "uuid \<Rightarrow> master_key \<Rightarrow> rstring \<Rightarrow> rstring \<Rightarrow> rstring option \<Rightarrow>
    'c \<times> hot_global \<Rightarrow> (concept_store_error + rstring) \<times> ('c \<times> hot_global)"
  wire_and_flag_maintain :: "uuid \<Rightarrow> master_key \<Rightarrow> rstring \<Rightarrow>
    'c \<times> hot_global \<Rightarrow> (concept_store_error + rstring) \<times> ('c \<times> hot_global)"

text \<open>
  The library code around the worker: cryptographic primitives, the JSON readers and writers, the
  text form of identifiers, the text of file errors, and \<open>we_arg\<close>, the string member of a JSON object.
\<close>

record 'c worker_env =
  we_prims :: prims
  we_meta :: meta_json
  we_payload :: payload_json
  we_parse_uuid :: "rstring \<Rightarrow> uuid option"
  we_to_json :: "rstring list \<Rightarrow> rstring option"
  we_show_file_error :: "file_repo_error \<Rightarrow> rstring"
  we_arg :: "rstring \<Rightarrow> rstring \<Rightarrow> rstring option"
  we_cs :: "'c concept_api"

record 'c drain_turn =
  dt_scan_at :: timestamp
  dt_claim_at :: timestamp
  dt_age_at :: timestamp
  dt_done_at :: timestamp
  dt_health :: backend_state
  dt_recover :: "uuid \<Rightarrow> rstring + master_key"
  dt_run :: "mutation_queue_item \<Rightarrow> master_key \<Rightarrow> mutation_payload \<Rightarrow> 'c \<times> hot_global \<Rightarrow>
    run_outcome \<times> ('c \<times> hot_global)"

definition nanos :: "int \<Rightarrow> int" where "nanos secs = secs * 1000000000"

definition add_secs :: "timestamp \<Rightarrow> int \<Rightarrow> timestamp" where
  "add_secs t secs = nat (int t + nanos secs)"

text \<open>
  \<^verbatim>\<open>age_past\<close>: whole seconds since the enqueue, rounded towards zero.  Timestamps of the model are
  parsed instants, so the branch for an unreadable \<^verbatim>\<open>created_at\<close> does not arise.
\<close>

definition secs_since :: "timestamp \<Rightarrow> timestamp \<Rightarrow> int" where
  "secs_since now t = (if t \<le> now then int ((now - t) div 10 ^ 9) else - int ((t - now) div 10 ^ 9))"

definition age_past :: "timestamp \<Rightarrow> mutation_queue_item \<Rightarrow> int" where
  "age_past now item = secs_since now (mi_created_at item)"

section \<open>Cleanup\<close>

text \<open>A queue statement; its error is wrapped as the worker's.\<close>

definition queue_db ::
  "(qstore \<Rightarrow> (queue_error + 'a) \<times> qstore) \<Rightarrow> 'c sys \<Rightarrow> (queue_worker_error + 'a) \<times> 'c sys" where
  "queue_db f w =
     (case f (sy_db w) of (r, db) \<Rightarrow> (map_sum Worker_queue (\<lambda>x. x) r, w\<lparr>sy_db := db\<rparr>))"

text \<open>\<^verbatim>\<open>drop(permit)\<close>.\<close>

definition drop_slot :: "timestamp \<Rightarrow> 'c sys \<Rightarrow> 'c sys" where
  "drop_slot t w = w\<lparr>sy_gate := drop_permit t None (sy_gate w)\<rparr>"

text \<open>\<^verbatim>\<open>delete_payload\<close>: best effort, an error is only logged.\<close>

definition delete_payload :: "'c worker_env \<Rightarrow> uuid \<Rightarrow> master_key \<Rightarrow> uuid \<Rightarrow> 'c sys \<Rightarrow> 'c sys" where
  "delete_payload E uid master qid w =
     (case delete_file (we_prims E) (payload_path (pl_show_uuid (we_payload E)) qid) (User_scope master)
             (sy_dirs w uid) of
        (_, d) \<Rightarrow> w\<lparr>sy_dirs := (sy_dirs w)(uid := d)\<rparr>)"

definition user_scope_id :: "'c worker_env \<Rightarrow> uuid \<Rightarrow> rstring" where
  "user_scope_id E uid = str ''user:'' @ pl_show_uuid (we_payload E) uid"

definition delete_staging_note ::
  "'c worker_env \<Rightarrow> uuid \<Rightarrow> master_key \<Rightarrow> uuid \<Rightarrow> 'c sys \<Rightarrow> (concept_store_error + unit) \<times> 'c sys" where
  "delete_staging_note E uid master qid w =
     (let path = stage_note_path (pl_show_uuid (we_payload E)) qid; (cs, hot) = sy_concepts w in
      case ca_get (we_cs E) uid master path cs of
        Inr _ \<Rightarrow>
          (case ca_delete_internal (we_cs E) uid master path cs of
             (Inl e, cs') \<Rightarrow> (Inl e, w\<lparr>sy_concepts := (cs', hot)\<rparr>)
           | (Inr _, cs') \<Rightarrow>
               (Inr (), w\<lparr>sy_concepts := (cs', record_hot_delete (user_scope_id E uid) path hot)\<rparr>))
      | Inl (Cs_not_found _) \<Rightarrow> (Inr (), w)
      | Inl e \<Rightarrow> (Inl e, w))"

definition note_id :: "'c worker_env \<Rightarrow> rstring \<Rightarrow> uuid option" where
  "note_id E path =
     (if starts_with path (str ''/mutation-queue/'')
      then we_parse_uuid E (trim_end_matches (str ''.md'') (trim_start_matches (str ''/mutation-queue/'') path))
      else None)"

fun reconcile_entries ::
  "'c worker_env \<Rightarrow> uuid \<Rightarrow> master_key \<Rightarrow> rstring list \<Rightarrow> 'c sys \<Rightarrow> 'c sys" where
  "reconcile_entries E uid master [] w = w"
| "reconcile_entries E uid master (path # paths) w =
     reconcile_entries E uid master paths
       (case note_id E path of
          None \<Rightarrow> w
        | Some qid \<Rightarrow>
            (case queue_item uid qid (sy_db w) of
               Inr (Some item) \<Rightarrow>
                 if mi_status item = Done \<or> mi_status item = Dead
                 then snd (delete_staging_note E uid master qid w) else w
             | _ \<Rightarrow> w))"

definition reconcile_notes :: "'c worker_env \<Rightarrow> 'c drain_turn \<Rightarrow> uuid \<Rightarrow> 'c sys \<Rightarrow> 'c sys" where
  "reconcile_notes E T uid w =
     (case dt_recover T uid of
        Inl _ \<Rightarrow> w
      | Inr master \<Rightarrow>
          (case ca_list (we_cs E) uid master (fst (sy_concepts w)) of
             Inl _ \<Rightarrow> w
           | Inr paths \<Rightarrow> reconcile_entries E uid master paths w))"

section \<open>Settling an item\<close>

definition payload_missing_at_claim :: rstring where
  "payload_missing_at_claim = str ''payload missing '' @ [8212]
     @ str '' enqueue interrupted before durability; re-submit the mutation''"

definition payload_missing_at_recovery :: rstring where
  "payload_missing_at_recovery = str ''payload missing '' @ [8212]
     @ str '' enqueue interrupted before durability; re-submit''"

definition mark_item_dead ::
  "'c drain_turn \<Rightarrow> uuid \<Rightarrow> rstring \<Rightarrow> 'c sys \<Rightarrow> (queue_worker_error + unit) \<times> 'c sys" where
  "mark_item_dead T qid detail w = queue_db (mark_dead (dt_done_at T) qid detail) w"

text \<open>The trailing \<^verbatim>\<open>delete_staging_note(..)?\<close> and the counter.\<close>

definition finish_note ::
  "'c worker_env \<Rightarrow> mutation_queue_item \<Rightarrow> master_key \<Rightarrow> ('c sys \<Rightarrow> 'c sys) \<Rightarrow> 'c sys
   \<Rightarrow> (queue_worker_error + unit) \<times> 'c sys" where
  "finish_note E item master bump w =
     (case delete_staging_note E (mi_user_id item) master (mi_id item) w of
        (Inl e, w') \<Rightarrow> (Inl (Worker_store e), w')
      | (Inr _, w') \<Rightarrow> (Inr (), bump w'))"

definition finish_success ::
  "'c worker_env \<Rightarrow> 'c drain_turn \<Rightarrow> mutation_queue_item \<Rightarrow> master_key \<Rightarrow> mutation_result \<Rightarrow> 'c sys
   \<Rightarrow> (queue_worker_error + unit) \<times> 'c sys" where
  "finish_success E T item master res w =
     (case queue_db (mark_done (we_to_json E) (dt_done_at T) (mi_id item) (mr_files_changed res)
             (short_detail (mr_summary res))) w of
        (Inl e, w1) \<Rightarrow> (Inl e, w1)
      | (Inr _, w1) \<Rightarrow>
          finish_note E item master (\<lambda>w. w\<lparr>sy_integrated_count := sy_integrated_count w + 1\<rparr>)
            (delete_payload E (mi_user_id item) master (mi_id item) w1))"

text \<open>The \<^verbatim>\<open>match payload.tool\<close> of \<^verbatim>\<open>run_fallback\<close>.  The outer error is the one that \<^verbatim>\<open>?\<close> returns at once.\<close>

definition sym_diff :: "rstring list \<Rightarrow> rstring list \<Rightarrow> rstring list" where
  "sym_diff after before =
     sort (remdups (filter (\<lambda>p. p \<notin> set before) after @ filter (\<lambda>p. p \<notin> set after) before))"

definition fallback_outcome ::
  "'c worker_env \<Rightarrow> mutation_queue_item \<Rightarrow> master_key \<Rightarrow> mutation_payload \<Rightarrow> 'c \<times> hot_global
   \<Rightarrow> (concept_store_error + (concept_store_error + rstring list)) \<times> ('c \<times> hot_global)" where
  "fallback_outcome E item master payload c =
     (let arg = (\<lambda>key. we_arg E (mp_args_json payload) (str key)); uid = mi_user_id item;
          source = mi_source item in
      case mp_tool payload of
        Add \<Rightarrow>
          (case direct_write_add (we_cs E) uid master source (mp_content payload)
                  (arg ''path'') (arg ''shelf'') (arg ''concept_type'') c of
             (r, c') \<Rightarrow> (Inr (map_sum (\<lambda>e. e) (\<lambda>p. [p]) r), c'))
      | Update \<Rightarrow>
          (case dated_addendum_update (we_cs E) uid master source (mp_content payload) (arg ''path'') c of
             (r, c') \<Rightarrow> (Inr (map_sum (\<lambda>e. e) (\<lambda>p. [p]) r), c'))
      | Maintain \<Rightarrow>
          (case ca_list (we_cs E) uid master (fst c) of
             Inl e \<Rightarrow> (Inl e, c)
           | Inr before \<Rightarrow>
               (case wire_and_flag_maintain (we_cs E) uid master source c of
                  (Inl e, c') \<Rightarrow> (Inl e, c')
                | (Inr _, c') \<Rightarrow>
                    (case ca_list (we_cs E) uid master (fst c') of
                       Inl e \<Rightarrow> (Inl e, c')
                     | Inr after \<Rightarrow> (Inr (Inr (sym_diff after before)), c')))))"

definition fallback_done_detail :: "rstring \<Rightarrow> rstring" where
  "fallback_done_detail provenance =
     str ''integrated via deterministic fallback ('' @ provenance @ str '')''"

definition count_dead :: "'c sys \<Rightarrow> 'c sys" where
  "count_dead w = w\<lparr>sy_dead_count := sy_dead_count w + 1\<rparr>"

definition count_fallback :: "'c sys \<Rightarrow> 'c sys" where
  "count_fallback w = w\<lparr>sy_fallback_count := sy_fallback_count w + 1\<rparr>"

text \<open>The final \<^verbatim>\<open>match outcome\<close>.\<close>

definition settle_fallback ::
  "'c worker_env \<Rightarrow> 'c drain_turn \<Rightarrow> mutation_queue_item \<Rightarrow> master_key \<Rightarrow> rstring
   \<Rightarrow> concept_store_error + rstring list \<Rightarrow> 'c sys \<Rightarrow> (queue_worker_error + unit) \<times> 'c sys" where
  "settle_fallback E T item master provenance outcome w =
     (case outcome of
        Inr paths \<Rightarrow>
          (case queue_db (mark_done (we_to_json E) (dt_done_at T) (mi_id item) paths
                  (fallback_done_detail provenance)) w of
             (Inl e, w1) \<Rightarrow> (Inl e, w1)
           | (Inr _, w1) \<Rightarrow>
               finish_note E item master count_fallback
                 (delete_payload E (mi_user_id item) master (mi_id item) w1))
      | Inl e \<Rightarrow>
          (case mark_item_dead T (mi_id item) (str ''fallback failed: '' @ short_detail (show_store_error e)) w of
             (Inl e, w1) \<Rightarrow> (Inl e, w1)
           | (Inr _, w1) \<Rightarrow>
               finish_note E item master count_dead
                 (delete_payload E (mi_user_id item) master (mi_id item) w1)))"

definition run_fallback ::
  "'c worker_env \<Rightarrow> 'c drain_turn \<Rightarrow> mutation_queue_item \<Rightarrow> master_key option \<Rightarrow> rstring \<Rightarrow> 'c sys
   \<Rightarrow> (queue_worker_error + unit) \<times> 'c sys" where
  "run_fallback E T item master_opt provenance w =
     (case master_opt of
        None \<Rightarrow>
          (case mark_item_dead T (mi_id item) (str ''fallback unavailable: master-key recovery failed'') w of
             (Inl e, w1) \<Rightarrow> (Inl e, w1)
           | (Inr _, w1) \<Rightarrow> (Inr (), count_dead w1))
      | Some master \<Rightarrow>
          (case read_payload (we_prims E) (we_meta E) (we_payload E) master (mi_id item)
                  (sy_dirs w (mi_user_id item)) of
             Inl e \<Rightarrow> (Inl (Worker_file e), w)
           | Inr None \<Rightarrow>
               (case mark_item_dead T (mi_id item) payload_missing_at_claim w of
                  (Inl e, w1) \<Rightarrow> (Inl e, w1)
                | (Inr _, w1) \<Rightarrow>
                    (Inr (), count_dead (delete_payload E (mi_user_id item) master (mi_id item) w1)))
           | Inr (Some payload) \<Rightarrow>
               (case fallback_outcome E item master payload (sy_concepts w) of
                  (Inl e, c) \<Rightarrow> (Inl (Worker_store e), w\<lparr>sy_concepts := c\<rparr>)
                | (Inr outcome, c) \<Rightarrow>
                    settle_fallback E T item master provenance outcome (w\<lparr>sy_concepts := c\<rparr>))))"

definition defer_retry ::
  "'c drain_turn \<Rightarrow> mutation_queue_item \<Rightarrow> rstring \<Rightarrow> 'c sys \<Rightarrow> (queue_worker_error + unit) \<times> 'c sys" where
  "defer_retry T item why w =
     queue_db (mark_failed (dt_done_at T) (mi_id item) (add_secs (dt_done_at T) 30) why) w"

section \<open>One turn of the drain\<close>

text \<open>\<^verbatim>\<open>.map(|()| true)\<close>.\<close>

definition turn_done :: "(queue_worker_error + unit) \<times> 'c sys \<Rightarrow> (queue_worker_error + bool) \<times> 'c sys" where
  "turn_done rw = (case rw of (r, w) \<Rightarrow> (map_sum (\<lambda>e. e) (\<lambda>_. True) r, w))"

text \<open>The backoff of attempt number \<open>a\<close>: index \<open>a - 1\<close>, clamped to the last entry.\<close>

definition backoff_for :: "queue_limits \<Rightarrow> nat \<Rightarrow> int" where
  "backoff_for lims attempts =
     ql_backoff_secs lims ! min (attempts - 1) (length (ql_backoff_secs lims) - 1)"

definition retry_allowed :: "queue_limits \<Rightarrow> 'c drain_turn \<Rightarrow> mutation_queue_item \<Rightarrow> agent_error \<Rightarrow> bool" where
  "retry_allowed lims T item e \<longleftrightarrow>
     is_transient e \<and> mi_attempts item < ql_max_attempts lims
     \<and> age_past (dt_done_at T) item < ql_age_deadline_secs lims"

definition fallback_reason :: "queue_limits \<Rightarrow> mutation_queue_item \<Rightarrow> agent_error \<Rightarrow> rstring" where
  "fallback_reason lims item e =
     (if \<not> is_transient e then str ''deterministic error: '' @ short_detail (show_agent_error e)
      else str ''attempts exhausted ('' @ show_nat (mi_attempts item) @ str '' of ''
             @ show_nat (ql_max_attempts lims) @ str '')'')"

text \<open>The \<^verbatim>\<open>match result\<close> after the agent run; both arms drop the permit first.\<close>

definition settle_run ::
  "queue_limits \<Rightarrow> 'c worker_env \<Rightarrow> 'c drain_turn \<Rightarrow> mutation_queue_item \<Rightarrow> master_key
   \<Rightarrow> agent_error + mutation_result \<Rightarrow> 'c sys \<Rightarrow> (queue_worker_error + bool) \<times> 'c sys" where
  "settle_run lims E T item master result w =
     (let w = drop_slot (dt_done_at T) w in
      case result of
        Inr res \<Rightarrow> turn_done (finish_success E T item master res w)
      | Inl e \<Rightarrow>
          if retry_allowed lims T item e then
            turn_done (queue_db (mark_failed (dt_done_at T) (mi_id item)
              (add_secs (dt_done_at T) (backoff_for lims (mi_attempts item)))
              (str ''attempt '' @ show_nat (mi_attempts item) @ str '': '' @ short_detail (show_agent_error e))) w)
          else turn_done (run_fallback E T item (Some master) (fallback_reason lims item e) w))"

text \<open>A dead verdict on the payload: mark, drop the blob, reconcile the notes.\<close>

definition payload_dead ::
  "'c worker_env \<Rightarrow> 'c drain_turn \<Rightarrow> uuid \<Rightarrow> mutation_queue_item \<Rightarrow> master_key \<Rightarrow> rstring \<Rightarrow> 'c sys
   \<Rightarrow> (queue_worker_error + bool) \<times> 'c sys" where
  "payload_dead E T uid item master detail w =
     (case mark_item_dead T (mi_id item) detail w of
        (Inl e, w1) \<Rightarrow> (Inl e, w1)
      | (Inr _, w1) \<Rightarrow> (Inr True, reconcile_notes E T uid (delete_payload E uid master (mi_id item) w1)))"

text \<open>\<^verbatim>\<open>process_next_for_user\<close> from the claimed item on.\<close>

definition process_item ::
  "queue_limits \<Rightarrow> 'c worker_env \<Rightarrow> 'c drain_turn \<Rightarrow> uuid \<Rightarrow> mutation_queue_item \<Rightarrow> 'c sys
   \<Rightarrow> (queue_worker_error + bool) \<times> 'c sys" where
  "process_item lims E T uid item w =
     (case dt_recover T uid of
        Inl e \<Rightarrow>
          (let w = drop_slot (dt_age_at T) w; why = str ''master-key recovery failed: '' @ e in
           if age_past (dt_age_at T) item \<ge> ql_age_deadline_secs lims + 300
           then turn_done (run_fallback E T item None why w)
           else turn_done (defer_retry T item why w))
      | Inr master \<Rightarrow>
          (case read_payload (we_prims E) (we_meta E) (we_payload E) master (mi_id item) (sy_dirs w uid) of
             Inr None \<Rightarrow>
               payload_dead E T uid item master payload_missing_at_claim (drop_slot (dt_age_at T) w)
           | Inl e \<Rightarrow>
               payload_dead E T uid item master
                 (str ''payload unreadable: '' @ short_detail (we_show_file_error E e))
                 (drop_slot (dt_age_at T) w)
           | Inr (Some payload) \<Rightarrow>
               if age_past (dt_age_at T) item \<ge> ql_age_deadline_secs lims then
                 turn_done (run_fallback E T item (Some master) (str ''age deadline passed'')
                   (drop_slot (dt_age_at T) w))
               else
                 (case dt_run T item master payload (sy_concepts w) of
                    (out, c) \<Rightarrow>
                      settle_run lims E T item master (caught_run out) (w\<lparr>sy_concepts := c\<rparr>))))"

definition process_next_for_user ::
  "queue_limits \<Rightarrow> 'c worker_env \<Rightarrow> 'c drain_turn \<Rightarrow> uuid \<Rightarrow> 'c sys
   \<Rightarrow> (queue_worker_error + bool) \<times> 'c sys" where
  "process_next_for_user lims E T uid w =
     (if dt_health T = Red then (Inr False, w)
      else
        (case try_enter (sy_gate w) of
           None \<Rightarrow> (Inr False, w)
         | Some g \<Rightarrow>
             (case queue_db (claim_due_for_user (dt_claim_at T) uid) (w\<lparr>sy_gate := g\<rparr>) of
                (Inl e, w1) \<Rightarrow> (Inl e, drop_slot (dt_claim_at T) w1)
              | (Inr None, w1) \<Rightarrow> (Inr False, drop_slot (dt_claim_at T) w1)
              | (Inr (Some item), w1) \<Rightarrow> process_item lims E T uid item w1)))"

section \<open>Passes and recovery\<close>

text \<open>\<^verbatim>\<open>recover_staging\<close>: the loop over the staging rows.\<close>

definition payload_exists :: "'c worker_env \<Rightarrow> master_key \<Rightarrow> uuid \<Rightarrow> directory \<Rightarrow> bool" where
  "payload_exists E master qid d \<longleftrightarrow>
     d (stored_name (we_prims E) (file_keys_from_master_key (we_prims E) master)
          (payload_path (pl_show_uuid (we_payload E)) qid)) \<noteq> None"

definition recover_item :: "'c worker_env \<Rightarrow> 'c drain_turn \<Rightarrow> mutation_queue_item \<Rightarrow> 'c sys
   \<Rightarrow> (queue_worker_error + unit) \<times> 'c sys" where
  "recover_item E T item w =
     (case dt_recover T (mi_user_id item) of
        Inl _ \<Rightarrow> (Inr (), w)
      | Inr master \<Rightarrow>
          if payload_exists E master (mi_id item) (sy_dirs w (mi_user_id item))
          then queue_db (activate (dt_done_at T) (mi_id item)) w
          else
            (case mark_item_dead T (mi_id item) payload_missing_at_recovery w of
               (Inl e, w1) \<Rightarrow> (Inl e, w1)
             | (Inr _, w1) \<Rightarrow> (Inr (), delete_payload E (mi_user_id item) master (mi_id item) w1)))"

fun recover_items :: "'c worker_env \<Rightarrow> 'c drain_turn \<Rightarrow> mutation_queue_item list \<Rightarrow> 'c sys
   \<Rightarrow> (queue_worker_error + unit) \<times> 'c sys" where
  "recover_items E T [] w = (Inr (), w)"
| "recover_items E T (item # items) w =
     (case recover_item E T item w of
        (Inl e, w1) \<Rightarrow> (Inl e, w1)
      | (Inr _, w1) \<Rightarrow> recover_items E T items w1)"

definition recover_staging :: "'c worker_env \<Rightarrow> 'c drain_turn \<Rightarrow> 'c sys
   \<Rightarrow> (queue_worker_error + unit) \<times> 'c sys" where
  "recover_staging E T w =
     (case staging_rows (sy_db w) of
        Inl e \<Rightarrow> (Inl (Worker_queue e), w)
      | Inr items \<Rightarrow> recover_items E T items w)"

text \<open>\<^verbatim>\<open>recover_on_boot\<close>: every running row back to pending, then the staging rows.\<close>

definition recover_on_boot :: "'c worker_env \<Rightarrow> 'c drain_turn \<Rightarrow> 'c sys
   \<Rightarrow> (queue_worker_error + unit) \<times> 'c sys" where
  "recover_on_boot E T w =
     (case running_rows (sy_db w) of
        Inl e \<Rightarrow> (Inl (Worker_queue e), w)
      | Inr items \<Rightarrow>
          recover_staging E T
            (w\<lparr>sy_db := fold (\<lambda>item. requeue_running (dt_done_at T) (mi_id item)) items (sy_db w)\<rparr>))"

text \<open>
  \<^verbatim>\<open>run_pending\<close>.  \<open>Ts n\<close> is the environment of the \<open>n\<close>-th turn of the pass; \<open>drain_users\<close> is the inner
  \<^verbatim>\<open>for\<close> (it returns the progress and the next turn number), \<open>drain_loop\<close> the outer \<^verbatim>\<open>loop\<close>, which may
  keep going while items become due again, hence the fuel: \<open>None\<close> is "still running".
\<close>

fun drain_users ::
  "queue_limits \<Rightarrow> 'c worker_env \<Rightarrow> (nat \<Rightarrow> 'c drain_turn) \<Rightarrow> nat \<Rightarrow> uuid list \<Rightarrow> 'c sys
   \<Rightarrow> (queue_worker_error + nat \<times> nat) \<times> 'c sys" where
  "drain_users lims E Ts n [] w = (Inr (0, n), w)"
| "drain_users lims E Ts n (uid # uids) w =
     (case process_next_for_user lims E (Ts n) uid (reconcile_notes E (Ts n) uid w) of
        (Inl e, w1) \<Rightarrow> (Inl e, w1)
      | (Inr b, w1) \<Rightarrow>
          (case drain_users lims E Ts (n + 1) uids w1 of
             (Inl e, w2) \<Rightarrow> (Inl e, w2)
           | (Inr (p, n'), w2) \<Rightarrow> (Inr ((if b then p + 1 else p), n'), w2)))"

fun drain_loop ::
  "nat \<Rightarrow> queue_limits \<Rightarrow> 'c worker_env \<Rightarrow> (nat \<Rightarrow> 'c drain_turn) \<Rightarrow> nat \<Rightarrow> nat \<Rightarrow> 'c sys
   \<Rightarrow> ((queue_worker_error + nat) \<times> 'c sys) option" where
  "drain_loop 0 lims E Ts n processed w = None"
| "drain_loop (Suc fuel) lims E Ts n processed w =
     (let users = queue_users_with_due (dt_scan_at (Ts n)) (sy_db w) in
      if users = [] then Some (Inr processed, w)
      else
        (case drain_users lims E Ts n users w of
           (Inl e, w1) \<Rightarrow> Some (Inl e, w1)
         | (Inr (p, n'), w1) \<Rightarrow>
             if p = 0 then Some (Inr (processed + p), w1)
             else drain_loop fuel lims E Ts n' (processed + p) w1))"

definition run_pending ::
  "nat \<Rightarrow> queue_limits \<Rightarrow> 'c worker_env \<Rightarrow> (nat \<Rightarrow> 'c drain_turn) \<Rightarrow> 'c sys
   \<Rightarrow> ((queue_worker_error + nat) \<times> 'c sys) option" where
  "run_pending fuel lims E Ts w =
     (case recover_staging E (Ts 0) w of
        (Inl e, w1) \<Rightarrow> Some (Inl e, w1)
      | (Inr _, w1) \<Rightarrow> drain_loop fuel lims E Ts 0 0 w1)"

section \<open>Enqueueing\<close>

text \<open>
  \<^verbatim>\<open>enqueue_mutation\<close> of the MCP server, as the steps other tasks can be interleaved with: the capped
  row, the payload blob, the staging note (for \<^verbatim>\<open>add\<close>), the activation.  \<open>request\<close> holds the fresh
  values and clock readings of one call.
\<close>

datatype enqueue_error =
    Enq_key rstring
  | Enq_queue queue_error
  | Enq_file file_repo_error
  | Enq_store concept_store_error

record request =
  rq_user :: uuid
  rq_source :: rstring
  rq_tool :: queue_tool
  rq_content :: rstring
  rq_args_json :: rstring
  rq_depth_cap :: nat
  rq_new_id :: uuid
  rq_at :: timestamp
  rq_nonce1 :: bytes
  rq_nonce2 :: bytes
  rq_tmp :: rstring

definition request_payload :: "request \<Rightarrow> mutation_payload" where
  "request_payload R = \<lparr>mp_tool = rq_tool R, mp_args_json = rq_args_json R, mp_content = rq_content R\<rparr>"

definition abandon_row ::
  "'c worker_env \<Rightarrow> timestamp \<Rightarrow> uuid \<Rightarrow> master_key \<Rightarrow> uuid \<Rightarrow> rstring \<Rightarrow> 'c sys \<Rightarrow> 'c sys" where
  "abandon_row E t uid master qid why w =
     delete_payload E uid master qid (snd (queue_db (mark_dead t qid why) w))"

definition enqueue_row :: "request \<Rightarrow> 'c sys \<Rightarrow> (enqueue_error + uuid) \<times> 'c sys" where
  "enqueue_row R w =
     (case enqueue_capped (rq_new_id R) (rq_at R) (rq_user R) (rq_tool R) (rq_depth_cap R) (rq_source R) (sy_db w) of
        (r, db) \<Rightarrow> (map_sum Enq_queue (\<lambda>x. x) r, w\<lparr>sy_db := db\<rparr>))"

definition enqueue_payload ::
  "'c worker_env \<Rightarrow> request \<Rightarrow> master_key \<Rightarrow> uuid \<Rightarrow> 'c sys \<Rightarrow> (enqueue_error + unit) \<times> 'c sys" where
  "enqueue_payload E R master qid w =
     (case write_payload (we_prims E) (we_meta E) (we_payload E) (rq_nonce1 R) (rq_nonce2 R) (rq_tmp R) master qid
             (request_payload R) (sy_dirs w (rq_user R)) of
        (Inl e, d) \<Rightarrow>
          (Inl (Enq_file e), abandon_row E (rq_at R) (rq_user R) master qid
             (str ''enqueue failed: payload blob unwritable'') (w\<lparr>sy_dirs := (sy_dirs w)(rq_user R := d)\<rparr>))
      | (Inr _, d) \<Rightarrow> (Inr (), w\<lparr>sy_dirs := (sy_dirs w)(rq_user R := d)\<rparr>))"

definition enqueue_note ::
  "'c worker_env \<Rightarrow> request \<Rightarrow> master_key \<Rightarrow> uuid \<Rightarrow> 'c sys \<Rightarrow> (enqueue_error + unit) \<times> 'c sys" where
  "enqueue_note E R master qid w =
     (if rq_tool R = Add then
        (let path = stage_note_path (pl_show_uuid (we_payload E)) qid; (cs, hot) = sy_concepts w in
         case ca_put_note (we_cs E) (rq_user R) master path (rq_content R) cs of
           (Inl e, cs') \<Rightarrow>
             (Inl (Enq_store e), abandon_row E (rq_at R) (rq_user R) master qid
                (str ''enqueue failed: staging note unwritable'') (w\<lparr>sy_concepts := (cs', hot)\<rparr>))
         | (Inr _, cs') \<Rightarrow>
             (Inr (), w\<lparr>sy_concepts :=
                (cs', record_hot_write (rq_at R) (user_scope_id E (rq_user R)) path hot)\<rparr>))
      else (Inr (), w))"

definition enqueue_activate :: "request \<Rightarrow> uuid \<Rightarrow> 'c sys \<Rightarrow> (enqueue_error + uuid) \<times> 'c sys" where
  "enqueue_activate R qid w =
     (case activate (rq_at R) qid (sy_db w) of
        (Inl e, db) \<Rightarrow> (Inl (Enq_queue e), w\<lparr>sy_db := db\<rparr>)
      | (Inr _, db) \<Rightarrow> (Inr qid, w\<lparr>sy_db := db\<rparr>))"

text \<open>\<open>meanwhile\<close> is what other tasks do between the row and the payload; nothing when it is the identity.\<close>

definition enqueue_mutation ::
  "'c worker_env \<Rightarrow> request \<Rightarrow> rstring + master_key \<Rightarrow> ('c sys \<Rightarrow> 'c sys) \<Rightarrow> 'c sys
   \<Rightarrow> (enqueue_error + uuid) \<times> 'c sys" where
  "enqueue_mutation E R key meanwhile w =
     (case key of
        Inl e \<Rightarrow> (Inl (Enq_key e), w)
      | Inr master \<Rightarrow>
          (case enqueue_row R w of
             (Inl e, w1) \<Rightarrow> (Inl e, w1)
           | (Inr qid, w1) \<Rightarrow>
               (case enqueue_payload E R master qid (meanwhile w1) of
                  (Inl e, w2) \<Rightarrow> (Inl e, w2)
                | (Inr _, w2) \<Rightarrow>
                    (case enqueue_note E R master qid w2 of
                       (Inl e, w3) \<Rightarrow> (Inl e, w3)
                     | (Inr _, w3) \<Rightarrow> enqueue_activate R qid w3))))"

end
