(* ===== verification/Queue_Drain.thy ===== *)
theory Queue_Drain
  imports Queue_Worker
begin

text \<open>
  What the drain guarantees: every turn gives its claimed item a verdict or a retry date and returns
  its gate slot, passes end, staging rows get the verdict their payload deserves.  The effect of
  every operation on the queue table is stated as one event of \<^verbatim>\<open>Queue_Events\<close>.
\<close>

section \<open>Frames\<close>

lemma drop_slot_sel [simp]:
  "sy_db (drop_slot t w) = sy_db w"
  "sy_dirs (drop_slot t w) = sy_dirs w"
  "sy_concepts (drop_slot t w) = sy_concepts w"
  "sy_gate (drop_slot t w) = drop_permit t None (sy_gate w)"
  by (simp_all add: drop_slot_def)

lemma delete_payload_sel [simp]:
  "sy_db (delete_payload E uid master qid w) = sy_db w"
  "sy_gate (delete_payload E uid master qid w) = sy_gate w"
  by (simp_all add: delete_payload_def split: prod.splits)

lemma delete_staging_note_sel [simp]:
  "sy_db (snd (delete_staging_note E uid master qid w)) = sy_db w"
  "sy_gate (snd (delete_staging_note E uid master qid w)) = sy_gate w"
  "sy_dirs (snd (delete_staging_note E uid master qid w)) = sy_dirs w"
  by (simp_all add: delete_staging_note_def Let_def split: prod.splits sum.splits concept_store_error.splits)

lemma reconcile_entries_sel [simp]:
  "sy_db (reconcile_entries E uid master paths w) = sy_db w
   \<and> sy_gate (reconcile_entries E uid master paths w) = sy_gate w
   \<and> sy_dirs (reconcile_entries E uid master paths w) = sy_dirs w"
  by (induction paths arbitrary: w) (simp_all split: option.split sum.split)

lemma reconcile_notes_sel [simp]:
  "sy_db (reconcile_notes E T uid w) = sy_db w"
  "sy_gate (reconcile_notes E T uid w) = sy_gate w"
  by (simp_all add: reconcile_notes_def split: sum.split)

lemma count_sel [simp]:
  "sy_db (count_dead w) = sy_db w" "sy_gate (count_dead w) = sy_gate w"
  "sy_db (count_fallback w) = sy_db w" "sy_gate (count_fallback w) = sy_gate w"
  by (simp_all add: count_dead_def count_fallback_def)

lemma finish_note_sel:
  assumes "\<And>w. sy_db (bump w) = sy_db w" and "\<And>w. sy_gate (bump w) = sy_gate w"
  shows "sy_db (snd (finish_note E item master bump w)) = sy_db w"
    and "sy_gate (snd (finish_note E item master bump w)) = sy_gate w"
  by (simp_all add: finish_note_def case_prod_beta assms split: sum.split)

lemma turn_done_sel [simp]:
  "snd (turn_done rw) = snd rw"
  "fst (turn_done rw) = map_sum (\<lambda>e. e) (\<lambda>_. True) (fst rw)"
  by (simp_all add: turn_done_def split: prod.splits)

section \<open>The queue statements of the worker as events\<close>

lemma queue_db_marks:
  "queue_db (mark_done tj t qid ps d) w = (Inr (), w\<lparr>sy_db := queue_step tj t (EvDone qid ps d) (sy_db w)\<rparr>)"
  "queue_db (mark_failed t qid nx d) w = (Inr (), w\<lparr>sy_db := queue_step tj t (EvFailed qid nx d) (sy_db w)\<rparr>)"
  "queue_db (mark_dead t qid d) w = (Inr (), w\<lparr>sy_db := queue_step tj t (EvDead qid d) (sy_db w)\<rparr>)"
  "queue_db (activate t qid) w = (Inr (), w\<lparr>sy_db := queue_step tj t (EvActivate qid) (sy_db w)\<rparr>)"
  by (simp_all add: queue_db_def mark_done_def mark_failed_def mark_dead_def activate_def Let_def)

text \<open>The row of \<open>qid\<close> got its final mark at time \<open>t\<close>.\<close>

definition verdict ::
  "(rstring list \<Rightarrow> rstring option) \<Rightarrow> timestamp \<Rightarrow> uuid \<Rightarrow> qstore \<Rightarrow> qstore \<Rightarrow> bool" where
  "verdict tj t qid db db' \<longleftrightarrow>
     (\<exists>ps d. db' = queue_step tj t (EvDone qid ps d) db) \<or> (\<exists>d. db' = queue_step tj t (EvDead qid d) db)"

lemma verdictI:
  "verdict tj t qid db (queue_step tj t (EvDone qid ps d) db)"
  "verdict tj t qid db (queue_step tj t (EvDead qid d) db)"
  unfolding verdict_def by blast+

lemma mark_item_dead_eq:
  "mark_item_dead T qid d w =
     (Inr (), w\<lparr>sy_db := queue_step tj (dt_done_at T) (EvDead qid d) (sy_db w)\<rparr>)"
  by (simp only: mark_item_dead_def queue_db_marks(3) [of _ _ _ _ tj])

lemma finish_success_verdict:
  "verdict (we_to_json E) (dt_done_at T) (mi_id item) (sy_db w)
     (sy_db (snd (finish_success E T item master res w)))"
  by (simp add: finish_success_def queue_db_marks(1) finish_note_sel verdictI del: queue_step.simps)

lemma settle_fallback_verdict:
  "verdict (we_to_json E) (dt_done_at T) (mi_id item) (sy_db w)
     (sy_db (snd (settle_fallback E T item master why outcome w)))"
  by (cases outcome)
    (simp_all add: settle_fallback_def queue_db_marks(1) mark_item_dead_eq [where tj = "we_to_json E"]
      finish_note_sel verdictI del: queue_step.simps)

text \<open>When the fallback gives no verdict: the payload file does not open, or maintenance fails.\<close>

definition fallback_stuck ::
  "'c worker_env \<Rightarrow> mutation_queue_item \<Rightarrow> master_key \<Rightarrow> mutation_payload \<Rightarrow> 'c \<times> hot_global \<Rightarrow> bool" where
  "fallback_stuck E item master payload c \<longleftrightarrow>
     mp_tool payload = Maintain \<and> (\<exists>e. fst (fallback_outcome E item master payload c) = Inl e)"

lemma fallback_outcome_Inl:
  "fst (fallback_outcome E item master payload c) = Inl e \<Longrightarrow> mp_tool payload = Maintain"
  by (cases "mp_tool payload") (simp_all add: fallback_outcome_def Let_def split: prod.splits)

lemma run_fallback_cases:
  "verdict (we_to_json E) (dt_done_at T) (mi_id item) (sy_db w)
     (sy_db (snd (run_fallback E T item mo why w)))
   \<or> (\<exists>master fe. mo = Some master \<and> read_payload (we_prims E) (we_meta E) (we_payload E) master
        (mi_id item) (sy_dirs w (mi_user_id item)) = Inl fe)
   \<or> (\<exists>master payload e. mo = Some master \<and> read_payload (we_prims E) (we_meta E) (we_payload E) master
        (mi_id item) (sy_dirs w (mi_user_id item)) = Inr (Some payload)
        \<and> fallback_stuck E item master payload (sy_concepts w)
        \<and> fst (run_fallback E T item mo why w) = Inl (Worker_store e)
        \<and> sy_db (snd (run_fallback E T item mo why w)) = sy_db w)"
proof (cases mo)
  case None
  then show ?thesis
    by (simp add: run_fallback_def mark_item_dead_eq [where tj = "we_to_json E"] verdictI del: queue_step.simps)
next
  case (Some master)
  let ?r = "read_payload (we_prims E) (we_meta E) (we_payload E) master (mi_id item) (sy_dirs w (mi_user_id item))"
  let ?o = "\<lambda>p. fallback_outcome E item master p (sy_concepts w)"
  consider (err) fe where "?r = Inl fe" | (none) "?r = Inr None"
    | (stuck) p e c where "?r = Inr (Some p)" "?o p = (Inl e, c)"
    | (out) p out c where "?r = Inr (Some p)" "?o p = (Inr out, c)"
    by (metis surj_pair sum.exhaust option.exhaust)
  then show ?thesis
  proof cases
    case err
    with Some show ?thesis by blast
  next
    case none
    with Some show ?thesis
      by (simp add: run_fallback_def mark_item_dead_eq [where tj = "we_to_json E"] verdictI del: queue_step.simps)
  next
    case stuck
    then have "fallback_stuck E item master p (sy_concepts w)"
      using fallback_outcome_Inl [of E item master p "sy_concepts w" e] by (simp add: fallback_stuck_def)
    with stuck Some show ?thesis by (simp add: run_fallback_def)
  next
    case out
    with Some settle_fallback_verdict [of E T item "w\<lparr>sy_concepts := c\<rparr>" master why out] show ?thesis
      by (simp add: run_fallback_def)
  qed
qed

section \<open>A claimed item\<close>

text \<open>
  Why a turn puts its item back: the master key could not be recovered and the grace period is not
  over, or the agent run failed with a transient error, attempts are left and the deadline is ahead.
\<close>

definition key_deferral :: "queue_limits \<Rightarrow> 'c drain_turn \<Rightarrow> mutation_queue_item \<Rightarrow> bool" where
  "key_deferral lims T item \<longleftrightarrow>
     (\<exists>e. dt_recover T (mi_user_id item) = Inl e)
     \<and> age_past (dt_age_at T) item < ql_age_deadline_secs lims + 300"

definition run_retry :: "queue_limits \<Rightarrow> 'c drain_turn \<Rightarrow> mutation_queue_item \<Rightarrow> bool" where
  "run_retry lims T item \<longleftrightarrow>
     (\<exists>master payload c e. dt_recover T (mi_user_id item) = Inr master
        \<and> caught_run (fst (dt_run T item master payload c)) = Inl e \<and> retry_allowed lims T item e)
     \<and> age_past (dt_age_at T) item < ql_age_deadline_secs lims"

definition put_back ::
  "queue_limits \<Rightarrow> (rstring list \<Rightarrow> rstring option) \<Rightarrow> 'c drain_turn \<Rightarrow> mutation_queue_item \<Rightarrow> qstore \<Rightarrow> qstore \<Rightarrow> bool" where
  "put_back lims tj T item db db' \<longleftrightarrow>
     (\<exists>secs d. db' = queue_step tj (dt_done_at T) (EvFailed (mi_id item) (add_secs (dt_done_at T) secs) d) db
        \<and> (key_deferral lims T item \<and> secs = 30
           \<or> run_retry lims T item \<and> secs = backoff_for lims (mi_attempts item)))"

text \<open>The item is left running: maintenance by the fallback failed.\<close>

definition left_running ::
  "'c worker_env \<Rightarrow> 'c drain_turn \<Rightarrow> mutation_queue_item \<Rightarrow> queue_worker_error + bool \<Rightarrow> qstore \<Rightarrow> qstore \<Rightarrow> bool" where
  "left_running E T item r db db' \<longleftrightarrow>
     (\<exists>master payload c e. dt_recover T (mi_user_id item) = Inr master
        \<and> fallback_stuck E item master payload c \<and> r = Inl (Worker_store e)) \<and> db' = db"

lemma run_fallback_settles:
  assumes "\<And>master. mo = Some master \<Longrightarrow> dt_recover T (mi_user_id item) = Inr master
      \<and> (\<exists>payload. read_payload (we_prims E) (we_meta E) (we_payload E) master
            (mi_id item) (sy_dirs w (mi_user_id item)) = Inr (Some payload))"
  shows "verdict (we_to_json E) (dt_done_at T) (mi_id item) (sy_db w)
      (sy_db (snd (turn_done (run_fallback E T item mo why w))))
    \<or> left_running E T item (fst (turn_done (run_fallback E T item mo why w))) (sy_db w)
      (sy_db (snd (turn_done (run_fallback E T item mo why w))))"
proof -
  let ?rf = "run_fallback E T item mo why w"
  consider (verdict) "verdict (we_to_json E) (dt_done_at T) (mi_id item) (sy_db w) (sy_db (snd ?rf))"
    | (stuck) master payload e where "mo = Some master" "fallback_stuck E item master payload (sy_concepts w)"
        "fst ?rf = Inl (Worker_store e)" "sy_db (snd ?rf) = sy_db w"
    using run_fallback_cases [of E T item w mo why] assms by (metis Inl_Inr_False)
  then show ?thesis
  proof cases
    case stuck
    with assms have "left_running E T item (fst (turn_done ?rf)) (sy_db w) (sy_db (snd (turn_done ?rf)))"
      unfolding left_running_def by (intro conjI exI [of _ master] exI [of _ payload] exI [of _ "sy_concepts w"]) auto
    then show ?thesis ..
  qed simp
qed

lemma settle_run_cases:
  assumes "dt_recover T (mi_user_id item) = Inr master"
    and "read_payload (we_prims E) (we_meta E) (we_payload E) master
            (mi_id item) (sy_dirs w (mi_user_id item)) = Inr (Some payload)"
    and run: "caught_run (fst (dt_run T item master payload c)) = result"
    and age: "age_past (dt_age_at T) item < ql_age_deadline_secs lims"
  shows "verdict (we_to_json E) (dt_done_at T) (mi_id item) (sy_db w)
      (sy_db (snd (settle_run lims E T item master result w)))
    \<or> fst (settle_run lims E T item master result w) = Inr True
      \<and> put_back lims (we_to_json E) T item (sy_db w) (sy_db (snd (settle_run lims E T item master result w)))
    \<or> left_running E T item (fst (settle_run lims E T item master result w)) (sy_db w)
      (sy_db (snd (settle_run lims E T item master result w)))"
proof (cases result)
  case (Inr res)
  then show ?thesis
    using finish_success_verdict [of E T item "drop_slot (dt_done_at T) w" master res]
    by (simp add: settle_run_def Let_def)
next
  case (Inl e)
  show ?thesis
  proof (cases "retry_allowed lims T item e")
    case True
    with Inl assms(1) run age have "run_retry lims T item" unfolding run_retry_def by blast
    then show ?thesis
      using Inl True
      by (auto simp: settle_run_def Let_def queue_db_marks(2) [where tj = "we_to_json E"] put_back_def
          simp del: queue_step.simps)
  next
    case False
    with Inl run_fallback_settles [of "Some master" T item E "drop_slot (dt_done_at T) w"
        "fallback_reason lims item e"] assms(1,2)
    show ?thesis by (auto simp: settle_run_def Let_def)
  qed
qed

lemma process_item_cases:
  assumes uid: "mi_user_id item = uid"
  shows "verdict (we_to_json E) (dt_done_at T) (mi_id item) (sy_db w)
      (sy_db (snd (process_item lims E T uid item w)))
    \<or> fst (process_item lims E T uid item w) = Inr True
      \<and> put_back lims (we_to_json E) T item (sy_db w) (sy_db (snd (process_item lims E T uid item w)))
    \<or> left_running E T item (fst (process_item lims E T uid item w)) (sy_db w)
      (sy_db (snd (process_item lims E T uid item w)))"
proof (cases "dt_recover T uid")
  case (Inl e)
  let ?w = "drop_slot (dt_age_at T) w" and ?why = "str ''master-key recovery failed: '' @ e"
  show ?thesis
  proof (cases "age_past (dt_age_at T) item \<ge> ql_age_deadline_secs lims + 300")
    case True
    with Inl run_fallback_settles [of None T item E ?w ?why] show ?thesis
      by (auto simp: process_item_def Let_def simp del: str_Cons)
  next
    case False
    with Inl uid have "key_deferral lims T item" by (simp add: key_deferral_def)
    with Inl False show ?thesis
      by (auto simp: process_item_def Let_def defer_retry_def put_back_def
          queue_db_marks(2) [where tj = "we_to_json E"] simp del: queue_step.simps str_Cons)
  qed
next
  case (Inr master)
  let ?r = "read_payload (we_prims E) (we_meta E) (we_payload E) master (mi_id item) (sy_dirs w uid)"
  have dead: "verdict (we_to_json E) (dt_done_at T) (mi_id item) (sy_db w)
      (sy_db (snd (payload_dead E T uid item master d (drop_slot (dt_age_at T) w))))" for d
    by (simp add: payload_dead_def mark_item_dead_eq [where tj = "we_to_json E"] verdictI del: queue_step.simps)
  consider (err) fe where "?r = Inl fe" | (none) "?r = Inr None" | (some) p where "?r = Inr (Some p)"
    by (metis sum.exhaust option.exhaust)
  then show ?thesis
  proof cases
    case (some p)
    let ?o = "dt_run T item master p (sy_concepts w)"
    show ?thesis
    proof (cases "age_past (dt_age_at T) item \<ge> ql_age_deadline_secs lims")
      case True
      with Inr some uid run_fallback_settles [of "Some master" T item E "drop_slot (dt_age_at T) w"
          "str ''age deadline passed''"] show ?thesis
        by (auto simp: process_item_def simp del: str_Cons)
    next
      case False
      with Inr some have "process_item lims E T uid item w =
          settle_run lims E T item master (caught_run (fst ?o)) (w\<lparr>sy_concepts := snd ?o\<rparr>)"
        by (simp add: process_item_def case_prod_beta)
      with Inr some uid False settle_run_cases [of T item master E "w\<lparr>sy_concepts := snd ?o\<rparr>" p "sy_concepts w" "caught_run (fst ?o)" lims]
      show ?thesis by simp
    qed
  qed (use Inr dead in \<open>simp_all add: process_item_def\<close>)
qed

section \<open>A turn\<close>

text \<open>A turn is idle, or claims the oldest due item of the user and settles it.\<close>

definition settles ::
  "queue_limits \<Rightarrow> 'c worker_env \<Rightarrow> 'c drain_turn \<Rightarrow> mutation_queue_item \<Rightarrow> queue_worker_error + bool \<Rightarrow> qstore \<Rightarrow> qstore \<Rightarrow> bool" where
  "settles lims E T item r db db' \<longleftrightarrow>
     verdict (we_to_json E) (dt_done_at T) (mi_id item) db db'
     \<or> r = Inr True \<and> put_back lims (we_to_json E) T item db db'
     \<or> left_running E T item r db db'"

definition claims ::
  "'c worker_env \<Rightarrow> 'c drain_turn \<Rightarrow> uuid \<Rightarrow> qstore \<Rightarrow> queue_row \<Rightarrow> mutation_queue_item \<Rightarrow> bool" where
  "claims E T uid db row item \<longleftrightarrow>
     row \<in> set (qs_rows db) \<and> q_user_id row = uid \<and> is_due (dt_claim_at T) row
     \<and> (\<forall>r' \<in> set (qs_rows db). q_user_id r' = uid \<and> is_due (dt_claim_at T) r' \<longrightarrow> q_created_at row \<le> q_created_at r')
     \<and> mi_id item = q_id row \<and> mi_user_id item = uid \<and> mi_created_at item = q_created_at row
     \<and> mi_attempts item = attempts_u32 (q_attempts row + 1)"

lemma process_next_cases:
  assumes inv: "queue_inv (sy_db w)" and rw_def: "rw = process_next_for_user lims E T uid w"
  obtains (idle) "fst rw = Inr False" "sy_db (snd rw) = sy_db w"
  | (worked) row item where "dt_health T \<noteq> Red" "claims E T uid (sy_db w) row item"
      "settles lims E T item (fst rw)
         (queue_step (we_to_json E) (dt_claim_at T) (EvClaim (q_id row)) (sy_db w)) (sy_db (snd rw))"
proof (cases "dt_health T = Red \<or> try_enter (sy_gate w) = None")
  case True
  then show ?thesis by (intro idle) (auto simp: rw_def process_next_for_user_def)
next
  case False
  then obtain g where g: "dt_health T \<noteq> Red" "try_enter (sy_gate w) = Some g" by auto
  let ?c = "claim_due_for_user (dt_claim_at T) uid (sy_db w)"
  show ?thesis
  proof (cases "\<exists>r \<in> set (qs_rows (sy_db w)). q_user_id r = uid \<and> is_due (dt_claim_at T) r")
    case False
    with claim_due_cases [OF inv, of uid "dt_claim_at T"] have "?c = (Inr None, sy_db w)" by simp
    with g show ?thesis by (intro idle) (simp_all add: rw_def process_next_for_user_def queue_db_def)
  next
    case True
    with claim_due_cases [OF inv, of uid "dt_claim_at T" "we_to_json E"] obtain row item where
      c: "claims E T uid (sy_db w) row item"
      "?c = (Inr (Some item), queue_step (we_to_json E) (dt_claim_at T) (EvClaim (q_id row)) (sy_db w))"
      unfolding claims_def by auto
    let ?w = "w\<lparr>sy_gate := g, sy_db := queue_step (we_to_json E) (dt_claim_at T) (EvClaim (q_id row)) (sy_db w)\<rparr>"
    have "rw = process_item lims E T uid item ?w"
      using g c(2) by (simp add: rw_def process_next_for_user_def queue_db_def del: queue_step.simps)
    moreover have "mi_user_id item = uid" using c(1) by (simp add: claims_def)
    ultimately show ?thesis
      using process_item_cases [of item uid E T ?w lims] g(1) c(1)
      by (intro worked) (auto simp: settles_def simp del: queue_step.simps)
  qed
qed

section \<open>The row of the item after a turn\<close>

text \<open>The event of a settling, and the row it leaves.\<close>

definition settle_event :: "uuid \<Rightarrow> queue_event \<Rightarrow> bool" where
  "settle_event qid e \<longleftrightarrow>
     (\<exists>ps d. e = EvDone qid ps d) \<or> (\<exists>d. e = EvDead qid d) \<or> (\<exists>t d. e = EvFailed qid t d)"

lemma claim_settle_row:
  assumes inv: "queue_inv db" and row: "row \<in> set (qs_rows db)" "has_status [Pending] row"
    and e: "settle_event (q_id row) e"
  shows "row_of (q_id row) (queue_step tj t e (queue_step tj t0 (EvClaim (q_id row)) db)) =
      Some (event_update tj t e (event_update tj t0 (EvClaim (q_id row)) row))"
proof -
  have "row_of (q_id row) db = Some row" using inv row(1) by (simp add: row_of_unique by_id_def)
  then have "row_of (q_id row) (queue_step tj t0 (EvClaim (q_id row)) db) =
      Some (event_update tj t0 (EvClaim (q_id row)) row)"
    using row(2) by (subst row_of_update) (simp_all add: claimable_def by_id_def del: event_update.simps)
  moreover have "\<not> is_enqueue e" and "event_pred e r" if "by_id (q_id row) r" for r
    using e that by (auto simp: settle_event_def)
  moreover have "by_id (q_id row) (event_update tj t0 (EvClaim (q_id row)) row)"
    by (simp add: by_id_def)
  ultimately show ?thesis by (subst row_of_update) (auto simp del: event_update.simps)
qed

lemma event_other_rows:
  assumes "\<not> is_enqueue e" and "\<And>r. event_pred e r \<Longrightarrow> q_id r = qid"
  shows "filter (\<lambda>r. q_id r \<noteq> qid) (qs_rows (queue_step tj t e db)) = filter (\<lambda>r. q_id r \<noteq> qid) (qs_rows db)"
  unfolding queue_step_update [OF assms(1)] set_rows_sel
  using assms(2) by (intro filter_update_where_other) auto

lemma claim_settle_others:
  assumes "settle_event qid e"
  shows "filter (\<lambda>r. q_id r \<noteq> qid) (qs_rows (queue_step tj t e (queue_step tj t0 (EvClaim qid) db))) =
    filter (\<lambda>r. q_id r \<noteq> qid) (qs_rows db)"
proof -
  have "\<not> is_enqueue e" "\<And>r. event_pred e r \<Longrightarrow> q_id r = qid"
    using assms by (auto simp: settle_event_def by_id_def)
  then have "filter (\<lambda>r. q_id r \<noteq> qid) (qs_rows (queue_step tj t e (queue_step tj t0 (EvClaim qid) db))) =
      filter (\<lambda>r. q_id r \<noteq> qid) (qs_rows (queue_step tj t0 (EvClaim qid) db))"
    by (rule event_other_rows)
  also have "\<dots> = filter (\<lambda>r. q_id r \<noteq> qid) (qs_rows db)"
    by (rule event_other_rows) (auto simp: claimable_def by_id_def)
  finally show ?thesis .
qed

lemma add_secs_mono: "a \<le> b \<Longrightarrow> add_secs t a \<le> add_secs t b"
  by (simp add: add_secs_def nanos_def)

lemma backoff_for_mem: "ql_backoff_secs lims \<noteq> [] \<Longrightarrow> backoff_for lims a \<in> set (ql_backoff_secs lims)"
  unfolding backoff_for_def by (intro nth_mem) (cases "ql_backoff_secs lims"; simp add: less_Suc_eq_le)

text \<open>What a turn that reports work has done to the table: one claim and one settling event.\<close>

lemma worked_event:
  assumes inv: "queue_inv (sy_db w)" and turn: "process_next_for_user lims E T uid w = (Inr True, w')"
  obtains row item e where "claims E T uid (sy_db w) row item" "settle_event (q_id row) e"
    "sy_db w' = queue_step (we_to_json E) (dt_done_at T) e
       (queue_step (we_to_json E) (dt_claim_at T) (EvClaim (q_id row)) (sy_db w))"
    "\<And>t d. e = EvFailed (q_id row) t d \<Longrightarrow>
       \<exists>secs. t = add_secs (dt_done_at T) secs
         \<and> (key_deferral lims T item \<and> secs = 30
            \<or> run_retry lims T item \<and> secs = backoff_for lims (mi_attempts item))"
proof (rule process_next_cases [OF inv refl, of lims E T uid])
  assume "fst (process_next_for_user lims E T uid w) = Inr False"
  with turn show thesis by simp
next
  fix row :: queue_row and item
  let ?tj = "we_to_json E"
  let ?db = "queue_step ?tj (dt_claim_at T) (EvClaim (q_id row)) (sy_db w)"
  assume c: "claims E T uid (sy_db w) row item"
    and "settles lims E T item (fst (process_next_for_user lims E T uid w)) ?db
      (sy_db (snd (process_next_for_user lims E T uid w)))"
  with turn consider (verdict) "verdict ?tj (dt_done_at T) (mi_id item) ?db (sy_db w')"
    | (again) "put_back lims ?tj T item ?db (sy_db w')"
    by (auto simp: settles_def left_running_def simp del: queue_step.simps)
  then show thesis
  proof cases
    case verdict
    then obtain e where "settle_event (mi_id item) e" "sy_db w' = queue_step ?tj (dt_done_at T) e ?db"
      "\<And>t d. e \<noteq> EvFailed (mi_id item) t d"
      by (auto simp: verdict_def settle_event_def simp del: queue_step.simps)
    with c that [of row item e] show thesis by (simp add: claims_def)
  next
    case again
    then obtain secs d where "sy_db w' = queue_step ?tj (dt_done_at T)
        (EvFailed (mi_id item) (add_secs (dt_done_at T) secs) d) ?db"
      "key_deferral lims T item \<and> secs = 30 \<or> run_retry lims T item \<and> secs = backoff_for lims (mi_attempts item)"
      unfolding put_back_def by blast
    with c that [of row item "EvFailed (mi_id item) (add_secs (dt_done_at T) secs) d"] show thesis
      by (auto simp: claims_def settle_event_def simp del: queue_step.simps)
  qed
qed

text \<open>Every entry of the backoff table is at least half a minute, as in the default limits.\<close>

definition limits_ok :: "queue_limits \<Rightarrow> bool" where
  "limits_ok lims \<longleftrightarrow> ql_backoff_secs lims \<noteq> [] \<and> list_all (\<lambda>s. 30 \<le> s) (ql_backoff_secs lims)"

lemma default_limits_ok: "limits_ok default_limits"
  by (simp add: limits_ok_def default_limits_def)

lemma retry_date_later:
  assumes "limits_ok lims"
    and "key_deferral lims T item \<and> secs = 30 \<or> run_retry lims T item \<and> secs = backoff_for lims (mi_attempts item)"
  shows "add_secs (dt_done_at T) 30 \<le> add_secs (dt_done_at T) secs"
  using assms backoff_for_mem [of lims "mi_attempts item"]
  by (intro add_secs_mono) (auto simp: limits_ok_def list_all_iff)

text \<open>When a turn may put an item back, in terms of its row.\<close>

definition retry_cause :: "queue_limits \<Rightarrow> 'c drain_turn \<Rightarrow> queue_row \<Rightarrow> bool" where
  "retry_cause lims T row \<longleftrightarrow>
     (\<exists>e. dt_recover T (q_user_id row) = Inl e)
       \<and> secs_since (dt_age_at T) (q_created_at row) < ql_age_deadline_secs lims + 300
     \<or> attempts_u32 (q_attempts row) < ql_max_attempts lims
       \<and> secs_since (dt_age_at T) (q_created_at row) < ql_age_deadline_secs lims
       \<and> secs_since (dt_done_at T) (q_created_at row) < ql_age_deadline_secs lims"

lemma worked_row:
  assumes "queue_inv (sy_db w)" and "limits_ok lims"
    and "process_next_for_user lims E T uid w = (Inr True, w')"
  shows "\<exists>row r'. row \<in> set (qs_rows (sy_db w)) \<and> q_user_id row = uid \<and> is_due (dt_claim_at T) row
    \<and> (\<forall>r \<in> set (qs_rows (sy_db w)). q_user_id r = uid \<and> is_due (dt_claim_at T) r \<longrightarrow> q_created_at row \<le> q_created_at r)
    \<and> row_of (q_id row) (sy_db w') = Some r' \<and> q_attempts r' = q_attempts row + 1
    \<and> (has_status [Done, Dead] r' \<and> q_next_retry_at r' = None
       \<or> has_status [Pending] r' \<and> retry_cause lims T r'
         \<and> (\<exists>t. q_next_retry_at r' = Some t \<and> add_secs (dt_done_at T) 30 \<le> t))
    \<and> filter (\<lambda>r. q_id r \<noteq> q_id row) (qs_rows (sy_db w')) = filter (\<lambda>r. q_id r \<noteq> q_id row) (qs_rows (sy_db w))"
proof -
  let ?tj = "we_to_json E"
  obtain row item e where c: "claims E T uid (sy_db w) row item" and e: "settle_event (q_id row) e"
    and db: "sy_db w' = queue_step ?tj (dt_done_at T) e (queue_step ?tj (dt_claim_at T) (EvClaim (q_id row)) (sy_db w))"
    and again: "\<And>t d. e = EvFailed (q_id row) t d \<Longrightarrow> \<exists>secs. t = add_secs (dt_done_at T) secs
         \<and> (key_deferral lims T item \<and> secs = 30 \<or> run_retry lims T item \<and> secs = backoff_for lims (mi_attempts item))"
    using worked_event [OF assms(1,3)] by metis
  let ?r = "event_update ?tj (dt_done_at T) e (event_update ?tj (dt_claim_at T) (EvClaim (q_id row)) row)"
  from c have row: "row \<in> set (qs_rows (sy_db w))" "has_status [Pending] row" by (auto simp: claims_def is_due_def)
  have r: "row_of (q_id row) (sy_db w') = Some ?r"
    unfolding db by (rule claim_settle_row [OF assms(1) row e])
  have att: "q_attempts ?r = q_attempts row + 1"
    using e by (auto simp: settle_event_def)
  have "has_status [Done, Dead] ?r \<and> q_next_retry_at ?r = None
      \<or> has_status [Pending] ?r \<and> retry_cause lims T ?r
         \<and> (\<exists>t. q_next_retry_at ?r = Some t \<and> add_secs (dt_done_at T) 30 \<le> t)"
  proof (cases "\<exists>t d. e = EvFailed (q_id row) t d")
    case False
    with e show ?thesis by (auto simp: settle_event_def simp del: queue_status_as_str.simps)
  next
    case True
    then obtain t d secs where t: "e = EvFailed (q_id row) t d" "t = add_secs (dt_done_at T) secs"
      and why: "key_deferral lims T item \<and> secs = 30 \<or> run_retry lims T item \<and> secs = backoff_for lims (mi_attempts item)"
      using again by blast
    have "retry_cause lims T ?r"
      using why c t(1) by (auto simp: retry_cause_def claims_def key_deferral_def run_retry_def age_past_def retry_allowed_def)
    with t retry_date_later [OF assms(2) why] show ?thesis by (simp del: queue_status_as_str.simps)
  qed
  then show ?thesis
    using c r att claim_settle_others [OF e, of ?tj "dt_done_at T" "dt_claim_at T" "sy_db w"]
    unfolding claims_def db by blast
qed


section \<open>A small instance\<close>

text \<open>A concept store that is the list of its paths, and an environment around it.\<close>

definition demo_cs :: "rstring list concept_api" where
  "demo_cs = \<lparr>ca_list = (\<lambda>uid master c. Inr c),
     ca_get = (\<lambda>uid master p c. if p \<in> set c then Inr () else Inl (Cs_not_found p)),
     ca_delete_internal = (\<lambda>uid master p c. (Inr (), removeAll p c)),
     ca_put_note = (\<lambda>uid master p body c. (Inr (), c @ [p])),
     direct_write_add = (\<lambda>uid master src body path shelf ct c. (Inr [47], (fst c @ [[47]], snd c))),
     dated_addendum_update = (\<lambda>uid master src body path c. (Inr [47], c)),
     wire_and_flag_maintain = (\<lambda>uid master src c. (Inl (Cs_other []), c))\<rparr>"

definition demo_env :: "rstring list worker_env" where
  "demo_env = \<lparr>we_prims = toy_prims, we_meta = ascii_json, we_payload = toy_payload_json,
     we_parse_uuid = parse_u32, we_to_json = (\<lambda>_. None), we_show_file_error = (\<lambda>_. []),
     we_arg = (\<lambda>_ _. None), we_cs = demo_cs\<rparr>"

definition demo_turn :: "rstring list drain_turn" where
  "demo_turn = \<lparr>dt_scan_at = 30, dt_claim_at = 30, dt_age_at = 31, dt_done_at = 32, dt_health = Green,
     dt_recover = (\<lambda>_. Inl []), dt_run = (\<lambda>item master payload c. (Panicked Panic_other, c))\<rparr>"

definition demo_sys :: "rstring list sys" where
  "demo_sys = \<lparr>sy_db = sample_queue, sy_gate = new_gate 2, sy_dirs = (\<lambda>_. Map.empty),
     sy_concepts = ([], None), sy_fallback_count = 0, sy_dead_count = 0, sy_integrated_count = 0\<rparr>"

lemma demo_claim:
  "claim_due_for_user 30 7 sample_queue =
     (Inr (Some \<lparr>mi_id = 2, mi_user_id = 7, mi_tool = Update, mi_status = Running, mi_attempts = 1,
        mi_detail = [], mi_created_at = 10, mi_updated_at = 30, mi_next_retry_at = None,
        mi_final_paths = None, mi_source = []\<rparr>), queue_step (\<lambda>_. None) 30 (EvClaim 2) sample_queue)"
  by code_simp

lemma demo_turn_result:
  "fst (process_next_for_user default_limits demo_env demo_turn 7 demo_sys) = Inr True"
  by (simp add: process_next_for_user_def demo_turn_def demo_sys_def try_enter_def new_gate_def
      clamp_from_1_def CAPACITY_MAX_def Let_def queue_db_def demo_claim process_item_def age_past_def
      secs_since_def default_limits_def defer_retry_def mark_failed_def del: queue_step.simps)


section \<open>A pass ends\<close>

lemma process_item_result: "fst (process_item lims E T uid item w) \<noteq> Inr False"
proof -
  have td: "fst (turn_done rw) \<noteq> Inr False" for rw :: "(queue_worker_error + unit) \<times> 'a sys"
    by (cases "fst rw") simp_all
  show ?thesis
    by (simp add: process_item_def payload_dead_def settle_run_def Let_def td case_prod_beta
        mark_item_dead_eq [where tj = "we_to_json E"]
        del: turn_done_sel split: sum.split option.split)
qed

text \<open>
  How often an item can still be claimed while the clock stays within \<open>[t0, t1]\<close>: once now if it is
  due by \<open>t1\<close>, and once for every further 30 s.
\<close>

definition half_minute :: nat where "half_minute = 30 * 10 ^ 9"

definition remaining_claims :: "timestamp \<Rightarrow> timestamp \<Rightarrow> queue_row \<Rightarrow> nat" where
  "remaining_claims t0 t1 r =
     (let t = max t0 (case q_next_retry_at r of None \<Rightarrow> 0 | Some t \<Rightarrow> t) in
      if has_status [Pending] r \<and> t \<le> t1 then 1 + (t1 - t) div half_minute else 0)"

definition pass_budget :: "timestamp \<Rightarrow> timestamp \<Rightarrow> qstore \<Rightarrow> nat" where
  "pass_budget t0 t1 db = sum_list (map (remaining_claims t0 t1) (qs_rows db))"

lemma pass_budget_split:
  assumes "queue_inv db" and "row_of qid db = Some r"
  shows "pass_budget t0 t1 db = remaining_claims t0 t1 r
    + sum_list (map (remaining_claims t0 t1) (filter (\<lambda>r. q_id r \<noteq> qid) (qs_rows db)))"
proof -
  have "sum_list (map f rows) = f r + sum_list (map f (filter (\<lambda>r. q_id r \<noteq> qid) rows))"
    if "distinct (map q_id rows)" "fetch_optional (by_id qid) rows = Some r"
    for f :: "queue_row \<Rightarrow> nat" and rows
    using that
  proof (induction rows)
    case (Cons x rows)
    show ?case
    proof (cases "q_id x = qid")
      case True
      with Cons.prems have "x = r" "\<forall>y \<in> set rows. q_id y \<noteq> qid" by (auto simp: by_id_def image_iff)
      with True show ?thesis by (simp add: filter_True)
    next
      case False
      with Cons show ?thesis by (simp add: by_id_def)
    qed
  qed simp
  with assms show ?thesis by (simp add: pass_budget_def queue_inv_def row_of_def)
qed

lemma add_half_minute: "add_secs t 30 = t + half_minute"
  by (simp add: add_secs_def nanos_def half_minute_def nat_add_distrib)

lemma remaining_claims_drop:
  assumes due: "is_due c row" and clock: "t0 \<le> c" "c \<le> d" "c \<le> t1"
    and after: "\<not> has_status [Pending] r' \<or> (\<exists>t. q_next_retry_at r' = Some t \<and> add_secs d 30 \<le> t)"
  shows "remaining_claims t0 t1 r' + 1 \<le> remaining_claims t0 t1 row"
proof -
  let ?s = "max t0 (case q_next_retry_at row of None \<Rightarrow> 0 | Some t \<Rightarrow> t)"
  have s: "?s \<le> c" and row: "remaining_claims t0 t1 row = 1 + (t1 - ?s) div half_minute"
    using due clock by (auto simp: is_due_def remaining_claims_def split: option.splits)
  show ?thesis
  proof (cases "remaining_claims t0 t1 r' = 0")
    case True
    with row show ?thesis by simp
  next
    case False
    then obtain t where t: "q_next_retry_at r' = Some t" "d + half_minute \<le> t" "max t0 t \<le> t1"
      "remaining_claims t0 t1 r' = 1 + (t1 - max t0 t) div half_minute"
      using after by (auto simp: remaining_claims_def add_half_minute Let_def split: if_splits)
    have "0 < half_minute" by (simp add: half_minute_def)
    have "t1 - max t0 t + half_minute \<le> t1 - ?s" using t s clock by linarith
    then have "(t1 - max t0 t + half_minute) div half_minute \<le> (t1 - ?s) div half_minute"
      by (rule div_le_mono)
    then have "1 + (t1 - max t0 t) div half_minute \<le> (t1 - ?s) div half_minute"
      using \<open>0 < half_minute\<close> div_add_self2 [of half_minute "t1 - max t0 t"] by linarith
    with t(4) row show ?thesis by linarith
  qed
qed

text \<open>The clock readings of the turns of a pass: within the interval, and in order within a turn.\<close>

definition pass_clock :: "timestamp \<Rightarrow> timestamp \<Rightarrow> (nat \<Rightarrow> 'c drain_turn) \<Rightarrow> bool" where
  "pass_clock t0 t1 Ts \<longleftrightarrow>
     (\<forall>n. t0 \<le> dt_claim_at (Ts n) \<and> dt_claim_at (Ts n) \<le> dt_done_at (Ts n) \<and> dt_claim_at (Ts n) \<le> t1)"

lemma verdict_inv: "queue_inv db \<Longrightarrow> verdict tj t qid db db' \<Longrightarrow> queue_inv db'"
  unfolding verdict_def by (auto simp: queue_step_inv simp del: queue_step.simps)

lemma turn_inv:
  assumes "queue_inv (sy_db w)"
  shows "queue_inv (sy_db (snd (process_next_for_user lims E T uid w)))"
proof (rule process_next_cases [OF assms refl, of lims E T uid])
  assume "sy_db (snd (process_next_for_user lims E T uid w)) = sy_db w"
  with assms show ?thesis by simp
next
  fix row :: queue_row and item
  assume "settles lims E T item (fst (process_next_for_user lims E T uid w))
      (queue_step (we_to_json E) (dt_claim_at T) (EvClaim (q_id row)) (sy_db w))
      (sy_db (snd (process_next_for_user lims E T uid w)))"
  then show ?thesis
    using queue_step_inv [OF assms]
    by (auto simp: settles_def put_back_def left_running_def queue_step_inv intro: verdict_inv
        simp del: queue_step.simps)
qed

lemma turn_False_idle:
  assumes "queue_inv (sy_db w)" and "fst (process_next_for_user lims E T uid w) = Inr False"
  shows "sy_db (snd (process_next_for_user lims E T uid w)) = sy_db w"
proof -
  obtain r db where c: "claim_due_for_user (dt_claim_at T) uid (sy_db w) = (r, db)"
    by (cases "claim_due_for_user (dt_claim_at T) uid (sy_db w)")
  then have "db = sy_db w" if "r = Inr None"
    using that claim_due_cases [OF assms(1), of uid "dt_claim_at T" "we_to_json E"]
    by (auto split: if_splits simp del: queue_step.simps)
  then show ?thesis
    using assms(2) process_item_result [of lims E T uid _ "w\<lparr>sy_gate := g, sy_db := db\<rparr>" for g]
    by (cases r) (auto simp: process_next_for_user_def queue_db_def c split: if_splits option.splits)
qed

lemma turn_budget:
  assumes inv: "queue_inv (sy_db w)" and lims: "limits_ok lims"
    and clock: "t0 \<le> dt_claim_at T" "dt_claim_at T \<le> dt_done_at T" "dt_claim_at T \<le> t1"
    and turn: "process_next_for_user lims E T uid w = (Inr b, w')"
  shows "pass_budget t0 t1 (sy_db w') + (if b then 1 else 0) \<le> pass_budget t0 t1 (sy_db w)"
proof (cases b)
  case False
  with turn turn_False_idle [OF inv, of lims E T uid] show ?thesis by simp
next
  case True
  with turn have t: "process_next_for_user lims E T uid w = (Inr True, w')" by simp
  obtain row r' where row: "row \<in> set (qs_rows (sy_db w))" "is_due (dt_claim_at T) row"
    and r': "row_of (q_id row) (sy_db w') = Some r'"
    and after: "has_status [Done, Dead] r' \<and> q_next_retry_at r' = None
       \<or> has_status [Pending] r' \<and> retry_cause lims T r'
         \<and> (\<exists>t. q_next_retry_at r' = Some t \<and> add_secs (dt_done_at T) 30 \<le> t)"
    and others: "filter (\<lambda>r. q_id r \<noteq> q_id row) (qs_rows (sy_db w')) = filter (\<lambda>r. q_id r \<noteq> q_id row) (qs_rows (sy_db w))"
    using worked_row [OF inv lims t] by blast
  have inv': "queue_inv (sy_db w')" using turn_inv [OF inv, of lims E T uid] t by simp
  have "row_of (q_id row) (sy_db w) = Some row" using inv row(1) by (simp add: row_of_unique by_id_def)
  note b0 = pass_budget_split [OF inv this, of t0 t1] and b1 = pass_budget_split [OF inv' r', of t0 t1]
  have "remaining_claims t0 t1 r' + 1 \<le> remaining_claims t0 t1 row"
    using after by (intro remaining_claims_drop [OF row(2) clock]) (auto simp: has_status_def)
  with b0 b1 others True show ?thesis by simp
qed

lemma drain_users_budget:
  assumes "limits_ok lims" and "pass_clock t0 t1 Ts"
  shows "queue_inv (sy_db w) \<Longrightarrow> drain_users lims E Ts n uids w = (Inr (p, n'), w') \<Longrightarrow>
    queue_inv (sy_db w') \<and> pass_budget t0 t1 (sy_db w') + p \<le> pass_budget t0 t1 (sy_db w)"
proof (induction uids arbitrary: n w p)
  case (Cons uid uids)
  let ?w = "reconcile_notes E (Ts n) uid w"
  from Cons.prems obtain b w1 p1 where
    turn: "process_next_for_user lims E (Ts n) uid ?w = (Inr b, w1)"
    and rest: "drain_users lims E Ts (n + 1) uids w1 = (Inr (p1, n'), w')" and p: "p = (if b then p1 + 1 else p1)"
    by (auto split: prod.splits sum.splits)
  have "queue_inv (sy_db w1)"
    using turn_inv [of ?w lims E "Ts n" uid] turn Cons.prems(1) by simp
  moreover have "pass_budget t0 t1 (sy_db w1) + (if b then 1 else 0) \<le> pass_budget t0 t1 (sy_db w)"
    using turn_budget [OF _ assms(1) _ _ _ turn, of t0 t1] Cons.prems(1) assms(2) by (simp add: pass_clock_def)
  ultimately show ?case using Cons.IH [OF _ rest] p by auto
qed simp

lemma drain_loop_returns:
  assumes "limits_ok lims" and "pass_clock t0 t1 Ts"
  shows "queue_inv (sy_db w) \<Longrightarrow> pass_budget t0 t1 (sy_db w) < fuel \<Longrightarrow>
    drain_loop fuel lims E Ts n processed w \<noteq> None"
proof (induction fuel arbitrary: n processed w)
  case (Suc fuel)
  let ?users = "queue_users_with_due (dt_scan_at (Ts n)) (sy_db w)"
  show ?case
  proof (cases "drain_users lims E Ts n ?users w")
    case (Pair r w1)
    show ?thesis
    proof (cases r)
      case (Inl e)
      with Pair show ?thesis by (simp add: Let_def)
    next
      case (Inr pn)
      obtain p n' where pn: "pn = (p, n')" by (cases pn)
      from drain_users_budget [OF assms Suc.prems(1)] Pair Inr pn
      have "queue_inv (sy_db w1)" "pass_budget t0 t1 (sy_db w1) + p \<le> pass_budget t0 t1 (sy_db w)" by auto
      with Suc Pair Inr pn show ?thesis by (auto simp: Let_def)
    qed
  qed
qed simp

section \<open>Recovery of staging rows\<close>

text \<open>The decoded form of a well-formed row.\<close>

definition item_of :: "queue_row \<Rightarrow> mutation_queue_item" where
  "item_of r = \<lparr>mi_id = q_id r, mi_user_id = q_user_id r, mi_tool = the (queue_tool_from_str (q_tool r)),
     mi_status = the (queue_status_from_str (q_status r)), mi_attempts = attempts_u32 (q_attempts r),
     mi_detail = q_detail r, mi_created_at = q_created_at r, mi_updated_at = q_updated_at r,
     mi_next_retry_at = q_next_retry_at r, mi_final_paths = q_final_paths r, mi_source = q_source r\<rparr>"

lemma item_of_sel [simp]: "mi_id (item_of r) = q_id r" "mi_user_id (item_of r) = q_user_id r"
  by (simp_all add: item_of_def)

lemma queue_item_own:
  assumes "queue_inv db" and "r \<in> set (qs_rows db)"
  shows "queue_item (q_user_id r) (q_id r) db = Inr (Some (item_of r))"
proof -
  have "fetch_optional (\<lambda>r'. q_id r' = q_id r \<and> q_user_id r' = q_user_id r) (qs_rows db) = Some r"
    using assms by (intro fetch_optional_by_key [where k = q_id]) (auto simp: queue_inv_def)
  moreover have "row_ok db r" using assms by (simp add: queue_inv_def list_all_iff)
  ultimately show ?thesis by (auto simp: queue_item_def decode_item_def row_ok_def item_of_def)
qed

lemma rows_with_status_inv:
  assumes "queue_inv db"
  shows "rows_with_status s db =
    Inr (map item_of (order_by q_created_at (filter (has_status [s]) (qs_rows db))))"
proof -
  let ?rows = "order_by q_created_at (filter (has_status [s]) (qs_rows db))"
  have "collect_results (map (\<lambda>r. queue_item (q_user_id r) (q_id r) db) ?rows) = Inr (map (\<lambda>r. Some (item_of r)) ?rows)"
    by (rule collect_results_all_Inr) (auto intro!: queue_item_own [OF assms])
  moreover have "List.map_filter (\<lambda>i. i) (map (\<lambda>r. Some (item_of r)) rs) = map item_of rs" for rs
    by (induction rs) (simp_all add: List.map_filter_simps)
  ultimately show ?thesis by (simp add: rows_with_status_def)
qed

text \<open>What recovery does to a row.\<close>

definition recovered_row :: "'c worker_env \<Rightarrow> 'c drain_turn \<Rightarrow> (uuid \<Rightarrow> directory) \<Rightarrow> queue_row \<Rightarrow> queue_row" where
  "recovered_row E T dirs r =
     (case dt_recover T (q_user_id r) of
        Inl _ \<Rightarrow> r
      | Inr master \<Rightarrow>
          if payload_exists E master (q_id r) (dirs (q_user_id r))
          then r\<lparr>q_status := queue_status_as_str Pending, q_updated_at := dt_done_at T\<rparr>
          else r\<lparr>q_status := queue_status_as_str Dead, q_detail := payload_missing_at_recovery,
                 q_updated_at := dt_done_at T, q_next_retry_at := None\<rparr>)"

lemma delete_absent_payload:
  assumes "\<not> payload_exists E master qid (sy_dirs w uid)"
  shows "sy_dirs (delete_payload E uid master qid w) = sy_dirs w"
proof -
  let ?n = "stored_name (we_prims E) (file_keys_from_master_key (we_prims E) master)
      (payload_path (pl_show_uuid (we_payload E)) qid)"
  have "(sy_dirs w uid)(?n := None) = sy_dirs w uid"
    using assms by (auto simp: payload_exists_def)
  then show ?thesis
    by (auto simp: delete_payload_def delete_file_def scope_file_keys_def split: prod.splits sum.splits)
qed

lemma row_of_own_event:
  assumes "\<not> is_enqueue e" and own: "\<And>r'. event_pred e r' \<Longrightarrow> q_id r' = k"
    and "row_of k db = Some r" and "event_pred e r"
  shows "row_of qid (queue_step tj t e db) =
    (if qid = k then Some (event_update tj t e r) else row_of qid db)"
proof (cases "qid = k")
  case True
  then show ?thesis unfolding row_of_update [OF assms(1)] using assms(3,4) by simp
next
  case False
  have "\<not> event_pred e r'" if "row_of qid db = Some r'" for r'
    using that own [of r'] False by (auto simp: by_id_def dest!: row_of_SomeD)
  with False show ?thesis
    unfolding row_of_update [OF assms(1)] by (cases "row_of qid db") simp_all
qed

lemma recover_item_cases:
  assumes r: "has_status [Staging] r"
  obtains (later) "recover_item E T (item_of r) w = (Inr (), w)" "recovered_row E T (sy_dirs w) r = r"
  | (verdict) e w' where "recover_item E T (item_of r) w = (Inr (), w')" "sy_dirs w' = sy_dirs w"
      "sy_db w' = queue_step (we_to_json E) (dt_done_at T) e (sy_db w)" "\<not> is_enqueue e" "event_pred e r"
      "\<And>r'. event_pred e r' \<Longrightarrow> q_id r' = q_id r"
      "recovered_row E T (sy_dirs w) r = event_update (we_to_json E) (dt_done_at T) e r"
proof (cases "dt_recover T (q_user_id r)")
  case (Inl e)
  then show ?thesis by (intro later) (simp_all add: recover_item_def recovered_row_def)
next
  case (Inr master)
  let ?tj = "we_to_json E"
  show ?thesis
  proof (cases "payload_exists E master (q_id r) (sy_dirs w (q_user_id r))")
    case True
    with Inr r show ?thesis
      by (intro verdict [of "w\<lparr>sy_db := queue_step ?tj (dt_done_at T) (EvActivate (q_id r)) (sy_db w)\<rparr>" "EvActivate (q_id r)"])
        (auto simp: recover_item_def recovered_row_def queue_db_marks(4) [where tj = ?tj] by_id_def has_status_def
          simp del: queue_step.simps queue_status_as_str.simps)
  next
    case False
    with Inr delete_absent_payload [of E master "q_id r" "w\<lparr>sy_db := db\<rparr>" "q_user_id r" for db] show ?thesis
      by (intro verdict [of "delete_payload E (q_user_id r) master (q_id r) (w\<lparr>sy_db :=
            queue_step ?tj (dt_done_at T) (EvDead (q_id r) payload_missing_at_recovery) (sy_db w)\<rparr>)"
            "EvDead (q_id r) payload_missing_at_recovery"])
        (auto simp: recover_item_def recovered_row_def mark_item_dead_eq [where tj = ?tj] by_id_def
          simp del: queue_step.simps queue_status_as_str.simps)
  qed
qed

lemma recover_item_step:
  assumes "queue_inv (sy_db w)" and "row_of (q_id r) (sy_db w) = Some r" and "has_status [Staging] r"
  shows "\<exists>w'. recover_item E T (item_of r) w = (Inr (), w') \<and> sy_dirs w' = sy_dirs w
    \<and> queue_inv (sy_db w') \<and> length (qs_rows (sy_db w')) = length (qs_rows (sy_db w))
    \<and> (\<forall>qid. row_of qid (sy_db w') =
      (if qid = q_id r then Some (recovered_row E T (sy_dirs w) r) else row_of qid (sy_db w)))"
proof (rule recover_item_cases [OF assms(3), of E T w])
  assume "recover_item E T (item_of r) w = (Inr (), w)" "recovered_row E T (sy_dirs w) r = r"
  with assms show ?thesis by (intro exI [of _ w]) simp
next
  fix e w'
  assume e: "recover_item E T (item_of r) w = (Inr (), w')" "sy_dirs w' = sy_dirs w"
    "sy_db w' = queue_step (we_to_json E) (dt_done_at T) e (sy_db w)" "\<not> is_enqueue e" "event_pred e r"
    "\<And>r'. event_pred e r' \<Longrightarrow> q_id r' = q_id r"
    "recovered_row E T (sy_dirs w) r = event_update (we_to_json E) (dt_done_at T) e r"
  have "row_of qid (sy_db w') =
      (if qid = q_id r then Some (recovered_row E T (sy_dirs w) r) else row_of qid (sy_db w))" for qid
    unfolding e(3,7) by (rule row_of_own_event [OF e(4,6) assms(2) e(5)])
  moreover have "length (qs_rows (sy_db w')) = length (qs_rows (sy_db w))"
    unfolding e(3) queue_step_update [OF e(4)] by simp
  moreover have "queue_inv (sy_db w')" unfolding e(3) by (rule queue_step_inv [OF assms(1)])
  ultimately show ?thesis using e(1,2) by (intro exI [of _ w']) blast
qed

lemma recover_items_rows:
  assumes "queue_inv (sy_db w)" and "distinct (map q_id rs)"
    and "\<forall>r \<in> set rs. row_of (q_id r) (sy_db w) = Some r \<and> has_status [Staging] r"
  shows "\<exists>w'. recover_items E T (map item_of rs) w = (Inr (), w') \<and> sy_dirs w' = sy_dirs w
    \<and> queue_inv (sy_db w') \<and> length (qs_rows (sy_db w')) = length (qs_rows (sy_db w))
    \<and> (\<forall>r \<in> set rs. row_of (q_id r) (sy_db w') = Some (recovered_row E T (sy_dirs w) r))
    \<and> (\<forall>qid. qid \<notin> q_id ` set rs \<longrightarrow> row_of qid (sy_db w') = row_of qid (sy_db w))"
  using assms
proof (induction rs arbitrary: w)
  case (Cons r rs)
  from Cons.prems have r: "row_of (q_id r) (sy_db w) = Some r" "has_status [Staging] r" by simp_all
  obtain w1 where w1: "recover_item E T (item_of r) w = (Inr (), w1)" "sy_dirs w1 = sy_dirs w"
    "queue_inv (sy_db w1)" "length (qs_rows (sy_db w1)) = length (qs_rows (sy_db w))"
    "\<forall>qid. row_of qid (sy_db w1) =
      (if qid = q_id r then Some (recovered_row E T (sy_dirs w) r) else row_of qid (sy_db w))"
    using recover_item_step [OF Cons.prems(1) r, of E T] by blast
  have "\<forall>r' \<in> set rs. row_of (q_id r') (sy_db w1) = Some r' \<and> has_status [Staging] r'"
    using Cons.prems(2,3) w1(5) by (auto simp: image_iff)
  with Cons.IH [OF w1(3)] Cons.prems(2) obtain w' where
    w': "recover_items E T (map item_of rs) w1 = (Inr (), w')" "sy_dirs w' = sy_dirs w1"
    "queue_inv (sy_db w')" "length (qs_rows (sy_db w')) = length (qs_rows (sy_db w1))"
    "\<forall>r \<in> set rs. row_of (q_id r) (sy_db w') = Some (recovered_row E T (sy_dirs w1) r)"
    "\<forall>qid. qid \<notin> q_id ` set rs \<longrightarrow> row_of qid (sy_db w') = row_of qid (sy_db w1)"
    by auto
  with Cons.prems(2) w1 show ?case by (intro exI [of _ w']) auto
qed simp

lemma recover_staging_rows:
  assumes "queue_inv (sy_db w)"
  shows "\<exists>w'. recover_staging E T w = (Inr (), w') \<and> sy_dirs w' = sy_dirs w \<and> queue_inv (sy_db w')
    \<and> length (qs_rows (sy_db w')) = length (qs_rows (sy_db w))
    \<and> (\<forall>r \<in> set (qs_rows (sy_db w)). row_of (q_id r) (sy_db w') =
         Some (if has_status [Staging] r then recovered_row E T (sy_dirs w) r else r))"
proof -
  let ?rs = "order_by q_created_at (filter (has_status [Staging]) (qs_rows (sy_db w)))"
  have key: "row_of (q_id r) (sy_db w) = Some r" if "r \<in> set (qs_rows (sy_db w))" for r
    using assms that by (simp add: row_of_unique by_id_def)
  have inj: "r' = r" if "r \<in> set (qs_rows (sy_db w))" "r' \<in> set (qs_rows (sy_db w))" "q_id r' = q_id r" for r r'
    using key [OF that(1)] key [OF that(2)] that(3) by simp
  have dist: "distinct (map q_id ?rs)"
    using assms unfolding queue_inv_def order_by_def distinct_map by (auto intro: inj_on_subset)
  have "\<forall>r \<in> set ?rs. row_of (q_id r) (sy_db w) = Some r \<and> has_status [Staging] r"
    using key by simp
  from recover_items_rows [OF assms dist this, of E T]
  obtain w' where w': "recover_items E T (map item_of ?rs) w = (Inr (), w')" "sy_dirs w' = sy_dirs w"
    "queue_inv (sy_db w')" "length (qs_rows (sy_db w')) = length (qs_rows (sy_db w))"
    "\<forall>r \<in> set ?rs. row_of (q_id r) (sy_db w') = Some (recovered_row E T (sy_dirs w) r)"
    "\<forall>qid. qid \<notin> q_id ` set ?rs \<longrightarrow> row_of qid (sy_db w') = row_of qid (sy_db w)"
    by blast
  have "row_of (q_id r) (sy_db w') = Some (if has_status [Staging] r then recovered_row E T (sy_dirs w) r else r)"
    if "r \<in> set (qs_rows (sy_db w))" for r
  proof (cases "has_status [Staging] r")
    case False
    with inj that have "q_id r \<notin> q_id ` set ?rs" by auto
    with w'(6) key [OF that] False show ?thesis by simp
  qed (use w'(5) that in simp)
  with w'(1-4) show ?thesis
    by (intro exI [of _ w']) (simp add: recover_staging_def staging_rows_def rows_with_status_inv [OF assms])
qed

text \<open>
  Recovery of staging rows gives the verdict the payload deserves and never a wrong one.  It always
  completes; a row that is not staging, or whose user's key is not available, is left alone; a
  staging row becomes pending when its payload is on disk and dead, with the advice to re-submit,
  when it is not.  Nothing on disk changes.\<close>
theorem recover_staging_verdicts:
  assumes "queue_inv (sy_db w)"
  shows "\<exists>w'. recover_staging E T w = (Inr (), w') \<and> sy_dirs w' = sy_dirs w \<and> queue_inv (sy_db w')
    \<and> (\<forall>r \<in> set (qs_rows (sy_db w)). \<exists>r'. row_of (q_id r) (sy_db w') = Some r'
        \<and> (if \<not> has_status [Staging] r then r' = r
           else case dt_recover T (q_user_id r) of
             Inl _ \<Rightarrow> r' = r
           | Inr master \<Rightarrow>
               if payload_exists E master (q_id r) (sy_dirs w (q_user_id r)) then has_status [Pending] r'
               else has_status [Dead] r' \<and> q_detail r' = payload_missing_at_recovery))"
proof -
  from recover_staging_rows [OF assms, of E T] obtain w' where w': "recover_staging E T w = (Inr (), w')"
    "sy_dirs w' = sy_dirs w" "queue_inv (sy_db w')"
    "\<forall>r \<in> set (qs_rows (sy_db w)). row_of (q_id r) (sy_db w') =
         Some (if has_status [Staging] r then recovered_row E T (sy_dirs w) r else r)"
    by blast
  then show ?thesis
    by (intro exI [of _ w'])
      (auto simp: recovered_row_def simp del: queue_status_as_str.simps split: sum.split)
qed

theorem recover_staging_verdicts_witness:
  "\<exists>w'. recover_staging demo_env (demo_turn\<lparr>dt_recover := \<lambda>_. Inr (MasterKey (replicate 32 3))\<rparr>) demo_sys = (Inr (), w')
    \<and> queue_inv (sy_db w')"
proof -
  have "queue_inv (sy_db demo_sys)" using sample_queue_inv by (simp add: demo_sys_def)
  from recover_staging_verdicts [OF this, of demo_env "demo_turn\<lparr>dt_recover := \<lambda>_. Inr (MasterKey (replicate 32 3))\<rparr>"]
  show ?thesis by blast
qed

lemma pass_budget_bound:
  "pass_budget t0 t1 db \<le> length (qs_rows db) * (1 + (t1 - t0) div half_minute)"
proof -
  have "remaining_claims t0 t1 r \<le> 1 + (t1 - t0) div half_minute" for r
    by (auto simp: remaining_claims_def Let_def intro!: div_le_mono)
  then have "sum_list (map (remaining_claims t0 t1) rows) \<le> length rows * (1 + (t1 - t0) div half_minute)" for rows
  proof (induction rows)
    case (Cons r rows)
    from add_mono [OF Cons.prems [of r] Cons.IH [OF Cons.prems]] show ?case by simp
  qed simp
  then show ?thesis by (simp add: pass_budget_def)
qed

text \<open>C24.  
  A drain pass ends.  Whatever the agent, the fallback and the concept store do, and whether keys
  come and go, the pass returns after at most one round per item and half minute of elapsed time:
  an item that is put back is not due again within the next 30 s, so the loop cannot spin.\<close>
theorem run_pending_ends:
  assumes "queue_inv (sy_db w)" and "limits_ok lims" and "pass_clock t0 t1 Ts"
    and "length (qs_rows (sy_db w)) * (1 + (t1 - t0) div half_minute) < fuel"
  shows "\<exists>r w'. run_pending fuel lims E Ts w = Some (r, w')"
proof -
  from recover_staging_rows [OF assms(1), of E "Ts 0"] obtain w1 where w1:
    "recover_staging E (Ts 0) w = (Inr (), w1)" "queue_inv (sy_db w1)"
    "length (qs_rows (sy_db w1)) = length (qs_rows (sy_db w))" by blast
  have "pass_budget t0 t1 (sy_db w1) < fuel"
    using pass_budget_bound [of t0 t1 "sy_db w1"] assms(4) w1(3) by simp
  from drain_loop_returns [OF assms(2,3) w1(2) this, of E 0 0] w1(1) show ?thesis
    by (auto simp: run_pending_def)
qed

theorem run_pending_ends_witness:
  "\<exists>r w'. run_pending 4 default_limits demo_env (\<lambda>_. demo_turn) demo_sys = Some (r, w')"
proof (rule run_pending_ends [of _ _ 30 31])
  show "queue_inv (sy_db demo_sys)" using sample_queue_inv by (simp add: demo_sys_def)
  show "limits_ok default_limits" by (rule default_limits_ok)
  show "pass_clock 30 31 (\<lambda>_. demo_turn)" by (simp add: pass_clock_def demo_turn_def)
  show "length (qs_rows (sy_db demo_sys)) * (1 + (31 - 30) div half_minute) < 4"
    by (simp add: demo_sys_def sample_queue_def half_minute_def)
qed

section \<open>The gate slot of a turn\<close>

lemma drop_after_try_enter:
  assumes "try_enter g = Some g'"
  shows "g_queue (drop_permit t None g') = g_queue g \<and> g_active (drop_permit t None g') = g_active g
    \<and> g_per_user (drop_permit t None g') = g_per_user g \<and> g_mail (drop_permit t None g') = g_mail g
    \<and> mset (g_permits (drop_permit t None g')) = mset (g_permits g)"
  using assms
  by (auto simp: try_enter_def drop_permit_def release_def dispatch_def notify_positions_def free_slot_def
      take_slot_def Let_def dispatch_loop.simps remove1_append split: if_splits)

lemma finish_gate [simp]:
  "sy_gate (snd (finish_success E T item master res w)) = sy_gate w"
  "sy_gate (snd (settle_fallback E T item master why outcome w)) = sy_gate w"
  by (simp_all add: finish_success_def settle_fallback_def queue_db_marks(1)
      mark_item_dead_eq [where tj = "we_to_json E"] finish_note_sel split: sum.split)

lemma run_fallback_gate [simp]: "sy_gate (snd (run_fallback E T item mo why w)) = sy_gate w"
  by (simp add: run_fallback_def mark_item_dead_eq [where tj = "we_to_json E"] case_prod_beta
      split: option.split sum.split)

lemma process_item_gate: "\<exists>t. sy_gate (snd (process_item lims E T uid item w)) = drop_permit t None (sy_gate w)"
  by (auto simp: process_item_def settle_run_def payload_dead_def defer_retry_def Let_def case_prod_beta
      queue_db_def mark_item_dead_eq [where tj = "we_to_json E"] split: sum.split option.split)

text \<open>
  The drain respects the interactive users and the backend.  While the backend is Red, or the gate
  has no free slot or somebody waits, a turn changes nothing at all; and a turn that gets a slot has
  returned it when it ends, on every path: no claim, key loss, dead payload, retry, fallback,
  success, a panic of the run, an error.\<close>
theorem turn_returns_slot:
  assumes "process_next_for_user lims E T uid w = (r, w')"
  shows "(dt_health T = Red \<or> try_enter (sy_gate w) = None \<longrightarrow> r = Inr False \<and> w' = w)
    \<and> g_queue (sy_gate w') = g_queue (sy_gate w) \<and> g_active (sy_gate w') = g_active (sy_gate w)
    \<and> g_per_user (sy_gate w') = g_per_user (sy_gate w) \<and> g_mail (sy_gate w') = g_mail (sy_gate w)
    \<and> mset (g_permits (sy_gate w')) = mset (g_permits (sy_gate w))"
proof (cases "dt_health T = Red \<or> try_enter (sy_gate w) = None")
  case True
  with assms show ?thesis by (auto simp: process_next_for_user_def split: if_splits)
next
  case False
  then obtain g where g: "dt_health T \<noteq> Red" "try_enter (sy_gate w) = Some g" by auto
  obtain res db where c: "claim_due_for_user (dt_claim_at T) uid (sy_db w) = (res, db)"
    by (cases "claim_due_for_user (dt_claim_at T) uid (sy_db w)")
  have item: "\<exists>t. sy_gate w' = drop_permit t None g"
    if "process_item lims E T uid item (w\<lparr>sy_gate := g, sy_db := db\<rparr>) = (r, w')" for item
    using process_item_gate [of lims E T uid item "w\<lparr>sy_gate := g, sy_db := db\<rparr>"] that by simp
  have "\<exists>t. sy_gate w' = drop_permit t None g"
    using assms g c item
    by (cases res) (auto simp: process_next_for_user_def queue_db_def split: option.splits)
  then show ?thesis using drop_after_try_enter [OF g(2)] g by auto
qed

theorem turn_returns_slot_witness:
  "g_active (sy_gate (snd (process_next_for_user default_limits demo_env demo_turn 7 demo_sys))) = 0"
  using turn_returns_slot [OF prod.collapse [of "process_next_for_user default_limits demo_env demo_turn 7 demo_sys", symmetric]]
  by (simp add: demo_sys_def new_gate_def)

section \<open>Maintenance that fails\<close>

text \<open>
  A claimed maintenance item whose deterministic fallback meets a store error gets no verdict: the
  error leaves the turn, the row stays running with its attempt counted, and since claims take
  pending rows only, no later turn touches it; only the boot sweep does.\<close>
theorem maintain_failure_strands_item:
  assumes inv: "queue_inv (sy_db w)" and "dt_health T \<noteq> Red" and "try_enter (sy_gate w) = Some g"
    and row: "row \<in> set (qs_rows (sy_db w))" "q_user_id row = uid" "is_due (dt_claim_at T) row"
    and only: "\<forall>r \<in> set (qs_rows (sy_db w)). q_user_id r = uid \<and> is_due (dt_claim_at T) r \<longrightarrow> r = row"
    and key: "dt_recover T uid = Inr master"
    and payload: "read_payload (we_prims E) (we_meta E) (we_payload E) master (q_id row) (sy_dirs w uid) = Inr (Some payload)"
      "mp_tool payload = Maintain"
    and aged: "ql_age_deadline_secs lims \<le> secs_since (dt_age_at T) (q_created_at row)"
    and wire: "ca_list (we_cs E) uid master (fst (sy_concepts w)) = Inr before"
      "\<forall>src. \<exists>c. wire_and_flag_maintain (we_cs E) uid master src (sy_concepts w) = (Inl e, c)"
  shows "\<exists>w' r'. process_next_for_user lims E T uid w = (Inl (Worker_store e), w')
    \<and> row_of (q_id row) (sy_db w') = Some r' \<and> has_status [Running] r' \<and> q_attempts r' = q_attempts row + 1
    \<and> (\<forall>now. \<not> is_due now r')"
proof -
  let ?tj = "we_to_json E"
  let ?db = "queue_step ?tj (dt_claim_at T) (EvClaim (q_id row)) (sy_db w)"
  from claim_due_cases [OF inv, of uid "dt_claim_at T" ?tj] row only obtain item where
    item: "claim_due_for_user (dt_claim_at T) uid (sy_db w) = (Inr (Some item), ?db)"
    "mi_id item = q_id row" "mi_user_id item = uid" "mi_created_at item = q_created_at row"
    by (metis (no_types, lifting))
  obtain c where c: "wire_and_flag_maintain (we_cs E) uid master (mi_source item) (sy_concepts w) = (Inl e, c)"
    using wire(2) by blast
  have "sy_db (snd (process_next_for_user lims E T uid w)) = ?db
      \<and> fst (process_next_for_user lims E T uid w) = Inl (Worker_store e)"
    using assms(2,3) item key payload aged wire(1) c
    by (simp add: process_next_for_user_def queue_db_def process_item_def age_past_def run_fallback_def
        fallback_outcome_def Let_def del: queue_step.simps str_Cons)
  moreover have "row_of (q_id row) ?db = Some (event_update ?tj (dt_claim_at T) (EvClaim (q_id row)) row)"
    using inv row by (subst row_of_update) (simp_all add: row_of_unique by_id_def claimable_def is_due_def)
  ultimately show ?thesis
    by (intro exI [of _ "snd (process_next_for_user lims E T uid w)"] exI)
      (auto simp: is_due_def prod_eq_iff simp del: queue_status_as_str.simps queue_step.simps)
qed

end
