(* ===== verification/Queue_Enqueue.thy ===== *)
theory Queue_Enqueue
  imports Queue_Drain
begin

text \<open>
  The way of a mutation into the queue: an accepted mutation is a pending row with a readable
  payload.  This holds when the enqueue is not interrupted; a drain pass between the row and the
  payload takes the unfinished enqueue for an interrupted one and the mutation is lost.
\<close>

section \<open>Steps\<close>

lemma enqueue_row_Inr:
  assumes "queue_inv (sy_db w)" and "enqueue_row R w = (Inr qid, w1)"
  shows "qid = rq_new_id R" and "queue_inv (sy_db w1)" and "sy_dirs w1 = sy_dirs w"
    and "row_of qid (sy_db w1) = Some (staged_row qid (rq_at R) (rq_user R) (rq_tool R) (rq_source R))"
    and "staged_row qid (rq_at R) (rq_user R) (rq_tool R) (rq_source R) \<in> set (qs_rows (sy_db w1))"
proof -
  let ?e = "EvEnqueue (rq_new_id R) (rq_user R) (rq_tool R) (rq_depth_cap R) (rq_source R)"
  obtain res where c: "enqueue_capped (rq_new_id R) (rq_at R) (rq_user R) (rq_tool R) (rq_depth_cap R) (rq_source R) (sy_db w)
      = (res, sy_db w1)" and res: "map_sum Enq_queue (\<lambda>x. x) res = Inr qid"
    and w1: "sy_dirs w1 = sy_dirs w"
    using assms(2) by (auto simp: enqueue_row_def split: prod.splits)
  then have db: "sy_db w1 = queue_step (\<lambda>_. None) (rq_at R) ?e (sy_db w)" by simp
  from res have "res = Inr qid" by (cases res) simp_all
  with c have new: "qid = rq_new_id R" "\<not> (\<exists>r \<in> set (qs_rows (sy_db w)). q_id r = qid)"
    and rows: "qs_rows (sy_db w1) = qs_rows (sy_db w) @ [staged_row qid (rq_at R) (rq_user R) (rq_tool R) (rq_source R)]"
    by (auto simp: enqueue_capped_def enqueue_def split: if_splits dest!: arg_cong [where f = qs_rows])
  show "qid = rq_new_id R" by (rule new(1))
  show "queue_inv (sy_db w1)" unfolding db by (rule queue_step_inv [OF assms(1)])
  then show "row_of qid (sy_db w1) = Some (staged_row qid (rq_at R) (rq_user R) (rq_tool R) (rq_source R))"
    by (intro row_of_unique) (simp_all add: rows by_id_def)
  show "staged_row qid (rq_at R) (rq_user R) (rq_tool R) (rq_source R) \<in> set (qs_rows (sy_db w1))"
    by (simp add: rows)
  show "sy_dirs w1 = sy_dirs w" by (rule w1)
qed

lemma enqueue_payload_Inr:
  assumes "enqueue_payload E R master qid w = (Inr u, w')"
  obtains d where "write_payload (we_prims E) (we_meta E) (we_payload E) (rq_nonce1 R) (rq_nonce2 R) (rq_tmp R) master qid
      (request_payload R) (sy_dirs w (rq_user R)) = (Inr (), d)" "sy_db w' = sy_db w"
    "sy_dirs w' = (sy_dirs w)(rq_user R := d)"
  using assms by (auto simp: enqueue_payload_def split: prod.splits sum.splits)

lemma enqueue_note_Inr:
  "enqueue_note E R master qid w = (Inr u, w') \<Longrightarrow> sy_db w' = sy_db w \<and> sy_dirs w' = sy_dirs w"
  by (auto simp: enqueue_note_def Let_def split: if_splits prod.splits sum.splits)

lemma enqueue_activate_eq:
  "enqueue_activate R qid w =
     (Inr qid, w\<lparr>sy_db := queue_step (\<lambda>_. None) (rq_at R) (EvActivate qid) (sy_db w)\<rparr>)"
  by (simp add: enqueue_activate_def activate_def)

text \<open>The steps of an accepted enqueue.\<close>

lemma enqueue_mutation_Inr:
  assumes "enqueue_mutation E R (Inr master) meanwhile w = (Inr qid, w')"
  obtains w1 d where "enqueue_row R w = (Inr qid, w1)"
    "write_payload (we_prims E) (we_meta E) (we_payload E) (rq_nonce1 R) (rq_nonce2 R) (rq_tmp R) master qid
       (request_payload R) (sy_dirs (meanwhile w1) (rq_user R)) = (Inr (), d)"
    "sy_db w' = queue_step (\<lambda>_. None) (rq_at R) (EvActivate qid) (sy_db (meanwhile w1))"
    "sy_dirs w' (rq_user R) = d"
proof -
  obtain q w1 where w1: "enqueue_row R w = (Inr q, w1)"
    using assms by (auto simp: enqueue_mutation_def split: prod.splits sum.splits)
  obtain u2 w2 where w2: "enqueue_payload E R master q (meanwhile w1) = (Inr u2, w2)"
    using assms w1 by (auto simp: enqueue_mutation_def split: prod.splits sum.splits)
  obtain u3 w3 where w3: "enqueue_note E R master q w2 = (Inr u3, w3)"
    using assms w1 w2 by (auto simp: enqueue_mutation_def split: prod.splits sum.splits)
  have q: "q = qid" and w': "w' = w3\<lparr>sy_db := queue_step (\<lambda>_. None) (rq_at R) (EvActivate qid) (sy_db w3)\<rparr>"
    using assms w1 w2 w3 by (auto simp: enqueue_mutation_def enqueue_activate_eq simp del: queue_step.simps)
  obtain d where d: "write_payload (we_prims E) (we_meta E) (we_payload E) (rq_nonce1 R) (rq_nonce2 R) (rq_tmp R) master q
      (request_payload R) (sy_dirs (meanwhile w1) (rq_user R)) = (Inr (), d)" "sy_db w2 = sy_db (meanwhile w1)"
    "sy_dirs w2 = (sy_dirs (meanwhile w1))(rq_user R := d)"
    by (rule enqueue_payload_Inr [OF w2])
  show thesis
    using w1 d enqueue_note_Inr [OF w3] q w' by (intro that [of w1 d]) (simp_all del: queue_step.simps)
qed

lemma activate_row:
  assumes "row_of qid db = Some r"
  shows "row_of qid (queue_step tj t (EvActivate qid) db) =
    Some (if has_status [Staging, Pending] r then r\<lparr>q_status := queue_status_as_str Pending, q_updated_at := t\<rparr> else r)"
  using assms row_of_SomeD [OF assms] by (subst row_of_update) simp_all

lemma payload_written_reads:
  assumes "good_prims P" and "good_json J" and "good_payload_json L" and "length n1 = 12" and "length n2 = 12"
    and w: "write_payload P J L n1 n2 u master qid content d = (Inr (), d')" and "fits d'"
  shows "read_payload P J L master qid d' = Inr (Some content)"
proof -
  from w obtain b where b: "payload_to_json L content = Some b"
    "write_file P J n1 n2 u (payload_path (pl_show_uuid L) qid) b (User_scope master) d = (Inr (), d')"
    by (auto simp: write_payload_def split: option.splits)
  have n: "length n1 = NONCE_LEN" "length n2 = NONCE_LEN" using assms(4,5) by (simp_all add: NONCE_LEN_def)
  from write_then_read(1) [OF assms(1,2) n b(2) assms(7)] assms(3) b(1) show ?thesis
    by (simp add: read_payload_def good_payload_json_def)
qed

section \<open>Accepted means durable\<close>


section \<open>A drain pass in between\<close>

text \<open>
  The enqueue races with recovery.  If a drain pass that can recover the user's key runs its staging
  recovery between the row and the payload of an enqueue, the caller still gets its receipt, but the
  row is dead, can never become due, and the activation does nothing: the accepted mutation is lost.\<close>
theorem recovery_kills_enqueue:
  assumes "queue_inv (sy_db w)" and key: "dt_recover T (rq_user R) = Inr master"
    and fresh: "\<not> payload_exists E master (rq_new_id R) (sy_dirs w (rq_user R))"
    and enq: "enqueue_mutation E R (Inr master) (\<lambda>w. snd (recover_staging E T w)) w = (Inr qid, w')"
  shows "\<exists>r. row_of qid (sy_db w') = Some r \<and> q_user_id r = rq_user R \<and> has_status [Dead] r
    \<and> q_detail r = payload_missing_at_recovery \<and> (\<forall>now. \<not> is_due now r)"
proof -
  obtain w1 where s: "enqueue_row R w = (Inr qid, w1)"
    "sy_db w' = queue_step (\<lambda>_. None) (rq_at R) (EvActivate qid) (sy_db (snd (recover_staging E T w1)))"
    by (rule enqueue_mutation_Inr [OF enq])
  let ?r = "staged_row qid (rq_at R) (rq_user R) (rq_tool R) (rq_source R)"
  note e = enqueue_row_Inr [OF assms(1) s(1)]
  from recover_staging_rows [OF e(2), of E T] obtain w2 where w2: "recover_staging E T w1 = (Inr (), w2)"
    "\<forall>r \<in> set (qs_rows (sy_db w1)). row_of (q_id r) (sy_db w2) =
         Some (if has_status [Staging] r then recovered_row E T (sy_dirs w1) r else r)" by blast
  have "recovered_row E T (sy_dirs w1) ?r = ?r\<lparr>q_status := queue_status_as_str Dead,
      q_detail := payload_missing_at_recovery, q_updated_at := dt_done_at T, q_next_retry_at := None\<rparr>"
    using key fresh e(1,3) by (simp add: recovered_row_def)
  with w2(2) e(5) have "row_of qid (sy_db w2) = Some (?r\<lparr>q_status := queue_status_as_str Dead,
      q_detail := payload_missing_at_recovery, q_updated_at := dt_done_at T, q_next_retry_at := None\<rparr>)"
    by (force simp: has_status_def simp del: queue_status_as_str.simps)
  from activate_row [OF this] show ?thesis
    unfolding s(2) w2(1) by (auto simp: is_due_def simp del: queue_status_as_str.simps queue_step.simps)
qed

section \<open>Instances\<close>

definition demo_request :: request where
  "demo_request = \<lparr>rq_user = 7, rq_source = [], rq_tool = Add, rq_content = str ''x'', rq_args_json = [],
     rq_depth_cap = 50, rq_new_id = 5, rq_at = 40, rq_nonce1 = replicate 12 0, rq_nonce2 = replicate 12 0, rq_tmp = []\<rparr>"

definition demo_key :: master_key where "demo_key = MasterKey (replicate 32 3)"

lemma good_toy_payload_json: "good_payload_json toy_payload_json"
  by (auto simp: good_payload_json_def toy_payload_json_def split: if_splits)

lemma demo_env_good:
  "good_prims (we_prims demo_env)" "good_json (we_meta demo_env)" "good_payload_json (we_payload demo_env)"
  by (simp_all add: demo_env_def good_toy_prims good_ascii_json good_toy_payload_json)

text \<open>Writing a small payload into an empty directory succeeds, whatever the codec maps to one byte.\<close>

lemma small_payload_written:
  assumes "pl_show_uuid L = show_nat" and "payload_to_json L content = Some [b]"
    and "qid < 10"
  shows "\<exists>d. write_payload toy_prims ascii_json L (replicate 12 0) (replicate 12 0) [] demo_key qid content Map.empty
      = (Inr (), d) \<and> fits d"
proof -
  have "\<exists>outer. stored_bytes toy_prims ascii_json (replicate 12 0) (replicate 12 0)
      (payload_path show_nat qid) [b] (User_scope demo_key) = Inr outer \<and> length outer < 2 ^ 64"
    using assms(3)
    by (simp add: stored_bytes_def Let_def ascii_json_def is_scalar_def aead_seal_def scope_file_keys_def
        file_keys_from_master_key_def derive_dek_from_def dek_for_name_def crypto_err_def toy_prims_def to_bytes_def
        utf8_char_def payload_path_def show_nat.simps [of qid] demo_key_def)
  then obtain outer where "stored_bytes toy_prims ascii_json (replicate 12 0) (replicate 12 0)
      (payload_path show_nat qid) [b] (User_scope demo_key) = Inr outer" "length outer < 2 ^ 64" by blast
  then show ?thesis
    using assms(1,2)
    by (auto simp: write_payload_def write_file_def write_ops_def validate_path_def
        payload_path_def starts_with_def fs_run_write Let_def fits_def split: if_splits)
qed

lemma demo_enqueue_row:
  "\<exists>w1. enqueue_row demo_request demo_sys = (Inr 5, w1) \<and> sy_dirs w1 = (\<lambda>_. Map.empty) \<and> sy_concepts w1 = ([], None)
     \<and> queue_inv (sy_db w1)"
proof -
  have "fst (enqueue_row demo_request demo_sys) = Inr 5 \<and> sy_dirs (snd (enqueue_row demo_request demo_sys)) = (\<lambda>_. Map.empty)
      \<and> sy_concepts (snd (enqueue_row demo_request demo_sys)) = ([], None)"
    by (simp add: enqueue_row_def enqueue_capped_def enqueue_def demo_request_def demo_sys_def user_depth_def
        sample_queue_def non_terminal_def has_status_def)
  moreover have "queue_inv (sy_db demo_sys)" using sample_queue_inv by (simp add: demo_sys_def)
  ultimately show ?thesis using enqueue_row_Inr(2) by (metis prod.collapse)
qed

lemma demo_enqueue_rest:
  assumes "enqueue_row demo_request demo_sys = (Inr 5, w1)" and "sy_dirs (meanwhile w1) = (\<lambda>_. Map.empty)"
  shows "\<exists>w'. enqueue_mutation demo_env demo_request (Inr demo_key) meanwhile demo_sys = (Inr 5, w') \<and> fits (sy_dirs w' 7)"
proof -
  have pl: "pl_show_uuid toy_payload_json = show_nat" "payload_to_json toy_payload_json (request_payload demo_request) = Some [1]"
    by (simp_all add: toy_payload_json_def request_payload_def demo_request_def)
  obtain d where "write_payload toy_prims ascii_json toy_payload_json (replicate 12 0) (replicate 12 0) [] demo_key 5
      (request_payload demo_request) Map.empty = (Inr (), d)" "fits d"
    using small_payload_written [OF pl, of 5] by auto
  note d = this
  have rq: "rq_user demo_request = 7" "rq_nonce1 demo_request = replicate 12 0"
    "rq_nonce2 demo_request = replicate 12 0" "rq_tmp demo_request = []"
    by (simp_all add: demo_request_def)
  have env: "we_prims demo_env = toy_prims" "we_meta demo_env = ascii_json" "we_payload demo_env = toy_payload_json"
    "ca_put_note (we_cs demo_env) uid master p body c = (Inr (), c @ [p])" for uid master p body c
    by (simp_all add: demo_env_def demo_cs_def)
  let ?w2 = "(meanwhile w1)\<lparr>sy_dirs := (sy_dirs (meanwhile w1))(7 := d)\<rparr>"
  have pay: "enqueue_payload demo_env demo_request demo_key 5 (meanwhile w1) = (Inr (), ?w2)"
    using d(1) assms(2) by (simp add: enqueue_payload_def env rq)
  have "fst (enqueue_note demo_env demo_request demo_key 5 ?w2) = Inr ()"
    by (simp add: enqueue_note_def Let_def env case_prod_beta)
  then obtain w3 where nt: "enqueue_note demo_env demo_request demo_key 5 ?w2 = (Inr (), w3)"
    by (metis prod.collapse)
  have "sy_dirs w3 7 = d" using enqueue_note_Inr [OF nt] by simp
  with d(2) show ?thesis
    by (simp add: enqueue_mutation_def assms(1) pay nt enqueue_activate_eq del: queue_step.simps)
qed


theorem recovery_kills_enqueue_witness:
  "\<exists>w' r. enqueue_mutation demo_env demo_request (Inr demo_key)
      (\<lambda>w. snd (recover_staging demo_env (demo_turn\<lparr>dt_recover := \<lambda>_. Inr demo_key\<rparr>) w)) demo_sys = (Inr 5, w')
    \<and> row_of 5 (sy_db w') = Some r \<and> has_status [Dead] r"
proof -
  let ?T = "demo_turn\<lparr>dt_recover := \<lambda>_. Inr demo_key\<rparr>"
  obtain w1 where w1: "enqueue_row demo_request demo_sys = (Inr 5, w1)" "sy_dirs w1 = (\<lambda>_. Map.empty)" "queue_inv (sy_db w1)"
    using demo_enqueue_row by blast
  from recover_staging_rows [OF w1(3), of demo_env ?T] w1(2)
  have "sy_dirs (snd (recover_staging demo_env ?T w1)) = (\<lambda>_. Map.empty)" by auto
  from demo_enqueue_rest [where meanwhile = "\<lambda>w. snd (recover_staging demo_env ?T w)", OF w1(1) this] obtain w' where
    w': "enqueue_mutation demo_env demo_request (Inr demo_key) (\<lambda>w. snd (recover_staging demo_env ?T w)) demo_sys = (Inr 5, w')"
    by blast
  have inv: "queue_inv (sy_db demo_sys)" using sample_queue_inv by (simp add: demo_sys_def)
  have "\<not> payload_exists demo_env demo_key (rq_new_id demo_request) (sy_dirs demo_sys (rq_user demo_request))"
    by (simp add: payload_exists_def demo_sys_def)
  from recovery_kills_enqueue [OF inv _ this w'] w' show ?thesis by auto
qed

section \<open>The stranded maintenance item, concretely\<close>

definition maintain_json :: payload_json where
  "maintain_json = \<lparr>pl_show_uuid = show_nat,
     payload_to_json = (\<lambda>c. if c = \<lparr>mp_tool = Maintain, mp_args_json = [], mp_content = []\<rparr> then Some [2] else None),
     payload_from_json = (\<lambda>b. if b = [2] then Some \<lparr>mp_tool = Maintain, mp_args_json = [], mp_content = []\<rparr> else None)\<rparr>"

definition maintain_row :: queue_row where
  "maintain_row = (staged_row 3 5 8 Maintain [])\<lparr>q_status := queue_status_as_str Pending\<rparr>"

theorem maintain_failure_strands_item_witness:
  "\<exists>d w' r'. process_next_for_user default_limits (demo_env\<lparr>we_payload := maintain_json\<rparr>)
      (demo_turn\<lparr>dt_recover := \<lambda>_. Inr demo_key, dt_age_at := 10 ^ 12\<rparr>) 8
      (demo_sys\<lparr>sy_db := \<lparr>qs_users = [(8, [])], qs_rows = [maintain_row]\<rparr>, sy_dirs := \<lambda>_. d\<rparr>)
      = (Inl (Worker_store (Cs_other [])), w')
    \<and> row_of 3 (sy_db w') = Some r' \<and> has_status [Running] r'"
proof -
  let ?c = "\<lparr>mp_tool = Maintain, mp_args_json = [], mp_content = []\<rparr>"
  have json: "good_payload_json maintain_json" "pl_show_uuid maintain_json = show_nat" "payload_to_json maintain_json ?c = Some [2]"
    by (auto simp: good_payload_json_def maintain_json_def split: if_splits)
  obtain d where "write_payload toy_prims ascii_json maintain_json (replicate 12 0) (replicate 12 0) [] demo_key 3 ?c Map.empty
      = (Inr (), d)" "fits d"
    using small_payload_written [OF json(2,3), of 3] by auto
  from payload_written_reads [OF good_toy_prims good_ascii_json json(1) _ _ this]
  have d: "read_payload toy_prims ascii_json maintain_json demo_key 3 d = Inr (Some ?c)" by simp
  let ?w = "demo_sys\<lparr>sy_db := \<lparr>qs_users = [(8, [])], qs_rows = [maintain_row]\<rparr>, sy_dirs := \<lambda>_. d\<rparr>"
  let ?T = "demo_turn\<lparr>dt_recover := \<lambda>_. Inr demo_key, dt_age_at := 10 ^ 12\<rparr>"
  let ?E = "demo_env\<lparr>we_payload := maintain_json\<rparr>"
  have row: "q_id maintain_row = 3" "q_user_id maintain_row = 8" "is_due t maintain_row" "q_created_at maintain_row = 5" for t
    by (simp_all add: maintain_row_def is_due_def del: queue_status_as_str.simps)
  have inv: "queue_inv (sy_db ?w)"
    by (simp add: queue_inv_def row_ok_def maintain_row_def del: queue_status_as_str.simps queue_tool_as_str.simps)
  obtain g where g: "try_enter (sy_gate ?w) = Some g"
    by (simp add: demo_sys_def try_enter_def new_gate_def clamp_from_1_def CAPACITY_MAX_def Let_def)
  have "\<exists>w' r'. process_next_for_user default_limits ?E ?T 8 ?w = (Inl (Worker_store (Cs_other [])), w')
    \<and> row_of (q_id maintain_row) (sy_db w') = Some r' \<and> has_status [Running] r' \<and> q_attempts r' = q_attempts maintain_row + 1
    \<and> (\<forall>now. \<not> is_due now r')"
    by (rule maintain_failure_strands_item [OF inv _ g, where row = maintain_row and master = demo_key and payload = ?c and before = "[]"])
      (simp_all add: row d demo_turn_def demo_env_def demo_cs_def default_limits_def secs_since_def demo_sys_def)
  with row(1) show ?thesis by auto
qed

end
