(* ===== verification/Query_Cache.thy ===== *)
theory Query_Cache
  imports Hot_Memory "HOL-Library.AList"
begin

text \<open>
  The exact query cache and the layering of a query
  (\<^verbatim>\<open>crates/mycelium-librarian/src/query_cache.rs\<close>): cache, then hot memory, then the agent.  The
  hash map is a list of bindings with distinct keys.  Parameters: the SHA-256 hex digest
  (\<open>sha\<close>), Unicode lower- and upper-casing, the model call and the agent run.
\<close>

section \<open>Keys\<close>

definition MAX_ENTRIES :: nat where "MAX_ENTRIES = 200"
definition DEFAULT_TTL :: nat where "DEFAULT_TTL = 24 * 3600000 * 10 ^ 6"

datatype query_source = From_cache | From_hot | From_deep

record cached_query_result =
  cq_answer :: rstring
  cq_steps :: nat
  cq_source :: query_source

record cache_entry =
  ce_expires_at :: timestamp
  ce_answer :: rstring

type_synonym cache = "(rstring \<times> cache_entry) list"

text \<open>What the fingerprint hashes: the scope, then path and \<^verbatim>\<open>updated_at\<close> of every registry row.\<close>

definition bundle_bytes :: "rstring \<Rightarrow> (rstring \<times> rstring) list \<Rightarrow> bytes" where
  "bundle_bytes scope entries =
     as_bytes scope @ concat (map (\<lambda>(path, updated_at). as_bytes path @ as_bytes updated_at) entries)"

definition bundle_fingerprint ::
  "(bytes \<Rightarrow> rstring) \<Rightarrow> rstring \<Rightarrow> (rstring \<times> rstring) list option \<Rightarrow> rstring option" where
  "bundle_fingerprint sha scope listing = map_option (\<lambda>entries. sha (bundle_bytes scope entries)) listing"

definition normalize :: "(rstring \<Rightarrow> rstring) \<Rightarrow> rstring \<Rightarrow> rstring" where
  "normalize to_lower question =
     map (\<lambda>c. if c = NL \<or> c = 9 then SPACE else c) (to_lower (trim question))"

definition key_bytes :: "rstring \<Rightarrow> rstring \<Rightarrow> bytes" where
  "key_bytes fingerprint normalized = as_bytes fingerprint @ [10] @ as_bytes normalized"

definition cache_key :: "(bytes \<Rightarrow> rstring) \<Rightarrow> (rstring \<Rightarrow> rstring) \<Rightarrow> rstring \<Rightarrow> rstring \<Rightarrow> rstring" where
  "cache_key sha to_lower fingerprint question =
     sha (key_bytes fingerprint (normalize to_lower question))"

section \<open>The table\<close>

definition cache_get :: "cache \<Rightarrow> rstring \<Rightarrow> cache_entry option" where
  "cache_get c k = map_of c k"

definition cache_insert :: "rstring \<Rightarrow> cache_entry \<Rightarrow> cache \<Rightarrow> cache" where
  "cache_insert k e c = AList.update k e c"

definition cache_remove :: "rstring \<Rightarrow> cache \<Rightarrow> cache" where
  "cache_remove k c = AList.delete k c"

definition cache_wf :: "cache \<Rightarrow> bool" where
  "cache_wf c \<longleftrightarrow> distinct (map fst c)"

interpretation query_table: keyed_store cache_get cache_insert cache_remove cache_wf
  by unfold_locales
    (auto simp: cache_get_def cache_insert_def cache_remove_def cache_wf_def update_conv' delete_conv'
      distinct_update distinct_delete fun_eq_iff)

definition clear_query_cache :: cache where
  "clear_query_cache = []"

definition lookup_exact :: "timestamp \<Rightarrow> rstring \<Rightarrow> cache \<Rightarrow> cached_query_result option \<times> cache" where
  "lookup_exact now key c =
     (case cache_get c key of
        Some e \<Rightarrow>
          if ce_expires_at e > now
          then (Some \<lparr>cq_answer = ce_answer e, cq_steps = 0, cq_source = From_cache\<rparr>, c)
          else (None, cache_remove key c)
      | None \<Rightarrow> (None, c))"

definition cached_answer ::
  "(bytes \<Rightarrow> rstring) \<Rightarrow> (rstring \<Rightarrow> rstring) \<Rightarrow> timestamp \<Rightarrow> rstring \<Rightarrow> (rstring \<times> rstring) list option
   \<Rightarrow> rstring \<Rightarrow> cache \<Rightarrow> cached_query_result option \<times> cache" where
  "cached_answer sha to_lower now scope listing question c =
     (case bundle_fingerprint sha scope listing of
        None \<Rightarrow> (None, c)
      | Some fp \<Rightarrow> lookup_exact now (cache_key sha to_lower fp question) c)"

text \<open>
  The eviction loop.  \<^verbatim>\<open>map.keys().next()\<close> is some key of the map: \<open>pick\<close> chooses an index, taken
  modulo the size.
\<close>

function evict :: "(cache \<Rightarrow> nat) \<Rightarrow> cache \<Rightarrow> cache" where
  "evict pick c =
     (if length c > MAX_ENTRIES
      then let i = pick c mod length c in evict pick (take i c @ drop (Suc i) c)
      else c)"
  by pat_completeness auto
termination
proof (relation "measure (\<lambda>(pick, c). length c)")
  fix pick :: "cache \<Rightarrow> nat" and c :: cache and i
  assume "MAX_ENTRIES < length c" "i = pick c mod length c"
  then have "i < length c" using mod_less_divisor [of "length c" "pick c"] by linarith
  then show "((pick, take i c @ drop (Suc i) c), pick, c) \<in> measure (\<lambda>(pick, c). length c)" by simp
qed simp

declare evict.simps [simp del]

definition entry_at :: "timestamp \<Rightarrow> rstring \<Rightarrow> cache_entry" where
  "entry_at now answer = \<lparr>ce_expires_at = now + DEFAULT_TTL, ce_answer = answer\<rparr>"

text \<open>One query: its inputs, and the outcome of the agent run where it gets that far.\<close>

record 'e query_request =
  rq_now :: timestamp
  rq_done :: timestamp
  rq_scope :: rstring
  rq_listing :: "(rstring \<times> rstring) list option"
  rq_get :: "rstring \<Rightarrow> concept_view option"
  rq_question :: rstring
  rq_deep :: "'e + rstring \<times> nat"

record query_params =
  qp_sha :: "bytes \<Rightarrow> rstring"
  qp_lower :: "rstring \<Rightarrow> rstring"
  qp_upper :: "rstring \<Rightarrow> rstring"
  qp_chat :: "rstring \<Rightarrow> rstring \<Rightarrow> rstring option"
  qp_pick :: "cache \<Rightarrow> nat"

definition run_query_cached ::
  "query_params \<Rightarrow> 'e query_request \<Rightarrow> cache \<times> hot_global
   \<Rightarrow> ('e + cached_query_result) \<times> cache \<times> hot_global" where
  "run_query_cached P r st =
     (let (c, hot) = st in
      case bundle_fingerprint (qp_sha P) (rq_scope r) (rq_listing r) of
        None \<Rightarrow>
          (case rq_deep r of
             Inl e \<Rightarrow> (Inl e, c, hot)
           | Inr (answer, steps) \<Rightarrow>
               (Inr \<lparr>cq_answer = answer, cq_steps = steps, cq_source = From_deep\<rparr>, c, hot))
      | Some fp \<Rightarrow>
          (let key = cache_key (qp_sha P) (qp_lower P) fp (rq_question r) in
           case lookup_exact (rq_now r) key c of
             (Some hit, c1) \<Rightarrow> (Inr hit, c1, hot)
           | (None, c1) \<Rightarrow>
               (case hot_lookup (qp_upper P) (qp_chat P) (rq_now r) (rq_scope r) (rq_get r) (rq_question r) hot of
                  (Some answer, hot1) \<Rightarrow>
                    (Inr \<lparr>cq_answer = answer, cq_steps = 0, cq_source = From_hot\<rparr>,
                     cache_insert key (entry_at (rq_done r) answer) c1, hot1)
                | (None, hot1) \<Rightarrow>
                    (case rq_deep r of
                       Inl e \<Rightarrow> (Inl e, c1, hot1)
                     | Inr (answer, steps) \<Rightarrow>
                         (Inr \<lparr>cq_answer = answer, cq_steps = steps, cq_source = From_deep\<rparr>,
                          evict (qp_pick P) (cache_insert key (entry_at (rq_done r) answer) c1),
                          record_hot_query (rq_done r) (rq_scope r) (rq_question r) answer hot1)))))"

section \<open>A hit was computed for the same question on the same bundle\<close>

lemma set_evict: "set (evict pick c) \<subseteq> set c"
proof (induction pick c rule: evict.induct)
  case (1 pick c)
  show ?case
  proof (cases "length c > MAX_ENTRIES")
    case True
    have "set (take i c @ drop (Suc i) c) \<subseteq> set c" for i
      by (auto dest: in_set_takeD in_set_dropD)
    with 1 [OF True refl] True show ?thesis by (subst evict.simps) (auto simp: Let_def)
  qed (subst evict.simps, simp)
qed

lemma length_evict: "length (evict pick c) \<le> MAX_ENTRIES"
proof (induction pick c rule: evict.induct)
  case (1 pick c)
  then show ?case by (subst evict.simps) (simp add: Let_def)
qed

text \<open>\<open>backed\<close>: every binding was written by one of the given (hashed key, time, answer) records.\<close>

definition backed :: "(rstring \<times> timestamp \<times> rstring) set \<Rightarrow> cache \<Rightarrow> bool" where
  "backed L c \<longleftrightarrow> (\<forall>(k, e) \<in> set c. \<exists>t a. (k, t, a) \<in> L \<and> e = entry_at t a)"

lemma set_cache_insert: "set (cache_insert k e c) \<subseteq> insert (k, e) (set c)"
  unfolding cache_insert_def by (induction c) auto

lemma set_cache_remove: "set (cache_remove k c) \<subseteq> set c"
  unfolding cache_remove_def by (induction c) auto

lemma backed_mono: "backed L c \<Longrightarrow> set c' \<subseteq> set c \<Longrightarrow> L \<subseteq> L' \<Longrightarrow> backed L' c'"
  unfolding backed_def by blast

lemma backed_insert:
  assumes "backed L c" "(k, t, a) \<in> L"
  shows "backed L (cache_insert k (entry_at t a) c)"
  unfolding backed_def
proof (clarify)
  fix k' e assume "(k', e) \<in> set (cache_insert k (entry_at t a) c)"
  then have "(k', e) = (k, entry_at t a) \<or> (k', e) \<in> set c" using set_cache_insert by fast
  with assms show "\<exists>t a. (k', t, a) \<in> L \<and> e = entry_at t a" unfolding backed_def by blast
qed

lemma lookup_exact_cases:
  "lookup_exact now key c = (Some hit, c1) \<Longrightarrow>
     c1 = c \<and> (\<exists>e. (key, e) \<in> set c \<and> now < ce_expires_at e \<and>
       hit = \<lparr>cq_answer = ce_answer e, cq_steps = 0, cq_source = From_cache\<rparr>)"
  "set (snd (lookup_exact now key c)) \<subseteq> set c"
  using set_cache_remove [of key c]
  by (auto simp: lookup_exact_def cache_get_def dest!: map_of_SomeD split: option.splits if_splits)

text \<open>The record a query leaves: its key, when it finished and what it answered, unless it was a hit.\<close>

definition query_key :: "query_params \<Rightarrow> 'e query_request \<Rightarrow> rstring option" where
  "query_key P r =
     map_option (\<lambda>fp. cache_key (qp_sha P) (qp_lower P) fp (rq_question r))
       (bundle_fingerprint (qp_sha P) (rq_scope r) (rq_listing r))"

definition query_record :: "query_params \<Rightarrow> 'e query_request \<Rightarrow> 'e + cached_query_result
    \<Rightarrow> (rstring \<times> timestamp \<times> rstring) set" where
  "query_record P r out =
     (case (query_key P r, out) of
        (Some k, Inr res) \<Rightarrow> if cq_source res = From_cache then {} else {(k, rq_done r, cq_answer res)}
      | _ \<Rightarrow> {})"

lemma run_query_backed:
  assumes "backed L (fst st)"
  shows "backed (L \<union> query_record P r (fst (run_query_cached P r st))) (fst (snd (run_query_cached P r st)))"
proof (cases "bundle_fingerprint (qp_sha P) (rq_scope r) (rq_listing r)")
  case None
  then show ?thesis
    using assms by (cases st) (auto simp: run_query_cached_def Let_def query_record_def query_key_def split: sum.splits)
next
  case (Some fp)
  obtain c hot where st: "st = (c, hot)" by (cases st)
  let ?k = "cache_key (qp_sha P) (qp_lower P) fp (rq_question r)"
  obtain hit c1 where lk: "lookup_exact (rq_now r) ?k c = (hit, c1)" by force
  have c1: "backed L c1"
    using assms lookup_exact_cases(2) [of "rq_now r" ?k c] lk st by (auto intro: backed_mono)
  have ins: "backed (insert (?k, t, a) L) (cache_insert ?k (entry_at t a) c1)" for t a
    by (intro backed_insert backed_mono [OF c1]) auto
  then have "backed (insert (?k, t, a) L) (evict p (cache_insert ?k (entry_at t a) c1))" for t a p
    using set_evict by (rule backed_mono) simp
  moreover have "backed (insert x L) c1" for x using c1 by (rule backed_mono) auto
  ultimately show ?thesis
    using ins c1 by (cases hit)
      (auto simp: run_query_cached_def Let_def st Some lk query_record_def query_key_def
        case_prod_unfold split: sum.splits option.splits dest: lookup_exact_cases(1))
qed

text \<open>A sequence of queries on the process-wide state, and what they recorded.\<close>

fun query_run ::
  "query_params \<Rightarrow> 'e query_request list \<Rightarrow> cache \<times> hot_global
   \<Rightarrow> ('e + cached_query_result) list \<times> cache \<times> hot_global" where
  "query_run P [] st = ([], st)"
| "query_run P (r # rs) st =
     (let (out, st1) = run_query_cached P r st; (outs, st2) = query_run P rs st1 in (out # outs, st2))"

definition query_records :: "query_params \<Rightarrow> 'e query_request list \<Rightarrow> ('e + cached_query_result) list
    \<Rightarrow> (rstring \<times> timestamp \<times> rstring) set" where
  "query_records P rs outs = (\<Union>i < length rs. query_record P (rs ! i) (outs ! i))"

lemma query_records_Cons [simp]:
  "query_records P [] outs = {}"
  "query_records P (r # rs) (out # outs) = query_record P r out \<union> query_records P rs outs"
  unfolding query_records_def by (simp_all add: lessThan_Suc_eq_insert_0 image_image)

lemma query_run_backed:
  "backed L (fst st) \<Longrightarrow>
   backed (L \<union> query_records P rs (fst (query_run P rs st))) (fst (snd (query_run P rs st)))"
proof (induction rs arbitrary: L st)
  case (Cons r rs)
  from Cons.IH [OF run_query_backed [OF Cons.prems, of P r]] show ?case
    by (simp add: case_prod_unfold Let_def Un_assoc)
qed simp

text \<open>What is assumed of the digest: 64 ASCII characters, and no collision among the inputs hashed.\<close>

definition hex_digest :: "(bytes \<Rightarrow> rstring) \<Rightarrow> bool" where
  "hex_digest sha \<longleftrightarrow> (\<forall>b. length (sha b) = 64 \<and> (\<forall>c \<in> set (sha b). c < 128))"

definition hashed_inputs :: "query_params \<Rightarrow> 'e query_request list \<Rightarrow> bytes set" where
  "hashed_inputs P rs =
     {bundle_bytes (rq_scope r) entries |r entries. r \<in> set rs \<and> rq_listing r = Some entries} \<union>
     {key_bytes (qp_sha P (bundle_bytes (rq_scope r) entries)) (normalize (qp_lower P) (rq_question r))
       |r entries. r \<in> set rs \<and> rq_listing r = Some entries}"

lemma as_bytes_ascii_inject:
  assumes "\<forall>c \<in> set s. c < 128" "\<forall>c \<in> set t. c < 128" "as_bytes s = as_bytes t"
  shows "s = t"
proof -
  have "list_all is_scalar s" "list_all is_scalar t"
    using assms(1,2) by (auto simp: list_all_iff is_scalar_def)
  then show ?thesis using assms(3) by (rule as_bytes_inject)
qed

lemma key_bytes_inject:
  assumes "hex_digest sha" "key_bytes (sha b) s = key_bytes (sha b') s'"
  shows "sha b = sha b' \<and> as_bytes s = as_bytes s'"
proof -
  have len: "length (as_bytes (sha x)) = 64" for x
    using assms(1) by (simp add: length_as_bytes utf8_len_ascii hex_digest_def)
  with assms(2) have "as_bytes (sha b) = as_bytes (sha b')" "as_bytes s = as_bytes s'"
    by (simp_all add: key_bytes_def append_eq_append_conv)
  moreover have "\<forall>c \<in> set (sha x). c < 128" for x using assms(1) by (simp add: hex_digest_def)
  ultimately show ?thesis using as_bytes_ascii_inject by blast
qed

lemma query_key_Some:
  "query_key P r = Some k \<longleftrightarrow> (\<exists>entries. rq_listing r = Some entries \<and>
     k = qp_sha P (key_bytes (qp_sha P (bundle_bytes (rq_scope r) entries)) (normalize (qp_lower P) (rq_question r))))"
  by (auto simp: query_key_def bundle_fingerprint_def cache_key_def)

text \<open>Two queries with the same key ask the same question of the same bundle contents.\<close>

lemma query_key_inject:
  assumes "hex_digest (qp_sha P)" "inj_on (qp_sha P) (hashed_inputs P rs)" "r \<in> set rs" "r' \<in> set rs"
    and "query_key P r = Some k" "query_key P r' = Some k"
  shows "\<exists>es es'. rq_listing r = Some es \<and> rq_listing r' = Some es' \<and>
    bundle_bytes (rq_scope r) es = bundle_bytes (rq_scope r') es' \<and>
    as_bytes (normalize (qp_lower P) (rq_question r)) = as_bytes (normalize (qp_lower P) (rq_question r'))"
proof -
  from assms(5,6) obtain es es' where es: "rq_listing r = Some es" "rq_listing r' = Some es'"
    "k = qp_sha P (key_bytes (qp_sha P (bundle_bytes (rq_scope r) es)) (normalize (qp_lower P) (rq_question r)))"
    "k = qp_sha P (key_bytes (qp_sha P (bundle_bytes (rq_scope r') es')) (normalize (qp_lower P) (rq_question r')))"
    by (auto simp: query_key_Some)
  have in_b: "bundle_bytes (rq_scope r) es \<in> hashed_inputs P rs" "bundle_bytes (rq_scope r') es' \<in> hashed_inputs P rs"
    and in_k: "key_bytes (qp_sha P (bundle_bytes (rq_scope r) es)) (normalize (qp_lower P) (rq_question r)) \<in> hashed_inputs P rs"
      "key_bytes (qp_sha P (bundle_bytes (rq_scope r') es')) (normalize (qp_lower P) (rq_question r')) \<in> hashed_inputs P rs"
    using es(1,2) assms(3,4) unfolding hashed_inputs_def by blast+
  note same_key = key_bytes_inject [OF assms(1) inj_onD [OF assms(2) trans [OF es(3) [symmetric] es(4)] in_k]]
  from inj_onD [OF assms(2) conjunct1 [OF same_key] in_b] es(1,2) conjunct2 [OF same_key]
  show ?thesis by blast
qed

lemma hit_from_table:
  assumes "fst (run_query_cached P r (c, hot)) = Inr res" "cq_source res = From_cache"
  obtains k e where "query_key P r = Some k" "(k, e) \<in> set c" "rq_now r < ce_expires_at e"
    "cq_answer res = ce_answer e"
proof (cases "bundle_fingerprint (qp_sha P) (rq_scope r) (rq_listing r)")
  case None
  with assms show ?thesis by (auto simp: run_query_cached_def split: sum.splits prod.splits)
next
  case (Some fp)
  let ?k = "cache_key (qp_sha P) (qp_lower P) fp (rq_question r)"
  obtain hit c1 where lk: "lookup_exact (rq_now r) ?k c = (hit, c1)" by force
  have "hit = Some res"
  proof (cases hit)
    case None
    with assms Some lk show ?thesis
      by (auto simp: run_query_cached_def case_prod_unfold Let_def split: sum.splits option.splits)
  next
    case (Some h)
    with assms \<open>bundle_fingerprint _ _ _ = Some fp\<close> lk show ?thesis by (simp add: run_query_cached_def)
  qed
  with lookup_exact_cases(1) [of "rq_now r" ?k c] lk Some that [of ?k] show ?thesis
    by (auto simp: query_key_def)
qed

text \<open>A cached answer is an answer to the same question.  Whenever, after any sequence of queries
  from an empty cache, a query is answered from the cache, some earlier query of the sequence
  computed that very answer (in hot or deep memory), for the same normalised question over the same
  registry contents, less than 24 hours before; provided the digest has no collision among the
  inputs the queries hashed.\<close>
theorem cache_hit_sound:
  assumes "hex_digest (qp_sha P)" and "inj_on (qp_sha P) (hashed_inputs P (rs @ [r]))"
    and "query_run P rs ([], None) = (outs, st)"
    and "fst (run_query_cached P r st) = Inr res" and "cq_source res = From_cache"
  shows "\<exists>i < length rs. \<exists>res' es es'. outs ! i = Inr res' \<and> cq_source res' \<noteq> From_cache \<and>
    cq_answer res' = cq_answer res \<and> rq_listing r = Some es \<and> rq_listing (rs ! i) = Some es' \<and>
    bundle_bytes (rq_scope r) es = bundle_bytes (rq_scope (rs ! i)) es' \<and>
    as_bytes (normalize (qp_lower P) (rq_question r)) = as_bytes (normalize (qp_lower P) (rq_question (rs ! i))) \<and>
    rq_now r < rq_done (rs ! i) + 86400 * 10 ^ 9"
proof -
  obtain c hot where st: "st = (c, hot)" by (cases st)
  have "backed (query_records P rs outs) c"
    using query_run_backed [of "{}" "([], None)" P rs] assms(3) st by (simp add: backed_def)
  moreover obtain k e where k: "query_key P r = Some k" "(k, e) \<in> set c" "rq_now r < ce_expires_at e"
    "cq_answer res = ce_answer e"
    using assms(4,5) unfolding st by (rule hit_from_table)
  ultimately obtain t a where ta: "(k, t, a) \<in> query_records P rs outs" "e = entry_at t a"
    unfolding backed_def by blast
  then obtain i where i: "i < length rs" "(k, t, a) \<in> query_record P (rs ! i) (outs ! i)"
    by (auto simp: query_records_def)
  then obtain res' where res': "query_key P (rs ! i) = Some k" "outs ! i = Inr res'"
    "cq_source res' \<noteq> From_cache" "t = rq_done (rs ! i)" "a = cq_answer res'"
    by (auto simp: query_record_def split: option.splits sum.splits if_splits)
  have "r \<in> set (rs @ [r])" "rs ! i \<in> set (rs @ [r])" using i(1) by simp_all
  from query_key_inject [OF assms(1,2) this k(1) res'(1)] i(1) res' k(3,4) ta(2)
  show ?thesis by (auto simp: entry_at_def DEFAULT_TTL_def)
qed

text \<open>A digest for the witness: it tells the fingerprint input of the example from its key input.\<close>

definition toy_sha :: "bytes \<Rightarrow> rstring" where
  "toy_sha b = replicate 63 48 @ [if length b < 60 then 48 else 49]"

definition toy_params :: query_params where
  "toy_params = \<lparr>qp_sha = toy_sha, qp_lower = (\<lambda>s. s), qp_upper = (\<lambda>s. s),
     qp_chat = (\<lambda>system prompt. None), qp_pick = (\<lambda>c. 0)\<rparr>"

definition toy_query :: "timestamp \<Rightarrow> rstring \<Rightarrow> unit query_request" where
  "toy_query now question =
     \<lparr>rq_now = now, rq_done = now + 5, rq_scope = str ''user:1'', rq_listing = Some [(str ''/a.md'', str ''t0'')],
      rq_get = (\<lambda>path. None), rq_question = question, rq_deep = Inr (str ''yes'', 3)\<rparr>"

lemmas toy_defs = toy_params_def toy_query_def toy_sha_def normalize_def trim_def trim_start_def trim_end_def
  is_whitespace_def

definition toy_key :: rstring where
  "toy_key = cache_key toy_sha (\<lambda>s. s) (toy_sha (bundle_bytes (str ''user:1'') [(str ''/a.md'', str ''t0'')])) (str ''a?'')"

definition toy_state :: "cache \<times> hot_global" where
  "toy_state = snd (run_query_cached toy_params (toy_query 10 (str ''a?'')) ([], None))"

lemma evict_small: "length c \<le> MAX_ENTRIES \<Longrightarrow> evict pick c = c"
  by (subst evict.simps) simp

lemma toy_norm: "normalize (\<lambda>s. s) (str '' a?'') = normalize (\<lambda>s. s) (str ''a?'')"
  by (simp add: toy_defs of_char_def)

lemma toy_first:
  "run_query_cached toy_params (toy_query 10 (str ''a?'')) ([], None) =
     (Inr \<lparr>cq_answer = str ''yes'', cq_steps = 3, cq_source = From_deep\<rparr>, toy_state)"
  "fst toy_state = [(toy_key, entry_at 15 (str ''yes''))]"
  unfolding toy_state_def run_query_cached_def
  by (simp_all add: toy_query_def toy_params_def bundle_fingerprint_def lookup_exact_def cache_get_def
      hot_lookup_def state_for_def default_scope_def qa_sections_def cache_insert_def evict_small
      MAX_ENTRIES_def toy_key_def)

lemma toy_second:
  "fst (run_query_cached toy_params (toy_query 20 (str '' a?'')) toy_state) =
     Inr \<lparr>cq_answer = str ''yes'', cq_steps = 0, cq_source = From_cache\<rparr>"
proof -
  obtain hot where st: "toy_state = ([(toy_key, entry_at 15 (str ''yes''))], hot)"
    using toy_first(2) by (metis prod.collapse)
  moreover have "cache_key toy_sha (\<lambda>s. s) (toy_sha (bundle_bytes (str ''user:1'') [(str ''/a.md'', str ''t0'')]))
      (str '' a?'') = toy_key"
    unfolding toy_key_def cache_key_def toy_norm ..
  ultimately show ?thesis
    unfolding run_query_cached_def st
    by (simp add: toy_query_def toy_params_def bundle_fingerprint_def lookup_exact_def cache_get_def
        entry_at_def DEFAULT_TTL_def)
qed

lemma toy_no_collision:
  "inj_on (qp_sha toy_params) (hashed_inputs toy_params ([toy_query 10 (str ''a?'')] @ [toy_query 20 (str '' a?'')]))"
proof -
  let ?b = "bundle_bytes (str ''user:1'') [(str ''/a.md'', str ''t0'')]"
  let ?k = "key_bytes (toy_sha ?b) (normalize (\<lambda>s. s) (str ''a?''))"
  have "hashed_inputs toy_params ([toy_query 10 (str ''a?'')] @ [toy_query 20 (str '' a?'')]) \<subseteq> {?b, ?k}"
    unfolding hashed_inputs_def toy_query_def toy_params_def using toy_norm by auto
  moreover have "length ?b < 60"
    by (simp add: bundle_bytes_def utf8_char_def)
  moreover have "\<not> length ?k < 60"
    by (simp add: key_bytes_def toy_sha_def length_as_bytes utf8_len_ascii)
  ultimately have "inj_on toy_sha {?b, ?k}" by (auto simp: inj_on_def toy_sha_def)
  then show ?thesis
    using \<open>hashed_inputs _ _ \<subseteq> _\<close> by (auto simp: toy_params_def intro: inj_on_subset)
qed

theorem cache_hit_sound_witness:
  "\<exists>res'. fst (query_run toy_params [toy_query 10 (str ''a?'')] ([], None)) ! 0 = Inr res' \<and>
     fst (run_query_cached toy_params (toy_query 20 (str '' a?'')) toy_state) =
       Inr \<lparr>cq_answer = cq_answer res', cq_steps = 0, cq_source = From_cache\<rparr>"
proof -
  have hex: "hex_digest (qp_sha toy_params)"
    by (auto simp: hex_digest_def toy_params_def toy_sha_def split: if_splits)
  have run: "query_run toy_params [toy_query 10 (str ''a?'')] ([], None) =
      ([Inr \<lparr>cq_answer = str ''yes'', cq_steps = 3, cq_source = From_deep\<rparr>], toy_state)"
    using toy_first(1) by simp
  show ?thesis
    using cache_hit_sound [OF hex toy_no_collision run toy_second] toy_second unfolding run by auto
qed

text \<open>The size cap.  A query answered by the agent leaves at most 200 entries; a query answered
  from hot memory inserts without enforcing the cap, so with a fresh key the table grows by one
  whatever its size.\<close>
theorem cache_size_cap:
  assumes "run_query_cached P r (c, hot) = (Inr res, c', hot')" and "query_key P r = Some k"
  shows "(cq_source res = From_deep \<longrightarrow> length c' \<le> 200) \<and>
    (cq_source res = From_hot \<and> cache_get c k = None \<longrightarrow> length c' = length c + 1)"
proof -
  from assms(2) obtain fp where fp: "bundle_fingerprint (qp_sha P) (rq_scope r) (rq_listing r) = Some fp"
    and k: "k = cache_key (qp_sha P) (qp_lower P) fp (rq_question r)"
    by (auto simp: query_key_def)
  obtain hit c1 where lk: "lookup_exact (rq_now r) k c = (hit, c1)" by force
  have grow: "cache_get c k = None \<Longrightarrow> length (cache_insert k e c) = length c + 1" for e
    by (induction c) (auto simp: cache_get_def cache_insert_def split: if_splits)
  have "cache_get c k = None \<Longrightarrow> c1 = c" using lk by (simp add: lookup_exact_def)
  with grow assms(1) lk lookup_exact_cases(1) [of "rq_now r" k c] length_evict show ?thesis
    by (cases hit)
      (auto simp: run_query_cached_def fp k [symmetric] MAX_ENTRIES_def split: option.splits sum.splits prod.splits)
qed

theorem cache_size_cap_witness: "length (fst toy_state) \<le> 200"
proof -
  have "query_key toy_params (toy_query 10 (str ''a?'')) = Some toy_key"
    by (simp add: query_key_def bundle_fingerprint_def toy_query_def toy_params_def toy_key_def)
  moreover have "run_query_cached toy_params (toy_query 10 (str ''a?'')) ([], None) =
     (Inr \<lparr>cq_answer = str ''yes'', cq_steps = 3, cq_source = From_deep\<rparr>, fst toy_state, snd toy_state)"
    using toy_first(1) by simp
  ultimately show ?thesis using cache_size_cap by fastforce
qed

end
