(* ===== verification/Config_Store.thy ===== *)
theory Config_Store
  imports Crypto_Box
begin

text \<open>
  The runtime configuration table (\<^verbatim>\<open>crates/mycelium-store/src/config.rs\<close>): typed values as JSON
  text, sealed values as a JSON string holding a hexadecimal envelope, and the reader that also
  accepts the legacy unsealed shape.  \<^verbatim>\<open>serde_json\<close> is a parameter: writer and reader of the value
  type and of strings.
\<close>

record config_row =
  cf_key :: rstring
  cf_value :: rstring
  cf_updated_at :: timestamp

type_synonym config_table = "config_row list"

record 'v value_json =
  value_to_json :: "'v \<Rightarrow> rstring option"
  value_from_json :: "rstring \<Rightarrow> 'v option"
  string_to_json :: "rstring \<Rightarrow> rstring"
  string_from_json :: "rstring \<Rightarrow> rstring option"

datatype config_error = Config_corrupt rstring

section \<open>The table\<close>

text \<open>The upsert of \<^verbatim>\<open>set\<close>, on the column text.\<close>

definition raw_set :: "timestamp \<Rightarrow> rstring \<Rightarrow> rstring \<Rightarrow> config_table \<Rightarrow> config_table" where
  "raw_set now key value t =
     (if 0 < rows_affected (\<lambda>r. cf_key r = key) t
      then update_where (\<lambda>r. cf_key r = key) (\<lambda>r. r\<lparr>cf_value := value, cf_updated_at := now\<rparr>) t
      else t @ [\<lparr>cf_key = key, cf_value = value, cf_updated_at = now\<rparr>])"

definition raw_get :: "config_table \<Rightarrow> rstring \<Rightarrow> rstring option" where
  "raw_get t key = map_option cf_value (fetch_optional (\<lambda>r. cf_key r = key) t)"

definition config_delete :: "rstring \<Rightarrow> config_table \<Rightarrow> config_table" where
  "config_delete key t = delete_where (\<lambda>r. cf_key r = key) t"

definition config_keys :: "config_table \<Rightarrow> rstring list" where
  "config_keys t = map cf_key (order_by cf_key t)"

definition config_wf :: "config_table \<Rightarrow> bool" where
  "config_wf t \<longleftrightarrow> distinct (map cf_key t)"

definition config_set ::
  "'v value_json \<Rightarrow> timestamp \<Rightarrow> rstring \<Rightarrow> 'v \<Rightarrow> config_table \<Rightarrow> (config_error + unit) \<times> config_table" where
  "config_set J now key value t =
     (case value_to_json J value of
        None \<Rightarrow> (Inl (Config_corrupt key), t)
      | Some json \<Rightarrow> (Inr (), raw_set now key json t))"

definition config_get :: "'v value_json \<Rightarrow> rstring \<Rightarrow> config_table \<Rightarrow> config_error + 'v option" where
  "config_get J key t =
     (case raw_get t key of
        None \<Rightarrow> Inr None
      | Some json \<Rightarrow>
          (case value_from_json J json of
             None \<Rightarrow> Inl (Config_corrupt key)
           | Some v \<Rightarrow> Inr (Some v)))"

lemma raw_get_update:
  "raw_get (update_where (\<lambda>r. cf_key r = key) (\<lambda>r. r\<lparr>cf_value := v, cf_updated_at := now\<rparr>) t) k =
     (if k = key \<and> raw_get t key \<noteq> None then Some v else raw_get t k)"
  by (induction t) (auto simp: raw_get_def)

lemma raw_get_append:
  "raw_get (t @ [r]) k = (case raw_get t k of None \<Rightarrow> if cf_key r = k then Some (cf_value r) else None | Some v \<Rightarrow> Some v)"
  by (induction t) (auto simp: raw_get_def)

lemma raw_get_None: "raw_get t k = None \<longleftrightarrow> (\<forall>r \<in> set t. cf_key r \<noteq> k)"
  by (simp add: raw_get_def fetch_optional_None)

lemma raw_get_raw_set: "raw_get (raw_set now key v t) = (raw_get t)(key := Some v)"
proof (cases "raw_get t key")
  case None
  then have "raw_set now key v t = t @ [\<lparr>cf_key = key, cf_value = v, cf_updated_at = now\<rparr>]"
    by (auto simp: raw_set_def raw_get_None rows_affected_pos)
  with None show ?thesis by (auto simp: fun_eq_iff raw_get_append split: option.splits)
next
  case (Some w)
  then have "0 < rows_affected (\<lambda>r. cf_key r = key) t"
    using raw_get_None [of t key] by (auto simp: rows_affected_pos)
  with Some show ?thesis by (auto simp: fun_eq_iff raw_set_def raw_get_update)
qed

lemma raw_get_delete: "raw_get (config_delete key t) = (raw_get t)(key := None)"
  unfolding config_delete_def by (induction t) (auto simp: raw_get_def fun_eq_iff)

lemma config_wf_raw_set: "config_wf t \<Longrightarrow> config_wf (raw_set now key v t)"
  by (auto simp: config_wf_def raw_set_def rows_affected_pos row_simps image_iff)

lemma config_wf_delete: "config_wf t \<Longrightarrow> config_wf (config_delete key t)"
  by (simp add: config_wf_def config_delete_def delete_where_def distinct_map_filter)

interpretation config_table: keyed_store raw_get "raw_set now" config_delete config_wf for now
  by unfold_locales (simp_all add: raw_get_raw_set raw_get_delete config_wf_raw_set config_wf_delete)

section \<open>Sealed values\<close>

definition config_dek :: "prims \<Rightarrow> service_key \<Rightarrow> dek" where
  "config_dek P service = Dek (hkdf P (service_bytes service) (as_bytes (str ''mycelium2/config-dek/v1'')))"

definition config_aad :: "rstring \<Rightarrow> bytes" where
  "config_aad key = as_bytes (str ''mycelium2/config-'' @ key @ str ''/v1'')"

text \<open>The code panics where the result is none.\<close>

definition seal_config ::
  "prims \<Rightarrow> 'v value_json \<Rightarrow> bytes \<Rightarrow> service_key \<Rightarrow> rstring \<Rightarrow> 'v \<Rightarrow> rstring option" where
  "seal_config P J nonce service key value =
     (case value_to_json J value of
        None \<Rightarrow> None
      | Some json \<Rightarrow>
          (case aead_seal P nonce (as_bytes json) (config_aad key) (config_dek P service) of
             Inl e \<Rightarrow> None
           | Inr sealed \<Rightarrow> Some (hex_encode P sealed)))"

text \<open>\<^verbatim>\<open>serde_json::from_slice\<close> reads UTF-8.\<close>

definition get_sealed :: "prims \<Rightarrow> 'v value_json \<Rightarrow> service_key \<Rightarrow> rstring \<Rightarrow> config_table \<Rightarrow> 'v option" where
  "get_sealed P J service key t =
     (case raw_get t key of
        None \<Rightarrow> None
      | Some raw \<Rightarrow>
          (case (case string_from_json J raw of None \<Rightarrow> None | Some h \<Rightarrow> hex_decode P h) of
             Some sealed \<Rightarrow>
               (case aead_open P sealed (config_aad key) (config_dek P service) of
                  Inl e \<Rightarrow> None
                | Inr plain \<Rightarrow>
                    (case from_utf8 plain of None \<Rightarrow> None | Some json \<Rightarrow> value_from_json J json))
           | None \<Rightarrow> value_from_json J raw))"

definition good_value_json :: "'v value_json \<Rightarrow> bool" where
  "good_value_json J \<longleftrightarrow>
     (\<forall>v s. value_to_json J v = Some s \<longrightarrow> value_from_json J s = Some v \<and> list_all is_scalar s) \<and>
     (\<forall>s. string_from_json J (string_to_json J s) = Some s)"

text \<open>The configuration table behaves as a map from keys to values: a value set is the value got,
  other keys keep theirs, a deleted key is unset, and the keys are listed in order, each once.\<close>
theorem config_is_a_map:
  assumes "config_wf t" and "good_value_json J" and "config_set J now key v t = (Inr (), t')"
  shows "config_get J key t' = Inr (Some v) \<and> (\<forall>k. k \<noteq> key \<longrightarrow> raw_get t' k = raw_get t k) \<and>
    config_get J key (config_delete key t') = Inr None \<and> config_wf t' \<and>
    sorted (config_keys t') \<and> distinct (config_keys t')"
proof -
  from assms(3) obtain json where j: "value_to_json J v = Some json" "t' = raw_set now key json t"
    by (auto simp: config_set_def split: option.splits)
  have "raw_get t' = (raw_get t)(key := Some json)"
    using config_table.lookup_insert [OF assms(1)] j(2) by simp
  moreover have wf: "config_wf t'" using config_table.wf_insert [OF assms(1)] j(2) by simp
  moreover have "value_from_json J json = Some v" using assms(2) j(1) by (simp add: good_value_json_def)
  moreover have "distinct (config_keys t')"
    using wf unfolding config_wf_def config_keys_def order_by_def
    by (metis distinct_map distinct_sort set_sort)
  ultimately show ?thesis
    by (simp add: config_get_def config_table.lookup_delete config_keys_def sorted_order_by)
qed

text \<open>Sealed settings round-trip and are bound to their key.  A value sealed for a key and stored
  under it is read back; a sealed row is readable only if it is an envelope made for that key's
  associated data under the service key, so a sealed value copied to another row or sealed by
  another server never yields a value; and a legacy row holding the plain document still reads.\<close>
theorem sealed_config_roundtrip:
  assumes "good_prims P" and "good_value_json J" and "length nonce = 12"
  shows "(seal_config P J nonce service key v = Some h \<longrightarrow>
      get_sealed P J service key (raw_set now key (string_to_json J h) t) = Some v) \<and>
    (get_sealed P J service key t = Some v' \<and> raw_get t key = Some raw \<and>
       string_from_json J raw = Some h' \<and> hex_decode P h' = Some b \<longrightarrow>
      (\<exists>n plain. length n = 12 \<and> aead_seal P n plain (config_aad key) (config_dek P service) = Inr b)) \<and>
    (value_to_json J v = Some raw \<and> string_from_json J raw = None \<longrightarrow>
      get_sealed P J service key (raw_set now key raw t) = Some v)"
proof -
  have "get_sealed P J service key (raw_set now key (string_to_json J h) t) = Some v"
    if sealed: "seal_config P J nonce service key v = Some h"
  proof -
    from sealed obtain json b where b: "value_to_json J v = Some json" "h = hex_encode P b"
      "aead_seal P nonce (as_bytes json) (config_aad key) (config_dek P service) = Inr b"
      by (auto simp: seal_config_def split: option.splits sum.splits)
    have "aead_open P b (config_aad key) (config_dek P service) = Inr (as_bytes json)"
      using aead_box.open_seal [OF assms(1) _ b(3)] assms(3) by (simp add: NONCE_LEN_def)
    with b assms(1,2) show ?thesis
      by (simp add: get_sealed_def raw_get_raw_set good_value_json_def good_primsD(7) from_utf8_as_bytes)
  qed
  moreover have "\<exists>n plain. length n = 12 \<and> aead_seal P n plain (config_aad key) (config_dek P service) = Inr b"
    if "get_sealed P J service key t = Some v'" "raw_get t key = Some raw" "string_from_json J raw = Some h'"
      "hex_decode P h' = Some b"
  proof -
    from that obtain plain where "aead_open P b (config_aad key) (config_dek P service) = Inr plain"
      by (auto simp: get_sealed_def split: sum.splits)
    from aead_box.open_genuine [OF assms(1) this] show ?thesis by (auto simp: NONCE_LEN_def)
  qed
  moreover have "get_sealed P J service key (raw_set now key raw t) = Some v"
    if "value_to_json J v = Some raw" "string_from_json J raw = None"
    using that assms(2) by (simp add: get_sealed_def raw_get_raw_set good_value_json_def)
  ultimately show ?thesis by blast
qed

definition toy_value_json :: "nat value_json" where
  "toy_value_json =
     \<lparr>value_to_json = (\<lambda>v. if v < 10 then Some [48 + v] else None),
      value_from_json = (\<lambda>s. case s of [c] \<Rightarrow> Some (c - 48) | _ \<Rightarrow> None),
      string_to_json = (\<lambda>s. 34 # s), string_from_json = (\<lambda>s. case s of c # t \<Rightarrow> if c = 34 then Some t else None | _ \<Rightarrow> None)\<rparr>"

lemma good_toy_value_json: "good_value_json toy_value_json"
  by (auto simp: good_value_json_def toy_value_json_def is_scalar_def split: if_splits)

theorem config_is_a_map_witness:
  "config_get toy_value_json (str ''llm'') (snd (config_set toy_value_json 1 (str ''llm'') 7 [])) = Inr (Some 7)"
  using config_is_a_map [of "[]" toy_value_json 1 "str ''llm''" 7 "[\<lparr>cf_key = str ''llm'', cf_value = [55], cf_updated_at = 1\<rparr>]"]
    good_toy_value_json
  by (simp add: config_wf_def config_set_def toy_value_json_def raw_set_def rows_affected_def)

theorem sealed_config_roundtrip_witness:
  "\<exists>h. seal_config toy_prims toy_value_json (replicate 12 0) (ServiceKey []) (str ''llm'') 7 = Some h \<and>
     get_sealed toy_prims toy_value_json (ServiceKey []) (str ''llm'')
       (raw_set 1 (str ''llm'') (string_to_json toy_value_json h) []) = Some 7"
proof -
  have "\<exists>h. seal_config toy_prims toy_value_json (replicate 12 0) (ServiceKey []) (str ''llm'') 7 = Some h"
    by (simp add: seal_config_def toy_value_json_def aead_seal_def config_dek_def toy_prims_def)
  then show ?thesis using sealed_config_roundtrip [OF good_toy_prims good_toy_value_json, of "replicate 12 0"] by fastforce
qed

end
