(* ===== verification/Auth_Session.thy ===== *)
theory Auth_Session
  imports Rust_Text
begin

unbundle bit_operations_syntax

text \<open>
  The stateful parts of authentication that stand alone: the login throttle
  (\<^verbatim>\<open>crates/mycelium-auth/src/throttle.rs\<close>), server-side sessions (\<^verbatim>\<open>session.rs\<close>), API keys
  (\<^verbatim>\<open>api_key.rs\<close>), roles and their extractors (\<^verbatim>\<open>rbac.rs\<close>).  The SHA-256 hex digest is the parameter
  \<open>sha\<close>; fresh identifiers, tokens and the clock are arguments.  Database failures are modelled where
  a constraint of the schema causes them.
\<close>

section \<open>Throttle\<close>

datatype throttle_decision = Allow | Deny nat

record throttle =
  th_failures :: "rstring \<rightharpoonup> nat"
  th_last_failure :: "rstring \<rightharpoonup> timestamp"
  th_max_failures :: nat
  th_cap :: nat

definition SECOND :: nat where "SECOND = 10 ^ 9"
definition DEFAULT_MAX_FAILURES :: nat where "DEFAULT_MAX_FAILURES = 3"
definition DEFAULT_CAP :: nat where "DEFAULT_CAP = 30 * SECOND"

definition delay_for :: "nat \<Rightarrow> nat \<Rightarrow> nat \<Rightarrow> nat" where
  "delay_for failures max_failures cap =
     (let e = min (failures - max_failures) 5; secs = push_bit e 1 in min (secs * SECOND) cap)"

definition new_throttle :: throttle where
  "new_throttle = \<lparr>th_failures = Map.empty, th_last_failure = Map.empty,
     th_max_failures = DEFAULT_MAX_FAILURES, th_cap = DEFAULT_CAP\<rparr>"

definition set_limits :: "nat \<Rightarrow> nat \<Rightarrow> throttle \<Rightarrow> throttle" where
  "set_limits max_failures cap th = th\<lparr>th_max_failures := max max_failures 1, th_cap := cap\<rparr>"

definition throttle_check :: "timestamp \<Rightarrow> rstring \<Rightarrow> throttle \<Rightarrow> throttle_decision" where
  "throttle_check now key th =
     (case th_failures th key of
        None \<Rightarrow> Allow
      | Some n \<Rightarrow>
          if n < th_max_failures th then Allow
          else (case th_last_failure th key of
                  None \<Rightarrow> Allow
                | Some last_at \<Rightarrow>
                    (let delay = delay_for n (th_max_failures th) (th_cap th); elapsed = now - last_at
                     in if elapsed \<ge> delay then Allow else Deny (delay - elapsed))))"

text \<open>The counter is a \<^verbatim>\<open>u32\<close> and wraps in a release build.\<close>

definition record_failure :: "timestamp \<Rightarrow> rstring \<Rightarrow> throttle \<Rightarrow> throttle_decision \<times> throttle" where
  "record_failure now key th =
     (let n = ((case th_failures th key of None \<Rightarrow> 0 | Some n \<Rightarrow> n) + 1) mod 2 ^ 32;
          th1 = th\<lparr>th_failures := (th_failures th)(key \<mapsto> n),
                   th_last_failure := (th_last_failure th)(key \<mapsto> now)\<rparr>
      in (if n < th_max_failures th then Allow else Deny (delay_for n (th_max_failures th) (th_cap th)), th1))"

definition record_success :: "rstring \<Rightarrow> throttle \<Rightarrow> throttle" where
  "record_success key th =
     th\<lparr>th_failures := (th_failures th)(key := None), th_last_failure := (th_last_failure th)(key := None)\<rparr>"

datatype throttle_event = Failed_at timestamp rstring | Succeeded rstring | Limits nat nat

fun throttle_step :: "throttle \<Rightarrow> throttle_event \<Rightarrow> throttle" where
  "throttle_step th (Failed_at t key) = snd (record_failure t key th)"
| "throttle_step th (Succeeded key) = record_success key th"
| "throttle_step th (Limits m cap) = set_limits m cap th"

definition throttle_run :: "throttle_event list \<Rightarrow> throttle" where
  "throttle_run es = foldl throttle_step new_throttle es"

text \<open>The specification: the times of the failures of a key since its last success, oldest first, and
  the limits in force.\<close>

fun streak_step :: "rstring \<Rightarrow> timestamp list \<Rightarrow> throttle_event \<Rightarrow> timestamp list" where
  "streak_step key ts (Failed_at t k) = (if k = key then ts @ [t] else ts)"
| "streak_step key ts (Succeeded k) = (if k = key then [] else ts)"
| "streak_step key ts (Limits m cap) = ts"

definition streak :: "rstring \<Rightarrow> throttle_event list \<Rightarrow> timestamp list" where
  "streak key es = foldl (streak_step key) [] es"

definition spec_check :: "timestamp \<Rightarrow> nat \<Rightarrow> nat \<Rightarrow> timestamp list \<Rightarrow> throttle_decision" where
  "spec_check now m cap ts =
     (if ts = [] \<or> length ts < m then Allow
      else let delay = min (2 ^ min (length ts - m) 5 * SECOND) cap
           in if delay \<le> now - last ts then Allow else Deny (delay - (now - last ts)))"

definition throttle_tracks :: "rstring \<Rightarrow> throttle \<Rightarrow> timestamp list \<Rightarrow> bool" where
  "throttle_tracks key th ts \<longleftrightarrow>
     th_failures th key = (if ts = [] then None else Some (length ts)) \<and>
     th_last_failure th key = (if ts = [] then None else Some (last ts))"

lemma throttle_tracks_step:
  assumes "throttle_tracks key th ts" "length ts + 1 < 2 ^ 32"
  shows "throttle_tracks key (throttle_step th e) (streak_step key ts e)"
  using assms
  by (cases e)
    (auto simp: throttle_tracks_def record_failure_def record_success_def set_limits_def Let_def)

lemma length_streak: "length (foldl (streak_step key) ts es) \<le> length ts + length es"
proof (induction es arbitrary: ts)
  case (Cons e es)
  have "length (streak_step key ts e) \<le> length ts + 1" by (cases e) auto
  with Cons.IH [of "streak_step key ts e"] show ?case by simp
qed simp

lemma throttle_tracks_run:
  "length es < 2 ^ 32 \<Longrightarrow> throttle_tracks key (throttle_run es) (streak key es)"
proof (induction es rule: rev_induct)
  case Nil
  show ?case by (simp add: throttle_run_def streak_def throttle_tracks_def new_throttle_def)
next
  case (snoc e es)
  then have "throttle_tracks key (throttle_run es) (streak key es)" by simp
  moreover have "length (streak key es) + 1 < 2 ^ 32"
    using snoc.prems length_streak [of key "[]" es] by (simp add: streak_def)
  ultimately show ?case
    using throttle_tracks_step by (simp add: throttle_run_def streak_def)
qed



section \<open>Sessions\<close>

record session_row =
  sr_id :: rstring
  sr_user_id :: uuid
  sr_csrf_token :: rstring
  sr_created_at :: timestamp
  sr_expires_at :: timestamp

record session_record =
  ses_id :: uuid
  ses_user_id :: uuid
  ses_csrf_token :: rstring
  ses_expires_at :: timestamp

datatype session_error = Session_db | Session_not_found

definition SESSION_TTL :: nat where "SESSION_TTL = 12 * 3600 * SECOND"

definition hash_session_id :: "(bytes \<Rightarrow> rstring) \<Rightarrow> uuid \<Rightarrow> rstring" where
  "hash_session_id sha session_id = sha (uuid_bytes session_id)"

text \<open>\<open>new_id\<close> and \<open>csrf_id\<close> are the drawn identifiers, \<open>csrf_id\<close> as text; a second row with the same
  primary key is a database error.\<close>

definition create_with_ttl ::
  "(bytes \<Rightarrow> rstring) \<Rightarrow> timestamp \<Rightarrow> uuid \<Rightarrow> rstring \<Rightarrow> uuid \<Rightarrow> nat \<Rightarrow> session_row list
   \<Rightarrow> (session_error + session_record) \<times> session_row list" where
  "create_with_ttl sha now new_id csrf_id user_id ttl t =
     (let csrf = str ''myc2-csrf-'' @ csrf_id; expires = now + ttl in
      if 0 < rows_affected (\<lambda>r. sr_id r = hash_session_id sha new_id) t then (Inl Session_db, t)
      else (Inr \<lparr>ses_id = new_id, ses_user_id = user_id, ses_csrf_token = csrf, ses_expires_at = expires\<rparr>,
            t @ [\<lparr>sr_id = hash_session_id sha new_id, sr_user_id = user_id, sr_csrf_token = csrf,
                  sr_created_at = now, sr_expires_at = expires\<rparr>]))"

definition create_session ::
  "(bytes \<Rightarrow> rstring) \<Rightarrow> timestamp \<Rightarrow> uuid \<Rightarrow> rstring \<Rightarrow> uuid \<Rightarrow> session_row list
   \<Rightarrow> (session_error + session_record) \<times> session_row list" where
  "create_session sha now new_id csrf_id user_id t = create_with_ttl sha now new_id csrf_id user_id SESSION_TTL t"

definition get_session ::
  "(bytes \<Rightarrow> rstring) \<Rightarrow> timestamp \<Rightarrow> uuid \<Rightarrow> session_row list
   \<Rightarrow> (session_error + session_record) \<times> session_row list" where
  "get_session sha now session_id t =
     (case fetch_optional (\<lambda>r. sr_id r = hash_session_id sha session_id) t of
        None \<Rightarrow> (Inl Session_not_found, t)
      | Some r \<Rightarrow>
          if now > sr_expires_at r
          then (Inl Session_not_found, delete_where (\<lambda>r. sr_id r = hash_session_id sha session_id) t)
          else (Inr \<lparr>ses_id = session_id, ses_user_id = sr_user_id r, ses_csrf_token = sr_csrf_token r,
                     ses_expires_at = sr_expires_at r\<rparr>, t))"

definition delete_session :: "(bytes \<Rightarrow> rstring) \<Rightarrow> uuid \<Rightarrow> session_row list \<Rightarrow> session_row list" where
  "delete_session sha session_id t = delete_where (\<lambda>r. sr_id r = hash_session_id sha session_id) t"

definition delete_all_for_user :: "uuid \<Rightarrow> session_row list \<Rightarrow> session_row list" where
  "delete_all_for_user user_id t = delete_where (\<lambda>r. sr_user_id r = user_id) t"

definition purge_expired :: "timestamp \<Rightarrow> session_row list \<Rightarrow> nat \<times> session_row list" where
  "purge_expired now t =
     (rows_affected (\<lambda>r. sr_expires_at r < now) t, delete_where (\<lambda>r. sr_expires_at r < now) t)"

text \<open>The loop of the constant-time comparison: differences accumulate by \<^verbatim>\<open>|=\<close>.\<close>

definition constant_time_eq :: "bytes \<Rightarrow> bytes \<Rightarrow> bool" where
  "constant_time_eq a b =
     (if length a \<noteq> length b then False
      else foldl (\<lambda>diff (x, y). diff OR (x XOR y)) 0 (zip a b) = 0)"

definition verify_csrf ::
  "(bytes \<Rightarrow> rstring) \<Rightarrow> timestamp \<Rightarrow> uuid \<Rightarrow> rstring \<Rightarrow> session_row list
   \<Rightarrow> (session_error + bool) \<times> session_row list" where
  "verify_csrf sha now session_id presented t =
     (case get_session sha now session_id t of
        (Inl e, t1) \<Rightarrow> (Inl e, t1)
      | (Inr s, t1) \<Rightarrow> (Inr (constant_time_eq (as_bytes presented) (as_bytes (ses_csrf_token s))), t1))"

lemma or_eq_0: "(a :: 8 word) OR b = 0 \<longleftrightarrow> a = 0 \<and> b = 0"
  by (metis or.right_neutral or_eq_0_iff)

lemma xor_eq_0: "(a :: 8 word) XOR b = 0 \<longleftrightarrow> a = b"
  by (metis xor.left_neutral xor.assoc xor_self_eq)

lemma diff_fold:
  "length a = length b \<Longrightarrow>
   foldl (\<lambda>diff (x, y). diff OR (x XOR y)) d (zip a b) = 0 \<longleftrightarrow> d = (0 :: 8 word) \<and> a = b"
  by (induction a b arbitrary: d rule: list_induct2) (auto simp: or_eq_0 xor_eq_0)

text \<open>The constant-time comparison decides equality of byte strings, whatever the position of the
  first difference.\<close>
theorem constant_time_eq_correct: "constant_time_eq a b \<longleftrightarrow> a = b"
  by (auto simp: constant_time_eq_def diff_fold)

text \<open>Everything that can happen to the session table.\<close>

datatype session_event = S_create timestamp uuid rstring uuid nat | S_get timestamp uuid
  | S_delete uuid | S_delete_user uuid | S_purge timestamp

fun session_step :: "(bytes \<Rightarrow> rstring) \<Rightarrow> session_row list \<Rightarrow> session_event \<Rightarrow> session_row list" where
  "session_step sha t (S_create now i c u ttl) = snd (create_with_ttl sha now i c u ttl t)"
| "session_step sha t (S_get now i) = snd (get_session sha now i t)"
| "session_step sha t (S_delete i) = delete_session sha i t"
| "session_step sha t (S_delete_user u) = delete_all_for_user u t"
| "session_step sha t (S_purge now) = snd (purge_expired now t)"

definition sessions_wf :: "session_row list \<Rightarrow> bool" where
  "sessions_wf t \<longleftrightarrow> distinct (map sr_id t)"

text \<open>\<open>spares\<close>: the event neither logs the session out nor happens after its expiry.\<close>

fun spares :: "(bytes \<Rightarrow> rstring) \<Rightarrow> session_record \<Rightarrow> session_event \<Rightarrow> bool" where
  "spares sha s (S_create now i c u ttl) = True"
| "spares sha s (S_get now i) = (now \<le> ses_expires_at s)"
| "spares sha s (S_delete i) = (hash_session_id sha i \<noteq> hash_session_id sha (ses_id s))"
| "spares sha s (S_delete_user u) = (u \<noteq> ses_user_id s)"
| "spares sha s (S_purge now) = (now \<le> ses_expires_at s)"

fun ends :: "(bytes \<Rightarrow> rstring) \<Rightarrow> session_record \<Rightarrow> session_event \<Rightarrow> bool" where
  "ends sha s (S_delete i) = (i = ses_id s)"
| "ends sha s (S_delete_user u) = (u = ses_user_id s)"
| "ends sha s (S_purge now) = (ses_expires_at s < now)"
| "ends sha s e = False"

fun recreates :: "(bytes \<Rightarrow> rstring) \<Rightarrow> session_record \<Rightarrow> session_event \<Rightarrow> bool" where
  "recreates sha s (S_create now i c u ttl) = (hash_session_id sha i = hash_session_id sha (ses_id s))"
| "recreates sha s e = False"

definition row_of :: "(bytes \<Rightarrow> rstring) \<Rightarrow> session_record \<Rightarrow> session_row \<Rightarrow> bool" where
  "row_of sha s r \<longleftrightarrow> sr_id r = hash_session_id sha (ses_id s) \<and> sr_user_id r = ses_user_id s \<and>
     sr_csrf_token r = ses_csrf_token s \<and> sr_expires_at r = ses_expires_at s"

definition holds_session :: "(bytes \<Rightarrow> rstring) \<Rightarrow> session_record \<Rightarrow> session_row list \<Rightarrow> bool" where
  "holds_session sha s t \<longleftrightarrow> sessions_wf t \<and> (\<exists>r \<in> set t. row_of sha s r)"

definition lacks_session :: "(bytes \<Rightarrow> rstring) \<Rightarrow> session_record \<Rightarrow> session_row list \<Rightarrow> bool" where
  "lacks_session sha s t \<longleftrightarrow> (\<forall>r \<in> set t. sr_id r \<noteq> hash_session_id sha (ses_id s))"

lemma sessions_wf_delete [simp]: "sessions_wf t \<Longrightarrow> sessions_wf (delete_where p t)"
  by (simp add: sessions_wf_def delete_where_def distinct_map_filter)

lemma sessions_wf_step: "sessions_wf t \<Longrightarrow> sessions_wf (session_step sha t e)"
  by (cases e)
    (auto simp: create_with_ttl_def get_session_def delete_session_def delete_all_for_user_def
      purge_expired_def Let_def rows_affected_pos sessions_wf_def image_iff delete_where_def distinct_map_filter
      split: option.splits)

lemma fetch_session:
  assumes "holds_session sha s t"
  obtains r where "fetch_optional (\<lambda>r. sr_id r = hash_session_id sha (ses_id s)) t = Some r" "row_of sha s r"
proof -
  from assms obtain r where r: "r \<in> set t" "row_of sha s r" "distinct (map sr_id t)"
    by (auto simp: holds_session_def sessions_wf_def)
  then have "fetch_optional (\<lambda>r. sr_id r = hash_session_id sha (ses_id s)) t = Some r"
    by (intro fetch_optional_by_key [where k = sr_id]) (auto simp: row_of_def)
  with r(2) that show thesis by blast
qed

lemma holds_session_get:
  assumes "holds_session sha s t" "now \<le> ses_expires_at s"
  shows "get_session sha now (ses_id s) t = (Inr s, t)"
proof -
  obtain r where "fetch_optional (\<lambda>r. sr_id r = hash_session_id sha (ses_id s)) t = Some r" "row_of sha s r"
    by (rule fetch_session [OF assms(1)])
  with assms(2) show ?thesis by (simp add: get_session_def row_of_def)
qed

lemma holds_session_step:
  assumes "holds_session sha s t" "spares sha s e"
  shows "holds_session sha s (session_step sha t e)"
proof -
  from assms(1) obtain r where r: "r \<in> set t" "row_of sha s r" and wf: "sessions_wf t"
    by (auto simp: holds_session_def)
  have "r \<in> set (session_step sha t e)"
  proof (cases e)
    case (S_get now i)
    show ?thesis
    proof (cases "hash_session_id sha i = hash_session_id sha (ses_id s)")
      case True
      obtain r' where "fetch_optional (\<lambda>r. sr_id r = hash_session_id sha (ses_id s)) t = Some r'" "row_of sha s r'"
        by (rule fetch_session [OF assms(1)])
      with assms(2) r(1) show ?thesis by (simp add: S_get get_session_def True row_of_def)
    next
      case False
      with r show ?thesis by (auto simp: S_get get_session_def row_of_def split: option.splits)
    qed
  qed (use r assms(2) in \<open>auto simp: create_with_ttl_def delete_session_def delete_all_for_user_def
      purge_expired_def Let_def row_of_def\<close>)
  with r(2) wf show ?thesis by (auto simp: holds_session_def sessions_wf_step)
qed

lemma holds_session_run:
  "holds_session sha s t \<Longrightarrow> \<forall>e \<in> set es. spares sha s e \<Longrightarrow> holds_session sha s (foldl (session_step sha) t es)"
  by (induction es arbitrary: t) (auto simp: holds_session_step)

lemma lacks_session_step:
  "lacks_session sha s t \<Longrightarrow> \<not> recreates sha s e \<Longrightarrow> lacks_session sha s (session_step sha t e)"
  by (cases e)
    (auto simp: lacks_session_def create_with_ttl_def get_session_def delete_session_def delete_all_for_user_def
      purge_expired_def Let_def split: option.splits)

lemma lacks_session_run:
  "lacks_session sha s t \<Longrightarrow> \<forall>e \<in> set es. \<not> recreates sha s e \<Longrightarrow> lacks_session sha s (foldl (session_step sha) t es)"
  by (induction es arbitrary: t) (auto simp: lacks_session_step)

lemma lacks_session_get: "lacks_session sha s t \<Longrightarrow> fst (get_session sha now (ses_id s) t) = Inl Session_not_found"
  by (simp add: lacks_session_def get_session_def fetch_optional_None [THEN iffD2])

lemma ends_session:
  assumes "holds_session sha s t" "ends sha s e"
  shows "lacks_session sha s (session_step sha t e)"
proof -
  from assms(1) obtain r where r: "r \<in> set t" "row_of sha s r" "distinct (map sr_id t)"
    by (auto simp: holds_session_def sessions_wf_def)
  then have "r' = r" if "r' \<in> set t" "sr_id r' = hash_session_id sha (ses_id s)" for r'
    using that by (metis (no_types, lifting) distinct_map inj_onD row_of_def)
  with r(2) assms(2) show ?thesis
    by (cases e)
      (fastforce simp: lacks_session_def delete_session_def delete_all_for_user_def purge_expired_def row_of_def)+
qed

lemma created_fields:
  "create_with_ttl sha now i c u ttl t = (Inr s, t') \<Longrightarrow>
   ses_id s = i \<and> ses_user_id s = u \<and> ses_expires_at s = now + ttl"
  by (auto simp: create_with_ttl_def Let_def split: if_splits)

lemma created_session:
  assumes "sessions_wf t" "create_with_ttl sha now i c u ttl t = (Inr s, t')"
  shows "holds_session sha s t'"
proof -
  from assms(2) have "\<not> (\<exists>r \<in> set t. sr_id r = hash_session_id sha i)"
    by (auto simp: create_with_ttl_def Let_def rows_affected_pos split: if_splits)
  then have "hash_session_id sha i \<notin> sr_id ` set t" by auto
  with assms show ?thesis
    by (auto simp: create_with_ttl_def Let_def holds_session_def row_of_def sessions_wf_def split: if_splits)
qed

text \<open>A session lives exactly as long as it should.  Once created, it is found with its user and
  token at every time up to its expiry, through any events that do not log it out; after its expiry
  it is not found; and once it is deleted, its user's sessions are deleted, or it is purged, it is
  not found again at any time whatever follows, unless a new session is created with the same
  hashed identifier.\<close>
theorem session_lifetime:
  assumes "sessions_wf t" and "create_with_ttl sha now i c u ttl t = (Inr s, t')"
    and "\<forall>e \<in> set es. spares sha s e"
  shows "(if now' \<le> now + ttl
          then fst (get_session sha now' i (foldl (session_step sha) t' es)) = Inr s
          else fst (get_session sha now' i (foldl (session_step sha) t' es)) = Inl Session_not_found) \<and>
    (\<forall>e es'. ends sha s e \<and> (\<forall>e' \<in> set es'. \<not> recreates sha s e') \<longrightarrow>
       fst (get_session sha now' i (foldl (session_step sha) t' (es @ [e] @ es'))) = Inl Session_not_found)"
proof -
  have s: "ses_id s = i" "ses_expires_at s = now + ttl"
    using assms(2) by (auto simp: create_with_ttl_def Let_def split: if_splits)
  have H: "holds_session sha s (foldl (session_step sha) t' es)"
    by (rule holds_session_run [OF created_session [OF assms(1,2)] assms(3)])
  obtain r where r: "fetch_optional (\<lambda>r. sr_id r = hash_session_id sha i) (foldl (session_step sha) t' es) = Some r"
    "row_of sha s r" using fetch_session [OF H] s(1) by auto
  have "fst (get_session sha now' i (foldl (session_step sha) t' (es @ [e] @ es'))) = Inl Session_not_found"
    if "ends sha s e" "\<forall>e' \<in> set es'. \<not> recreates sha s e'" for e es'
    using lacks_session_get [OF lacks_session_run [OF ends_session [OF H that(1)] that(2)]] s(1) by simp
  moreover have "fst (get_session sha now' i (foldl (session_step sha) t' es)) = Inl Session_not_found"
    if "\<not> now' \<le> now + ttl"
    using r that s by (simp add: get_session_def row_of_def)
  ultimately show ?thesis using holds_session_get [OF H] s by auto
qed

theorem session_lifetime_witness:
  "fst (get_session (\<lambda>b. map unat b) 50 4 (foldl (session_step (\<lambda>b. map unat b))
     (snd (create_with_ttl (\<lambda>b. map unat b) 10 4 [] 7 100 [])) [S_purge 20, S_delete_user 8])) =
   Inr \<lparr>ses_id = 4, ses_user_id = 7, ses_csrf_token = str ''myc2-csrf-'', ses_expires_at = 110\<rparr>"
  using session_lifetime [of "[]" "\<lambda>b. map unat b" 10 4 "[]" 7 100 _ _ "[S_purge 20, S_delete_user 8]" 50]
  by (simp add: sessions_wf_def create_with_ttl_def rows_affected_def Let_def)

section \<open>API keys\<close>

record api_key_row =
  ak_id :: uuid
  ak_user_id :: uuid
  ak_key_hash :: rstring
  ak_label :: rstring
  ak_created_at :: timestamp
  ak_last_used_at :: "timestamp option"
  ak_revoked_at :: "timestamp option"

record api_key_record =
  kr_id :: uuid
  kr_user_id :: uuid
  kr_label :: rstring
  kr_created_at :: timestamp
  kr_last_used_at :: "timestamp option"
  kr_revoked_at :: "timestamp option"

datatype api_key_error = Api_key_db | Api_key_not_found

definition hash_token :: "(bytes \<Rightarrow> rstring) \<Rightarrow> rstring \<Rightarrow> rstring" where
  "hash_token sha token = sha (as_bytes token)"

text \<open>\<open>random_hex\<close> is the hex text of the 16 random bytes.  The identifier is the primary key and the hash
  is unique.\<close>

definition mint ::
  "(bytes \<Rightarrow> rstring) \<Rightarrow> timestamp \<Rightarrow> uuid \<Rightarrow> rstring \<Rightarrow> uuid \<Rightarrow> rstring \<Rightarrow> api_key_row list
   \<Rightarrow> (api_key_error + api_key_record \<times> rstring) \<times> api_key_row list" where
  "mint sha now new_id random_hex user_id label t =
     (let token = str ''myc2-'' @ random_hex; hash = hash_token sha token in
      if 0 < rows_affected (\<lambda>r. ak_id r = new_id \<or> ak_key_hash r = hash) t then (Inl Api_key_db, t)
      else (Inr (\<lparr>kr_id = new_id, kr_user_id = user_id, kr_label = label, kr_created_at = now,
                  kr_last_used_at = None, kr_revoked_at = None\<rparr>, token),
            t @ [\<lparr>ak_id = new_id, ak_user_id = user_id, ak_key_hash = hash, ak_label = label,
                  ak_created_at = now, ak_last_used_at = None, ak_revoked_at = None\<rparr>]))"

definition verify_token ::
  "(bytes \<Rightarrow> rstring) \<Rightarrow> timestamp \<Rightarrow> rstring \<Rightarrow> api_key_row list
   \<Rightarrow> (api_key_error + api_key_record) \<times> api_key_row list" where
  "verify_token sha now token t =
     (case fetch_optional (\<lambda>r. ak_key_hash r = hash_token sha token) t of
        None \<Rightarrow> (Inl Api_key_not_found, t)
      | Some r \<Rightarrow>
          if ak_revoked_at r \<noteq> None then (Inl Api_key_not_found, t)
          else (Inr \<lparr>kr_id = ak_id r, kr_user_id = ak_user_id r, kr_label = ak_label r,
                     kr_created_at = ak_created_at r, kr_last_used_at = ak_last_used_at r, kr_revoked_at = None\<rparr>,
                update_where (\<lambda>r'. ak_id r' = ak_id r) (\<lambda>r'. r'\<lparr>ak_last_used_at := Some now\<rparr>) t))"

definition revoke :: "timestamp \<Rightarrow> uuid \<Rightarrow> api_key_row list \<Rightarrow> api_key_row list" where
  "revoke now key_id t =
     update_where (\<lambda>r. ak_id r = key_id)
       (\<lambda>r. r\<lparr>ak_revoked_at := (case ak_revoked_at r of None \<Rightarrow> Some now | Some at \<Rightarrow> Some at)\<rparr>) t"

definition list_for_user :: "uuid \<Rightarrow> api_key_row list \<Rightarrow> api_key_record list" where
  "list_for_user user_id t =
     map (\<lambda>r. \<lparr>kr_id = ak_id r, kr_user_id = ak_user_id r, kr_label = ak_label r, kr_created_at = ak_created_at r,
               kr_last_used_at = ak_last_used_at r, kr_revoked_at = ak_revoked_at r\<rparr>)
       (order_by ak_created_at (filter (\<lambda>r. ak_user_id r = user_id) t))"

datatype key_event = K_mint timestamp uuid rstring uuid rstring | K_verify timestamp rstring | K_revoke timestamp uuid

fun key_step :: "(bytes \<Rightarrow> rstring) \<Rightarrow> api_key_row list \<Rightarrow> key_event \<Rightarrow> api_key_row list" where
  "key_step sha t (K_mint now i x u l) = snd (mint sha now i x u l t)"
| "key_step sha t (K_verify now tok) = snd (verify_token sha now tok t)"
| "key_step sha t (K_revoke now i) = revoke now i t"

definition keys_wf :: "api_key_row list \<Rightarrow> bool" where
  "keys_wf t \<longleftrightarrow> distinct (map ak_id t) \<and> distinct (map ak_key_hash t)"

text \<open>\<open>has_key\<close>: the row of a minted key, live or revoked.\<close>

definition has_key :: "api_key_record \<Rightarrow> rstring \<Rightarrow> bool \<Rightarrow> api_key_row list \<Rightarrow> bool" where
  "has_key k hash live t \<longleftrightarrow> keys_wf t \<and> (\<exists>r \<in> set t. ak_id r = kr_id k \<and> ak_key_hash r = hash \<and>
     ak_user_id r = kr_user_id k \<and> ak_label r = kr_label k \<and> ak_created_at r = kr_created_at k \<and>
     (ak_revoked_at r = None \<longleftrightarrow> live))"

lemma keys_wf_update:
  "(\<And>r. ak_id (f r) = ak_id r \<and> ak_key_hash (f r) = ak_key_hash r) \<Longrightarrow> keys_wf t \<Longrightarrow> keys_wf (update_where p f t)"
  by (simp add: keys_wf_def row_simps)

lemma keys_wf_step: "keys_wf t \<Longrightarrow> keys_wf (key_step sha t e)"
proof (cases e)
  case (K_mint now i x u l)
  assume wf: "keys_wf t"
  show ?thesis
  proof (cases "\<exists>r \<in> set t. ak_id r = i \<or> ak_key_hash r = hash_token sha (str ''myc2-'' @ x)")
    case True
    with wf show ?thesis by (simp add: K_mint mint_def rows_affected_pos Let_def)
  next
    case False
    then have "i \<notin> ak_id ` set t" "hash_token sha (str ''myc2-'' @ x) \<notin> ak_key_hash ` set t" by auto
    with wf False show ?thesis by (simp add: K_mint mint_def rows_affected_pos Let_def keys_wf_def)
  qed
qed (auto simp: verify_token_def revoke_def keys_wf_update split: option.splits)

lemma has_key_step:
  assumes "has_key k hash live t"
  shows "has_key k hash (live \<and> \<not> (\<exists>now. e = K_revoke now (kr_id k))) (key_step sha t e)"
proof -
  from assms obtain r where r: "r \<in> set t" "ak_id r = kr_id k" "ak_key_hash r = hash" "ak_user_id r = kr_user_id k"
    "ak_label r = kr_label k" "ak_created_at r = kr_created_at k" "ak_revoked_at r = None \<longleftrightarrow> live"
    and wf: "keys_wf t" by (auto simp: has_key_def)
  have "\<exists>r' \<in> set (key_step sha t e). ak_id r' = kr_id k \<and> ak_key_hash r' = hash \<and> ak_user_id r' = kr_user_id k \<and>
      ak_label r' = kr_label k \<and> ak_created_at r' = kr_created_at k \<and>
      (ak_revoked_at r' = None \<longleftrightarrow> live \<and> \<not> (\<exists>now. e = K_revoke now (kr_id k)))"
  proof (cases e)
    case (K_mint now i x u l)
    with r show ?thesis by (auto simp: mint_def Let_def)
  next
    case (K_verify now tok)
    then have "key_step sha t e = t \<or> (\<exists>j. key_step sha t e =
        update_where (\<lambda>r. ak_id r = j) (\<lambda>r. r\<lparr>ak_last_used_at := Some now\<rparr>) t)"
      by (auto simp: verify_token_def split: option.splits)
    then show ?thesis
    proof
      assume "key_step sha t e = t"
      with r K_verify show ?thesis by auto
    next
      assume "\<exists>j. key_step sha t e = update_where (\<lambda>r. ak_id r = j) (\<lambda>r. r\<lparr>ak_last_used_at := Some now\<rparr>) t"
      with r K_verify show ?thesis by (auto intro!: bexI [OF _ update_where_mem [OF r(1)]])
    qed
  next
    case (K_revoke now i)
    with r show ?thesis
      by (auto simp: revoke_def split: option.splits if_splits intro!: bexI [OF _ update_where_mem [OF r(1)]])
  qed
  with keys_wf_step [OF wf] show ?thesis by (simp add: has_key_def)
qed

lemma has_key_run:
  "has_key k hash live t \<Longrightarrow>
   has_key k hash (live \<and> (\<forall>now. K_revoke now (kr_id k) \<notin> set es)) (foldl (key_step sha) t es)"
proof (induction es arbitrary: live t)
  case (Cons e es)
  from Cons.IH [OF has_key_step [OF Cons.prems, of e sha]] show ?case
    by (auto elim!: back_subst [of "\<lambda>b. has_key k hash b _"])
qed simp

lemma has_key_verify:
  assumes "has_key k (hash_token sha token) live t"
  shows "(if live then \<exists>u. fst (verify_token sha now token t) = Inr (k\<lparr>kr_last_used_at := u, kr_revoked_at := None\<rparr>)
          else fst (verify_token sha now token t) = Inl Api_key_not_found)"
proof -
  from assms obtain r where r: "r \<in> set t" "ak_id r = kr_id k" "ak_key_hash r = hash_token sha token"
    "ak_user_id r = kr_user_id k" "ak_label r = kr_label k" "ak_created_at r = kr_created_at k"
    "ak_revoked_at r = None \<longleftrightarrow> live" and wf: "distinct (map ak_key_hash t)"
    by (auto simp: has_key_def keys_wf_def)
  have "fetch_optional (\<lambda>r. ak_key_hash r = hash_token sha token) t = Some r"
    using wf r by (intro fetch_optional_by_key [where k = ak_key_hash]) auto
  with r show ?thesis by (cases k) (auto simp: verify_token_def)
qed

text \<open>An API key authenticates its owner until it is revoked, and never after.  A minted token
  verifies as the key it was minted for, through any further minting, verifying and revoking of
  other keys; once its own identifier has been revoked it is refused for good.\<close>
theorem api_key_until_revoked:
  assumes "keys_wf t" and "mint sha now i x u l t = (Inr (k, token), t')"
  shows "if (\<exists>at. K_revoke at i \<in> set es)
    then fst (verify_token sha now' token (foldl (key_step sha) t' es)) = Inl Api_key_not_found
    else \<exists>used. fst (verify_token sha now' token (foldl (key_step sha) t' es)) =
      Inr \<lparr>kr_id = i, kr_user_id = u, kr_label = l, kr_created_at = now, kr_last_used_at = used, kr_revoked_at = None\<rparr>"
proof -
  from assms(2) have k: "k = \<lparr>kr_id = i, kr_user_id = u, kr_label = l, kr_created_at = now,
      kr_last_used_at = None, kr_revoked_at = None\<rparr>" and t': "t' = key_step sha t (K_mint now i x u l)"
    and row: "\<lparr>ak_id = i, ak_user_id = u, ak_key_hash = hash_token sha token, ak_label = l,
      ak_created_at = now, ak_last_used_at = None, ak_revoked_at = None\<rparr> \<in> set t'"
    by (auto simp: mint_def Let_def split: if_splits)
  have "has_key k (hash_token sha token) True t'"
    unfolding has_key_def using keys_wf_step [OF assms(1), of sha "K_mint now i x u l", folded t']
    by (auto simp: k intro!: bexI [OF _ row])
  from has_key_verify [OF has_key_run [OF this, of es], of now'] show ?thesis
    by (auto simp: k)
qed

theorem api_key_until_revoked_witness:
  "fst (verify_token (\<lambda>b. map unat b) 9 (str ''myc2-aa'')
     (foldl (key_step (\<lambda>b. map unat b)) (snd (mint (\<lambda>b. map unat b) 1 5 (str ''aa'') 7 [] [])) [K_revoke 3 5])) =
   Inl Api_key_not_found"
  using api_key_until_revoked [of "[]" "\<lambda>b. map unat b" 1 5 "str ''aa''" 7 "[]" _ _ _ "[K_revoke 3 5]" 9]
  by (simp add: keys_wf_def mint_def rows_affected_def Let_def)

section \<open>Roles\<close>

datatype role = Admin | User

fun role_as_str :: "role \<Rightarrow> rstring" where
  "role_as_str Admin = str ''admin''"
| "role_as_str User = str ''user''"

definition role_parse :: "rstring \<Rightarrow> role option" where
  "role_parse s = (if s = str ''admin'' then Some Admin else if s = str ''user'' then Some User else None)"

interpretation role_codec: str_codec role_as_str role_parse
proof
  show "role_parse (role_as_str x) = Some x" for x by (cases x) (simp_all add: role_parse_def)
  show "role_as_str x = s" if "role_parse s = Some x" for s x
    using that by (auto simp: role_parse_def split: if_splits)
qed

record session_user =
  su_user_id :: uuid
  su_username :: rstring
  su_role :: role

text \<open>The extractors on the user attached to the request: an HTTP status on rejection.\<close>

definition extract_user :: "session_user option \<Rightarrow> nat + session_user" where
  "extract_user attached = ok_or attached 401"

definition require_admin :: "session_user option \<Rightarrow> nat + unit" where
  "require_admin attached =
     and_then (ok_or attached 401) (\<lambda>user. if su_role user \<noteq> Admin then Inl 403 else Inr ())"

end
