(* ===== verification/Auth_Login.thy ===== *)
theory Auth_Login
  imports Key_Seal Auth_Session
begin

text \<open>
  Accounts and login: \<^verbatim>\<open>crates/mycelium-auth/src/password.rs\<close>, \<^verbatim>\<open>users.rs\<close>, \<^verbatim>\<open>totp.rs\<close> and
  \<^verbatim>\<open>login.rs\<close>.  The state is the users table, the session table and the shared throttle.  Password
  hashing, TOTP code generation, digests and the JSON coding of sealed records are parameters.
\<close>

section \<open>Parameters\<close>

record auth_prims =
  ap_crypto :: prims
  ap_sha :: "bytes \<Rightarrow> rstring"
  pw_hash :: "bytes \<Rightarrow> bytes \<Rightarrow> rstring option"
  pw_verify :: "bytes \<Rightarrow> rstring \<Rightarrow> bool option"
  sealed_to_json :: "sealed_master_key \<Rightarrow> rstring option"
  sealed_from_json :: "rstring \<Rightarrow> sealed_master_key option"
  totp_builds :: "rstring \<Rightarrow> bool"
  totp_check :: "timestamp \<Rightarrow> rstring \<Rightarrow> rstring \<Rightarrow> nat option"

text \<open>What the theorems use: a password verifies against its own hash, and JSON reads back.\<close>

definition good_auth :: "auth_prims \<Rightarrow> bool" where
  "good_auth A \<longleftrightarrow> good_prims (ap_crypto A) \<and>
     (\<forall>w s h. pw_hash A w s = Some h \<longrightarrow> pw_verify A w h = Some True) \<and>
     (\<forall>r j. sealed_to_json A r = Some j \<longrightarrow> sealed_from_json A j = Some r)"

section \<open>Passwords\<close>

datatype password_error = Too_short_password nat | Hash_failed | Invalid_hash

definition MIN_PASSWORD_LEN :: nat where "MIN_PASSWORD_LEN = 20"

definition check_password_policy_min :: "rstring \<Rightarrow> nat \<Rightarrow> password_error + unit" where
  "check_password_policy_min password min_len =
     (if length password < min_len then Inl (Too_short_password min_len) else Inr ())"

definition check_password_policy :: "rstring \<Rightarrow> password_error + unit" where
  "check_password_policy password = check_password_policy_min password MIN_PASSWORD_LEN"

definition hash_password :: "auth_prims \<Rightarrow> bytes \<Rightarrow> rstring \<Rightarrow> password_error + rstring" where
  "hash_password A salt password = ok_or (pw_hash A (as_bytes password) salt) Hash_failed"

definition verify_password :: "auth_prims \<Rightarrow> rstring \<Rightarrow> rstring \<Rightarrow> password_error + bool" where
  "verify_password A password stored = ok_or (pw_verify A (as_bytes password) stored) Invalid_hash"

section \<open>Users\<close>

datatype users_error = Users_db | Duplicate | User_not_found | User_invalid_credentials
  | Password_err password_error | Crypto_err crypto_error | Corrupt_seal

record user_row =
  u_id :: uuid
  u_username :: rstring
  u_email :: rstring
  u_role :: rstring
  u_auth_provider :: rstring
  u_password_hash :: "rstring option"
  u_sealed_master_key :: rstring
  u_must_change_password :: bool
  u_totp_secret :: "rstring option"
  u_created_at :: timestamp
  u_updated_at :: timestamp

record user_record =
  ur_id :: uuid
  ur_username :: rstring
  ur_email :: rstring
  ur_role :: role
  ur_auth_provider :: rstring
  ur_password_hash :: "rstring option"
  ur_sealed_master_key :: rstring
  ur_must_change_password :: bool
  ur_totp_secret :: "rstring option"
  ur_created_at :: timestamp

definition decode_user :: "user_row \<Rightarrow> users_error + user_record" where
  "decode_user r =
     and_then (ok_or (role_parse (u_role r)) Corrupt_seal) (\<lambda>role.
       Inr \<lparr>ur_id = u_id r, ur_username = u_username r, ur_email = u_email r, ur_role = role,
            ur_auth_provider = u_auth_provider r, ur_password_hash = u_password_hash r,
            ur_sealed_master_key = u_sealed_master_key r, ur_must_change_password = u_must_change_password r,
            ur_totp_secret = u_totp_secret r, ur_created_at = u_created_at r\<rparr>)"

definition get_by_username :: "rstring \<Rightarrow> user_row list \<Rightarrow> users_error + user_record" where
  "get_by_username username t =
     and_then (ok_or (fetch_optional (\<lambda>r. nocase_eq (u_username r) username) t) User_not_found) decode_user"

definition get_by_id :: "uuid \<Rightarrow> user_row list \<Rightarrow> users_error + user_record" where
  "get_by_id user_id t =
     and_then (ok_or (fetch_optional (\<lambda>r. u_id r = user_id) t) User_not_found) decode_user"

text \<open>The random material of an account creation.\<close>

record creation =
  cn_id :: uuid
  cn_pw_salt :: bytes
  cn_master :: bytes
  cn_recovery :: bytes
  cn_seal_salt :: bytes
  cn_n1 :: bytes
  cn_n2 :: bytes

definition pw_err :: "password_error + 'a \<Rightarrow> users_error + 'a" where
  "pw_err r = (case r of Inl e \<Rightarrow> Inl (Password_err e) | Inr x \<Rightarrow> Inr x)"

definition cr_err :: "crypto_error + 'a \<Rightarrow> users_error + 'a" where
  "cr_err r = (case r of Inl e \<Rightarrow> Inl (Crypto_err e) | Inr x \<Rightarrow> Inr x)"

text \<open>The constraints of the users table.\<close>

definition user_conflict :: "user_row \<Rightarrow> user_row \<Rightarrow> bool" where
  "user_conflict r r' \<longleftrightarrow> u_id r = u_id r' \<or> nocase_eq (u_username r) (u_username r') \<or> nocase_eq (u_email r) (u_email r')"

record created_user =
  cu_record :: user_record
  cu_recovery_key :: rstring
  cu_master_key :: master_key

definition create_local ::
  "auth_prims \<Rightarrow> timestamp \<Rightarrow> creation \<Rightarrow> rstring \<Rightarrow> rstring \<Rightarrow> rstring \<Rightarrow> role \<Rightarrow> user_row list
   \<Rightarrow> (users_error + created_user) \<times> user_row list" where
  "create_local A now cn username email password role t =
     (let master = MasterKey (cn_master cn); recovery = generate_recovery_key (ap_crypto A) (cn_recovery cn) in
      case and_then (pw_err (check_password_policy password)) (\<lambda>_.
           and_then (pw_err (hash_password A (cn_pw_salt cn) password)) (\<lambda>hash.
           and_then (cr_err (seal_master_key (ap_crypto A) (cn_seal_salt cn) (cn_n1 cn) (cn_n2 cn) master password recovery)) (\<lambda>sealed.
           and_then (ok_or (sealed_to_json A sealed) Corrupt_seal) (\<lambda>json. Inr (hash, json))))) of
        Inl e \<Rightarrow> (Inl e, t)
      | Inr (hash, json) \<Rightarrow>
          (let row = \<lparr>u_id = cn_id cn, u_username = username, u_email = email, u_role = role_as_str role,
                      u_auth_provider = str ''local'', u_password_hash = Some hash, u_sealed_master_key = json,
                      u_must_change_password = False, u_totp_secret = None, u_created_at = now, u_updated_at = now\<rparr>
           in if 0 < rows_affected (user_conflict row) t then (Inl Duplicate, t)
              else (Inr \<lparr>cu_record = \<lparr>ur_id = cn_id cn, ur_username = username, ur_email = email, ur_role = role,
                           ur_auth_provider = str ''local'', ur_password_hash = Some hash, ur_sealed_master_key = json,
                           ur_must_change_password = False, ur_totp_secret = None, ur_created_at = now\<rparr>,
                         cu_recovery_key = recovery, cu_master_key = master\<rparr>, t @ [row])))"

record authenticated_user =
  au_record :: user_record
  au_master_key :: master_key

definition authenticate_local ::
  "auth_prims \<Rightarrow> rstring \<Rightarrow> rstring \<Rightarrow> user_row list \<Rightarrow> users_error + authenticated_user" where
  "authenticate_local A username password t =
     and_then (get_by_username username t) (\<lambda>rec.
       case ur_password_hash rec of
         None \<Rightarrow> Inl User_invalid_credentials
       | Some stored \<Rightarrow>
           and_then (pw_err (verify_password A password stored)) (\<lambda>ok.
             if \<not> ok then Inl User_invalid_credentials
             else and_then (ok_or (sealed_from_json A (ur_sealed_master_key rec)) Corrupt_seal) (\<lambda>sealed.
               and_then (cr_err (unseal_with_password (ap_crypto A) sealed password)) (\<lambda>master.
                 Inr \<lparr>au_record = rec, au_master_key = master\<rparr>))))"

text \<open>The checks and the new column values of a password change; the \<^verbatim>\<open>UPDATE\<close> follows them.\<close>

definition change_password_values ::
  "auth_prims \<Rightarrow> bytes \<Rightarrow> bytes \<Rightarrow> bytes \<Rightarrow> uuid \<Rightarrow> rstring \<Rightarrow> rstring \<Rightarrow> nat \<Rightarrow> user_row list \<Rightarrow> users_error + rstring \<times> rstring" where
  "change_password_values A salt nonce pw_salt user_id old_password new_password min_len t =
     and_then (pw_err (check_password_policy_min new_password min_len)) (\<lambda>_.
     and_then (get_by_id user_id t) (\<lambda>rec.
       case ur_password_hash rec of
         None \<Rightarrow> Inl User_invalid_credentials
       | Some stored \<Rightarrow>
           and_then (pw_err (verify_password A old_password stored)) (\<lambda>ok.
             if \<not> ok then Inl User_invalid_credentials
             else and_then (ok_or (sealed_from_json A (ur_sealed_master_key rec)) Corrupt_seal) (\<lambda>sealed.
               and_then (cr_err (change_password (ap_crypto A) salt nonce sealed old_password new_password)) (\<lambda>resealed.
               and_then (ok_or (sealed_to_json A resealed) Corrupt_seal) (\<lambda>json.
               and_then (pw_err (hash_password A pw_salt new_password)) (\<lambda>new_hash. Inr (new_hash, json))))))))"

definition store_password :: "timestamp \<Rightarrow> uuid \<Rightarrow> rstring \<times> rstring \<Rightarrow> user_row list \<Rightarrow> user_row list" where
  "store_password now user_id values t =
     update_where (\<lambda>r. u_id r = user_id)
       (\<lambda>r. r\<lparr>u_password_hash := Some (fst values), u_sealed_master_key := snd values,
              u_must_change_password := False, u_updated_at := now\<rparr>) t"

definition change_password_min ::
  "auth_prims \<Rightarrow> timestamp \<Rightarrow> bytes \<Rightarrow> bytes \<Rightarrow> bytes \<Rightarrow> uuid \<Rightarrow> rstring \<Rightarrow> rstring \<Rightarrow> nat \<Rightarrow> user_row list
   \<Rightarrow> (users_error + unit) \<times> user_row list" where
  "change_password_min A now salt nonce pw_salt user_id old_password new_password min_len t =
     (case change_password_values A salt nonce pw_salt user_id old_password new_password min_len t of
        Inl e \<Rightarrow> (Inl e, t)
      | Inr values \<Rightarrow> (Inr (), store_password now user_id values t))"

definition update_sealed ::
  "auth_prims \<Rightarrow> timestamp \<Rightarrow> uuid \<Rightarrow> rstring \<Rightarrow> sealed_master_key \<Rightarrow> user_row list \<Rightarrow> (users_error + bool) \<times> user_row list" where
  "update_sealed A now user_id pre_read sealed t =
     (case sealed_to_json A sealed of
        None \<Rightarrow> (Inl Corrupt_seal, t)
      | Some json \<Rightarrow>
          (let p = (\<lambda>r. u_id r = user_id \<and> u_sealed_master_key r = pre_read)
           in (Inr (0 < rows_affected p t),
               update_where p (\<lambda>r. r\<lparr>u_sealed_master_key := json, u_updated_at := now\<rparr>) t)))"

definition count_users :: "user_row list \<Rightarrow> nat" where
  "count_users t = count_where (\<lambda>r. True) t"

text \<open>The admin listing: identity columns and the forced-change flag, by username.\<close>

definition list_all_detailed :: "user_row list \<Rightarrow> (uuid \<times> rstring \<times> rstring \<times> rstring \<times> rstring \<times> bool) list" where
  "list_all_detailed t =
     map (\<lambda>r. (u_id r, u_username r, u_email r, u_role r, u_auth_provider r, u_must_change_password r))
       (order_by (\<lambda>r. map ascii_lower (u_username r)) t)"

text \<open>\<^verbatim>\<open>DELETE FROM users\<close> with its cascades to sessions and API keys.\<close>

definition delete_user ::
  "uuid \<Rightarrow> user_row list \<Rightarrow> session_row list \<Rightarrow> api_key_row list
   \<Rightarrow> (users_error + unit) \<times> user_row list \<times> session_row list \<times> api_key_row list" where
  "delete_user user_id t ss ks =
     (if rows_affected (\<lambda>r. u_id r = user_id) t = 0 then (Inl User_not_found, t, ss, ks)
      else (Inr (), delete_where (\<lambda>r. u_id r = user_id) t, delete_where (\<lambda>s. sr_user_id s = user_id) ss,
            delete_where (\<lambda>k. ak_user_id k = user_id) ks))"

section \<open>TOTP\<close>

definition TOTP_AAD :: bytes where "TOTP_AAD = as_bytes (str ''totp-secret:v1'')"
definition ENC_PREFIX :: rstring where "ENC_PREFIX = str ''enc1:''"

datatype totp_error = Totp_not_found | Corrupt_secret

text \<open>The code panics where \<open>seal_secret\<close> is none.\<close>

definition seal_secret :: "auth_prims \<Rightarrow> bytes \<Rightarrow> rstring \<Rightarrow> dek \<Rightarrow> rstring option" where
  "seal_secret A nonce secret key =
     (case aead_seal (ap_crypto A) nonce (as_bytes secret) TOTP_AAD key of
        Inl e \<Rightarrow> None
      | Inr b \<Rightarrow> Some (ENC_PREFIX @ hex_encode (ap_crypto A) b))"

definition open_secret :: "auth_prims \<Rightarrow> rstring \<Rightarrow> dek \<Rightarrow> totp_error + rstring" where
  "open_secret A stored key =
     (case strip_prefix stored ENC_PREFIX of
        None \<Rightarrow> Inr stored
      | Some hex_part \<Rightarrow>
          and_then (ok_or (hex_decode (ap_crypto A) hex_part) Corrupt_secret) (\<lambda>b.
            case aead_open (ap_crypto A) b TOTP_AAD key of
              Inl e \<Rightarrow> Inl Corrupt_secret
            | Inr plain \<Rightarrow> ok_or (from_utf8 plain) Corrupt_secret))"

definition stored_secret :: "auth_prims \<Rightarrow> rstring \<Rightarrow> service_key option \<Rightarrow> totp_error + rstring option" where
  "stored_secret A stored service =
     (if starts_with stored ENC_PREFIX
      then (case service of
              None \<Rightarrow> Inr None
            | Some key \<Rightarrow>
                and_then (open_secret A stored (derive_service_dek (ap_crypto A) key TOTP_AAD)) (\<lambda>s. Inr (Some s)))
      else Inr (Some stored))"

definition set_secret ::
  "auth_prims \<Rightarrow> timestamp \<Rightarrow> bytes \<Rightarrow> uuid \<Rightarrow> rstring \<Rightarrow> service_key option \<Rightarrow> user_row list
   \<Rightarrow> (totp_error + unit) option \<times> user_row list" where
  "set_secret A now nonce user_id secret service t =
     (case (case service of
              Some key \<Rightarrow> seal_secret A nonce secret (derive_service_dek (ap_crypto A) key TOTP_AAD)
            | None \<Rightarrow> Some secret) of
        None \<Rightarrow> (None, t)
      | Some stored \<Rightarrow>
          (Some (if rows_affected (\<lambda>r. u_id r = user_id) t = 0 then Inl Totp_not_found else Inr ()),
           update_where (\<lambda>r. u_id r = user_id) (\<lambda>r. r\<lparr>u_totp_secret := Some stored, u_updated_at := now\<rparr>) t))"

definition clear_secret :: "timestamp \<Rightarrow> uuid \<Rightarrow> user_row list \<Rightarrow> (totp_error + unit) \<times> user_row list" where
  "clear_secret now user_id t =
     (if rows_affected (\<lambda>r. u_id r = user_id) t = 0 then Inl Totp_not_found else Inr (),
      update_where (\<lambda>r. u_id r = user_id) (\<lambda>r. r\<lparr>u_totp_secret := None, u_updated_at := now\<rparr>) t)"

definition totp_verify ::
  "auth_prims \<Rightarrow> timestamp \<Rightarrow> uuid \<Rightarrow> rstring \<Rightarrow> service_key option \<Rightarrow> user_row list \<Rightarrow> totp_error + bool" where
  "totp_verify A now user_id code service t =
     (case (case fetch_optional (\<lambda>r. u_id r = user_id) t of None \<Rightarrow> None | Some r \<Rightarrow> u_totp_secret r) of
        None \<Rightarrow> Inr True
      | Some stored \<Rightarrow>
          and_then (stored_secret A stored service) (\<lambda>s.
            case s of
              None \<Rightarrow> Inr False
            | Some secret \<Rightarrow>
                if \<not> totp_builds A secret then Inl Corrupt_secret
                else Inr (totp_check A now secret code \<noteq> None)))"

section \<open>Login\<close>

datatype login_error = Throttled nat | Invalid_credentials | Login_users users_error
  | Login_session session_error | Login_totp totp_error

record login_state =
  lg_users :: "user_row list"
  lg_sessions :: "session_row list"
  lg_throttle :: throttle

record login_options =
  lo_session_ttl :: "nat option"
  lo_max_failures :: "nat option"
  lo_lockout :: "nat option"

definition default_options :: login_options where
  "default_options = \<lparr>lo_session_ttl = None, lo_max_failures = None, lo_lockout = None\<rparr>"

record login_success =
  ok_user :: authenticated_user
  ok_session :: session_record
  ok_must_change_password :: bool

text \<open>The first critical section: runtime limits.\<close>

definition apply_limits :: "login_options \<Rightarrow> throttle \<Rightarrow> throttle" where
  "apply_limits opts th =
     (case (lo_max_failures opts, lo_lockout opts) of
        (Some m, Some cap) \<Rightarrow> set_limits m cap th
      | _ \<Rightarrow> th)"

text \<open>The second factor: \<open>Inl\<close> is the error returned, with whether a failure is recorded for it.\<close>

definition second_factor ::
  "auth_prims \<Rightarrow> timestamp \<Rightarrow> service_key option \<Rightarrow> rstring option \<Rightarrow> rstring option \<Rightarrow> (login_error \<times> bool) + unit" where
  "second_factor A now service enrolled code =
     (case enrolled of
        None \<Rightarrow> Inr ()
      | Some stored \<Rightarrow>
          (case stored_secret A stored service of
             Inl e \<Rightarrow> Inl (Login_totp e, False)
           | Inr None \<Rightarrow> Inl (Invalid_credentials, False)
           | Inr (Some secret) \<Rightarrow>
               (case code of
                  None \<Rightarrow> Inl (Invalid_credentials, False)
                | Some c \<Rightarrow>
                    if \<not> totp_builds A secret then Inl (Login_totp Corrupt_secret, False)
                    else (case totp_check A now secret c of
                            Some t \<Rightarrow> if t > 0 then Inr () else Inl (Invalid_credentials, True)
                          | None \<Rightarrow> Inl (Invalid_credentials, True)))))"

definition login_with_options ::
  "auth_prims \<Rightarrow> timestamp \<Rightarrow> uuid \<Rightarrow> rstring \<Rightarrow> service_key option \<Rightarrow> rstring \<Rightarrow> rstring \<Rightarrow> rstring option
   \<Rightarrow> login_options \<Rightarrow> login_state \<Rightarrow> (login_error + login_success) \<times> login_state" where
  "login_with_options A now new_id csrf_id service username password code opts st =
     (let th = apply_limits opts (lg_throttle st); st1 = st\<lparr>lg_throttle := th\<rparr> in
      case throttle_check now username th of
        Deny retry_after \<Rightarrow> (Inl (Throttled (max (retry_after div SECOND) 1)), st1)
      | Allow \<Rightarrow>
          (case authenticate_local A username password (lg_users st) of
             Inl e \<Rightarrow>
               if e = User_invalid_credentials \<or> e = User_not_found
               then (Inl Invalid_credentials, st1\<lparr>lg_throttle := snd (record_failure now username th)\<rparr>)
               else (Inl (Login_users e), st1)
           | Inr auth \<Rightarrow>
               (case second_factor A now service (ur_totp_secret (au_record auth)) code of
                  Inl (e, failed) \<Rightarrow>
                    (Inl e, if failed then st1\<lparr>lg_throttle := snd (record_failure now username th)\<rparr> else st1)
                | Inr _ \<Rightarrow>
                    (let ttl = (case lo_session_ttl opts of Some ttl \<Rightarrow> ttl | None \<Rightarrow> SESSION_TTL);
                         st2 = st1\<lparr>lg_throttle := record_success username th\<rparr> in
                     case create_with_ttl (ap_sha A) now new_id csrf_id (ur_id (au_record auth)) ttl (lg_sessions st) of
                       (Inl e, ss) \<Rightarrow> (Inl (Login_session e), st2\<lparr>lg_sessions := ss\<rparr>)
                     | (Inr session, ss) \<Rightarrow>
                         (Inr \<lparr>ok_user = auth, ok_session = session,
                               ok_must_change_password = ur_must_change_password (au_record auth)\<rparr>,
                          st2\<lparr>lg_sessions := ss\<rparr>)))))"

definition login ::
  "auth_prims \<Rightarrow> timestamp \<Rightarrow> uuid \<Rightarrow> rstring \<Rightarrow> service_key option \<Rightarrow> rstring \<Rightarrow> rstring \<Rightarrow> rstring option
   \<Rightarrow> login_state \<Rightarrow> (login_error + login_success) \<times> login_state" where
  "login A now new_id csrf_id service username password code st =
     login_with_options A now new_id csrf_id service username password code default_options st"

definition login_change_password_min ::
  "auth_prims \<Rightarrow> timestamp \<Rightarrow> bytes \<Rightarrow> bytes \<Rightarrow> bytes \<Rightarrow> uuid \<Rightarrow> rstring \<Rightarrow> rstring \<Rightarrow> nat \<Rightarrow> login_state
   \<Rightarrow> (login_error + unit) \<times> login_state" where
  "login_change_password_min A now salt nonce pw_salt user_id old_password new_password min_len st =
     (case change_password_min A now salt nonce pw_salt user_id old_password new_password min_len (lg_users st) of
        (Inl e, t) \<Rightarrow> (Inl (Login_users e), st\<lparr>lg_users := t\<rparr>)
      | (Inr _, t) \<Rightarrow> (Inr (), st\<lparr>lg_users := t, lg_sessions := delete_all_for_user user_id (lg_sessions st)\<rparr>))"

definition logout :: "auth_prims \<Rightarrow> uuid \<Rightarrow> login_state \<Rightarrow> login_state" where
  "logout A session_id st = st\<lparr>lg_sessions := delete_session (ap_sha A) session_id (lg_sessions st)\<rparr>"

section \<open>Login is sound\<close>

lemma pw_err_Inr [simp]: "pw_err r = Inr x \<longleftrightarrow> r = Inr x"
  by (auto simp: pw_err_def split: sum.splits)

lemma cr_err_Inr [simp]: "cr_err r = Inr x \<longleftrightarrow> r = Inr x"
  by (auto simp: cr_err_def split: sum.splits)

lemma ok_or_eq_Inr: "ok_or v e = Inr x \<longleftrightarrow> v = Some x"
  by (auto simp: ok_or_def split: option.splits)

lemma decode_user_Inr:
  assumes "decode_user r = Inr rec"
  shows "ur_id rec = u_id r \<and> ur_username rec = u_username r \<and> ur_password_hash rec = u_password_hash r \<and>
    ur_sealed_master_key rec = u_sealed_master_key r \<and> ur_totp_secret rec = u_totp_secret r \<and>
    u_role r = role_as_str (ur_role rec) \<and> ur_must_change_password rec = u_must_change_password r"
  using assms role_codec.print_parse by (auto simp: decode_user_def and_then_eq_Inr ok_or_eq_Inr)

lemma authenticate_Inr:
  assumes "authenticate_local A username password t = Inr auth"
  obtains r stored sealed where "r \<in> set t" "nocase_eq (u_username r) username" "u_id r = ur_id (au_record auth)"
    "u_password_hash r = Some stored" "pw_verify A (as_bytes password) stored = Some True"
    "u_totp_secret r = ur_totp_secret (au_record auth)" "sealed_from_json A (u_sealed_master_key r) = Some sealed"
    "unseal_with_password (ap_crypto A) sealed password = Inr (au_master_key auth)"
    "u_role r = role_as_str (ur_role (au_record auth))"
proof -
  from assms obtain rec stored sealed master where a: "get_by_username username t = Inr rec"
    "ur_password_hash rec = Some stored" "pw_verify A (as_bytes password) stored = Some True"
    "sealed_from_json A (ur_sealed_master_key rec) = Some sealed"
    "unseal_with_password (ap_crypto A) sealed password = Inr master"
    "auth = \<lparr>au_record = rec, au_master_key = master\<rparr>"
    by (auto simp: authenticate_local_def and_then_eq_Inr verify_password_def ok_or_eq_Inr split: option.splits if_splits)
  then obtain r where r: "fetch_optional (\<lambda>r. nocase_eq (u_username r) username) t = Some r" "decode_user r = Inr rec"
    by (auto simp: get_by_username_def and_then_eq_Inr ok_or_eq_Inr)
  from fetch_optional_SomeD [OF r(1)] decode_user_Inr [OF r(2)] a show thesis
    by (intro that [of r stored sealed]) simp_all
qed

text \<open>What a successful second factor means.\<close>

definition factor_ok :: "auth_prims \<Rightarrow> timestamp \<Rightarrow> service_key option \<Rightarrow> rstring option \<Rightarrow> rstring option \<Rightarrow> bool" where
  "factor_ok A now service enrolled code \<longleftrightarrow>
     enrolled = None \<or> (\<exists>stored secret c step. enrolled = Some stored \<and> stored_secret A stored service = Inr (Some secret) \<and>
       code = Some c \<and> totp_check A now secret c = Some step \<and> 0 < step)"

lemma second_factor_Inr: "second_factor A now service enrolled code = Inr u \<Longrightarrow> factor_ok A now service enrolled code"
  by (auto simp: second_factor_def factor_ok_def split: option.splits sum.splits if_splits)

lemma login_Inr_cases:
  assumes "login_with_options A now new_id csrf_id service username password code opts st = (Inr ok, st')"
  shows "throttle_check now username (apply_limits opts (lg_throttle st)) = Allow \<and>
    authenticate_local A username password (lg_users st) = Inr (ok_user ok) \<and>
    second_factor A now service (ur_totp_secret (au_record (ok_user ok))) code = Inr () \<and>
    create_with_ttl (ap_sha A) now new_id csrf_id (ur_id (au_record (ok_user ok)))
      (case lo_session_ttl opts of Some ttl \<Rightarrow> ttl | None \<Rightarrow> SESSION_TTL) (lg_sessions st) = (Inr (ok_session ok), lg_sessions st') \<and>
    lg_users st' = lg_users st \<and>
    lg_throttle st' = record_success username (apply_limits opts (lg_throttle st))"
  using assms
  by (auto simp: login_with_options_def Let_def split: throttle_decision.splits sum.splits prod.splits if_splits)


section \<open>Failed attempts\<close>

text \<open>Repeated failures lock a name out, whatever the password.  When the throttle denies a name, the
  attempt is refused with a wait of at least one second and without looking at the account: the
  result is the same for every password, code and user table, and neither users nor sessions
  change.  A wrong password or an unknown name is answered alike and counted against the name.\<close>
theorem login_throttled:
  "(case throttle_check now username (apply_limits opts (lg_throttle st)) of
      Deny wait \<Rightarrow> login_with_options A now new_id csrf_id service username password code opts st =
        (Inl (Throttled (max (wait div SECOND) 1)), st\<lparr>lg_throttle := apply_limits opts (lg_throttle st)\<rparr>)
    | Allow \<Rightarrow>
        (authenticate_local A username password (lg_users st) \<in> {Inl User_not_found, Inl User_invalid_credentials} \<longrightarrow>
         login_with_options A now new_id csrf_id service username password code opts st =
          (Inl Invalid_credentials,
           st\<lparr>lg_throttle := snd (record_failure now username (apply_limits opts (lg_throttle st)))\<rparr>)))"
  by (auto simp: login_with_options_def Let_def split: throttle_decision.splits)

definition no_auth :: auth_prims where
  "no_auth = \<lparr>ap_crypto = toy_prims, ap_sha = (\<lambda>b. map unat b), pw_hash = (\<lambda>w s. Some (map unat w)),
     pw_verify = (\<lambda>w h. Some (map unat w = h)),
     sealed_to_json = (\<lambda>r. Some (salt_hex r @ [0] @ password_sealed_hex r @ [0] @ recovery_sealed_hex r)),
     sealed_from_json = (\<lambda>j. None), totp_builds = (\<lambda>s. True), totp_check = (\<lambda>t s c. None)\<rparr>"

definition empty_login :: login_state where
  "empty_login = \<lparr>lg_users = [], lg_sessions = [], lg_throttle = new_throttle\<rparr>"

theorem login_throttled_witness:
  "fst (login_with_options no_auth 5 1 [] None (str ''eve'') (str ''x'') None default_options empty_login) =
   Inl Invalid_credentials"
  using login_throttled [where now = 5 and username = "str ''eve''" and opts = default_options
      and st = empty_login and A = no_auth and new_id = 1 and csrf_id = "[]" and service = None
      and password = "str ''x''" and code = None]
  by (simp add: empty_login_def new_throttle_def throttle_check_def apply_limits_def default_options_def
      authenticate_local_def get_by_username_def)

text \<open>The throttle is keyed by the name as typed, the account by its name up to case.  Two spellings
  that differ only in case reach the same account, but failures recorded for one never delay the
  other: each spelling has its own allowance.\<close>
theorem throttle_ignores_case:
  assumes "nocase_eq username other" and "username \<noteq> other"
  shows "get_by_username username t = get_by_username other t \<and>
    authenticate_local A username password t = authenticate_local A other password t \<and>
    throttle_check now other (snd (record_failure at username th)) = throttle_check now other th"
proof -
  have "nocase_eq n username = nocase_eq n other" for n
    using assms(1) nocase_eq_sym nocase_eq_trans by blast
  then have "get_by_username username t = get_by_username other t" by (simp add: get_by_username_def)
  with assms(2) show ?thesis
    by (simp add: authenticate_local_def throttle_check_def record_failure_def Let_def split: option.split)
qed

theorem throttle_ignores_case_witness:
  "throttle_check 5 (str ''BOB'') (snd (record_failure 4 (str ''bob'') new_throttle)) = Allow"
  using throttle_ignores_case [of "str ''bob''" "str ''BOB''" "[]" no_auth "[]" 5 4 new_throttle]
  by (simp add: nocase_eq_def ascii_lower_def new_throttle_def throttle_check_def is_ascii_uppercase_def)

section \<open>The users table\<close>

definition users_wf :: "user_row list \<Rightarrow> bool" where
  "users_wf t \<longleftrightarrow> distinct (map u_id t) \<and> distinct (map (\<lambda>r. map ascii_lower (u_username r)) t) \<and>
     distinct (map (\<lambda>r. map ascii_lower (u_email r)) t)"

lemma users_wf_update:
  assumes "\<And>r. u_id (f r) = u_id r \<and> u_username (f r) = u_username r \<and> u_email (f r) = u_email r" "users_wf t"
  shows "users_wf (update_where p f t)"
  using assms by (simp add: users_wf_def row_simps)

lemma users_wf_insert:
  assumes "users_wf t" "\<not> (\<exists>r' \<in> set t. user_conflict r r')"
  shows "users_wf (t @ [r])"
proof -
  have "u_id r \<notin> u_id ` set t" "map ascii_lower (u_username r) \<notin> (\<lambda>r. map ascii_lower (u_username r)) ` set t"
    "map ascii_lower (u_email r) \<notin> (\<lambda>r. map ascii_lower (u_email r)) ` set t"
    using assms(2) by (auto simp: user_conflict_def nocase_eq_def)
  with assms(1) show ?thesis by (simp add: users_wf_def)
qed

datatype user_event = U_create timestamp creation rstring rstring rstring role
  | U_change timestamp bytes bytes bytes uuid rstring rstring nat
  | U_update_sealed timestamp uuid rstring sealed_master_key
  | U_set_secret timestamp bytes uuid rstring "service_key option"
  | U_clear_secret timestamp uuid | U_delete uuid

fun user_step :: "auth_prims \<Rightarrow> user_row list \<Rightarrow> user_event \<Rightarrow> user_row list" where
  "user_step A t (U_create now cn n e p r) = snd (create_local A now cn n e p r t)"
| "user_step A t (U_change now s n w u old_pw new_pw m) = snd (change_password_min A now s n w u old_pw new_pw m t)"
| "user_step A t (U_update_sealed now u pre sealed) = snd (update_sealed A now u pre sealed t)"
| "user_step A t (U_set_secret now n u secret service) = snd (set_secret A now n u secret service t)"
| "user_step A t (U_clear_secret now u) = snd (clear_secret now u t)"
| "user_step A t (U_delete u) = fst (snd (delete_user u t [] []))"

lemma users_wf_step: "users_wf t \<Longrightarrow> users_wf (user_step A t e)"
proof (cases e)
  case (U_create now cn n em p r)
  assume "users_wf t"
  then show ?thesis
    by (auto simp: U_create create_local_def Let_def rows_affected_pos rows_affected_0 intro!: users_wf_insert
        split: sum.splits)
next
  case (U_delete u)
  assume "users_wf t"
  then show ?thesis
    by (simp add: U_delete delete_user_def users_wf_def delete_where_def distinct_map_filter)
qed (auto simp: change_password_min_def store_password_def update_sealed_def set_secret_def clear_secret_def Let_def
      intro!: users_wf_update split: sum.splits option.splits)

lemma users_wf_run: "users_wf t \<Longrightarrow> users_wf (foldl (user_step A) t es)"
  by (induction es arbitrary: t) (simp_all add: users_wf_step)

text \<open>Names and addresses stay unique up to case.  From an empty table, after any sequence of
  account creations, password changes, seal updates, TOTP enrolments and deletions, no two accounts
  share an identifier, a user name or an address up to ASCII case, so a lookup by name finds at most
  one account and finds it by any spelling; a creation that would clash is refused as a duplicate
  and changes nothing.\<close>
theorem users_stay_unique:
  "users_wf (foldl (user_step A) [] es) \<and>
   (\<forall>r \<in> set (foldl (user_step A) [] es). \<forall>name. nocase_eq (u_username r) name \<longrightarrow>
      get_by_username name (foldl (user_step A) [] es) = decode_user r) \<and>
   (\<forall>e t. fst (create_local A now cn n em p ro t) = Inl e \<longrightarrow> snd (create_local A now cn n em p ro t) = t)"
proof -
  let ?t = "foldl (user_step A) [] es"
  have wf: "users_wf ?t" by (rule users_wf_run) (simp add: users_wf_def)
  moreover have "get_by_username name ?t = decode_user r" if "r \<in> set ?t" "nocase_eq (u_username r) name" for r name
  proof -
    have "fetch_optional (\<lambda>r. nocase_eq (u_username r) name) ?t = Some r"
      using wf that
      by (intro fetch_optional_by_key [where k = "\<lambda>r. map ascii_lower (u_username r)"])
        (auto simp: users_wf_def nocase_eq_def)
    then show ?thesis by (simp add: get_by_username_def)
  qed
  moreover have "snd (create_local A now cn n em p ro t) = t" if "fst (create_local A now cn n em p ro t) = Inl e" for e t
    using that by (auto simp: create_local_def Let_def split: sum.splits if_splits)
  ultimately show ?thesis by blast
qed

theorem users_stay_unique_witness:
  "users_wf (foldl (user_step no_auth) [] [U_delete 3])"
  using users_stay_unique [of no_auth "[U_delete 3]"] by blast

section \<open>Password change\<close>

lemma get_by_id_Inr:
  assumes "get_by_id user_id t = Inr rec"
  obtains r where "r \<in> set t" "u_id r = user_id" "decode_user r = Inr rec"
  using assms by (auto simp: get_by_id_def and_then_eq_Inr ok_or_eq_Inr dest!: fetch_optional_SomeD)

lemma change_password_values_Inr:
  assumes "change_password_values A salt nonce pw_salt user_id old_pw new_pw min_len t = Inr (new_hash, json)"
  obtains r sealed resealed where "r \<in> set t" "u_id r = user_id" "role_parse (u_role r) \<noteq> None"
    "min_len \<le> length new_pw" "sealed_from_json A (u_sealed_master_key r) = Some sealed"
    "change_password (ap_crypto A) salt nonce sealed old_pw new_pw = Inr resealed"
    "sealed_to_json A resealed = Some json" "pw_hash A (as_bytes new_pw) pw_salt = Some new_hash"
proof -
  from assms obtain rec sealed resealed where c: "min_len \<le> length new_pw" "get_by_id user_id t = Inr rec"
    "sealed_from_json A (ur_sealed_master_key rec) = Some sealed"
    "change_password (ap_crypto A) salt nonce sealed old_pw new_pw = Inr resealed"
    "sealed_to_json A resealed = Some json" "pw_hash A (as_bytes new_pw) pw_salt = Some new_hash"
    by (auto simp: change_password_values_def and_then_eq_Inr check_password_policy_min_def hash_password_def
        ok_or_eq_Inr split: option.splits if_splits)
  from c(2) obtain r where r: "r \<in> set t" "u_id r = user_id" "decode_user r = Inr rec" by (rule get_by_id_Inr)
  have "role_parse (u_role r) \<noteq> None" using r(3) by (auto simp: decode_user_def and_then_eq_Inr ok_or_eq_Inr)
  with c r decode_user_Inr [OF r(3)] show thesis by (intro that [of r sealed resealed]) simp_all
qed

lemma change_password_reopens:
  assumes "good_prims P" "length nonce = NONCE_LEN" "change_password P salt nonce sealed old_pw new_pw = Inr resealed"
  shows "\<exists>master. unseal_with_password P sealed old_pw = Inr master \<and> unseal_with_password P resealed new_pw = Inr master"
proof -
  from assms(3) obtain master where m: "unseal_with_password P sealed old_pw = Inr master"
    by (auto simp: change_password_def and_then_eq_Inr)
  then have "length (master_bytes master) = 32" by (auto simp: unseal_password_Inr)
  with m assms(3) aead_box.open_seal [OF assms(1,2)] have "unseal_with_password P resealed new_pw = Inr master"
    by (auto simp: change_password_def and_then_eq_Inr unseal_password_Inr [of P resealed]
        good_primsD(7) [OF assms(1)] dest: derive_kek_salt)
  with m show ?thesis by blast
qed


text \<open>An account for the witnesses: Bob, with the record sealed in the example of the seals.\<close>

definition bob_seal :: sealed_master_key where
  "bob_seal = (case seal_master_key toy_prims (replicate 16 1) (replicate 12 0) (replicate 12 0) demo_master
     (str ''old'') demo_recovery of Inr s \<Rightarrow> s
   | Inl e \<Rightarrow> \<lparr>sealed_version = 0, salt_hex = [], password_sealed_hex = [], recovery_sealed_hex = []\<rparr>)"

definition bob_resealed :: sealed_master_key where
  "bob_resealed = (case change_password toy_prims (replicate 16 2) (replicate 12 0) bob_seal (str ''old'') (str ''new'') of
     Inr s \<Rightarrow> s | Inl e \<Rightarrow> bob_seal)"

definition demo_auth :: auth_prims where
  "demo_auth = \<lparr>ap_crypto = toy_prims, ap_sha = (\<lambda>b. map unat b), pw_hash = (\<lambda>w s. Some (map unat w)),
     pw_verify = (\<lambda>w h. Some (map unat w = h)),
     sealed_to_json = (\<lambda>r. if r = bob_seal then Some [1] else if r = bob_resealed then Some [2] else None),
     sealed_from_json = (\<lambda>j. if j = [1] then Some bob_seal else if j = [2] then Some bob_resealed else None),
     totp_builds = (\<lambda>s. True), totp_check = (\<lambda>t s c. None)\<rparr>"

definition bob_row :: user_row where
  "bob_row = \<lparr>u_id = 7, u_username = str ''bob'', u_email = str ''b@x'', u_role = str ''user'',
     u_auth_provider = str ''local'', u_password_hash = Some (map unat (as_bytes (str ''old''))),
     u_sealed_master_key = [1], u_must_change_password = False, u_totp_secret = None, u_created_at = 1, u_updated_at = 1\<rparr>"

definition bob_login :: login_state where
  "bob_login = \<lparr>lg_users = [bob_row], lg_sessions = [], lg_throttle = new_throttle\<rparr>"

lemma good_demo_auth: "good_auth demo_auth"
  by (auto simp: good_auth_def demo_auth_def good_toy_prims split: if_splits)

lemma bob_unseal: "unseal_with_password toy_prims bob_seal (str ''old'') = Inr demo_master"
proof -
  obtain s where s: "seal_master_key toy_prims (replicate 16 1) (replicate 12 0) (replicate 12 0) demo_master
    (str ''old'') demo_recovery = Inr s" using demo_sealed by blast
  have "opens_to toy_prims s (str ''old'') demo_recovery demo_master"
    by (rule seal_opens [OF good_toy_prims _ _ _ s]) (simp_all add: NONCE_LEN_def demo_master_def)
  then show ?thesis using s by (simp add: opens_to_def bob_seal_def)
qed

lemma bob_authenticates:
  "\<exists>auth. authenticate_local demo_auth (str ''BOB'') (str ''old'') [bob_row] = Inr auth \<and>
     ur_id (au_record auth) = 7 \<and> ur_totp_secret (au_record auth) = None \<and> au_master_key auth = demo_master"
proof -
  have "nocase_eq (u_username bob_row) (str ''BOB'')"
    by (simp add: bob_row_def nocase_eq_def ascii_lower_def is_ascii_uppercase_def)
  moreover have "\<exists>rec. decode_user bob_row = Inr rec \<and> ur_id rec = 7 \<and> ur_totp_secret rec = None \<and>
      ur_password_hash rec = u_password_hash bob_row \<and> ur_sealed_master_key rec = [1]"
    by (simp add: decode_user_def bob_row_def role_parse_def)
  ultimately show ?thesis
    using bob_unseal
    by (auto simp: authenticate_local_def get_by_username_def verify_password_def demo_auth_def bob_row_def pw_err_def cr_err_def)
qed



section \<open>Recovery-key rotation\<close>

text \<open>Rotating the recovery key is a compare-and-swap.  The update writes exactly when the stored seal
  is still the one that was read, and then only the seal; of two rotations that read the same seal
  and store a different one, the second reports that it lost and changes nothing.\<close>
theorem rotation_compare_and_swap:
  assumes "users_wf t" and "r \<in> set t" and "u_id r = user_id" and "sealed_to_json A new = Some json"
    and "json \<noteq> pre_read"
  shows "fst (update_sealed A now user_id pre_read new t) = Inr (u_sealed_master_key r = pre_read) \<and>
    (u_sealed_master_key r \<noteq> pre_read \<longrightarrow> snd (update_sealed A now user_id pre_read new t) = t) \<and>
    (u_sealed_master_key r = pre_read \<and> sealed_to_json A other \<noteq> None \<longrightarrow>
       fst (update_sealed A now' user_id pre_read other (snd (update_sealed A now user_id pre_read new t))) = Inr False \<and>
       snd (update_sealed A now' user_id pre_read other (snd (update_sealed A now user_id pre_read new t))) =
         snd (update_sealed A now user_id pre_read new t))"
proof -
  let ?p = "\<lambda>r. u_id r = user_id \<and> u_sealed_master_key r = pre_read"
  let ?t1 = "snd (update_sealed A now user_id pre_read new t)"
  have only: "r' = r" if "r' \<in> set t" "u_id r' = user_id" for r'
    by (rule inj_onD [of u_id "set t"]) (use assms(1-3) that in \<open>simp_all add: users_wf_def distinct_map\<close>)
  have hit: "0 < rows_affected ?p t \<longleftrightarrow> u_sealed_master_key r = pre_read"
    unfolding rows_affected_pos using only assms(2,3) by blast
  have t1: "?t1 = update_where ?p (\<lambda>r. r\<lparr>u_sealed_master_key := json, u_updated_at := now\<rparr>) t"
    by (simp add: update_sealed_def assms(4) Let_def)
  have "\<not> ?p x" if "x \<in> set ?t1" for x
  proof -
    from that obtain y where "x = (if ?p y then y\<lparr>u_sealed_master_key := json, u_updated_at := now\<rparr> else y)"
      unfolding t1 set_update_where by blast
    with assms(5) show ?thesis by (cases "?p y") simp_all
  qed
  then have "rows_affected ?p ?t1 = 0" "update_where ?p f ?t1 = ?t1" for f
    using update_where_none [of ?t1 ?p f] by (auto simp: rows_affected_0)
  moreover have "update_where ?p f t = t" if "u_sealed_master_key r \<noteq> pre_read" for f
  proof (rule update_where_none)
    show "\<not> ?p r'" if "r' \<in> set t" for r'
      using only [OF that] \<open>u_sealed_master_key r \<noteq> pre_read\<close> by blast
  qed
  ultimately show ?thesis
    using hit assms(4) by (auto simp: update_sealed_def Let_def)
qed

theorem rotation_compare_and_swap_witness:
  "fst (update_sealed demo_auth 3 7 [2] bob_seal [bob_row]) = Inr False"
proof -
  have "users_wf [bob_row]" "bob_row \<in> set [bob_row]" "u_id bob_row = 7" "sealed_to_json demo_auth bob_seal = Some [1]"
    "[1] \<noteq> ([2] :: rstring)" "u_sealed_master_key bob_row \<noteq> [2]"
    by (simp_all add: users_wf_def bob_row_def demo_auth_def)
  from rotation_compare_and_swap [OF this(1-5), of 3] this(6) show ?thesis by simp
qed

text \<open>A password change is not a compare-and-swap.  The columns it stores are computed from the seal
  it read; when a rotation of the recovery key commits between that read and the \<^verbatim>\<open>UPDATE\<close>, the
  change overwrites it with a record that carries the recovery seal from before the rotation.\<close>
theorem password_change_undoes_rotation:
  assumes "good_auth A" and "users_wf t"
    and "change_password_values A salt nonce pw_salt user_id old_pw new_pw min_len t = Inr values"
    and "update_sealed A now user_id pre_read rotated t = (Inr True, t1)"
  shows "\<exists>r r2 sealed resealed. r \<in> set t \<and> u_id r = user_id \<and> sealed_from_json A (u_sealed_master_key r) = Some sealed \<and>
    r2 \<in> set (store_password now' user_id values t1) \<and> u_id r2 = user_id \<and>
    sealed_from_json A (u_sealed_master_key r2) = Some resealed \<and>
    recovery_sealed_hex resealed = recovery_sealed_hex sealed"
proof -
  obtain new_hash json where v: "values = (new_hash, json)" by (cases "values")
  from assms(3) v obtain r sealed resealed where r: "r \<in> set t" "u_id r = user_id"
    "sealed_from_json A (u_sealed_master_key r) = Some sealed"
    "change_password (ap_crypto A) salt nonce sealed old_pw new_pw = Inr resealed" "sealed_to_json A resealed = Some json"
    by (auto elim: change_password_values_Inr)
  from assms(4) obtain p f where t1: "t1 = update_where p f t" "\<And>r. u_id (f r) = u_id r"
    by (auto simp: update_sealed_def Let_def split: option.splits)
  obtain x where x: "x \<in> set t1" "u_id x = user_id"
    using update_where_mem [OF r(1), of p f] r(2) t1 by (metis (full_types))
  let ?x = "x\<lparr>u_password_hash := Some new_hash, u_sealed_master_key := json, u_must_change_password := False, u_updated_at := now'\<rparr>"
  have "?x \<in> set (store_password now' user_id values t1)"
    unfolding store_password_def set_update_where v using x by (intro image_eqI [of _ _ x]) simp_all
  moreover have "sealed_from_json A json = Some resealed" using assms(1) r(5) by (simp add: good_auth_def)
  moreover have "recovery_sealed_hex resealed = recovery_sealed_hex sealed"
    using r(4) by (auto simp: change_password_def and_then_eq_Inr)
  ultimately show ?thesis
    using r(1-3) x(2) by (intro exI [of _ r] exI [of _ ?x] exI [of _ sealed] exI [of _ resealed]) simp
qed

lemma bob_changes:
  "change_password_values demo_auth (replicate 16 2) (replicate 12 0) [] 7 (str ''old'') (str ''new'') 3 [bob_row] =
     Inr (map unat (as_bytes (str ''new'')), if bob_resealed = bob_seal then [1] else [2])"
proof -
  have "change_password toy_prims (replicate 16 2) (replicate 12 0) bob_seal (str ''old'') (str ''new'') = Inr bob_resealed"
    using bob_unseal
    by (simp add: bob_resealed_def change_password_def derive_kek_def SALT_LEN_def key_err_def aead_seal_def
        wrap_as_dek_def demo_master_def toy_prims_def)
  then show ?thesis
    by (simp add: change_password_values_def check_password_policy_min_def get_by_id_def bob_row_def decode_user_def
        role_parse_def verify_password_def hash_password_def demo_auth_def pw_err_def cr_err_def)
qed

theorem password_change_undoes_rotation_witness:
  "\<exists>r2 resealed. r2 \<in> set (store_password 9 7 (map unat (as_bytes (str ''new'')), if bob_resealed = bob_seal then [1] else [2])
       (snd (update_sealed demo_auth 5 7 [1] bob_resealed [bob_row]))) \<and>
     sealed_from_json demo_auth (u_sealed_master_key r2) = Some resealed \<and>
     recovery_sealed_hex resealed = recovery_sealed_hex bob_seal"
proof -
  have wf: "users_wf [bob_row]" by (simp add: users_wf_def)
  have upd: "update_sealed demo_auth 5 7 [1] bob_resealed [bob_row] =
      (Inr True, snd (update_sealed demo_auth 5 7 [1] bob_resealed [bob_row]))"
    by (auto simp: update_sealed_def demo_auth_def Let_def rows_affected_def bob_row_def)
  have "sealed_from_json demo_auth (u_sealed_master_key bob_row) = Some bob_seal"
    by (simp add: demo_auth_def bob_row_def)
  with password_change_undoes_rotation [OF good_demo_auth wf bob_changes upd, of 9] show ?thesis by auto
qed

end
