(* ===== verification/Concept_Text.thy ===== *)
theory Concept_Text
  imports Rust_Text
begin

text \<open>
  Concepts: markdown files with a YAML front matter (\<^verbatim>\<open>crates/mycelium-core/src/concept.rs\<close>), the walk
  that loads a bundle of them (\<^verbatim>\<open>bundle.rs\<close>) and the shelf model (\<^verbatim>\<open>shelf.rs\<close>).  The YAML reader and
  writer of \<^verbatim>\<open>serde_yaml_ng\<close> and the RFC 3339 parser of \<^verbatim>\<open>chrono\<close> are parameters; the file system walk
  is the list of the files it yields.
\<close>

section \<open>Skill manifests\<close>

datatype skill_role = Script | Reference | Example

definition skill_role_deserialize :: "rstring \<Rightarrow> skill_role" where
  "skill_role_deserialize s =
     (if s = str ''script'' then Script else if s = str ''example'' then Example else Reference)"

record skill_file =
  sf_path :: rstring
  sf_role :: skill_role
  sf_md5 :: "rstring option"

record skill_manifest =
  sm_version :: nat
  sm_files :: "skill_file list"

datatype lifecycle_status = Active | Superseded | Retired

definition lifecycle_status_parse :: "rstring \<Rightarrow> lifecycle_status option" where
  "lifecycle_status_parse s =
     (if s = str ''active'' then Some Active
      else if s = str ''superseded'' then Some Superseded
      else if s = str ''retired'' then Some Retired
      else None)"

record frontmatter =
  fm_type :: rstring
  fm_title :: "rstring option"
  fm_description :: "rstring option"
  fm_resource :: "rstring option"
  fm_tags :: "rstring list"
  fm_timestamp :: "rstring option"
  fm_book :: "rstring option"
  fm_chapter_index :: "nat option"
  fm_skill :: "skill_manifest option"
  fm_status :: "rstring option"
  fm_superseded_by :: "rstring option"
  fm_valid_to :: "rstring option"
  fm_source :: "rstring option"
  fm_confirmed_at :: "rstring option"

text \<open>\<^verbatim>\<open>Frontmatter::default()\<close>.\<close>

definition default_frontmatter :: frontmatter where
  "default_frontmatter = \<lparr>fm_type = [], fm_title = None, fm_description = None, fm_resource = None,
     fm_tags = [], fm_timestamp = None, fm_book = None, fm_chapter_index = None, fm_skill = None,
     fm_status = None, fm_superseded_by = None, fm_valid_to = None, fm_source = None, fm_confirmed_at = None\<rparr>"

record concept =
  co_frontmatter :: frontmatter
  co_body :: rstring
  co_source_path :: rstring

datatype concept_error =
    MissingFrontmatter
  | MissingTypeField
  | Yaml
  | InvalidSkillPath rstring
  | InvalidLifecycleStatus rstring
  | InvalidSupersededBy rstring
  | InvalidValidTo rstring

text \<open>\<^verbatim>\<open>SkillManifest::validated\<close>.\<close>

definition BACKSLASH :: nat where "BACKSLASH = 92"

definition skill_path_ok :: "rstring \<Rightarrow> bool" where
  "skill_path_ok p \<longleftrightarrow>
     p \<noteq> [] \<and> \<not> starts_with p [SLASH] \<and> BACKSLASH \<notin> set p \<and> 0 \<notin> set p
     \<and> list_all (\<lambda>seg. seg \<noteq> str ''..'' \<and> seg \<noteq> str ''.'' \<and> seg \<noteq> []) (split_on SLASH p)"

fun validate_files :: "skill_file list \<Rightarrow> concept_error + unit" where
  "validate_files [] = Inr ()"
| "validate_files (f # fs) =
     (if skill_path_ok (sf_path f) then validate_files fs else Inl (InvalidSkillPath (sf_path f)))"

definition manifest_validated :: "skill_manifest \<Rightarrow> concept_error + unit" where
  "manifest_validated m = validate_files (sm_files m)"

text \<open>\<^verbatim>\<open>Frontmatter::validated\<close>; \<open>rfc3339_ok\<close> stands for \<^verbatim>\<open>parse_from_rfc3339(v).is_ok()\<close>.\<close>

definition check_opt :: "rstring option \<Rightarrow> (rstring \<Rightarrow> bool) \<Rightarrow> (rstring \<Rightarrow> concept_error) \<Rightarrow> concept_error + unit" where
  "check_opt field ok err =
     (case field of Some v \<Rightarrow> if ok v then Inr () else Inl (err v) | None \<Rightarrow> Inr ())"

definition frontmatter_validated :: "(rstring \<Rightarrow> bool) \<Rightarrow> frontmatter \<Rightarrow> concept_error + unit" where
  "frontmatter_validated rfc3339_ok fm =
     and_then (check_opt (fm_status fm) (\<lambda>v. lifecycle_status_parse v \<noteq> None) InvalidLifecycleStatus) (\<lambda>_.
     and_then (check_opt (fm_superseded_by fm) (\<lambda>v. starts_with v [SLASH] \<and> ends_with v (str ''.md''))
       InvalidSupersededBy) (\<lambda>_.
     check_opt (fm_valid_to fm) rfc3339_ok InvalidValidTo))"

section \<open>Reading and writing\<close>

record yaml =
  from_yaml :: "rstring \<Rightarrow> frontmatter option"
  to_yaml :: "frontmatter \<Rightarrow> rstring option"

text \<open>\<^verbatim>\<open>contents.replace("\r\n", "\n")\<close>, the identity when there is no such pair.\<close>

fun crlf_to_lf :: "rstring \<Rightarrow> rstring" where
  "crlf_to_lf [] = []"
| "crlf_to_lf [c] = [c]"
| "crlf_to_lf (c # d # s) = (if c = CR \<and> d = NL then NL # crlf_to_lf s else c # crlf_to_lf (d # s))"

definition BOM :: nat where "BOM = 65279"

definition strip_bom :: "rstring \<Rightarrow> rstring" where
  "strip_bom s = (case strip_prefix s [BOM] of Some t \<Rightarrow> t | None \<Rightarrow> s)"

definition fence :: rstring where "fence = str ''---''"

definition is_fence :: "rstring \<Rightarrow> bool" where
  "is_fence line \<longleftrightarrow> trim_end line = fence"

definition split_frontmatter :: "rstring \<Rightarrow> concept_error + rstring \<times> rstring" where
  "split_frontmatter contents =
     and_then (ok_or (strip_prefix (strip_bom (crlf_to_lf contents)) (fence @ [NL])) MissingFrontmatter) (\<lambda>rest.
     let lines = split_inclusive NL rest in
     case dropWhile (\<lambda>l. \<not> is_fence l) lines of
       [] \<Rightarrow> Inl MissingFrontmatter
     | _ # after \<Rightarrow> Inr (concat (takeWhile (\<lambda>l. \<not> is_fence l) lines), concat after))"

definition concept_parse :: "yaml \<Rightarrow> rstring \<Rightarrow> rstring \<Rightarrow> concept_error + concept" where
  "concept_parse Y source_path contents =
     and_then (split_frontmatter contents) (\<lambda>(raw, body).
     and_then (ok_or (from_yaml Y raw) Yaml) (\<lambda>fm.
     if trim (fm_type fm) = [] then Inl MissingTypeField
     else Inr \<lparr>co_frontmatter = fm, co_body = body, co_source_path = source_path\<rparr>))"

definition to_markdown :: "yaml \<Rightarrow> concept \<Rightarrow> concept_error + rstring" where
  "to_markdown Y c =
     and_then (ok_or (to_yaml Y (co_frontmatter c)) Yaml) (\<lambda>y.
     Inr (fence @ [NL] @ trim_end (trim_start_matches (fence @ [NL]) y) @ [NL] @ fence @ [NL] @ co_body c))"

definition is_reserved_filename :: "rstring \<Rightarrow> bool" where
  "is_reserved_filename n \<longleftrightarrow> n = str ''index.md'' \<or> n = str ''log.md'' \<or> n = str ''info.md''"

section \<open>Bundles and shelves\<close>

datatype path_component = Normal rstring | CurDir | ParentDir | RootDir

fun join_components :: "rstring \<Rightarrow> path_component list \<Rightarrow> rstring" where
  "join_components out [] = out"
| "join_components out (Normal seg # cs) =
     join_components ((if out = [] then out else out @ [SLASH]) @ seg) cs"
| "join_components out (_ # cs) = join_components out cs"

definition canonical_path :: "path_component list \<Rightarrow> rstring" where
  "canonical_path rel = SLASH # join_components [] rel"

definition is_kebab_case :: "rstring \<Rightarrow> bool" where
  "is_kebab_case file_name =
     (let stem = (case strip_suffix file_name (str ''.md'') of Some t \<Rightarrow> t | None \<Rightarrow> file_name) in
      list_all (\<lambda>c. is_ascii_lowercase c \<or> is_ascii_digit c \<or> c = DASH \<or> c = 46) stem)"

record shelf_info =
  si_name :: "rstring option"
  si_topic :: "rstring option"
  si_description :: "rstring option"
  si_kind :: "rstring option"

definition info_is_book_shelf :: "shelf_info \<Rightarrow> bool" where
  "info_is_book_shelf s \<longleftrightarrow> si_kind s = Some (str ''book'')"

record concept_bundle =
  bu_concepts :: "concept list"
  bu_shelf_info :: "shelf_info option"
  bu_reserved_files_seen :: "rstring list"
  bu_naming_warnings :: "rstring list"

datatype bundle_error =
    Bundle_io
  | Bundle_concept rstring concept_error
  | Bundle_shelf_info

text \<open>
  \<^verbatim>\<open>walk_bundle\<close>.  A walk entry is a regular file: its path segments below the root (all of them are
  \<^verbatim>\<open>Component::Normal\<close>) and what reading it gives (\<open>None\<close> for an I/O error).  Entries come in the
  order of the walk; hidden ones are skipped, whether pruned by the walk or by the segment check.
\<close>

record walk_entry =
  wl_segments :: "rstring list"
  wl_contents :: "rstring option"

definition hidden :: "rstring \<Rightarrow> bool" where
  "hidden seg \<longleftrightarrow> starts_with seg (str ''.'')"

definition walk_step ::
  "yaml \<Rightarrow> (rstring \<Rightarrow> shelf_info option) \<Rightarrow> walk_entry \<Rightarrow> concept_bundle \<Rightarrow> bundle_error + concept_bundle" where
  "walk_step Y shelf_yaml w b =
     (let file_name = last (wl_segments w) in
      if list_ex hidden (wl_segments w) then Inr b
      else if file_name = str ''info.md'' then
        and_then (ok_or (wl_contents w) Bundle_io) (\<lambda>contents.
        and_then (ok_or (shelf_yaml contents) Bundle_shelf_info) (\<lambda>info.
        Inr (b\<lparr>bu_shelf_info := Some info,
               bu_reserved_files_seen := bu_reserved_files_seen b @ [file_name]\<rparr>)))
      else if is_reserved_filename file_name then
        Inr (b\<lparr>bu_reserved_files_seen := bu_reserved_files_seen b @ [file_name]\<rparr>)
      else if \<not> ends_with file_name (str ''.md'') then Inr b
      else
        (let canonical = canonical_path (map Normal (wl_segments w));
             b1 = (if is_kebab_case file_name then b
                   else b\<lparr>bu_naming_warnings := bu_naming_warnings b @ [canonical @ str '': not kebab-case'']\<rparr>) in
         and_then (ok_or (wl_contents w) Bundle_io) (\<lambda>contents.
         case concept_parse Y canonical contents of
           Inl e \<Rightarrow> Inl (Bundle_concept canonical e)
         | Inr c \<Rightarrow> Inr (b1\<lparr>bu_concepts := bu_concepts b1 @ [c]\<rparr>))))"

fun walk_entries ::
  "yaml \<Rightarrow> (rstring \<Rightarrow> shelf_info option) \<Rightarrow> walk_entry list \<Rightarrow> concept_bundle \<Rightarrow> bundle_error + concept_bundle" where
  "walk_entries Y sy [] b = Inr b"
| "walk_entries Y sy (w # ws) b = and_then (walk_step Y sy w b) (walk_entries Y sy ws)"

definition walk_bundle ::
  "yaml \<Rightarrow> (rstring \<Rightarrow> shelf_info option) \<Rightarrow> walk_entry list \<Rightarrow> bundle_error + concept_bundle" where
  "walk_bundle Y sy ws =
     walk_entries Y sy ws \<lparr>bu_concepts = [], bu_shelf_info = None, bu_reserved_files_seen = [], bu_naming_warnings = []\<rparr>"

datatype shelf_kind = Global | Topic | User_shelf | Book_shelf

record shelf =
  sh_name :: rstring
  sh_kind :: shelf_kind
  sh_is_global_read :: bool

definition new_shelf :: "rstring \<Rightarrow> shelf_kind \<Rightarrow> shelf" where
  "new_shelf name kind = \<lparr>sh_name = name, sh_kind = kind, sh_is_global_read = (kind = Global)\<rparr>"

definition is_book_shelf :: "shelf \<Rightarrow> bool" where
  "is_book_shelf s \<longleftrightarrow> sh_kind s = Book_shelf"

section \<open>Round trip\<close>

text \<open>
  What the writer relies on from the YAML library: a written front matter reads back, also without
  the document marker and with one line end after it; the text has no carriage return (strings with
  one are written escaped) and no line that is a bare fence (nested text is indented).
\<close>

definition good_yaml :: "yaml \<Rightarrow> bool" where
  "good_yaml Y \<longleftrightarrow>
     (\<forall>fm y. to_yaml Y fm = Some y \<longrightarrow>
        (let t = trim_end (trim_start_matches (fence @ [NL]) y) in
         from_yaml Y (t @ [NL]) = Some fm \<and> CR \<notin> set y \<and> list_all (\<lambda>l. \<not> is_fence l) (split_inclusive NL (t @ [NL]))))"

lemma crlf_no_cr: "CR \<notin> set s \<Longrightarrow> crlf_to_lf s = s"
  by (induction s rule: crlf_to_lf.induct) auto

lemma crlf_append: "CR \<notin> set a \<Longrightarrow> crlf_to_lf (a @ b) = a @ crlf_to_lf b"
proof (induction a)
  case (Cons x a)
  then have IH: "crlf_to_lf (a @ b) = a @ crlf_to_lf b" and x: "x \<noteq> CR" by simp_all
  from x have "crlf_to_lf (x # s) = x # crlf_to_lf s" for s by (cases s) simp_all
  with IH show ?case by simp
qed simp

lemma set_trim_start_matches: "set (trim_start_matches p s) \<subseteq> set s"
proof (induction p s rule: trim_start_matches.induct)
  case (1 p s)
  show ?case
  proof (cases "p \<noteq> [] \<and> starts_with s p")
    case True
    then have "trim_start_matches p s = trim_start_matches p (drop (length p) s)"
      by (simp add: trim_start_matches.simps [of p s])
    with 1 True set_drop_subset [of "length p" s] show ?thesis by auto
  next
    case False
    then have "trim_start_matches p s = s" by (auto simp: trim_start_matches.simps [of p s])
    then show ?thesis by simp
  qed
qed

lemma set_trim_end: "set (trim_end s) \<subseteq> set s"
  unfolding trim_end_def by (metis set_dropWhileD set_rev subsetI)

lemma is_fence_line [simp]: "is_fence (fence @ [NL])"
  by (simp add: is_fence_def fence_def trim_end_def is_whitespace_def)

lemma split_fenced:
  assumes "list_all (\<lambda>l. \<not> is_fence l) (split_inclusive NL (t @ [NL]))"
  shows "dropWhile (\<lambda>l. \<not> is_fence l) (split_inclusive NL (t @ [NL] @ fence @ [NL] @ b)) = (fence @ [NL]) # split_inclusive NL b"
    and "takeWhile (\<lambda>l. \<not> is_fence l) (split_inclusive NL (t @ [NL] @ fence @ [NL] @ b)) = split_inclusive NL (t @ [NL])"
proof -
  have "split_inclusive NL (t @ [NL] @ fence @ [NL] @ b) = split_inclusive NL (t @ [NL]) @ split_inclusive NL (fence @ NL # b)"
    using split_inclusive_append_nl [of NL t "fence @ [NL] @ b"] by simp
  also have "split_inclusive NL (fence @ NL # b) = (fence @ [NL]) # split_inclusive NL b"
    by (rule split_inclusive_line) (simp add: fence_def)
  finally have s: "split_inclusive NL (t @ [NL] @ fence @ [NL] @ b) =
      split_inclusive NL (t @ [NL]) @ (fence @ [NL]) # split_inclusive NL b" .
  show "dropWhile (\<lambda>l. \<not> is_fence l) (split_inclusive NL (t @ [NL] @ fence @ [NL] @ b)) = (fence @ [NL]) # split_inclusive NL b"
    "takeWhile (\<lambda>l. \<not> is_fence l) (split_inclusive NL (t @ [NL] @ fence @ [NL] @ b)) = split_inclusive NL (t @ [NL])"
    unfolding s using assms by (simp_all add: list_all_iff dropWhile_append takeWhile_append)
qed

lemma parse_markdown:
  assumes "good_yaml Y" and "to_markdown Y c = Inr md" and "trim (fm_type (co_frontmatter c)) \<noteq> []"
  shows "concept_parse Y (co_source_path c) md = Inr (c\<lparr>co_body := crlf_to_lf (co_body c)\<rparr>)"
proof -
  from assms(2) obtain y where y: "to_yaml Y (co_frontmatter c) = Some y"
    and md: "md = fence @ [NL] @ trim_end (trim_start_matches (fence @ [NL]) y) @ [NL] @ fence @ [NL] @ co_body c"
    by (auto simp: to_markdown_def and_then_eq_Inr ok_or_def split: option.splits)
  let ?t = "trim_end (trim_start_matches (fence @ [NL]) y)"
  from assms(1) y have g: "from_yaml Y (?t @ [NL]) = Some (co_frontmatter c)" "CR \<notin> set y"
    "list_all (\<lambda>l. \<not> is_fence l) (split_inclusive NL (?t @ [NL]))"
    by (auto simp: good_yaml_def Let_def)
  have "CR \<notin> set ?t" using g(2) set_trim_end [of "trim_start_matches (fence @ [NL]) y"]
      set_trim_start_matches [of "fence @ [NL]" y] by blast
  then have "CR \<notin> set (fence @ [NL] @ ?t @ [NL] @ fence @ [NL])" by (simp add: fence_def)
  from crlf_append [OF this, of "co_body c"]
  have "crlf_to_lf md = fence @ [NL] @ ?t @ [NL] @ fence @ [NL] @ crlf_to_lf (co_body c)"
    by (simp add: md)
  moreover have "strip_bom (fence @ s) = fence @ s" for s
    by (simp add: strip_bom_def strip_prefix_def starts_with_def fence_def BOM_def)
  ultimately have "split_frontmatter md = Inr (?t @ [NL], crlf_to_lf (co_body c))"
    using split_fenced [OF g(3), of "crlf_to_lf (co_body c)"]
      strip_prefix_append [of "fence @ [NL]" "?t @ [NL] @ fence @ [NL] @ crlf_to_lf (co_body c)"]
    by (simp add: split_frontmatter_def)
  then show ?thesis using g(1) assms(3) by (simp add: concept_parse_def)
qed


text \<open>A writer that prints the type only, and its reader.\<close>

definition type_yaml :: yaml where
  "type_yaml = \<lparr>from_yaml = (\<lambda>t. if t = str ''type: Note'' @ [NL] then Some (default_frontmatter\<lparr>fm_type := str ''Note''\<rparr>) else None),
     to_yaml = (\<lambda>fm. if fm = default_frontmatter\<lparr>fm_type := str ''Note''\<rparr> then Some (fence @ [NL] @ str ''type: Note'' @ [NL]) else None)\<rparr>"

lemma good_type_yaml: "good_yaml type_yaml"
  unfolding good_yaml_def type_yaml_def by (auto split: if_splits) code_simp+


section \<open>Validation\<close>

text \<open>Resolving path segments against a directory, as a file system does.\<close>

fun resolve :: "rstring list \<Rightarrow> rstring list \<Rightarrow> rstring list" where
  "resolve dir [] = dir"
| "resolve dir (seg # segs) =
     (if seg = [] \<or> seg = str ''.'' then resolve dir segs
      else if seg = str ''..'' then resolve (butlast dir) segs
      else resolve (dir @ [seg]) segs)"

lemma resolve_plain:
  "list_all (\<lambda>seg. seg \<noteq> str ''..'' \<and> seg \<noteq> str ''.'' \<and> seg \<noteq> []) segs \<Longrightarrow> resolve dir segs = dir @ segs"
  by (induction segs arbitrary: dir) auto

lemma validate_files_Inr: "validate_files fs = Inr () \<longleftrightarrow> list_all (\<lambda>f. skill_path_ok (sf_path f)) fs"
  by (induction fs) auto

text \<open>
  Skill files stay in their skill.  A manifest validates exactly when every path of it is relative,
  free of backslashes and NUL, and has no empty, \<^verbatim>\<open>.\<close> or \<^verbatim>\<open>..\<close> segment; resolving such a path below any
  directory walks down from that directory, one segment after the other, and never leaves it.\<close>
theorem manifest_paths_confined:
  "manifest_validated m = Inr () \<longleftrightarrow>
     (\<forall>f \<in> set (sm_files m). skill_path_ok (sf_path f)
        \<and> BACKSLASH \<notin> set (sf_path f) \<and> 0 \<notin> set (sf_path f)
        \<and> (\<forall>dir. resolve dir (split_on SLASH (sf_path f)) = dir @ split_on SLASH (sf_path f)))"
  by (auto simp: manifest_validated_def validate_files_Inr list_all_iff skill_path_ok_def intro!: resolve_plain)

lemma check_opt_Inr [simp]:
  "check_opt field ok err = Inr () \<longleftrightarrow> (\<forall>v. field = Some v \<longrightarrow> ok v)"
  by (auto simp: check_opt_def split: option.splits)

lemma frontmatter_validated_Inr:
  "frontmatter_validated ok fm = Inr () \<longleftrightarrow>
     (\<forall>v. fm_status fm = Some v \<longrightarrow> v \<in> {str ''active'', str ''superseded'', str ''retired''})
     \<and> (\<forall>v. fm_superseded_by fm = Some v \<longrightarrow> starts_with v [SLASH] \<and> ends_with v (str ''.md''))
     \<and> (\<forall>v. fm_valid_to fm = Some v \<longrightarrow> ok v)"
  by (auto simp: frontmatter_validated_def and_then_eq_Inr lifecycle_status_parse_def split: if_splits)

section \<open>Bundle walks\<close>

lemma walk_step_concepts:
  assumes "walk_step Y sy w b = Inr b'"
  shows "bu_concepts b' = bu_concepts b \<or>
    (\<exists>contents c. wl_contents w = Some contents \<and> \<not> list_ex hidden (wl_segments w)
       \<and> \<not> is_reserved_filename (last (wl_segments w)) \<and> ends_with (last (wl_segments w)) (str ''.md'')
       \<and> concept_parse Y (canonical_path (map Normal (wl_segments w))) contents = Inr c
       \<and> bu_concepts b' = bu_concepts b @ [c])"
proof (cases "wl_contents w")
  case None
  with assms show ?thesis
    by (auto simp: walk_step_def Let_def simp del: str_Cons split: if_splits)
next
  case (Some contents)
  with assms show ?thesis
    by (cases "concept_parse Y (canonical_path (map Normal (wl_segments w))) contents")
      (auto simp: walk_step_def Let_def and_then_eq_Inr is_reserved_filename_def simp del: str_Cons split: if_splits)
qed

text \<open>Every concept of a walked bundle is a parsed file that is neither hidden nor reserved.\<close>

lemma walk_entries_concepts:
  "walk_entries Y sy ws b = Inr b' \<Longrightarrow> c \<in> set (bu_concepts b') \<Longrightarrow>
   c \<in> set (bu_concepts b) \<or>
   (\<exists>w \<in> set ws. \<exists>contents. wl_contents w = Some contents \<and> \<not> list_ex hidden (wl_segments w)
      \<and> \<not> is_reserved_filename (last (wl_segments w))
      \<and> concept_parse Y (canonical_path (map Normal (wl_segments w))) contents = Inr c)"
proof (induction ws arbitrary: b)
  case (Cons w ws)
  then obtain b1 where b1: "walk_step Y sy w b = Inr b1" "walk_entries Y sy ws b1 = Inr b'"
    by (auto simp: and_then_eq_Inr)
  from Cons.IH [OF b1(2) Cons.prems(2)] walk_step_concepts [OF b1(1)] show ?case by auto
qed simp

end
