(* ===== verification/Link_Graph.thy ===== *)
theory Link_Graph
  imports Concept_Text "HOL-Library.Product_Lexorder"
begin

text \<open>
  Links between concepts: the scanner of \<^verbatim>\<open>crates/mycelium-core/src/links.rs\<close> with its masking of code,
  and the link graph of \<^verbatim>\<open>graph.rs\<close>.  The regular expression of the scanner is written out as a
  matcher on characters: its parts are deterministic, so leftmost-first matching has one outcome.
\<close>

section \<open>Masking code\<close>

definition run_length :: "rstring \<Rightarrow> nat" where
  "run_length s = length (takeWhile (\<lambda>c. c = BACKTICK) s)"

lemma run_length_Cons [simp]:
  "run_length (c # s) = (if c = BACKTICK then Suc (run_length s) else 0)"
  by (simp add: run_length_def)

lemma run_length_Nil [simp]: "run_length [] = 0"
  by (simp add: run_length_def)

text \<open>How many characters follow up to the end of the next run of exactly \<open>n\<close> backticks.\<close>

function close_run :: "nat \<Rightarrow> rstring \<Rightarrow> nat option" where
  "close_run n [] = None"
| "close_run n (c # s) =
     (if c = BACKTICK then
        (let k = run_length (c # s) in
         if k = n then Some k else map_option (\<lambda>m. k + m) (close_run n (drop k (c # s))))
      else map_option Suc (close_run n s))"
  by pat_completeness auto
termination
  by (relation "measure (\<lambda>(n, s). length s)") auto

function mask_inline_code :: "rstring \<Rightarrow> rstring" where
  "mask_inline_code [] = []"
| "mask_inline_code (c # s) =
     (if c = BACKTICK then
        (let k = run_length (c # s); rest = drop k (c # s) in
         case close_run k rest of
           Some m \<Rightarrow> replicate (k + m) SPACE @ mask_inline_code (drop m rest)
         | None \<Rightarrow> replicate (length (c # s)) SPACE)
      else c # mask_inline_code s)"
  by pat_completeness auto
termination
  by (relation "measure length") auto

declare close_run.simps [simp del] mask_inline_code.simps [simp del]

definition is_code_fence :: "rstring \<Rightarrow> bool" where
  "is_code_fence line \<longleftrightarrow> starts_with (trim_start line) [BACKTICK, BACKTICK, BACKTICK]"

text \<open>The loop over the lines; \<^verbatim>\<open>line.len()\<close> is the length in bytes.\<close>

fun mask_lines :: "bool \<Rightarrow> rstring list \<Rightarrow> rstring" where
  "mask_lines in_fence [] = []"
| "mask_lines in_fence (line # lines) =
     (if is_code_fence line then replicate (utf8_len line) SPACE @ mask_lines (\<not> in_fence) lines
      else if in_fence then replicate (utf8_len line) SPACE @ mask_lines in_fence lines
      else mask_inline_code line @ mask_lines in_fence lines)"

definition mask_code :: "rstring \<Rightarrow> rstring" where
  "mask_code body = mask_lines False (split_inclusive NL body)"

section \<open>Scanning\<close>

text \<open>
  \<^verbatim>\<open>\[[^\]]*\]\((/[^\s()]*/?)\)\<close> at the head of the text: the captured target and the text after the
  match.  The link text ends at the first closing bracket, the target at the first character that is
  blank or a parenthesis.
\<close>

definition OPEN_BRACKET :: nat where "OPEN_BRACKET = 91"
definition CLOSE_BRACKET :: nat where "CLOSE_BRACKET = 93"
definition OPEN_PAREN :: nat where "OPEN_PAREN = 40"
definition CLOSE_PAREN :: nat where "CLOSE_PAREN = 41"

lemmas link_chars = OPEN_BRACKET_def CLOSE_BRACKET_def OPEN_PAREN_def CLOSE_PAREN_def

definition target_char :: "nat \<Rightarrow> bool" where
  "target_char c \<longleftrightarrow> \<not> is_whitespace c \<and> c \<noteq> OPEN_PAREN \<and> c \<noteq> CLOSE_PAREN"

definition match_target :: "rstring \<Rightarrow> (rstring \<times> rstring) option" where
  "match_target u =
     (case u of
        b # p # sl # v \<Rightarrow>
          if b = CLOSE_BRACKET \<and> p = OPEN_PAREN \<and> sl = SLASH then
            (case dropWhile target_char v of
               q # rest \<Rightarrow> if q = CLOSE_PAREN then Some (SLASH # takeWhile target_char v, rest) else None
             | [] \<Rightarrow> None)
          else None
      | _ \<Rightarrow> None)"

definition match_link :: "rstring \<Rightarrow> (rstring \<times> rstring) option" where
  "match_link s =
     (case s of
        c # t \<Rightarrow> if c = OPEN_BRACKET then match_target (dropWhile (\<lambda>c. c \<noteq> CLOSE_BRACKET) t) else None
      | [] \<Rightarrow> None)"

lemma match_target_Some:
  "match_target u = Some (t, rest) \<longleftrightarrow>
     (\<exists>v. u = CLOSE_BRACKET # OPEN_PAREN # SLASH # v \<and> dropWhile target_char v = CLOSE_PAREN # rest
        \<and> t = SLASH # takeWhile target_char v)"
proof (cases "\<exists>v. u = CLOSE_BRACKET # OPEN_PAREN # SLASH # v")
  case True
  then obtain v where v: "u = CLOSE_BRACKET # OPEN_PAREN # SLASH # v" by blast
  define d where "d = dropWhile target_char v"
  show ?thesis by (cases d) (auto simp: v match_target_def d_def [symmetric])
qed (auto simp: match_target_def split: list.split)

lemma match_target_length: "match_target u = Some (t, rest) \<Longrightarrow> length rest < length u"
proof -
  assume "match_target u = Some (t, rest)"
  then obtain v where "u = CLOSE_BRACKET # OPEN_PAREN # SLASH # v" "dropWhile target_char v = CLOSE_PAREN # rest"
    by (auto simp: match_target_Some)
  then show ?thesis using length_dropWhile_le [of target_char v] by simp
qed

lemma match_link_length: "match_link s = Some (t, rest) \<Longrightarrow> length rest < length s"
proof (cases s)
  case (Cons c u)
  assume "match_link s = Some (t, rest)"
  with Cons have "match_target (dropWhile (\<lambda>c. c \<noteq> CLOSE_BRACKET) u) = Some (t, rest)"
    by (auto simp: match_link_def split: if_splits)
  from match_target_length [OF this] length_dropWhile_le [of "\<lambda>c. c \<noteq> CLOSE_BRACKET" u] Cons
  show ?thesis by simp
qed (simp add: match_link_def)

text \<open>\<^verbatim>\<open>captures_iter\<close>: the non-overlapping matches from left to right.\<close>

function link_targets :: "rstring \<Rightarrow> rstring list" where
  "link_targets [] = []"
| "link_targets (c # s) =
     (case match_link (c # s) of
        Some (t, rest) \<Rightarrow> t # link_targets rest
      | None \<Rightarrow> link_targets s)"
  by pat_completeness auto
termination
  by (relation "measure length") (auto dest: match_link_length)

declare link_targets.simps(2) [simp del]

definition scan_links :: "rstring \<Rightarrow> rstring list" where
  "scan_links body =
     filter (\<lambda>t. starts_with t [SLASH] \<and> ends_with t (str ''.md'')) (link_targets (mask_code body))"

section \<open>The graph\<close>

record node =
  nd_id :: rstring
  nd_title :: rstring
  nd_concept_type :: rstring

record graph_health =
  gh_concept_count :: nat
  gh_edge_count :: nat
  gh_broken_link_count :: nat
  gh_orphan_count :: nat

text \<open>Nodes are a table keyed by path; edges and broken links are pairs of paths.\<close>

record graph =
  gr_nodes :: "(rstring \<times> node) list"
  gr_edges :: "(rstring \<times> rstring) list"
  gr_broken_links :: "(rstring \<times> rstring) list"
  gr_orphans :: "rstring list"

definition health_of :: "graph \<Rightarrow> graph_health" where
  "health_of g = \<lparr>gh_concept_count = length (gr_nodes g), gh_edge_count = length (gr_edges g),
     gh_broken_link_count = length (gr_broken_links g), gh_orphan_count = length (gr_orphans g)\<rparr>"

definition node_insert :: "rstring \<Rightarrow> node \<Rightarrow> (rstring \<times> node) list \<Rightarrow> (rstring \<times> node) list" where
  "node_insert k n t = (k, n) # filter (\<lambda>p. fst p \<noteq> k) t"

definition concept_node :: "concept \<Rightarrow> node" where
  "concept_node c = \<lparr>nd_id = co_source_path c,
     nd_title = (case fm_title (co_frontmatter c) of Some t \<Rightarrow> t | None \<Rightarrow> co_source_path c),
     nd_concept_type = fm_type (co_frontmatter c)\<rparr>"

definition concept_links :: "concept list \<Rightarrow> (rstring \<times> rstring) list" where
  "concept_links cs = concat (map (\<lambda>c. map (\<lambda>t. (co_source_path c, t)) (scan_links (co_body c))) cs)"

definition build_graph :: "concept list \<Rightarrow> graph" where
  "build_graph cs =
     (let nodes = fold (\<lambda>c. node_insert (co_source_path c) (concept_node c)) cs [];
          known = map co_source_path cs;
          links = concept_links cs;
          linked = map fst links @ map snd links in
      \<lparr>gr_nodes = nodes,
       gr_edges = sort (remdups (filter (\<lambda>l. snd l \<in> set known) links)),
       gr_broken_links = sort (remdups (filter (\<lambda>l. snd l \<notin> set known) links)),
       gr_orphans = sort (filter (\<lambda>p. p \<notin> set linked) (map fst nodes))\<rparr>)"

section \<open>Masking keeps the text in place\<close>

lemma run_length_le: "run_length s \<le> length s"
  by (simp add: run_length_def length_takeWhile_le)

lemma close_run_le: "close_run n s = Some m \<Longrightarrow> m \<le> length s"
proof (induction n s arbitrary: m rule: close_run.induct)
  case (2 n c s)
  show ?case
  proof (cases "c = BACKTICK")
    case True
    note rl = run_length_le [of s]
    show ?thesis
    proof (cases "run_length (c # s) = n")
      case True
      with 2 \<open>c = BACKTICK\<close> rl show ?thesis by (auto simp: close_run.simps Let_def)
    next
      case False
      with "2.prems" True obtain m' where "close_run n (drop (run_length s) s) = Some m'" "m = Suc (run_length s + m')"
        by (auto simp: close_run.simps Let_def)
      with "2.IH"(1) [OF True refl False, of m'] True rl show ?thesis by simp
    qed
  next
    case False
    with 2 show ?thesis by (fastforce simp: close_run.simps)
  qed
qed (simp add: close_run.simps)

lemma mask_inline_keeps:
  "length (mask_inline_code s) = length s
   \<and> (\<forall>i < length s. mask_inline_code s ! i = s ! i \<or> mask_inline_code s ! i = SPACE)"
proof (induction s rule: mask_inline_code.induct)
  case (2 c s)
  let ?k = "run_length (c # s)" and ?rest = "drop (run_length (c # s)) (c # s)"
  show ?case
  proof (cases "c = BACKTICK")
    case True
    show ?thesis
    proof (cases "close_run ?k ?rest")
      case None
      with True have "mask_inline_code (c # s) = replicate (length (c # s)) SPACE"
        by (simp add: mask_inline_code.simps Let_def del: run_length_Cons)
      then show ?thesis by (simp del: replicate_Suc)
    next
      case (Some m)
      have le: "?k \<le> length (c # s)" by (rule run_length_le)
      have m: "m \<le> length ?rest" using Some by (rule close_run_le)
      have IH: "length (mask_inline_code (drop m ?rest)) = length (drop m ?rest)"
        "\<forall>i < length (drop m ?rest). mask_inline_code (drop m ?rest) ! i = drop m ?rest ! i
           \<or> mask_inline_code (drop m ?rest) ! i = SPACE"
        using "2.IH"(1) [OF True refl refl Some] by auto
      have eq: "mask_inline_code (c # s) = replicate (?k + m) SPACE @ mask_inline_code (drop m ?rest)"
        using True Some by (simp add: mask_inline_code.simps Let_def del: run_length_Cons)
      have "mask_inline_code (c # s) ! i = (c # s) ! i \<or> mask_inline_code (c # s) ! i = SPACE"
        if "i < length (c # s)" for i
      proof (cases "i < ?k + m")
        case False
        with that IH(2) [rule_format, of "i - (?k + m)"] le m show ?thesis
          unfolding eq by (auto simp: nth_append add.commute simp del: run_length_Cons)
      qed (simp add: eq nth_append del: run_length_Cons)
      moreover have "length (mask_inline_code (c # s)) = length (c # s)"
        unfolding eq using IH(1) le m by (simp del: run_length_Cons)
      ultimately show ?thesis by blast
    qed
  next
    case False
    with 2 show ?thesis by (auto simp: mask_inline_code.simps nth_Cons split: nat.splits)
  qed
qed (simp add: mask_inline_code.simps)

section \<open>Fenced blocks never link\<close>

text \<open>A match never runs over a blank after the closing bracket, so only the text before it matters.\<close>

lemma match_target_blank:
  assumes w: "is_whitespace w"
  shows "(\<forall>x. match_target (u @ w # x) = None)
   \<or> (\<exists>t r. length r < length u \<and> (\<forall>x. match_target (u @ w # x) = Some (t, r @ w # x)))"
proof (cases "\<exists>v. u = CLOSE_BRACKET # OPEN_PAREN # SLASH # v")
  case True
  then obtain v where v: "u = CLOSE_BRACKET # OPEN_PAREN # SLASH # v" by blast
  have nl: "\<not> target_char w" "w \<noteq> CLOSE_PAREN"
    using w by (auto simp: target_char_def is_whitespace_def link_chars)
  show ?thesis
  proof (cases "dropWhile target_char v")
    case Nil
    then have "dropWhile target_char (v @ w # x) = w # x" for x
      using nl by (simp add: dropWhile_append)
    then show ?thesis using nl(2) by (simp add: v match_target_def)
  next
    case (Cons q w)
    then have "dropWhile target_char (v @ y) = q # w @ y" "takeWhile target_char (v @ y) = takeWhile target_char v" for y
      using dropWhile_eq_Nil_conv [of target_char v] by (auto simp: dropWhile_append takeWhile_append)
    moreover have "length w < length v" using length_dropWhile_le [of target_char v] Cons by simp
    ultimately show ?thesis by (cases "q = CLOSE_PAREN") (auto simp: v match_target_def)
  qed
next
  case False
  then have "match_target (u @ w # x) = None" for x
    using w by (cases u; cases "tl u"; cases "tl (tl u)")
      (auto simp: match_target_def link_chars is_whitespace_def split: list.splits)
  then show ?thesis by blast
qed

lemma match_link_blank:
  assumes "CLOSE_BRACKET \<in> set pre" and w: "is_whitespace w"
  shows "(\<forall>x. match_link (OPEN_BRACKET # pre @ w # x) = None)
   \<or> (\<exists>t r. length r < length pre \<and> (\<forall>x. match_link (OPEN_BRACKET # pre @ w # x) = Some (t, r @ w # x)))"
proof -
  define u where "u = dropWhile (\<lambda>c. c \<noteq> CLOSE_BRACKET) pre"
  have "dropWhile (\<lambda>c. c \<noteq> CLOSE_BRACKET) (pre @ y) = u @ y" for y
    using assms by (auto simp: u_def dropWhile_append)
  moreover have "length u \<le> length pre" by (simp add: u_def length_dropWhile_le)
  ultimately show ?thesis
    using match_target_blank [OF w, of u] by (auto simp: match_link_def intro: less_le_trans)
qed

lemma match_link_open:
  assumes "CLOSE_BRACKET \<notin> set pre"
  shows "match_link (OPEN_BRACKET # pre @ x) = match_link (OPEN_BRACKET # x)"
proof -
  have "dropWhile (\<lambda>c. c \<noteq> CLOSE_BRACKET) (pre @ x) = dropWhile (\<lambda>c. c \<noteq> CLOSE_BRACKET) x"
    using assms by (auto simp: dropWhile_append)
  then show ?thesis by (simp add: match_link_def)
qed

lemma link_targets_plain:
  "c \<noteq> OPEN_BRACKET \<Longrightarrow> link_targets (c # s) = link_targets s"
  by (simp add: link_targets.simps(2) match_link_def)

lemma link_targets_spaces [simp]: "link_targets (replicate n SPACE @ s) = link_targets s"
  by (induction n) (simp_all add: link_targets_plain link_chars)

lemma link_targets_gap:
  assumes w: "is_whitespace w"
  shows "link_targets (pre @ w # replicate n SPACE @ post) = link_targets (pre @ w # post)"
proof (induction pre rule: length_induct)
  case (1 pre)
  have plain: "w \<noteq> OPEN_BRACKET" "w \<noteq> CLOSE_BRACKET"
    using w by (auto simp: is_whitespace_def link_chars)
  show ?case
  proof (cases pre)
    case Nil
    then show ?thesis using plain by (simp add: link_targets_plain)
  next
    case (Cons c p)
    show ?thesis
    proof (cases "c = OPEN_BRACKET")
      case False
      with Cons 1 show ?thesis by (simp add: link_targets_plain)
    next
      case True
      have IH: "link_targets (r @ w # replicate n SPACE @ post) = link_targets (r @ w # post)"
        if "length r \<le> length p" for r
        using 1 that Cons by simp
      show ?thesis
      proof (cases "CLOSE_BRACKET \<in> set p")
        case yes: True
        from match_link_blank [OF this w] show ?thesis
          by (auto simp: Cons True link_targets.simps(2) IH)
      next
        case no: False
        have gap: "CLOSE_BRACKET \<notin> set (p @ w # replicate n SPACE)" "CLOSE_BRACKET \<notin> set (p @ [w])"
          using no plain by (auto simp: link_chars)
        have "match_link (c # p @ w # replicate n SPACE @ post) = match_link (c # p @ w # post)"
          using match_link_open [OF gap(1), of post] match_link_open [OF gap(2), of post] True by simp
        then show ?thesis using IH [of p]
          by (simp add: Cons link_targets.simps(2) split: option.split)
      qed
    qed
  qed
qed

lemma mask_lines_append:
  "mask_lines b (xs @ ys) = mask_lines b xs @ mask_lines (b \<noteq> odd (length (filter is_code_fence xs))) ys"
  by (induction xs arbitrary: b) auto

lemma mask_lines_fenced:
  "list_all (\<lambda>l. \<not> is_code_fence l) ls \<Longrightarrow> mask_lines True ls = replicate (sum_list (map utf8_len ls)) SPACE"
  by (induction ls) (auto simp: replicate_add)

lemma mask_inline_last:
  assumes "is_whitespace (last l)" "l \<noteq> []"
  shows "mask_inline_code l \<noteq> [] \<and> is_whitespace (last (mask_inline_code l))"
proof -
  have "mask_inline_code l \<noteq> []" using mask_inline_keeps [of l] assms(2) by (metis length_0_conv)
  moreover have "last (mask_inline_code l) = last l \<or> last (mask_inline_code l) = SPACE"
    using mask_inline_keeps [of l] assms(2) calculation by (simp add: last_conv_nth)
  moreover have "is_whitespace SPACE" by (simp add: is_whitespace_def)
  ultimately show ?thesis using assms(1) by metis
qed

lemma utf8_len_pos: "l \<noteq> [] \<Longrightarrow> 0 < utf8_len l"
  using length_le_utf8_len [of l] by (cases l) auto

text \<open>The masked text of complete lines is empty or ends in a blank.\<close>

lemma mask_lines_ends_blank:
  assumes "\<forall>l \<in> set ls. l \<noteq> [] \<and> is_whitespace (last l)"
  shows "mask_lines b ls = [] \<or> is_whitespace (last (mask_lines b ls))"
  using assms
proof (induction ls rule: rev_induct)
  case (snoc l ls)
  have "mask_lines b' [l] \<noteq> [] \<and> is_whitespace (last (mask_lines b' [l]))" for b'
    using snoc.prems mask_inline_last [of l] utf8_len_pos [of l] by (auto simp: is_whitespace_def)
  then show ?case by (simp add: mask_lines_append del: mask_lines.simps)
qed simp

lemma split_inclusive_complete:
  "s = [] \<or> last s = c \<Longrightarrow> split_inclusive c (s @ t) = split_inclusive c s @ split_inclusive c t"
  using split_inclusive_append_nl [of c "butlast s" t] by (metis append.assoc append_Cons append_Nil
      append_butlast_last_id split_inclusive.simps(1))

lemma split_inclusive_lines_end:
  "s = [] \<or> last s = c \<Longrightarrow> \<forall>l \<in> set (split_inclusive c s). l \<noteq> [] \<and> last l = c"
proof (induction s)
  case (Cons x xs)
  then show ?case
    using concat_split_inclusive [of c xs] by (cases "xs = []") (auto split: list.splits simp del: concat_split_inclusive)
qed simp

text \<open>A complete fenced block between complete lines of a concept never links anywhere:
  whatever stands in it, the scanner finds the same links as if the block were not there.\<close>
theorem fenced_block_never_links:
  assumes "pre = [] \<or> last pre = NL" "even (length (filter is_code_fence (split_inclusive NL pre)))"
    and "NL \<notin> set opener" "is_code_fence (opener @ [NL])"
    and "inner = [] \<or> last inner = NL" "list_all (\<lambda>l. \<not> is_code_fence l) (split_inclusive NL inner)"
    and "NL \<notin> set closer" "is_code_fence (closer @ [NL])"
  shows "scan_links (pre @ opener @ [NL] @ inner @ closer @ [NL] @ post) = scan_links (pre @ post)"
proof -
  let ?pre = "mask_lines False (split_inclusive NL pre)" and ?post = "mask_lines False (split_inclusive NL post)"
  let ?block = "(opener @ [NL]) # split_inclusive NL inner @ [closer @ [NL]]"
  have lines: "split_inclusive NL (opener @ [NL] @ inner @ closer @ [NL] @ post) = ?block @ split_inclusive NL post"
    using assms(3,7) split_inclusive_complete [OF assms(5)] by (simp add: split_inclusive_line)
  have fences: "filter is_code_fence (split_inclusive NL inner) = []"
    using assms(6) by (simp add: filter_empty_conv list_all_iff)
  have "\<exists>n. mask_lines False ?block = replicate n SPACE"
    using assms(4,6,8) by (simp add: mask_lines_append mask_lines_fenced flip: replicate_add)
  then obtain n where n: "mask_lines False ?block = replicate n SPACE" by blast
  have "mask_code (pre @ opener @ [NL] @ inner @ closer @ [NL] @ post) = ?pre @ replicate n SPACE @ ?post"
    unfolding mask_code_def split_inclusive_complete [OF assms(1)] lines
    using assms(2,4,8) fences n by (simp add: mask_lines_append)
  moreover have "mask_code (pre @ post) = ?pre @ ?post"
    unfolding mask_code_def split_inclusive_complete [OF assms(1)] using assms(2) by (simp add: mask_lines_append)
  moreover have "link_targets (?pre @ replicate n SPACE @ ?post) = link_targets (?pre @ ?post)"
  proof (cases "?pre = []")
    case False
    have "is_whitespace NL" by (simp add: is_whitespace_def)
    then have "is_whitespace (last ?pre)"
      using split_inclusive_lines_end [OF assms(1)] mask_lines_ends_blank [of "split_inclusive NL pre" False] False
      by fastforce
    from link_targets_gap [OF this, of "butlast ?pre" n ?post] show ?thesis
      by (metis False append.assoc append_Cons append_Nil append_butlast_last_id)
  qed simp
  ultimately show ?thesis by (simp add: scan_links_def)
qed

theorem fenced_block_never_links_witness:
  "scan_links ((str ''see [a](/a.md)'' @ [NL]) @ str ''```md'' @ [NL] @ (str ''[b](/b.md)'' @ [NL]) @ str ''```'' @ [NL]
     @ str ''[c](/c.md)'') = scan_links ((str ''see [a](/a.md)'' @ [NL]) @ str ''[c](/c.md)'')"
  by (rule fenced_block_never_links)
    (simp_all add: is_code_fence_def trim_start_def is_whitespace_def starts_with_def)

section \<open>The graph is the relation the links span\<close>

lemma set_concept_links:
  "set (concept_links cs) = {(co_source_path c, t) |c t. c \<in> set cs \<and> t \<in> set (scan_links (co_body c))}"
  by (auto simp: concept_links_def)

lemma node_fold_keys:
  "set (map fst (fold (\<lambda>c. node_insert (co_source_path c) (concept_node c)) cs t)) = co_source_path ` set cs \<union> set (map fst t)"
  by (induction cs arbitrary: t) (auto simp: node_insert_def)

lemma node_fold_distinct:
  "distinct (map fst t) \<Longrightarrow> distinct (map fst (fold (\<lambda>c. node_insert (co_source_path c) (concept_node c)) cs t))"
proof (induction cs arbitrary: t)
  case (Cons c cs)
  from Cons.prems have "distinct (map fst (node_insert (co_source_path c) (concept_node c) t))"
    by (auto simp: node_insert_def distinct_map_filter)
  from Cons.IH [OF this] show ?case by simp
qed simp

text \<open>The link graph is the relation the scanned links span.  One node per path; the edges are
  exactly the links to a path of the bundle and the broken links exactly those to no such path, each
  sorted and without duplicates; an orphan is a path that has no link at all, not even a broken one,
  and that no concept links to; the health figures count those sets.\<close>
theorem build_graph_spans_links:
  fixes cs :: "concept list"
  defines "g \<equiv> build_graph cs"
    and "paths \<equiv> co_source_path ` set cs"
    and "links \<equiv> {(co_source_path c, t) |c t. c \<in> set cs \<and> t \<in> set (scan_links (co_body c))}"
  shows "distinct (map fst (gr_nodes g)) \<and> fst ` set (gr_nodes g) = paths
    \<and> set (gr_edges g) = {l \<in> links. snd l \<in> paths} \<and> sorted (gr_edges g) \<and> distinct (gr_edges g)
    \<and> set (gr_broken_links g) = {l \<in> links. snd l \<notin> paths} \<and> sorted (gr_broken_links g) \<and> distinct (gr_broken_links g)
    \<and> set (gr_orphans g) = paths - fst ` links - snd ` links \<and> sorted (gr_orphans g) \<and> distinct (gr_orphans g)
    \<and> health_of g = \<lparr>gh_concept_count = card paths, gh_edge_count = card {l \<in> links. snd l \<in> paths},
         gh_broken_link_count = card {l \<in> links. snd l \<notin> paths},
         gh_orphan_count = card (paths - fst ` links - snd ` links)\<rparr>"
proof -
  let ?nodes = "fold (\<lambda>c. node_insert (co_source_path c) (concept_node c)) cs []"
  have links: "set (concept_links cs) = links" by (simp add: set_concept_links links_def)
  have nodes: "gr_nodes g = ?nodes" "distinct (map fst ?nodes)" "fst ` set ?nodes = paths"
    using node_fold_distinct [of "[]" cs] node_fold_keys [of cs "[]"]
    by (simp_all add: g_def paths_def build_graph_def Let_def)
  have edges: "set (gr_edges g) = {l \<in> links. snd l \<in> paths}" "sorted (gr_edges g)" "distinct (gr_edges g)"
    by (auto simp: g_def paths_def build_graph_def Let_def links)
  have broken: "set (gr_broken_links g) = {l \<in> links. snd l \<notin> paths}" "sorted (gr_broken_links g)"
    "distinct (gr_broken_links g)"
    by (auto simp: g_def paths_def build_graph_def Let_def links)
  have orphans: "set (gr_orphans g) = paths - fst ` links - snd ` links" "sorted (gr_orphans g)" "distinct (gr_orphans g)"
    using nodes(2,3) by (auto simp: g_def build_graph_def Let_def links distinct_filter)
  have "length (gr_nodes g) = card paths"
    using nodes distinct_card [of "map fst ?nodes"] by simp
  then have "health_of g = \<lparr>gh_concept_count = card paths, gh_edge_count = card {l \<in> links. snd l \<in> paths},
         gh_broken_link_count = card {l \<in> links. snd l \<notin> paths},
         gh_orphan_count = card (paths - fst ` links - snd ` links)\<rparr>"
    using edges broken orphans by (simp add: health_of_def flip: distinct_card)
  with nodes edges broken orphans show ?thesis by simp
qed

end
