(* ===== verification/Book_Library.thy ===== *)
theory Book_Library
  imports Rust_Text
begin

text \<open>
  Books: \<^verbatim>\<open>crates/mycelium-core/src/library.rs\<close>.  References, anchors, and the passage of a book an
  anchor names.  Offsets count bytes and a slice off a character boundary, or with its ends in the
  wrong order, is the value \<open>None\<close>: the panic of \<^verbatim>\<open>&text[a..b]\<close>.  Heading counters are numbers without
  a width: a book with \<open>2\<^sup>3\<^sup>2\<close> headings does not fit in memory.
\<close>

section \<open>Byte slices\<close>

fun drop_bytes :: "nat \<Rightarrow> rstring \<Rightarrow> rstring option" where
  "drop_bytes n s =
     (if n = 0 then Some s
      else case s of [] \<Rightarrow> None
           | c # cs \<Rightarrow> if utf8_len_char c \<le> n then drop_bytes (n - utf8_len_char c) cs else None)"

fun take_bytes :: "nat \<Rightarrow> rstring \<Rightarrow> rstring option" where
  "take_bytes n s =
     (if n = 0 then Some []
      else case s of [] \<Rightarrow> None
           | c # cs \<Rightarrow> if utf8_len_char c \<le> n then map_option (Cons c) (take_bytes (n - utf8_len_char c) cs) else None)"

declare drop_bytes.simps [simp del] take_bytes.simps [simp del]

definition slice_from :: "nat \<Rightarrow> rstring \<Rightarrow> rstring option" where
  "slice_from a s = drop_bytes a s"

definition slice :: "nat \<Rightarrow> nat \<Rightarrow> rstring \<Rightarrow> rstring option" where
  "slice a b s = (if a \<le> b then Option.bind (drop_bytes a s) (take_bytes (b - a)) else None)"

lemma drop_bytes_append [simp]: "drop_bytes (utf8_len p) (p @ s) = Some s"
proof (induction p)
  case (Cons c p)
  have "utf8_len_char c \<noteq> 0" using utf8_len_char_pos [of c] by linarith
  with Cons show ?case by (simp add: drop_bytes.simps [of "utf8_len_char c + utf8_len p" "c # p @ s"])
qed (simp add: drop_bytes.simps)

lemma take_bytes_append [simp]: "take_bytes (utf8_len p) (p @ s) = Some p"
proof (induction p)
  case (Cons c p)
  have "utf8_len_char c \<noteq> 0" using utf8_len_char_pos [of c] by linarith
  with Cons show ?case by (simp add: take_bytes.simps [of "utf8_len_char c + utf8_len p" "c # p @ s"])
qed (simp add: take_bytes.simps)

lemma slice_append: "slice (utf8_len p) (utf8_len p + utf8_len m) (p @ m @ s) = Some m"
  by (simp add: slice_def)

lemma slice_from_append: "slice_from (utf8_len p) (p @ s) = Some s"
  by (simp add: slice_from_def)

section \<open>References and anchors\<close>

definition READ_PASSAGE_MAX_CHARS :: nat where "READ_PASSAGE_MAX_CHARS = 128 * 1024"

record book_ref =
  br_slug :: rstring
  br_anchor :: rstring

definition parse_book_ref :: "rstring \<Rightarrow> book_ref option" where
  "parse_book_ref resource =
     (case strip_prefix resource (str ''book://'') of
        None \<Rightarrow> None
      | Some rest \<Rightarrow>
          (case split_once HASH rest of
             None \<Rightarrow> None
           | Some (slug, anchor) \<Rightarrow>
               if slug = [] \<or> anchor = [] then None else Some \<lparr>br_slug = slug, br_anchor = anchor\<rparr>))"

datatype anchor = Chapter nat rstring | Section nat nat rstring | Other rstring

definition part :: "nat \<Rightarrow> rstring list \<Rightarrow> rstring option" where
  "part i xs = (if i < length xs then Some (xs ! i) else None)"

definition part_or_empty :: "nat \<Rightarrow> rstring list \<Rightarrow> rstring" where
  "part_or_empty i xs = (case part i xs of Some s \<Rightarrow> s | None \<Rightarrow> [])"

definition chapter_anchor :: "rstring \<Rightarrow> anchor option" where
  "chapter_anchor a =
     (case strip_prefix a (str ''ch-'') of
        None \<Rightarrow> None
      | Some rest \<Rightarrow>
          (let parts = splitn 2 DASH rest in
           case Option.bind (part 0 parts) parse_u32 of
             None \<Rightarrow> None
           | Some index \<Rightarrow> Some (if index = 0 then Other a else Chapter index (part_or_empty 1 parts))))"

definition section_anchor :: "rstring \<Rightarrow> anchor option" where
  "section_anchor a =
     (case strip_prefix a (str ''sec-'') of
        None \<Rightarrow> None
      | Some rest \<Rightarrow>
          (let parts = splitn 3 DASH rest in
           case (Option.bind (part 0 parts) parse_u32, Option.bind (part 1 parts) parse_u32) of
             (Some chapter, Some section) \<Rightarrow>
               Some (if chapter = 0 \<or> section = 0 then Other a else Section chapter section (part_or_empty 2 parts))
           | _ \<Rightarrow> None))"

definition anchor_parse :: "rstring \<Rightarrow> anchor" where
  "anchor_parse a =
     (case chapter_anchor a of
        Some x \<Rightarrow> x
      | None \<Rightarrow> (case section_anchor a of Some x \<Rightarrow> x | None \<Rightarrow> Other a))"

section \<open>Headings\<close>

record passage =
  ps_slug :: rstring
  ps_anchor :: rstring
  ps_text :: rstring

datatype passage_error = Anchor_not_found rstring | Empty_book

record book_heading =
  bh_level :: nat
  bh_offset :: nat
  bh_anchor_id :: "rstring option"

text \<open>\<^verbatim>\<open>rsplit_once\<close> with a string: the last occurrence.\<close>

definition rsplit_once :: "rstring \<Rightarrow> rstring \<Rightarrow> (rstring \<times> rstring) option" where
  "rsplit_once p s =
     (case filter (\<lambda>i. starts_with (drop i s) p) (rev [0..<length s + 1]) of
        [] \<Rightarrow> None
      | i # _ \<Rightarrow> Some (take i s, drop (i + length p) s))"

definition heading_id :: "rstring \<Rightarrow> rstring option" where
  "heading_id title =
     (case strip_suffix title (str ''}'') of
        None \<Rightarrow> None
      | Some t \<Rightarrow>
          (case rsplit_once (str ''{#'') t of
             None \<Rightarrow> None
           | Some (_, i) \<Rightarrow> Some (case strip_suffix i (str ''}'') of Some j \<Rightarrow> j | None \<Rightarrow> i)))"

definition parse_heading_line :: "rstring \<Rightarrow> (nat \<times> rstring option) option" where
  "parse_heading_line line =
     (let trimmed = trim_end line; hashes = length (takeWhile (\<lambda>c. c = HASH) trimmed); rest = drop hashes trimmed in
      if hashes = 0 \<or> 6 < hashes then None
      else if \<not> starts_with rest (str '' '') then None
      else Some (hashes, heading_id (trim_start rest)))"

definition is_fence_line :: "rstring \<Rightarrow> bool" where
  "is_fence_line line \<longleftrightarrow> (let t = trim_start line in starts_with t (str ''```'') \<or> starts_with t (str ''~~~''))"

fun collect_headings_from :: "bool \<Rightarrow> nat \<Rightarrow> rstring list \<Rightarrow> book_heading list" where
  "collect_headings_from in_fence offset [] = []"
| "collect_headings_from in_fence offset (line # lines) =
     (let trimmed = trim_start line; next = offset + utf8_len line in
      if is_fence_line line then collect_headings_from (\<not> in_fence) next lines
      else
        (case (if \<not> in_fence \<and> starts_with trimmed (str ''#'') then parse_heading_line trimmed else None) of
           Some (level, i) \<Rightarrow>
             \<lparr>bh_level = level, bh_offset = offset, bh_anchor_id = i\<rparr> # collect_headings_from in_fence next lines
         | None \<Rightarrow> collect_headings_from in_fence next lines))"

definition collect_headings :: "rstring \<Rightarrow> book_heading list" where
  "collect_headings text = collect_headings_from False 0 (split_inclusive NL text)"

definition all_digits :: "rstring \<Rightarrow> bool" where
  "all_digits s \<longleftrightarrow> s \<noteq> [] \<and> list_all is_ascii_digit s"

definition chapter_number_of :: "rstring \<Rightarrow> nat option" where
  "chapter_number_of i =
     (case part 1 (split_on DASH i) of
        Some p \<Rightarrow> if all_digits p then parse_u32 p else None
      | None \<Rightarrow> None)"

definition section_numbers_of :: "rstring \<Rightarrow> (nat \<times> nat) option" where
  "section_numbers_of i =
     (case strip_prefix i (str ''sec-'') of
        None \<Rightarrow> None
      | Some rest \<Rightarrow>
          (let parts = splitn 3 DASH rest in
           case (part 0 parts, part 1 parts) of
             (Some c, Some s) \<Rightarrow>
               if \<not> all_digits c \<or> \<not> all_digits s then None
               else (case (parse_u32 c, parse_u32 s) of (Some m, Some n) \<Rightarrow> Some (m, n) | _ \<Rightarrow> None)
           | _ \<Rightarrow> None))"

section \<open>Extraction\<close>

text \<open>The headings from the first that satisfies \<open>p\<close> on.\<close>

fun from_first :: "('a \<Rightarrow> bool) \<Rightarrow> 'a list \<Rightarrow> 'a list" where
  "from_first p [] = []"
| "from_first p (x # xs) = (if p x then x # xs else from_first p xs)"

definition has_id :: "(rstring \<Rightarrow> bool) \<Rightarrow> book_heading \<Rightarrow> bool" where
  "has_id p h \<longleftrightarrow> (case bh_anchor_id h of Some i \<Rightarrow> p i | None \<Rightarrow> False)"

definition anchored_section :: "rstring \<Rightarrow> nat \<Rightarrow> nat \<Rightarrow> rstring option option" where
  "anchored_section text chapter section =
     (let headings = collect_headings text in
      if list_all (\<lambda>h. bh_anchor_id h = None) headings then Some None
      else
        (case from_first (has_id (\<lambda>i. section_numbers_of i = Some (chapter, section))) headings of
           [] \<Rightarrow> Some None
         | h # rest \<Rightarrow>
             map_option Some (slice (bh_offset h)
               (case find (\<lambda>g. bh_level g \<le> bh_level h) rest of Some g \<Rightarrow> bh_offset g | None \<Rightarrow> utf8_len text) text)))"

definition no_chapter :: "nat \<Rightarrow> passage_error" where
  "no_chapter index = Anchor_not_found (str ''ch-'' @ show_nat index)"

definition no_section :: "nat \<Rightarrow> nat \<Rightarrow> passage_error" where
  "no_section chapter section = Anchor_not_found (str ''sec-'' @ show_nat chapter @ str ''-'' @ show_nat section)"

text \<open>What a counting loop returns: the slice from its start, if it has one.\<close>

definition found :: "passage_error \<Rightarrow> nat option \<Rightarrow> (nat \<Rightarrow> rstring option) \<Rightarrow> (passage_error + rstring) option" where
  "found e start piece = (case start of Some s \<Rightarrow> map_option Inr (piece s) | None \<Rightarrow> Some (Inl e))"

fun count_chapter ::
  "rstring \<Rightarrow> nat \<Rightarrow> nat \<Rightarrow> nat option \<Rightarrow> nat \<Rightarrow> bool \<Rightarrow> rstring list \<Rightarrow> (passage_error + rstring) option" where
  "count_chapter text index seen start offset in_fence [] = found (no_chapter index) start (\<lambda>s. slice_from s text)"
| "count_chapter text index seen start offset in_fence (line # lines) =
     (let next = offset + utf8_len line in
      if is_fence_line line then count_chapter text index seen start next (\<not> in_fence) lines
      else if \<not> in_fence \<and> starts_with (trim_start line) (str ''# '') then
        (if seen + 1 = index then count_chapter text index (seen + 1) (Some offset) next in_fence lines
         else if index < seen + 1 then found (no_chapter index) start (\<lambda>s. slice s offset text)
         else count_chapter text index (seen + 1) start next in_fence lines)
      else count_chapter text index seen start next in_fence lines)"

definition count_based_chapter :: "rstring \<Rightarrow> nat \<Rightarrow> (passage_error + rstring) option" where
  "count_based_chapter text index = count_chapter text index 0 None 0 False (split_inclusive NL text)"

definition extract_chapter :: "rstring \<Rightarrow> nat \<Rightarrow> (passage_error + rstring) option" where
  "extract_chapter text index =
     (let headings = collect_headings text in
      if list_ex (\<lambda>h. bh_anchor_id h \<noteq> None) headings then
        (case from_first (has_id (\<lambda>i. starts_with i (str ''ch-'') \<and> chapter_number_of i = Some index)) headings of
           h # rest \<Rightarrow>
             map_option Inr (slice (bh_offset h)
               (case find (has_id (\<lambda>i. starts_with i (str ''ch-''))) rest of Some g \<Rightarrow> bh_offset g | None \<Rightarrow> utf8_len text) text)
         | [] \<Rightarrow> Some (Inl (no_chapter index)))
      else count_based_chapter text index)"

fun find_chapter :: "nat \<Rightarrow> nat \<Rightarrow> nat \<Rightarrow> bool \<Rightarrow> rstring list \<Rightarrow> nat option" where
  "find_chapter chapter seen offset in_fence [] = None"
| "find_chapter chapter seen offset in_fence (line # lines) =
     (let next = offset + utf8_len line in
      if is_fence_line line then find_chapter chapter seen next (\<not> in_fence) lines
      else if \<not> in_fence \<and> starts_with (trim_start line) (str ''# '') then
        (if seen + 1 = chapter then Some offset else find_chapter chapter (seen + 1) next in_fence lines)
      else find_chapter chapter seen next in_fence lines)"

fun count_section ::
  "rstring \<Rightarrow> passage_error \<Rightarrow> nat \<Rightarrow> nat \<Rightarrow> nat option \<Rightarrow> nat \<Rightarrow> bool \<Rightarrow> rstring list \<Rightarrow> (passage_error + rstring) option" where
  "count_section text e section seen start offset in_fence [] = found e start (\<lambda>s. slice_from s text)"
| "count_section text e section seen start offset in_fence (line # lines) =
     (let next = offset + utf8_len line; trimmed = trim_start line in
      if is_fence_line line then count_section text e section seen start next (\<not> in_fence) lines
      else if \<not> in_fence \<and> 0 < offset \<and> starts_with trimmed (str ''# '') then found e start (\<lambda>s. slice s offset text)
      else if \<not> in_fence \<and> starts_with trimmed (str ''## '') then
        (if seen + 1 = section then count_section text e section (seen + 1) (Some offset) next in_fence lines
         else if section < seen + 1 then found e start (\<lambda>s. slice s offset text)
         else count_section text e section (seen + 1) start next in_fence lines)
      else count_section text e section seen start next in_fence lines)"

definition count_based_section :: "rstring \<Rightarrow> nat \<Rightarrow> nat \<Rightarrow> (passage_error + rstring) option" where
  "count_based_section text chapter section =
     (case find_chapter chapter 0 0 False (split_inclusive NL text) of
        None \<Rightarrow> Some (Inl (no_chapter chapter))
      | Some ch_start \<Rightarrow>
          (case slice_from ch_start text of
             None \<Rightarrow> None
           | Some chapter_text \<Rightarrow>
               count_section chapter_text (no_section chapter section) section 0 None 0 False (split_inclusive NL chapter_text)))"

definition extract_section :: "rstring \<Rightarrow> nat \<Rightarrow> nat \<Rightarrow> (passage_error + rstring) option" where
  "extract_section text chapter section =
     (case anchored_section text chapter section of
        None \<Rightarrow> None
      | Some (Some p) \<Rightarrow> Some (Inr p)
      | Some None \<Rightarrow> count_based_section text chapter section)"

definition extract_passage_capped :: "rstring \<Rightarrow> rstring \<Rightarrow> rstring \<Rightarrow> nat \<Rightarrow> (passage_error + passage) option" where
  "extract_passage_capped slug a full_text max_chars =
     (if trim full_text = [] then Some (Inl Empty_book)
      else
        map_option (\<lambda>r. and_then r (\<lambda>text. Inr \<lparr>ps_slug = slug, ps_anchor = a, ps_text = take max_chars text\<rparr>))
          (case anchor_parse a of
             Chapter index _ \<Rightarrow> extract_chapter full_text index
           | Section chapter section _ \<Rightarrow> extract_section full_text chapter section
           | Other x \<Rightarrow> Some (if x = [] then Inr full_text else Inl (Anchor_not_found x))))"

definition extract_passage :: "rstring \<Rightarrow> rstring \<Rightarrow> rstring \<Rightarrow> (passage_error + passage) option" where
  "extract_passage slug a full_text = extract_passage_capped slug a full_text READ_PASSAGE_MAX_CHARS"

section \<open>What an anchor names\<close>

text \<open>
  A book cut at some of its headings, outside code fences: what comes before the first of them, and
  one block of lines per heading.
\<close>

definition next_fence :: "bool \<Rightarrow> rstring \<Rightarrow> bool" where
  "next_fence f line = (if is_fence_line line then \<not> f else f)"

definition heading_at :: "(rstring \<Rightarrow> bool) \<Rightarrow> bool \<Rightarrow> rstring \<Rightarrow> bool" where
  "heading_at h f line \<longleftrightarrow> \<not> is_fence_line line \<and> \<not> f \<and> h (trim_start line)"

fun blocks :: "(rstring \<Rightarrow> bool) \<Rightarrow> bool \<Rightarrow> rstring list \<Rightarrow> rstring list \<times> rstring list list" where
  "blocks h f [] = ([], [])"
| "blocks h f (line # lines) =
     (case blocks h (next_fence f line) lines of (pre, bs) \<Rightarrow>
        if heading_at h f line then ([], (line # pre) # bs) else (line # pre, bs))"

definition nth_block :: "nat \<Rightarrow> rstring list list \<Rightarrow> rstring option" where
  "nth_block n bs = (if 1 \<le> n \<and> n \<le> length bs then Some (concat (bs ! (n - 1))) else None)"

definition answer :: "passage_error \<Rightarrow> rstring option \<Rightarrow> (passage_error + rstring) option" where
  "answer e x = Some (ok_or x e)"

abbreviation h1 :: "rstring \<Rightarrow> bool" where "h1 t \<equiv> starts_with t (str ''# '')"
abbreviation h2 :: "rstring \<Rightarrow> bool" where "h2 t \<equiv> starts_with t (str ''## '')"

text \<open>The blocks are a partition of the book, and each begins with its heading.\<close>

lemma blocks_concat: "blocks h f lines = (pre, bs) \<Longrightarrow> concat pre @ concat (map concat bs) = concat lines"
  by (induction h f lines arbitrary: pre bs rule: blocks.induct) (auto split: prod.splits if_splits)

lemma blocks_lines: "blocks h f lines = (pre, bs) \<Longrightarrow> pre @ concat bs = lines"
  by (induction h f lines arbitrary: pre bs rule: blocks.induct) (auto split: prod.splits if_splits)

lemma blocks_heading: "blocks h f lines = (pre, bs) \<Longrightarrow> b \<in> set bs \<Longrightarrow> b \<noteq> [] \<and> h (trim_start (hd b))"
  by (induction h f lines arbitrary: pre bs rule: blocks.induct) (auto split: prod.splits if_splits simp: heading_at_def)

lemma blocks_skip: "\<not> heading_at h f line \<Longrightarrow> blocks h f (line # lines) = (line # fst (blocks h (next_fence f line) lines), snd (blocks h (next_fence f line) lines))"
  by (simp split: prod.split)

lemma blocks_head:
  "heading_at h f line \<Longrightarrow> blocks h f (line # lines) = ([], (line # fst (blocks h f lines)) # snd (blocks h f lines))"
  by (auto simp: heading_at_def next_fence_def split: prod.split)

lemma count_chapter_skip:
  "\<not> heading_at h1 f line \<Longrightarrow> count_chapter t index seen start offset f (line # lines)
    = count_chapter t index seen start (offset + utf8_len line) (next_fence f line) lines"
  by (auto simp: heading_at_def next_fence_def Let_def)

lemma count_chapter_head:
  "heading_at h1 f line \<Longrightarrow> count_chapter t index seen start offset f (line # lines) =
     (if seen + 1 = index then count_chapter t index index (Some offset) (offset + utf8_len line) f lines
      else if index < seen + 1 then found (no_chapter index) start (\<lambda>s. slice s offset t)
      else count_chapter t index (seen + 1) start (offset + utf8_len line) f lines)"
  by (auto simp: heading_at_def Let_def)

lemma found_slice:
  "found e (Some (utf8_len before)) (\<lambda>s. slice s (utf8_len before + utf8_len sofar) (before @ sofar @ rest)) = Some (Inr sofar)"
  by (simp add: found_def slice_append)

lemma count_chapter_started:
  assumes "index \<le> seen"
  shows "count_chapter (before @ sofar @ concat lines) index seen (Some (utf8_len before)) (utf8_len before + utf8_len sofar) f lines
    = Some (Inr (sofar @ concat (fst (blocks h1 f lines))))"
proof (induction lines arbitrary: f sofar)
  case Nil
  then show ?case by (simp add: found_def slice_from_append)
next
  case (Cons line lines)
  show ?case
  proof (cases "heading_at h1 f line")
    case True
    then show ?thesis using assms found_slice [of _ before sofar] by (simp only: count_chapter_head blocks_head) simp
  next
    case False
    show ?thesis unfolding count_chapter_skip [OF False] blocks_skip [OF False]
      using Cons.IH [of "sofar @ line" "next_fence f line"] by (simp add: add.assoc)
  qed
qed

lemma nth_block_Cons: "nth_block (Suc k) (b # bs) = (if k = 0 then Some (concat b) else nth_block k bs)"
  by (simp add: nth_block_def nth_Cons')

lemma count_chapter_blocks:
  assumes "seen < index"
  shows "count_chapter (before @ concat lines) index seen None (utf8_len before) f lines
    = answer (no_chapter index) (nth_block (index - seen) (snd (blocks h1 f lines)))"
  using assms
proof (induction lines arbitrary: f before seen)
  case Nil
  then show ?case by (simp add: found_def answer_def nth_block_def)
next
  case (Cons line lines)
  note IH = Cons.IH [of _ "before @ line"]
  obtain k where k: "index - seen = Suc k" using Cons.prems by (cases "index - seen") auto
  show ?case
  proof (cases "heading_at h1 f line")
    case True
    note head = count_chapter_head [OF True] blocks_head [OF True]
    show ?thesis
    proof (cases "seen + 1 = index")
      case True
      then have "k = 0" using k by simp
      with True show ?thesis unfolding head snd_conv k nth_block_Cons
        using count_chapter_started [of index index before line lines f] by (simp add: answer_def)
    next
      case False
      then have less: "seen + 1 < index" "k = index - (seen + 1)" "k \<noteq> 0" using Cons.prems k by simp_all
      then show ?thesis unfolding head snd_conv k nth_block_Cons
        using IH [of "seen + 1" f] by simp
    qed
  next
    case False
    show ?thesis unfolding count_chapter_skip [OF False] blocks_skip [OF False]
      using IH [of seen "next_fence f line"] Cons.prems by simp
  qed
qed

text \<open>Sections: the blocks of a chapter's lines.\<close>

lemma count_section_skip:
  "\<not> heading_at h1 f line \<Longrightarrow> \<not> heading_at h2 f line \<Longrightarrow> count_section t e n seen start offset f (line # lines)
    = count_section t e n seen start (offset + utf8_len line) (next_fence f line) lines"
  by (auto simp: heading_at_def next_fence_def Let_def)

lemma count_section_stop:
  "heading_at h1 f line \<Longrightarrow> 0 < offset \<Longrightarrow> count_section t e n seen start offset f (line # lines) = found e start (\<lambda>s. slice s offset t)"
  by (simp add: heading_at_def Let_def)

lemma h1_not_h2: "heading_at h2 f line \<Longrightarrow> \<not> heading_at h1 f line"
  by (auto simp: heading_at_def starts_with_iff)

lemma count_section_head:
  "heading_at h2 f line \<Longrightarrow> count_section t e n seen start offset f (line # lines) =
     (if seen + 1 = n then count_section t e n n (Some offset) (offset + utf8_len line) f lines
      else if n < seen + 1 then found e start (\<lambda>s. slice s offset t)
      else count_section t e n (seen + 1) start (offset + utf8_len line) f lines)"
  using h1_not_h2 [of f line] by (auto simp: heading_at_def Let_def)

lemma count_section_started:
  assumes "n \<le> seen" "0 < utf8_len before + utf8_len sofar"
  shows "count_section (before @ sofar @ concat lines) e n seen (Some (utf8_len before)) (utf8_len before + utf8_len sofar) f lines
    = Some (Inr (sofar @ concat (fst (blocks h2 f (fst (blocks h1 f lines))))))"
  using assms(2)
proof (induction lines arbitrary: f sofar)
  case Nil
  then show ?case by (simp add: found_def slice_from_append)
next
  case (Cons line lines)
  note pos = Cons.prems
  consider (h1) "heading_at h1 f line" | (h2) "heading_at h2 f line" "\<not> heading_at h1 f line"
    | (none) "\<not> heading_at h1 f line" "\<not> heading_at h2 f line" by blast
  then show ?case
  proof cases
    case h1
    then show ?thesis using found_slice [of e before sofar "concat (line # lines)"] pos
      by (simp only: count_section_stop blocks_head fst_conv) simp
  next
    case h2
    have "next_fence f line = f" using h2(1) by (simp add: heading_at_def next_fence_def)
    then show ?thesis using found_slice [of e before sofar "concat (line # lines)"] assms(1)
      unfolding count_section_head [OF h2(1)] blocks_skip [OF h2(2)] fst_conv blocks_head [OF h2(1)] by simp
  next
    case none
    have "0 < utf8_len before + utf8_len (sofar @ line)" using pos by auto
    from Cons.IH [OF this, of "next_fence f line"] show ?thesis
      unfolding count_section_skip [OF none] blocks_skip [OF none(1)] fst_conv blocks_skip [OF none(2)] by (simp add: add.assoc)
  qed
qed

lemma count_section_blocks:
  assumes "seen < n" "0 < utf8_len before"
  shows "count_section (before @ concat lines) e n seen None (utf8_len before) f lines
    = answer e (nth_block (n - seen) (snd (blocks h2 f (fst (blocks h1 f lines)))))"
  using assms
proof (induction lines arbitrary: f before seen)
  case Nil
  then show ?case by (simp add: found_def answer_def nth_block_def)
next
  case (Cons line lines)
  note IH = Cons.IH [of _ "before @ line"]
  obtain k where k: "n - seen = Suc k" using Cons.prems by (cases "n - seen") auto
  consider (h1) "heading_at h1 f line" | (h2) "heading_at h2 f line" "\<not> heading_at h1 f line"
    | (none) "\<not> heading_at h1 f line" "\<not> heading_at h2 f line" by blast
  then show ?case
  proof cases
    case h1
    show ?thesis unfolding count_section_stop [OF h1 Cons.prems(2)] blocks_head [OF h1]
      using Cons.prems(1) by (auto simp: found_def answer_def nth_block_def)
  next
    case h2
    have "next_fence f line = f" using h2(1) by (simp add: heading_at_def next_fence_def)
    note head = count_section_head [OF h2(1)] blocks_skip [OF h2(2)] blocks_head [OF h2(1)] this
    show ?thesis
    proof (cases "seen + 1 = n")
      case True
      then have "k = 0" using k by simp
      with True show ?thesis unfolding head fst_conv snd_conv k nth_block_Cons
        using count_section_started [of n n before line lines e f] Cons.prems(2) by (simp add: answer_def)
    next
      case False
      then have "seen + 1 < n" "k = n - (seen + 1)" "k \<noteq> 0" using Cons.prems k by simp_all
      then show ?thesis unfolding head fst_conv snd_conv k nth_block_Cons
        using IH [of "seen + 1" f] Cons.prems(2) by simp
    qed
  next
    case none
    show ?thesis unfolding count_section_skip [OF none] blocks_skip [OF none(1)] fst_conv blocks_skip [OF none(2)] snd_conv
      using IH [of seen "next_fence f line"] Cons.prems by simp
  qed
qed

lemma split_inclusive_tl: "split_inclusive c s = x # rest \<Longrightarrow> split_inclusive c (concat rest) = rest"
proof (induction s arbitrary: x)
  case (Cons a s)
  then show ?case by (cases "a = c") (auto split: list.splits)
qed simp

lemma split_inclusive_suffix: "split_inclusive c s = xs @ ys \<Longrightarrow> split_inclusive c (concat ys) = ys"
proof (induction xs arbitrary: s)
  case Nil
  then show ?case by (metis append_Nil concat_split_inclusive)
next
  case (Cons x xs)
  then show ?case using split_inclusive_tl [of c s x "xs @ ys"] by simp
qed

lemma find_chapter_blocks:
  assumes "seen < ch"
  shows "case find_chapter ch seen offset f lines of
      None \<Rightarrow> length (snd (blocks h1 f lines)) < ch - seen
    | Some o1 \<Rightarrow> ch - seen \<le> length (snd (blocks h1 f lines)) \<and>
        (\<exists>before line after. lines = before @ line # after \<and> o1 = offset + utf8_len (concat before) \<and> heading_at h1 False line \<and>
          snd (blocks h1 f lines) ! (ch - seen - 1) = line # fst (blocks h1 False after))"
  using assms
proof (induction lines arbitrary: f offset seen)
  case (Cons line lines)
  obtain k where k: "ch - seen = Suc k" using Cons.prems by (cases "ch - seen") auto
  show ?case
  proof (cases "heading_at h1 f line")
    case True
    then have f: "\<not> f" and eq: "find_chapter ch seen offset f (line # lines) =
        (if seen + 1 = ch then Some offset else find_chapter ch (seen + 1) (offset + utf8_len line) f lines)"
      by (simp_all add: heading_at_def Let_def)
    show ?thesis
    proof (cases "seen + 1 = ch")
      case True
      have "heading_at h1 False line" using \<open>heading_at h1 f line\<close> f by simp
      moreover have "k = 0" using True k by simp
      ultimately show ?thesis unfolding eq blocks_head [OF \<open>heading_at h1 f line\<close>] k using True f
        by (simp del: str_Cons) (rule exI [of _ "[]"], simp del: str_Cons)
    next
      case False
      then have less: "seen + 1 < ch" "k = ch - (seen + 1)" "0 < k" using Cons.prems k by simp_all
      show ?thesis
      proof (cases "find_chapter ch (seen + 1) (offset + utf8_len line) f lines")
        case None
        then show ?thesis using Cons.IH [OF less(1), of f "offset + utf8_len line"] False less
          unfolding eq blocks_head [OF \<open>heading_at h1 f line\<close>] k by (simp del: str_Cons)
      next
        case (Some o1)
        with Cons.IH [OF less(1), of f "offset + utf8_len line"] obtain before l after where
          b: "k \<le> length (snd (blocks h1 f lines))" "lines = before @ l # after" "o1 = offset + utf8_len line + utf8_len (concat before)"
          "heading_at h1 False l" "snd (blocks h1 f lines) ! (k - 1) = l # fst (blocks h1 False after)"
          using less(2) by (auto simp del: str_Cons)
        show ?thesis unfolding eq blocks_head [OF \<open>heading_at h1 f line\<close>] k using Some False b less(3)
          by (simp del: str_Cons) (intro exI [of _ "line # before"] exI, simp add: nth_Cons' del: str_Cons)
      qed
    qed
  next
    case False
    then have eq: "find_chapter ch seen offset f (line # lines) = find_chapter ch seen (offset + utf8_len line) (next_fence f line) lines"
      by (auto simp: heading_at_def next_fence_def Let_def)
    show ?thesis
    proof (cases "find_chapter ch seen (offset + utf8_len line) (next_fence f line) lines")
      case None
      then show ?thesis using Cons.IH [OF Cons.prems, of "next_fence f line" "offset + utf8_len line"]
        unfolding eq blocks_skip [OF False] by simp
    next
      case (Some o1)
      with Cons.IH [OF Cons.prems, of "next_fence f line" "offset + utf8_len line"] obtain before l after where
        b: "ch - seen \<le> length (snd (blocks h1 (next_fence f line) lines))" "lines = before @ l # after"
          "o1 = offset + utf8_len line + utf8_len (concat before)" "heading_at h1 False l"
          "snd (blocks h1 (next_fence f line) lines) ! (ch - seen - 1) = l # fst (blocks h1 False after)"
        by (auto simp del: str_Cons)
      show ?thesis unfolding eq blocks_skip [OF False] using Some b
        by (simp del: str_Cons) (intro exI [of _ "line # before"] exI, simp del: str_Cons)
    qed
  qed
qed simp

lemma count_based_section_blocks:
  assumes "1 \<le> c" "1 \<le> n"
  defines "bs \<equiv> \<lambda>t. snd (blocks h1 False (split_inclusive NL t))"
  shows "count_based_section t c n =
    (if c \<le> length (bs t) then answer (no_section c n) (nth_block n (snd (blocks h2 False (bs t ! (c - 1)))))
     else Some (Inl (no_chapter c)))"
proof (cases "find_chapter c 0 0 False (split_inclusive NL t)")
  case None
  then show ?thesis
    using find_chapter_blocks [where seen = 0 and ch = c and offset = 0 and f = False and lines = "split_inclusive NL t"] assms(1) by (simp add: count_based_section_def bs_def)
next
  case (Some o1)
  with find_chapter_blocks [where seen = 0 and ch = c and offset = 0 and f = False and lines = "split_inclusive NL t"] assms(1) obtain before line after where
    b: "c \<le> length (bs t)" "split_inclusive NL t = before @ line # after" "o1 = utf8_len (concat before)" "heading_at h1 False line"
    "bs t ! (c - 1) = line # fst (blocks h1 False after)"
    by (auto simp: bs_def simp del: str_Cons)
  have t: "t = concat before @ line @ concat after" using concat_split_inclusive [of NL t] b(2) by simp
  have ch: "slice_from o1 t = Some (concat (line # after))" by (simp add: t b(3) slice_from_append)
  have lines: "split_inclusive NL (concat (line # after)) = line # after" by (rule split_inclusive_suffix [OF b(2)])
  have skip: "\<not> heading_at h2 False line" using b(4) h1_not_h2 by blast
  have line: "line \<noteq> []" "next_fence False line = False"
    using b(4) by (auto simp: heading_at_def next_fence_def trim_start_def starts_with_def)
  then have pos: "0 < utf8_len line" using length_le_utf8_len [of line] by (cases line) auto
  have "count_section (concat (line # after)) (no_section c n) n 0 None 0 False (line # after) =
      count_section (line @ concat after) (no_section c n) n 0 None (utf8_len line) False after"
    using b(4) skip by (simp add: heading_at_def Let_def)
  also have "\<dots> = answer (no_section c n) (nth_block n (snd (blocks h2 False (fst (blocks h1 False after)))))"
    using count_section_blocks [of 0 n line after "no_section c n" False] assms(2) pos by simp
  finally show ?thesis using b(1) Some unfolding count_based_section_def b(5) blocks_skip [OF skip] line(2)
    by (simp add: ch lines del: concat.simps)
qed

text \<open>Headings that carry an identifier.\<close>

definition id_heading :: "(nat \<Rightarrow> rstring option \<Rightarrow> bool) \<Rightarrow> rstring \<Rightarrow> bool" where
  "id_heading p t \<longleftrightarrow> (case parse_heading_line t of Some (level, i) \<Rightarrow> p level i | None \<Rightarrow> False)"

lemma trim_end_prefix: "\<exists>w. s = trim_end s @ w"
  unfolding trim_end_def by (metis rev_append rev_rev_ident takeWhile_dropWhile_id)

lemma parse_heading_hash: "parse_heading_line t = Some x \<Longrightarrow> starts_with t (str ''#'')"
proof -
  assume "parse_heading_line t = Some x"
  then have "takeWhile (\<lambda>c. c = HASH) (trim_end t) \<noteq> []" by (auto simp: parse_heading_line_def Let_def split: if_splits)
  then obtain u where "trim_end t = HASH # u" by (cases "trim_end t") (auto split: if_splits)
  with trim_end_prefix [of t] show ?thesis by (auto simp: starts_with_def)
qed

lemma collect_skip_or_head:
  "collect_headings_from f offset (line # lines) =
     (case (if \<not> is_fence_line line \<and> \<not> f then parse_heading_line (trim_start line) else None) of
        Some (level, i) \<Rightarrow> \<lparr>bh_level = level, bh_offset = offset, bh_anchor_id = i\<rparr> # collect_headings_from f (offset + utf8_len line) lines
      | None \<Rightarrow> collect_headings_from (next_fence f line) (offset + utf8_len line) lines)"
proof -
  have "(if \<not> f \<and> starts_with (trim_start line) (str ''#'') then parse_heading_line (trim_start line) else None) =
      (if \<not> f then parse_heading_line (trim_start line) else None)"
    using parse_heading_hash [of "trim_start line"] by (cases "parse_heading_line (trim_start line)") auto
  then show ?thesis by (simp add: Let_def next_fence_def del: str_Cons split: option.split)
qed

text \<open>A line that is no heading of the kind leaves the search for one as it is.\<close>

lemma collect_other:
  assumes "\<not> heading_at (id_heading p) f line"
  shows "find (\<lambda>h. p (bh_level h) (bh_anchor_id h)) (collect_headings_from f offset (line # lines)) =
      find (\<lambda>h. p (bh_level h) (bh_anchor_id h)) (collect_headings_from (next_fence f line) (offset + utf8_len line) lines)"
    "from_first (\<lambda>h. p (bh_level h) (bh_anchor_id h)) (collect_headings_from f offset (line # lines)) =
      from_first (\<lambda>h. p (bh_level h) (bh_anchor_id h)) (collect_headings_from (next_fence f line) (offset + utf8_len line) lines)"
proof -
  consider "is_fence_line line \<or> f" | "\<not> is_fence_line line" "\<not> f" "parse_heading_line (trim_start line) = None"
    | level i where "\<not> is_fence_line line" "\<not> f" "parse_heading_line (trim_start line) = Some (level, i)" "\<not> p level i"
    using assms by (fastforce simp: heading_at_def id_heading_def split: option.splits)
  then show "find (\<lambda>h. p (bh_level h) (bh_anchor_id h)) (collect_headings_from f offset (line # lines)) =
      find (\<lambda>h. p (bh_level h) (bh_anchor_id h)) (collect_headings_from (next_fence f line) (offset + utf8_len line) lines)"
    "from_first (\<lambda>h. p (bh_level h) (bh_anchor_id h)) (collect_headings_from f offset (line # lines)) =
      from_first (\<lambda>h. p (bh_level h) (bh_anchor_id h)) (collect_headings_from (next_fence f line) (offset + utf8_len line) lines)"
    unfolding collect_skip_or_head by (cases; auto simp: next_fence_def)+
qed

text \<open>The next heading of a kind is where the lines before it end.\<close>

lemma next_heading_offset:
  "(case find (\<lambda>h. p (bh_level h) (bh_anchor_id h)) (collect_headings_from f offset lines) of
      Some h \<Rightarrow> bh_offset h | None \<Rightarrow> offset + utf8_len (concat lines))
    = offset + utf8_len (concat (fst (blocks (id_heading p) f lines)))"
proof (induction lines arbitrary: f offset)
  case (Cons line lines)
  note IH = Cons.IH [of "offset + utf8_len line" "next_fence f line"]
  show ?case
  proof (cases "heading_at (id_heading p) f line")
    case True
    then obtain level i where "\<not> is_fence_line line" "\<not> f" "parse_heading_line (trim_start line) = Some (level, i)" "p level i"
      by (auto simp: heading_at_def id_heading_def split: option.splits)
    then show ?thesis unfolding collect_skip_or_head blocks_head [OF True] by simp
  next
    case False
    show ?thesis unfolding blocks_skip [OF False] collect_other(1) [OF False] using IH by (simp add: add.assoc split: option.splits)
  qed
qed simp

text \<open>The first heading of a kind, and the lines from it.\<close>

fun lines_from :: "(rstring \<Rightarrow> bool) \<Rightarrow> bool \<Rightarrow> rstring list \<Rightarrow> rstring list" where
  "lines_from h f [] = []"
| "lines_from h f (line # lines) = (if heading_at h f line then line # lines else lines_from h (next_fence f line) lines)"

lemma from_first_lines:
  "case from_first (\<lambda>h. p (bh_level h) (bh_anchor_id h)) (collect_headings_from f offset lines) of
      [] \<Rightarrow> lines_from (id_heading p) f lines = []
    | h # rest \<Rightarrow> \<exists>before line after. lines = before @ line # after \<and> lines_from (id_heading p) f lines = line # after
        \<and> heading_at (id_heading p) False line \<and> parse_heading_line (trim_start line) = Some (bh_level h, bh_anchor_id h)
        \<and> bh_offset h = offset + utf8_len (concat before)
        \<and> rest = collect_headings_from False (bh_offset h + utf8_len line) after"
proof (induction lines arbitrary: f offset)
  case (Cons line lines)
  show ?case
  proof (cases "heading_at (id_heading p) f line")
    case True
    then obtain level i where l: "\<not> is_fence_line line" "\<not> f" "parse_heading_line (trim_start line) = Some (level, i)" "p level i"
      by (auto simp: heading_at_def id_heading_def split: option.splits)
    then have head: "collect_headings_from f offset (line # lines) =
        \<lparr>bh_level = level, bh_offset = offset, bh_anchor_id = i\<rparr> # collect_headings_from f (offset + utf8_len line) lines"
      unfolding collect_skip_or_head by simp
    show ?thesis unfolding head using l True by (auto intro!: exI [of _ "[]"])
  next
    case False
    note eq = collect_other(2) [OF False, of offset lines]
    show ?thesis
    proof (cases "from_first (\<lambda>h. p (bh_level h) (bh_anchor_id h)) (collect_headings_from (next_fence f line) (offset + utf8_len line) lines)")
      case Nil
      then show ?thesis unfolding eq using Cons.IH [of "next_fence f line" "offset + utf8_len line"] False by simp
    next
      case (Cons h rest)
      with Cons.IH [of "next_fence f line" "offset + utf8_len line"] obtain before l after where
        "lines = before @ l # after" "lines_from (id_heading p) (next_fence f line) lines = l # after"
        "heading_at (id_heading p) False l" "parse_heading_line (trim_start l) = Some (bh_level h, bh_anchor_id h)"
        "bh_offset h = offset + utf8_len line + utf8_len (concat before)" "rest = collect_headings_from False (bh_offset h + utf8_len l) after"
        by auto
      with Cons False show ?thesis unfolding eq by (auto intro!: exI [of _ "line # before"])
    qed
  qed
qed simp

section \<open>Properties\<close>

definition anchored :: "rstring \<Rightarrow> bool" where
  "anchored t \<longleftrightarrow> list_ex (\<lambda>h. bh_anchor_id h \<noteq> None) (collect_headings t)"

lemma not_anchored: "\<not> anchored t \<longleftrightarrow> list_all (\<lambda>h. bh_anchor_id h = None) (collect_headings t)"
  by (auto simp: anchored_def list_ex_iff list_all_iff)

text \<open>The text of a block: a heading of the kind \<open>h\<close> and what follows up to the next heading of the kind \<open>g\<close>.\<close>

definition block_from :: "(rstring \<Rightarrow> bool) \<Rightarrow> (rstring \<Rightarrow> bool) \<Rightarrow> rstring \<Rightarrow> rstring option" where
  "block_from h g t =
     (case lines_from h False (split_inclusive NL t) of
        [] \<Rightarrow> None
      | line # after \<Rightarrow> Some (line @ concat (fst (blocks g False after))))"

lemma plain_passages:
  fixes t :: rstring
  assumes "\<not> anchored t" "1 \<le> c"
  defines "bs \<equiv> snd (blocks h1 False (split_inclusive NL t))"
  shows "extract_chapter t c = answer (no_chapter c) (nth_block c bs)"
    "extract_section t c n = count_based_section t c n"
proof -
  show "extract_chapter t c = answer (no_chapter c) (nth_block c bs)"
    using assms(1,2) count_chapter_blocks [of 0 c "[]" "split_inclusive NL t" False]
    by (simp add: extract_chapter_def anchored_def count_based_chapter_def bs_def)
  have "anchored_section t c n = Some None"
    using assms(1) by (simp add: anchored_section_def not_anchored)
  then show "extract_section t c n = count_based_section t c n" by (simp add: extract_section_def)
qed

text \<open>Books without identifiers: chapters and sections are counted.  The chapters, one per level-one
  heading outside code fences, and the text before the first of them make up the book; an anchor
  names a chapter of this partition by its number, or a section of the chapter by its number among
  the level-two headings of it; and a number out of range is an error.  No slice panics.\<close>
theorem plain_book_passages:
  fixes t :: rstring
  assumes "\<not> anchored t" "1 \<le> c" "1 \<le> n"
  defines "bs \<equiv> snd (blocks h1 False (split_inclusive NL t))"
  shows "concat (fst (blocks h1 False (split_inclusive NL t))) @ concat (map concat bs) = t
    \<and> extract_chapter t c = answer (no_chapter c) (nth_block c bs)
    \<and> extract_section t c n =
        (if c \<le> length bs then answer (no_section c n) (nth_block n (snd (blocks h2 False (bs ! (c - 1)))))
         else Some (Inl (no_chapter c)))"
proof -
  have "concat (fst (blocks h1 False (split_inclusive NL t))) @ concat (map concat bs) = t"
    using blocks_concat [of h1 False "split_inclusive NL t"] by (simp add: bs_def del: str_Cons)
  then show ?thesis unfolding bs_def
    using plain_passages [OF assms(1,2)] count_based_section_blocks [OF assms(2,3), of t] by simp
qed

lemma anchored_slice:
  fixes t :: rstring
  defines "hs \<equiv> collect_headings t"
  shows "case from_first (\<lambda>h. p (bh_level h) (bh_anchor_id h)) hs of
      [] \<Rightarrow> block_from (id_heading p) g t = None
    | h # rest \<Rightarrow> \<exists>line after. lines_from (id_heading p) False (split_inclusive NL t) = line # after
        \<and> parse_heading_line (trim_start line) = Some (bh_level h, bh_anchor_id h)
        \<and> slice (bh_offset h) (case find (\<lambda>k. q (bh_level k) (bh_anchor_id k)) rest of Some k \<Rightarrow> bh_offset k | None \<Rightarrow> utf8_len t) t
            = Some (line @ concat (fst (blocks (id_heading q) False after)))"
proof (cases "from_first (\<lambda>h. p (bh_level h) (bh_anchor_id h)) hs")
  case Nil
  then show ?thesis using from_first_lines [where p = p and f = False and offset = 0 and lines = "split_inclusive NL t"]
    by (simp add: hs_def collect_headings_def block_from_def)
next
  case (Cons h rest)
  with from_first_lines [where p = p and f = False and offset = 0 and lines = "split_inclusive NL t"] obtain before line after where
    b: "split_inclusive NL t = before @ line # after" "lines_from (id_heading p) False (split_inclusive NL t) = line # after"
    "parse_heading_line (trim_start line) = Some (bh_level h, bh_anchor_id h)" "bh_offset h = utf8_len (concat before)"
    "rest = collect_headings_from False (bh_offset h + utf8_len line) after"
    unfolding hs_def collect_headings_def by auto
  let ?m = "line @ concat (fst (blocks (id_heading q) False after))" and ?s = "concat (map concat (snd (blocks (id_heading q) False after)))"
  have t: "t = concat before @ ?m @ ?s"
    using concat_split_inclusive [of NL t] b(1) blocks_concat [of "id_heading q" False after] by simp
  have len: "utf8_len t = bh_offset h + utf8_len line + utf8_len (concat after)"
    using concat_split_inclusive [of NL t] b(1,4) by (metis add.assoc append.assoc concat.simps(2) concat_append utf8_len_simps(3))
  have "(case find (\<lambda>k. q (bh_level k) (bh_anchor_id k)) rest of Some k \<Rightarrow> bh_offset k | None \<Rightarrow> utf8_len t) =
      bh_offset h + utf8_len line + utf8_len (concat (fst (blocks (id_heading q) False after)))"
    unfolding len b(5) by (rule next_heading_offset)
  moreover have "slice (utf8_len (concat before)) (utf8_len (concat before) + utf8_len ?m) t = Some ?m"
    unfolding t by (rule slice_append)
  ultimately show ?thesis using Cons b(2-4) by (simp add: add.assoc)
qed

definition chapter_id :: "nat \<Rightarrow> nat \<Rightarrow> rstring option \<Rightarrow> bool" where
  "chapter_id c level i \<longleftrightarrow> (case i of Some j \<Rightarrow> starts_with j (str ''ch-'') \<and> chapter_number_of j = Some c | None \<Rightarrow> False)"

definition any_chapter_id :: "nat \<Rightarrow> rstring option \<Rightarrow> bool" where
  "any_chapter_id level i \<longleftrightarrow> (case i of Some j \<Rightarrow> starts_with j (str ''ch-'') | None \<Rightarrow> False)"

definition section_id :: "nat \<Rightarrow> nat \<Rightarrow> nat \<Rightarrow> rstring option \<Rightarrow> bool" where
  "section_id c n level i \<longleftrightarrow> (case i of Some j \<Rightarrow> section_numbers_of j = Some (c, n) | None \<Rightarrow> False)"

definition up_to_level :: "rstring \<Rightarrow> nat \<Rightarrow> rstring option \<Rightarrow> bool" where
  "up_to_level line level i \<longleftrightarrow> (case parse_heading_line (trim_start line) of Some (m, _) \<Rightarrow> level \<le> m | None \<Rightarrow> False)"

lemma has_id_eq:
  "has_id (\<lambda>i. starts_with i (str ''ch-'') \<and> chapter_number_of i = Some c) = (\<lambda>h. chapter_id c (bh_level h) (bh_anchor_id h))"
  "has_id (\<lambda>i. starts_with i (str ''ch-'')) = (\<lambda>h. any_chapter_id (bh_level h) (bh_anchor_id h))"
  "has_id (\<lambda>i. section_numbers_of i = Some (c, n)) = (\<lambda>h. section_id c n (bh_level h) (bh_anchor_id h))"
  by (auto simp: has_id_def chapter_id_def any_chapter_id_def section_id_def fun_eq_iff split: option.split)

lemma anchored_chapter:
  assumes "anchored t"
  shows "extract_chapter t c = answer (no_chapter c) (block_from (id_heading (chapter_id c)) (id_heading any_chapter_id) t)"
  using assms anchored_slice [where p = "chapter_id c" and t = t and g = "id_heading any_chapter_id" and q = any_chapter_id]
  unfolding extract_chapter_def anchored_def has_id_eq
  by (auto simp: answer_def block_from_def Let_def split: list.splits)

lemma anchored_section_lines:
  assumes "anchored t"
  shows "extract_section t c n =
    (case lines_from (id_heading (section_id c n)) False (split_inclusive NL t) of
       [] \<Rightarrow> count_based_section t c n
     | line # after \<Rightarrow> Some (Inr (line @ concat (fst (blocks (id_heading (up_to_level line)) False after)))))"
proof (cases "from_first (\<lambda>h. section_id c n (bh_level h) (bh_anchor_id h)) (collect_headings t)")
  case Nil
  with anchored_slice [where p = "section_id c n" and t = t and g = "\<lambda>_. True" and q = any_chapter_id]
  have "lines_from (id_heading (section_id c n)) False (split_inclusive NL t) = []"
    by (cases "lines_from (id_heading (section_id c n)) False (split_inclusive NL t)") (simp_all add: block_from_def)
  with Nil assms not_anchored [of t] show ?thesis
    by (simp add: extract_section_def anchored_section_def has_id_eq Let_def)
next
  case (Cons h rest)
  with anchored_slice [where p = "section_id c n" and t = t and q = "\<lambda>level i. level \<le> bh_level h"] obtain line after where
    b: "lines_from (id_heading (section_id c n)) False (split_inclusive NL t) = line # after"
    "parse_heading_line (trim_start line) = Some (bh_level h, bh_anchor_id h)"
    "slice (bh_offset h) (case find (\<lambda>k. bh_level k \<le> bh_level h) rest of Some k \<Rightarrow> bh_offset k | None \<Rightarrow> utf8_len t) t
          = Some (line @ concat (fst (blocks (id_heading (\<lambda>level i. level \<le> bh_level h)) False after)))" by auto
  have "up_to_level line = (\<lambda>level i. level \<le> bh_level h)" by (simp add: up_to_level_def b(2) fun_eq_iff)
  then show ?thesis using Cons assms not_anchored [of t] b(1,3)
    by (simp add: extract_section_def anchored_section_def has_id_eq Let_def)
qed

text \<open>Books with identifiers on their headings.  A chapter anchor names the text from the first heading
  with that chapter's identifier up to the next heading with any chapter's identifier, whatever
  other headings lie between, and is an error when no heading has it.  A section anchor names the
  text from the first heading with the section's identifier up to the next heading of the same or a
  higher level; when no heading has it the sections are counted as in a book without identifiers.\<close>
theorem anchored_book_passages:
  assumes "anchored t"
  shows "extract_chapter t c = answer (no_chapter c) (block_from (id_heading (chapter_id c)) (id_heading any_chapter_id) t)
    \<and> extract_section t c n =
        (case lines_from (id_heading (section_id c n)) False (split_inclusive NL t) of
           [] \<Rightarrow> count_based_section t c n
         | line # after \<Rightarrow> Some (Inr (line @ concat (fst (blocks (id_heading (up_to_level line)) False after)))))"
  using anchored_chapter [OF assms] anchored_section_lines [OF assms] by blast

text \<open>A contiguous piece of the book.\<close>

definition piece_of :: "rstring \<Rightarrow> rstring \<Rightarrow> bool" where
  "piece_of t m \<longleftrightarrow> (\<exists>before after. t = before @ m @ after)"

definition sound :: "rstring \<Rightarrow> (passage_error + rstring) option \<Rightarrow> bool" where
  "sound t r \<longleftrightarrow> (case r of None \<Rightarrow> False | Some (Inl _) \<Rightarrow> True | Some (Inr m) \<Rightarrow> piece_of t m)"

lemma lines_piece: "split_inclusive NL t = before @ ls @ after \<Longrightarrow> piece_of t (concat ls)"
proof -
  assume "split_inclusive NL t = before @ ls @ after"
  then have "t = concat before @ concat ls @ concat after" using concat_split_inclusive [of NL t] by (metis concat_append)
  then show ?thesis unfolding piece_of_def by blast
qed

lemma block_piece:
  assumes "split_inclusive NL t = before @ pre @ concat bs @ after" "b \<in> set bs"
  shows "piece_of t (concat b)"
proof -
  from assms(2) obtain b1 b2 where bs: "bs = b1 @ b # b2" by (meson split_list)
  then show ?thesis using lines_piece [of t "before @ pre @ concat b1" b "concat b2 @ after"] assms(1) by simp
qed

lemma nth_block_sound:
  assumes "split_inclusive NL t = before @ pre @ concat bs @ after"
  shows "sound t (answer e (nth_block n bs))"
  using block_piece [OF assms, of "bs ! (n - 1)"] by (auto simp: sound_def answer_def nth_block_def)

lemma count_section_sound:
  assumes "1 \<le> c" "1 \<le> n"
  shows "sound t (count_based_section t c n)"
proof -
  let ?bs = "snd (blocks h1 False (split_inclusive NL t))" and ?pre = "fst (blocks h1 False (split_inclusive NL t))"
  have lines: "split_inclusive NL t = ?pre @ concat ?bs" using blocks_lines [of h1 False] by (metis prod.collapse)
  have "sound t (answer e (nth_block n (snd (blocks h2 False (?bs ! (c - 1))))))" if "c \<le> length ?bs" for e
  proof -
    let ?b = "?bs ! (c - 1)"
    define u v where "u = fst (blocks h2 False ?b)" and "v = snd (blocks h2 False ?b)"
    have b: "?b = u @ concat v" using blocks_lines [of h2 False ?b] by (simp add: u_def v_def)
    have "?bs = take (c - 1) ?bs @ ?b # drop (Suc (c - 1)) ?bs" using that assms(1) by (intro id_take_nth_drop) simp
    from arg_cong [OF this, of concat] have cc: "concat ?bs = concat (take (c - 1) ?bs) @ ?b @ concat (drop (Suc (c - 1)) ?bs)"
      by (simp only: concat_append concat.simps)
    have "split_inclusive NL t = (?pre @ concat (take (c - 1) ?bs)) @ u @ concat v @ concat (drop (Suc (c - 1)) ?bs)"
      by (rule trans [OF lines]) (simp only: cc b append.assoc)
    from nth_block_sound [OF this] show ?thesis unfolding v_def .
  qed
  then show ?thesis unfolding count_based_section_blocks [OF assms] by (simp add: sound_def)
qed

lemma lines_from_suffix: "\<exists>before. lines = before @ lines_from h f lines"
proof (induction lines arbitrary: f)
  case (Cons line lines)
  obtain before where b: "lines = before @ lines_from h (next_fence f line) lines" using Cons by blast
  show ?case
  proof (cases "heading_at h f line")
    case True
    then show ?thesis by (intro exI [of _ "[]"]) simp
  next
    case False
    then show ?thesis using b by (intro exI [of _ "line # before"]) simp
  qed
qed simp

lemma block_from_sound: "sound t (answer e (block_from h g t))"
proof (cases "lines_from h False (split_inclusive NL t)")
  case (Cons line after)
  obtain before where "split_inclusive NL t = before @ line # after" using lines_from_suffix [of "split_inclusive NL t" h False] Cons by auto
  moreover have "after = fst (blocks g False after) @ concat (snd (blocks g False after))" using blocks_lines [of g False after] by (metis prod.collapse)
  ultimately have "split_inclusive NL t = before @ (line # fst (blocks g False after)) @ concat (snd (blocks g False after))" by simp
  from lines_piece [OF this] show ?thesis using Cons by (simp add: sound_def answer_def block_from_def)
qed (simp add: sound_def answer_def block_from_def)

lemma anchor_parse_numbers:
  "case anchor_parse a of Chapter i _ \<Rightarrow> 1 \<le> i | Section c n _ \<Rightarrow> 1 \<le> c \<and> 1 \<le> n | Other _ \<Rightarrow> True"
  by (auto simp: anchor_parse_def chapter_anchor_def section_anchor_def Let_def split: option.splits anchor.splits if_splits)

text \<open>What an anchor extracts, before the cap.\<close>

lemma anchored_sound:
  "sound t (case anchor_parse a of Chapter i _ \<Rightarrow> extract_chapter t i | Section c n _ \<Rightarrow> extract_section t c n
    | Other x \<Rightarrow> Some (if x = [] then Inr t else Inl (Anchor_not_found x)))"
proof -
  have ch: "sound t (extract_chapter t c)" if "1 \<le> c" for c
  proof (cases "anchored t")
    case True
    then show ?thesis by (simp only: anchored_chapter block_from_sound)
  next
    case False
    have "split_inclusive NL t = [] @ fst (blocks h1 False (split_inclusive NL t)) @ concat (snd (blocks h1 False (split_inclusive NL t))) @ []"
      using blocks_lines [of h1 False "split_inclusive NL t"] by (metis append_Nil append_Nil2 prod.collapse)
    from nth_block_sound [OF this] show ?thesis unfolding plain_passages(1) [OF False that] .
  qed
  have sec: "sound t (extract_section t c n)" if "1 \<le> c" "1 \<le> n" for c n
  proof (cases "anchored t")
    case True
    show ?thesis
    proof (cases "lines_from (id_heading (section_id c n)) False (split_inclusive NL t)")
      case Nil
      then show ?thesis using count_section_sound [OF that] by (simp add: anchored_section_lines [OF True])
    next
      case (Cons line after)
      then show ?thesis
        using block_from_sound [of t Empty_book "id_heading (section_id c n)" "id_heading (up_to_level line)"]
        by (simp add: anchored_section_lines [OF True] block_from_def answer_def)
    qed
  qed (simp only: plain_passages(2) that count_section_sound not_False_eq_True)
  show ?thesis
  proof (cases "anchor_parse a")
    case (Other x)
    have "piece_of t t" unfolding piece_of_def by (rule exI [of _ "[]"]) simp
    then show ?thesis using Other by (simp add: sound_def)
  qed (use anchor_parse_numbers [of a] ch sec in simp_all)
qed

lemma sound_Some: "sound t r \<Longrightarrow> \<exists>y. r = Some y"
  by (cases r) (simp_all add: sound_def)

lemma extract_total: "extract_passage slug a t \<noteq> None"
  using sound_Some [OF anchored_sound [of t a]] by (auto simp: extract_passage_def extract_passage_capped_def)

text \<open>C15.  A passage is a piece of its book.  For every text, anchor and cap the extraction returns, without
  a slice out of bounds or off a character boundary; and a passage it returns is the first
  characters, as many as the cap allows, of one contiguous piece of the book.\<close>
theorem passage_is_piece:
  "\<exists>r. extract_passage_capped slug a t mx = Some r
    \<and> (\<forall>p. r = Inr p \<longrightarrow> ps_slug p = slug \<and> ps_anchor p = a \<and> length (ps_text p) \<le> mx
        \<and> (\<exists>m. piece_of t m \<and> ps_text p = take mx m))"
  using anchored_sound [of t a]
  by (auto simp: extract_passage_capped_def sound_def split: option.splits sum.splits)

section \<open>Small books\<close>

lemmas book_eval = anchored_def collect_headings_def parse_heading_line_def heading_id_def is_fence_line_def starts_with_def
  strip_suffix_def strip_prefix_def ends_with_def trim_start_def trim_end_def is_whitespace_def rsplit_once_def Let_def
  block_from_def heading_at_def id_heading_def chapter_id_def any_chapter_id_def next_fence_def chapter_number_of_def part_def
  all_digits_def is_ascii_digit_def parse_u32_def digits_value_def nth_block_def

definition plain_book :: rstring where
  "plain_book = str ''# A'' @ [NL] @ str ''## S'' @ [NL] @ str ''# B'' @ [NL]"

theorem plain_book_passages_witness:
  "extract_chapter plain_book 2 = Some (Inr (str ''# B'' @ [NL]))"
proof -
  have "\<not> anchored plain_book" by (simp add: book_eval plain_book_def)
  moreover have "nth_block 2 (snd (blocks h1 False (split_inclusive NL plain_book))) = Some (str ''# B'' @ [NL])"
    by (simp add: book_eval plain_book_def)
  ultimately show ?thesis using plain_book_passages [of plain_book 2 1] by (simp add: answer_def)
qed

definition marked_book :: rstring where
  "marked_book = str ''# A {#ch-1-a}'' @ [NL] @ str ''# S'' @ [NL]"

theorem anchored_book_passages_witness:
  "extract_chapter marked_book 1 = Some (Inr marked_book)"
proof -
  have "anchored marked_book" by (simp add: book_eval marked_book_def)
  moreover have "block_from (id_heading (chapter_id 1)) (id_heading any_chapter_id) marked_book = Some marked_book"
    by (simp add: book_eval marked_book_def)
  ultimately show ?thesis using anchored_book_passages [of marked_book 1 1] by (simp add: answer_def)
qed

text \<open>
  A missing section of a marked book is guessed by counting: the only section of this book has no
  identifier, and the first section of its second chapter is returned for an anchor of chapter two.
\<close>

definition skewed_book :: rstring where
  "skewed_book = str ''# A'' @ [NL] @ str ''# B {#ch-1-b}'' @ [NL] @ str ''## S'' @ [NL]"

lemma missing_section_guessed:
  "anchored skewed_book \<and> extract_section skewed_book 2 1 = Some (Inr (str ''## S'' @ [NL]))
    \<and> extract_chapter skewed_book 2 = Some (Inl (no_chapter 2))"
proof -
  have a: "anchored skewed_book" by (simp add: book_eval skewed_book_def)
  have "lines_from (id_heading (section_id 2 1)) False (split_inclusive NL skewed_book) = []"
    by (simp add: book_eval skewed_book_def section_id_def section_numbers_of_def)
  moreover have "count_based_section skewed_book 2 1 = Some (Inr (str ''## S'' @ [NL]))"
    by (subst count_based_section_blocks) (simp_all add: book_eval skewed_book_def answer_def)
  moreover have "block_from (id_heading (chapter_id 2)) (id_heading any_chapter_id) skewed_book = None"
    by (simp add: book_eval skewed_book_def)
  ultimately show ?thesis using a by (simp add: anchored_section_lines anchored_chapter answer_def)
qed

theorem passage_is_piece_witness:
  "\<exists>p m. extract_passage_capped (str ''b'') [] (str ''abc'') 2 = Some (Inr p) \<and> piece_of (str ''abc'') m \<and> ps_text p = take 2 m"
proof -
  have "extract_passage_capped (str ''b'') [] (str ''abc'') 2 =
      Some (Inr \<lparr>ps_slug = str ''b'', ps_anchor = [], ps_text = str ''ab''\<rparr>)"
    by (simp add: extract_passage_capped_def anchor_parse_def chapter_anchor_def section_anchor_def book_eval trim_def)
  with passage_is_piece [of "str ''b''" "[]" "str ''abc''" 2] show ?thesis by auto
qed

end
