(* ===== verification/Book_Catalog.thy ===== *)
theory Book_Catalog
  imports Book_Library Concept_Text Llm_Client
begin

text \<open>
  The catalog of a book: \<^verbatim>\<open>crates/mycelium-librarian/src/extract.rs\<close>.  The outline of chapters and
  sections, the concepts built from it, and the descriptions taken from the text.  The Unicode tables
  behind \<^verbatim>\<open>char::is_alphanumeric\<close> and \<^verbatim>\<open>char::to_lowercase\<close>, the call to the model and the JSON parser
  are parameters.
\<close>

section \<open>Outline\<close>

record section_outline =
  so_index :: nat
  so_title :: rstring
  so_anchor_id :: "rstring option"

record chapter_outline =
  ch_index :: nat
  ch_title :: rstring
  ch_slug :: rstring
  ch_sections :: "section_outline list"
  ch_anchor_id :: "rstring option"

definition heading_anchor_id :: "rstring \<Rightarrow> rstring option" where
  "heading_anchor_id trimmed =
     (case heading_id (trim_start (dropWhile (\<lambda>c. c = HASH) trimmed)) of
        Some i \<Rightarrow> if i = [] then None else Some i
      | None \<Rightarrow> None)"

definition is_chapter_id :: "rstring \<Rightarrow> bool" where
  "is_chapter_id i \<longleftrightarrow>
     (let parts = split_on DASH i in 3 \<le> length parts \<and> parts ! 0 = str ''ch'' \<and> all_digits (parts ! 1))"

definition is_section_id :: "rstring \<Rightarrow> bool" where
  "is_section_id i \<longleftrightarrow>
     (let parts = split_on DASH i in
      4 \<le> length parts \<and> parts ! 0 = str ''sec'' \<and> all_digits (parts ! 1) \<and> all_digits (parts ! 2))"

text \<open>The title a heading shows: without its identifier.\<close>

definition hash_count :: "rstring \<Rightarrow> nat" where
  "hash_count trimmed = length (takeWhile (\<lambda>c. c = HASH) trimmed)"

definition heading_title :: "rstring \<Rightarrow> rstring" where
  "heading_title trimmed =
     (let full_title = trim (trim_start (drop (hash_count trimmed) trimmed)) in
      case heading_anchor_id trimmed of
        None \<Rightarrow> full_title
      | Some i \<Rightarrow> (case strip_suffix full_title (str ''{#'' @ i @ str ''}'') of Some t \<Rightarrow> trim_end t | None \<Rightarrow> full_title))"

definition outline_heading :: "rstring \<Rightarrow> (rstring option \<times> rstring \<times> nat) option" where
  "outline_heading trimmed =
     (let hashes = hash_count trimmed in
      if hashes = 0 \<or> 6 < hashes \<or> \<not> starts_with (drop hashes trimmed) (str '' '') then None
      else Some (heading_anchor_id trimmed, heading_title trimmed, hashes))"

text \<open>The first pass, over the lines without their ends: identifier, title and level of every heading
  outside code fences.\<close>

fun fenced_headings :: "bool \<Rightarrow> rstring list \<Rightarrow> (rstring option \<times> rstring \<times> nat) list" where
  "fenced_headings in_fence [] = []"
| "fenced_headings in_fence (line # lines) =
     (if is_fence_line line then fenced_headings (\<not> in_fence) lines
      else if in_fence then fenced_headings in_fence lines
      else (case outline_heading (trim_start line) of
              None \<Rightarrow> fenced_headings in_fence lines
            | Some h \<Rightarrow> h # fenced_headings in_fence lines))"

record unicode =
  uc_alphanumeric :: "nat \<Rightarrow> bool"
  uc_lowercase :: "nat \<Rightarrow> rstring"

fun slug_chars :: "unicode \<Rightarrow> rstring \<Rightarrow> bool \<Rightarrow> rstring \<Rightarrow> rstring" where
  "slug_chars U out prev_dash [] = out"
| "slug_chars U out prev_dash (c # cs) =
     (if uc_alphanumeric U c then slug_chars U (out @ uc_lowercase U c) False cs
      else if \<not> prev_dash \<and> out \<noteq> [] then slug_chars U (out @ [DASH]) True cs
      else slug_chars U out prev_dash cs)"

definition slugify :: "unicode \<Rightarrow> rstring \<Rightarrow> rstring" where
  "slugify U text = rev (dropWhile (\<lambda>c. c = DASH) (rev (slug_chars U [] False text)))"

text \<open>Books with identifiers.\<close>

definition anchored_chapters :: "unicode \<Rightarrow> (rstring option \<times> rstring \<times> nat) list \<Rightarrow> chapter_outline list" where
  "anchored_chapters U hs =
     List.map_filter (\<lambda>(i, title, _).
       (case i of
          None \<Rightarrow> None
        | Some i \<Rightarrow>
            if is_chapter_id i then
              (case Option.bind (part 1 (split_on DASH i)) parse_u32 of
                 Some n \<Rightarrow>
                   if 0 < n then Some \<lparr>ch_index = n, ch_title = title, ch_slug = slugify U title, ch_sections = [],
                     ch_anchor_id = Some i\<rparr>
                   else None
               | None \<Rightarrow> None)
            else None)) hs"

definition anchored_sections :: "(rstring option \<times> rstring \<times> nat) list \<Rightarrow> (nat \<times> section_outline) list" where
  "anchored_sections hs =
     List.map_filter (\<lambda>(i, title, _).
       (case i of
          None \<Rightarrow> None
        | Some i \<Rightarrow>
            if is_chapter_id i then None
            else if is_section_id i then
              (case section_numbers_of i of
                 Some (c, m) \<Rightarrow>
                   if 0 < c then Some (c, \<lparr>so_index = m, so_title = title, so_anchor_id = Some i\<rparr>) else None
               | None \<Rightarrow> None)
            else None)) hs"

fun attach_sections :: "(nat \<times> section_outline) list \<Rightarrow> chapter_outline list \<Rightarrow> chapter_outline list" where
  "attach_sections by_chapter [] = []"
| "attach_sections by_chapter (ch # chapters) =
     (case filter (\<lambda>(c, _). c = ch_index ch) by_chapter of
        [] \<Rightarrow> ch # attach_sections by_chapter chapters
      | own \<Rightarrow> ch\<lparr>ch_sections := sort_key so_index (map snd own)\<rparr>
                # attach_sections (filter (\<lambda>(c, _). c \<noteq> ch_index ch) by_chapter) chapters)"

text \<open>Books without: every level-one heading is a chapter, every level-two heading a section of the
  last chapter.\<close>

definition push_section :: "rstring \<Rightarrow> chapter_outline \<Rightarrow> chapter_outline" where
  "push_section title ch =
     ch\<lparr>ch_sections := ch_sections ch @ [\<lparr>so_index = length (ch_sections ch) + 1, so_title = title, so_anchor_id = None\<rparr>]\<rparr>"

fun count_outline :: "unicode \<Rightarrow> chapter_outline list \<Rightarrow> (rstring option \<times> rstring \<times> nat) list \<Rightarrow> chapter_outline list" where
  "count_outline U chapters [] = chapters"
| "count_outline U chapters ((_, title, level) # hs) =
     (if level = 1 then
        count_outline U (chapters @ [\<lparr>ch_index = length chapters + 1, ch_title = title, ch_slug = slugify U title,
          ch_sections = [], ch_anchor_id = None\<rparr>]) hs
      else if level = 2 \<and> chapters \<noteq> [] then
        count_outline U (butlast chapters @ [push_section title (last chapters)]) hs
      else count_outline U chapters hs)"

definition parse_outline :: "unicode \<Rightarrow> rstring \<Rightarrow> chapter_outline list" where
  "parse_outline U text =
     (let hs = fenced_headings False (str_lines text) in
      if list_ex (\<lambda>(i, _, _). i \<noteq> None) hs
      then sort_key ch_index (attach_sections (anchored_sections hs) (anchored_chapters U hs))
      else count_outline U [] hs)"

section \<open>Concepts\<close>

record book_catalog =
  bc_slug :: rstring
  bc_title :: rstring
  bc_description :: rstring
  bc_chapter_summaries :: "rstring list"

definition chapter_anchor_id :: "chapter_outline \<Rightarrow> rstring" where
  "chapter_anchor_id ch =
     (case ch_anchor_id ch of
        Some i \<Rightarrow> i
      | None \<Rightarrow> str ''ch-'' @ show_nat (ch_index ch) @ str ''-'' @ ch_slug ch)"

definition section_anchor_id :: "unicode \<Rightarrow> chapter_outline \<Rightarrow> section_outline \<Rightarrow> rstring" where
  "section_anchor_id U ch s =
     (case so_anchor_id s of
        Some i \<Rightarrow> i
      | None \<Rightarrow> str ''sec-'' @ show_nat (ch_index ch) @ str ''-'' @ show_nat (so_index s) @ str ''-'' @ slugify U (so_title s))"

definition hub_path :: "rstring \<Rightarrow> rstring" where
  "hub_path slug = str ''/'' @ slug @ str ''/book.md''"

definition chapter_path :: "rstring \<Rightarrow> chapter_outline \<Rightarrow> rstring" where
  "chapter_path slug ch = str ''/'' @ slug @ str ''/'' @ chapter_anchor_id ch @ str ''.md''"

definition build_hub_concept :: "book_catalog \<Rightarrow> chapter_outline list \<Rightarrow> concept" where
  "build_hub_concept cat chapters =
     \<lparr>co_frontmatter = default_frontmatter\<lparr>fm_type := str ''Book'', fm_title := Some (bc_title cat),
        fm_description := Some (str ''Book catalog: '' @ bc_title cat), fm_resource := Some (str ''book://'' @ bc_slug cat)\<rparr>,
      co_body = str ''# About'' @ [NL, NL]
        @ (if bc_description cat = []
           then str ''Catalog for **'' @ bc_title cat @ str ''**. Full text lives in the shared library stacks.'' @ [NL]
           else bc_description cat @ [NL])
        @ [NL] @ str ''# Chapters'' @ [NL, NL]
        @ concat (map (\<lambda>ch. str ''- ['' @ ch_title ch @ str ''](/'' @ bc_slug cat @ str ''/'' @ chapter_anchor_id ch @ str ''.md)'' @ [NL]) chapters)
        @ [NL] @ str ''# Related Concepts'' @ [NL, NL] @ str ''Chapters link back to this hub.'' @ [NL],
      co_source_path = hub_path (bc_slug cat)\<rparr>"

definition book_uri :: "rstring \<Rightarrow> rstring \<Rightarrow> rstring" where
  "book_uri slug anchor = str ''book://'' @ slug @ str ''#'' @ anchor"

definition build_chapter_concept :: "unicode \<Rightarrow> book_catalog \<Rightarrow> chapter_outline \<Rightarrow> concept" where
  "build_chapter_concept U cat ch =
     (let summary = (case get_at (bc_chapter_summaries cat) (ch_index ch - 1) of Some s \<Rightarrow> s | None \<Rightarrow> []);
          uri = book_uri (bc_slug cat) (chapter_anchor_id ch) in
      \<lparr>co_frontmatter = default_frontmatter\<lparr>fm_type := str ''Chapter'', fm_title := Some (ch_title ch),
         fm_description := Some (str ''Chapter '' @ show_nat (ch_index ch) @ str '' of '' @ bc_title cat),
         fm_resource := Some uri, fm_book := Some (hub_path (bc_slug cat)), fm_chapter_index := Some (ch_index ch)\<rparr>,
       co_body = str ''# '' @ ch_title ch @ [NL, NL]
         @ (if summary = [] then [] else str ''# Summary'' @ [NL, NL] @ summary @ [NL, NL])
         @ (if ch_sections ch = [] then []
            else str ''# Sections'' @ [NL, NL]
              @ concat (map (\<lambda>s. str ''- ['' @ so_title s @ str ''](book://'' @ bc_slug cat @ str ''#'' @ section_anchor_id U ch s @ str '')'' @ [NL])
                  (ch_sections ch)) @ [NL])
         @ str ''# Full passage'' @ [NL, NL] @ str ''Read the full chapter via `'' @ uri @ str ''`.'' @ [NL],
       co_source_path = chapter_path (bc_slug cat) ch\<rparr>)"

section \<open>Descriptions\<close>

fun numbered_headings :: "bool \<Rightarrow> nat \<Rightarrow> rstring list \<Rightarrow> (nat \<times> nat \<times> rstring option) list" where
  "numbered_headings in_fence i [] = []"
| "numbered_headings in_fence i (line # lines) =
     (let t = trim_start line; hashes = hash_count t in
      if is_fence_line line then numbered_headings (\<not> in_fence) (i + 1) lines
      else if \<not> in_fence \<and> 0 < hashes \<and> hashes \<le> 6 \<and> starts_with (drop hashes t) (str '' '')
      then (i, hashes, heading_anchor_id t) # numbered_headings in_fence (i + 1) lines
      else numbered_headings in_fence (i + 1) lines)"

text \<open>The headings from the chapter's own on.\<close>

definition chapter_headings ::
  "chapter_outline \<Rightarrow> (nat \<times> nat \<times> rstring option) list \<Rightarrow> (nat \<times> nat \<times> rstring option) list" where
  "chapter_headings ch headings =
     (case ch_anchor_id ch of
        Some i \<Rightarrow> dropWhile (\<lambda>(_, _, h). h \<noteq> Some i) headings
      | None \<Rightarrow>
          (case get_at (filter (\<lambda>(_, level, _). level = 1) headings) (ch_index ch - 1) of
             Some (line, _, _) \<Rightarrow> dropWhile (\<lambda>(l, _, _). l \<noteq> line) headings
           | None \<Rightarrow> []))"

definition closes_chapter :: "chapter_outline \<Rightarrow> nat \<times> nat \<times> rstring option \<Rightarrow> bool" where
  "closes_chapter ch h =
     (case h of (_, level, i) \<Rightarrow>
       (case ch_anchor_id ch of
          Some _ \<Rightarrow> (case i of Some x \<Rightarrow> starts_with x (str ''ch-'') | None \<Rightarrow> False)
        | None \<Rightarrow> level = 1))"

fun take_words :: "rstring \<Rightarrow> rstring list \<Rightarrow> rstring" where
  "take_words out [] = out"
| "take_words out (w # ws) =
     (if 200 < utf8_len out + utf8_len w + 1 then out
      else take_words (out @ (if out = [] then [] else [SPACE]) @ w) ws)"

definition chapter_description :: "rstring list \<Rightarrow> (nat \<times> nat \<times> rstring option) list \<Rightarrow> chapter_outline \<Rightarrow> rstring" where
  "chapter_description lines headings ch =
     (case chapter_headings ch headings of
        [] \<Rightarrow> []
      | (line, _, _) # rest \<Rightarrow>
          (let stop = (case find (closes_chapter ch) rest of Some (i, _, _) \<Rightarrow> i | None \<Rightarrow> length lines);
               body = join_with [SPACE] (filter (\<lambda>l. l \<noteq> [] \<and> \<not> starts_with l (str ''#''))
                 (map trim (take (stop - (line + 1)) (drop (line + 1) lines)))) in
           take_words [] (split_whitespace body)))"

definition chapter_descriptions :: "chapter_outline list \<Rightarrow> rstring \<Rightarrow> rstring list" where
  "chapter_descriptions chapters text =
     map (chapter_description (str_lines text) (numbered_headings False 0 (str_lines text))) chapters"

definition heuristic_catalog :: "rstring \<Rightarrow> rstring \<Rightarrow> chapter_outline list \<Rightarrow> book_catalog" where
  "heuristic_catalog slug title_hint chapters =
     \<lparr>bc_slug = slug, bc_title = title_hint,
      bc_description = (if chapters = [] then [] else str ''Chapters: '' @ join_with (str '', '') (map ch_title chapters)),
      bc_chapter_summaries = replicate (length chapters) []\<rparr>"

record llm_book =
  lb_title :: rstring
  lb_description :: rstring

definition catalog_prompt :: "rstring \<Rightarrow> rstring \<Rightarrow> chapter_outline list \<Rightarrow> rstring" where
  "catalog_prompt slug title_hint chapters =
     str ''You are a librarian cataloging a book for a knowledge base.'' @ [NL]
     @ str ''Book slug: '' @ slug @ [NL] @ str ''Title hint: '' @ title_hint @ [NL]
     @ str ''Chapter outline:'' @ [NL]
     @ join_with [NL] (map (\<lambda>c. show_nat (ch_index c) @ str ''. '' @ ch_title c) chapters) @ [NL, NL]
     @ str ''Produce a JSON object with exactly these fields:'' @ [NL]
     @ str ''- \"title\": the book's title'' @ [NL]
     @ str ''- \"description\": 2-3 sentences describing the book'' @ [NL, NL]
     @ str ''Respond with ONLY the JSON object, no markdown fences, no commentary.''"

definition llm_catalog ::
  "(rstring \<Rightarrow> llm_error + rstring) \<Rightarrow> (rstring \<Rightarrow> llm_book option) \<Rightarrow> rstring \<Rightarrow> rstring \<Rightarrow> chapter_outline list \<Rightarrow> llm_error + llm_book" where
  "llm_catalog ask from_json slug title_hint chapters =
     and_then (ask (catalog_prompt slug title_hint chapters)) (\<lambda>raw. ok_or (from_json (strip_code_fence raw)) EmptyResponse)"

definition build_catalog ::
  "(rstring \<Rightarrow> llm_error + rstring) option \<Rightarrow> (rstring \<Rightarrow> llm_book option) \<Rightarrow> rstring \<Rightarrow> rstring \<Rightarrow> chapter_outline list \<Rightarrow> rstring \<Rightarrow> book_catalog" where
  "build_catalog client from_json slug title_hint chapters text =
     (let cat = (heuristic_catalog slug title_hint chapters)\<lparr>bc_chapter_summaries := chapter_descriptions chapters text\<rparr> in
      case client of
        None \<Rightarrow> cat
      | Some ask \<Rightarrow>
          (case llm_catalog ask from_json slug title_hint chapters of
             Inl _ \<Rightarrow> cat
           | Inr llm \<Rightarrow>
               cat\<lparr>bc_title := (if trim (lb_title llm) = [] then bc_title cat else trim (lb_title llm)),
                   bc_description := (if trim (lb_description llm) = [] then bc_description cat else trim (lb_description llm))\<rparr>))"

section \<open>Lines with and without their ends\<close>

lemma starts_with_end: "set p \<inter> set e = {} \<Longrightarrow> starts_with (t @ e) p \<longleftrightarrow> starts_with t p"
proof (induction t arbitrary: p)
  case Nil
  then show ?case by (cases p; cases e) (auto simp: starts_with_def)
next
  case (Cons x t)
  then show ?case by (cases p) (auto simp: starts_with_def)
qed

lemma trim_start_line:
  obtains e where "trim_start l = trim_start (line_body l) @ e" "set e \<subseteq> {NL, CR}"
proof -
  obtain e where e: "l = line_body l @ e" "set e \<subseteq> {NL, CR}" using line_body_end by blast
  then have ws: "\<forall>c \<in> set e. is_whitespace c" by (auto simp: is_whitespace_def)
  show thesis
  proof (cases "\<forall>c \<in> set (line_body l). is_whitespace c")
    case True
    then have "\<forall>c \<in> set l. is_whitespace c" using ws by (subst e(1)) auto
    then have "trim_start l = []" "trim_start (line_body l) = []" using True by (simp_all add: trim_start_eq_Nil)
    then show thesis using that [of "[]"] by simp
  next
    case False
    then have "trim_start l = trim_start (line_body l) @ e"
      by (subst e(1)) (auto simp: trim_start_def dropWhile_append1)
    then show thesis using that e(2) by blast
  qed
qed

lemma fence_line_body [simp]: "is_fence_line (line_body l) \<longleftrightarrow> is_fence_line l"
proof -
  obtain e where e: "trim_start l = trim_start (line_body l) @ e" "set e \<subseteq> {NL, CR}" by (rule trim_start_line)
  have "set (str ''```'') \<inter> set e = {}" "set (str ''~~~'') \<inter> set e = {}" using e(2) by auto
  then show ?thesis unfolding is_fence_line_def Let_def e(1) by (simp only: starts_with_end)
qed

lemma heading_line_body [simp]:
  "starts_with (trim_start (line_body l)) (str ''# '') \<longleftrightarrow> h1 (trim_start l)"
  "starts_with (trim_start (line_body l)) (str ''## '') \<longleftrightarrow> h2 (trim_start l)"
proof -
  obtain e where e: "trim_start l = trim_start (line_body l) @ e" "set e \<subseteq> {NL, CR}" by (rule trim_start_line)
  have "set (str ''# '') \<inter> set e = {}" "set (str ''## '') \<inter> set e = {}" using e(2) by auto
  then show "starts_with (trim_start (line_body l)) (str ''# '') \<longleftrightarrow> h1 (trim_start l)"
    "starts_with (trim_start (line_body l)) (str ''## '') \<longleftrightarrow> h2 (trim_start l)"
    unfolding e(1) by (simp_all only: starts_with_end)
qed

lemma h1_iff: "h1 t \<longleftrightarrow> hash_count t = 1 \<and> starts_with (drop (hash_count t) t) (str '' '')"
  by (cases t; cases "tl t") (auto simp: starts_with_def hash_count_def)

lemma h2_iff: "h2 t \<longleftrightarrow> hash_count t = 2 \<and> starts_with (drop (hash_count t) t) (str '' '')"
  by (cases t; cases "tl t"; cases "tl (tl t)") (auto simp: starts_with_def hash_count_def)

lemma outline_heading_level:
  "outline_heading t = Some (i, title, level) \<Longrightarrow> (level = 1 \<longleftrightarrow> h1 t) \<and> (level = 2 \<longleftrightarrow> h2 t) \<and> title = heading_title t"
  "outline_heading t = None \<Longrightarrow> \<not> h1 t \<and> \<not> h2 t"
  unfolding h1_iff h2_iff by (auto simp: outline_heading_def Let_def split: if_splits)

section \<open>Outlines of books without identifiers\<close>

definition headings_of :: "bool \<Rightarrow> rstring list \<Rightarrow> (rstring option \<times> rstring \<times> nat) list" where
  "headings_of f lines = fenced_headings f (map line_body lines)"

lemma headings_of_simps:
  "headings_of f [] = []"
  "headings_of f (line # lines) =
     (if heading_at (\<lambda>t. True) f line
      then (case outline_heading (trim_start (line_body line)) of
              None \<Rightarrow> headings_of f lines | Some h \<Rightarrow> h # headings_of f lines)
      else headings_of (next_fence f line) lines)"
  by (auto simp: headings_of_def heading_at_def next_fence_def split: option.split)

lemma headings_step:
  obtains (level_one) "heading_at h1 f line" "\<not> heading_at h2 f line" "next_fence f line = f"
      "\<exists>i. headings_of f (line # lines) = (i, heading_title (trim_start (line_body line)), 1) # headings_of f lines"
  | (level_two) "heading_at h2 f line" "\<not> heading_at h1 f line" "next_fence f line = f"
      "\<exists>i. headings_of f (line # lines) = (i, heading_title (trim_start (line_body line)), 2) # headings_of f lines"
  | (other) "\<not> heading_at h1 f line" "\<not> heading_at h2 f line"
      "headings_of f (line # lines) = headings_of (next_fence f line) lines
       \<or> (\<exists>i t l. l \<noteq> 1 \<and> l \<noteq> 2 \<and> headings_of f (line # lines) = (i, t, l) # headings_of (next_fence f line) lines)"
proof (cases "heading_at (\<lambda>t. True) f line")
  case True
  then have nf: "next_fence f line = f" by (simp add: heading_at_def next_fence_def)
  have at: "heading_at h1 f line \<longleftrightarrow> h1 (trim_start (line_body line))" "heading_at h2 f line \<longleftrightarrow> h2 (trim_start (line_body line))"
    using True by (simp_all add: heading_at_def del: str_Cons)
  show thesis
  proof (cases "outline_heading (trim_start (line_body line))")
    case None
    then show thesis using other True nf at outline_heading_level(2) [OF None] by (simp add: headings_of_simps del: str_Cons)
  next
    case (Some h)
    obtain i t l where h: "h = (i, t, l)" by (cases h)
    note lv = outline_heading_level(1) [OF Some [unfolded h]]
    have cons: "headings_of f (line # lines) = (i, t, l) # headings_of f lines" using True Some h by (simp add: headings_of_simps)
    consider "l = 1" | "l = 2" | "l \<noteq> 1" "l \<noteq> 2" by blast
    then show thesis
    proof cases
      case 1
      then have "heading_at h1 f line" using lv at(1) by blast
      moreover have "\<not> heading_at h2 f line" using 1 lv at(2) by (metis numeral_One numeral_eq_iff semiring_norm(85))
      ultimately show thesis using level_one nf cons lv 1 by blast
    next
      case 2
      then have "heading_at h2 f line" using lv at(2) by blast
      moreover have "\<not> heading_at h1 f line" using 2 lv at(1) by (metis numeral_One numeral_eq_iff semiring_norm(85))
      moreover have "headings_of f (line # lines) = (i, heading_title (trim_start (line_body line)), 2) # headings_of f lines"
        using cons lv 2 by simp
      ultimately show thesis using level_two nf by blast
    next
      case 3
      then show thesis using other lv at cons nf by metis
    qed
  qed
next
  case False
  then show thesis using other by (auto simp: heading_at_def headings_of_simps simp del: str_Cons)
qed

text \<open>Titles of the level-two headings, and the sections the loop makes of them.\<close>

definition section_titles :: "bool \<Rightarrow> rstring list \<Rightarrow> rstring list" where
  "section_titles f lines = map (\<lambda>(_, t, _). t) (filter (\<lambda>(_, _, l). l = 2) (headings_of f lines))"

definition with_sections :: "rstring list \<Rightarrow> chapter_outline \<Rightarrow> chapter_outline" where
  "with_sections ts ch = foldl (\<lambda>c t. push_section t c) ch ts"

definition block_chapter :: "unicode \<Rightarrow> nat \<Rightarrow> rstring list \<Rightarrow> chapter_outline" where
  "block_chapter U n b =
     with_sections (section_titles False (tl b))
       \<lparr>ch_index = n, ch_title = heading_title (trim_start (line_body (hd b))),
        ch_slug = slugify U (heading_title (trim_start (line_body (hd b)))), ch_sections = [], ch_anchor_id = None\<rparr>"

lemma no_sections [simp]: "section_titles f [] = []" "with_sections [] ch = ch"
  by (simp_all add: section_titles_def headings_of_simps with_sections_def)

lemma with_sections_Cons: "with_sections (t # ts) ch = with_sections ts (push_section t ch)"
  by (simp add: with_sections_def)

definition block_chapters :: "unicode \<Rightarrow> nat \<Rightarrow> rstring list list \<Rightarrow> chapter_outline list" where
  "block_chapters U n bs = map (\<lambda>(k, b). block_chapter U k b) (enumerate n bs)"

lemma block_chapters_simps [simp]:
  "block_chapters U n [] = []"
  "block_chapters U n (b # bs) = block_chapter U n b # block_chapters U (Suc n) bs"
  by (simp_all add: block_chapters_def)

lemma section_titles_step:
  "heading_at h2 f line \<Longrightarrow> section_titles f (line # lines) = heading_title (trim_start (line_body line)) # section_titles f lines"
  "\<not> heading_at h2 f line \<Longrightarrow> section_titles f (line # lines) = section_titles (next_fence f line) lines"
  by (rule headings_step [of f line lines]; auto simp: section_titles_def)+

lemma count_outline_blocks:
  "blocks h1 f lines = (pre, bs) \<Longrightarrow>
   count_outline U (chs @ [c]) (headings_of f lines)
     = chs @ [with_sections (section_titles f pre) c] @ block_chapters U (length chs + 2) bs"
proof (induction lines arbitrary: f pre bs chs c)
  case Nil
  then show ?case by (simp add: headings_of_simps)
next
  case (Cons line lines)
  obtain pre' bs' where b: "blocks h1 (next_fence f line) lines = (pre', bs')" by fastforce
  show ?case
  proof (rule headings_step [of f line lines])
    assume h: "heading_at h1 f line" "next_fence f line = f"
      and "\<exists>i. headings_of f (line # lines) = (i, heading_title (trim_start (line_body line)), 1) # headings_of f lines"
    then obtain i where i: "headings_of f (line # lines) = (i, heading_title (trim_start (line_body line)), 1) # headings_of f lines" by blast
    have f: "f = False" using h(1) by (simp add: heading_at_def)
    have "pre = []" "bs = (line # pre') # bs'" using Cons.prems b h by (simp_all del: str_Cons)
    then show ?case using Cons.IH [of f pre' bs' "chs @ [c]"] b h(2)
      by (simp add: i block_chapter_def del: str_Cons) (simp add: f)
  next
    assume h: "heading_at h2 f line" "\<not> heading_at h1 f line" "next_fence f line = f"
      and "\<exists>i. headings_of f (line # lines) = (i, heading_title (trim_start (line_body line)), 2) # headings_of f lines"
    then obtain i where i: "headings_of f (line # lines) = (i, heading_title (trim_start (line_body line)), 2) # headings_of f lines" by blast
    have p: "pre = line # pre'" "bs = bs'" using Cons.prems b h by (simp_all del: str_Cons)
    show ?case using Cons.IH [of f pre' bs' chs] b h(3)
      by (simp add: i p section_titles_step(1) [OF h(1)] with_sections_Cons)
  next
    assume h: "\<not> heading_at h1 f line" "\<not> heading_at h2 f line"
      and o: "headings_of f (line # lines) = headings_of (next_fence f line) lines
       \<or> (\<exists>i t l. l \<noteq> 1 \<and> l \<noteq> 2 \<and> headings_of f (line # lines) = (i, t, l) # headings_of (next_fence f line) lines)"
    have p: "pre = line # pre'" "bs = bs'" using Cons.prems b h by (simp_all del: str_Cons)
    show ?case using Cons.IH [OF b, of chs c] o by (auto simp: p section_titles_step(2) [OF h(2)])
  qed
qed

lemma count_outline_start:
  "blocks h1 f lines = (pre, bs) \<Longrightarrow> count_outline U [] (headings_of f lines) = block_chapters U 1 bs"
proof (induction lines arbitrary: f pre bs)
  case Nil
  then show ?case by (simp add: headings_of_simps)
next
  case (Cons line lines)
  obtain pre' bs' where b: "blocks h1 (next_fence f line) lines = (pre', bs')" by fastforce
  show ?case
  proof (rule headings_step [of f line lines])
    assume h: "heading_at h1 f line" "next_fence f line = f"
      and "\<exists>i. headings_of f (line # lines) = (i, heading_title (trim_start (line_body line)), 1) # headings_of f lines"
    then obtain i where i: "headings_of f (line # lines) = (i, heading_title (trim_start (line_body line)), 1) # headings_of f lines" by blast
    have f: "f = False" using h(1) by (simp add: heading_at_def)
    have "bs = (line # pre') # bs'" using Cons.prems b h by (simp_all del: str_Cons)
    then show ?case using count_outline_blocks [of f lines pre' bs' U "[]"] b h(2)
      by (simp add: i block_chapter_def del: str_Cons) (simp add: f numeral_2_eq_2)
  next
    assume h: "heading_at h2 f line" "\<not> heading_at h1 f line" "next_fence f line = f"
      and "\<exists>i. headings_of f (line # lines) = (i, heading_title (trim_start (line_body line)), 2) # headings_of f lines"
    then obtain i where i: "headings_of f (line # lines) = (i, heading_title (trim_start (line_body line)), 2) # headings_of f lines" by blast
    have "bs = bs'" using Cons.prems b h by (simp_all del: str_Cons)
    then show ?case using Cons.IH [of f pre' bs'] b h(3) by (simp add: i)
  next
    assume h: "\<not> heading_at h1 f line"
      and o: "headings_of f (line # lines) = headings_of (next_fence f line) lines
       \<or> (\<exists>i t l. l \<noteq> 1 \<and> l \<noteq> 2 \<and> headings_of f (line # lines) = (i, t, l) # headings_of (next_fence f line) lines)"
    have "bs = bs'" using Cons.prems b h by (simp_all del: str_Cons)
    then show ?case using Cons.IH [OF b] o by auto
  qed
qed

lemma length_section_titles: "length (section_titles f lines) = length (snd (blocks h2 f lines))"
proof (induction lines arbitrary: f)
  case (Cons line lines)
  show ?case
  proof (cases "heading_at h2 f line")
    case True
    then have "next_fence f line = f" by (simp add: heading_at_def next_fence_def)
    with True Cons [of f] show ?thesis by (simp add: section_titles_step(1) split: prod.split del: str_Cons)
  next
    case False
    with Cons [of "next_fence f line"] show ?thesis by (simp add: section_titles_step(2) split: prod.split del: str_Cons)
  qed
qed simp

lemma with_sections_frame [simp]:
  "ch_index (with_sections ts ch) = ch_index ch"
  "ch_title (with_sections ts ch) = ch_title ch"
  "ch_anchor_id (with_sections ts ch) = ch_anchor_id ch"
  by (induction ts arbitrary: ch) (simp_all add: with_sections_Cons push_section_def)

lemma with_sections_mem:
  "s \<in> set (ch_sections (with_sections ts ch)) \<Longrightarrow>
   s \<in> set (ch_sections ch) \<or> so_anchor_id s = None \<and> 1 \<le> so_index s \<and> so_index s \<le> length (ch_sections ch) + length ts"
  by (induction ts arbitrary: ch) (fastforce simp: with_sections_Cons push_section_def)+

definition outline_anchored :: "rstring \<Rightarrow> bool" where
  "outline_anchored t \<longleftrightarrow> list_ex (\<lambda>(i, _, _). i \<noteq> None) (fenced_headings False (str_lines t))"

lemma headings_of_text: "fenced_headings False (str_lines t) = headings_of False (split_inclusive NL t)"
  by (simp add: headings_of_def str_lines_def)

lemma plain_outline:
  "\<not> outline_anchored t \<Longrightarrow> parse_outline U t = block_chapters U 1 (snd (blocks h1 False (split_inclusive NL t)))"
  using count_outline_start [of False "split_inclusive NL t" _ _ U]
  unfolding parse_outline_def outline_anchored_def headings_of_text Let_def by (simp split: if_split) (metis prod.collapse)

section \<open>Identifiers the catalog sees, the reader sees\<close>

lemma heading_id_ends: "heading_id title = Some i \<Longrightarrow> \<exists>x. title = x @ str ''}''"
  by (auto simp: heading_id_def strip_suffix_Some split: option.splits)

lemma outline_heading_core:
  assumes "outline_heading (trim_start (line_body l)) = Some (Some i, title, level)"
  shows "parse_heading_line (trim_start l) = Some (level, Some i) \<and> starts_with (trim_start l) (str ''#'')"
proof -
  define T where "T = trim_start (line_body l)"
  obtain e where e: "trim_start l = T @ e" "set e \<subseteq> {NL, CR}" unfolding T_def by (rule trim_start_line)
  have a: "heading_id (trim_start (drop (hash_count T) T)) = Some i" "hash_count T = level" "0 < level" "level \<le> 6"
    "starts_with (drop level T) (str '' '')"
    using assms by (auto simp: T_def [symmetric] outline_heading_def heading_anchor_id_def Let_def hash_count_def dropWhile_eq_drop
        split: if_splits option.splits)
  obtain x where x: "trim_start (drop level T) = x @ str ''}''" using heading_id_ends a(1,2) by blast
  obtain y where "drop level T = y @ x @ str ''}''" using x trim_start_def takeWhile_dropWhile_id by metis
  then have d: "drop level T = y @ x @ [125]" by simp
  have T: "T = (take level T @ y @ x) @ [125]" using append_take_drop_id [of level T] unfolding d by simp
  have "trim_end T = T" by (subst T, subst (2) T, rule trim_end_id) (simp add: is_whitespace_def)
  moreover have "\<forall>c \<in> set e. is_whitespace c" using e(2) by (auto simp: is_whitespace_def)
  ultimately have te: "trim_end (T @ e) = T" using trim_end_append_ws [of e T] by simp
  have "starts_with (T @ e) (str ''#'')" using a(2,3) by (cases T) (auto simp: hash_count_def starts_with_def split: if_splits)
  then show ?thesis using a e(1) te unfolding parse_heading_line_def Let_def hash_count_def by simp
qed

lemma collect_ids:
  "(Some i, title, level) \<in> set (headings_of f lines) \<Longrightarrow>
   \<exists>h \<in> set (collect_headings_from f offset lines). bh_anchor_id h = Some i"
proof (induction lines arbitrary: f offset)
  case Nil
  then show ?case by (simp add: headings_of_simps)
next
  case (Cons line lines)
  show ?case
  proof (cases "heading_at (\<lambda>t. True) f line")
    case True
    then have t: "\<not> is_fence_line line" "\<not> f" by (simp_all add: heading_at_def)
    show ?thesis
    proof (cases "outline_heading (trim_start (line_body line)) = Some (Some i, title, level)")
      case True
      with outline_heading_core [OF this] t show ?thesis by (simp add: Let_def)
    next
      case False
      with Cons.prems True have "(Some i, title, level) \<in> set (headings_of f lines)"
        by (auto simp: headings_of_simps split: option.splits)
      from Cons.IH [OF this, of "offset + utf8_len line"] t show ?thesis by (auto simp: Let_def split: option.splits)
    qed
  next
    case False
    with Cons.prems have "(Some i, title, level) \<in> set (headings_of (next_fence f line) lines)" by (simp add: headings_of_simps)
    from Cons.IH [OF this, of "offset + utf8_len line"] False show ?thesis
      by (auto simp: Let_def heading_at_def next_fence_def split: if_splits)
  qed
qed

lemma outline_ids_anchored: "outline_anchored t \<Longrightarrow> anchored t"
  using collect_ids [of _ _ _ False "split_inclusive NL t" 0]
  by (fastforce simp: outline_anchored_def anchored_def collect_headings_def list_ex_iff headings_of_text)

lemmas part_defs = Book_Library.part_def part_or_empty_def

lemma split_on_ConsD:
  "split_on c s = a # b # r \<Longrightarrow> \<exists>s'. s = a @ c # s' \<and> c \<notin> set a \<and> split_on c s' = b # r"
proof (induction s arbitrary: a)
  case (Cons x s)
  show ?case
  proof (cases "x = c")
    case True
    with Cons.prems show ?thesis by auto
  next
    case False
    with Cons.prems obtain y where y: "split_on c s = y # b # r" "a = x # y" by (auto split: list.splits)
    from Cons.IH [OF y(1)] y(2) False show ?thesis by auto
  qed
qed simp

text \<open>An identifier the catalog takes for a chapter's is an anchor of that chapter.\<close>

lemma chapter_id_anchor:
  assumes "is_chapter_id i" "Option.bind (part 1 (split_on DASH i)) parse_u32 = Some n" "0 < n"
  shows "(\<exists>slug. anchor_parse i = Chapter n slug) \<and> starts_with i (str ''ch-'') \<and> chapter_number_of i = Some n"
proof -
  obtain p q r where p: "split_on DASH i = str ''ch'' # p # q # r" "all_digits p"
    using assms(1) unfolding is_chapter_id_def Let_def by (cases "split_on DASH i"; cases "tl (split_on DASH i)"; cases "tl (tl (split_on DASH i))") auto
  obtain s' where s': "i = str ''ch'' @ DASH # s'" "split_on DASH s' = p # q # r" using split_on_ConsD [OF p(1)] by blast
  obtain s'' where s'': "s' = p @ DASH # s''" "DASH \<notin> set p" using split_on_ConsD [OF s'(2)] by blast
  have n: "parse_u32 p = Some n" using assms(2) p(1) by (simp add: part_defs)
  have i: "i = str ''ch-'' @ p @ DASH # s''" using s'(1) s''(1) by simp
  then have pre: "strip_prefix i (str ''ch-'') = Some (p @ DASH # s'')" by (simp only: strip_prefix_append)
  have "splitn 2 DASH (p @ DASH # s'') = [p, s'']" using s''(2) by (simp add: numeral_2_eq_2)
  then have "chapter_anchor i = Some (Chapter n s'')"
    using assms(3) by (simp add: chapter_anchor_def pre part_defs Let_def n del: str_Cons)
  moreover have "starts_with i (str ''ch-'')" unfolding i by (rule starts_with_append)
  moreover have "chapter_number_of i = Some n" using p n by (simp add: chapter_number_of_def part_defs)
  ultimately show ?thesis by (simp add: anchor_parse_def)
qed

lemma section_id_anchor:
  assumes "section_numbers_of i = Some (c, m)" "0 < c" "0 < m"
  shows "\<exists>slug. anchor_parse i = Section c m slug"
proof -
  obtain rest where r: "strip_prefix i (str ''sec-'') = Some rest"
    using assms(1) by (auto simp: section_numbers_of_def split: option.splits)
  then have "i = str ''sec-'' @ rest" by (simp only: strip_prefix_Some)
  then have "strip_prefix i (str ''ch-'') = None" by (simp add: strip_prefix_def starts_with_def)
  moreover have "Option.bind (part 0 (splitn 3 DASH rest)) parse_u32 = Some c" "Option.bind (part 1 (splitn 3 DASH rest)) parse_u32 = Some m"
    using assms(1) r by (auto simp: section_numbers_of_def Let_def split: option.splits if_splits)
  ultimately show ?thesis using r assms(2,3)
    by (simp add: anchor_parse_def chapter_anchor_def section_anchor_def Let_def del: str_Cons)
qed

lemma plain_anchor:
  "1 \<le> n \<Longrightarrow> n < 2 ^ 32 \<Longrightarrow> anchor_parse (str ''ch-'' @ show_nat n @ str ''-'' @ x) = Chapter n x"
  "1 \<le> n \<Longrightarrow> n < 2 ^ 32 \<Longrightarrow> 1 \<le> m \<Longrightarrow> m < 2 ^ 32 \<Longrightarrow>
     anchor_parse (str ''sec-'' @ show_nat n @ str ''-'' @ show_nat m @ str ''-'' @ x) = Section n m x"
proof -
  have dash: "DASH \<notin> set (show_nat k)" for k using show_nat_set [of DASH k] by auto
  have "splitn 2 DASH (show_nat n @ DASH # x) = [show_nat n, x]" using dash by (simp add: numeral_2_eq_2)
  moreover assume n: "1 \<le> n" "n < 2 ^ 32"
  ultimately have "chapter_anchor (str ''ch-'' @ show_nat n @ DASH # x) = Some (Chapter n x)"
    unfolding chapter_anchor_def strip_prefix_append by (simp add: part_defs Let_def parse_show_u32)
  then show "anchor_parse (str ''ch-'' @ show_nat n @ str ''-'' @ x) = Chapter n x" by (simp add: anchor_parse_def)
  assume m: "1 \<le> m" "m < 2 ^ 32"
  let ?r = "show_nat n @ DASH # show_nat m @ DASH # x"
  have "splitn 3 DASH ?r = [show_nat n, show_nat m, x]" using dash by (simp add: numeral_3_eq_3)
  then have "section_anchor (str ''sec-'' @ ?r) = Some (Section n m x)"
    unfolding section_anchor_def strip_prefix_append using n m by (simp add: part_defs Let_def parse_show_u32)
  moreover have "chapter_anchor (str ''sec-'' @ ?r) = None" by (simp add: chapter_anchor_def strip_prefix_def starts_with_def)
  ultimately show "anchor_parse (str ''sec-'' @ show_nat n @ str ''-'' @ show_nat m @ str ''-'' @ x) = Section n m x"
    by (simp add: anchor_parse_def)
qed

section \<open>Every link of a catalog resolves\<close>

text \<open>The text of a passage that begins with the line \<open>line\<close>.\<close>

definition passage_from :: "rstring \<Rightarrow> rstring \<Rightarrow> rstring \<Rightarrow> (rstring \<Rightarrow> bool) \<Rightarrow> bool" where
  "passage_from slug a t good \<longleftrightarrow>
     (\<exists>p line rest. extract_passage slug a t = Some (Inr p) \<and> ps_text p = take READ_PASSAGE_MAX_CHARS (line @ rest) \<and> good line)"

lemma passage_fromI:
  assumes "trim t \<noteq> []" "(case anchor_parse a of Chapter n _ \<Rightarrow> extract_chapter t n | Section c m _ \<Rightarrow> extract_section t c m
      | Other x \<Rightarrow> Some (if x = [] then Inr t else Inl (Anchor_not_found x))) = Some (Inr (line @ rest))" "good line"
  shows "passage_from slug a t good"
  using assms by (auto simp: passage_from_def extract_passage_def extract_passage_capped_def)

lemma text_not_blank: "line \<in> set (split_inclusive NL t) \<Longrightarrow> HASH \<in> set (trim_start line) \<Longrightarrow> trim t \<noteq> []"
proof -
  assume l: "line \<in> set (split_inclusive NL t)" "HASH \<in> set (trim_start line)"
  then have "HASH \<in> set line" by (auto simp: trim_start_def dest: set_dropWhileD)
  then have "HASH \<in> set (concat (split_inclusive NL t))" unfolding set_concat using l(1) by blast
  then have "HASH \<in> set t" by simp
  moreover have "\<not> is_whitespace HASH" by (simp add: is_whitespace_def)
  ultimately show ?thesis unfolding trim_eq_Nil by blast
qed

lemma h1_hash: "h1 x \<Longrightarrow> HASH \<in> set x"
  by (cases x) (auto simp: starts_with_def)

lemma block_chapters_nth:
  "ch \<in> set (block_chapters U n bs) \<Longrightarrow> \<exists>k < length bs. ch = block_chapter U (n + k) (bs ! k)"
  by (auto simp: block_chapters_def set_conv_nth nth_enumerate_eq)

lemma length_blocks: "length (snd (blocks h f lines)) \<le> length lines"
  by (induction h f lines rule: blocks.induct) (auto split: prod.split)

lemma length_lines: "length (split_inclusive c s) \<le> length s"
  by (induction s) (auto split: list.splits)

lemma block_sections:
  assumes "h1 (trim_start (hd b))" "b \<noteq> []"
  shows "length (section_titles False (tl b)) = length (snd (blocks h2 False b))"
proof -
  obtain line r where b: "b = line # r" using assms(2) by (cases b) auto
  obtain x where "trim_start line = 35 # 32 # x" using assms(1) b by (auto simp: starts_with_iff)
  then have "\<not> heading_at h2 False line" "next_fence False line = False"
    by (simp_all add: heading_at_def next_fence_def is_fence_line_def starts_with_def Let_def)
  then show ?thesis unfolding b length_section_titles by (simp split: prod.split del: str_Cons)
qed

lemma length_block: "b \<in> set (snd (blocks h f lines)) \<Longrightarrow> length b \<le> length lines"
proof (induction h f lines rule: blocks.induct)
  case (2 h f line lines)
  obtain pre bs where pb: "blocks h (next_fence f line) lines = (pre, bs)" by fastforce
  have "length pre \<le> length lines" using arg_cong [OF blocks_lines [OF pb], of length] by simp
  with 2 pb show ?case by (auto split: if_splits)
qed simp

lemma plain_links:
  assumes t: "\<not> anchored t" "length t < 2 ^ 32" and ch: "ch \<in> set (parse_outline U t)"
  shows "passage_from slug (chapter_anchor_id ch) t (\<lambda>line. heading_title (trim_start (line_body line)) = ch_title ch)"
    and "s \<in> set (ch_sections ch) \<Longrightarrow> passage_from slug (section_anchor_id U ch s) t (\<lambda>line. h2 (trim_start line))"
proof -
  define lines bs where "lines = split_inclusive NL t" and "bs = snd (blocks h1 False lines)"
  have "\<not> outline_anchored t" using t(1) outline_ids_anchored by blast
  then obtain k where k: "k < length bs" "ch = block_chapter U (Suc k) (bs ! k)"
    using ch block_chapters_nth [of ch U 1 bs] plain_outline [of t U] by (auto simp: bs_def lines_def)
  have bl: "blocks h1 False lines = (fst (blocks h1 False lines), bs)" by (simp add: bs_def)
  have mem: "bs ! k \<in> set bs" using k(1) by simp
  have b: "bs ! k \<noteq> []" "h1 (trim_start (hd (bs ! k)))" using blocks_heading [OF bl mem] by (simp_all del: str_Cons)
  have "lines = fst (blocks h1 False lines) @ concat bs" using blocks_lines [OF bl] by simp
  then have "hd (bs ! k) \<in> set lines" using mem b(1) by (metis UN_I UnCI hd_in_set set_append set_concat)
  then have blank: "trim t \<noteq> []" using text_not_blank h1_hash [OF b(2)] unfolding lines_def by blast
  have short: "length lines < 2 ^ 32" using length_lines [of NL t] t(2) by (simp add: lines_def)
  then have n: "1 \<le> Suc k" "Suc k < 2 ^ 32" using k(1) length_blocks [of h1 False lines] by (simp_all add: bs_def)
  have ch_sel: "ch_index ch = Suc k" "ch_anchor_id ch = None" "ch_title ch = heading_title (trim_start (line_body (hd (bs ! k))))"
    by (simp_all add: k(2) block_chapter_def)
  have "extract_chapter t (Suc k) = Some (Inr (hd (bs ! k) @ concat (tl (bs ! k))))"
    using plain_passages(1) [OF t(1) n(1)] k(1) b(1) by (simp add: nth_block_def answer_def lines_def [symmetric] bs_def [symmetric] del: str_Cons) (metis concat.simps(2) list.collapse)
  then show "passage_from slug (chapter_anchor_id ch) t (\<lambda>line. heading_title (trim_start (line_body line)) = ch_title ch)"
    using blank ch_sel by (intro passage_fromI [where line = "hd (bs ! k)"]) (simp_all only: chapter_anchor_id_def plain_anchor(1) [OF n] option.case anchor.case not_False_eq_True)
  assume s: "s \<in> set (ch_sections ch)"
  let ?v = "snd (blocks h2 False (bs ! k))"
  have m: "so_anchor_id s = None" "1 \<le> so_index s" "so_index s \<le> length ?v"
    using with_sections_mem [OF s [unfolded k(2) block_chapter_def]] block_sections [OF b(2,1)] by simp_all
  then have m32: "so_index s < 2 ^ 32"
    using length_blocks [of h2 False "bs ! k"] length_block [of "bs ! k" h1 False lines] mem short by (simp add: bs_def)
  have "extract_section t (Suc k) (so_index s) = Some (Inr (concat (?v ! (so_index s - 1))))"
    using plain_passages(2) [OF t(1) n(1)] count_based_section_blocks [OF n(1) m(2), of t] m k(1)
    by (simp add: nth_block_def answer_def lines_def [symmetric] bs_def [symmetric] del: str_Cons)
  moreover have "?v ! (so_index s - 1) \<noteq> [] \<and> h2 (trim_start (hd (?v ! (so_index s - 1))))"
    using blocks_heading [of h2 False "bs ! k" "fst (blocks h2 False (bs ! k))" ?v "?v ! (so_index s - 1)"] m by simp
  ultimately have "extract_section t (Suc k) (so_index s) = Some (Inr (hd (?v ! (so_index s - 1)) @ concat (tl (?v ! (so_index s - 1)))))"
    "h2 (trim_start (hd (?v ! (so_index s - 1))))"
    by (metis concat.simps(2) list.collapse, blast)
  then show "passage_from slug (section_anchor_id U ch s) t (\<lambda>line. h2 (trim_start line))"
    using blank ch_sel m(1) by (intro passage_fromI [where line = "hd (?v ! (so_index s - 1))"])
      (simp_all only: section_anchor_id_def plain_anchor(2) [OF n m(2) m32] option.case anchor.case not_False_eq_True)
qed

lemma attach_sections_mem:
  "ch \<in> set (attach_sections secs chs) \<Longrightarrow>
   \<exists>c0 \<in> set chs. ch_index ch = ch_index c0 \<and> ch_anchor_id ch = ch_anchor_id c0
     \<and> (\<forall>s \<in> set (ch_sections ch). s \<in> set (ch_sections c0) \<or> (ch_index ch, s) \<in> set secs)"
proof (induction secs chs rule: attach_sections.induct)
  case (2 secs c chs)
  show ?case
  proof (cases "filter (\<lambda>(n, _). n = ch_index c) secs")
    case Nil
    with 2 show ?thesis by auto
  next
    case (Cons x xs)
    let ?c = "c\<lparr>ch_sections := sort_key so_index (map snd (x # xs))\<rparr>"
    let ?r = "filter (\<lambda>(n, _). n \<noteq> ch_index c) secs"
    have own: "set (x # xs) = {(n, s) \<in> set secs. n = ch_index c}" using arg_cong [OF Cons, of set] by auto
    from 2(3) Cons consider "ch = ?c" | "ch \<in> set (attach_sections ?r chs)" by auto
    then show ?thesis
    proof cases
      case 1
      then have "s \<in> snd ` set (x # xs)" if "s \<in> set (ch_sections ch)" for s using that by (simp add: set_insort_key)
      then have "(ch_index ch, s) \<in> set secs" if "s \<in> set (ch_sections ch)" for s using that own 1 by fastforce
      then show ?thesis using 1 by auto
    next
      case 2
      from "2.IH"(2) [OF Cons 2] show ?thesis by auto
    qed
  qed
qed simp

lemma map_filter_mem: "x \<in> set (List.map_filter f xs) \<longleftrightarrow> (\<exists>y \<in> set xs. f y = Some x)"
  by (induction xs) (auto simp: List.map_filter_simps split: option.splits)

lemma from_first_exists: "x \<in> set xs \<Longrightarrow> p x \<Longrightarrow> \<exists>y ys. from_first p xs = y # ys \<and> p y"
  by (induction xs) auto

lemma anchored_line:
  assumes "(Some i, title, level) \<in> set (fenced_headings False (str_lines t))" "\<And>l. p l (Some i)"
  obtains line after l j where "lines_from (id_heading p) False (split_inclusive NL t) = line # after"
    "parse_heading_line (trim_start line) = Some (l, j)" "p l j"
proof -
  obtain h where h: "h \<in> set (collect_headings t)" "bh_anchor_id h = Some i"
    using collect_ids [of i title level False "split_inclusive NL t" 0] assms(1) by (auto simp: headings_of_text collect_headings_def)
  then obtain g rest where g: "from_first (\<lambda>h. p (bh_level h) (bh_anchor_id h)) (collect_headings t) = g # rest" "p (bh_level g) (bh_anchor_id g)"
    using from_first_exists [of h "collect_headings t" "\<lambda>h. p (bh_level h) (bh_anchor_id h)"] assms(2) by auto
  from anchored_slice [where p = p and t = t and g = "\<lambda>_. True" and q = any_chapter_id] g that show thesis by auto
qed

text \<open>A line with a heading whose identifier has a given number.\<close>

definition heading_with :: "(rstring \<Rightarrow> bool) \<Rightarrow> rstring \<Rightarrow> bool" where
  "heading_with good line \<longleftrightarrow> (\<exists>l j. parse_heading_line (trim_start line) = Some (l, Some j) \<and> good j)"

lemma heading_not_blank:
  "lines_from h False (split_inclusive NL t) = line # after \<Longrightarrow> parse_heading_line (trim_start line) = Some x \<Longrightarrow> trim t \<noteq> []"
proof -
  assume l: "lines_from h False (split_inclusive NL t) = line # after" "parse_heading_line (trim_start line) = Some x"
  obtain before where "split_inclusive NL t = before @ line # after" using lines_from_suffix [of "split_inclusive NL t" h False] l(1) by auto
  moreover have "HASH \<in> set (trim_start line)" using parse_heading_hash [OF l(2)] by (cases "trim_start line") (auto simp: starts_with_def)
  ultimately show ?thesis using text_not_blank [of line t] by simp
qed

lemma anchored_links:
  assumes t: "outline_anchored t" and ch: "ch \<in> set (parse_outline U t)"
  shows "passage_from slug (chapter_anchor_id ch) t (heading_with (\<lambda>j. chapter_number_of j = Some (ch_index ch)))"
    and "s \<in> set (ch_sections ch) \<Longrightarrow> so_index s \<noteq> 0 \<Longrightarrow>
      passage_from slug (section_anchor_id U ch s) t (heading_with (\<lambda>j. section_numbers_of j = Some (ch_index ch, so_index s)))"
proof -
  let ?hs = "fenced_headings False (str_lines t)"
  have a: "anchored t" using t by (rule outline_ids_anchored)
  have "ch \<in> set (attach_sections (anchored_sections ?hs) (anchored_chapters U ?hs))"
    using ch t by (simp add: parse_outline_def outline_anchored_def Let_def)
  from attach_sections_mem [OF this] obtain c0 where c0: "c0 \<in> set (anchored_chapters U ?hs)" "ch_index ch = ch_index c0"
    "ch_anchor_id ch = ch_anchor_id c0" "\<forall>s \<in> set (ch_sections ch). s \<in> set (ch_sections c0) \<or> (ch_index ch, s) \<in> set (anchored_sections ?hs)" by blast
  then obtain i title level where i: "(Some i, title, level) \<in> set ?hs" "is_chapter_id i" "ch_anchor_id c0 = Some i" "ch_sections c0 = []"
    "Option.bind (part 1 (split_on DASH i)) parse_u32 = Some (ch_index c0)" "0 < ch_index c0"
    by (auto simp: anchored_chapters_def map_filter_mem split: option.splits if_splits)
  let ?n = "ch_index ch"
  note id = chapter_id_anchor [OF i(2) i(5,6), folded c0(2)]
  have "chapter_id ?n l (Some i)" for l using id by (simp add: chapter_id_def)
  then obtain line after l j where l: "lines_from (id_heading (chapter_id ?n)) False (split_inclusive NL t) = line # after"
    "parse_heading_line (trim_start line) = Some (l, j)" "chapter_id ?n l j"
    using anchored_line [OF i(1), of "chapter_id ?n"] by blast
  have blank: "trim t \<noteq> []" by (rule heading_not_blank [OF l(1,2)])
  have good: "heading_with (\<lambda>j. chapter_number_of j = Some ?n) line"
    using l(2,3) by (auto simp: heading_with_def chapter_id_def split: option.splits)
  obtain x where x: "anchor_parse i = Chapter ?n x" using id by blast
  have "extract_chapter t ?n = Some (Inr (line @ concat (fst (blocks (id_heading any_chapter_id) False after))))"
    by (simp add: anchored_chapter [OF a] answer_def block_from_def l(1))
  then show "passage_from slug (chapter_anchor_id ch) t (heading_with (\<lambda>j. chapter_number_of j = Some ?n))"
    using blank good by (intro passage_fromI [where line = line]) (simp_all add: chapter_anchor_id_def c0(3) i(3) x)
  assume s: "s \<in> set (ch_sections ch)" "so_index s \<noteq> 0"
  with c0(4) i(4) have "(?n, s) \<in> set (anchored_sections ?hs)" by auto
  then obtain k title' level' where k: "(Some k, title', level') \<in> set ?hs" "so_anchor_id s = Some k" "section_numbers_of k = Some (?n, so_index s)"
    by (auto simp: anchored_sections_def map_filter_mem split: option.splits if_splits)
  let ?q = "section_id ?n (so_index s)"
  have "?q l (Some k)" for l using k(3) by (simp add: section_id_def)
  then obtain line after l j where l: "lines_from (id_heading ?q) False (split_inclusive NL t) = line # after"
    "parse_heading_line (trim_start line) = Some (l, j)" "?q l j"
    using anchored_line [OF k(1), of ?q] by blast
  have good: "heading_with (\<lambda>j. section_numbers_of j = Some (?n, so_index s)) line"
    using l(2,3) by (auto simp: heading_with_def section_id_def split: option.splits)
  obtain x where x: "anchor_parse k = Section ?n (so_index s) x"
    using section_id_anchor [OF k(3)] s(2) i(6) c0(2) by auto
  show "passage_from slug (section_anchor_id U ch s) t (heading_with (\<lambda>j. section_numbers_of j = Some (?n, so_index s)))"
    using blank good by (intro passage_fromI [where line = line])
      (simp_all add: section_anchor_id_def k(2) x anchored_section_lines [OF a] l(1))
qed


section \<open>Small books\<close>

definition ascii_unicode :: unicode where
  "ascii_unicode = \<lparr>uc_alphanumeric = is_ascii_alphanumeric, uc_lowercase = \<lambda>c. [ascii_lower c]\<rparr>"

lemmas outline_eval = book_eval parse_outline_def outline_anchored_def str_lines_def line_body_def outline_heading_def hash_count_def
  heading_anchor_id_def heading_title_def trim_def push_section_def slugify_def ascii_unicode_def is_ascii_alphanumeric_def
  ascii_lower_def is_ascii_lowercase_def is_ascii_uppercase_def show_nat.simps part_defs
  is_chapter_id_def is_section_id_def anchored_chapters_def anchored_sections_def List.map_filter_simps section_numbers_of_def


text \<open>
  Three catalogs whose links fail.  An empty identifier makes the reader look for identifiers where the
  catalog counted; a section numbered zero is listed and cannot be read; and the summary a chapter
  concept shows is looked up by the chapter's number, so that in a book that starts at chapter two it
  is the next chapter's.
\<close>

definition empty_id_book :: rstring where
  "empty_id_book = str ''# A {#}'' @ [NL]"

lemma empty_id_breaks_link:
  "map chapter_anchor_id (parse_outline ascii_unicode empty_id_book) = [str ''ch-1-a'']
   \<and> extract_chapter empty_id_book 1 = Some (Inl (no_chapter 1))"
proof -
  have "anchored empty_id_book" by (simp add: outline_eval empty_id_book_def)
  moreover have "block_from (id_heading (chapter_id 1)) (id_heading any_chapter_id) empty_id_book = None"
    by (simp add: outline_eval empty_id_book_def)
  ultimately have "extract_chapter empty_id_book 1 = Some (Inl (no_chapter 1))" by (simp add: anchored_chapter answer_def)
  moreover have "map chapter_anchor_id (parse_outline ascii_unicode empty_id_book) = [str ''ch-1-a'']"
    by (simp add: outline_eval empty_id_book_def chapter_anchor_id_def)
  ultimately show ?thesis by blast
qed

lemma section_zero_breaks_link:
  "anchor_parse (str ''sec-1-0-x'') = Other (str ''sec-1-0-x'') \<and> section_numbers_of (str ''sec-1-0-x'') = Some (1, 0)
   \<and> is_section_id (str ''sec-1-0-x'')"
  by (simp add: outline_eval anchor_parse_def chapter_anchor_def section_anchor_def numeral_3_eq_3 split_once_def)

definition late_book :: rstring where
  "late_book = str ''# A {#ch-2-a}'' @ [NL] @ str ''alpha'' @ [NL] @ str ''# B {#ch-3-b}'' @ [NL] @ str ''beta'' @ [NL]"

lemma late_outline:
  "parse_outline ascii_unicode late_book =
     [\<lparr>ch_index = 2, ch_title = str ''A'', ch_slug = str ''a'', ch_sections = [], ch_anchor_id = Some (str ''ch-2-a'')\<rparr>,
      \<lparr>ch_index = 3, ch_title = str ''B'', ch_slug = str ''b'', ch_sections = [], ch_anchor_id = Some (str ''ch-3-b'')\<rparr>]"
  by (simp add: outline_eval late_book_def)

lemma summary_of_next_chapter:
  fixes slug title :: rstring
  defines "chs \<equiv> parse_outline ascii_unicode late_book"
  defines "cat \<equiv> build_catalog None (\<lambda>_. None) slug title chs late_book"
  shows "ch_title (hd chs) = str ''A'' \<and> bc_chapter_summaries cat = [str ''alpha'', str ''beta'']
    \<and> co_body (build_chapter_concept U cat (hd chs)) = str ''# A'' @ [NL, NL] @ str ''# Summary'' @ [NL, NL] @ str ''beta'' @ [NL, NL]
       @ str ''# Full passage'' @ [NL, NL] @ str ''Read the full chapter via `'' @ book_uri slug (str ''ch-2-a'') @ str ''`.'' @ [NL]"
proof -
  have "chapter_descriptions chs late_book = [str ''alpha'', str ''beta'']"
    unfolding chs_def late_outline
    by (simp add: chapter_descriptions_def chapter_description_def chapter_headings_def closes_chapter_def outline_eval late_book_def
        split_whitespace_def utf8_len_char_def)
  then have "bc_chapter_summaries cat = [str ''alpha'', str ''beta'']" "bc_slug cat = slug"
    by (simp_all add: cat_def build_catalog_def heuristic_catalog_def)
  then show ?thesis unfolding chs_def late_outline
    by (simp add: build_chapter_concept_def chapter_anchor_id_def Let_def)
qed

end
