(* ===== verification/Search_Core.thy ===== *)
theory Search_Core
  imports Complex_Main Concept_Text "HOL-Library.AList" "HOL-Library.Multiset" "HOL-Library.Product_Lexorder"
    "HOL-Library.List_Lexorder"
begin

text \<open>
  Lexical search: \<^verbatim>\<open>crates/mycelium-core/src/search.rs\<close>, its scorer, its fusion of ranked pools and the
  in-memory index that serves as the oracle of the stored one.  Scores are real numbers where the
  code computes with 32-bit floats, so rounding is not modelled; \<^verbatim>\<open>str::to_lowercase\<close> is a parameter
  (the Unicode tables).  Hash maps are association lists with one entry per key.
\<close>

section \<open>Queries and results\<close>

datatype status_filter = ActiveOnly | All

definition NON_ACTIVE_STATUSES :: "rstring list" where
  "NON_ACTIVE_STATUSES = [str ''superseded'', str ''retired'']"

definition is_active_status :: "rstring option \<Rightarrow> bool" where
  "is_active_status status = (case status of None \<Rightarrow> True | Some s \<Rightarrow> s \<notin> set NON_ACTIVE_STATUSES)"

datatype search_mode = Auto | Lexical | VectorOnly

record search_query =
  sq_terms :: "rstring list"
  sq_include_global :: bool
  sq_status_filter :: status_filter
  sq_mode :: search_mode

definition new_query :: "rstring list \<Rightarrow> search_query" where
  "new_query terms = \<lparr>sq_terms = terms, sq_include_global = False, sq_status_filter = ActiveOnly, sq_mode = Auto\<rparr>"

record search_result =
  sr_concept_path :: rstring
  sr_title :: rstring
  sr_snippet :: rstring
  sr_score :: real

section \<open>Tokens\<close>

fun split_by :: "(nat \<Rightarrow> bool) \<Rightarrow> rstring \<Rightarrow> rstring list" where
  "split_by p [] = [[]]"
| "split_by p (c # s) =
     (if p c then [] # split_by p s else (case split_by p s of [] \<Rightarrow> [[c]] | x # xs \<Rightarrow> (c # x) # xs))"

definition tokenize :: "(rstring \<Rightarrow> rstring) \<Rightarrow> rstring \<Rightarrow> rstring list" where
  "tokenize lower text =
     filter (\<lambda>t. 2 \<le> utf8_len t) (split_by (\<lambda>c. \<not> is_ascii_alphanumeric c) (lower text))"

definition concept_title :: "concept \<Rightarrow> rstring" where
  "concept_title c = (case fm_title (co_frontmatter c) of Some t \<Rightarrow> t | None \<Rightarrow> co_source_path c)"

definition searchable_text :: "concept \<Rightarrow> rstring" where
  "searchable_text c =
     concept_title c
     @ (case fm_description (co_frontmatter c) of Some d \<Rightarrow> SPACE # d | None \<Rightarrow> [])
     @ concat (map (\<lambda>tag. SPACE # tag) (fm_tags (co_frontmatter c)))
     @ SPACE # concat (takeWhile (\<lambda>line. trim_end line \<noteq> str ''# History'') (split_inclusive NL (co_body c)))"

definition doc_tokens :: "(rstring \<Rightarrow> rstring) \<Rightarrow> concept \<Rightarrow> rstring list" where
  "doc_tokens lower c = tokenize lower (searchable_text c)"

definition snippet_of :: "rstring \<Rightarrow> rstring" where
  "snippet_of body = trim (take 200 body)"

section \<open>Scoring\<close>

record bm25_params =
  bm_k1 :: real
  bm_b :: real

definition default_bm25 :: bm25_params where
  "default_bm25 = \<lparr>bm_k1 = 12 / 10, bm_b = 3 / 4\<rparr>"

definition bm25_score :: "bm25_params \<Rightarrow> nat \<Rightarrow> nat \<Rightarrow> nat \<Rightarrow> nat \<Rightarrow> real \<Rightarrow> real" where
  "bm25_score params n_docs df tf doc_len avgdl =
     (if df = 0 then 0
      else
        (let idf = ln ((real n_docs - real df + 1 / 2) / (real df + 1 / 2) + 1);
             length_ratio = (if avgdl = 0 then 1 else real doc_len / avgdl);
             tf_term = real tf * (bm_k1 params + 1)
               / (real tf + bm_k1 params * (1 - bm_b params + bm_b params * length_ratio)) in
         idf * tf_term))"

section \<open>Fusing ranked pools\<close>

record rrf_params =
  rp_rrf_k :: real
  rp_w_lex :: real
  rp_w_vec :: real

definition default_rrf :: rrf_params where
  "default_rrf = \<lparr>rp_rrf_k = 60, rp_w_lex = 1, rp_w_vec = 1\<rparr>"

definition add_score :: "rstring \<Rightarrow> real \<Rightarrow> (rstring \<times> real) list \<Rightarrow> (rstring \<times> real) list" where
  "add_score path x scores =
     AList.update path ((case map_of scores path of Some s \<Rightarrow> s | None \<Rightarrow> 0) + x) scores"

text \<open>\<open>rank\<close> counts from 0, as \<^verbatim>\<open>enumerate\<close> does.\<close>

fun fuse_pool :: "real \<Rightarrow> real \<Rightarrow> nat \<Rightarrow> (rstring \<times> real) list \<Rightarrow> (rstring \<times> real) list \<Rightarrow> (rstring \<times> real) list" where
  "fuse_pool w k rank [] scores = scores"
| "fuse_pool w k rank ((path, _) # pool) scores =
     fuse_pool w k (Suc rank) pool (add_score path (w / (k + real rank + 1)) scores)"

definition rrf_fuse ::
  "(rstring \<times> real) list \<Rightarrow> (rstring \<times> real) list \<Rightarrow> rrf_params \<Rightarrow> (rstring \<times> real) list" where
  "rrf_fuse lex_pool vec_pool params =
     sort_key (\<lambda>(path, s). (- s, path))
       (fuse_pool (rp_w_vec params) (rp_rrf_k params) 0 vec_pool
         (fuse_pool (rp_w_lex params) (rp_rrf_k params) 0 lex_pool []))"

section \<open>The in-memory index\<close>

record doc_meta =
  dm_title :: rstring
  dm_body :: rstring
  dm_status :: "rstring option"
  dm_length :: nat

record in_memory_index =
  im_postings :: "(rstring \<times> (rstring \<times> nat) list) list"
  im_docs :: "(rstring \<times> doc_meta) list"

definition new_index :: in_memory_index where
  "new_index = \<lparr>im_postings = [], im_docs = []\<rparr>"

definition strip_path :: "rstring \<Rightarrow> (rstring \<times> (rstring \<times> nat) list) list \<Rightarrow> (rstring \<times> (rstring \<times> nat) list) list" where
  "strip_path path postings = filter (\<lambda>(t, p). p \<noteq> []) (map (\<lambda>(t, p). (t, AList.delete path p)) postings)"

definition bump_posting :: "rstring \<Rightarrow> rstring \<Rightarrow> (rstring \<times> (rstring \<times> nat) list) list \<Rightarrow> (rstring \<times> (rstring \<times> nat) list) list" where
  "bump_posting path token postings =
     (let p = (case map_of postings token of Some p \<Rightarrow> p | None \<Rightarrow> []);
          n = (case map_of p path of Some n \<Rightarrow> n | None \<Rightarrow> 0) in
      AList.update token (AList.update path ((n + 1) mod 2 ^ 32) p) postings)"

definition concept_meta :: "(rstring \<Rightarrow> rstring) \<Rightarrow> concept \<Rightarrow> doc_meta" where
  "concept_meta lower c = \<lparr>dm_title = concept_title c, dm_body = co_body c, dm_status = fm_status (co_frontmatter c),
     dm_length = length (doc_tokens lower c) mod 2 ^ 32\<rparr>"

definition mem_add :: "(rstring \<Rightarrow> rstring) \<Rightarrow> concept \<Rightarrow> in_memory_index \<Rightarrow> in_memory_index" where
  "mem_add lower c ix =
     ix\<lparr>im_postings := fold (bump_posting (co_source_path c)) (doc_tokens lower c)
                        (strip_path (co_source_path c) (im_postings ix)),
        im_docs := AList.update (co_source_path c) (concept_meta lower c) (im_docs ix)\<rparr>"

definition mem_avgdl :: "in_memory_index \<Rightarrow> real" where
  "mem_avgdl ix =
     (if im_docs ix = [] then 0
      else real (sum_list (map (\<lambda>(p, d). dm_length d) (im_docs ix))) / real (length (im_docs ix)))"

text \<open>
  One posting list.  The result is nothing where \<^verbatim>\<open>self.docs[path]\<close> would panic.
\<close>

fun mem_score_posting ::
  "in_memory_index \<Rightarrow> status_filter \<Rightarrow> nat \<Rightarrow> (rstring \<times> nat) list \<Rightarrow> (rstring \<times> real) list
   \<Rightarrow> (rstring \<times> real) list option" where
  "mem_score_posting ix filt df [] scores = Some scores"
| "mem_score_posting ix filt df ((path, tf) # posting) scores =
     (case map_of (im_docs ix) path of
        None \<Rightarrow> None
      | Some doc \<Rightarrow>
          if filt = ActiveOnly \<and> \<not> is_active_status (dm_status doc) then mem_score_posting ix filt df posting scores
          else mem_score_posting ix filt df posting
            (add_score path (bm25_score default_bm25 (length (im_docs ix)) df tf (dm_length doc) (mem_avgdl ix)) scores))"

fun mem_score_terms ::
  "(rstring \<Rightarrow> rstring) \<Rightarrow> in_memory_index \<Rightarrow> status_filter \<Rightarrow> rstring list \<Rightarrow> rstring list \<Rightarrow> (rstring \<times> real) list
   \<Rightarrow> (rstring \<times> real) list option" where
  "mem_score_terms lower ix filt [] seen scores = Some scores"
| "mem_score_terms lower ix filt (term # terms) seen scores =
     (let token = lower term in
      if token \<in> set seen then mem_score_terms lower ix filt terms seen scores
      else
        (case map_of (im_postings ix) token of
           None \<Rightarrow> mem_score_terms lower ix filt terms (token # seen) scores
         | Some docs \<Rightarrow>
             (case mem_score_posting ix filt (length docs) docs scores of
                None \<Rightarrow> None
              | Some scores' \<Rightarrow> mem_score_terms lower ix filt terms (token # seen) scores')))"

definition result_key :: "search_result \<Rightarrow> real \<times> rstring" where
  "result_key r = (- sr_score r, sr_concept_path r)"

fun mem_results :: "in_memory_index \<Rightarrow> (rstring \<times> real) list \<Rightarrow> search_result list option" where
  "mem_results ix [] = Some []"
| "mem_results ix ((path, score) # scores) =
     (case (map_of (im_docs ix) path, mem_results ix scores) of
        (Some doc, Some rs) \<Rightarrow>
          Some (\<lparr>sr_concept_path = path, sr_title = dm_title doc, sr_snippet = snippet_of (dm_body doc),
                 sr_score = score\<rparr> # rs)
      | _ \<Rightarrow> None)"

definition mem_search :: "(rstring \<Rightarrow> rstring) \<Rightarrow> in_memory_index \<Rightarrow> search_query \<Rightarrow> search_result list option" where
  "mem_search lower ix query =
     (case mem_score_terms lower ix (sq_status_filter query) (sq_terms query) [] [] of
        None \<Rightarrow> None
      | Some scores \<Rightarrow> map_option (sort_key result_key) (mem_results ix scores))"

section \<open>What a search promises\<close>

text \<open>
  The contract of both indexes, over the concepts they hold (one per path): a visible concept is a
  result exactly when it contains one of the lowercased terms, its score is the sum over the distinct
  terms it contains, the corpus statistics count hidden concepts too, and results are ordered by
  falling score and rising path.
\<close>

type_synonym corpus = "concept list"

definition corpus_remove :: "rstring \<Rightarrow> corpus \<Rightarrow> corpus" where
  "corpus_remove path C = filter (\<lambda>d. co_source_path d \<noteq> path) C"

definition corpus_add :: "concept \<Rightarrow> corpus \<Rightarrow> corpus" where
  "corpus_add c C = corpus_remove (co_source_path c) C @ [c]"

definition query_tokens :: "(rstring \<Rightarrow> rstring) \<Rightarrow> search_query \<Rightarrow> rstring set" where
  "query_tokens lower q = lower ` set (sq_terms q)"

definition corpus_df :: "(rstring \<Rightarrow> rstring) \<Rightarrow> corpus \<Rightarrow> rstring \<Rightarrow> nat" where
  "corpus_df lower C t = length (filter (\<lambda>c. t \<in> set (doc_tokens lower c)) C)"

definition corpus_avgdl :: "(rstring \<Rightarrow> rstring) \<Rightarrow> corpus \<Rightarrow> real" where
  "corpus_avgdl lower C =
     (if C = [] then 0 else real (sum_list (map (\<lambda>c. length (doc_tokens lower c)) C)) / real (length C))"

definition term_score :: "(rstring \<Rightarrow> rstring) \<Rightarrow> corpus \<Rightarrow> concept \<Rightarrow> rstring \<Rightarrow> real" where
  "term_score lower C c t =
     bm25_score default_bm25 (length C) (corpus_df lower C t) (count_list (doc_tokens lower c) t)
       (length (doc_tokens lower c)) (corpus_avgdl lower C)"

definition visible :: "status_filter \<Rightarrow> concept \<Rightarrow> bool" where
  "visible filt c \<longleftrightarrow> filt = All \<or> is_active_status (fm_status (co_frontmatter c))"

definition hit :: "(rstring \<Rightarrow> rstring) \<Rightarrow> corpus \<Rightarrow> search_query \<Rightarrow> concept \<Rightarrow> search_result" where
  "hit lower C q c = \<lparr>sr_concept_path = co_source_path c, sr_title = concept_title c, sr_snippet = snippet_of (co_body c),
     sr_score = (\<Sum>t \<in> query_tokens lower q \<inter> set (doc_tokens lower c). term_score lower C c t)\<rparr>"

definition corpus_search :: "(rstring \<Rightarrow> rstring) \<Rightarrow> corpus \<Rightarrow> search_query \<Rightarrow> search_result list" where
  "corpus_search lower C q =
     sort_key result_key (map (hit lower C q)
       (filter (\<lambda>c. visible (sq_status_filter q) c \<and> query_tokens lower q \<inter> set (doc_tokens lower c) \<noteq> {}) C))"

text \<open>One concept per path, and no token list too long for a 32-bit counter.\<close>

definition corpus_ok :: "(rstring \<Rightarrow> rstring) \<Rightarrow> corpus \<Rightarrow> bool" where
  "corpus_ok lower C \<longleftrightarrow>
     distinct (map co_source_path C) \<and> list_all (\<lambda>c. length (doc_tokens lower c) < 2 ^ 32) C"

lemma corpus_ok_remove: "corpus_ok lower C \<Longrightarrow> corpus_ok lower (corpus_remove p C)"
  by (auto simp: corpus_ok_def corpus_remove_def distinct_map_filter list_all_iff)

lemma corpus_ok_add:
  "corpus_ok lower C \<Longrightarrow> length (doc_tokens lower c) < 2 ^ 32 \<Longrightarrow> corpus_ok lower (corpus_add c C)"
  using corpus_ok_remove [of lower C "co_source_path c"]
  by (auto simp: corpus_ok_def corpus_add_def corpus_remove_def)

text \<open>A list of results with one entry per path is determined by its set once it is sorted.\<close>

lemma sort_results_cong:
  assumes "set xs = set ys" "distinct (map sr_concept_path xs)" "distinct (map sr_concept_path ys)"
  shows "sort_key result_key xs = sort_key result_key ys"
proof -
  have "mset xs = mset ys"
    using assms set_eq_iff_mset_eq_distinct [of xs ys] by (simp add: distinct_map)
  then have "mset (sort_key result_key ys) = mset xs" by simp
  moreover have "inj_on result_key (set xs)"
    using assms(2) by (auto simp: inj_on_def result_key_def distinct_map)
  ultimately show ?thesis
    by (metis mset_sort set_mset_mset sort_key_inj_key_eq sorted_sort_key)
qed

text \<open>A concept at a path of the corpus.\<close>

definition concept_at :: "corpus \<Rightarrow> rstring \<Rightarrow> concept option" where
  "concept_at C path = find (\<lambda>c. co_source_path c = path) C"

lemma concept_at_Some:
  assumes "distinct (map co_source_path C)"
  shows "concept_at C path = Some c \<longleftrightarrow> c \<in> set C \<and> co_source_path c = path"
  using assms by (induction C) (auto simp: concept_at_def)

lemma concept_at_None: "concept_at C path = None \<longleftrightarrow> path \<notin> co_source_path ` set C"
  by (auto simp: concept_at_def find_None_iff)

lemma concept_at_remove:
  "concept_at (corpus_remove p C) path = (if path = p then None else concept_at C path)"
  by (induction C) (auto simp: concept_at_def corpus_remove_def)

lemma concept_at_add:
  "concept_at (corpus_add c C) path = (if path = co_source_path c then Some c else concept_at C path)"
  by (induction C) (auto simp: corpus_add_def corpus_remove_def concept_at_def)

section \<open>The scorer\<close>

text \<open>The score of a term in a document that contains it.  When the document frequency counts
  documents of the corpus, the score is positive and stays below the saturation bound; it grows with
  the number of occurrences and falls with the length of the document, so a term never counts against
  a document that contains it.\<close>
theorem bm25_score_monotone:
  assumes "0 < df" "df \<le> n" "0 < tf" "0 \<le> avgdl"
  shows "0 < bm25_score default_bm25 n df tf len avgdl
    \<and> bm25_score default_bm25 n df tf len avgdl
        \<le> ln ((real n - real df + 1 / 2) / (real df + 1 / 2) + 1) * (11 / 5)
    \<and> bm25_score default_bm25 n df tf len avgdl < bm25_score default_bm25 n df (tf + k + 1) len avgdl
    \<and> bm25_score default_bm25 n df tf (len + k) avgdl \<le> bm25_score default_bm25 n df tf len avgdl"
proof -
  define idf where "idf = ln ((real n - real df + 1 / 2) / (real df + 1 / 2) + 1)"
  define w where "w m = (6 / 5 :: real) * (1 / 4 + 3 / 4 * (if avgdl = 0 then 1 else real m / avgdl))" for m :: nat
  have "0 < (real n - real df + 1 / 2) / (real df + 1 / 2)" using assms(1,2) by (simp add: add_nonneg_pos)
  then have idf: "0 < idf" unfolding idf_def by (intro ln_gt_zero) simp
  have w: "0 < w m" for m using assms(4) by (simp add: w_def add_pos_nonneg)
  have wmono: "w len \<le> w (len + k)" using assms(4) by (simp add: w_def divide_right_mono)
  define g where "g t m = real t * (11 / 5) / (real t + w m)" for t m
  have score: "bm25_score default_bm25 n df t m avgdl = idf * g t m" for t m
    using assms(1) by (simp add: bm25_score_def default_bm25_def idf_def w_def g_def Let_def)
  have tf: "0 < real tf" using assms(3) by simp
  have pos: "0 < real tf + w m" for m using tf w [of m] by simp
  have g: "0 < g tf len" using tf pos [of len] by (simp add: g_def)
  have "g tf len \<le> 11 / 5"
    using tf w [of len] pos [of len] by (simp add: g_def pos_divide_le_eq)
  moreover have "g tf len < g (tf + k + 1) len"
    using tf w [of len] by (simp add: g_def divide_simps add_pos_pos) (simp add: algebra_simps add_pos_nonneg)
  moreover have "g tf (len + k) \<le> g tf len"
    unfolding g_def using tf w wmono pos [of len] by (intro divide_left_mono) (auto intro!: mult_pos_pos add_pos_pos)
  ultimately show ?thesis
    using idf g unfolding score idf_def [symmetric] by (simp only: mult_pos_pos mult_left_mono mult_strict_left_mono less_imp_le)
qed

theorem bm25_score_monotone_witness:
  "0 < bm25_score default_bm25 3 2 1 40 20
    \<and> bm25_score default_bm25 3 2 1 40 20 \<le> ln ((real 3 - real 2 + 1 / 2) / (real 2 + 1 / 2) + 1) * (11 / 5)
    \<and> bm25_score default_bm25 3 2 1 40 20 < bm25_score default_bm25 3 2 (1 + 4 + 1) 40 20
    \<and> bm25_score default_bm25 3 2 1 (40 + 4) 20 \<le> bm25_score default_bm25 3 2 1 40 20"
  by (rule bm25_score_monotone) simp_all

section \<open>The in-memory index keeps its contract\<close>

text \<open>What the postings say of a token and a path.\<close>

definition posting_of :: "in_memory_index \<Rightarrow> rstring \<Rightarrow> (rstring \<times> nat) list" where
  "posting_of ix t = (case map_of (im_postings ix) t of Some p \<Rightarrow> p | None \<Rightarrow> [])"

text \<open>
  Postings as a function: \<open>P\<close> maps a token to the occurrences per path.  Every list has one entry
  per path and no empty entry.
\<close>

definition postings_are :: "(rstring \<times> (rstring \<times> nat) list) list \<Rightarrow> (rstring \<Rightarrow> rstring \<Rightarrow> nat) \<Rightarrow> bool" where
  "postings_are ps f \<longleftrightarrow>
     distinct (map fst ps) \<and> (\<forall>(t, p) \<in> set ps. distinct (map fst p)) \<and>
     (\<forall>t path. map_of (case map_of ps t of Some p \<Rightarrow> p | None \<Rightarrow> []) path = (if f t path = 0 then None else Some (f t path)))"

lemma map_of_map_snd: "map_of (map (\<lambda>(t, p). (t, g p)) ps) t = map_option g (map_of ps t)"
  by (induction ps) auto

lemma postings_are_strip:
  assumes "postings_are ps f"
  shows "postings_are (strip_path path ps) (\<lambda>t q. if q = path then 0 else f t q)"
proof -
  let ?ps = "map (\<lambda>(t, p). (t, AList.delete path p)) ps"
  have keys: "map fst ?ps = map fst ps" by (simp add: case_prod_beta comp_def)
  have d: "distinct (map fst ps)" using assms by (simp add: postings_are_def)
  then have "distinct (map fst (strip_path path ps))"
    unfolding strip_path_def by (intro distinct_map_filter) (simp only: keys)
  moreover have "\<forall>(t, p) \<in> set (strip_path path ps). distinct (map fst p)"
    using assms by (auto simp: strip_path_def postings_are_def distinct_delete)
  moreover have "map_of (case map_of (strip_path path ps) t of Some p \<Rightarrow> p | None \<Rightarrow> []) q =
      map_of (case map_of ?ps t of Some p \<Rightarrow> p | None \<Rightarrow> []) q" for t q
  proof -
    have "map_of (strip_path path ps) t = (case map_of ?ps t of Some p \<Rightarrow> if p = [] then None else Some p | None \<Rightarrow> None)"
      unfolding strip_path_def using d
      by (induction ps) (auto simp: map_of_map_snd split: option.splits dest!: map_of_SomeD, force)
    then show ?thesis by (simp split: option.split)
  qed
  moreover have "map_of (case map_of ?ps t of Some p \<Rightarrow> p | None \<Rightarrow> []) q =
      (if q = path then None else map_of (case map_of ps t of Some p \<Rightarrow> p | None \<Rightarrow> []) q)" for t q
    by (simp add: map_of_map_snd delete_conv split: option.split)
  ultimately show ?thesis using assms by (simp add: postings_are_def)
qed

lemma postings_are_bump:
  assumes "postings_are ps f" "f token path + 1 < 2 ^ 32"
  shows "postings_are (bump_posting path token ps) (\<lambda>t q. if t = token \<and> q = path then f t q + 1 else f t q)"
proof -
  let ?p = "case map_of ps token of Some p \<Rightarrow> p | None \<Rightarrow> []"
  have n: "(case map_of ?p path of Some n \<Rightarrow> n | None \<Rightarrow> 0) = f token path"
    using assms(1) by (simp add: postings_are_def)
  have b: "bump_posting path token ps = AList.update token (AList.update path (f token path + 1) ?p) ps"
    using n assms(2) by (simp add: bump_posting_def Let_def)
  have dp: "distinct (map fst ?p)"
    using assms(1) by (auto simp: postings_are_def split: option.split dest!: map_of_SomeD)
  have "distinct (map fst (bump_posting path token ps))"
    using assms(1) by (simp add: b postings_are_def distinct_update)
  moreover have "\<forall>(t, p) \<in> set (bump_posting path token ps). distinct (map fst p)"
  proof clarify
    fix t p assume tp: "(t, p) \<in> set (bump_posting path token ps)"
    have "set (bump_posting path token ps) \<subseteq> insert (token, AList.update path (f token path + 1) ?p) (set ps)"
      unfolding b by (induction ps) auto
    with tp show "distinct (map fst p)"
      using assms(1) distinct_update [OF dp, of path "f token path + 1"] by (auto simp: postings_are_def)
  qed
  moreover have "map_of (case map_of (bump_posting path token ps) t of Some p \<Rightarrow> p | None \<Rightarrow> []) q =
      (if t = token \<and> q = path then Some (f t q + 1) else if f t q = 0 then None else Some (f t q))" for t q
    using assms(1) by (auto simp: b update_conv' postings_are_def)
  ultimately show ?thesis by (auto simp: postings_are_def)
qed

lemma postings_are_fold:
  assumes "postings_are ps f" "\<And>t. f t path + count_list ts t < 2 ^ 32"
  shows "postings_are (fold (bump_posting path) ts ps) (\<lambda>t q. if q = path then f t q + count_list ts t else f t q)"
  using assms
proof (induction ts arbitrary: ps f)
  case (Cons x ts)
  have "f x path + 1 < 2 ^ 32" using Cons.prems(2) [of x] by simp
  from postings_are_bump [OF Cons.prems(1) this]
  have "postings_are (bump_posting path x ps) (\<lambda>t q. if t = x \<and> q = path then f t q + 1 else f t q)" .
  from Cons.IH [OF this] Cons.prems(2)
  have "postings_are (fold (bump_posting path) (x # ts) ps)
    (\<lambda>t q. if q = path then (if t = x \<and> q = path then f t q + 1 else f t q) + count_list ts t
       else if t = x \<and> q = path then f t q + 1 else f t q)" by (fastforce split: if_splits)
  moreover have "(\<lambda>t q. if q = path then (if t = x \<and> q = path then f t q + 1 else f t q) + count_list ts t
       else if t = x \<and> q = path then f t q + 1 else f t q)
    = (\<lambda>t q. if q = path then f t q + count_list (x # ts) t else f t q)"
    by (auto simp: fun_eq_iff)
  ultimately show ?case by simp
qed (simp add: postings_are_def)

text \<open>The index holds a corpus.\<close>

definition mem_holds :: "(rstring \<Rightarrow> rstring) \<Rightarrow> corpus \<Rightarrow> in_memory_index \<Rightarrow> bool" where
  "mem_holds lower C ix \<longleftrightarrow>
     distinct (map fst (im_docs ix)) \<and>
     (\<forall>path. map_of (im_docs ix) path = map_option (concept_meta lower) (concept_at C path)) \<and>
     postings_are (im_postings ix)
       (\<lambda>t path. case concept_at C path of Some c \<Rightarrow> count_list (doc_tokens lower c) t | None \<Rightarrow> 0)"

lemma mem_holds_new: "mem_holds lower [] new_index"
  by (simp add: mem_holds_def new_index_def postings_are_def concept_at_def)

lemma mem_holds_add:
  assumes "mem_holds lower C ix" "length (doc_tokens lower c) < 2 ^ 32"
  shows "mem_holds lower (corpus_add c C) (mem_add lower c ix)"
proof -
  let ?path = "co_source_path c"
  let ?f = "\<lambda>t path. case concept_at C path of Some c \<Rightarrow> count_list (doc_tokens lower c) t | None \<Rightarrow> 0"
  have "postings_are (strip_path ?path (im_postings ix)) (\<lambda>t q. if q = ?path then 0 else ?f t q)"
    using assms(1) by (intro postings_are_strip) (simp add: mem_holds_def)
  moreover have "count_list (doc_tokens lower c) t < 2 ^ 32" for t
    using count_le_length [of "doc_tokens lower c" t] assms(2) by linarith
  ultimately have "postings_are (im_postings (mem_add lower c ix))
    (\<lambda>t q. if q = ?path then 0 + count_list (doc_tokens lower c) t else ?f t q)"
    using postings_are_fold [of "strip_path ?path (im_postings ix)" "\<lambda>t q. if q = ?path then 0 else ?f t q" ?path "doc_tokens lower c"]
    by (simp add: mem_add_def if_distrib [where f = "\<lambda>n. n + _"] cong: if_cong)
  moreover have "(\<lambda>t q. if q = ?path then 0 + count_list (doc_tokens lower c) t else ?f t q)
      = (\<lambda>t path. case concept_at (corpus_add c C) path of Some c \<Rightarrow> count_list (doc_tokens lower c) t | None \<Rightarrow> 0)"
    by (auto simp: fun_eq_iff concept_at_add)
  ultimately show ?thesis
    using assms(1) by (auto simp: mem_holds_def mem_add_def distinct_update update_conv' concept_at_add)
qed

lemma mem_holds_docs:
  assumes "mem_holds lower C ix" "corpus_ok lower C"
  shows "length (im_docs ix) = length C" "mem_avgdl ix = corpus_avgdl lower C"
proof -
  have d: "distinct (map fst (im_docs ix))" "distinct (map co_source_path C)"
    using assms by (simp_all add: mem_holds_def corpus_ok_def)
  have "set (im_docs ix) = set (map (\<lambda>c. (co_source_path c, concept_meta lower c)) C)"
  proof -
    have "(p, m) \<in> set (im_docs ix) \<longleftrightarrow> (\<exists>c. concept_at C p = Some c \<and> m = concept_meta lower c)" for p m
      using assms(1) d(1) map_of_eq_Some_iff [OF d(1), of p m] by (auto simp: mem_holds_def)
    then have "(p, m) \<in> set (im_docs ix) \<longleftrightarrow> (\<exists>c \<in> set C. p = co_source_path c \<and> m = concept_meta lower c)" for p m
      using concept_at_Some [OF d(2)] by auto
    then show ?thesis by auto
  qed
  moreover have "distinct (im_docs ix)" "distinct (map (\<lambda>c. (co_source_path c, concept_meta lower c)) C)"
    using d by (auto simp: distinct_map inj_on_def)
  ultimately have m: "mset (im_docs ix) = mset (map (\<lambda>c. (co_source_path c, concept_meta lower c)) C)"
    by (simp only: set_eq_iff_mset_eq_distinct)
  then show len: "length (im_docs ix) = length C"
    by (metis length_map size_mset)
  have "mset (map (\<lambda>(p, d). dm_length d) (im_docs ix)) = mset (map (\<lambda>c. length (doc_tokens lower c) mod 2 ^ 32) C)"
    using arg_cong [OF m, of "image_mset (\<lambda>(p, d). dm_length d)"]
    by (simp add: image_mset.compositionality comp_def concept_meta_def)
  also have "map (\<lambda>c. length (doc_tokens lower c) mod 2 ^ 32) C = map (\<lambda>c. length (doc_tokens lower c)) C"
    using assms(2) by (simp add: corpus_ok_def list_all_iff)
  finally have "sum_list (map (\<lambda>(p, d). dm_length d) (im_docs ix)) = sum_list (map (\<lambda>c. length (doc_tokens lower c)) C)"
    by (metis sum_mset_sum_list)
  moreover have "im_docs ix = [] \<longleftrightarrow> C = []" using len by (metis length_0_conv)
  ultimately show "mem_avgdl ix = corpus_avgdl lower C"
    using len by (simp add: mem_avgdl_def corpus_avgdl_def)
qed

lemma map_of_add_score:
  "map_of (add_score path x sc) q =
     (if q = path then Some ((case map_of sc path of Some s \<Rightarrow> s | None \<Rightarrow> 0) + x) else map_of sc q)"
  by (simp add: add_score_def update_conv')

lemma distinct_add_score: "distinct (map fst sc) \<Longrightarrow> distinct (map fst (add_score path x sc))"
  by (simp add: add_score_def distinct_update)

lemma mem_score_posting_value:
  assumes "mem_holds lower C ix" "distinct (map fst es)" "\<forall>p \<in> fst ` set es. concept_at C p \<noteq> None"
    and "distinct (map fst sc)"
  shows "\<exists>sc'. mem_score_posting ix filt df es sc = Some sc' \<and> distinct (map fst sc') \<and>
    (\<forall>q. map_of sc' q =
       (case (map_of es q, concept_at C q) of
          (Some tf, Some c) \<Rightarrow>
            if visible filt c
            then Some ((case map_of sc q of Some s \<Rightarrow> s | None \<Rightarrow> 0)
              + bm25_score default_bm25 (length (im_docs ix)) df tf (length (doc_tokens lower c) mod 2 ^ 32) (mem_avgdl ix))
            else map_of sc q
        | _ \<Rightarrow> map_of sc q))"
  using assms(2-)
proof (induction es arbitrary: sc)
  case (Cons e es)
  obtain p tf where e: "e = (p, tf)" by (cases e)
  from Cons.prems(2) e obtain c where c: "concept_at C p = Some c" by auto
  then have doc: "map_of (im_docs ix) p = Some (concept_meta lower c)"
    using assms(1) by (simp add: mem_holds_def)
  let ?sc = "if visible filt c then add_score p (bm25_score default_bm25 (length (im_docs ix)) df tf
      (length (doc_tokens lower c) mod 2 ^ 32) (mem_avgdl ix)) sc else sc"
  have step: "mem_score_posting ix filt df (e # es) sc = mem_score_posting ix filt df es ?sc"
    by (cases filt) (auto simp: e doc visible_def concept_meta_def)
  have d: "distinct (map fst es)" "\<forall>p \<in> fst ` set es. concept_at C p \<noteq> None" "distinct (map fst ?sc)"
    using Cons.prems distinct_add_score by auto
  from Cons.IH [OF d] obtain sc' where sc': "mem_score_posting ix filt df es ?sc = Some sc'" "distinct (map fst sc')"
    and v: "\<forall>q. map_of sc' q =
       (case (map_of es q, concept_at C q) of
          (Some tf, Some c) \<Rightarrow>
            if visible filt c
            then Some ((case map_of ?sc q of Some s \<Rightarrow> s | None \<Rightarrow> 0)
              + bm25_score default_bm25 (length (im_docs ix)) df tf (length (doc_tokens lower c) mod 2 ^ 32) (mem_avgdl ix))
            else map_of ?sc q
        | _ \<Rightarrow> map_of ?sc q)" by blast
  have "map_of es p = None" using Cons.prems(1) e by (simp add: map_of_eq_None_iff)
  then have "map_of sc' q =
       (case (map_of (e # es) q, concept_at C q) of
          (Some tf, Some c) \<Rightarrow>
            if visible filt c
            then Some ((case map_of sc q of Some s \<Rightarrow> s | None \<Rightarrow> 0)
              + bm25_score default_bm25 (length (im_docs ix)) df tf (length (doc_tokens lower c) mod 2 ^ 32) (mem_avgdl ix))
            else map_of sc q
        | _ \<Rightarrow> map_of sc q)" for q
    using v by (cases "q = p") (simp_all add: e c map_of_add_score split: option.split)
  with sc' step show ?case by auto
qed (simp split: option.split)

text \<open>The scores after the tokens of \<open>S\<close>.\<close>

definition scores_are :: "(rstring \<Rightarrow> rstring) \<Rightarrow> corpus \<Rightarrow> status_filter \<Rightarrow> rstring set \<Rightarrow> (rstring \<times> real) list \<Rightarrow> bool" where
  "scores_are lower C filt S sc \<longleftrightarrow> distinct (map fst sc) \<and>
     (\<forall>q. map_of sc q = (case concept_at C q of None \<Rightarrow> None | Some c \<Rightarrow>
        if visible filt c \<and> S \<inter> set (doc_tokens lower c) \<noteq> {}
        then Some (\<Sum>t \<in> S \<inter> set (doc_tokens lower c). term_score lower C c t) else None))"

lemma posting_length:
  assumes "distinct (map co_source_path C)" "distinct (map fst p)"
    and "\<forall>q. map_of p q = (case concept_at C q of Some c \<Rightarrow>
      (if count_list (doc_tokens lower c) t = 0 then None else Some (count_list (doc_tokens lower c) t)) | None \<Rightarrow> None)"
  shows "length p = corpus_df lower C t"
proof -
  let ?D = "filter (\<lambda>c. t \<in> set (doc_tokens lower c)) C"
  have "q \<in> fst ` set p \<longleftrightarrow> q \<in> co_source_path ` set ?D" for q
  proof -
    have "q \<in> fst ` set p \<longleftrightarrow> map_of p q \<noteq> None" by (simp add: map_of_eq_None_iff)
    also have "\<dots> \<longleftrightarrow> (\<exists>c. concept_at C q = Some c \<and> t \<in> set (doc_tokens lower c))"
      using assms(3) by (simp add: count_list_0_iff split: option.split)
    finally show ?thesis using concept_at_Some [OF assms(1)] by auto
  qed
  then have "set (map fst p) = set (map co_source_path ?D)" by auto
  moreover have "distinct (map co_source_path ?D)" using assms(1) by (simp add: distinct_map_filter)
  ultimately have "length (map fst p) = length (map co_source_path ?D)"
    using assms(2) distinct_card by metis
  then show ?thesis by (simp add: corpus_df_def)
qed

lemma mem_score_token:
  assumes "mem_holds lower C ix" "corpus_ok lower C" "scores_are lower C filt S sc" "finite S" "t \<notin> S"
  shows "\<exists>sc'. (case map_of (im_postings ix) t of None \<Rightarrow> Some sc
      | Some docs \<Rightarrow> mem_score_posting ix filt (length docs) docs sc) = Some sc' \<and> scores_are lower C filt (insert t S) sc'"
proof -
  let ?f = "\<lambda>t path. case concept_at C path of Some c \<Rightarrow> count_list (doc_tokens lower c) t | None \<Rightarrow> 0"
  have ps: "postings_are (im_postings ix) ?f" using assms(1) by (simp add: mem_holds_def)
  have dC: "distinct (map co_source_path C)" using assms(2) by (simp add: corpus_ok_def)
  let ?p = "case map_of (im_postings ix) t of Some p \<Rightarrow> p | None \<Rightarrow> []"
  have p: "\<forall>q. map_of ?p q = (case concept_at C q of Some c \<Rightarrow>
      (if count_list (doc_tokens lower c) t = 0 then None else Some (count_list (doc_tokens lower c) t)) | None \<Rightarrow> None)"
    using ps by (auto simp: postings_are_def split: option.split)
  have dp: "distinct (map fst ?p)"
    using ps by (auto simp: postings_are_def split: option.split dest!: map_of_SomeD)
  have df: "length ?p = corpus_df lower C t" using posting_length [OF dC dp p] .
  have at: "\<forall>q \<in> fst ` set ?p. concept_at C q \<noteq> None"
  proof
    fix q assume "q \<in> fst ` set ?p"
    then have "map_of ?p q \<noteq> None" by (simp add: map_of_eq_None_iff)
    with p show "concept_at C q \<noteq> None" by (auto split: option.splits)
  qed
  have dsc: "distinct (map fst sc)" using assms(3) by (simp add: scores_are_def)
  from mem_score_posting_value [OF assms(1) dp at dsc, of filt "length ?p"]
  obtain sc' where sc': "mem_score_posting ix filt (length ?p) ?p sc = Some sc'" "distinct (map fst sc')"
    and v: "\<forall>q. map_of sc' q =
       (case (map_of ?p q, concept_at C q) of
          (Some tf, Some c) \<Rightarrow>
            if visible filt c
            then Some ((case map_of sc q of Some s \<Rightarrow> s | None \<Rightarrow> 0)
              + bm25_score default_bm25 (length (im_docs ix)) (length ?p) tf (length (doc_tokens lower c) mod 2 ^ 32) (mem_avgdl ix))
            else map_of sc q
        | _ \<Rightarrow> map_of sc q)" by blast
  have same: "(case map_of (im_postings ix) t of None \<Rightarrow> Some sc
      | Some docs \<Rightarrow> mem_score_posting ix filt (length docs) docs sc) = Some sc'"
    using sc'(1) by (simp split: option.splits)
  have "map_of sc' q = (case concept_at C q of None \<Rightarrow> None | Some c \<Rightarrow>
        if visible filt c \<and> insert t S \<inter> set (doc_tokens lower c) \<noteq> {}
        then Some (\<Sum>t \<in> insert t S \<inter> set (doc_tokens lower c). term_score lower C c t) else None)" for q
  proof (cases "concept_at C q")
    case None
    then show ?thesis using v assms(3) by (simp add: scores_are_def split: option.split)
  next
    case (Some c)
    then have "c \<in> set C" using concept_at_Some [OF dC] by blast
    then have small: "length (doc_tokens lower c) mod 2 ^ 32 = length (doc_tokens lower c)"
      using assms(2) by (simp add: corpus_ok_def list_all_iff)
    have old: "map_of sc q = (if visible filt c \<and> S \<inter> set (doc_tokens lower c) \<noteq> {}
        then Some (\<Sum>t \<in> S \<inter> set (doc_tokens lower c). term_score lower C c t) else None)"
      using assms(3) Some by (simp add: scores_are_def)
    show ?thesis
    proof (cases "t \<in> set (doc_tokens lower c)")
      case True
      then have "map_of ?p q = Some (count_list (doc_tokens lower c) t)"
        using p Some by (simp add: count_list_0_iff)
      then have "map_of sc' q = (if visible filt c then
          Some ((case map_of sc q of Some s \<Rightarrow> s | None \<Rightarrow> 0) + term_score lower C c t) else map_of sc q)"
        using v Some small mem_holds_docs [OF assms(1,2)] df by (simp add: term_score_def)
      moreover have "(\<Sum>t \<in> insert t S \<inter> set (doc_tokens lower c). term_score lower C c t)
          = term_score lower C c t + (\<Sum>t \<in> S \<inter> set (doc_tokens lower c). term_score lower C c t)"
        using True assms(4,5) by (simp add: Int_insert_left)
      ultimately show ?thesis using Some old True by auto
    next
      case False
      then have "map_of ?p q = None" using p Some by (simp add: count_list_0_iff)
      then have "map_of sc' q = map_of sc q" using v by simp
      with False old Some show ?thesis by simp
    qed
  qed
  with same sc'(2) show ?thesis by (auto simp: scores_are_def)
qed

lemma mem_score_terms_value:
  assumes "mem_holds lower C ix" "corpus_ok lower C" "scores_are lower C filt (set seen) sc"
  shows "\<exists>sc'. mem_score_terms lower ix filt terms seen sc = Some sc' \<and>
    scores_are lower C filt (set seen \<union> lower ` set terms) sc'"
  using assms(3)
proof (induction terms arbitrary: seen sc)
  case (Cons x terms)
  show ?case
  proof (cases "lower x \<in> set seen")
    case True
    with Cons show ?thesis by (auto simp: insert_absorb)
  next
    case False
    from mem_score_token [OF assms(1,2) Cons.prems _ False]
    obtain sc1 where sc1: "(case map_of (im_postings ix) (lower x) of None \<Rightarrow> Some sc
      | Some docs \<Rightarrow> mem_score_posting ix filt (length docs) docs sc) = Some sc1"
      "scores_are lower C filt (set (lower x # seen)) sc1" by auto
    then have "mem_score_terms lower ix filt (x # terms) seen sc = mem_score_terms lower ix filt terms (lower x # seen) sc1"
      using False by (auto simp: Let_def split: option.splits)
    with Cons.IH [OF sc1(2)] show ?thesis by auto
  qed
qed simp

lemma mem_results_value:
  assumes "\<forall>p \<in> fst ` set sc. map_of (im_docs ix) p \<noteq> None"
  shows "mem_results ix sc = Some (map (\<lambda>(p, x). let doc = the (map_of (im_docs ix) p) in
    \<lparr>sr_concept_path = p, sr_title = dm_title doc, sr_snippet = snippet_of (dm_body doc), sr_score = x\<rparr>) sc)"
  using assms by (induction sc) (auto simp: Let_def)

lemma mem_search_corpus:
  assumes "mem_holds lower C ix" "corpus_ok lower C"
  shows "mem_search lower ix q = Some (corpus_search lower C q)"
proof -
  let ?T = "query_tokens lower q" and ?filt = "sq_status_filter q"
  have dC: "distinct (map co_source_path C)" using assms(2) by (simp add: corpus_ok_def)
  have "scores_are lower C ?filt (set []) []" by (simp add: scores_are_def split: option.split)
  from mem_score_terms_value [OF assms this, of "sq_terms q"]
  obtain sc where sc: "mem_score_terms lower ix ?filt (sq_terms q) [] [] = Some sc" "scores_are lower C ?filt ?T sc"
    by (auto simp: query_tokens_def)
  have docs: "map_of (im_docs ix) p = map_option (concept_meta lower) (concept_at C p)" for p
    using assms(1) by (simp add: mem_holds_def)
  have dsc: "distinct (map fst sc)" using sc(2) by (simp add: scores_are_def)
  define S where "S = filter (\<lambda>c. visible ?filt c \<and> ?T \<inter> set (doc_tokens lower c) \<noteq> {}) C"
  have mem: "(p, x) \<in> set sc \<longleftrightarrow> (\<exists>c \<in> set S. p = co_source_path c \<and> x = sr_score (hit lower C q c))" for p x
  proof -
    have "(p, x) \<in> set sc \<longleftrightarrow> map_of sc p = Some x" using map_of_eq_Some_iff [OF dsc] by simp
    also have "\<dots> \<longleftrightarrow> (\<exists>c. concept_at C p = Some c \<and> c \<in> set S \<and> x = sr_score (hit lower C q c))"
    proof (cases "concept_at C p")
      case None
      then show ?thesis using sc(2) by (simp add: scores_are_def)
    next
      case (Some c)
      then have "c \<in> set C" using concept_at_Some [OF dC] by blast
      then show ?thesis using sc(2) Some by (auto simp: scores_are_def S_def hit_def)
    qed
    finally show ?thesis using concept_at_Some [OF dC, of p] by (auto simp: S_def)
  qed
  let ?rs = "map (\<lambda>(p, x). let doc = the (map_of (im_docs ix) p) in
    \<lparr>sr_concept_path = p, sr_title = dm_title doc, sr_snippet = snippet_of (dm_body doc), sr_score = x\<rparr>) sc"
  have at: "concept_at C (co_source_path c) = Some c" if "c \<in> set S" for c
    using that concept_at_Some [OF dC] by (auto simp: S_def)
  have "\<forall>p \<in> fst ` set sc. map_of (im_docs ix) p \<noteq> None"
    using mem at docs by fastforce
  from mem_results_value [OF this] have res: "mem_results ix sc = Some ?rs" .
  have row: "(let doc = the (map_of (im_docs ix) (co_source_path c)) in
      \<lparr>sr_concept_path = co_source_path c, sr_title = dm_title doc, sr_snippet = snippet_of (dm_body doc),
        sr_score = sr_score (hit lower C q c)\<rparr>) = hit lower C q c" if "c \<in> set S" for c
    using at [OF that] by (simp add: docs concept_meta_def hit_def)
  have "set ?rs = hit lower C q ` set S"
  proof (intro set_eqI iffI)
    fix r assume "r \<in> set ?rs"
    then obtain p x where px: "(p, x) \<in> set sc" and r: "r = (let doc = the (map_of (im_docs ix) p) in
      \<lparr>sr_concept_path = p, sr_title = dm_title doc, sr_snippet = snippet_of (dm_body doc), sr_score = x\<rparr>)"
      by auto
    then show "r \<in> hit lower C q ` set S" using mem row by auto
  next
    fix r assume "r \<in> hit lower C q ` set S"
    then obtain c where c: "c \<in> set S" "r = hit lower C q c" by auto
    then have "(co_source_path c, sr_score (hit lower C q c)) \<in> set sc" using mem by auto
    then show "r \<in> set ?rs" using row [OF c(1)] c(2) by (auto simp: image_iff intro!: bexI)
  qed
  moreover have "map sr_concept_path ?rs = map fst sc" by (simp add: Let_def case_prod_beta)
  then have "distinct (map sr_concept_path ?rs)" using dsc by (simp only:)
  moreover have "map sr_concept_path (map (hit lower C q) S) = map co_source_path S" by (simp add: hit_def)
  then have "distinct (map sr_concept_path (map (hit lower C q) S))"
    unfolding S_def using dC by (simp only: distinct_map_filter)
  ultimately have "sort_key result_key ?rs = sort_key result_key (map (hit lower C q) S)"
    by (intro sort_results_cong) (simp_all only: set_map)
  then show ?thesis by (simp add: mem_search_def sc(1) res corpus_search_def S_def)
qed

section \<open>The contract as an interface\<close>

text \<open>
  The trait \<^verbatim>\<open>SearchIndex\<close>.  \<open>holds e C s\<close>: the index \<open>s\<close> of environment \<open>e\<close> holds the corpus
  \<open>C\<close>; \<open>fits\<close> is what an implementation asks of the corpus and the query; an addition takes what
  it draws at random as an argument and may fail.
\<close>

locale lexical_index =
  fixes lower_of :: "'e \<Rightarrow> rstring \<Rightarrow> rstring"
    and fits :: "'e \<Rightarrow> corpus \<Rightarrow> search_query \<Rightarrow> bool"
    and holds :: "'e \<Rightarrow> corpus \<Rightarrow> 's \<Rightarrow> bool"
    and add :: "'e \<Rightarrow> 'r \<Rightarrow> concept \<Rightarrow> 's \<Rightarrow> 's option"
    and query :: "'e \<Rightarrow> 's \<Rightarrow> search_query \<Rightarrow> search_result list option"
  assumes add_holds: "holds e C s \<Longrightarrow> length (doc_tokens (lower_of e) c) < 2 ^ 32 \<Longrightarrow> add e r c s = Some s' \<Longrightarrow>
      holds e (corpus_add c C) s'"
    and query_holds: "holds e C s \<Longrightarrow> corpus_ok (lower_of e) C \<Longrightarrow> fits e C q \<Longrightarrow>
      query e s q = Some (corpus_search (lower_of e) C q)"
begin

fun add_all :: "'e \<Rightarrow> ('r \<times> concept) list \<Rightarrow> 's \<Rightarrow> 's option" where
  "add_all e [] s = Some s"
| "add_all e ((r, c) # xs) s = (case add e r c s of Some s' \<Rightarrow> add_all e xs s' | None \<Rightarrow> None)"

lemma add_all_holds:
  assumes "holds e C s" "corpus_ok (lower_of e) C" "list_all (\<lambda>(r, c). length (doc_tokens (lower_of e) c) < 2 ^ 32) xs"
    and "add_all e xs s = Some s'"
  shows "holds e (fold corpus_add (map snd xs) C) s' \<and> corpus_ok (lower_of e) (fold corpus_add (map snd xs) C)"
  using assms
proof (induction xs arbitrary: s C)
  case (Cons x xs)
  obtain r c where x: "x = (r, c)" by (cases x)
  with Cons.prems obtain s1 where s1: "add e r c s = Some s1" "add_all e xs s1 = Some s'"
    by (auto split: option.splits)
  from Cons.prems x have len: "length (doc_tokens (lower_of e) c) < 2 ^ 32" by simp
  from Cons.IH [OF add_holds [OF Cons.prems(1) len s1(1)] corpus_ok_add [OF Cons.prems(2) len] _ s1(2)] Cons.prems(3)
  show ?case by (simp add: x)
qed simp

lemma query_after_adds:
  assumes "holds e [] s" "list_all (\<lambda>(r, c). length (doc_tokens (lower_of e) c) < 2 ^ 32) xs"
    and "add_all e xs s = Some s'" "fits e (fold corpus_add (map snd xs) []) q"
  shows "query e s' q = Some (corpus_search (lower_of e) (fold corpus_add (map snd xs) []) q)"
  using add_all_holds [OF assms(1) _ assms(2,3)] assms(4) query_holds by (simp add: corpus_ok_def)

end

definition mem_add_total :: "(rstring \<Rightarrow> rstring) \<Rightarrow> unit \<Rightarrow> concept \<Rightarrow> in_memory_index \<Rightarrow> in_memory_index option" where
  "mem_add_total lower u c ix = Some (mem_add lower c ix)"

interpretation mem_ix: lexical_index "\<lambda>lower. lower" "\<lambda>_ _ _. True" mem_holds mem_add_total mem_search
  by unfold_locales (auto simp: mem_add_total_def mem_holds_add mem_search_corpus)

lemma mem_index_after_adds:
  assumes "list_all (\<lambda>c. length (doc_tokens lower c) < 2 ^ 32) cs"
  shows "mem_search lower (fold (mem_add lower) cs new_index) q = Some (corpus_search lower (fold corpus_add cs []) q)"
proof -
  have "mem_ix.add_all lower (map (Pair ()) cs) s = Some (fold (mem_add lower) cs s)" for s
    by (induction cs arbitrary: s) (auto simp: mem_add_total_def)
  from mem_ix.query_after_adds [OF mem_holds_new _ this, of q] assms show ?thesis
    by (simp add: list_all_iff comp_def)
qed

text \<open>What every result of a search is: a visible concept of the corpus that contains a term.\<close>

lemma set_corpus_search:
  "set (corpus_search lower C q) =
     hit lower C q ` {c \<in> set C. visible (sq_status_filter q) c \<and> query_tokens lower q \<inter> set (doc_tokens lower c) \<noteq> {}}"
  by (auto simp: corpus_search_def)

lemma sorted_corpus_search: "sorted (map result_key (corpus_search lower C q))"
  by (simp add: corpus_search_def)

section \<open>Fusion\<close>

text \<open>The term of one pool: by position, nothing for an absent path.\<close>

definition pool_term :: "real \<Rightarrow> real \<Rightarrow> nat \<Rightarrow> (rstring \<times> real) list \<Rightarrow> rstring \<Rightarrow> real" where
  "pool_term w k rank pool path =
     (\<Sum>i < length pool. if fst (pool ! i) = path then w / (k + real (rank + i) + 1) else 0)"

lemma pool_term_Cons:
  "pool_term w k rank ((p, x) # pool) path = (if p = path then w / (k + real rank + 1) else 0) + pool_term w k (Suc rank) pool path"
  by (simp add: pool_term_def lessThan_Suc_eq_insert_0 sum.reindex zero_notin_Suc_image add_ac cong: if_cong)

lemma fuse_pool_value:
  "distinct (map fst sc) \<Longrightarrow> distinct (map fst (fuse_pool w k rank pool sc)) \<and>
   fst ` set (fuse_pool w k rank pool sc) = fst ` set sc \<union> fst ` set pool \<and>
   (\<forall>p. (case map_of (fuse_pool w k rank pool sc) p of Some s \<Rightarrow> s | None \<Rightarrow> 0) =
     (case map_of sc p of Some s \<Rightarrow> s | None \<Rightarrow> 0) + pool_term w k rank pool p)"
proof (induction pool arbitrary: rank sc)
  case (Cons x pool)
  obtain p y where x: "x = (p, y)" by (cases x)
  let ?sc = "add_score p (w / (k + real rank + 1)) sc"
  have "fst ` set ?sc = insert p (fst ` set sc)" by (simp add: add_score_def dom_update)
  with Cons.IH [OF distinct_add_score [OF Cons.prems, of p "w / (k + real rank + 1)"], of "Suc rank"] show ?case
    by (auto simp: x pool_term_Cons map_of_add_score)
qed (simp add: pool_term_def)

text \<open>Fusing two ranked pools.  The result lists every path of either pool once and nothing else;
  its score is the sum over the pools of weight over rank constant plus position (counted from one),
  a pool without the path adding nothing; and the list is ordered by falling score, ties by path.\<close>
theorem rrf_fuse_ranks:
  "distinct (map fst (rrf_fuse lp vp params))
   \<and> fst ` set (rrf_fuse lp vp params) = fst ` set lp \<union> fst ` set vp
   \<and> sorted (map (\<lambda>(path, s). (- s, path)) (rrf_fuse lp vp params))
   \<and> ((p, s) \<in> set (rrf_fuse lp vp params) \<longleftrightarrow>
       p \<in> fst ` set lp \<union> fst ` set vp \<and>
       s = (\<Sum>i < length lp. if fst (lp ! i) = p then rp_w_lex params / (rp_rrf_k params + real i + 1) else 0)
         + (\<Sum>i < length vp. if fst (vp ! i) = p then rp_w_vec params / (rp_rrf_k params + real i + 1) else 0))"
proof -
  let ?k = "rp_rrf_k params"
  define a where "a = fuse_pool (rp_w_lex params) ?k 0 lp []"
  define b where "b = fuse_pool (rp_w_vec params) ?k 0 vp a"
  have a: "distinct (map fst a)" "fst ` set a = fst ` set lp"
    "\<forall>p. (case map_of a p of Some s \<Rightarrow> s | None \<Rightarrow> 0) = pool_term (rp_w_lex params) ?k 0 lp p"
    using fuse_pool_value [of "[]" "rp_w_lex params" ?k 0 lp] by (simp_all add: a_def)
  have b: "distinct (map fst b)" "fst ` set b = fst ` set lp \<union> fst ` set vp"
    "\<forall>p. (case map_of b p of Some s \<Rightarrow> s | None \<Rightarrow> 0) =
       pool_term (rp_w_lex params) ?k 0 lp p + pool_term (rp_w_vec params) ?k 0 vp p"
    using fuse_pool_value [OF a(1), of "rp_w_vec params" ?k 0 vp] a(2,3) by (simp_all add: b_def)
  have out: "rrf_fuse lp vp params = sort_key (\<lambda>(path, s). (- s, path)) b"
    by (simp add: rrf_fuse_def a_def b_def)
  have "distinct (map fst (rrf_fuse lp vp params))"
    using b(1) by (simp add: out distinct_map)
  moreover have "(p, s) \<in> set b \<longleftrightarrow> p \<in> fst ` set b \<and> s = (case map_of b p of Some s \<Rightarrow> s | None \<Rightarrow> 0)"
    using map_of_eq_Some_iff [OF b(1), of p s] map_of_eq_None_iff [of b p] by (force split: option.splits)
  ultimately show ?thesis using b(2,3) by (simp add: out pool_term_def cong: if_cong)
qed

end
