(* ===== verification/Search_Index.thy ===== *)
theory Search_Index
  imports Search_Core Crypto_Box
begin

text \<open>
  The encrypted index of a scope: \<^verbatim>\<open>crates/mycelium-store/src/search_index.rs\<close>.  The two tables are
  lists of rows; a transaction that fails leaves them unchanged.  Terms appear in the tables as keyed
  hashes only, documents as sealed payloads.  The JSON coding of a payload is a parameter.
\<close>

section \<open>Tables\<close>

datatype index_error = Index_db | Index_crypto crypto_error | Index_corrupt rstring

record token_row =
  tk_scope :: rstring
  tk_token :: rstring
  tk_path :: rstring
  tk_tf :: int

record doc_row =
  dr_scope :: rstring
  dr_path :: rstring
  dr_payload :: bytes
  dr_length :: "int option"
  dr_status :: "rstring option"

record index_db =
  ib_tokens :: "token_row list"
  ib_docs :: "doc_row list"

text \<open>\<^verbatim>\<open>serde_json\<close> on \<^verbatim>\<open>DocPayload\<close>: title and snippet.\<close>

record doc_json =
  dj_to :: "rstring \<times> rstring \<Rightarrow> bytes option"
  dj_from :: "bytes \<Rightarrow> (rstring \<times> rstring) option"

definition good_doc_json :: "doc_json \<Rightarrow> bool" where
  "good_doc_json J \<longleftrightarrow> (\<forall>p b. dj_to J p = Some b \<longrightarrow> dj_from J b = Some p)"

text \<open>The index of one scope, with the libraries it calls.\<close>

record encrypted_index =
  ei_prims :: prims
  ei_json :: doc_json
  ei_lower :: "rstring \<Rightarrow> rstring"
  ei_scope_id :: rstring
  ei_keys :: index_keys

definition index_for_user ::
  "prims \<Rightarrow> doc_json \<Rightarrow> (rstring \<Rightarrow> rstring) \<Rightarrow> rstring \<Rightarrow> master_key \<Rightarrow> encrypted_index" where
  "index_for_user P J lower user_id master =
     \<lparr>ei_prims = P, ei_json = J, ei_lower = lower, ei_scope_id = str ''user:'' @ user_id,
      ei_keys = index_keys_from_master_key P master\<rparr>"

definition index_for_service ::
  "prims \<Rightarrow> doc_json \<Rightarrow> (rstring \<Rightarrow> rstring) \<Rightarrow> service_key \<Rightarrow> rstring \<Rightarrow> encrypted_index" where
  "index_for_service P J lower service namespace =
     \<lparr>ei_prims = P, ei_json = J, ei_lower = lower, ei_scope_id = str ''global:'' @ namespace,
      ei_keys = index_keys_from_service_key P service\<rparr>"

definition token_of :: "encrypted_index \<Rightarrow> rstring \<Rightarrow> rstring" where
  "token_of E term = index_token (ei_prims E) (ei_keys E) term"

section \<open>Writing\<close>

definition index_remove :: "encrypted_index \<Rightarrow> rstring \<Rightarrow> index_db \<Rightarrow> index_db" where
  "index_remove E path db =
     db\<lparr>ib_tokens := delete_where (\<lambda>r. tk_scope r = ei_scope_id E \<and> tk_path r = path) (ib_tokens db),
        ib_docs := delete_where (\<lambda>r. dr_scope r = ei_scope_id E \<and> dr_path r = path) (ib_docs db)\<rparr>"

text \<open>An insertion into \<^verbatim>\<open>search_tokens\<close>, whose primary key is scope, token and path.\<close>

definition insert_token :: "token_row \<Rightarrow> token_row list \<Rightarrow> index_error + token_row list" where
  "insert_token r rows =
     (if list_ex (\<lambda>s. tk_scope s = tk_scope r \<and> tk_token s = tk_token r \<and> tk_path s = tk_path r) rows
      then Inl Index_db else Inr (rows @ [r]))"

fun insert_tokens :: "token_row list \<Rightarrow> token_row list \<Rightarrow> index_error + token_row list" where
  "insert_tokens [] rows = Inr rows"
| "insert_tokens (r # rs) rows = and_then (insert_token r rows) (insert_tokens rs)"

text \<open>The counts per distinct token, in the order of some hash map.\<close>

definition token_counts :: "rstring list \<Rightarrow> (rstring \<times> nat) list" where
  "token_counts tokens = map (\<lambda>t. (t, count_list tokens t)) (remdups tokens)"

definition index_crypto :: "crypto_error + 'a \<Rightarrow> index_error + 'a" where
  "index_crypto r = (case r of Inl e \<Rightarrow> Inl (Index_crypto e) | Inr x \<Rightarrow> Inr x)"

lemma index_crypto_Inr [simp]: "index_crypto r = Inr x \<longleftrightarrow> r = Inr x"
  by (auto simp: index_crypto_def split: sum.splits)

definition add_async :: "encrypted_index \<Rightarrow> bytes \<Rightarrow> concept \<Rightarrow> index_db \<Rightarrow> index_error + index_db" where
  "add_async E nonce c db =
     (let path = co_source_path c in
      and_then (ok_or (dj_to (ei_json E) (concept_title c, snippet_of (co_body c))) (Index_corrupt path)) (\<lambda>payload.
      and_then (index_crypto (aead_seal (ei_prims E) nonce payload (as_bytes path) (index_dek (ei_keys E)))) (\<lambda>sealed.
      let tokens = doc_tokens (ei_lower E) c; db1 = index_remove E path db in
      and_then (insert_tokens (map (\<lambda>(t, tf). \<lparr>tk_scope = ei_scope_id E, tk_token = token_of E t, tk_path = path,
          tk_tf = int tf\<rparr>) (token_counts tokens)) (ib_tokens db1)) (\<lambda>rows.
      Inr (db1\<lparr>ib_tokens := rows,
           ib_docs := ib_docs db1 @ [\<lparr>dr_scope = ei_scope_id E, dr_path = path, dr_payload = sealed,
             dr_length = Some (int (length tokens)), dr_status = fm_status (co_frontmatter c)\<rparr>]\<rparr>)))))"

section \<open>Searching\<close>

function chunks :: "nat \<Rightarrow> 'a list \<Rightarrow> 'a list list" where
  "chunks n xs = (if xs = [] \<or> n = 0 then [] else take n xs # chunks n (drop n xs))"
  by pat_completeness auto
termination
  by (relation "measure (\<lambda>(n, xs). length xs)") auto

declare chunks.simps [simp del]

definition as_u32 :: "int \<Rightarrow> nat" where
  "as_u32 i = nat (i mod 2 ^ 32)"

definition distinct_terms :: "encrypted_index \<Rightarrow> search_query \<Rightarrow> rstring list" where
  "distinct_terms E q = remdups (sort (map (ei_lower E) (sq_terms q)))"

definition scope_docs :: "encrypted_index \<Rightarrow> index_db \<Rightarrow> doc_row list" where
  "scope_docs E db = filter (\<lambda>r. dr_scope r = ei_scope_id E) (ib_docs db)"

definition index_avgdl :: "encrypted_index \<Rightarrow> index_db \<Rightarrow> real" where
  "index_avgdl E db =
     (let rows = scope_docs E db in
      if rows = [] then 0
      else real_of_int (sum_list (map (\<lambda>r. case dr_length r of Some n \<Rightarrow> n | None \<Rightarrow> 0) rows)) / real (length rows))"

text \<open>The rows of the grouped token passes, one query per chunk of 16 tokens.\<close>

definition token_pass :: "encrypted_index \<Rightarrow> index_db \<Rightarrow> rstring list \<Rightarrow> token_row list" where
  "token_pass E db tokens =
     concat (map (\<lambda>chunk. filter (\<lambda>r. tk_scope r = ei_scope_id E \<and> tk_token r \<in> set chunk) (ib_tokens db))
       (chunks 16 tokens))"

definition df_of :: "token_row list \<Rightarrow> rstring \<Rightarrow> nat" where
  "df_of rows token = length (filter (\<lambda>r. tk_token r = token) rows)"

definition tf_of :: "token_row list \<Rightarrow> rstring \<Rightarrow> rstring \<Rightarrow> nat" where
  "tf_of rows path token =
     sum_list (map (\<lambda>r. as_u32 (tk_tf r)) (filter (\<lambda>r. tk_path r = path \<and> tk_token r = token) rows))"

definition status_shown :: "status_filter \<Rightarrow> rstring option \<Rightarrow> bool" where
  "status_shown filt status \<longleftrightarrow>
     filt = ActiveOnly \<longrightarrow> (case status of None \<Rightarrow> True | Some s \<Rightarrow> s \<notin> set NON_ACTIVE_STATUSES)"

text \<open>The document loads, one query per chunk of 64 paths.\<close>

definition doc_pass :: "encrypted_index \<Rightarrow> index_db \<Rightarrow> status_filter \<Rightarrow> rstring list \<Rightarrow> doc_row list" where
  "doc_pass E db filt paths =
     concat (map (\<lambda>chunk. filter (\<lambda>r. (dr_scope r = ei_scope_id E \<and> status_shown filt (dr_status r))
       \<and> dr_path r \<in> set chunk) (ib_docs db)) (chunks 64 paths))"

definition row_score :: "encrypted_index \<Rightarrow> index_db \<Rightarrow> token_row list \<Rightarrow> rstring list \<Rightarrow> doc_row \<Rightarrow> real" where
  "row_score E db rows tokens d =
     sum_list (map (\<lambda>token.
       let df = df_of rows token; tf = tf_of rows (dr_path d) token in
       if df = 0 \<or> tf = 0 then 0
       else bm25_score default_bm25 (max (length (scope_docs E db)) df) df tf
              (as_u32 (case dr_length d of Some n \<Rightarrow> n | None \<Rightarrow> 0)) (index_avgdl E db)) tokens)"

definition row_result :: "encrypted_index \<Rightarrow> index_db \<Rightarrow> token_row list \<Rightarrow> rstring list \<Rightarrow> doc_row \<Rightarrow> search_result list" where
  "row_result E db rows tokens d =
     (case aead_open (ei_prims E) (dr_payload d) (as_bytes (dr_path d)) (index_dek (ei_keys E)) of
        Inl _ \<Rightarrow> []
      | Inr plain \<Rightarrow>
          (case dj_from (ei_json E) plain of
             None \<Rightarrow> []
           | Some (title, snippet) \<Rightarrow>
               [\<lparr>sr_concept_path = dr_path d, sr_title = title, sr_snippet = snippet,
                 sr_score = row_score E db rows tokens d\<rparr>]))"

definition index_search :: "encrypted_index \<Rightarrow> index_db \<Rightarrow> search_query \<Rightarrow> search_result list" where
  "index_search E db q =
     (if sq_terms q = [] then []
      else
        (let tokens = map (token_of E) (distinct_terms E q);
             rows = token_pass E db tokens;
             scored_paths = sort (remdups (map tk_path rows)) in
         sort_key result_key
           (concat (map (row_result E db rows tokens) (doc_pass E db (sq_status_filter q) scored_paths)))))"

section \<open>Batched queries\<close>

lemma concat_chunks: "n \<noteq> 0 \<Longrightarrow> concat (chunks n xs) = xs"
proof (induction n xs rule: chunks.induct)
  case (1 n xs)
  then show ?case using chunks.simps [of n xs] by (cases "xs = []") simp_all
qed

text \<open>Splitting an \<^verbatim>\<open>IN\<close> list into chunks selects the same rows, each once.\<close>

lemma filter_chunks:
  assumes "distinct (concat css)"
  shows "filter (\<lambda>r. f r = x \<and> R r) (concat (map (\<lambda>ch. filter (\<lambda>r. Q r \<and> f r \<in> set ch) T) css)) =
    (if x \<in> set (concat css) then filter (\<lambda>r. Q r \<and> f r = x \<and> R r) T else [])"
  using assms
proof (induction css)
  case (Cons ch css)
  have one: "filter (\<lambda>r. f r = x \<and> R r) (filter (\<lambda>r. Q r \<and> f r \<in> set ch) T) =
      (if x \<in> set ch then filter (\<lambda>r. Q r \<and> f r = x \<and> R r) T else [])"
    by (induction T) auto
  from Cons.prems have "x \<in> set ch \<Longrightarrow> x \<notin> set (concat css)" by auto
  moreover have "distinct (concat css)" using Cons.prems by simp
  ultimately show ?case using Cons.IH by (simp only: list.map concat.simps filter_append one set_append) auto
qed simp

lemma set_chunks:
  "set (concat (map (\<lambda>ch. filter (\<lambda>r. Q r \<and> f r \<in> set ch) T) css)) = {r \<in> set T. Q r \<and> f r \<in> set (concat css)}"
  by auto

section \<open>What the tables hold\<close>

definition token_pk :: "token_row \<Rightarrow> rstring \<times> rstring \<times> rstring" where
  "token_pk r = (tk_scope r, tk_token r, tk_path r)"

definition scope_tokens :: "encrypted_index \<Rightarrow> index_db \<Rightarrow> token_row list" where
  "scope_tokens E db = filter (\<lambda>r. tk_scope r = ei_scope_id E) (ib_tokens db)"

definition posting_row :: "encrypted_index \<Rightarrow> concept \<Rightarrow> rstring \<Rightarrow> token_row" where
  "posting_row E c t = \<lparr>tk_scope = ei_scope_id E, tk_token = token_of E t, tk_path = co_source_path c,
     tk_tf = int (count_list (doc_tokens (ei_lower E) c) t)\<rparr>"

lemma posting_row_sel [simp]:
  "tk_scope (posting_row E c t) = ei_scope_id E" "tk_token (posting_row E c t) = token_of E t"
  "tk_path (posting_row E c t) = co_source_path c"
  "tk_tf (posting_row E c t) = int (count_list (doc_tokens (ei_lower E) c) t)"
  by (simp_all add: posting_row_def)

definition describes :: "encrypted_index \<Rightarrow> concept \<Rightarrow> doc_row \<Rightarrow> bool" where
  "describes E c r \<longleftrightarrow> dr_path r = co_source_path c \<and> dr_length r = Some (int (length (doc_tokens (ei_lower E) c)))
     \<and> dr_status r = fm_status (co_frontmatter c)
     \<and> (\<exists>b. aead_open (ei_prims E) (dr_payload r) (as_bytes (dr_path r)) (index_dek (ei_keys E)) = Inr b
        \<and> dj_from (ei_json E) b = Some (concept_title c, snippet_of (co_body c)))"

text \<open>The primary key of the token table, and the rows of the scope: those of the corpus.\<close>

definition index_holds :: "encrypted_index \<Rightarrow> corpus \<Rightarrow> index_db \<Rightarrow> bool" where
  "index_holds E C db \<longleftrightarrow>
     distinct (map token_pk (ib_tokens db)) \<and>
     set (scope_tokens E db) = {posting_row E c t |c t. c \<in> set C \<and> t \<in> set (doc_tokens (ei_lower E) c)} \<and>
     list_all2 (describes E) C (scope_docs E db)"

lemma index_holds_empty: "index_holds E [] \<lparr>ib_tokens = [], ib_docs = []\<rparr>"
  by (simp add: index_holds_def scope_tokens_def scope_docs_def)

lemma insert_tokens_Inr:
  assumes "insert_tokens rs rows = Inr rows'" "distinct (map token_pk rows)"
  shows "rows' = rows @ rs \<and> distinct (map token_pk rows')"
  using assms
proof (induction rs arbitrary: rows)
  case (Cons r rs)
  then obtain rows1 where 1: "insert_token r rows = Inr rows1" "insert_tokens rs rows1 = Inr rows'"
    by (auto simp: and_then_eq_Inr)
  then have r1: "rows1 = rows @ [r]" "token_pk r \<notin> token_pk ` set rows"
    by (auto simp: insert_token_def token_pk_def list_ex_iff split: if_splits)
  moreover have "distinct (map token_pk rows1)" using r1 Cons.prems(2) by simp
  ultimately show ?case using Cons.IH [OF 1(2)] by (metis append_Cons append_Nil append_assoc)
qed simp

lemma list_all2_filter:
  assumes "list_all2 R xs ys" "\<And>x y. R x y \<Longrightarrow> p x \<longleftrightarrow> q y"
  shows "list_all2 R (filter p xs) (filter q ys)"
  using assms by (induction rule: list_all2_induct) auto

lemma index_holds_remove:
  assumes "index_holds E C db"
  shows "index_holds E (corpus_remove path C) (index_remove E path db)"
proof -
  have "distinct (map token_pk (ib_tokens (index_remove E path db)))"
    using assms by (simp add: index_holds_def index_remove_def delete_where_def distinct_map_filter)
  moreover have "set (scope_tokens E (index_remove E path db)) = {r \<in> set (scope_tokens E db). tk_path r \<noteq> path}"
    by (auto simp: scope_tokens_def index_remove_def)
  then have "set (scope_tokens E (index_remove E path db)) =
      {posting_row E c t |c t. c \<in> set (corpus_remove path C) \<and> t \<in> set (doc_tokens (ei_lower E) c)}"
    using assms by (auto simp: index_holds_def corpus_remove_def) blast
  moreover have "scope_docs E (index_remove E path db) = filter (\<lambda>r. dr_path r \<noteq> path) (scope_docs E db)"
    by (simp add: scope_docs_def index_remove_def delete_where_def conj_commute cong: conj_cong)
  then have "list_all2 (describes E) (corpus_remove path C) (scope_docs E (index_remove E path db))"
    unfolding corpus_remove_def using assms
    by (auto simp: index_holds_def describes_def intro!: list_all2_filter)
  ultimately show ?thesis by (simp add: index_holds_def)
qed

lemma index_holds_add:
  assumes good: "good_prims (ei_prims E)" "good_doc_json (ei_json E)" "length nonce = NONCE_LEN"
    and holds: "index_holds E C db" and add: "add_async E nonce c db = Inr db'"
  shows "index_holds E (corpus_add c C) db'"
proof -
  let ?path = "co_source_path c" and ?db = "index_remove E (co_source_path c) db"
  let ?rs = "map (\<lambda>(t, tf). \<lparr>tk_scope = ei_scope_id E, tk_token = token_of E t, tk_path = ?path, tk_tf = int tf\<rparr>)
    (token_counts (doc_tokens (ei_lower E) c))"
  from add obtain payload sealed rows where
    p: "dj_to (ei_json E) (concept_title c, snippet_of (co_body c)) = Some payload"
    and s: "aead_seal (ei_prims E) nonce payload (as_bytes ?path) (index_dek (ei_keys E)) = Inr sealed"
    and rows: "insert_tokens ?rs (ib_tokens ?db) = Inr rows"
    and db': "db' = ?db\<lparr>ib_tokens := rows, ib_docs := ib_docs ?db @ [\<lparr>dr_scope = ei_scope_id E, dr_path = ?path,
      dr_payload = sealed, dr_length = Some (int (length (doc_tokens (ei_lower E) c))),
      dr_status = fm_status (co_frontmatter c)\<rparr>]\<rparr>"
    by (auto simp: add_async_def Let_def and_then_eq_Inr)
  note rem = index_holds_remove [OF holds, of ?path]
  have ins: "rows = ib_tokens ?db @ ?rs" "distinct (map token_pk rows)"
    using insert_tokens_Inr [OF rows] rem unfolding index_holds_def by blast+
  have rs: "?rs = map (posting_row E c) (remdups (doc_tokens (ei_lower E) c))"
    by (simp add: token_counts_def posting_row_def)
  have "scope_tokens E db' = scope_tokens E ?db @ ?rs"
    unfolding rs using ins(1) rs by (simp add: db' scope_tokens_def posting_row_def filter_map comp_def)
  then have "set (scope_tokens E db') =
      {posting_row E d t |d t. d \<in> set (corpus_add c C) \<and> t \<in> set (doc_tokens (ei_lower E) d)}"
    using rem by (auto simp: rs index_holds_def corpus_add_def)
  moreover have "list_all2 (describes E) (corpus_add c C) (scope_docs E db')"
  proof -
    have "aead_open (ei_prims E) sealed (as_bytes ?path) (index_dek (ei_keys E)) = Inr payload"
      using aead_box.open_seal [OF good(1,3) s] .
    then have "describes E c \<lparr>dr_scope = ei_scope_id E, dr_path = ?path, dr_payload = sealed,
      dr_length = Some (int (length (doc_tokens (ei_lower E) c))), dr_status = fm_status (co_frontmatter c)\<rparr>"
      using good(2) p by (simp add: describes_def good_doc_json_def)
    then show ?thesis
      using rem by (simp add: db' index_holds_def corpus_add_def scope_docs_def list_all2_appendI)
  qed
  ultimately show ?thesis using ins(2) by (simp add: index_holds_def db')
qed

section \<open>Searching the tables is searching the corpus\<close>

text \<open>No two of the terms in play have the same keyed hash.\<close>

definition index_fits :: "encrypted_index \<Rightarrow> corpus \<Rightarrow> search_query \<Rightarrow> bool" where
  "index_fits E C q \<longleftrightarrow>
     inj_on (token_of E) (query_tokens (ei_lower E) q \<union> (\<Union>c \<in> set C. set (doc_tokens (ei_lower E) c)))"

lemma distinct_terms_query [simp]:
  "set (distinct_terms E q) = query_tokens (ei_lower E) q" "distinct (distinct_terms E q)"
  by (simp_all add: distinct_terms_def query_tokens_def)

lemma index_fits_token:
  assumes "index_fits E C q" "t \<in> query_tokens (ei_lower E) q" "c \<in> set C" "u \<in> set (doc_tokens (ei_lower E) c)"
  shows "token_of E u = token_of E t \<longleftrightarrow> u = t"
  using assms unfolding index_fits_def inj_on_def by blast

lemma query_tokens_distinct:
  assumes "index_fits E C q"
  shows "distinct (map (token_of E) (distinct_terms E q))"
  using assms unfolding index_fits_def by (simp add: distinct_map inj_on_Un)

lemma token_pass_filter:
  assumes "index_fits E C q" "t \<in> query_tokens (ei_lower E) q"
  shows "filter (\<lambda>r. tk_token r = token_of E t \<and> R r) (token_pass E db (map (token_of E) (distinct_terms E q))) =
    filter (\<lambda>r. tk_scope r = ei_scope_id E \<and> tk_token r = token_of E t \<and> R r) (ib_tokens db)"
  using filter_chunks [of "chunks 16 (map (token_of E) (distinct_terms E q))" tk_token "token_of E t" R]
    query_tokens_distinct [OF assms(1)] assms(2)
  by (simp add: concat_chunks token_pass_def)

lemma scope_tokens_iff:
  assumes "index_holds E C db"
  shows "r \<in> set (ib_tokens db) \<and> tk_scope r = ei_scope_id E \<longleftrightarrow>
    (\<exists>c \<in> set C. \<exists>t \<in> set (doc_tokens (ei_lower E) c). r = posting_row E c t)"
proof -
  have "r \<in> set (ib_tokens db) \<and> tk_scope r = ei_scope_id E \<longleftrightarrow> r \<in> set (scope_tokens E db)"
    by (auto simp: scope_tokens_def)
  then show ?thesis using assms by (auto simp: index_holds_def)
qed

lemma token_rows_iff:
  assumes "index_holds E C db" "index_fits E C q" "t \<in> query_tokens (ei_lower E) q"
  shows "r \<in> set (ib_tokens db) \<and> tk_scope r = ei_scope_id E \<and> tk_token r = token_of E t \<longleftrightarrow>
    (\<exists>c \<in> set C. t \<in> set (doc_tokens (ei_lower E) c) \<and> r = posting_row E c t)"
proof
  assume r: "r \<in> set (ib_tokens db) \<and> tk_scope r = ei_scope_id E \<and> tk_token r = token_of E t"
  then obtain c u where c: "c \<in> set C" "u \<in> set (doc_tokens (ei_lower E) c)" "r = posting_row E c u"
    using scope_tokens_iff [OF assms(1), of r] by blast
  with r have "u = t" using index_fits_token [OF assms(2,3) c(1,2)] by simp
  with c show "\<exists>c \<in> set C. t \<in> set (doc_tokens (ei_lower E) c) \<and> r = posting_row E c t" by blast
next
  assume "\<exists>c \<in> set C. t \<in> set (doc_tokens (ei_lower E) c) \<and> r = posting_row E c t"
  then show "r \<in> set (ib_tokens db) \<and> tk_scope r = ei_scope_id E \<and> tk_token r = token_of E t"
    using scope_tokens_iff [OF assms(1), of r] by (metis posting_row_sel(2))
qed

lemma singleton_list: "distinct (map f xs) \<Longrightarrow> set xs = {x} \<Longrightarrow> xs = [x]"
  by (cases xs; cases "tl xs") (auto simp: distinct_map)

lemma df_of_corpus:
  assumes "index_holds E C db" "distinct (map co_source_path C)" "index_fits E C q" "t \<in> query_tokens (ei_lower E) q"
  shows "df_of (token_pass E db (map (token_of E) (distinct_terms E q))) (token_of E t) = corpus_df (ei_lower E) C t"
proof -
  let ?F = "filter (\<lambda>r. tk_scope r = ei_scope_id E \<and> tk_token r = token_of E t) (ib_tokens db)"
  let ?D = "filter (\<lambda>c. t \<in> set (doc_tokens (ei_lower E) c)) C"
  have "distinct (map token_pk ?F)" using assms(1) by (simp add: index_holds_def distinct_map_filter)
  moreover have "map token_pk ?F = map (\<lambda>p. (ei_scope_id E, token_of E t, p)) (map tk_path ?F)"
    by (auto simp: token_pk_def)
  ultimately have d: "distinct (map tk_path ?F)" using distinct_map [of "\<lambda>p. (ei_scope_id E, token_of E t, p)" "map tk_path ?F"] by metis
  have "r \<in> set ?F \<longleftrightarrow> (\<exists>c \<in> set ?D. r = posting_row E c t)" for r
    using token_rows_iff [OF assms(1,3,4), of r] by (simp only: set_filter mem_Collect_eq) blast
  then have "set ?F = (\<lambda>c. posting_row E c t) ` set ?D" by blast
  then have "set (map tk_path ?F) = set (map co_source_path ?D)"
    by (simp only: set_map image_image posting_row_sel)
  moreover have "distinct (map co_source_path ?D)" using assms(2) by (simp add: distinct_map_filter)
  ultimately have "length (map tk_path ?F) = length (map co_source_path ?D)"
    using d by (simp only: distinct_card [symmetric])
  moreover have "filter (\<lambda>r. tk_token r = token_of E t) (token_pass E db (map (token_of E) (distinct_terms E q))) = ?F"
    using token_pass_filter [OF assms(3,4), of "\<lambda>_. True" db] by simp
  ultimately show ?thesis by (simp add: df_of_def corpus_df_def)
qed

lemma tf_of_corpus:
  assumes "index_holds E C db" "corpus_ok (ei_lower E) C" "index_fits E C q" "t \<in> query_tokens (ei_lower E) q" "c \<in> set C"
  shows "tf_of (token_pass E db (map (token_of E) (distinct_terms E q))) (co_source_path c) (token_of E t) =
    count_list (doc_tokens (ei_lower E) c) t"
proof -
  let ?F = "filter (\<lambda>r. tk_scope r = ei_scope_id E \<and> tk_token r = token_of E t \<and> tk_path r = co_source_path c) (ib_tokens db)"
  have dC: "distinct (map co_source_path C)" using assms(2) by (simp add: corpus_ok_def)
  have mem: "r \<in> set ?F \<longleftrightarrow> t \<in> set (doc_tokens (ei_lower E) c) \<and> r = posting_row E c t" for r
  proof -
    have "r \<in> set ?F \<longleftrightarrow> (\<exists>d \<in> set C. t \<in> set (doc_tokens (ei_lower E) d) \<and> r = posting_row E d t
        \<and> co_source_path d = co_source_path c)"
      using token_rows_iff [OF assms(1,3,4), of r] by (simp only: set_filter mem_Collect_eq) (metis posting_row_sel(3))
    moreover have "d = c" if "d \<in> set C" "co_source_path d = co_source_path c" for d
      using that dC assms(5) by (simp add: distinct_map inj_on_def)
    ultimately show ?thesis using assms(5) by blast
  qed
  have d: "distinct (map token_pk ?F)" using assms(1) by (simp add: index_holds_def distinct_map_filter)
  have small: "count_list (doc_tokens (ei_lower E) c) t < 2 ^ 32"
  proof -
    have "length (doc_tokens (ei_lower E) c) < 2 ^ 32" using assms(2,5) by (simp add: corpus_ok_def list_all_iff)
    with count_le_length [of "doc_tokens (ei_lower E) c" t] show ?thesis by linarith
  qed
  have "tf_of (token_pass E db (map (token_of E) (distinct_terms E q))) (co_source_path c) (token_of E t) =
      sum_list (map (\<lambda>r. as_u32 (tk_tf r)) ?F)"
    using token_pass_filter [OF assms(3,4), of "\<lambda>r. tk_path r = co_source_path c" db]
    by (simp add: tf_of_def conj_commute)
  also have "\<dots> = count_list (doc_tokens (ei_lower E) c) t"
  proof (cases "t \<in> set (doc_tokens (ei_lower E) c)")
    case True
    then have "?F = [posting_row E c t]" using singleton_list [OF d] mem by blast
    then show ?thesis using small by (simp add: as_u32_def)
  next
    case False
    then have "?F = []" using mem by (metis last_in_set)
    with False show ?thesis by (simp add: count_list_0_iff)
  qed
  finally show ?thesis .
qed

lemma list_all2_sets:
  "list_all2 R xs ys \<Longrightarrow> (\<forall>x \<in> set xs. \<exists>y \<in> set ys. R x y) \<and> (\<forall>y \<in> set ys. \<exists>x \<in> set xs. R x y)"
  by (induction rule: list_all2_induct) auto

lemma scope_docs_corpus:
  assumes "index_holds E C db" "corpus_ok (ei_lower E) C"
  shows "map dr_path (scope_docs E db) = map co_source_path C"
    and "length (scope_docs E db) = length C"
    and "index_avgdl E db = corpus_avgdl (ei_lower E) C"
proof -
  have all2: "list_all2 (describes E) C (scope_docs E db)" using assms(1) by (simp add: index_holds_def)
  show paths: "map dr_path (scope_docs E db) = map co_source_path C"
    using all2 by (induction rule: list_all2_induct) (auto simp: describes_def)
  show len: "length (scope_docs E db) = length C" using all2 by (simp add: list_all2_lengthD)
  have "sum_list (map (\<lambda>r. case dr_length r of Some n \<Rightarrow> n | None \<Rightarrow> 0) (scope_docs E db)) =
      int (sum_list (map (\<lambda>c. length (doc_tokens (ei_lower E) c)) C))"
    using all2 by (induction rule: list_all2_induct) (auto simp: describes_def)
  moreover have "scope_docs E db = [] \<longleftrightarrow> C = []" using len by (metis length_0_conv)
  ultimately show "index_avgdl E db = corpus_avgdl (ei_lower E) C"
    using len by (simp add: index_avgdl_def corpus_avgdl_def Let_def)
qed

lemma row_result_hit:
  assumes "index_holds E C db" "corpus_ok (ei_lower E) C" "index_fits E C q" "c \<in> set C" "describes E c r"
  shows "row_result E db (token_pass E db (map (token_of E) (distinct_terms E q))) (map (token_of E) (distinct_terms E q)) r =
    [hit (ei_lower E) C q c]"
proof -
  let ?tokens = "map (token_of E) (distinct_terms E q)"
  let ?rows = "token_pass E db ?tokens" and ?T = "query_tokens (ei_lower E) q" and ?D = "set (doc_tokens (ei_lower E) c)"
  have dC: "distinct (map co_source_path C)" using assms(2) by (simp add: corpus_ok_def)
  have len: "length (doc_tokens (ei_lower E) c) < 2 ^ 32" using assms(2,4) by (simp add: corpus_ok_def list_all_iff)
  define g where "g t = (let df = df_of ?rows t; tf = tf_of ?rows (dr_path r) t in
       if df = 0 \<or> tf = 0 then 0
       else bm25_score default_bm25 (max (length (scope_docs E db)) df) df tf
              (as_u32 (case dr_length r of Some n \<Rightarrow> n | None \<Rightarrow> 0)) (index_avgdl E db))" for t
  have "g (token_of E t) = (if t \<in> ?D then term_score (ei_lower E) C c t else 0)" if t: "t \<in> ?T" for t
  proof -
    have df: "df_of ?rows (token_of E t) = corpus_df (ei_lower E) C t"
      using df_of_corpus [OF assms(1) dC assms(3) t] .
    have tf: "tf_of ?rows (dr_path r) (token_of E t) = count_list (doc_tokens (ei_lower E) c) t"
      using tf_of_corpus [OF assms(1-3) t assms(4)] assms(5) by (simp add: describes_def)
    have le: "corpus_df (ei_lower E) C t \<le> length C" by (simp add: corpus_df_def)
    have "t \<in> ?D \<Longrightarrow> 0 < corpus_df (ei_lower E) C t"
      using assms(4) by (auto simp: corpus_df_def length_greater_0_conv filter_empty_conv)
    moreover have "dr_length r = Some (int (length (doc_tokens (ei_lower E) c)))"
      using assms(5) by (simp add: describes_def)
    ultimately show ?thesis
      using len le scope_docs_corpus(2,3) [OF assms(1,2)]
      by (cases "t \<in> ?D") (simp_all add: g_def Let_def df tf term_score_def as_u32_def count_list_0_iff max_absorb1)
  qed
  then have "(\<Sum>t \<in> ?T. g (token_of E t)) = (\<Sum>t \<in> ?T. if t \<in> ?D then term_score (ei_lower E) C c t else 0)"
    by (intro sum.cong) auto
  also have "\<dots> = (\<Sum>t \<in> ?T \<inter> ?D. term_score (ei_lower E) C c t)"
    by (simp add: sum.inter_restrict query_tokens_def)
  finally have "row_score E db ?rows ?tokens r = (\<Sum>t \<in> ?T \<inter> ?D. term_score (ei_lower E) C c t)"
    by (simp add: row_score_def g_def [symmetric] comp_def sum_list_distinct_conv_sum_set)
  then show ?thesis
    using assms(5) by (auto simp: row_result_def describes_def hit_def)
qed

lemma distinct_map_by_filter:
  assumes "\<And>x. length (filter (\<lambda>r. f r = x) xs) \<le> 1"
  shows "distinct (map f xs)"
  using assms
proof (induction xs)
  case (Cons y ys)
  have "filter (\<lambda>r. f r = f y) ys = []" using Cons.prems [of "f y"] by simp
  moreover have "length (filter (\<lambda>r. f r = x) ys) \<le> 1" for x
    using Cons.prems [of x] by (simp split: if_splits)
  ultimately show ?case using Cons.IH by (auto simp: filter_empty_conv)
qed simp

lemma filter_key_length: "distinct (map f xs) \<Longrightarrow> length (filter (\<lambda>r. R r \<and> f r = x) xs) \<le> 1"
proof (induction xs)
  case (Cons y ys)
  then show ?case by (cases "f y = x") (auto simp: filter_empty_conv image_iff)
qed simp

lemma doc_pass_distinct:
  assumes "distinct (map dr_path (scope_docs E db))" "distinct paths"
  shows "distinct (map dr_path (doc_pass E db filt paths))"
proof (rule distinct_map_by_filter)
  fix x
  have "filter (\<lambda>r. dr_path r = x \<and> True) (doc_pass E db filt paths) = (if x \<in> set paths then
      filter (\<lambda>r. (dr_scope r = ei_scope_id E \<and> status_shown filt (dr_status r)) \<and> dr_path r = x \<and> True) (ib_docs db) else [])"
    unfolding doc_pass_def
    using filter_chunks [of "chunks 64 paths" dr_path x "\<lambda>_. True"
        "\<lambda>r. dr_scope r = ei_scope_id E \<and> status_shown filt (dr_status r)" "ib_docs db"] assms(2)
    by (simp only: concat_chunks [of 64 paths] rel_simps simp_thms)
  then have "length (filter (\<lambda>r. dr_path r = x) (doc_pass E db filt paths)) \<le>
      length (filter (\<lambda>r. status_shown filt (dr_status r) \<and> dr_path r = x) (scope_docs E db))"
    by (simp add: scope_docs_def conj_ac)
  with filter_key_length [OF assms(1), of "\<lambda>r. status_shown filt (dr_status r)" x]
  show "length (filter (\<lambda>r. dr_path r = x) (doc_pass E db filt paths)) \<le> 1" by linarith
qed

lemma index_search_corpus:
  assumes "index_holds E C db" "corpus_ok (ei_lower E) C" "index_fits E C q"
  shows "index_search E db q = corpus_search (ei_lower E) C q"
proof (cases "sq_terms q = []")
  case True
  then show ?thesis by (simp add: index_search_def corpus_search_def query_tokens_def)
next
  case False
  let ?T = "query_tokens (ei_lower E) q" and ?tokens = "map (token_of E) (distinct_terms E q)"
  let ?rows = "token_pass E db ?tokens"
  let ?paths = "sort (remdups (map tk_path ?rows))" and ?filt = "sq_status_filter q"
  define S where "S = filter (\<lambda>c. visible ?filt c \<and> ?T \<inter> set (doc_tokens (ei_lower E) c) \<noteq> {}) C"
  have dC: "distinct (map co_source_path C)" using assms(2) by (simp add: corpus_ok_def)
  have paths: "p \<in> set ?paths \<longleftrightarrow> (\<exists>c \<in> set C. p = co_source_path c \<and> ?T \<inter> set (doc_tokens (ei_lower E) c) \<noteq> {})" for p
  proof -
    have "r \<in> set ?rows \<longleftrightarrow> (\<exists>t \<in> ?T. r \<in> set (ib_tokens db) \<and> tk_scope r = ei_scope_id E \<and> tk_token r = token_of E t)" for r
      unfolding token_pass_def set_chunks by (auto simp: concat_chunks)
    then have rows: "r \<in> set ?rows \<longleftrightarrow> (\<exists>t \<in> ?T. \<exists>c \<in> set C. t \<in> set (doc_tokens (ei_lower E) c) \<and> r = posting_row E c t)" for r
      using token_rows_iff [OF assms(1,3)] by blast
    have "p \<in> set ?paths \<longleftrightarrow> (\<exists>r. r \<in> set ?rows \<and> p = tk_path r)" by auto
    also have "\<dots> \<longleftrightarrow> (\<exists>c \<in> set C. \<exists>t \<in> ?T. t \<in> set (doc_tokens (ei_lower E) c) \<and> p = tk_path (posting_row E c t))"
      unfolding rows by blast
    finally show ?thesis unfolding posting_row_sel by blast
  qed
  have all2: "list_all2 (describes E) C (scope_docs E db)" using assms(1) by (simp add: index_holds_def)
  have docs: "distinct (map dr_path (scope_docs E db))" using scope_docs_corpus(1) [OF assms(1,2)] dC by simp
  let ?pass = "doc_pass E db ?filt ?paths"
  have pass: "r \<in> set ?pass \<longleftrightarrow> r \<in> set (scope_docs E db) \<and> status_shown ?filt (dr_status r) \<and> dr_path r \<in> set ?paths" for r
    unfolding doc_pass_def set_chunks by (auto simp: concat_chunks scope_docs_def)
  have shown: "status_shown ?filt (dr_status r) \<longleftrightarrow> visible ?filt c" if "describes E c r" for c r
    using that by (cases ?filt) (simp_all add: describes_def status_shown_def visible_def is_active_status_def)
  have of_row: "\<exists>c \<in> set S. describes E c r" if r: "r \<in> set ?pass" for r
  proof -
    from r pass have "r \<in> set (scope_docs E db)" by blast
    then obtain c where c: "c \<in> set C" "describes E c r" using list_all2_sets [OF all2] by blast
    obtain d where d: "d \<in> set C" "dr_path r = co_source_path d" "?T \<inter> set (doc_tokens (ei_lower E) d) \<noteq> {}"
      using r pass paths by blast
    have "d = c" using c d dC by (simp add: describes_def distinct_map inj_on_def)
    with c d r pass shown show ?thesis by (auto simp: S_def)
  qed
  have to_row: "\<exists>r \<in> set ?pass. describes E c r" if c: "c \<in> set S" for c
  proof -
    from c have "c \<in> set C" by (simp add: S_def)
    then obtain r where r: "r \<in> set (scope_docs E db)" "describes E c r" using list_all2_sets [OF all2] by blast
    moreover have "dr_path r \<in> set ?paths" using c r(2) paths [of "dr_path r"] by (auto simp: S_def describes_def)
    ultimately show ?thesis using pass shown [OF r(2)] c by (auto simp: S_def)
  qed
  have hits: "row_result E db ?rows ?tokens r = [hit (ei_lower E) C q c]" if "c \<in> set S" "describes E c r" for c r
    using row_result_hit [OF assms _ that(2)] that(1) by (simp add: S_def)
  let ?out = "concat (map (row_result E db ?rows ?tokens) ?pass)"
  have set_out: "set ?out = set (map (hit (ei_lower E) C q) S)"
  proof (intro set_eqI iffI)
    fix x assume "x \<in> set ?out"
    then obtain r where r: "r \<in> set ?pass" "x \<in> set (row_result E db ?rows ?tokens r)"
      by (simp only: set_concat set_map) blast
    from of_row [OF r(1)] obtain c where c: "c \<in> set S" "describes E c r" by blast
    then show "x \<in> set (map (hit (ei_lower E) C q) S)" using r(2) hits [OF c] by simp
  next
    fix x assume "x \<in> set (map (hit (ei_lower E) C q) S)"
    then obtain c where c: "c \<in> set S" "x = hit (ei_lower E) C q c" by auto
    from to_row [OF c(1)] obtain r where r: "r \<in> set ?pass" "describes E c r" by blast
    have "x \<in> set (row_result E db ?rows ?tokens r)" using hits [OF c(1) r(2)] c(2) by simp
    with r(1) show "x \<in> set ?out" by (simp only: set_concat set_map) blast
  qed
  have "map sr_concept_path ?out = map dr_path ?pass"
  proof -
    have "map sr_concept_path (row_result E db ?rows ?tokens r) = [dr_path r]" if "r \<in> set ?pass" for r
      using of_row [OF that] hits by (auto simp: hit_def describes_def)
    then have "map (map sr_concept_path) (map (row_result E db ?rows ?tokens) ?pass) = map (\<lambda>r. [dr_path r]) ?pass"
      by simp
    then have "concat (map (map sr_concept_path) (map (row_result E db ?rows ?tokens) ?pass)) = concat (map (\<lambda>r. [dr_path r]) ?pass)"
      by (rule arg_cong)
    then show ?thesis by (simp add: map_concat concat_map_singleton)
  qed
  then have "distinct (map sr_concept_path ?out)" using doc_pass_distinct [OF docs, of ?paths] by simp
  moreover have "map sr_concept_path (map (hit (ei_lower E) C q) S) = map co_source_path S" by (simp add: hit_def)
  then have "distinct (map sr_concept_path (map (hit (ei_lower E) C q) S))"
    unfolding S_def using dC by (simp only: distinct_map_filter)
  ultimately have "sort_key result_key ?out = sort_key result_key (map (hit (ei_lower E) C q) S)"
    using set_out by (intro sort_results_cong)
  then show ?thesis using False by (simp add: index_search_def corpus_search_def S_def Let_def)
qed

section \<open>The encrypted index keeps the contract\<close>

definition index_env_ok :: "encrypted_index \<Rightarrow> bool" where
  "index_env_ok E \<longleftrightarrow> good_prims (ei_prims E) \<and> good_doc_json (ei_json E)"

text \<open>One addition or removal; a failing addition changes nothing, a nonce has 12 bytes.\<close>

datatype index_op = Ix_add bytes concept | Ix_remove rstring

fun apply_op :: "encrypted_index \<Rightarrow> index_op \<Rightarrow> index_db \<Rightarrow> index_error + index_db" where
  "apply_op E (Ix_add nonce c) db = add_async E nonce c db"
| "apply_op E (Ix_remove path) db = Inr (index_remove E path db)"

fun op_ok :: "encrypted_index \<Rightarrow> index_op \<Rightarrow> bool" where
  "op_ok E (Ix_add nonce c) \<longleftrightarrow> length nonce = NONCE_LEN \<and> length (doc_tokens (ei_lower E) c) < 2 ^ 32"
| "op_ok E (Ix_remove path) \<longleftrightarrow> True"

fun corpus_op :: "index_op \<Rightarrow> corpus \<Rightarrow> corpus" where
  "corpus_op (Ix_add nonce c) C = corpus_add c C"
| "corpus_op (Ix_remove path) C = corpus_remove path C"

fun apply_ops :: "encrypted_index \<Rightarrow> index_op list \<Rightarrow> index_db \<Rightarrow> index_error + index_db" where
  "apply_ops E [] db = Inr db"
| "apply_ops E (op # ops) db = and_then (apply_op E op db) (apply_ops E ops)"

interpretation enc_ix: lexical_index ei_lower
  "\<lambda>E C q. index_fits E C q" "\<lambda>E C db. index_env_ok E \<and> index_holds E C db"
  "\<lambda>E nonce c db. if length nonce = NONCE_LEN then (case add_async E nonce c db of Inr db' \<Rightarrow> Some db' | Inl _ \<Rightarrow> None) else None"
  "\<lambda>E db q. Some (index_search E db q)"
  by unfold_locales
    (auto simp: index_env_ok_def index_search_corpus intro: index_holds_add split: if_splits sum.splits)

lemma apply_ops_holds:
  assumes "index_env_ok E" "index_holds E C db" "corpus_ok (ei_lower E) C" "list_all (op_ok E) ops"
    and "apply_ops E ops db = Inr db'"
  shows "index_holds E (fold corpus_op ops C) db' \<and> corpus_ok (ei_lower E) (fold corpus_op ops C)"
  using assms(2-)
proof (induction ops arbitrary: C db)
  case (Cons op ops)
  then obtain db1 where 1: "apply_op E op db = Inr db1" "apply_ops E ops db1 = Inr db'"
    by (auto simp: and_then_eq_Inr)
  have "index_holds E (corpus_op op C) db1 \<and> corpus_ok (ei_lower E) (corpus_op op C)"
    using Cons.prems(1-3) 1(1) assms(1)
    by (cases op) (auto simp: index_env_ok_def index_holds_add index_holds_remove corpus_ok_add corpus_ok_remove)
  with Cons.IH [of "corpus_op op C" db1] Cons.prems(3) 1(2) show ?case by simp
qed simp

text \<open>A small scope, to evaluate the theorems on.\<close>

definition small_concept :: concept where
  "small_concept = \<lparr>co_frontmatter = default_frontmatter\<lparr>fm_title := Some (str ''ab'')\<rparr>, co_body = [],
     co_source_path = str ''/a.md''\<rparr>"

definition small_scope :: encrypted_index where
  "small_scope = index_for_user toy_prims
     \<lparr>dj_to = (\<lambda>p. if p = (str ''ab'', []) then Some [] else None), dj_from = (\<lambda>b. Some (str ''ab'', []))\<rparr>
     (\<lambda>s. s) (str ''u'') (MasterKey [])"

lemma small_scope_ok: "good_prims (ei_prims small_scope)" "good_doc_json (ei_json small_scope)"
  by (auto simp: small_scope_def index_for_user_def good_toy_prims good_doc_json_def split: if_splits)

lemma small_tokens: "doc_tokens (ei_lower small_scope) small_concept = [str ''ab'']"
  by (simp add: small_scope_def index_for_user_def small_concept_def doc_tokens_def tokenize_def searchable_text_def
      concept_title_def default_frontmatter_def is_ascii_alphanumeric_def is_ascii_digit_def is_ascii_lowercase_def
      is_ascii_uppercase_def utf8_len_char_def)

lemma small_add:
  "\<exists>db. apply_ops small_scope [Ix_add (replicate 12 0) small_concept] \<lparr>ib_tokens = [], ib_docs = []\<rparr> = Inr db"
proof -
  have "\<exists>b. aead_seal toy_prims (replicate 12 0) [] a (index_dek (index_keys_from_master_key toy_prims (MasterKey []))) = Inr b" for a
    by (simp add: aead_seal_def index_keys_from_master_key_def derive_dek_from_def toy_prims_def)
  then obtain b where b: "aead_seal toy_prims (replicate 12 0) [] (as_bytes (str ''/a.md''))
      (index_dek (index_keys_from_master_key toy_prims (MasterKey []))) = Inr b" by blast
  have "concept_title small_concept = str ''ab''" "snippet_of (co_body small_concept) = []" "co_source_path small_concept = str ''/a.md''"
    by (simp_all add: small_concept_def concept_title_def snippet_of_def trim_def trim_start_def trim_end_def)
  then show ?thesis using b small_tokens
    by (simp add: add_async_def Let_def token_counts_def insert_token_def index_remove_def small_scope_def
        index_for_user_def index_crypto_def del: str_Cons as_bytes_simps)
qed

text \<open>C10.  The encrypted index refines the contract of a search.  After any sequence of successful
  additions and removals on empty tables, a query returns exactly what the contract says of the
  concepts last added and not removed: the same results, titles, snippets, scores and order, although
  the tables hold only keyed hashes and sealed payloads.  The terms in play must have distinct keyed
  hashes, and no document more than 2^32 - 1 tokens.\<close>
theorem index_refines_corpus:
  assumes "good_prims (ei_prims E)" "good_doc_json (ei_json E)" "list_all (op_ok E) ops"
    and "apply_ops E ops \<lparr>ib_tokens = [], ib_docs = []\<rparr> = Inr db" "index_fits E (fold corpus_op ops []) q"
  shows "index_search E db q = corpus_search (ei_lower E) (fold corpus_op ops []) q"
proof -
  have "index_env_ok E" using assms(1,2) by (simp add: index_env_ok_def)
  from apply_ops_holds [OF this index_holds_empty _ assms(3,4)]
  have "index_holds E (fold corpus_op ops []) db" "corpus_ok (ei_lower E) (fold corpus_op ops [])"
    by (simp_all add: corpus_ok_def)
  then show ?thesis using assms(5) by (rule index_search_corpus)
qed

theorem index_refines_corpus_witness:
  "\<exists>db. apply_ops small_scope [Ix_add (replicate 12 0) small_concept] \<lparr>ib_tokens = [], ib_docs = []\<rparr> = Inr db
     \<and> index_search small_scope db (new_query [str ''ab'']) =
         corpus_search (ei_lower small_scope) [small_concept] (new_query [str ''ab''])"
proof -
  obtain db where db: "apply_ops small_scope [Ix_add (replicate 12 0) small_concept] \<lparr>ib_tokens = [], ib_docs = []\<rparr> = Inr db"
    using small_add by blast
  have "list_all (op_ok small_scope) [Ix_add (replicate 12 0) small_concept]"
    by (simp add: small_tokens NONCE_LEN_def)
  moreover have "fold corpus_op [Ix_add (replicate 12 0) small_concept] [] = [small_concept]"
    by (simp add: corpus_add_def corpus_remove_def)
  moreover have "index_fits small_scope [small_concept] (new_query [str ''ab''])"
    using small_tokens by (simp add: index_fits_def query_tokens_def new_query_def small_scope_def index_for_user_def del: str_Cons)
  ultimately have "index_search small_scope db (new_query [str ''ab'']) =
      corpus_search (ei_lower small_scope) [small_concept] (new_query [str ''ab''])"
    using index_refines_corpus [OF small_scope_ok _ db, of "new_query [str ''ab'']"] by (simp only:)
  with db show ?thesis by blast
qed



end
