(* ===== verification/Lifecycle.thy ===== *)
theory Lifecycle
  imports Complex_Main Config_Store
begin

text \<open>
  The lifecycle tunables of \<^verbatim>\<open>crates/mycelium-store/src/revisions.rs\<close>: process-global values that are
  clamped on every set and get, and the sealed configuration row they are loaded from.  A 32-bit
  float is not-a-number, an infinity or a rational; signed zero is not distinguished.
\<close>

section \<open>Ranges\<close>

datatype f32 = NaN | Infinity bool | Finite rat

text \<open>\<^verbatim>\<open>f32::clamp\<close> of a value that is not NaN; \<open>Infinity True\<close> is the negative one.\<close>

fun f32_clamp :: "rat \<Rightarrow> rat \<Rightarrow> f32 \<Rightarrow> f32" where
  "f32_clamp lo hi NaN = NaN"
| "f32_clamp lo hi (Infinity neg) = Finite (if neg then lo else hi)"
| "f32_clamp lo hi (Finite x) = Finite (if x < lo then lo else if x > hi then hi else x)"

definition clamp_u32 :: "nat \<Rightarrow> nat \<Rightarrow> nat \<Rightarrow> nat" where
  "clamp_u32 lo hi v = (if v < lo then lo else if v > hi then hi else v)"

definition DEFAULT_REVISION_RETENTION :: nat where "DEFAULT_REVISION_RETENTION = 200"
definition DEFAULT_QUERY_TOP_K :: nat where "DEFAULT_QUERY_TOP_K = 8"
definition DEFAULT_RRF_K :: nat where "DEFAULT_RRF_K = 60"
definition DEFAULT_RRF_WEIGHT :: f32 where "DEFAULT_RRF_WEIGHT = Finite 1"
definition DEFAULT_STALE_DAYS :: nat where "DEFAULT_STALE_DAYS = 90"
definition DEFAULT_RECENT_WINDOW :: nat where "DEFAULT_RECENT_WINDOW = 14"
definition DEFAULT_CONSOLIDATION_PATCHES :: nat where "DEFAULT_CONSOLIDATION_PATCHES = 8"
definition DEFAULT_DREAM_INTERVAL_S :: nat where "DEFAULT_DREAM_INTERVAL_S = 86400"

text \<open>The 32-bit float nearest to 0.92.\<close>

definition DEFAULT_DEDUP_COSINE :: f32 where "DEFAULT_DEDUP_COSINE = Finite (15435039 / 16777216)"

definition clamp_retention :: "nat \<Rightarrow> nat" where "clamp_retention v = clamp_u32 25 2000 v"
definition clamp_query_top_k :: "nat \<Rightarrow> nat" where "clamp_query_top_k v = clamp_u32 1 64 v"
definition clamp_rrf_k :: "nat \<Rightarrow> nat" where "clamp_rrf_k v = clamp_u32 1 1024 v"
definition clamp_stale_days :: "nat \<Rightarrow> nat" where "clamp_stale_days v = clamp_u32 7 3650 v"
definition clamp_recent_window :: "nat \<Rightarrow> nat" where "clamp_recent_window v = clamp_u32 1 365 v"
definition clamp_consolidation_patches :: "nat \<Rightarrow> nat" where "clamp_consolidation_patches v = clamp_u32 2 100 v"
definition clamp_dream_interval_s :: "nat \<Rightarrow> nat" where "clamp_dream_interval_s v = clamp_u32 3600 2592000 v"

definition clamp_fusion_weight :: "f32 \<Rightarrow> f32" where
  "clamp_fusion_weight w = (if w = NaN then DEFAULT_RRF_WEIGHT else f32_clamp 0 10 w)"

definition clamp_dedup_cosine :: "f32 \<Rightarrow> f32" where
  "clamp_dedup_cosine t = (if t = NaN then DEFAULT_DEDUP_COSINE else f32_clamp (1 / 2) 1 t)"

lemmas clamp_defs = clamp_retention_def clamp_query_top_k_def clamp_rrf_k_def clamp_stale_days_def
  clamp_recent_window_def clamp_consolidation_patches_def clamp_dream_interval_s_def

section \<open>Process-global values\<close>

record tunables =
  tn_revision_retention :: nat
  tn_query_top_k :: nat
  tn_rrf_k :: nat
  tn_rrf_weight_lex :: f32
  tn_rrf_weight_vec :: f32
  tn_dedup_cosine :: f32
  tn_stale_days :: nat
  tn_recent_window :: nat
  tn_consolidation_patches :: nat

definition boot_tunables :: tunables where
  "boot_tunables = \<lparr>tn_revision_retention = DEFAULT_REVISION_RETENTION, tn_query_top_k = DEFAULT_QUERY_TOP_K,
     tn_rrf_k = DEFAULT_RRF_K, tn_rrf_weight_lex = DEFAULT_RRF_WEIGHT, tn_rrf_weight_vec = DEFAULT_RRF_WEIGHT,
     tn_dedup_cosine = DEFAULT_DEDUP_COSINE, tn_stale_days = DEFAULT_STALE_DAYS,
     tn_recent_window = DEFAULT_RECENT_WINDOW, tn_consolidation_patches = DEFAULT_CONSOLIDATION_PATCHES\<rparr>"

definition set_revision_retention :: "nat \<Rightarrow> tunables \<Rightarrow> tunables" where
  "set_revision_retention v g = g\<lparr>tn_revision_retention := clamp_retention v\<rparr>"
definition set_query_top_k :: "nat \<Rightarrow> tunables \<Rightarrow> tunables" where
  "set_query_top_k v g = g\<lparr>tn_query_top_k := clamp_query_top_k v\<rparr>"
definition set_rrf_k :: "nat \<Rightarrow> tunables \<Rightarrow> tunables" where
  "set_rrf_k v g = g\<lparr>tn_rrf_k := clamp_rrf_k v\<rparr>"
definition set_rrf_weight_lex :: "f32 \<Rightarrow> tunables \<Rightarrow> tunables" where
  "set_rrf_weight_lex w g = g\<lparr>tn_rrf_weight_lex := clamp_fusion_weight w\<rparr>"
definition set_rrf_weight_vec :: "f32 \<Rightarrow> tunables \<Rightarrow> tunables" where
  "set_rrf_weight_vec w g = g\<lparr>tn_rrf_weight_vec := clamp_fusion_weight w\<rparr>"
definition set_dedup_cosine :: "f32 \<Rightarrow> tunables \<Rightarrow> tunables" where
  "set_dedup_cosine t g = g\<lparr>tn_dedup_cosine := clamp_dedup_cosine t\<rparr>"
definition set_stale_days :: "nat \<Rightarrow> tunables \<Rightarrow> tunables" where
  "set_stale_days v g = g\<lparr>tn_stale_days := clamp_stale_days v\<rparr>"
definition set_recent_window :: "nat \<Rightarrow> tunables \<Rightarrow> tunables" where
  "set_recent_window v g = g\<lparr>tn_recent_window := clamp_recent_window v\<rparr>"
definition set_consolidation_patches :: "nat \<Rightarrow> tunables \<Rightarrow> tunables" where
  "set_consolidation_patches v g = g\<lparr>tn_consolidation_patches := clamp_consolidation_patches v\<rparr>"

definition revision_retention :: "tunables \<Rightarrow> nat" where
  "revision_retention g = clamp_retention (tn_revision_retention g)"
definition query_top_k :: "tunables \<Rightarrow> nat" where
  "query_top_k g = clamp_query_top_k (tn_query_top_k g)"
definition live_rrf_params :: "tunables \<Rightarrow> nat \<times> f32 \<times> f32" where
  "live_rrf_params g = (clamp_rrf_k (tn_rrf_k g), clamp_fusion_weight (tn_rrf_weight_lex g), clamp_fusion_weight (tn_rrf_weight_vec g))"
definition dedup_cosine :: "tunables \<Rightarrow> f32" where
  "dedup_cosine g = clamp_dedup_cosine (tn_dedup_cosine g)"
definition stale_days :: "tunables \<Rightarrow> nat" where
  "stale_days g = clamp_stale_days (tn_stale_days g)"
definition recent_window :: "tunables \<Rightarrow> nat" where
  "recent_window g = clamp_recent_window (tn_recent_window g)"
definition consolidation_patches :: "tunables \<Rightarrow> nat" where
  "consolidation_patches g = clamp_consolidation_patches (tn_consolidation_patches g)"

lemmas getter_defs = revision_retention_def query_top_k_def live_rrf_params_def dedup_cosine_def stale_days_def
  recent_window_def consolidation_patches_def

section \<open>The configuration row\<close>

record lifecycle_config =
  lc_revision_retention :: nat
  lc_query_top_k :: nat
  lc_rrf_k :: nat
  lc_rrf_weight_lex :: f32
  lc_rrf_weight_vec :: f32
  lc_dedup_cosine :: f32
  lc_stale_days :: nat
  lc_recent_window :: nat
  lc_consolidation_patches :: nat
  lc_dream_interval_s :: nat
  lc_dream_enabled :: bool

definition default_lifecycle :: lifecycle_config where
  "default_lifecycle = \<lparr>lc_revision_retention = DEFAULT_REVISION_RETENTION, lc_query_top_k = DEFAULT_QUERY_TOP_K,
     lc_rrf_k = DEFAULT_RRF_K, lc_rrf_weight_lex = DEFAULT_RRF_WEIGHT, lc_rrf_weight_vec = DEFAULT_RRF_WEIGHT,
     lc_dedup_cosine = DEFAULT_DEDUP_COSINE, lc_stale_days = DEFAULT_STALE_DAYS,
     lc_recent_window = DEFAULT_RECENT_WINDOW, lc_consolidation_patches = DEFAULT_CONSOLIDATION_PATCHES,
     lc_dream_interval_s = DEFAULT_DREAM_INTERVAL_S, lc_dream_enabled = True\<rparr>"

definition clamp_lifecycle :: "lifecycle_config \<Rightarrow> lifecycle_config" where
  "clamp_lifecycle c = \<lparr>lc_revision_retention = clamp_retention (lc_revision_retention c),
     lc_query_top_k = clamp_query_top_k (lc_query_top_k c), lc_rrf_k = clamp_rrf_k (lc_rrf_k c),
     lc_rrf_weight_lex = clamp_fusion_weight (lc_rrf_weight_lex c),
     lc_rrf_weight_vec = clamp_fusion_weight (lc_rrf_weight_vec c),
     lc_dedup_cosine = clamp_dedup_cosine (lc_dedup_cosine c), lc_stale_days = clamp_stale_days (lc_stale_days c),
     lc_recent_window = clamp_recent_window (lc_recent_window c),
     lc_consolidation_patches = clamp_consolidation_patches (lc_consolidation_patches c),
     lc_dream_interval_s = clamp_dream_interval_s (lc_dream_interval_s c), lc_dream_enabled = lc_dream_enabled c\<rparr>"

definition LIFECYCLE_CONFIG_KEY :: rstring where "LIFECYCLE_CONFIG_KEY = str ''lifecycle''"

definition apply_lifecycle :: "lifecycle_config \<Rightarrow> tunables \<Rightarrow> tunables" where
  "apply_lifecycle c g =
     set_consolidation_patches (lc_consolidation_patches c) (set_recent_window (lc_recent_window c)
     (set_stale_days (lc_stale_days c) (set_dedup_cosine (lc_dedup_cosine c)
     (set_rrf_weight_vec (lc_rrf_weight_vec c) (set_rrf_weight_lex (lc_rrf_weight_lex c)
     (set_rrf_k (lc_rrf_k c) (set_query_top_k (lc_query_top_k c)
     (set_revision_retention (lc_revision_retention c) g))))))))"

definition sync_lifecycle_from_store ::
  "prims \<Rightarrow> lifecycle_config value_json \<Rightarrow> service_key \<Rightarrow> config_table \<Rightarrow> tunables \<Rightarrow> tunables" where
  "sync_lifecycle_from_store P J service t g =
     apply_lifecycle (case get_sealed P J service LIFECYCLE_CONFIG_KEY t of Some c \<Rightarrow> c | None \<Rightarrow> default_lifecycle) g"

section \<open>Always in range\<close>

fun f32_between :: "rat \<Rightarrow> rat \<Rightarrow> f32 \<Rightarrow> bool" where
  "f32_between lo hi (Finite x) \<longleftrightarrow> lo \<le> x \<and> x \<le> hi"
| "f32_between lo hi _ \<longleftrightarrow> False"

lemma clamp_u32_idem [simp]: "lo \<le> hi \<Longrightarrow> clamp_u32 lo hi (clamp_u32 lo hi v) = clamp_u32 lo hi v"
  by (simp add: clamp_u32_def)

lemma clamp_u32_range: "lo \<le> hi \<Longrightarrow> lo \<le> clamp_u32 lo hi v \<and> clamp_u32 lo hi v \<le> hi"
  by (simp add: clamp_u32_def)

lemma f32_clamp_range: "lo \<le> hi \<Longrightarrow> w \<noteq> NaN \<Longrightarrow> f32_between lo hi (f32_clamp lo hi w)"
  by (cases w) auto

lemma f32_clamp_idem: "lo \<le> hi \<Longrightarrow> f32_between lo hi w \<Longrightarrow> f32_clamp lo hi w = w"
  by (cases w) auto

lemma clamp_fusion_weight_range: "f32_between 0 10 (clamp_fusion_weight w)"
  by (simp add: clamp_fusion_weight_def DEFAULT_RRF_WEIGHT_def f32_clamp_range)

lemma clamp_dedup_cosine_range: "f32_between (1 / 2) 1 (clamp_dedup_cosine w)"
  by (simp add: clamp_dedup_cosine_def DEFAULT_DEDUP_COSINE_def f32_clamp_range)

lemma clamp_float_idem [simp]:
  "clamp_fusion_weight (clamp_fusion_weight w) = clamp_fusion_weight w"
  "clamp_dedup_cosine (clamp_dedup_cosine w) = clamp_dedup_cosine w"
proof -
  have "clamp_fusion_weight w \<noteq> NaN" "clamp_dedup_cosine w \<noteq> NaN"
    using clamp_fusion_weight_range [of w] clamp_dedup_cosine_range [of w] by auto
  then show "clamp_fusion_weight (clamp_fusion_weight w) = clamp_fusion_weight w"
    "clamp_dedup_cosine (clamp_dedup_cosine w) = clamp_dedup_cosine w"
    using f32_clamp_idem [OF _ clamp_fusion_weight_range] f32_clamp_idem [OF _ clamp_dedup_cosine_range]
    by (simp_all add: clamp_fusion_weight_def [of "clamp_fusion_weight w"] clamp_dedup_cosine_def [of "clamp_dedup_cosine w"])
qed

lemmas setter_defs = set_consolidation_patches_def set_recent_window_def set_stale_days_def set_dedup_cosine_def
  set_rrf_weight_vec_def set_rrf_weight_lex_def set_rrf_k_def set_query_top_k_def set_revision_retention_def

lemma clamp_lifecycle_sync: "apply_lifecycle (clamp_lifecycle c) g = apply_lifecycle c g"
  by (simp add: apply_lifecycle_def clamp_lifecycle_def setter_defs clamp_defs)

lemma apply_lifecycle_getters:
  "revision_retention (apply_lifecycle c g) = clamp_retention (lc_revision_retention c)"
  "query_top_k (apply_lifecycle c g) = clamp_query_top_k (lc_query_top_k c)"
  "live_rrf_params (apply_lifecycle c g) = (clamp_rrf_k (lc_rrf_k c), clamp_fusion_weight (lc_rrf_weight_lex c),
     clamp_fusion_weight (lc_rrf_weight_vec c))"
  "dedup_cosine (apply_lifecycle c g) = clamp_dedup_cosine (lc_dedup_cosine c)"
  "stale_days (apply_lifecycle c g) = clamp_stale_days (lc_stale_days c)"
  "recent_window (apply_lifecycle c g) = clamp_recent_window (lc_recent_window c)"
  "consolidation_patches (apply_lifecycle c g) = clamp_consolidation_patches (lc_consolidation_patches c)"
  by (simp_all add: getter_defs apply_lifecycle_def setter_defs clamp_defs)

lemma getter_ranges:
  "25 \<le> revision_retention g" "revision_retention g \<le> 2000" "1 \<le> query_top_k g" "query_top_k g \<le> 64"
  "1 \<le> fst (live_rrf_params g)" "fst (live_rrf_params g) \<le> 1024"
  "f32_between 0 10 (fst (snd (live_rrf_params g)))" "f32_between 0 10 (snd (snd (live_rrf_params g)))"
  "f32_between (1 / 2) 1 (dedup_cosine g)" "7 \<le> stale_days g" "stale_days g \<le> 3650"
  "1 \<le> recent_window g" "recent_window g \<le> 365" "2 \<le> consolidation_patches g" "consolidation_patches g \<le> 100"
  by (simp_all add: getter_defs clamp_defs clamp_u32_def clamp_fusion_weight_range clamp_dedup_cosine_range)

text \<open>The tunables are always in range.  Whatever the process-global cells hold, every getter
  returns a value of its documented range and no float is NaN; after a load of the configuration row
  each getter returns the row's value clamped (the defaults when the row is missing or does not
  open), so clamping before saving changes nothing that is read back.\<close>
theorem tunables_in_range:
  "25 \<le> revision_retention g \<and> revision_retention g \<le> 2000 \<and> 1 \<le> query_top_k g \<and> query_top_k g \<le> 64
   \<and> 1 \<le> fst (live_rrf_params g) \<and> fst (live_rrf_params g) \<le> 1024
   \<and> f32_between 0 10 (fst (snd (live_rrf_params g))) \<and> f32_between 0 10 (snd (snd (live_rrf_params g)))
   \<and> f32_between (1 / 2) 1 (dedup_cosine g) \<and> 7 \<le> stale_days g \<and> stale_days g \<le> 3650
   \<and> 1 \<le> recent_window g \<and> recent_window g \<le> 365 \<and> 2 \<le> consolidation_patches g \<and> consolidation_patches g \<le> 100
   \<and> (let c = (case get_sealed P J service LIFECYCLE_CONFIG_KEY t of Some c \<Rightarrow> c | None \<Rightarrow> default_lifecycle);
          g' = sync_lifecycle_from_store P J service t g in
      revision_retention g' = clamp_retention (lc_revision_retention c)
      \<and> query_top_k g' = clamp_query_top_k (lc_query_top_k c)
      \<and> live_rrf_params g' = (clamp_rrf_k (lc_rrf_k c), clamp_fusion_weight (lc_rrf_weight_lex c),
          clamp_fusion_weight (lc_rrf_weight_vec c))
      \<and> dedup_cosine g' = clamp_dedup_cosine (lc_dedup_cosine c)
      \<and> stale_days g' = clamp_stale_days (lc_stale_days c) \<and> recent_window g' = clamp_recent_window (lc_recent_window c)
      \<and> consolidation_patches g' = clamp_consolidation_patches (lc_consolidation_patches c)
      \<and> apply_lifecycle (clamp_lifecycle c) g = apply_lifecycle c g)"
  unfolding Let_def sync_lifecycle_from_store_def apply_lifecycle_getters clamp_lifecycle_sync
  using getter_ranges [of g] by (intro conjI) simp_all

end
