(* ===== verification/Revision_Log.thy ===== *)
theory Revision_Log
  imports Lifecycle Concept_Text
begin

text \<open>
  The revision log of \<^verbatim>\<open>crates/mycelium-store/src/revisions.rs\<close>: the table \<^verbatim>\<open>concept_revisions\<close> as a
  list of rows and the operations of \<^verbatim>\<open>RevisionStore\<close> on it.  Each transaction runs under SQLite's
  write lock, so it is one step; integers are the 64-bit columns and casts of the code.
\<close>

section \<open>Rows and operations\<close>

definition as_u64 :: "int \<Rightarrow> nat" where
  "as_u64 i = nat (i mod 2 ^ 64)"

definition as_i64 :: "nat \<Rightarrow> int" where
  "as_i64 n = (if n < 2 ^ 63 then int n else int n - 2 ^ 64)"

record revision_row =
  rv_scope_id :: rstring
  rv_path_token :: rstring
  rv_path :: rstring
  rv_revision_no :: int
  rv_op :: rstring
  rv_source :: rstring
  rv_summary :: rstring
  rv_payload :: bytes
  rv_created_at :: rstring

datatype revisions_error =
    Rev_unique_violation
  | Rev_crypto crypto_error
  | Rev_not_found rstring nat
  | Rev_invalid_op rstring
  | Rev_corrupted

definition REVISION_OPS :: "rstring list" where
  "REVISION_OPS = [str ''create'', str ''update'', str ''delete'', str ''restore'', str ''merge'', str ''consolidate'', str ''migration'']"

definition op_summary :: "rstring \<Rightarrow> nat option \<Rightarrow> revisions_error + rstring" where
  "op_summary op n =
     (if op = str ''create'' then Inr (str ''concept created'')
      else if op = str ''update'' then Inr (str ''concept updated'')
      else if op = str ''delete'' then Inr (str ''concept deleted'')
      else if op = str ''restore'' then
        (case n of Some k \<Rightarrow> Inr (str ''restored to revision '' @ show_nat k)
         | None \<Rightarrow> Inl (Rev_invalid_op (str ''restore requires the target revision number'')))
      else if op = str ''merge'' then Inr (str ''dream merge'')
      else if op = str ''consolidate'' then Inr (str ''consolidated body history'')
      else if op = str ''migration'' then Inr (str ''deprecated tag migrated to status: retired'')
      else Inl (Rev_invalid_op op))"

record revision_entry =
  re_revision_no :: nat
  re_op :: rstring
  re_source :: rstring
  re_summary :: rstring
  re_created_at :: rstring
  re_payload_empty :: bool

record revision_path_entry =
  rpe_path :: rstring
  rpe_live :: bool
  rpe_latest_no :: nat
  rpe_last_op :: rstring
  rpe_last_op_at :: rstring

text \<open>The store of one scope, with the libraries it calls.\<close>

record revision_store =
  rs_prims :: prims
  rs_scope_id :: rstring
  rs_keys :: index_keys

definition revisions_for_user :: "prims \<Rightarrow> rstring \<Rightarrow> master_key \<Rightarrow> revision_store" where
  "revisions_for_user P user_id master =
     \<lparr>rs_prims = P, rs_scope_id = str ''user:'' @ user_id, rs_keys = index_keys_from_master_key P master\<rparr>"

definition revisions_for_service :: "prims \<Rightarrow> service_key \<Rightarrow> rstring \<Rightarrow> revision_store" where
  "revisions_for_service P service namespace =
     \<lparr>rs_prims = P, rs_scope_id = str ''global:'' @ namespace, rs_keys = index_keys_from_service_key P service\<rparr>"

definition path_token_of :: "revision_store \<Rightarrow> rstring \<Rightarrow> rstring" where
  "path_token_of R path = index_token (rs_prims R) (rs_keys R) path"

definition revision_aad :: "revision_store \<Rightarrow> rstring \<Rightarrow> nat \<Rightarrow> rstring" where
  "revision_aad R token no = str ''rev:'' @ rs_scope_id R @ str '':'' @ token @ str '':'' @ show_nat no"

definition retention_cutoff :: "int \<Rightarrow> nat \<Rightarrow> int" where
  "retention_cutoff max_no retention = max_no - int retention"

definition in_chain :: "revision_store \<Rightarrow> rstring \<Rightarrow> revision_row \<Rightarrow> bool" where
  "in_chain R token r \<longleftrightarrow> rv_scope_id r = rs_scope_id R \<and> rv_path_token r = token"

text \<open>\<^verbatim>\<open>SELECT COALESCE(MAX(revision_no), 0)\<close>.\<close>

definition max_no :: "revision_store \<Rightarrow> rstring \<Rightarrow> revision_row list \<Rightarrow> int" where
  "max_no R token t =
     (case filter (in_chain R token) t of
        [] \<Rightarrow> 0
      | r # rs \<Rightarrow> foldl (\<lambda>m s. max m (rv_revision_no s)) (rv_revision_no r) rs)"

definition insert_revision :: "revision_row \<Rightarrow> revision_row list \<Rightarrow> revisions_error + revision_row list" where
  "insert_revision r t =
     (if list_ex (\<lambda>s. rv_scope_id s = rv_scope_id r \<and> rv_path_token s = rv_path_token r
           \<and> rv_revision_no s = rv_revision_no r) t
      then Inl Rev_unique_violation else Inr (t @ [r]))"

definition prune_to :: "revision_store \<Rightarrow> rstring \<Rightarrow> int \<Rightarrow> revision_row list \<Rightarrow> revision_row list" where
  "prune_to R token cutoff t =
     (if cutoff > 0 then delete_where (\<lambda>r. in_chain R token r \<and> rv_revision_no r \<le> cutoff) t else t)"

definition rev_crypto :: "crypto_error + 'a \<Rightarrow> revisions_error + 'a" where
  "rev_crypto r = (case r of Inl e \<Rightarrow> Inl (Rev_crypto e) | Inr x \<Rightarrow> Inr x)"

lemma rev_crypto_Inr [simp]: "rev_crypto r = Inr x \<longleftrightarrow> r = Inr x"
  by (auto simp: rev_crypto_def split: sum.splits)

text \<open>What a recording passes in besides the payload.\<close>

record revision_note =
  rn_path :: rstring
  rn_op :: rstring
  rn_source :: rstring
  rn_summary :: rstring

definition record_once ::
  "revision_store \<Rightarrow> tunables \<Rightarrow> rstring \<Rightarrow> bytes \<Rightarrow> revision_note \<Rightarrow> bytes \<Rightarrow> revision_row list
   \<Rightarrow> revisions_error + nat \<times> revision_row list" where
  "record_once R g now nonce n payload t =
     (let token = path_token_of R (rn_path n); mx = max_no R token t; no = as_u64 (mx + 1) in
      and_then (rev_crypto (aead_seal (rs_prims R) nonce payload (as_bytes (revision_aad R token no)) (index_dek (rs_keys R)))) (\<lambda>sealed.
      and_then (insert_revision \<lparr>rv_scope_id = rs_scope_id R, rv_path_token = token, rv_path = rn_path n,
          rv_revision_no = as_i64 no, rv_op = rn_op n, rv_source = rn_source n, rv_summary = rn_summary n,
          rv_payload = sealed, rv_created_at = now\<rparr> t) (\<lambda>t1.
      Inr (no, prune_to R token (retention_cutoff (mx + 1) (revision_retention g)) t1))))"

text \<open>\<^verbatim>\<open>record_internal\<close>: up to three retries on a violated unique key; \<open>nonces\<close> feeds the attempts.\<close>

fun record_attempts ::
  "nat \<Rightarrow> revision_store \<Rightarrow> tunables \<Rightarrow> rstring \<Rightarrow> (nat \<Rightarrow> bytes) \<Rightarrow> revision_note \<Rightarrow> bytes \<Rightarrow> revision_row list
   \<Rightarrow> revisions_error + nat \<times> revision_row list" where
  "record_attempts retries R g now nonces n payload t =
     (case record_once R g now (nonces retries) n payload t of
        Inl Rev_unique_violation \<Rightarrow>
          (case retries of 0 \<Rightarrow> Inl Rev_unique_violation | Suc k \<Rightarrow> record_attempts k R g now nonces n payload t)
      | r \<Rightarrow> r)"

definition record_as ::
  "revision_store \<Rightarrow> tunables \<Rightarrow> rstring \<Rightarrow> (nat \<Rightarrow> bytes) \<Rightarrow> revision_note \<Rightarrow> bytes \<Rightarrow> revision_row list
   \<Rightarrow> revisions_error + nat \<times> revision_row list" where
  "record_as R g now nonces n payload t =
     (if rn_op n \<notin> set REVISION_OPS then Inl (Rev_invalid_op (rn_op n))
      else record_attempts 3 R g now nonces n payload t)"

text \<open>\<^verbatim>\<open>record\<close>: without a provenance label.\<close>

definition record_unlabelled ::
  "revision_store \<Rightarrow> tunables \<Rightarrow> rstring \<Rightarrow> (nat \<Rightarrow> bytes) \<Rightarrow> rstring \<Rightarrow> rstring \<Rightarrow> rstring \<Rightarrow> bytes \<Rightarrow> revision_row list
   \<Rightarrow> revisions_error + nat \<times> revision_row list" where
  "record_unlabelled R g now nonces path op summary payload t =
     record_as R g now nonces \<lparr>rn_path = path, rn_op = op, rn_source = [], rn_summary = summary\<rparr> payload t"

definition try_u64 :: "int \<Rightarrow> revisions_error + nat" where
  "try_u64 i = (if i < 0 then Inl Rev_corrupted else Inr (nat i))"

definition entry_of_row :: "revision_row \<Rightarrow> revisions_error + revision_entry" where
  "entry_of_row r =
     and_then (try_u64 (rv_revision_no r)) (\<lambda>no.
     Inr \<lparr>re_revision_no = no, re_op = rv_op r, re_source = rv_source r, re_summary = rv_summary r,
          re_created_at = rv_created_at r, re_payload_empty = (length (rv_payload r) \<le> EMPTY_ENVELOPE_LEN)\<rparr>)"

definition list_revisions :: "revision_store \<Rightarrow> rstring \<Rightarrow> revision_row list \<Rightarrow> revisions_error + revision_entry list" where
  "list_revisions R path t =
     collect_results (map entry_of_row (order_by (\<lambda>r. - rv_revision_no r) (filter (in_chain R (path_token_of R path)) t)))"

definition get_revision :: "revision_store \<Rightarrow> rstring \<Rightarrow> nat \<Rightarrow> revision_row list \<Rightarrow> revisions_error + bytes" where
  "get_revision R path no t =
     (let token = path_token_of R path in
      and_then (ok_or (fetch_optional (\<lambda>r. in_chain R token r \<and> rv_revision_no r = as_i64 no) t) (Rev_not_found path no)) (\<lambda>r.
      rev_crypto (aead_open (rs_prims R) (rv_payload r) (as_bytes (revision_aad R token no)) (index_dek (rs_keys R)))))"

text \<open>\<^verbatim>\<open>list_paths\<close>; \<open>live\<close> tells the paths with a registry row in the scope.\<close>

definition latest_of :: "revision_row list \<Rightarrow> (rstring \<times> rstring \<times> int) list" where
  "latest_of rows =
     map (\<lambda>(p, k). (p, k, Max (rv_revision_no ` {r \<in> set rows. rv_path r = p \<and> rv_path_token r = k})))
       (remdups (map (\<lambda>r. (rv_path r, rv_path_token r)) rows))"

definition list_paths ::
  "revision_store \<Rightarrow> (rstring \<Rightarrow> bool) \<Rightarrow> revision_row list \<Rightarrow> revisions_error + revision_path_entry list" where
  "list_paths R live t =
     (let rows = filter (\<lambda>r. rv_scope_id r = rs_scope_id R) t in
      collect_results (map (\<lambda>(p, no, op, when).
          and_then (try_u64 no) (\<lambda>latest.
          Inr \<lparr>rpe_path = p, rpe_live = live p, rpe_latest_no = latest, rpe_last_op = op, rpe_last_op_at = when\<rparr>))
        (order_by fst (concat (map (\<lambda>(p, k, no).
           map (\<lambda>r. (p, no, rv_op r, rv_created_at r))
             (filter (\<lambda>r. rv_path_token r = k \<and> rv_revision_no r = no) rows)) (latest_of rows))))))"

definition prune :: "revision_store \<Rightarrow> tunables \<Rightarrow> rstring \<Rightarrow> revision_row list \<Rightarrow> nat \<times> revision_row list" where
  "prune R g token t =
     (let cutoff = retention_cutoff (max_no R token t) (revision_retention g); t1 = prune_to R token cutoff t in
      (length t - length t1, t1))"

definition consecutive_update_count :: "revision_store \<Rightarrow> tunables \<Rightarrow> rstring \<Rightarrow> revision_row list \<Rightarrow> nat" where
  "consecutive_update_count R g token t =
     length (takeWhile (\<lambda>op. op = str ''update'')
       (map rv_op (take (consolidation_patches g + 1) (order_by (\<lambda>r. - rv_revision_no r) (filter (in_chain R token) t)))))"

section \<open>The log as a history\<close>

text \<open>
  The history of a path is everything ever recorded for it; \<open>lo\<close> of its entries have been pruned.
  The chain holds the rest: entry \<open>i\<close>, counted from 1, is revision \<open>i\<close>.
\<close>

type_synonym history = "(revision_note \<times> bytes) list"

definition row_holds :: "revision_store \<Rightarrow> rstring \<Rightarrow> history \<Rightarrow> nat \<Rightarrow> revision_row \<Rightarrow> bool" where
  "row_holds R token h i r \<longleftrightarrow> rv_revision_no r = int i \<and> rv_path r = rn_path (fst (h ! (i - 1)))
     \<and> rv_op r = rn_op (fst (h ! (i - 1))) \<and> rv_source r = rn_source (fst (h ! (i - 1)))
     \<and> rv_summary r = rn_summary (fst (h ! (i - 1)))
     \<and> aead_open (rs_prims R) (rv_payload r) (as_bytes (revision_aad R token i)) (index_dek (rs_keys R)) = Inr (snd (h ! (i - 1)))"

definition chain_holds :: "revision_store \<Rightarrow> rstring \<Rightarrow> history \<Rightarrow> nat \<Rightarrow> revision_row list \<Rightarrow> bool" where
  "chain_holds R token h lo t \<longleftrightarrow>
     list_all2 (row_holds R token h) [Suc lo..<Suc (length h)] (filter (in_chain R token) t)
     \<and> (if h = [] then lo = 0 else lo < length h)"

lemma foldl_max: "foldl (\<lambda>m s. max m (f s)) m xs = Max (insert m (f ` set xs))" for f :: "'a \<Rightarrow> int"
proof (induction xs arbitrary: m)
  case (Cons x xs)
  have "Max (insert (max m (f x)) (f ` set xs)) = Max (insert m (insert (f x) (f ` set xs)))"
    by (cases "xs = []") (simp_all add: max.assoc)
  with Cons show ?case by simp
qed simp

lemma chain_numbers:
  "list_all2 (row_holds R token h) is rs \<Longrightarrow> map rv_revision_no rs = map int is"
  by (induction rule: list_all2_induct) (auto simp: row_holds_def)

lemma chain_max_no:
  assumes "chain_holds R token h lo t"
  shows "max_no R token t = int (length h)"
proof (cases "filter (in_chain R token) t")
  case Nil
  with assms have "[Suc lo..<Suc (length h)] = []" by (simp add: chain_holds_def)
  with assms have "h = []" by (auto simp: chain_holds_def split: if_splits)
  with Nil show ?thesis by (simp add: max_no_def)
next
  case (Cons r rs)
  have nos: "map rv_revision_no (r # rs) = map int [Suc lo..<Suc (length h)]"
    using chain_numbers [of R token h "[Suc lo..<Suc (length h)]" "r # rs"] assms Cons by (simp add: chain_holds_def)
  then have "rv_revision_no ` set (r # rs) = int ` {Suc lo..length h}"
    by (metis atLeastLessThanSuc_atLeastAtMost atLeastLessThan_upt list.set_map)
  moreover have "lo < length h" using nos by (cases "lo < length h") simp_all
  ultimately have "Max (rv_revision_no ` set (r # rs)) = int (length h)"
    by (simp only:) (intro Max_eqI, auto)
  then show ?thesis using Cons by (simp add: max_no_def foldl_max)
qed

lemma filter_upt: "filter (\<lambda>i. c < int i) [a..<b] = [max a (nat (c + 1))..<b]"
proof (induction b)
  case (Suc b)
  then show ?case by (cases "a \<le> b") (auto simp: max_def)
qed simp

lemma row_holds_append:
  "row_holds R token h i r \<Longrightarrow> 1 \<le> i \<Longrightarrow> i \<le> length h \<Longrightarrow> row_holds R token (h @ h') i r"
  by (auto simp: row_holds_def nth_append)

lemma list_all2_filter_both:
  "list_all2 P xs ys \<Longrightarrow> (\<And>x y. P x y \<Longrightarrow> p x \<longleftrightarrow> q y) \<Longrightarrow> list_all2 P (filter p xs) (filter q ys)"
  by (induction rule: list_all2_induct) auto

lemma filter_prune_to:
  assumes "\<And>r. q r \<Longrightarrow> \<not> in_chain R token r"
  shows "filter q (prune_to R token c t) = filter q t"
  using assms by (induction t) (auto simp: prune_to_def)

lemma record_once_other:
  assumes "record_once R g now nonce n payload t = Inr (no, t')"
    and "(rs_scope_id R', token') \<noteq> (rs_scope_id R, path_token_of R (rn_path n))"
  shows "filter (in_chain R' token') t' = filter (in_chain R' token') t"
proof -
  from assms(1) obtain c r where t': "t' = prune_to R (path_token_of R (rn_path n)) c (t @ [r])"
    and r: "in_chain R (path_token_of R (rn_path n)) r"
    by (auto simp: record_once_def Let_def and_then_eq_Inr insert_revision_def in_chain_def split: if_splits)
  have "\<not> in_chain R (path_token_of R (rn_path n)) s" if "in_chain R' token' s" for s
    using that assms(2) by (auto simp: in_chain_def)
  then show ?thesis using r by (auto simp: t' filter_prune_to)
qed

lemma record_once_holds:
  assumes good: "good_prims (rs_prims R)" "length nonce = NONCE_LEN"
    and holds: "chain_holds R (path_token_of R (rn_path n)) h lo t" and small: "length h + 1 < 2 ^ 63"
    and rec: "record_once R g now nonce n payload t = Inr (no, t')"
  shows "no = length h + 1 \<and>
    chain_holds R (path_token_of R (rn_path n)) (h @ [(n, payload)]) (max lo (length h + 1 - revision_retention g)) t'"
proof -
  let ?token = "path_token_of R (rn_path n)" and ?h = "h @ [(n, payload)]" and ?len = "length h + 1"
  let ?c = "retention_cutoff (int ?len) (revision_retention g)"
  have mx: "max_no R ?token t = int (length h)" using chain_max_no [OF holds] .
  have "as_u64 (int (length h) + 1) = ?len" "as_i64 ?len = int ?len"
    using small by (simp_all add: as_u64_def as_i64_def nat_mod_distrib nat_add_distrib)
  then obtain sealed where no: "no = ?len"
    and s: "aead_seal (rs_prims R) nonce payload (as_bytes (revision_aad R ?token ?len)) (index_dek (rs_keys R)) = Inr sealed"
    and t': "t' = prune_to R ?token ?c (t @ [\<lparr>rv_scope_id = rs_scope_id R, rv_path_token = ?token, rv_path = rn_path n,
          rv_revision_no = int ?len, rv_op = rn_op n, rv_source = rn_source n, rv_summary = rn_summary n,
          rv_payload = sealed, rv_created_at = now\<rparr>])" (is "_ = prune_to R ?token ?c (t @ [?r])")
    using rec by (auto simp: record_once_def Let_def mx and_then_eq_Inr insert_revision_def add.commute split: if_splits)
  have row: "row_holds R ?token ?h ?len ?r"
    using aead_box.open_seal [OF good s] by (simp add: row_holds_def nth_append)
  have old: "list_all2 (row_holds R ?token ?h) [Suc lo..<Suc (length h)] (filter (in_chain R ?token) t)"
  proof (rule list.rel_mono_strong)
    show "list_all2 (row_holds R ?token h) [Suc lo..<Suc (length h)] (filter (in_chain R ?token) t)"
      using holds by (simp add: chain_holds_def)
  qed (auto intro: row_holds_append simp del: upt_Suc)
  have le: "lo \<le> length h" using holds by (auto simp: chain_holds_def split: if_splits)
  have "list_all2 (row_holds R ?token ?h) ([Suc lo..<Suc (length h)] @ [?len]) (filter (in_chain R ?token) t @ [?r])"
    using old row by (intro list_all2_appendI) simp_all
  then have all: "list_all2 (row_holds R ?token ?h) [Suc lo..<Suc ?len] (filter (in_chain R ?token) (t @ [?r]))"
    using le by (simp add: in_chain_def)
  have ret: "25 \<le> revision_retention g" by (rule getter_ranges)
  have "filter (in_chain R ?token) t' = filter (\<lambda>r. ?c < rv_revision_no r) (filter (in_chain R ?token) (t @ [?r]))"
  proof (cases "?c > 0")
    case True
    then show ?thesis by (simp add: t' prune_to_def delete_where_def) (auto intro!: filter_cong)
  next
    case False
    have "0 < rv_revision_no r" if "r \<in> set (filter (in_chain R ?token) (t @ [?r]))" for r
    proof -
      have "rv_revision_no r \<in> set (map int [Suc lo..<Suc ?len])"
        using that chain_numbers [OF all] by (metis image_eqI list.set_map)
      then show ?thesis by auto
    qed
    then have "filter (\<lambda>r. ?c < rv_revision_no r) (filter (in_chain R ?token) (t @ [?r])) = filter (in_chain R ?token) (t @ [?r])"
      using False by (intro filter_True) fastforce
    then show ?thesis using False by (simp add: t' prune_to_def)
  qed
  moreover have "list_all2 (row_holds R ?token ?h) (filter (\<lambda>i. ?c < int i) [Suc lo..<Suc ?len])
      (filter (\<lambda>r. ?c < rv_revision_no r) (filter (in_chain R ?token) (t @ [?r])))"
    by (rule list_all2_filter_both [OF all]) (simp add: row_holds_def)
  moreover have "max (Suc lo) (nat (?c + 1)) = Suc (max lo (?len - revision_retention g))"
    by (simp add: retention_cutoff_def nat_diff_distrib' max_def) linarith
  ultimately have "chain_holds R ?token ?h (max lo (?len - revision_retention g)) t'"
    using le ret by (simp add: chain_holds_def filter_upt del: upt_Suc)
  then show "no = ?len \<and> chain_holds R ?token ?h (max lo (?len - revision_retention g)) t'" using no by simp
qed

lemma record_as_once:
  assumes "record_as R g now nonces n payload t = Inr (no, t')"
  shows "\<exists>k. record_once R g now (nonces k) n payload t = Inr (no, t')" "rn_op n \<in> set REVISION_OPS"
proof -
  have "record_attempts k R g now nonces n payload t = Inr (no, t') \<Longrightarrow>
      \<exists>k. record_once R g now (nonces k) n payload t = Inr (no, t')" for k
    by (induction k) (auto split: sum.splits revisions_error.splits)
  then show "\<exists>k. record_once R g now (nonces k) n payload t = Inr (no, t')" "rn_op n \<in> set REVISION_OPS"
    using assms by (auto simp: record_as_def split: if_splits)
qed

text \<open>A recording never meets a taken number: the only failures are a foreign operation tag and a
  refusal of the cipher.\<close>

lemma record_once_failure:
  assumes "chain_holds R (path_token_of R (rn_path n)) h lo t" "length h + 1 < 2 ^ 63"
    and "record_once R g now nonce n payload t = Inl e"
  shows "\<exists>c. e = Rev_crypto c"
proof -
  let ?token = "path_token_of R (rn_path n)"
  have mx: "max_no R ?token t = int (length h)" using chain_max_no [OF assms(1)] .
  have i64: "as_i64 (as_u64 (int (length h) + 1)) = int (length h) + 1"
    using assms(2) by (simp add: as_u64_def as_i64_def nat_mod_distrib nat_add_distrib)
  have "rv_revision_no r \<noteq> int (length h) + 1" if "r \<in> set t" "in_chain R ?token r" for r
  proof -
    have "r \<in> set (filter (in_chain R ?token) t)" using that by simp
    moreover have "map rv_revision_no (filter (in_chain R ?token) t) = map int [Suc lo..<Suc (length h)]"
      using assms(1) chain_numbers unfolding chain_holds_def by blast
    ultimately have "rv_revision_no r \<in> set (map int [Suc lo..<Suc (length h)])"
      by (metis image_eqI list.set_map)
    then show ?thesis by auto
  qed
  then have "\<not> list_ex (\<lambda>s. rv_scope_id s = rs_scope_id R \<and> rv_path_token s = ?token
      \<and> rv_revision_no s = int (length h) + 1) t"
    by (auto simp: list_ex_iff in_chain_def)
  then have "insert_revision (\<lparr>rv_scope_id = rs_scope_id R, rv_path_token = ?token, rv_path = rn_path n,
          rv_revision_no = int (length h) + 1, rv_op = rn_op n, rv_source = rn_source n, rv_summary = rn_summary n,
          rv_payload = b, rv_created_at = now\<rparr>) t \<noteq> Inl f" for b f
    by (simp add: insert_revision_def)
  then show ?thesis
    using assms(3)
    by (auto simp: record_once_def Let_def mx i64 and_then_def rev_crypto_def split: sum.splits)
qed

lemma get_revision_value:
  assumes "chain_holds R (path_token_of R path) h lo t" "length h < 2 ^ 63" "i < 2 ^ 63"
  shows "get_revision R path i t =
    (if lo < i \<and> i \<le> length h then Inr (snd (h ! (i - 1))) else Inl (Rev_not_found path i))"
proof -
  let ?token = "path_token_of R path" and ?is = "[Suc lo..<Suc (length h)]"
  let ?rows = "filter (in_chain R ?token) t"
  have all: "list_all2 (row_holds R ?token h) ?is ?rows" using assms(1) by (simp add: chain_holds_def)
  have nos: "map rv_revision_no ?rows = map int ?is" using chain_numbers [OF all] .
  have key: "as_i64 i = int i" using assms(3) by (simp add: as_i64_def)
  have fetch: "fetch_optional (\<lambda>r. in_chain R ?token r \<and> rv_revision_no r = int i) t =
      fetch_optional (\<lambda>r. rv_revision_no r = int i) ?rows"
    by (induction t) auto
  show ?thesis
  proof (cases "lo < i \<and> i \<le> length h")
    case True
    then have "int i \<in> set (map rv_revision_no ?rows)" unfolding nos by auto
    then obtain r where r: "fetch_optional (\<lambda>r. rv_revision_no r = int i) ?rows = Some r"
      using fetch_optional_None [of "\<lambda>r. rv_revision_no r = int i" ?rows] by (cases "fetch_optional (\<lambda>r. rv_revision_no r = int i) ?rows") auto
    then have "r \<in> set ?rows" "rv_revision_no r = int i" using fetch_optional_SomeD by fast+
    then obtain j where "row_holds R ?token h j r" using all by (metis in_set_conv_nth list_all2_conv_all_nth)
    with \<open>rv_revision_no r = int i\<close> have "row_holds R ?token h i r" by (simp add: row_holds_def)
    with r True show ?thesis by (simp add: get_revision_def Let_def key fetch row_holds_def rev_crypto_def)
  next
    case False
    then have "int i \<notin> set (map rv_revision_no ?rows)" unfolding nos by auto
    then have "fetch_optional (\<lambda>r. rv_revision_no r = int i) ?rows = None"
      by (force simp: fetch_optional_None)
    with False show ?thesis by (simp add: get_revision_def Let_def key fetch)
  qed
qed

section \<open>Any sequence of recordings\<close>

record recording =
  rc_globals :: tunables
  rc_now :: rstring
  rc_nonces :: "nat \<Rightarrow> bytes"
  rc_note :: revision_note
  rc_payload :: bytes

fun record_all :: "revision_store \<Rightarrow> recording list \<Rightarrow> revision_row list \<Rightarrow> revisions_error + revision_row list" where
  "record_all R [] t = Inr t"
| "record_all R (e # es) t =
     and_then (record_as R (rc_globals e) (rc_now e) (rc_nonces e) (rc_note e) (rc_payload e) t) (\<lambda>(no, t'). record_all R es t')"

definition history_of :: "rstring \<Rightarrow> recording list \<Rightarrow> history" where
  "history_of path es = map (\<lambda>e. (rc_note e, rc_payload e)) (filter (\<lambda>e. rn_path (rc_note e) = path) es)"

lemma history_of_Cons:
  "history_of path (e # es) = (if rn_path (rc_note e) = path then [(rc_note e, rc_payload e)] else []) @ history_of path es"
  by (simp add: history_of_def)

lemma record_all_holds:
  assumes good: "good_prims (rs_prims R)" "\<forall>e \<in> set es. \<forall>k. length (rc_nonces e k) = NONCE_LEN"
    and tokens: "\<forall>e \<in> set es. path_token_of R (rn_path (rc_note e)) = path_token_of R path \<longrightarrow> rn_path (rc_note e) = path"
    and holds: "chain_holds R (path_token_of R path) h lo t" "lo + 25 \<le> length h \<or> lo = 0"
    and small: "length h + length es < 2 ^ 63" and rec: "record_all R es t = Inr t'"
  shows "\<exists>lo'. chain_holds R (path_token_of R path) (h @ history_of path es) lo' t'
    \<and> (lo' + 25 \<le> length (h @ history_of path es) \<or> lo' = 0)"
  using assms(2-)
proof (induction es arbitrary: h lo t)
  case (Cons e es)
  from Cons.prems(6) obtain no t1 where t1:
    "record_as R (rc_globals e) (rc_now e) (rc_nonces e) (rc_note e) (rc_payload e) t = Inr (no, t1)" "record_all R es t1 = Inr t'"
    by (auto simp: and_then_eq_Inr)
  from record_as_once(1) [OF t1(1)] obtain k where k:
    "record_once R (rc_globals e) (rc_now e) (rc_nonces e k) (rc_note e) (rc_payload e) t = Inr (no, t1)" by blast
  have nonce: "length (rc_nonces e k) = NONCE_LEN" using Cons.prems(1) by simp
  note IH = Cons.IH [OF _ _ _ _ _ t1(2)]
  show ?case
  proof (cases "rn_path (rc_note e) = path")
    case True
    let ?lo = "max lo (length h + 1 - revision_retention (rc_globals e))"
    have len: "length h + 1 < 2 ^ 63" using Cons.prems(5) by simp
    have "chain_holds R (path_token_of R path) (h @ [(rc_note e, rc_payload e)]) ?lo t1"
      using record_once_holds(1) [OF good(1) nonce _ len k] Cons.prems(3) True by blast
    moreover have "?lo + 25 \<le> length (h @ [(rc_note e, rc_payload e)]) \<or> ?lo = 0"
      using Cons.prems(4) getter_ranges(1) [of "rc_globals e"] by (auto simp: max_def)
    ultimately show ?thesis
      using IH [of "h @ [(rc_note e, rc_payload e)]" ?lo] Cons.prems(1,2,5) True by (simp add: history_of_Cons)
  next
    case False
    then have "path_token_of R (rn_path (rc_note e)) \<noteq> path_token_of R path" using Cons.prems(2) by auto
    then have same: "filter (in_chain R (path_token_of R path)) t1 = filter (in_chain R (path_token_of R path)) t"
      using record_once_other [OF k, of R] by auto
    then have "chain_holds R (path_token_of R path) h lo t1" using Cons.prems(3) by (simp add: chain_holds_def)
    then show ?thesis
      using IH [of h lo] Cons.prems(1,2,4,5) False by (simp add: history_of_Cons)
  qed
qed (auto simp: history_of_def)

text \<open>The associated data of a blob names its scope, its path token and its number.\<close>

lemma append_sep_inject:
  "c \<notin> set b \<Longrightarrow> c \<notin> set b' \<Longrightarrow> a @ c # b = a' @ c # b' \<Longrightarrow> a = a' \<and> b = b'"
proof -
  assume c: "c \<notin> set b" "c \<notin> set b'" and eq: "a @ c # b = a' @ c # b'"
  have "rev b = takeWhile (\<lambda>x. x \<noteq> c) (rev (a @ c # b))" "rev b' = takeWhile (\<lambda>x. x \<noteq> c) (rev (a' @ c # b'))"
    using c by (auto simp: takeWhile_append)
  with eq show ?thesis by (metis append_same_eq rev_rev_ident)
qed

lemma path_token_no_colon: "good_prims (rs_prims R) \<Longrightarrow> 58 \<notin> set (path_token_of R path)"
  using good_primsD(9) [of "rs_prims R" "hmac (rs_prims R) (token_key (rs_keys R)) (as_bytes path)"]
  by (auto simp: path_token_of_def index_token_def list_all_iff is_ascii_alphanumeric_def is_ascii_digit_def
      is_ascii_lowercase_def is_ascii_uppercase_def)

lemma revision_aad_inject:
  assumes "good_prims (rs_prims R)" "good_prims (rs_prims R')"
    and "revision_aad R (path_token_of R p) i = revision_aad R' (path_token_of R' p') j"
  shows "rs_scope_id R = rs_scope_id R' \<and> path_token_of R p = path_token_of R' p' \<and> i = j"
proof -
  have digits: "58 \<notin> set (show_nat n)" for n using show_nat_set by fastforce
  have "(rs_scope_id R @ 58 # path_token_of R p) @ 58 # show_nat i = (rs_scope_id R' @ 58 # path_token_of R' p') @ 58 # show_nat j"
    using assms(3) by (simp add: revision_aad_def)
  from append_sep_inject [OF digits digits this]
  have 1: "rs_scope_id R @ 58 # path_token_of R p = rs_scope_id R' @ 58 # path_token_of R' p'" "i = j" by simp_all
  from append_sep_inject [OF path_token_no_colon [OF assms(1)] path_token_no_colon [OF assms(2)] 1(1)] 1(2)
  show ?thesis by simp
qed

section \<open>Properties\<close>

text \<open>C9.  The revision log is a faithful undo history.  After any sequence of successful recordings on
  an empty table, for every path whose token no other recorded path shares: revision \<open>i\<close> is the
  \<open>i\<close>-th snapshot ever recorded for that path, numbers are never reused, a retained revision reads
  back byte for byte and any other number is reported as not found; at most the oldest revisions are
  pruned, and never one of the newest 25.\<close>
theorem revision_log_is_history:
  assumes "good_prims (rs_prims R)" "\<forall>e \<in> set es. \<forall>k. length (rc_nonces e k) = NONCE_LEN"
    and "\<forall>e \<in> set es. path_token_of R (rn_path (rc_note e)) = path_token_of R path \<longrightarrow> rn_path (rc_note e) = path"
    and "length es < 2 ^ 63" "record_all R es [] = Inr t"
  shows "\<exists>lo. (lo + 25 \<le> length (history_of path es) \<or> lo = 0) \<and>
    (\<forall>i < 2 ^ 63. get_revision R path i t =
       (if lo < i \<and> i \<le> length (history_of path es) then Inr (snd (history_of path es ! (i - 1)))
        else Inl (Rev_not_found path i)))"
proof -
  have "chain_holds R (path_token_of R path) [] 0 []" by (simp add: chain_holds_def)
  from record_all_holds [OF assms(1-3) this _ _ assms(5)] assms(4)
  obtain lo where lo: "chain_holds R (path_token_of R path) (history_of path es) lo t"
    "lo + 25 \<le> length (history_of path es) \<or> lo = 0" by auto
  have "length (history_of path es) \<le> length es" by (simp add: history_of_def)
  then have "length (history_of path es) < 2 ^ 63" using assms(4) by linarith
  with lo get_revision_value [OF lo(1)] show ?thesis by blast
qed

definition small_log :: revision_store where
  "small_log = revisions_for_user toy_prims (str ''u'') (MasterKey [])"

definition small_recording :: recording where
  "small_recording = \<lparr>rc_globals = boot_tunables, rc_now = [], rc_nonces = (\<lambda>_. replicate 12 0),
     rc_note = \<lparr>rn_path = str ''/a.md'', rn_op = str ''create'', rn_source = [], rn_summary = []\<rparr>, rc_payload = [7]\<rparr>"

theorem revision_log_is_history_witness:
  "\<exists>t lo. record_all small_log [small_recording] [] = Inr t \<and> (lo + 25 \<le> (1::nat) \<or> lo = 0) \<and>
     (\<forall>i < 2 ^ 63. get_revision small_log (str ''/a.md'') i t =
       (if lo < i \<and> i \<le> 1 then Inr (snd (history_of (str ''/a.md'') [small_recording] ! (i - 1)))
        else Inl (Rev_not_found (str ''/a.md'') i)))"
proof -
  have P: "rs_prims small_log = toy_prims" by (simp add: small_log_def revisions_for_user_def)
  have "\<exists>b. aead_seal toy_prims (replicate 12 0) [7] a (index_dek (rs_keys small_log)) = Inr b" for a
    by (simp add: small_log_def revisions_for_user_def aead_seal_def index_keys_from_master_key_def derive_dek_from_def toy_prims_def)
  then have "\<exists>t no. record_once small_log boot_tunables [] (replicate 12 0)
      \<lparr>rn_path = str ''/a.md'', rn_op = str ''create'', rn_source = [], rn_summary = []\<rparr> [7] [] = Inr (no, t)"
    unfolding record_once_def Let_def P by (simp add: and_then_def rev_crypto_def insert_revision_def split: sum.split) (metis sum.distinct(1))
  then obtain t no where "record_once small_log boot_tunables [] (replicate 12 0)
      \<lparr>rn_path = str ''/a.md'', rn_op = str ''create'', rn_source = [], rn_summary = []\<rparr> [7] [] = Inr (no, t)" by blast
  then have t: "record_all small_log [small_recording] [] = Inr t"
    by (simp add: small_recording_def record_as_def REVISION_OPS_def numeral_eq_Suc)
  have len: "length (history_of (str ''/a.md'') [small_recording]) = 1"
    by (simp add: history_of_def small_recording_def)
  have "\<exists>lo. (lo + 25 \<le> length (history_of (str ''/a.md'') [small_recording]) \<or> lo = 0) \<and>
    (\<forall>i < 2 ^ 63. get_revision small_log (str ''/a.md'') i t =
       (if lo < i \<and> i \<le> length (history_of (str ''/a.md'') [small_recording])
        then Inr (snd (history_of (str ''/a.md'') [small_recording] ! (i - 1))) else Inl (Rev_not_found (str ''/a.md'') i)))"
    by (rule revision_log_is_history [OF _ _ _ _ t])
      (simp_all add: P good_toy_prims small_recording_def NONCE_LEN_def)
  with t show ?thesis unfolding len by blast
qed

text \<open>A revision blob is bound to its place.  What \<^verbatim>\<open>get\<close> returns was sealed as exactly that content
  for that scope, that path token and that revision number, and no other scope, token or number has
  the same associated data; so a stored blob that was moved within the table is accepted only if it
  was also sealed for its new place.\<close>
theorem revision_blob_bound:
  assumes "good_prims (rs_prims R)" "get_revision R path i t = Inr content"
  shows "\<exists>r nonce. r \<in> set t \<and> in_chain R (path_token_of R path) r \<and> rv_revision_no r = as_i64 i \<and> length nonce = 12
    \<and> aead_seal (rs_prims R) nonce content (as_bytes (revision_aad R (path_token_of R path) i)) (index_dek (rs_keys R)) = Inr (rv_payload r)
    \<and> (\<forall>R' p' j. rs_prims R' = rs_prims R \<and> revision_aad R' (path_token_of R' p') j = revision_aad R (path_token_of R path) i \<longrightarrow>
         rs_scope_id R' = rs_scope_id R \<and> path_token_of R' p' = path_token_of R path \<and> j = i)"
proof -
  from assms(2) obtain r where r: "fetch_optional (\<lambda>r. in_chain R (path_token_of R path) r \<and> rv_revision_no r = as_i64 i) t = Some r"
    and o: "aead_open (rs_prims R) (rv_payload r) (as_bytes (revision_aad R (path_token_of R path) i)) (index_dek (rs_keys R)) = Inr content"
    by (auto simp: get_revision_def Let_def and_then_eq_Inr)
  from fetch_optional_SomeD [OF r] have "r \<in> set t" "in_chain R (path_token_of R path) r" "rv_revision_no r = as_i64 i" by simp_all
  moreover obtain nonce where "length nonce = NONCE_LEN"
    "aead_seal (rs_prims R) nonce content (as_bytes (revision_aad R (path_token_of R path) i)) (index_dek (rs_keys R)) = Inr (rv_payload r)"
    using aead_box.open_genuine [OF assms(1) o] by blast
  moreover have "rs_scope_id R' = rs_scope_id R \<and> path_token_of R' p' = path_token_of R path \<and> j = i"
    if "rs_prims R' = rs_prims R" "revision_aad R' (path_token_of R' p') j = revision_aad R (path_token_of R path) i" for R' p' j
    using revision_aad_inject [of R' R p' j path i] that assms(1) by simp
  ultimately show ?thesis by (metis NONCE_LEN_def)
qed

theorem revision_blob_bound_witness:
  "\<exists>t r nonce. get_revision small_log (str ''/a.md'') 1 t = Inr [7] \<and> r \<in> set t \<and> length nonce = 12
    \<and> aead_seal (rs_prims small_log) nonce [7]
        (as_bytes (revision_aad small_log (path_token_of small_log (str ''/a.md'')) 1)) (index_dek (rs_keys small_log)) = Inr (rv_payload r)"
proof -
  let ?token = "path_token_of small_log (str ''/a.md'')"
  let ?aad = "as_bytes (revision_aad small_log ?token 1)"
  have good: "good_prims (rs_prims small_log)" by (simp add: small_log_def revisions_for_user_def good_toy_prims)
  have "\<exists>b. aead_seal (rs_prims small_log) (replicate 12 0) [7] a (index_dek (rs_keys small_log)) = Inr b" for a
    by (simp add: small_log_def revisions_for_user_def aead_seal_def index_keys_from_master_key_def derive_dek_from_def toy_prims_def)
  then obtain b where b: "aead_seal (rs_prims small_log) (replicate 12 0) [7] ?aad (index_dek (rs_keys small_log)) = Inr b" by blast
  define r where "r = \<lparr>rv_scope_id = rs_scope_id small_log, rv_path_token = ?token, rv_path = str ''/a.md'',
    rv_revision_no = 1, rv_op = [], rv_source = [], rv_summary = [], rv_payload = b, rv_created_at = []\<rparr>"
  have "aead_open (rs_prims small_log) b ?aad (index_dek (rs_keys small_log)) = Inr [7]"
    using aead_box.open_seal [OF good _ b] by (simp add: NONCE_LEN_def)
  then have get: "get_revision small_log (str ''/a.md'') 1 [r] = Inr [7]"
    by (simp add: get_revision_def Let_def in_chain_def r_def as_i64_def rev_crypto_def)
  from revision_blob_bound [OF good get] get show ?thesis by blast
qed

end
