(* ===== verification/Concept_Store.thy ===== *)
theory Concept_Store
  imports File_Repo Search_Index Revision_Log
begin

text \<open>
  The coordinated concept store: \<^verbatim>\<open>crates/mycelium-store/src/concept_store.rs\<close>.  Its state is the
  directory of encrypted files, the registry table \<^verbatim>\<open>scope_files\<close>, the search tables, the revision
  log and the vector hooks.  An operation is a list of steps, each of which may fail; the steps before
  the failing one stay, since nothing rolls them back.  A crash, or an I/O or database error, is a
  stop between two steps.
\<close>

section \<open>State\<close>

datatype store_error =
    Store_repo file_repo_error
  | Store_index index_error
  | Store_parse concept_error
  | Store_revisions revisions_error
  | Store_not_found rstring
  | Store_reserved rstring
  | Store_queue_path rstring

record concept_entry =
  ce_path :: rstring
  ce_title :: rstring
  ce_concept_type :: rstring
  ce_updated_at :: rstring

type_synonym registry = "(rstring \<times> concept_entry) list"

record store_state =
  st_files :: directory
  st_registry :: registry
  st_index :: index_db
  st_revisions :: "revision_row list"
  st_vector_queue :: "(rstring \<times> rstring) list"
  st_vector_rows :: "(rstring \<times> rstring) list"
  st_vector_cache :: "rstring list"
  st_cache_epoch :: nat

text \<open>A store of one scope, with the libraries and process globals it uses.\<close>

record concept_store =
  cs_prims :: prims
  cs_meta :: meta_json
  cs_doc :: doc_json
  cs_yaml :: yaml
  cs_lower :: "rstring \<Rightarrow> rstring"
  cs_rfc3339_ok :: "rstring \<Rightarrow> bool"
  cs_globals :: tunables
  cs_scope_id :: rstring
  cs_scope :: scope
  cs_provenance :: "rstring option"
  cs_revision_op :: "rstring option"

definition with_provenance :: "rstring \<Rightarrow> concept_store \<Rightarrow> concept_store" where
  "with_provenance source S = S\<lparr>cs_provenance := Some source\<rparr>"

definition with_revision_op :: "rstring \<Rightarrow> concept_store \<Rightarrow> concept_store" where
  "with_revision_op op S = S\<lparr>cs_revision_op := Some op\<rparr>"

definition concept_store_for_user :: "rstring \<Rightarrow> master_key \<Rightarrow> concept_store \<Rightarrow> concept_store" where
  "concept_store_for_user user_id master S =
     S\<lparr>cs_scope_id := str ''user:'' @ user_id, cs_scope := User_scope master, cs_provenance := None, cs_revision_op := None\<rparr>"

definition concept_store_for_service :: "service_key \<Rightarrow> rstring \<Rightarrow> concept_store \<Rightarrow> concept_store" where
  "concept_store_for_service service namespace S =
     S\<lparr>cs_scope_id := str ''global:'' @ namespace, cs_scope := Service_scope service, cs_provenance := None, cs_revision_op := None\<rparr>"

definition store_index_keys :: "concept_store \<Rightarrow> index_keys" where
  "store_index_keys S =
     (case cs_scope S of
        User_scope master \<Rightarrow> index_keys_from_master_key (cs_prims S) master
      | Service_scope service \<Rightarrow> index_keys_from_service_key (cs_prims S) service)"

definition store_index :: "concept_store \<Rightarrow> encrypted_index" where
  "store_index S = \<lparr>ei_prims = cs_prims S, ei_json = cs_doc S, ei_lower = cs_lower S, ei_scope_id = cs_scope_id S,
     ei_keys = store_index_keys S\<rparr>"

definition store_revisions :: "concept_store \<Rightarrow> revision_store" where
  "store_revisions S = \<lparr>rs_prims = cs_prims S, rs_scope_id = cs_scope_id S, rs_keys = store_index_keys S\<rparr>"

section \<open>Vector hooks\<close>

text \<open>The hooks of \<^verbatim>\<open>vectors.rs\<close> that the store calls: the bounded queue of embed work, the row
  removal and the cache drop.\<close>

definition VECTOR_QUEUE_CAPACITY :: nat where "VECTOR_QUEUE_CAPACITY = 512"

definition enqueue_write :: "rstring \<Rightarrow> rstring \<Rightarrow> (rstring \<times> rstring) list \<Rightarrow> (rstring \<times> rstring) list" where
  "enqueue_write scope_id token queue =
     (if (scope_id, token) \<in> set queue \<or> length queue \<ge> VECTOR_QUEUE_CAPACITY then queue
      else queue @ [(scope_id, token)])"

definition drain_queue :: "nat \<Rightarrow> (rstring \<times> rstring) list \<Rightarrow> (rstring \<times> rstring) list \<times> (rstring \<times> rstring) list" where
  "drain_queue mx queue = (let n = min mx (length queue) in (take n queue, drop n queue))"

definition invalidate_scope :: "rstring \<Rightarrow> store_state \<Rightarrow> store_state" where
  "invalidate_scope scope_id st = st\<lparr>st_cache_epoch := st_cache_epoch st + 1,
     st_vector_cache := filter (\<lambda>s. s \<noteq> scope_id) (st_vector_cache st)\<rparr>"

definition vector_token :: "concept_store \<Rightarrow> rstring \<Rightarrow> rstring" where
  "vector_token S path = index_token (cs_prims S) (store_index_keys S) path"

definition remove_row :: "concept_store \<Rightarrow> rstring \<Rightarrow> store_state \<Rightarrow> store_state" where
  "remove_row S path st =
     st\<lparr>st_vector_rows := filter (\<lambda>r. r \<noteq> (cs_scope_id S, vector_token S path)) (st_vector_rows st)\<rparr>"

section \<open>Guards and stamps\<close>

definition queue_prefix :: rstring where "queue_prefix = str ''/mutation-queue/''"

definition basename :: "rstring \<Rightarrow> rstring" where
  "basename path = last (split_on SLASH path)"

definition stamp :: "concept_store \<Rightarrow> rstring \<Rightarrow> concept \<Rightarrow> concept" where
  "stamp S now c =
     c\<lparr>co_frontmatter :=
        (let fm = (co_frontmatter c)\<lparr>fm_confirmed_at := Some now\<rparr> in
         case cs_provenance S of
           Some src \<Rightarrow> if src = [] then fm else fm\<lparr>fm_source := Some src\<rparr>
         | None \<Rightarrow> fm)\<rparr>"

text \<open>What one concept of a batch draws: clock readings, nonces and the temporary file's suffix.\<close>

record put_draws =
  pd_confirmed_at :: rstring
  pd_revision_at :: rstring
  pd_revision_nonces :: "nat \<Rightarrow> bytes"
  pd_inner_nonce :: bytes
  pd_outer_nonce :: bytes
  pd_tmp :: rstring
  pd_registry_at :: rstring
  pd_index_nonce :: bytes

definition lift_error :: "('a \<Rightarrow> store_error) \<Rightarrow> 'a + 'b \<Rightarrow> store_error + 'b" where
  "lift_error f r = (case r of Inl e \<Rightarrow> Inl (f e) | Inr x \<Rightarrow> Inr x)"

lemma lift_error_Inr [simp]: "lift_error f r = Inr x \<longleftrightarrow> r = Inr x"
  by (auto simp: lift_error_def split: sum.splits)

text \<open>The loop before any write: reserved names, stamps, lifecycle validation.\<close>

fun stamp_all :: "concept_store \<Rightarrow> (put_draws \<times> concept) list \<Rightarrow> store_error + (put_draws \<times> concept) list" where
  "stamp_all S [] = Inr []"
| "stamp_all S ((d, c) # xs) =
     (if is_reserved_filename (basename (co_source_path c)) then Inl (Store_reserved (co_source_path c))
      else
        (let c' = stamp S (pd_confirmed_at d) c in
         and_then (lift_error Store_parse (frontmatter_validated (cs_rfc3339_ok S) (co_frontmatter c'))) (\<lambda>_.
         and_then (stamp_all S xs) (\<lambda>ys. Inr ((d, c') # ys)))))"

section \<open>Steps\<close>

type_synonym step = "store_state \<Rightarrow> (store_error + unit) \<times> store_state"

fun run_steps :: "step list \<Rightarrow> step" where
  "run_steps [] st = (Inr (), st)"
| "run_steps (f # fs) st = (case f st of (Inl e, st') \<Rightarrow> (Inl e, st') | (Inr _, st') \<Rightarrow> run_steps fs st')"

definition registry_has :: "concept_store \<Rightarrow> rstring \<Rightarrow> store_state \<Rightarrow> bool" where
  "registry_has S path st \<longleftrightarrow> list_ex (\<lambda>(s, e). s = cs_scope_id S \<and> ce_path e = path) (st_registry st)"

definition read_raw :: "concept_store \<Rightarrow> rstring \<Rightarrow> store_state \<Rightarrow> file_repo_error + bytes" where
  "read_raw S path st = read_file (cs_prims S) (cs_meta S) path (cs_scope S) (st_files st)"

text \<open>The operation tag and the payload of the undo row.\<close>

definition revision_choice ::
  "concept_store \<Rightarrow> rstring option \<Rightarrow> concept \<Rightarrow> rstring \<Rightarrow> store_state \<Rightarrow> store_error + rstring \<times> bytes" where
  "revision_choice S op_override c markdown st =
     (let created = (\<lambda>tag. Inr (tag, as_bytes markdown)) in
      case op_override of
        Some tag \<Rightarrow>
          if tag = str ''create'' then created tag
          else (case read_raw S (co_source_path c) st of
                  Inr pre \<Rightarrow> Inr (tag, pre)
                | Inl Not_found \<Rightarrow> if tag = str ''restore'' then Inr (tag, []) else created tag
                | Inl e \<Rightarrow> Inl (Store_repo e))
      | None \<Rightarrow>
          if \<not> registry_has S (co_source_path c) st then created (str ''create'')
          else (case read_raw S (co_source_path c) st of
                  Inr pre \<Rightarrow> Inr (str ''update'', pre)
                | Inl Not_found \<Rightarrow> created (str ''create'')
                | Inl e \<Rightarrow> Inl (Store_repo e)))"

definition rev_source :: "concept_store \<Rightarrow> concept \<Rightarrow> rstring" where
  "rev_source S c =
     (case cs_provenance S of
        Some src \<Rightarrow> src
      | None \<Rightarrow> (case fm_source (co_frontmatter c) of Some s \<Rightarrow> s | None \<Rightarrow> []))"

definition record_note ::
  "concept_store \<Rightarrow> put_draws \<Rightarrow> revision_note \<Rightarrow> bytes \<Rightarrow> step" where
  "record_note S d n payload st =
     (case record_as (store_revisions S) (cs_globals S) (pd_revision_at d) (pd_revision_nonces d) n payload (st_revisions st) of
        Inl e \<Rightarrow> (Inl (Store_revisions e), st)
      | Inr (no, rows) \<Rightarrow> (Inr (), st\<lparr>st_revisions := rows\<rparr>))"

definition revision_step ::
  "concept_store \<Rightarrow> put_draws \<Rightarrow> rstring option \<Rightarrow> rstring option \<Rightarrow> concept \<Rightarrow> rstring \<Rightarrow> step" where
  "revision_step S d op_override summary_override c markdown st =
     (if starts_with (co_source_path c) queue_prefix then (Inr (), st)
      else
        (case revision_choice S op_override c markdown st of
           Inl e \<Rightarrow> (Inl e, st)
         | Inr (op, payload) \<Rightarrow>
             (case (case summary_override of Some s \<Rightarrow> Inr s | None \<Rightarrow> op_summary op None) of
                Inl e \<Rightarrow> (Inl (Store_revisions e), st)
              | Inr summary \<Rightarrow>
                  record_note S d \<lparr>rn_path = co_source_path c, rn_op = op, rn_source = rev_source S c, rn_summary = summary\<rparr>
                    payload st)))"

definition write_raw :: "concept_store \<Rightarrow> put_draws \<Rightarrow> rstring \<Rightarrow> bytes \<Rightarrow> step" where
  "write_raw S d path content st =
     (case write_file (cs_prims S) (cs_meta S) (pd_inner_nonce d) (pd_outer_nonce d) (pd_tmp d) path content (cs_scope S) (st_files st) of
        (Inl e, files) \<Rightarrow> (Inl (Store_repo e), st\<lparr>st_files := files\<rparr>)
      | (Inr _, files) \<Rightarrow> (Inr (), st\<lparr>st_files := files\<rparr>))"

text \<open>\<^verbatim>\<open>INSERT ... ON CONFLICT(scope, path) DO UPDATE\<close>.\<close>

definition registry_upsert :: "rstring \<Rightarrow> concept_entry \<Rightarrow> registry \<Rightarrow> registry" where
  "registry_upsert scope_id e rows =
     (if list_ex (\<lambda>(s, x). s = scope_id \<and> ce_path x = ce_path e) rows
      then map (\<lambda>(s, x). if s = scope_id \<and> ce_path x = ce_path e then (s, e) else (s, x)) rows
      else rows @ [(scope_id, e)])"

definition registry_step :: "concept_store \<Rightarrow> put_draws \<Rightarrow> concept \<Rightarrow> step" where
  "registry_step S d c st =
     (Inr (), st\<lparr>st_registry := registry_upsert (cs_scope_id S)
        \<lparr>ce_path = co_source_path c, ce_title = concept_title c, ce_concept_type = fm_type (co_frontmatter c),
         ce_updated_at = pd_registry_at d\<rparr> (st_registry st)\<rparr>)"

definition index_step :: "concept_store \<Rightarrow> put_draws \<Rightarrow> concept \<Rightarrow> step" where
  "index_step S d c st =
     (case add_async (store_index S) (pd_index_nonce d) c (st_index st) of
        Inl e \<Rightarrow> (Inl (Store_index e), st)
      | Inr db \<Rightarrow> (Inr (), st\<lparr>st_index := db\<rparr>))"

definition vector_step :: "concept_store \<Rightarrow> concept \<Rightarrow> step" where
  "vector_step S c st =
     (Inr (), st\<lparr>st_vector_queue := enqueue_write (cs_scope_id S) (vector_token S (co_source_path c)) (st_vector_queue st)\<rparr>)"

definition put_steps ::
  "concept_store \<Rightarrow> rstring option \<Rightarrow> rstring option \<Rightarrow> put_draws \<times> concept \<Rightarrow> step list" where
  "put_steps S op_override summary_override x =
     (case x of (d, c) \<Rightarrow>
       (case to_markdown (cs_yaml S) c of
          Inl e \<Rightarrow> [\<lambda>st. (Inl (Store_parse e), st)]
        | Inr markdown \<Rightarrow>
            [revision_step S d op_override summary_override c markdown,
             write_raw S d (co_source_path c) (as_bytes markdown),
             registry_step S d c, index_step S d c, vector_step S c]))"

section \<open>Listing and the directory indexes\<close>

definition list_concepts :: "concept_store \<Rightarrow> store_state \<Rightarrow> concept_entry list" where
  "list_concepts S st = order_by ce_path (map snd (filter (\<lambda>(s, e). s = cs_scope_id S) (st_registry st)))"

definition PERCENT :: nat where "PERCENT = 37"
definition UNDERSCORE :: nat where "UNDERSCORE = 95"

definition like_escape :: "rstring \<Rightarrow> rstring" where
  "like_escape pre =
     concat (map (\<lambda>c. if c = PERCENT \<or> c = UNDERSCORE \<or> c = BACKSLASH then [BACKSLASH, c] else [c]) pre) @ [PERCENT]"

text \<open>SQLite's \<^verbatim>\<open>LIKE ... ESCAPE '\'\<close>: letters of the ASCII range match without regard to case.\<close>

function like_match :: "rstring \<Rightarrow> rstring \<Rightarrow> bool" where
  "like_match [] s \<longleftrightarrow> s = []"
| "like_match (p # ps) s \<longleftrightarrow>
     (if p = BACKSLASH then
        (case ps of [] \<Rightarrow> False
         | q # qs \<Rightarrow> (case s of [] \<Rightarrow> False | c # cs \<Rightarrow> ascii_lower c = ascii_lower q \<and> like_match qs cs))
      else if p = PERCENT then like_match ps s \<or> (case s of [] \<Rightarrow> False | c # cs \<Rightarrow> like_match (p # ps) cs)
      else if p = UNDERSCORE then (case s of [] \<Rightarrow> False | c # cs \<Rightarrow> like_match ps cs)
      else (case s of [] \<Rightarrow> False | c # cs \<Rightarrow> ascii_lower c = ascii_lower p \<and> like_match ps cs))"
  by pat_completeness auto
termination
  by (relation "measure (\<lambda>(p, s). length p + length s)") auto

declare like_match.simps(2) [simp del]

definition list_prefix :: "concept_store \<Rightarrow> rstring \<Rightarrow> store_state \<Rightarrow> concept_entry list" where
  "list_prefix S pre st =
     order_by ce_path (map snd (filter (\<lambda>(s, e). s = cs_scope_id S \<and> like_match (like_escape pre) (ce_path e)) (st_registry st)))"

definition dir_of :: "rstring \<Rightarrow> rstring" where
  "dir_of path = (if SLASH \<in> set path then rev (tl (dropWhile (\<lambda>c. c \<noteq> SLASH) (rev path))) else [])"

text \<open>The directories with concepts, and the root, in order; and the immediate subdirectories of one.\<close>

definition index_dirs :: "concept_entry list \<Rightarrow> rstring list" where
  "index_dirs entries = sort (remdups ([] # map (\<lambda>e. dir_of (ce_path e)) entries))"

definition entries_of :: "concept_entry list \<Rightarrow> rstring \<Rightarrow> concept_entry list" where
  "entries_of entries dir = filter (\<lambda>e. dir_of (ce_path e) = dir) entries"

definition dir_prefix :: "rstring \<Rightarrow> rstring" where
  "dir_prefix dir = (if dir = [] then [SLASH] else dir @ [SLASH])"

definition child_of :: "rstring \<Rightarrow> rstring \<Rightarrow> rstring option" where
  "child_of dir other =
     (case strip_prefix other (dir_prefix dir) of
        Some rest \<Rightarrow> if other \<noteq> dir \<and> rest \<noteq> [] then Some (dir_prefix dir @ hd (split_on SLASH rest)) else None
      | None \<Rightarrow> None)"

definition subdirs_of :: "concept_entry list \<Rightarrow> rstring \<Rightarrow> (rstring \<times> concept_entry list) list" where
  "subdirs_of entries dir =
     (let dirs = index_dirs entries in
      map (\<lambda>sub. (sub, concat (map (entries_of entries) (filter (\<lambda>d. child_of dir d = Some sub) dirs))))
        (sort (remdups (List.map_filter (child_of dir) dirs))))"

definition subdir_line :: "rstring \<times> concept_entry list \<Rightarrow> rstring" where
  "subdir_line x =
     (case x of (sub, ents) \<Rightarrow>
       (let types = remdups (sort (filter (\<lambda>t. t \<noteq> []) (map ce_concept_type ents)));
            type_list = (if types = [] then [] else str '' ('' @ join_with (str '', '') types @ str '')'') in
        str ''* ['' @ sub @ str '']('' @ sub @ str ''/) '' @ [8212] @ str '' '' @ show_nat (length ents)
          @ str '' concept(s)'' @ type_list))"

definition index_content :: "concept_entry list \<Rightarrow> rstring \<Rightarrow> rstring" where
  "index_content entries dir =
     (let name = (if dir = [] then str ''Knowledge Base'' else basename dir);
          bullets = map (\<lambda>e. str ''* ['' @ ce_title e @ str '']('' @ basename (ce_path e) @ str '') ['' @ ce_concept_type e @ str '']'')
            (entries_of entries dir);
          subdirs = subdirs_of entries dir;
          tail = (if subdirs = [] then [] else ([NL] @ str ''## Subdirectories'' @ [NL]) # map subdir_line subdirs) in
      join_with [NL] ((str ''# '' @ name @ [NL]) # bullets @ tail) @ [NL])"

definition index_path :: "rstring \<Rightarrow> rstring" where
  "index_path dir = dir @ str ''/index.md''"

text \<open>The writes of a regeneration; \<open>draws dir\<close> is what the write in \<open>dir\<close> draws.\<close>

definition regen_steps :: "concept_store \<Rightarrow> (rstring \<Rightarrow> put_draws) \<Rightarrow> store_state \<Rightarrow> step list" where
  "regen_steps S draws st =
     (let entries = list_concepts S st in
      map (\<lambda>dir. write_raw S (draws dir) (index_path dir) (as_bytes (index_content entries dir))) (index_dirs entries))"

definition regen_index_md :: "concept_store \<Rightarrow> (rstring \<Rightarrow> put_draws) \<Rightarrow> step" where
  "regen_index_md S draws st = run_steps (regen_steps S draws st) st"

section \<open>Operations\<close>

definition put_batch_with_revision ::
  "concept_store \<Rightarrow> (rstring \<Rightarrow> put_draws) \<Rightarrow> (put_draws \<times> concept) list \<Rightarrow> rstring option \<Rightarrow> rstring option \<Rightarrow> step" where
  "put_batch_with_revision S draws concepts op_override summary_override st =
     (if concepts = [] then (Inr (), st)
      else
        (case stamp_all S concepts of
           Inl e \<Rightarrow> (Inl e, st)
         | Inr stamped \<Rightarrow>
             run_steps (concat (map (put_steps S op_override summary_override) stamped)
               @ [regen_index_md S draws, \<lambda>st. (Inr (), invalidate_scope (cs_scope_id S) st)]) st))"

definition put_batch_internal ::
  "concept_store \<Rightarrow> (rstring \<Rightarrow> put_draws) \<Rightarrow> (put_draws \<times> concept) list \<Rightarrow> step" where
  "put_batch_internal S draws concepts = put_batch_with_revision S draws concepts (cs_revision_op S) None"

definition put_batch :: "concept_store \<Rightarrow> (rstring \<Rightarrow> put_draws) \<Rightarrow> (put_draws \<times> concept) list \<Rightarrow> step" where
  "put_batch S draws concepts st =
     (case find (\<lambda>(d, c). starts_with (co_source_path c) queue_prefix) concepts of
        Some (d, c) \<Rightarrow> (Inl (Store_queue_path (co_source_path c)), st)
      | None \<Rightarrow> put_batch_internal S draws concepts st)"

definition put :: "concept_store \<Rightarrow> (rstring \<Rightarrow> put_draws) \<Rightarrow> put_draws \<Rightarrow> concept \<Rightarrow> step" where
  "put S draws d c st =
     (if starts_with (co_source_path c) queue_prefix then (Inl (Store_queue_path (co_source_path c)), st)
      else put_batch S draws [(d, c)] st)"

definition get_concept :: "concept_store \<Rightarrow> rstring \<Rightarrow> store_state \<Rightarrow> store_error + concept" where
  "get_concept S path st =
     (case read_raw S path st of
        Inl Not_found \<Rightarrow> Inl (Store_not_found path)
      | Inl e \<Rightarrow> Inl (Store_repo e)
      | Inr b \<Rightarrow>
          (case from_utf8 b of
             None \<Rightarrow> Inl (Store_not_found path)
           | Some markdown \<Rightarrow> lift_error Store_parse (concept_parse (cs_yaml S) path markdown)))"

definition restore :: "concept_store \<Rightarrow> (rstring \<Rightarrow> put_draws) \<Rightarrow> put_draws \<Rightarrow> rstring \<Rightarrow> nat \<Rightarrow> step" where
  "restore S draws d path revision_no st =
     (if starts_with path queue_prefix then (Inl (Store_queue_path path), st)
      else
        (case get_revision (store_revisions S) path revision_no (st_revisions st) of
           Inl e \<Rightarrow> (Inl (Store_revisions e), st)
         | Inr snapshot \<Rightarrow>
             (case from_utf8 snapshot of
                None \<Rightarrow> (Inl (Store_revisions Rev_corrupted), st)
              | Some markdown \<Rightarrow>
                  (case concept_parse (cs_yaml S) path markdown of
                     Inl e \<Rightarrow> (Inl (Store_parse e), st)
                   | Inr c \<Rightarrow>
                       (case op_summary (str ''restore'') (Some revision_no) of
                          Inl e \<Rightarrow> (Inl (Store_revisions e), st)
                        | Inr summary \<Rightarrow>
                            put_batch_with_revision S draws [(d, c)] (Some (str ''restore'')) (Some summary) st)))))"

definition reindex :: "concept_store \<Rightarrow> put_draws \<Rightarrow> rstring \<Rightarrow> step" where
  "reindex S d path st =
     (if starts_with path queue_prefix then (Inl (Store_queue_path path), st)
      else
        (case get_concept S path st of
           Inl e \<Rightarrow> (Inl e, st)
         | Inr c \<Rightarrow> index_step S d c st))"

definition delete_source :: "concept_store \<Rightarrow> rstring" where
  "delete_source S = (case cs_provenance S of Some src \<Rightarrow> src | None \<Rightarrow> [])"

definition delete_note :: "concept_store \<Rightarrow> put_draws \<Rightarrow> rstring \<Rightarrow> bytes \<Rightarrow> step" where
  "delete_note S d path pre st =
     (if starts_with path queue_prefix then (Inr (), st)
      else
        (case op_summary (str ''delete'') None of
           Inl e \<Rightarrow> (Inl (Store_revisions e), st)
         | Inr summary \<Rightarrow>
             record_note S d \<lparr>rn_path = path, rn_op = str ''delete'', rn_source = delete_source S, rn_summary = summary\<rparr> pre st))"

definition delete_steps :: "concept_store \<Rightarrow> (rstring \<Rightarrow> put_draws) \<Rightarrow> put_draws \<Rightarrow> rstring \<Rightarrow> bytes \<Rightarrow> step list" where
  "delete_steps S draws d path pre =
     [delete_note S d path pre,
      \<lambda>st. (Inr (), st\<lparr>st_registry := filter (\<lambda>(s, e). \<not> (s = cs_scope_id S \<and> ce_path e = path)) (st_registry st)\<rparr>),
      \<lambda>st. (Inr (), st\<lparr>st_index := index_remove (store_index S) path (st_index st)\<rparr>),
      \<lambda>st. (case delete_file (cs_prims S) path (cs_scope S) (st_files st) of
              (Inl e, files) \<Rightarrow> (Inl (Store_repo e), st\<lparr>st_files := files\<rparr>)
            | (Inr _, files) \<Rightarrow> (Inr (), st\<lparr>st_files := files\<rparr>)),
      regen_index_md S draws,
      \<lambda>st. (Inr (), remove_row S path st),
      \<lambda>st. (Inr (), invalidate_scope (cs_scope_id S) st)]"

definition delete_internal :: "concept_store \<Rightarrow> (rstring \<Rightarrow> put_draws) \<Rightarrow> put_draws \<Rightarrow> rstring \<Rightarrow> step" where
  "delete_internal S draws d path st =
     (case read_raw S path st of
        Inr pre \<Rightarrow> run_steps (delete_steps S draws d path pre) st
      | Inl Not_found \<Rightarrow> (Inl (Store_not_found path), st)
      | Inl e \<Rightarrow> (Inl (Store_repo e), st))"

definition delete_concept :: "concept_store \<Rightarrow> (rstring \<Rightarrow> put_draws) \<Rightarrow> put_draws \<Rightarrow> rstring \<Rightarrow> step" where
  "delete_concept S draws d path st =
     (if starts_with path queue_prefix then (Inl (Store_queue_path path), st)
      else delete_internal S draws d path st)"

definition sweep_index_row :: "concept_store \<Rightarrow> rstring \<Rightarrow> store_state \<Rightarrow> store_state" where
  "sweep_index_row S path st = st\<lparr>st_index := index_remove (store_index S) path (st_index st)\<rparr>"

definition store_search :: "concept_store \<Rightarrow> store_state \<Rightarrow> search_query \<Rightarrow> search_result list" where
  "store_search S st q = index_search (store_index S) (st_index st) q"

end
