(* ===== verification/Store_Safety.thy ===== *)
theory Store_Safety
  imports Concept_Store
begin

text \<open>
  What the concept store guarantees about its parts taken together: guards before any effect, no
  search result without a registry row whatever step of a write is the last one, what a write leaves
  for the readers, and the undo of a write through the revision log.
\<close>

section \<open>Running steps\<close>

lemma run_steps_append:
  "run_steps (xs @ ys) st = (case run_steps xs st of (Inl e, st') \<Rightarrow> (Inl e, st') | (Inr _, st') \<Rightarrow> run_steps ys st')"
  by (induction xs arbitrary: st) (auto split: prod.splits sum.splits)

lemma run_steps_Inr_Cons:
  "run_steps (f # fs) st = (Inr (), st') \<longleftrightarrow> (\<exists>st1. f st = (Inr (), st1) \<and> run_steps fs st1 = (Inr (), st'))"
  by (auto split: prod.splits sum.splits)

lemma run_steps_Inr_append:
  "run_steps (xs @ ys) st = (Inr (), st') \<longleftrightarrow> (\<exists>st1. run_steps xs st = (Inr (), st1) \<and> run_steps ys st1 = (Inr (), st'))"
  by (auto simp: run_steps_append split: prod.splits sum.splits)

text \<open>An invariant that every step keeps holds wherever the run stops.\<close>

lemma run_steps_invariant:
  assumes "I st" "\<And>f st. f \<in> set fs \<Longrightarrow> I st \<Longrightarrow> I (snd (f st))"
  shows "I (snd (run_steps fs st))"
  using assms
proof (induction fs arbitrary: st)
  case (Cons f fs)
  have 1: "I (snd (f st))" using Cons.prems by simp
  show ?case
  proof (cases "f st")
    case (Pair r st1)
    with Cons.IH [of st1] Cons.prems 1 show ?thesis by (cases r) auto
  qed
qed simp

section \<open>Guards\<close>

definition batch_ok :: "concept_store \<Rightarrow> (put_draws \<times> concept) list \<Rightarrow> bool" where
  "batch_ok S xs \<longleftrightarrow> list_all (\<lambda>(d, c). \<not> is_reserved_filename (basename (co_source_path c))
     \<and> frontmatter_validated (cs_rfc3339_ok S) (co_frontmatter c) = Inr ()) xs"

lemma stamp_sel [simp]:
  "co_source_path (stamp S now c) = co_source_path c" "co_body (stamp S now c) = co_body c"
  "fm_status (co_frontmatter (stamp S now c)) = fm_status (co_frontmatter c)"
  "fm_superseded_by (co_frontmatter (stamp S now c)) = fm_superseded_by (co_frontmatter c)"
  "fm_valid_to (co_frontmatter (stamp S now c)) = fm_valid_to (co_frontmatter c)"
  "fm_type (co_frontmatter (stamp S now c)) = fm_type (co_frontmatter c)"
  "fm_title (co_frontmatter (stamp S now c)) = fm_title (co_frontmatter c)"
  by (simp_all add: stamp_def Let_def split: option.split)

lemma stamp_validated:
  "frontmatter_validated ok (co_frontmatter (stamp S now c)) = frontmatter_validated ok (co_frontmatter c)"
  by (simp add: frontmatter_validated_def)

lemma stamp_all_Inr:
  "stamp_all S xs = Inr ys \<longleftrightarrow> batch_ok S xs \<and> ys = map (\<lambda>(d, c). (d, stamp S (pd_confirmed_at d) c)) xs"
proof (induction xs arbitrary: ys)
  case (Cons x xs)
  obtain d c where x: "x = (d, c)" by (cases x)
  show ?case
    by (auto simp: x Let_def stamp_validated batch_ok_def and_then_eq_Inr Cons)
qed (auto simp: batch_ok_def)

lemma stamp_all_Inl: "\<not> batch_ok S xs \<Longrightarrow> \<exists>e. stamp_all S xs = Inl e"
  using stamp_all_Inr by (metis sum.exhaust)

text \<open>The guards come before every effect.  A batch with a concept under the queue's reserved
  prefix, with a reserved file name, or with lifecycle fields that do not validate is refused as a
  whole: the store is exactly what it was, with no file, no registry or index row and no revision.
  A batch that passes the guards is written with the concepts stamped.\<close>
theorem batch_guards_first:
  assumes "list_ex (\<lambda>(d, c). starts_with (co_source_path c) queue_prefix) xs \<or> \<not> batch_ok S xs"
  shows "\<exists>e. put_batch S draws xs st = (Inl e, st)"
proof (cases "find (\<lambda>(d, c). starts_with (co_source_path c) queue_prefix) xs")
  case None
  with assms have nok: "\<not> batch_ok S xs" by (auto simp: find_None_iff list_ex_iff)
  then have "xs \<noteq> []" by (auto simp: batch_ok_def)
  with None stamp_all_Inl [OF nok] show ?thesis
    by (auto simp: put_batch_def put_batch_internal_def put_batch_with_revision_def)
next
  case (Some x)
  then show ?thesis by (cases x) (simp add: put_batch_def)
qed

section \<open>No search ghosts\<close>

definition stored_at :: "concept_store \<Rightarrow> rstring \<Rightarrow> rstring" where
  "stored_at S path = stored_name (cs_prims S) (scope_file_keys (cs_prims S) (cs_scope S)) path"

text \<open>Every registered path of the scope has a file, every indexed path a registry row.\<close>

definition store_inv :: "concept_store \<Rightarrow> store_state \<Rightarrow> bool" where
  "store_inv S st \<longleftrightarrow>
     (\<forall>(s, e) \<in> set (st_registry st). s = cs_scope_id S \<longrightarrow> st_files st (stored_at S (ce_path e)) \<noteq> None) \<and>
     (\<forall>r \<in> set (ib_docs (st_index st)). dr_scope r = cs_scope_id S \<longrightarrow> registry_has S (dr_path r) st)"

lemma write_raw_state:
  "\<exists>files. snd (write_raw S d path content st) = st\<lparr>st_files := files\<rparr> \<and>
     (fst (write_raw S d path content st) = Inr () \<longrightarrow> files (stored_at S path) \<noteq> None) \<and>
     (good_prims (cs_prims S) \<longrightarrow> (\<forall>p. st_files st (stored_at S p) \<noteq> None \<longrightarrow> files (stored_at S p) \<noteq> None))"
proof (cases "write_ops (cs_prims S) (cs_meta S) (pd_inner_nonce d) (pd_outer_nonce d) (pd_tmp d) path content (cs_scope S)")
  case (Inl e)
  then show ?thesis by (intro exI [of _ "st_files st"]) (simp add: write_raw_def write_file_def)
next
  case (Inr ops)
  then obtain outer where ops: "ops = [Fs_write (tmp_name (stored_at S path) (pd_tmp d)) outer,
      Fs_sync (tmp_name (stored_at S path) (pd_tmp d)), Fs_rename (tmp_name (stored_at S path) (pd_tmp d)) (stored_at S path)]"
    by (auto simp: write_ops_Inr stored_at_def)
  let ?tmp = "tmp_name (stored_at S path) (pd_tmp d)"
  have len: "stored_at S path \<noteq> ?tmp" by (simp add: tmp_name_def)
  have "snd (write_raw S d path content st) = st\<lparr>st_files := (st_files st)(stored_at S path \<mapsto> outer, ?tmp := None)\<rparr>"
    using Inr by (simp add: write_raw_def write_file_def ops fs_run_write)
  moreover have "good_prims (cs_prims S) \<Longrightarrow> stored_at S p \<noteq> ?tmp" for p
    unfolding stored_at_def by (rule stored_name_not_tmp)
  ultimately show ?thesis using len
    by (intro exI [of _ "(st_files st)(stored_at S path \<mapsto> outer, ?tmp := None)"]) auto
qed

lemma store_inv_write:
  assumes "good_prims (cs_prims S)" "store_inv S st"
  shows "store_inv S (snd (write_raw S d path content st))"
proof -
  from write_raw_state [of S d path content st] obtain files where
    f: "snd (write_raw S d path content st) = st\<lparr>st_files := files\<rparr>"
    "\<forall>p. st_files st (stored_at S p) \<noteq> None \<longrightarrow> files (stored_at S p) \<noteq> None"
    using assms(1) by blast
  show ?thesis unfolding f(1) using assms(2) f(2) by (auto simp: store_inv_def registry_has_def)
qed

text \<open>An invariant at every stop, one step at a time.\<close>

lemma stop_Cons:
  assumes "I st" "I (snd (f st))" "\<And>st1. f st = (Inr (), st1) \<Longrightarrow> I (snd (run_steps (take (k - 1) fs) st1))"
  shows "I (snd (run_steps (take k (f # fs)) st))"
proof (cases k)
  case (Suc n)
  obtain r st1 where f: "f st = (r, st1)" by (cases "f st")
  show ?thesis
  proof (cases r)
    case (Inr u)
    then show ?thesis using assms(3) [of st1] f Suc by simp
  qed (use assms(2) f Suc in simp)
qed (use assms(1) in simp)

lemma store_inv_cong:
  "store_inv S st \<Longrightarrow> st_files st' = st_files st \<Longrightarrow> st_registry st' = st_registry st \<Longrightarrow> st_index st' = st_index st \<Longrightarrow> store_inv S st'"
  by (simp add: store_inv_def registry_has_def)

lemma record_note_state: "\<exists>rows. snd (record_note S d n payload st) = st\<lparr>st_revisions := rows\<rparr>"
  by (cases "record_as (store_revisions S) (cs_globals S) (pd_revision_at d) (pd_revision_nonces d) n payload (st_revisions st)")
    (auto simp: record_note_def intro: exI [of _ "st_revisions st"])

lemma revision_step_state: "\<exists>rows. snd (revision_step S d opo so c md st) = st\<lparr>st_revisions := rows\<rparr>"
proof -
  have same: "\<exists>rows. st = st\<lparr>st_revisions := rows\<rparr>" by (intro exI [of _ "st_revisions st"]) simp
  then show ?thesis
    using record_note_state by (auto simp: revision_step_def split: sum.splits prod.splits)
qed

definition reg_key :: "rstring \<times> concept_entry \<Rightarrow> rstring \<times> rstring" where
  "reg_key x = (fst x, ce_path (snd x))"

lemma registry_has_key: "registry_has S p st \<longleftrightarrow> (cs_scope_id S, p) \<in> reg_key ` set (st_registry st)"
  by (force simp: registry_has_def list_ex_iff reg_key_def)

lemma registry_upsert_keys:
  "reg_key ` set (registry_upsert sid x rows) = insert (sid, ce_path x) (reg_key ` set rows)"
proof (cases "list_ex (\<lambda>(s, y). s = sid \<and> ce_path y = ce_path x) rows")
  case True
  have "map reg_key (registry_upsert sid x rows) = map reg_key rows"
    using True by (auto simp: registry_upsert_def reg_key_def)
  from arg_cong [OF this, of set] have "reg_key ` set (registry_upsert sid x rows) = reg_key ` set rows" by simp
  moreover have "(sid, ce_path x) \<in> reg_key ` set rows" using True by (force simp: list_ex_iff reg_key_def)
  ultimately show ?thesis by (simp add: insert_absorb)
qed (simp add: registry_upsert_def reg_key_def)

lemma set_registry_upsert:
  "set (registry_upsert sid x rows) \<subseteq> insert (sid, x) (set rows)"
  by (auto simp: registry_upsert_def split: if_splits)

lemma registry_upsert_mem: "(sid, x) \<in> set (registry_upsert sid x rows)"
proof (cases "list_ex (\<lambda>(s, y). s = sid \<and> ce_path y = ce_path x) rows")
  case True
  then obtain y where y: "(sid, y) \<in> set rows" "ce_path y = ce_path x" by (auto simp: list_ex_iff)
  have "(sid, x) \<in> set (map (\<lambda>(s, y). if s = sid \<and> ce_path y = ce_path x then (s, x) else (s, y)) rows)"
    using imageI [OF y(1), of "\<lambda>(s, y). if s = sid \<and> ce_path y = ce_path x then (s, x) else (s, y)"] y(2) by simp
  then show ?thesis using True by (simp only: registry_upsert_def if_True)
qed (simp add: registry_upsert_def)

lemma store_inv_registry:
  assumes "store_inv S st" "st_files st (stored_at S (co_source_path c)) \<noteq> None"
  shows "store_inv S (snd (registry_step S d c st))" "registry_has S (co_source_path c) (snd (registry_step S d c st))"
proof -
  let ?e = "\<lparr>ce_path = co_source_path c, ce_title = concept_title c, ce_concept_type = fm_type (co_frontmatter c),
         ce_updated_at = pd_registry_at d\<rparr>"
  have "st_files st (stored_at S (ce_path e)) \<noteq> None"
    if "(cs_scope_id S, e) \<in> set (registry_upsert (cs_scope_id S) ?e (st_registry st))" for e
  proof -
    from that consider "e = ?e" | "(cs_scope_id S, e) \<in> set (st_registry st)"
      using set_registry_upsert [of "cs_scope_id S" ?e "st_registry st"] by blast
    then show ?thesis using assms by cases (auto simp: store_inv_def)
  qed
  then have "\<forall>(s, e) \<in> set (registry_upsert (cs_scope_id S) ?e (st_registry st)). s = cs_scope_id S \<longrightarrow>
      st_files st (stored_at S (ce_path e)) \<noteq> None" by blast
  then show "store_inv S (snd (registry_step S d c st))"
    using assms(1) by (simp add: store_inv_def registry_step_def registry_has_key registry_upsert_keys)
  show "registry_has S (co_source_path c) (snd (registry_step S d c st))"
    by (simp add: registry_step_def registry_has_key registry_upsert_keys)
qed

lemma add_async_docs:
  assumes "add_async E nonce c db = Inr db'" "r \<in> set (ib_docs db')"
  shows "r \<in> set (ib_docs db) \<or> dr_path r = co_source_path c"
  using assms by (auto simp: add_async_def Let_def and_then_eq_Inr index_remove_def)

lemma store_inv_index:
  assumes "store_inv S st" "registry_has S (co_source_path c) st"
  shows "store_inv S (snd (index_step S d c st))"
proof (cases "add_async (store_index S) (pd_index_nonce d) c (st_index st)")
  case (Inr db)
  have "registry_has S (dr_path r) st" if "r \<in> set (ib_docs db)" "dr_scope r = cs_scope_id S" for r
    using add_async_docs [OF Inr that(1)] assms that(2) by (auto simp: store_inv_def)
  then show ?thesis using assms(1) Inr by (simp add: index_step_def store_inv_def registry_has_def)
qed (use assms in \<open>simp add: index_step_def\<close>)

lemma put_steps_stop:
  assumes "good_prims (cs_prims S)" "store_inv S st"
  shows "store_inv S (snd (run_steps (take k (put_steps S opo so (d, c))) st))"
proof (cases "to_markdown (cs_yaml S) c")
  case (Inl e)
  then show ?thesis using assms(2) by (cases k) (simp_all add: put_steps_def)
next
  case (Inr md)
  let ?I = "store_inv S"
  show ?thesis unfolding put_steps_def prod.case Inr sum.case
  proof (rule stop_Cons)
    show "?I st" by (fact assms(2))
    obtain rows where rows: "snd (revision_step S d opo so c md st) = st\<lparr>st_revisions := rows\<rparr>"
      using revision_step_state by blast
    show "?I (snd (revision_step S d opo so c md st))" using store_inv_cong [OF assms(2)] by (simp add: rows)
    fix st1 assume "revision_step S d opo so c md st = (Inr (), st1)"
    with \<open>?I (snd (revision_step S d opo so c md st))\<close> have i1: "?I st1" by simp
    show "?I (snd (run_steps (take (k - 1) [write_raw S d (co_source_path c) (as_bytes md), registry_step S d c,
        index_step S d c, vector_step S c]) st1))"
    proof (rule stop_Cons)
      show "?I st1" by (fact i1)
      show "?I (snd (write_raw S d (co_source_path c) (as_bytes md) st1))" using store_inv_write [OF assms(1) i1] .
      fix st2 assume w: "write_raw S d (co_source_path c) (as_bytes md) st1 = (Inr (), st2)"
      with \<open>?I (snd (write_raw S d (co_source_path c) (as_bytes md) st1))\<close> have i2: "?I st2" by simp
      have present: "st_files st2 (stored_at S (co_source_path c)) \<noteq> None"
        using write_raw_state [of S d "co_source_path c" "as_bytes md" st1] w by auto
      note reg = store_inv_registry [OF i2 present, of d]
      show "?I (snd (run_steps (take (k - 1 - 1) [registry_step S d c, index_step S d c, vector_step S c]) st2))"
      proof (rule stop_Cons)
        show "?I st2" by (fact i2)
        show "?I (snd (registry_step S d c st2))" by (fact reg(1))
        fix st3 assume "registry_step S d c st2 = (Inr (), st3)"
        with reg have i3: "?I st3" and has: "registry_has S (co_source_path c) st3" by simp_all
        show "?I (snd (run_steps (take (k - 1 - 1 - 1) [index_step S d c, vector_step S c]) st3))"
        proof (rule stop_Cons)
          show "?I st3" by (fact i3)
          show "?I (snd (index_step S d c st3))" using store_inv_index [OF i3 has] .
          fix st4 assume "index_step S d c st3 = (Inr (), st4)"
          with store_inv_index [OF i3 has, of d] have i4: "?I st4" by simp
          show "?I (snd (run_steps (take (k - 1 - 1 - 1 - 1) [vector_step S c]) st4))"
            using store_inv_cong [OF i4, of "snd (vector_step S c st4)"] i4
            by (cases "k - 1 - 1 - 1 - 1") (simp_all add: vector_step_def)
        qed
      qed
    qed
  qed
qed

lemma put_steps_full:
  assumes "good_prims (cs_prims S)" "store_inv S st"
  shows "store_inv S (snd (run_steps (put_steps S opo so x) st))"
  using put_steps_stop [OF assms, of "length (put_steps S opo so x)" opo so "fst x" "snd x"] by simp

lemma batch_stop:
  assumes "good_prims (cs_prims S)" "store_inv S st"
  shows "store_inv S (snd (run_steps (take k (concat (map (put_steps S opo so) xs))) st))"
  using assms(2)
proof (induction xs arbitrary: st k)
  case (Cons x xs)
  have fst: "store_inv S (snd (run_steps (take k (put_steps S opo so x)) st))"
    using put_steps_stop [OF assms(1) Cons.prems, of k opo so "fst x" "snd x"] by simp
  obtain r st1 where r: "run_steps (take k (put_steps S opo so x)) st = (r, st1)" by (cases "run_steps (take k (put_steps S opo so x)) st")
  show ?case
  proof (cases r)
    case (Inl e)
    then show ?thesis using fst r by (simp add: run_steps_append)
  next
    case (Inr u)
    then show ?thesis using fst r Cons.IH [of st1] by (simp add: run_steps_append)
  qed
qed simp

lemma regen_stop:
  assumes "good_prims (cs_prims S)" "store_inv S st"
  shows "store_inv S (snd (run_steps (take j (regen_steps S draws st0)) st))"
proof (rule run_steps_invariant)
  fix f st assume "f \<in> set (take j (regen_steps S draws st0))" "store_inv S st"
  then show "store_inv S (snd (f st))"
    using store_inv_write [OF assms(1)] by (auto simp: regen_steps_def Let_def dest!: in_set_takeD)
qed (fact assms(2))

text \<open>A batch write that stops after \<open>k\<close> of the steps of its concepts, and after \<open>j\<close> writes of the
  regeneration if it comes to that.\<close>

definition stopped_put ::
  "concept_store \<Rightarrow> (rstring \<Rightarrow> put_draws) \<Rightarrow> (put_draws \<times> concept) list \<Rightarrow> rstring option \<Rightarrow> rstring option
   \<Rightarrow> nat \<Rightarrow> nat \<Rightarrow> store_state \<Rightarrow> store_state" where
  "stopped_put S draws xs opo so k j st =
     (case stamp_all S xs of
        Inl e \<Rightarrow> st
      | Inr stamped \<Rightarrow>
          (let steps = concat (map (put_steps S opo so) stamped) in
           case run_steps (take k steps) st of
             (Inl e, st1) \<Rightarrow> st1
           | (Inr _, st1) \<Rightarrow> if k < length steps then st1 else snd (run_steps (take j (regen_steps S draws st1)) st1)))"

lemma stopped_put_inv:
  assumes "good_prims (cs_prims S)" "store_inv S st"
  shows "store_inv S (stopped_put S draws xs opo so k j st)"
proof (cases "stamp_all S xs")
  case (Inr stamped)
  let ?steps = "concat (map (put_steps S opo so) stamped)"
  obtain r st1 where r: "run_steps (take k ?steps) st = (r, st1)" by (cases "run_steps (take k ?steps) st")
  have "store_inv S st1" using batch_stop [OF assms, of k opo so stamped] r by simp
  with regen_stop [OF assms(1) this, of j draws st1] Inr r show ?thesis
    by (cases r) (simp_all add: stopped_put_def Let_def)
qed (use assms in \<open>simp add: stopped_put_def\<close>)

text \<open>Results of a search of the scope come from its document rows.\<close>

lemma search_rows:
  assumes "x \<in> set (index_search E db q)"
  shows "\<exists>r \<in> set (ib_docs db). dr_scope r = ei_scope_id E \<and> dr_path r = sr_concept_path x"
  using assms
  by (auto simp: index_search_def Let_def doc_pass_def row_result_def split: if_splits sum.splits option.splits)

lemma listed_iff: "(\<exists>e \<in> set (list_concepts S st). ce_path e = p) \<longleftrightarrow> registry_has S p st"
  by (force simp: list_concepts_def registry_has_def list_ex_iff)

text \<open>C4.  A write never leaves a search ghost.  If every registered concept has a file and every indexed
  concept a registry row, then wherever a batch write stops, by a failing step, a crash between two
  steps or in the middle of the index regeneration, the same holds; so every search result names a
  listed concept, and every listed concept has its encrypted file.\<close>
theorem put_never_ghosts:
  assumes "good_prims (cs_prims S)" "store_inv S st"
  shows "store_inv S (stopped_put S draws xs opo so k j st) \<and>
    (x \<in> set (store_search S (stopped_put S draws xs opo so k j st) q) \<longrightarrow>
       (\<exists>e \<in> set (list_concepts S (stopped_put S draws xs opo so k j st)). ce_path e = sr_concept_path x)) \<and>
    (e \<in> set (list_concepts S (stopped_put S draws xs opo so k j st)) \<longrightarrow>
       st_files (stopped_put S draws xs opo so k j st) (stored_at S (ce_path e)) \<noteq> None)"
proof -
  let ?st = "stopped_put S draws xs opo so k j st"
  have inv: "store_inv S ?st" by (rule stopped_put_inv [OF assms])
  have "\<exists>e \<in> set (list_concepts S ?st). ce_path e = sr_concept_path x" if x: "x \<in> set (store_search S ?st q)"
  proof -
    from search_rows [of x "store_index S" "st_index ?st" q] x obtain r where
      "r \<in> set (ib_docs (st_index ?st))" "dr_scope r = cs_scope_id S" "dr_path r = sr_concept_path x"
      by (auto simp: store_search_def store_index_def)
    then show ?thesis unfolding listed_iff using inv unfolding store_inv_def by metis
  qed
  moreover have "st_files ?st (stored_at S (ce_path e)) \<noteq> None" if "e \<in> set (list_concepts S ?st)"
    using that inv by (auto simp: list_concepts_def store_inv_def)
  ultimately show ?thesis using inv by blast
qed

text \<open>A delete that stops between its second and third step leaves a search ghost.  The registry row
  goes first and the index row after it, so a stop between the two leaves the concept out of the
  listing but in the search tables, with its file still readable.\<close>
theorem delete_stop_leaves_ghost:
  fixes draws :: "rstring \<Rightarrow> put_draws"
  assumes "read_raw S path st = Inr pre" "delete_note S d path pre st = (Inr (), st1)"
    and "r \<in> set (ib_docs (st_index st))" "dr_scope r = cs_scope_id S" "dr_path r = path"
  defines "st2 \<equiv> snd (run_steps (take 2 (delete_steps S draws d path pre)) st)"
  shows "\<not> (\<exists>e \<in> set (list_concepts S st2). ce_path e = path) \<and> r \<in> set (ib_docs (st_index st2))
    \<and> get_concept S path st2 = get_concept S path st \<and> \<not> store_inv S st2"
proof -
  obtain rows where st1: "st1 = st\<lparr>st_revisions := rows\<rparr>"
  proof -
    have "\<exists>rows. snd (delete_note S d path pre st) = st\<lparr>st_revisions := rows\<rparr>"
      using record_note_state by (auto simp: delete_note_def op_summary_def intro: exI [of _ "st_revisions st"])
    with assms(2) that show thesis by auto
  qed
  have st2: "st2 = st1\<lparr>st_registry := filter (\<lambda>(s, e). \<not> (s = cs_scope_id S \<and> ce_path e = path)) (st_registry st1)\<rparr>"
    using assms(2) by (simp add: st2_def delete_steps_def numeral_2_eq_2)
  have "\<not> registry_has S path st2" by (auto simp: st2 registry_has_def list_ex_iff)
  moreover have "r \<in> set (ib_docs (st_index st2))" using assms(3) by (simp add: st2 st1)
  moreover have "get_concept S path st2 = get_concept S path st" by (simp add: st2 st1 get_concept_def read_raw_def)
  ultimately show ?thesis using assms(4,5) unfolding listed_iff store_inv_def by blast
qed

section \<open>What a write leaves\<close>

text \<open>The file of a path holds a content.\<close>

definition file_holds :: "concept_store \<Rightarrow> rstring \<Rightarrow> bytes \<Rightarrow> directory \<Rightarrow> bool" where
  "file_holds S path content d \<longleftrightarrow> path \<noteq> [] \<and> starts_with path (str ''/'') \<and>
     (\<exists>n1 n2 outer. length n1 = NONCE_LEN \<and> length n2 = NONCE_LEN
        \<and> stored_bytes (cs_prims S) (cs_meta S) n1 n2 path content (cs_scope S) = Inr outer \<and> d (stored_at S path) = Some outer)"

lemma file_holds_read:
  assumes "good_prims (cs_prims S)" "good_json (cs_meta S)" "fits (st_files st)" "file_holds S path content (st_files st)"
  shows "read_raw S path st = Inr content"
proof -
  from assms(4) obtain n1 n2 outer where o: "length n1 = NONCE_LEN" "length n2 = NONCE_LEN" "path \<noteq> []"
    "starts_with path (str ''/'')" "stored_bytes (cs_prims S) (cs_meta S) n1 n2 path content (cs_scope S) = Inr outer"
    "st_files st (stored_at S path) = Some outer" by (auto simp: file_holds_def)
  then have "length outer < 2 ^ 64" using assms(3) unfolding fits_def by blast
  with read_stored [OF assms(1,2) o(1-4) _ o(5)] o(6) show ?thesis by (simp add: read_raw_def stored_at_def)
qed

definition draws_ok :: "put_draws \<Rightarrow> bool" where
  "draws_ok d \<longleftrightarrow> length (pd_inner_nonce d) = NONCE_LEN \<and> length (pd_outer_nonce d) = NONCE_LEN
     \<and> length (pd_index_nonce d) = NONCE_LEN \<and> (\<forall>k. length (pd_revision_nonces d k) = NONCE_LEN)"

lemma write_raw_Inr:
  assumes "write_raw S d path content st = (Inr (), st')"
  shows "\<exists>outer. stored_bytes (cs_prims S) (cs_meta S) (pd_inner_nonce d) (pd_outer_nonce d) path content (cs_scope S) = Inr outer
    \<and> path \<noteq> [] \<and> starts_with path (str ''/'')
    \<and> st' = st\<lparr>st_files := (st_files st)(stored_at S path \<mapsto> outer, tmp_name (stored_at S path) (pd_tmp d) := None)\<rparr>"
proof -
  from assms obtain ops where ops: "write_ops (cs_prims S) (cs_meta S) (pd_inner_nonce d) (pd_outer_nonce d) (pd_tmp d) path content (cs_scope S) = Inr ops"
    "st' = st\<lparr>st_files := fs_run ops (st_files st)\<rparr>"
    by (auto simp: write_raw_def write_file_def split: sum.splits)
  then show ?thesis by (auto simp: write_ops_Inr fs_run_write stored_at_def)
qed

lemma file_holds_write:
  assumes "write_raw S d path content st = (Inr (), st')" "good_prims (cs_prims S)" "draws_ok d"
  shows "file_holds S path content (st_files st')"
proof -
  from write_raw_Inr [OF assms(1)] obtain outer where
    o: "stored_bytes (cs_prims S) (cs_meta S) (pd_inner_nonce d) (pd_outer_nonce d) path content (cs_scope S) = Inr outer"
    "path \<noteq> []" "starts_with path (str ''/'')"
    "st' = st\<lparr>st_files := (st_files st)(stored_at S path \<mapsto> outer, tmp_name (stored_at S path) (pd_tmp d) := None)\<rparr>" by blast
  have "stored_at S path \<noteq> tmp_name (stored_at S path) (pd_tmp d)" by (simp add: tmp_name_def)
  with o assms(3) show ?thesis unfolding file_holds_def draws_ok_def by auto
qed

text \<open>Writes elsewhere leave a stored file alone, whether they succeed or not.\<close>

lemma write_raw_other:
  assumes "good_prims (cs_prims S)" "stored_at S p \<noteq> stored_at S path"
  shows "st_files (snd (write_raw S d path content st)) (stored_at S p) = st_files st (stored_at S p)"
proof (cases "fst (write_raw S d path content st)")
  case (Inl e)
  then show ?thesis by (auto simp: write_raw_def write_file_def split: sum.splits)
next
  case (Inr u)
  then have "write_raw S d path content st = (Inr (), snd (write_raw S d path content st))" by (simp add: prod_eq_iff)
  from write_raw_Inr [OF this] obtain outer where
    "snd (write_raw S d path content st) = st\<lparr>st_files := (st_files st)(stored_at S path \<mapsto> outer, tmp_name (stored_at S path) (pd_tmp d) := None)\<rparr>"
    by blast
  moreover have "stored_at S p \<noteq> tmp_name (stored_at S path) (pd_tmp d)"
    unfolding stored_at_def by (rule stored_name_not_tmp [OF assms(1)])
  ultimately show ?thesis using assms(2) by simp
qed

lemma run_writes_state:
  assumes "\<forall>f \<in> set fs. \<exists>d p content. f = write_raw S d p content"
  shows "\<exists>files. snd (run_steps fs st) = st\<lparr>st_files := files\<rparr>"
proof -
  have "\<exists>files. snd (run_steps fs st) = st\<lparr>st_files := files\<rparr>"
  proof (rule run_steps_invariant)
    show "\<exists>files. st = st\<lparr>st_files := files\<rparr>" by (intro exI [of _ "st_files st"]) simp
    fix f st1 assume f: "f \<in> set fs" and "\<exists>files. st1 = st\<lparr>st_files := files\<rparr>"
    then obtain files where st1: "st1 = st\<lparr>st_files := files\<rparr>" by blast
    from f assms obtain d p content where fw: "f = write_raw S d p content" by blast
    obtain files' where "snd (write_raw S d p content st1) = st1\<lparr>st_files := files'\<rparr>"
      using write_raw_state by blast
    then show "\<exists>files. snd (f st1) = st\<lparr>st_files := files\<rparr>" by (simp add: fw st1) blast
  qed
  then show ?thesis .
qed

lemma regen_state:
  "\<exists>files. snd (regen_index_md S draws st) = st\<lparr>st_files := files\<rparr>"
  unfolding regen_index_md_def by (rule run_writes_state) (auto simp: regen_steps_def Let_def)

text \<open>The file of a path is not one of the directory indexes.\<close>

definition apart :: "concept_store \<Rightarrow> rstring \<Rightarrow> store_state \<Rightarrow> bool" where
  "apart S p st \<longleftrightarrow> list_all (\<lambda>dir. stored_at S p \<noteq> stored_at S (index_path dir)) (index_dirs (list_concepts S st))"

lemma apart_cong: "st_registry st' = st_registry st \<Longrightarrow> apart S p st' = apart S p st"
  by (simp add: apart_def list_concepts_def)

lemma regen_other:
  assumes "good_prims (cs_prims S)" "apart S p st"
  shows "st_files (snd (regen_index_md S draws st)) (stored_at S p) = st_files st (stored_at S p)"
  unfolding regen_index_md_def
proof (rule run_steps_invariant)
  fix f and st1 :: store_state
  assume "f \<in> set (regen_steps S draws st)" "st_files st1 (stored_at S p) = st_files st (stored_at S p)"
  then show "st_files (snd (f st1)) (stored_at S p) = st_files st (stored_at S p)"
    using write_raw_other [OF assms(1)] assms(2) by (auto simp: regen_steps_def Let_def apart_def list_all_iff)
qed simp

text \<open>The successful write of one concept, step by step.\<close>

lemma put_one_steps:
  assumes "put_batch_with_revision S draws [(d, c)] opo so st = (Inr (), st')"
  obtains md st1 st2 st0 where "to_markdown (cs_yaml S) (stamp S (pd_confirmed_at d) c) = Inr md" "batch_ok S [(d, c)]"
    and "revision_step S d opo so (stamp S (pd_confirmed_at d) c) md st = (Inr (), st1)"
    and "write_raw S d (co_source_path c) (as_bytes md) st1 = (Inr (), st2)"
    and "add_async (store_index S) (pd_index_nonce d) (stamp S (pd_confirmed_at d) c) (st_index st) = Inr (st_index st')"
    and "st_revisions st' = st_revisions st1"
    and "st_registry st' = st_registry (snd (registry_step S d (stamp S (pd_confirmed_at d) c) st))"
    and "st_files st0 = st_files st2" "st_files st' = st_files (snd (regen_index_md S draws st0))"
    and "st_registry st0 = st_registry st'"
proof -
  let ?c = "stamp S (pd_confirmed_at d) c"
  obtain stamped where st: "stamp_all S [(d, c)] = Inr stamped"
    using assms by (cases "stamp_all S [(d, c)]") (simp_all only: put_batch_with_revision_def sum.case list.distinct if_False prod.inject sum.distinct simp_thms)
  then have ok: "batch_ok S [(d, c)]" "stamped = [(d, ?c)]" by (simp_all only: stamp_all_Inr list.map prod.case)
  have run: "run_steps (put_steps S opo so (d, ?c) @ [regen_index_md S draws, \<lambda>st. (Inr (), invalidate_scope (cs_scope_id S) st)]) st = (Inr (), st')"
    using assms by (simp only: put_batch_with_revision_def st ok(2) sum.case list.distinct if_False list.map concat.simps append_Nil2)
  show thesis
  proof (cases "to_markdown (cs_yaml S) ?c")
    case (Inl e)
    then show thesis using run by (simp add: put_steps_def)
  next
    case (Inr md)
    from run obtain st1 st2 st3 st4 st5 st6 where
      1: "revision_step S d opo so ?c md st = (Inr (), st1)" and 2: "write_raw S d (co_source_path c) (as_bytes md) st1 = (Inr (), st2)"
      and 3: "registry_step S d ?c st2 = (Inr (), st3)" and 4: "index_step S d ?c st3 = (Inr (), st4)"
      and 5: "vector_step S ?c st4 = (Inr (), st5)" and 6: "regen_index_md S draws st5 = (Inr (), st6)"
      and 7: "st' = invalidate_scope (cs_scope_id S) st6"
      unfolding put_steps_def prod.case Inr sum.case append_Cons append_Nil run_steps_Inr_Cons
      by (simp only: run_steps.simps(1) prod.inject stamp_sel) blast
    obtain rows where st1: "st1 = st\<lparr>st_revisions := rows\<rparr>" using revision_step_state [of S d opo so ?c md st] 1 by auto
    obtain files where st2: "st2 = st1\<lparr>st_files := files\<rparr>" using write_raw_state [of S d "co_source_path c" "as_bytes md" st1] 2 by auto
    obtain db where db: "add_async (store_index S) (pd_index_nonce d) ?c (st_index st) = Inr db" "st4 = st3\<lparr>st_index := db\<rparr>"
      using 3 4 st1 st2 by (auto simp: index_step_def registry_step_def split: sum.splits)
    obtain files6 where st6: "st6 = st5\<lparr>st_files := files6\<rparr>" using regen_state [of S draws st5] 6 by auto
    have fs: "st_files st5 = st_files st2" "st_files st' = st_files (snd (regen_index_md S draws st5))"
      "st_registry st5 = st_registry st'"
      using 3 5 6 7 db(2) by (auto simp: st6 registry_step_def vector_step_def invalidate_scope_def)
    have rest: "st_index st' = db" "st_revisions st' = st_revisions st1"
      "st_registry st' = st_registry (snd (registry_step S d ?c st))"
      using 3 5 by (auto simp: 7 st6 db(2) st1 st2 invalidate_scope_def registry_step_def vector_step_def)
    show thesis by (rule that [OF Inr ok(1) 1 2 _ rest(2,3) fs]) (simp add: rest(1) db(1))
  qed
qed

definition store_ok :: "concept_store \<Rightarrow> bool" where
  "store_ok S \<longleftrightarrow> good_prims (cs_prims S) \<and> good_json (cs_meta S) \<and> good_yaml (cs_yaml S)"

text \<open>
  What a readable write needs: a type, and text of Unicode scalar values (as every Rust string is).
\<close>

definition writable :: "concept_store \<Rightarrow> put_draws \<Rightarrow> concept \<Rightarrow> bool" where
  "writable S d c \<longleftrightarrow> draws_ok d \<and> trim (fm_type (co_frontmatter c)) \<noteq> []
     \<and> (\<forall>md. to_markdown (cs_yaml S) (stamp S (pd_confirmed_at d) c) = Inr md \<longrightarrow> list_all is_scalar md)"

definition stored_concept :: "concept_store \<Rightarrow> put_draws \<Rightarrow> concept \<Rightarrow> concept" where
  "stored_concept S d c = (stamp S (pd_confirmed_at d) c)\<lparr>co_body := crlf_to_lf (co_body c)\<rparr>"

lemma put_one_get:
  assumes "store_ok S" "writable S d c" "fits (st_files st')" "apart S (co_source_path c) st'"
    and put: "put_batch_with_revision S draws [(d, c)] opo so st = (Inr (), st')"
  shows "get_concept S (co_source_path c) st' = Inr (stored_concept S d c)"
proof -
  let ?c = "stamp S (pd_confirmed_at d) c" and ?path = "co_source_path c"
  have good: "good_prims (cs_prims S)" "good_json (cs_meta S)" "good_yaml (cs_yaml S)" using assms(1) by (simp_all add: store_ok_def)
  obtain md st1 st2 st0 where md: "to_markdown (cs_yaml S) ?c = Inr md"
    and w: "write_raw S d ?path (as_bytes md) st1 = (Inr (), st2)"
    and f: "st_files st0 = st_files st2" "st_files st' = st_files (snd (regen_index_md S draws st0))"
    and reg: "st_registry st0 = st_registry st'"
    by (rule put_one_steps [OF put])
  have wr: "draws_ok d" "trim (fm_type (co_frontmatter c)) \<noteq> []" "list_all is_scalar md"
    using assms(2) md by (auto simp: writable_def)
  have "file_holds S ?path (as_bytes md) (st_files st2)" by (rule file_holds_write [OF w good(1) wr(1)])
  moreover have "st_files st' (stored_at S ?path) = st_files st2 (stored_at S ?path)"
    using regen_other [OF good(1), of ?path st0 draws] assms(4) f by (simp add: apart_cong [OF reg])
  ultimately have "file_holds S ?path (as_bytes md) (st_files st')" by (simp add: file_holds_def)
  then have "read_raw S ?path st' = Inr (as_bytes md)" by (rule file_holds_read [OF good(1,2) assms(3)])
  moreover have "concept_parse (cs_yaml S) ?path md = Inr (stored_concept S d c)"
    using parse_markdown [OF good(3) md] wr(2) by (simp add: stored_concept_def)
  ultimately show ?thesis using from_utf8_as_bytes [OF wr(3)] by (simp add: get_concept_def lift_error_def)
qed

lemma put_batch_one:
  assumes "put S draws d c st = (Inr (), st')"
  shows "put_batch_with_revision S draws [(d, c)] (cs_revision_op S) None st = (Inr (), st')"
    "\<not> starts_with (co_source_path c) queue_prefix"
  using assms by (auto simp: put_def put_batch_def put_batch_internal_def split: if_splits)

text \<open>C5.  Read your write.  After a successful put the concept reads back as it was stamped (its body with
  line ends normalised), the registry lists it under its title and type with the time of the write,
  the search tables hold the corpus with the concept replaced, and every path whose file is neither
  the concept's nor a directory index reads and lists as before.\<close>
theorem put_then_get:
  assumes "store_ok S" "good_doc_json (cs_doc S)" "writable S d c" "fits (st_files st')" "apart S (co_source_path c) st'"
    and "put S draws d c st = (Inr (), st')" "index_holds (store_index S) C (st_index st)"
  shows "get_concept S (co_source_path c) st' = Inr (stored_concept S d c)
    \<and> (\<exists>e \<in> set (list_concepts S st'). ce_path e = co_source_path c \<and> ce_title e = concept_title c
         \<and> ce_concept_type e = fm_type (co_frontmatter c) \<and> ce_updated_at e = pd_registry_at d)
    \<and> index_holds (store_index S) (corpus_add (stamp S (pd_confirmed_at d) c) C) (st_index st')
    \<and> (stored_at S p \<noteq> stored_at S (co_source_path c) \<and> apart S p st' \<longrightarrow>
         get_concept S p st' = get_concept S p st
         \<and> ((\<exists>e \<in> set (list_concepts S st'). ce_path e = p) \<longleftrightarrow> (\<exists>e \<in> set (list_concepts S st). ce_path e = p)))"
proof -
  let ?c = "stamp S (pd_confirmed_at d) c" and ?path = "co_source_path c"
  note put = put_batch_one(1) [OF assms(6)]
  have good: "good_prims (cs_prims S)" using assms(1) by (simp add: store_ok_def)
  obtain md st1 st2 st0 where
    1: "revision_step S d (cs_revision_op S) None ?c md st = (Inr (), st1)"
    and w: "write_raw S d ?path (as_bytes md) st1 = (Inr (), st2)"
    and db: "add_async (store_index S) (pd_index_nonce d) ?c (st_index st) = Inr (st_index st')"
    and reg: "st_registry st' = st_registry (snd (registry_step S d ?c st))"
    and f: "st_files st0 = st_files st2" "st_files st' = st_files (snd (regen_index_md S draws st0))"
    and same: "st_registry st0 = st_registry st'"
    by (rule put_one_steps [OF put])
  let ?e = "\<lparr>ce_path = ?path, ce_title = concept_title c, ce_concept_type = fm_type (co_frontmatter c), ce_updated_at = pd_registry_at d\<rparr>"
  have title: "concept_title ?c = concept_title c" by (simp add: concept_title_def split: option.split)
  have rows: "st_registry st' = registry_upsert (cs_scope_id S) ?e (st_registry st)"
    using reg by (simp add: registry_step_def title)
  have listed: "\<exists>e \<in> set (list_concepts S st'). ce_path e = ?path \<and> ce_title e = concept_title c
      \<and> ce_concept_type e = fm_type (co_frontmatter c) \<and> ce_updated_at e = pd_registry_at d"
  proof -
    have "(cs_scope_id S, ?e) \<in> set (st_registry st')" unfolding rows by (rule registry_upsert_mem)
    then have "?e \<in> set (list_concepts S st')" by (force simp: list_concepts_def)
    then show ?thesis by (intro bexI [of _ ?e]) simp_all
  qed
  have held: "index_holds (store_index S) (corpus_add ?c C) (st_index st')"
    by (rule index_holds_add [OF _ _ _ assms(7) db])
      (use good assms(2,3) in \<open>simp_all add: store_index_def writable_def draws_ok_def\<close>)
  have "get_concept S p st' = get_concept S p st \<and> registry_has S p st' = registry_has S p st"
    if p: "stored_at S p \<noteq> stored_at S ?path" "apart S p st'"
  proof -
    have "st_files st1 = st_files st" using revision_step_state [of S d "cs_revision_op S" None ?c md st] 1 by auto
    moreover have "st_files st2 (stored_at S p) = st_files st1 (stored_at S p)"
      using write_raw_other [OF good p(1), of d "as_bytes md" st1] w by simp
    moreover have "st_files st' (stored_at S p) = st_files st0 (stored_at S p)"
      using regen_other [OF good, of p st0 draws] p(2) f(2) by (simp add: apart_cong [OF same])
    ultimately have "st_files st' (stored_at S p) = st_files st (stored_at S p)" using f(1) by simp
    then have "read_raw S p st' = read_raw S p st"
      unfolding read_raw_def stored_at_def by (intro read_file_cong)
    moreover have "p \<noteq> ?path" using p(1) by auto
    ultimately show ?thesis by (simp add: get_concept_def registry_has_key rows registry_upsert_keys)
  qed
  with put_one_get [OF assms(1,3,4,5) put] listed held show ?thesis unfolding listed_iff by blast
qed

section \<open>Undo\<close>

definition store_token :: "concept_store \<Rightarrow> rstring \<Rightarrow> rstring" where
  "store_token S path = path_token_of (store_revisions S) path"

lemma record_note_chain:
  assumes "good_prims (cs_prims S)" "draws_ok d" "record_note S d n payload st = (Inr (), st1)"
    and "chain_holds (store_revisions S) (store_token S (rn_path n)) h lo (st_revisions st)" "length h + 1 < 2 ^ 63"
  shows "\<exists>lo'. lo' < length h + 1
    \<and> chain_holds (store_revisions S) (store_token S (rn_path n)) (h @ [(n, payload)]) lo' (st_revisions st1)"
proof -
  let ?R = "store_revisions S"
  from assms(3) obtain no where "record_as ?R (cs_globals S) (pd_revision_at d) (pd_revision_nonces d) n payload (st_revisions st)
      = Inr (no, st_revisions st1)"
    by (auto simp: record_note_def split: sum.splits)
  from record_as_once(1) [OF this] obtain k where k:
    "record_once ?R (cs_globals S) (pd_revision_at d) (pd_revision_nonces d k) n payload (st_revisions st) = Inr (no, st_revisions st1)"
    by blast
  have "length (pd_revision_nonces d k) = NONCE_LEN" using assms(2) by (simp add: draws_ok_def)
  from record_once_holds [OF _ this _ assms(5) k] assms(1,4)
  have "chain_holds ?R (store_token S (rn_path n)) (h @ [(n, payload)]) (max lo (length h + 1 - revision_retention (cs_globals S))) (st_revisions st1)"
    by (simp add: store_token_def store_revisions_def)
  then show ?thesis by (auto simp: chain_holds_def intro!: exI [of _ "max lo (length h + 1 - revision_retention (cs_globals S))"])
qed

text \<open>What an undo row brings back.\<close>

lemma restore_run:
  assumes "chain_holds (store_revisions S) (store_token S path) (h @ [(n, pre)]) lo (st_revisions st1)" "lo < length h + 1"
    and "length h + 1 < 2 ^ 63" "from_utf8 pre = Some md0" "concept_parse (cs_yaml S) path md0 = Inr c0"
    and "\<not> starts_with path queue_prefix"
  shows "restore S draws d path (length h + 1) st1 = put_batch_with_revision S draws [(d, c0)] (Some (str ''restore''))
      (Some (str ''restored to revision '' @ show_nat (length h + 1))) st1"
proof -
  have "get_revision (store_revisions S) path (length h + 1) (st_revisions st1) = Inr pre"
    using get_revision_value [of "store_revisions S" path "h @ [(n, pre)]" lo "st_revisions st1" "length h + 1"] assms(1-3)
    by (simp add: store_token_def)
  then show ?thesis using assms(4-6) by (simp add: restore_def op_summary_def del: str_Cons)
qed

lemma restore_snapshot:
  assumes "store_ok S" "writable S d c0" "fits (st_files st2)" "apart S path st2"
    and "chain_holds (store_revisions S) (store_token S path) (h @ [(n, pre)]) lo (st_revisions st1)" "lo < length h + 1"
    and "length h + 1 < 2 ^ 63" "from_utf8 pre = Some md0" "concept_parse (cs_yaml S) path md0 = Inr c0"
    and "restore S draws d path (length h + 1) st1 = (Inr (), st2)"
  shows "get_concept S path st2 = Inr (stored_concept S d c0)"
proof -
  have "\<not> starts_with path queue_prefix" using assms(10) by (auto simp: restore_def)
  from restore_run [OF assms(5-9) this] assms(10)
  have "put_batch_with_revision S draws [(d, c0)] (Some (str ''restore''))
      (Some (str ''restored to revision '' @ show_nat (length h + 1))) st1 = (Inr (), st2)" by simp
  moreover have "co_source_path c0 = path" using assms(9) by (auto simp: concept_parse_def and_then_eq_Inr split: if_splits)
  ultimately show ?thesis using put_one_get [OF assms(1-3)] assms(4) by simp
qed

lemma get_concept_raw:
  assumes "get_concept S path st = Inr c"
  obtains pre md where "read_raw S path st = Inr pre" "from_utf8 pre = Some md" "concept_parse (cs_yaml S) path md = Inr c"
  using assms by (auto simp: get_concept_def split: sum.splits file_repo_error.splits option.splits)

lemma put_update_row:
  assumes "store_ok S" "cs_revision_op S = None" "get_concept S (co_source_path c) st = Inr c0" "registry_has S (co_source_path c) st"
    and "chain_holds (store_revisions S) (store_token S (co_source_path c)) h lo (st_revisions st)" "length h + 1 < 2 ^ 63"
    and "put S draws d c st = (Inr (), st1)" "draws_ok d"
  obtains pre md0 n lo' where "from_utf8 pre = Some md0" "concept_parse (cs_yaml S) (co_source_path c) md0 = Inr c0" "lo' < length h + 1"
    "chain_holds (store_revisions S) (store_token S (co_source_path c)) (h @ [(n, pre)]) lo' (st_revisions st1)"
proof -
  let ?c = "stamp S (pd_confirmed_at d) c" and ?path = "co_source_path c"
  have good: "good_prims (cs_prims S)" using assms(1) by (simp add: store_ok_def)
  obtain pre md0 where pre: "read_raw S ?path st = Inr pre" "from_utf8 pre = Some md0" "concept_parse (cs_yaml S) ?path md0 = Inr c0"
    by (rule get_concept_raw [OF assms(3)])
  note put = put_batch_one [OF assms(7)]
  obtain md st3 st4 st5 where rev: "revision_step S d (cs_revision_op S) None ?c md st = (Inr (), st3)"
    and same: "st_revisions st1 = st_revisions st3"
    by (rule put_one_steps [OF put(1)])
  have "revision_choice S None ?c md st = Inr (str ''update'', pre)"
    using assms(4) pre(1) by (simp add: revision_choice_def del: str_Cons)
  then have "record_note S d \<lparr>rn_path = ?path, rn_op = str ''update'', rn_source = rev_source S ?c, rn_summary = str ''concept updated''\<rparr> pre st
      = (Inr (), st3)"
    using rev put(2) assms(2) by (simp add: revision_step_def op_summary_def del: str_Cons)
  from record_note_chain [OF good assms(8) this, of h lo] assms(5,6) obtain lo' n where
    "lo' < length h + 1" "chain_holds (store_revisions S) (store_token S ?path) (h @ [(n, pre)]) lo' (st_revisions st1)"
    unfolding same revision_note.simps by blast
  with pre(2,3) show thesis by (intro that)
qed

text \<open>C6.  An update can be undone.  When a listed concept reads as \<open>c0\<close> and a put replaces it, the
  undo row of that put is the next revision of the path, and restoring to it brings back \<open>c0\<close>: the
  same front matter but for the new stamps, and the same body.\<close>
theorem restore_undoes_put:
  assumes "store_ok S" "cs_revision_op S = None" "get_concept S (co_source_path c) st = Inr c0" "registry_has S (co_source_path c) st"
    and "chain_holds (store_revisions S) (store_token S (co_source_path c)) h lo (st_revisions st)" "length h + 1 < 2 ^ 63"
    and "put S draws d c st = (Inr (), st1)" "draws_ok d"
    and "restore S draws' d' (co_source_path c) (length h + 1) st1 = (Inr (), st2)" "writable S d' c0" "fits (st_files st2)"
    and "apart S (co_source_path c) st2"
  shows "get_concept S (co_source_path c) st2 = Inr (stored_concept S d' c0)"
proof -
  obtain pre md0 n lo' where u: "from_utf8 pre = Some md0" "concept_parse (cs_yaml S) (co_source_path c) md0 = Inr c0" "lo' < length h + 1"
    "chain_holds (store_revisions S) (store_token S (co_source_path c)) (h @ [(n, pre)]) lo' (st_revisions st1)"
    by (rule put_update_row [OF assms(1-8)])
  from restore_snapshot [OF assms(1,10,11,12) u(4,3) assms(6) u(1,2) assms(9)] show ?thesis .
qed

text \<open>The successful delete of a concept, and what it leaves.\<close>

lemma delete_run:
  assumes "good_prims (cs_prims S)" "read_raw S path st = Inr pre" "delete_concept S draws d path st = (Inr (), st1)"
  obtains sa where "\<not> starts_with path queue_prefix"
    and "record_note S d \<lparr>rn_path = path, rn_op = str ''delete'', rn_source = delete_source S, rn_summary = str ''concept deleted''\<rparr> pre st = (Inr (), sa)"
    and "st_revisions st1 = st_revisions sa" "\<not> registry_has S path st1"
    and "\<not> (\<exists>r \<in> set (ib_docs (st_index st1)). dr_scope r = cs_scope_id S \<and> dr_path r = path)"
    and "apart S path st1 \<longrightarrow> read_raw S path st1 = Inl Not_found"
    and "st_registry st1 = filter (\<lambda>(s, e). \<not> (s = cs_scope_id S \<and> ce_path e = path)) (st_registry st)"
proof -
  have nq: "\<not> starts_with path queue_prefix" and run: "run_steps (delete_steps S draws d path pre) st = (Inr (), st1)"
    using assms(2,3) by (auto simp: delete_concept_def delete_internal_def split: if_splits)
  have valid: "path \<noteq> []" "starts_with path (str ''/'')"
    using assms(2) by (auto simp: read_raw_def read_file_Inr)
  then have del: "delete_file (cs_prims S) path (cs_scope S) fs = (Inr (), fs(stored_at S path := None))" for fs
    by (simp add: delete_file_def validate_path_def stored_at_def)
  obtain sa sr where n: "delete_note S d path pre st = (Inr (), sa)"
    and r: "regen_index_md S draws (sa\<lparr>st_registry := filter (\<lambda>(s, e). \<not> (s = cs_scope_id S \<and> ce_path e = path)) (st_registry sa),
        st_index := index_remove (store_index S) path (st_index sa), st_files := (st_files sa)(stored_at S path := None)\<rparr>) = (Inr (), sr)"
    and st1: "st1 = invalidate_scope (cs_scope_id S) (remove_row S path sr)"
    using run unfolding delete_steps_def run_steps_Inr_Cons by (auto simp: del)
  let ?sf = "sa\<lparr>st_registry := filter (\<lambda>(s, e). \<not> (s = cs_scope_id S \<and> ce_path e = path)) (st_registry sa),
        st_index := index_remove (store_index S) path (st_index sa), st_files := (st_files sa)(stored_at S path := None)\<rparr>"
  obtain files where sr: "sr = ?sf\<lparr>st_files := files\<rparr>" using regen_state [of S draws ?sf] r by auto
  have same: "st_registry st1 = st_registry ?sf" by (simp add: st1 sr invalidate_scope_def remove_row_def)
  have noted: "record_note S d \<lparr>rn_path = path, rn_op = str ''delete'', rn_source = delete_source S, rn_summary = str ''concept deleted''\<rparr> pre st = (Inr (), sa)"
    using n nq by (simp add: delete_note_def op_summary_def del: str_Cons)
  show thesis
  proof (rule that [OF nq noted])
    obtain rows where "sa = st\<lparr>st_revisions := rows\<rparr>" using record_note_state [of S d _ pre st] noted by (metis snd_conv)
    then have "st_registry sa = st_registry st" by simp
    then show "st_registry st1 = filter (\<lambda>(s, e). \<not> (s = cs_scope_id S \<and> ce_path e = path)) (st_registry st)"
      using same by simp
    show "st_revisions st1 = st_revisions sa" by (simp add: st1 sr invalidate_scope_def remove_row_def)
    show "\<not> registry_has S path st1"
      by (auto simp: st1 sr invalidate_scope_def remove_row_def registry_has_def list_ex_iff)
    show "\<not> (\<exists>r \<in> set (ib_docs (st_index st1)). dr_scope r = cs_scope_id S \<and> dr_path r = path)"
      by (auto simp: st1 sr invalidate_scope_def remove_row_def index_remove_def store_index_def)
    have "files (stored_at S path) = None" if "apart S path st1"
      using regen_other [OF assms(1), of path ?sf draws] that r unfolding apart_cong [OF same] sr by simp
    then show "apart S path st1 \<longrightarrow> read_raw S path st1 = Inl Not_found"
      using valid by (simp add: st1 sr invalidate_scope_def remove_row_def read_raw_def read_file_def validate_path_def Let_def stored_at_def)
  qed
qed

lemma delete_row:
  assumes "store_ok S" "get_concept S path st = Inr c0"
    and "chain_holds (store_revisions S) (store_token S path) h lo (st_revisions st)" "length h + 1 < 2 ^ 63"
    and "delete_concept S draws d path st = (Inr (), st1)" "draws_ok d"
  obtains pre md0 n lo' where "from_utf8 pre = Some md0" "concept_parse (cs_yaml S) path md0 = Inr c0" "lo' < length h + 1"
    "chain_holds (store_revisions S) (store_token S path) (h @ [(n, pre)]) lo' (st_revisions st1)"
proof -
  have good: "good_prims (cs_prims S)" using assms(1) by (simp add: store_ok_def)
  obtain pre md0 where pre: "read_raw S path st = Inr pre" "from_utf8 pre = Some md0" "concept_parse (cs_yaml S) path md0 = Inr c0"
    by (rule get_concept_raw [OF assms(2)])
  obtain sa where sa: "record_note S d \<lparr>rn_path = path, rn_op = str ''delete'', rn_source = delete_source S, rn_summary = str ''concept deleted''\<rparr> pre st = (Inr (), sa)"
    "st_revisions st1 = st_revisions sa"
    by (rule delete_run [OF good pre(1) assms(5)])
  from record_note_chain [OF good assms(6) sa(1), of h lo] assms(3,4) obtain lo' n where
    "lo' < length h + 1" "chain_holds (store_revisions S) (store_token S path) (h @ [(n, pre)]) lo' (st_revisions st1)"
    unfolding sa(2) revision_note.simps by blast
  with pre(2,3) show thesis by (intro that)
qed

text \<open>C7.  A delete can be undone, once.  Deleting a concept that reads as \<open>c0\<close> leaves it unreadable and
  unlisted and out of the search tables; a second delete fails as not found and changes nothing; and
  restoring to the revision of the delete brings \<open>c0\<close> back.\<close>
theorem restore_undoes_delete:
  assumes "store_ok S" "get_concept S path st = Inr c0"
    and "chain_holds (store_revisions S) (store_token S path) h lo (st_revisions st)" "length h + 1 < 2 ^ 63"
    and "delete_concept S draws d path st = (Inr (), st1)" "draws_ok d" "apart S path st1"
  shows "get_concept S path st1 = Inl (Store_not_found path) \<and> \<not> (\<exists>e \<in> set (list_concepts S st1). ce_path e = path)
    \<and> \<not> (\<exists>r \<in> set (ib_docs (st_index st1)). dr_scope r = cs_scope_id S \<and> dr_path r = path)
    \<and> delete_concept S draws d path st1 = (Inl (Store_not_found path), st1)
    \<and> (restore S draws' d' path (length h + 1) st1 = (Inr (), st2) \<and> writable S d' c0 \<and> fits (st_files st2) \<and> apart S path st2 \<longrightarrow>
         get_concept S path st2 = Inr (stored_concept S d' c0))"
proof -
  have good: "good_prims (cs_prims S)" using assms(1) by (simp add: store_ok_def)
  obtain pre md0 where pre: "read_raw S path st = Inr pre"
    by (rule get_concept_raw [OF assms(2)])
  obtain sa where nq: "\<not> starts_with path queue_prefix" and unlisted: "\<not> registry_has S path st1"
    and unindexed: "\<not> (\<exists>r \<in> set (ib_docs (st_index st1)). dr_scope r = cs_scope_id S \<and> dr_path r = path)"
    and "apart S path st1 \<longrightarrow> read_raw S path st1 = Inl Not_found"
    by (rule delete_run [OF good pre assms(5)])
  with assms(7) have gone: "read_raw S path st1 = Inl Not_found" by blast
  obtain pre' md0 n lo' where u: "from_utf8 pre' = Some md0" "concept_parse (cs_yaml S) path md0 = Inr c0" "lo' < length h + 1"
    "chain_holds (store_revisions S) (store_token S path) (h @ [(n, pre')]) lo' (st_revisions st1)"
    by (rule delete_row [OF assms(1-6)])
  have "get_concept S path st1 = Inl (Store_not_found path)" using gone by (simp add: get_concept_def)
  moreover have "delete_concept S draws d path st1 = (Inl (Store_not_found path), st1)"
    using nq gone by (simp add: delete_concept_def delete_internal_def)
  moreover have "get_concept S path st2 = Inr (stored_concept S d' c0)"
    if "restore S draws' d' path (length h + 1) st1 = (Inr (), st2)" "writable S d' c0" "fits (st_files st2)" "apart S path st2"
    by (rule restore_snapshot [OF assms(1) that(2,3,4) u(4,3) assms(4) u(1,2) that(1)])
  ultimately show ?thesis using unlisted unindexed unfolding listed_iff by blast
qed

end
