(* ===== verification/Store_Live.thy ===== *)
theory Store_Live
  imports Store_Safety
begin

text \<open>
  A write of the concept store succeeds: the only refusals are the guards, an unreadable previous
  file, and a failing library call.
\<close>

section \<open>Every step returns\<close>

text \<open>Libraries that do their work: the cipher seals and file metadata prints.\<close>

definition live_store :: "concept_store \<Rightarrow> bool" where
  "live_store S \<longleftrightarrow> good_prims (cs_prims S) \<and> (\<forall>k n a p. gcm_seal (cs_prims S) k n a p \<noteq> None)
     \<and> (\<forall>p. list_all is_scalar p \<longrightarrow> meta_to_json (cs_meta S) p \<noteq> None)"

definition path_ok :: "rstring \<Rightarrow> bool" where
  "path_ok p \<longleftrightarrow> p \<noteq> [] \<and> starts_with p (str ''/'') \<and> list_all is_scalar p"

definition paths_ok :: "concept_store \<Rightarrow> store_state \<Rightarrow> bool" where
  "paths_ok S st \<longleftrightarrow> list_all (\<lambda>e. path_ok (ce_path e)) (list_concepts S st)"

definition readable :: "concept_store \<Rightarrow> rstring \<Rightarrow> store_state \<Rightarrow> bool" where
  "readable S p st \<longleftrightarrow> (case read_raw S p st of Inl e \<Rightarrow> e = Not_found | Inr _ \<Rightarrow> True)"

lemma seal_total:
  assumes "live_store S" "length (dek_bytes key) = 32"
  obtains b where "aead_seal (cs_prims S) n m a key = Inr b"
proof (cases "gcm_seal (cs_prims S) (dek_bytes key) n a m")
  case None
  with assms(1) show thesis unfolding live_store_def by blast
next
  case (Some c)
  with assms(2) that show thesis by (simp add: aead_seal_def)
qed

lemma key_lengths:
  assumes "good_prims P"
  shows "length (dek_bytes (meta_dek (scope_file_keys P sc))) = 32" "length (dek_bytes (dek_for_name P keys name)) = 32"
  using assms by (simp_all add: scope_file_keys_def file_keys_from_master_key_def file_keys_from_service_key_def
      derive_dek_from_def derive_dek_from_service_def dek_for_name_def good_primsD(4) split: scope.split)

lemma index_dek_length:
  assumes "good_prims (cs_prims S)"
  shows "length (dek_bytes (index_dek (store_index_keys S))) = 32"
  using assms by (simp add: store_index_keys_def index_keys_from_master_key_def index_keys_from_service_key_def
      derive_dek_from_def derive_dek_from_service_def good_primsD(4) split: scope.split)

lemma write_raw_total:
  assumes live: "live_store S" and path: "path_ok p"
  obtains st' where "write_raw S d p content st = (Inr (), st')" "st_registry st' = st_registry st"
    "st_revisions st' = st_revisions st" "st_index st' = st_index st"
proof -
  let ?P = "cs_prims S" let ?keys = "scope_file_keys ?P (cs_scope S)" let ?name = "stored_name ?P ?keys p"
  have good: "good_prims ?P" using live by (simp add: live_store_def)
  obtain meta where m: "meta_to_json (cs_meta S) p = Some meta"
    using live path by (auto simp: live_store_def path_ok_def)
  obtain inner where i: "aead_seal ?P (pd_inner_nonce d) meta (as_bytes ?name) (meta_dek ?keys) = Inr inner"
    by (rule seal_total [OF live key_lengths(1) [OF good]])
  obtain outer where "aead_seal ?P (pd_outer_nonce d) (le_bytes 8 (length inner) @ inner @ content) (as_bytes ?name)
      (dek_for_name ?P ?keys ?name) = Inr outer"
    by (rule seal_total [OF live key_lengths(2) [OF good]])
  with m i have "stored_bytes ?P (cs_meta S) (pd_inner_nonce d) (pd_outer_nonce d) p content (cs_scope S) = Inr outer"
    by (simp add: stored_bytes_def Let_def crypto_err_def)
  with path obtain ops where "write_ops ?P (cs_meta S) (pd_inner_nonce d) (pd_outer_nonce d) (pd_tmp d) p content (cs_scope S) = Inr ops"
    by (auto simp: write_ops_Inr path_ok_def)
  then show thesis by (intro that [of "st\<lparr>st_files := fs_run ops (st_files st)\<rparr>"]) (simp_all add: write_raw_def write_file_def)
qed

lemma dir_of_prefix: "\<exists>n. dir_of p = take n p"
proof (cases "SLASH \<in> set p")
  case True
  define d where "d = dropWhile (\<lambda>c. c \<noteq> SLASH) (rev p)"
  have split: "rev p = takeWhile (\<lambda>c. c \<noteq> SLASH) (rev p) @ d" by (simp only: d_def takeWhile_dropWhile_id)
  have "take 1 d @ tl d = d" by (cases d) simp_all
  with split have "rev p = takeWhile (\<lambda>c. c \<noteq> SLASH) (rev p) @ take 1 d @ tl d" by (simp only:)
  from arg_cong [OF this, of rev] have "p = rev (tl d) @ rev (take 1 d) @ rev (takeWhile (\<lambda>c. c \<noteq> SLASH) (rev p))"
    by (simp only: rev_rev_ident rev_append append_assoc)
  then have "rev (tl d) = take (length (rev (tl d))) p" by (metis append_eq_conv_conj)
  moreover have "dir_of p = rev (tl d)" using True by (simp only: dir_of_def d_def if_True)
  ultimately show ?thesis by (intro exI) (rule trans)
qed (auto simp: dir_of_def intro: exI [of _ 0])

lemma index_path_ok:
  assumes "p = [] \<or> path_ok p"
  shows "path_ok (index_path (dir_of p))"
proof -
  obtain n where n: "dir_of p = take n p" using dir_of_prefix by blast
  have "list_all is_scalar (take n p)" using assms by (auto simp: path_ok_def list_all_iff dest: in_set_takeD)
  moreover have "starts_with (take n p @ str ''/index.md'') (str ''/'')"
    using assms by (cases "take n p"; cases p; cases n) (auto simp: path_ok_def starts_with_def)
  ultimately show ?thesis by (simp add: path_ok_def index_path_def n is_scalar_def)
qed

lemma index_dirs_ok:
  assumes "paths_ok S st" "dir \<in> set (index_dirs (list_concepts S st))"
  shows "path_ok (index_path dir)"
proof -
  have "dir_of [] = []" by (simp add: dir_of_def)
  moreover consider "dir = []" | e where "e \<in> set (list_concepts S st)" "dir = dir_of (ce_path e)"
    using assms(2) unfolding index_dirs_def by (auto simp only: set_sort set_remdups list.set set_map)
  ultimately show ?thesis
    using index_path_ok [of "[]"] assms(1) by cases (auto simp: paths_ok_def list_all_iff intro!: index_path_ok)
qed

lemma run_writes_total:
  assumes "live_store S" "\<forall>f \<in> set fs. \<exists>d p content. path_ok p \<and> f = write_raw S d p content"
  obtains st' where "run_steps fs st = (Inr (), st')"
proof -
  have "\<exists>st'. run_steps fs st = (Inr (), st')" using assms(2)
  proof (induction fs arbitrary: st)
    case (Cons f fs)
    then obtain d p content where f: "path_ok p" "f = write_raw S d p content" by auto
    obtain st1 where "write_raw S d p content st = (Inr (), st1)" by (rule write_raw_total [OF assms(1) f(1)])
    moreover obtain st2 where "run_steps fs st1 = (Inr (), st2)" using Cons by auto
    ultimately show ?case by (auto simp: f(2))
  qed simp
  then show thesis using that by blast
qed

lemma regen_total:
  assumes "live_store S" "paths_ok S st"
  obtains st' where "regen_index_md S draws st = (Inr (), st')"
proof -
  have "\<forall>f \<in> set (regen_steps S draws st). \<exists>d p content. path_ok p \<and> f = write_raw S d p content"
    using index_dirs_ok [OF assms(2)] by (auto simp: regen_steps_def Let_def)
  from run_writes_total [OF assms(1) this] show thesis using that unfolding regen_index_md_def by blast
qed

lemma record_note_total:
  assumes live: "live_store S" and tag: "rn_op n \<in> set REVISION_OPS"
    and chain: "chain_holds (store_revisions S) (store_token S (rn_path n)) h lo (st_revisions st)" "length h + 1 < 2 ^ 63"
  obtains st' where "record_note S d n payload st = (Inr (), st')"
proof -
  let ?R = "store_revisions S"
  have good: "good_prims (cs_prims S)" using live by (simp add: live_store_def)
  have "record_once ?R (cs_globals S) (pd_revision_at d) nonce n payload (st_revisions st) \<noteq> Inl e" for nonce e
  proof
    assume fail: "record_once ?R (cs_globals S) (pd_revision_at d) nonce n payload (st_revisions st) = Inl e"
    then obtain x where e: "e = Rev_crypto x"
      using record_once_failure [OF _ chain(2)] chain(1) unfolding store_token_def by blast
    have "\<exists>b. aead_seal (rs_prims ?R) nonce payload a (index_dek (rs_keys ?R)) = Inr b" for a
      using seal_total [OF live index_dek_length [OF good]] by (metis revision_store.select_convs(1,3) store_revisions_def)
    then have "rev_crypto (aead_seal (rs_prims ?R) nonce payload a (index_dek (rs_keys ?R))) \<noteq> Inl y" for a y
      by (metis rev_crypto_Inr Inl_Inr_False)
    then show False using fail e
      by (auto simp: record_once_def Let_def and_then_def insert_revision_def split: sum.splits if_splits)
  qed
  then obtain no rows where "record_once ?R (cs_globals S) (pd_revision_at d) (pd_revision_nonces d 3) n payload (st_revisions st) = Inr (no, rows)"
    by (metis sum.exhaust surj_pair)
  then have "record_attempts 3 ?R (cs_globals S) (pd_revision_at d) (pd_revision_nonces d) n payload (st_revisions st) = Inr (no, rows)"
    by (subst record_attempts.simps) simp
  with tag show thesis by (intro that) (simp add: record_note_def record_as_def)
qed

lemma record_tag_summary:
  assumes "tag \<in> set REVISION_OPS" "tag \<noteq> str ''restore''"
  obtains s where "op_summary tag None = Inr s"
  using assms by (auto simp: REVISION_OPS_def op_summary_def simp del: str_Cons)

lemma revision_choice_total:
  assumes read: "readable S (co_source_path c) st"
    and tag: "case opo of None \<Rightarrow> True | Some tag \<Rightarrow> tag \<in> set REVISION_OPS \<and> (tag = str ''restore'' \<longrightarrow> so \<noteq> None)"
  obtains op payload where "revision_choice S opo c md st = Inr (op, payload)" "op \<in> set REVISION_OPS"
    "op = str ''restore'' \<longrightarrow> so \<noteq> None"
proof -
  let ?ok = "\<lambda>op. op \<in> set REVISION_OPS \<and> (op = str ''restore'' \<longrightarrow> so \<noteq> None)"
  have tags: "?ok (str ''create'')" "?ok (str ''update'')" by (simp_all add: REVISION_OPS_def)
  have "\<exists>op payload. revision_choice S opo c md st = Inr (op, payload) \<and> ?ok op"
  proof (cases "read_raw S (co_source_path c) st")
    case (Inl e)
    with read have e: "read_raw S (co_source_path c) st = Inl Not_found" by (simp add: readable_def)
    show ?thesis using tags(1) tag by (cases opo) (auto simp: revision_choice_def Let_def e simp del: str_Cons)
  next
    case (Inr pre)
    show ?thesis using tags tag
      by (cases opo; cases "registry_has S (co_source_path c) st") (auto simp: revision_choice_def Let_def Inr simp del: str_Cons)
  qed
  then show thesis using that by blast
qed

lemma revision_step_total:
  assumes live: "live_store S" and read: "readable S (co_source_path c) st"
    and tag: "case opo of None \<Rightarrow> True | Some tag \<Rightarrow> tag \<in> set REVISION_OPS \<and> (tag = str ''restore'' \<longrightarrow> so \<noteq> None)"
    and chain: "chain_holds (store_revisions S) (store_token S (co_source_path c)) h lo (st_revisions st)" "length h + 1 < 2 ^ 63"
  obtains st' where "revision_step S d opo so c md st = (Inr (), st')"
proof (cases "starts_with (co_source_path c) queue_prefix")
  case True
  then show thesis by (intro that) (simp add: revision_step_def)
next
  case False
  obtain op payload where choice: "revision_choice S opo c md st = Inr (op, payload)"
    and op: "op \<in> set REVISION_OPS" "op = str ''restore'' \<longrightarrow> so \<noteq> None"
    by (rule revision_choice_total [OF read tag])
  obtain summary where summary: "(case so of Some s \<Rightarrow> Inr s | None \<Rightarrow> op_summary op None) = Inr summary"
  proof (cases so)
    case None
    then have "op \<noteq> str ''restore''" using op(2) by blast
    from record_tag_summary [OF op(1) this] that None show thesis by simp blast
  qed (use that in simp)
  let ?n = "\<lparr>rn_path = co_source_path c, rn_op = op, rn_source = rev_source S c, rn_summary = summary\<rparr>"
  obtain st' where "record_note S d ?n payload st = (Inr (), st')"
    by (rule record_note_total [where S = S and n = ?n and st = st and h = h and lo = lo]) (use live op chain in simp_all)
  with False choice summary show thesis by (intro that) (simp add: revision_step_def)
qed

lemma insert_tokens_total:
  assumes "distinct (map token_pk rs)" "token_pk ` set rs \<inter> token_pk ` set rows = {}"
  shows "insert_tokens rs rows = Inr (rows @ rs)"
  using assms
proof (induction rs arbitrary: rows)
  case (Cons r rs)
  then have "token_pk r \<notin> token_pk ` set rows" by auto
  then have "insert_token r rows = Inr (rows @ [r])"
    by (auto simp: insert_token_def list_ex_iff token_pk_def image_iff)
  moreover have "insert_tokens rs (rows @ [r]) = Inr ((rows @ [r]) @ rs)" using Cons by (intro Cons.IH) auto
  ultimately show ?case by simp
qed simp

lemma index_step_total:
  assumes live: "live_store S" and json: "dj_to (cs_doc S) (concept_title c, snippet_of (co_body c)) \<noteq> None"
    and inj: "inj_on (token_of (store_index S)) (set (doc_tokens (cs_lower S) c))"
  obtains st' where "index_step S d c st = (Inr (), st')" "st_registry st' = st_registry st"
proof -
  let ?E = "store_index S" and ?path = "co_source_path c"
  let ?rs = "map (posting_row ?E c) (remdups (doc_tokens (cs_lower S) c))"
  have good: "good_prims (cs_prims S)" using live by (simp add: live_store_def)
  obtain payload where p: "dj_to (cs_doc S) (concept_title c, snippet_of (co_body c)) = Some payload"
    using json by blast
  obtain sealed where s: "aead_seal (cs_prims S) (pd_index_nonce d) payload (as_bytes ?path) (index_dek (store_index_keys S)) = Inr sealed"
    by (rule seal_total [OF live index_dek_length [OF good]])
  have "distinct (map token_pk ?rs)"
    using inj by (auto simp: distinct_map comp_def token_pk_def inj_on_def)
  moreover have "token_pk ` set ?rs \<inter> token_pk ` set (ib_tokens (index_remove ?E ?path (st_index st))) = {}"
    by (auto simp: token_pk_def index_remove_def delete_where_def)
  ultimately have "insert_tokens ?rs (ib_tokens (index_remove ?E ?path (st_index st))) = Inr (ib_tokens (index_remove ?E ?path (st_index st)) @ ?rs)"
    by (rule insert_tokens_total)
  moreover have "map (\<lambda>(t, tf). \<lparr>tk_scope = ei_scope_id ?E, tk_token = token_of ?E t, tk_path = ?path, tk_tf = int tf\<rparr>)
      (token_counts (doc_tokens (cs_lower S) c)) = ?rs"
    by (simp add: token_counts_def posting_row_def store_index_def)
  ultimately obtain db where "add_async ?E (pd_index_nonce d) c (st_index st) = Inr db"
    using p s by (simp add: add_async_def Let_def store_index_def index_crypto_def)
  then show thesis by (intro that [of "st\<lparr>st_index := db\<rparr>"]) (simp_all add: index_step_def)
qed

lemma stamp_title: "concept_title (stamp S now c) = concept_title c"
  by (simp add: concept_title_def split: option.split)

lemma paths_ok_registry:
  assumes "paths_ok S st" "path_ok (co_source_path c)"
  shows "paths_ok S (snd (registry_step S d c st))"
  using assms set_registry_upsert
  by (fastforce simp: paths_ok_def list_concepts_def registry_step_def list_all_iff)

lemma write_total:
  assumes live: "live_store S" and path: "path_ok (co_source_path c)" and ok: "batch_ok S [(d, c)]"
    and yaml: "to_yaml (cs_yaml S) (co_frontmatter (stamp S (pd_confirmed_at d) c)) \<noteq> None"
    and json: "dj_to (cs_doc S) (concept_title c, snippet_of (co_body c)) \<noteq> None"
    and read: "readable S (co_source_path c) st" and paths: "paths_ok S st"
    and tag: "case opo of None \<Rightarrow> True | Some tag \<Rightarrow> tag \<in> set REVISION_OPS \<and> (tag = str ''restore'' \<longrightarrow> so \<noteq> None)"
    and chain: "chain_holds (store_revisions S) (store_token S (co_source_path c)) h lo (st_revisions st)" "length h + 1 < 2 ^ 63"
    and inj: "inj_on (token_of (store_index S)) (set (doc_tokens (cs_lower S) (stamp S (pd_confirmed_at d) c)))"
  shows "\<exists>st'. put_batch_with_revision S draws [(d, c)] opo so st = (Inr (), st')"
proof -
  let ?c = "stamp S (pd_confirmed_at d) c"
  from yaml obtain md where md: "to_markdown (cs_yaml S) ?c = Inr md"
    by (auto simp: to_markdown_def and_then_eq_Inr ok_or_def split: option.splits)
  obtain st1 where 1: "revision_step S d opo so ?c md st = (Inr (), st1)"
    by (rule revision_step_total [where S = S and c = ?c and st = st and opo = opo and so = so and h = h and lo = lo]) (use live tag read chain in simp_all)
  obtain st2 where 2: "write_raw S d (co_source_path ?c) (as_bytes md) st1 = (Inr (), st2)" "st_registry st2 = st_registry st1"
    by (rule write_raw_total [OF live]) (use path in simp_all)
  have "st_registry st1 = st_registry st" using revision_step_state [of S d opo so ?c md st] 1 by auto
  with 2(2) paths have p2: "paths_ok S st2" by (simp add: paths_ok_def list_concepts_def)
  obtain st3 where 3: "registry_step S d ?c st2 = (Inr (), st3)" by (simp add: registry_step_def)
  have p3: "paths_ok S st3" using paths_ok_registry [OF p2, of ?c d] path 3 by simp
  obtain st4 where 4: "index_step S d ?c st3 = (Inr (), st4)" "st_registry st4 = st_registry st3"
    by (rule index_step_total [OF live _ inj])
      (use json in \<open>simp_all only: stamp_title stamp_sel not_False_eq_True\<close>)
  obtain st5 where 5: "vector_step S ?c st4 = (Inr (), st5)" "st_registry st5 = st_registry st4" by (simp add: vector_step_def)
  have p5: "paths_ok S st5" using p3 4(2) 5(2) by (simp add: paths_ok_def list_concepts_def)
  obtain st6 where 6: "regen_index_md S draws st5 = (Inr (), st6)" by (rule regen_total [OF live p5])
  have "stamp_all S [(d, c)] = Inr [(d, ?c)]" unfolding stamp_all_Inr using ok by simp
  then show ?thesis
    using 1 2(1) 3 4(1) 5(1) 6 md
    by (simp only: put_batch_with_revision_def put_steps_def list.map concat.simps append_Nil2 append_Cons append_Nil
        run_steps.simps prod.case sum.case list.distinct if_False stamp_sel) simp
qed

text \<open>C8.  A write gets through.  When the cipher and the serialisers do their work, a put of a concept
  that passes the guards succeeds: whatever the store holds, as long as the concept's file is
  readable or absent, listed paths are absolute, and no two of its terms share a keyed hash.  The
  undo row never meets a taken number, the token rows never meet a taken key.\<close>
theorem put_succeeds:
  assumes "live_store S" "cs_revision_op S = None" "path_ok (co_source_path c)" "batch_ok S [(d, c)]"
    and "\<not> starts_with (co_source_path c) queue_prefix"
    and "to_yaml (cs_yaml S) (co_frontmatter (stamp S (pd_confirmed_at d) c)) \<noteq> None"
    and "dj_to (cs_doc S) (concept_title c, snippet_of (co_body c)) \<noteq> None"
    and "readable S (co_source_path c) st" "paths_ok S st"
    and "chain_holds (store_revisions S) (store_token S (co_source_path c)) h lo (st_revisions st)" "length h + 1 < 2 ^ 63"
    and "inj_on (token_of (store_index S)) (set (doc_tokens (cs_lower S) (stamp S (pd_confirmed_at d) c)))"
  shows "\<exists>st'. put S draws d c st = (Inr (), st')"
proof -
  have "\<exists>st'. put_batch_with_revision S draws [(d, c)] None None st = (Inr (), st')"
    by (rule write_total [OF assms(1,3,4,6,7,8,9) _ assms(10-12)]) simp
  then show ?thesis using assms(2,5) by (simp add: put_def put_batch_def put_batch_internal_def)
qed

lemma delete_total:
  assumes live: "live_store S" and path: "path_ok path" "\<not> starts_with path queue_prefix" and read: "read_raw S path st = Inr pre"
    and paths: "paths_ok S st"
    and chain: "chain_holds (store_revisions S) (store_token S path) h lo (st_revisions st)" "length h + 1 < 2 ^ 63"
  shows "\<exists>st'. delete_concept S draws d path st = (Inr (), st')"
proof -
  let ?n = "\<lparr>rn_path = path, rn_op = str ''delete'', rn_source = delete_source S, rn_summary = str ''concept deleted''\<rparr>"
  have tag: "rn_op ?n \<in> set REVISION_OPS" by (simp add: REVISION_OPS_def)
  obtain sa where sa: "record_note S d ?n pre st = (Inr (), sa)"
    by (rule record_note_total [OF live tag, where h = h and lo = lo and st = st]) (use chain in simp_all)
  then have 1: "delete_note S d path pre st = (Inr (), sa)"
    using path(2) by (simp add: delete_note_def op_summary_def del: str_Cons)
  obtain rows where rows: "sa = st\<lparr>st_revisions := rows\<rparr>" using record_note_state [of S d ?n pre st] sa by auto
  let ?sf = "sa\<lparr>st_registry := filter (\<lambda>(s, e). \<not> (s = cs_scope_id S \<and> ce_path e = path)) (st_registry sa),
        st_index := index_remove (store_index S) path (st_index sa), st_files := (st_files sa)(stored_at S path := None)\<rparr>"
  have "paths_ok S ?sf" using paths by (auto simp: paths_ok_def list_concepts_def list_all_iff rows)
  from regen_total [OF live this] obtain sr where 2: "regen_index_md S draws ?sf = (Inr (), sr)" by blast
  have del: "delete_file (cs_prims S) path (cs_scope S) fs = (Inr (), fs(stored_at S path := None))" for fs
    using path(1) by (simp add: delete_file_def validate_path_def stored_at_def path_ok_def)
  have "run_steps (delete_steps S draws d path pre) st = (Inr (), invalidate_scope (cs_scope_id S) (remove_row S path sr))"
    using 1 2 by (simp add: delete_steps_def del)
  then show ?thesis using path(2) read by (simp add: delete_concept_def delete_internal_def)
qed

section \<open>What a write keeps\<close>

text \<open>A write extends the chain of its path by one entry, and leaves every file within the bound.\<close>

lemma write_chain:
  assumes "good_prims (cs_prims S)" "draws_ok d" "\<not> starts_with (co_source_path c) queue_prefix"
    and "put_batch_with_revision S draws [(d, c)] opo so st = (Inr (), st')"
    and "chain_holds (store_revisions S) (store_token S (co_source_path c)) h lo (st_revisions st)" "length h + 1 < 2 ^ 63"
  shows "\<exists>n payload lo'. chain_holds (store_revisions S) (store_token S (co_source_path c)) (h @ [(n, payload)]) lo' (st_revisions st')"
proof -
  let ?c = "stamp S (pd_confirmed_at d) c"
  obtain md st1 st2 st0 where rev: "revision_step S d opo so ?c md st = (Inr (), st1)" and same: "st_revisions st' = st_revisions st1"
    by (rule put_one_steps [OF assms(4)])
  from rev assms(3) obtain n payload where n: "record_note S d n payload st = (Inr (), st1)" "rn_path n = co_source_path c"
    by (auto simp: revision_step_def split: sum.splits prod.splits)
  from record_note_chain [OF assms(1,2) n(1), of h lo] assms(5,6) show ?thesis unfolding same n(2) by blast
qed

lemma write_fits:
  assumes "good_prims (cs_prims S)" "draws_ok d" "write_raw S d p content st = (Inr (), st')" "fits (st_files st)"
    and "\<And>meta. meta_to_json (cs_meta S) p = Some meta \<Longrightarrow> 74 + length meta + length content < 2 ^ 64"
  shows "fits (st_files st')"
proof -
  let ?keys = "scope_file_keys (cs_prims S) (cs_scope S)"
  from write_raw_Inr [OF assms(3)] obtain outer where
    o: "stored_bytes (cs_prims S) (cs_meta S) (pd_inner_nonce d) (pd_outer_nonce d) p content (cs_scope S) = Inr outer"
    and st': "st' = st\<lparr>st_files := (st_files st)(stored_at S p \<mapsto> outer, tmp_name (stored_at S p) (pd_tmp d) := None)\<rparr>" by blast
  from o obtain meta inner where m: "meta_to_json (cs_meta S) p = Some meta"
    and i: "aead_seal (cs_prims S) (pd_inner_nonce d) meta (as_bytes (stored_at S p)) (meta_dek ?keys) = Inr inner"
    and u: "aead_seal (cs_prims S) (pd_outer_nonce d) (le_bytes 8 (length inner) @ inner @ content) (as_bytes (stored_at S p))
      (dek_for_name (cs_prims S) ?keys (stored_at S p)) = Inr outer"
    by (auto simp: stored_bytes_def Let_def and_then_eq_Inr stored_at_def)
  have n: "length (pd_inner_nonce d) = NONCE_LEN" "length (pd_outer_nonce d) = NONCE_LEN" using assms(2) by (simp_all add: draws_ok_def)
  have "length outer < 2 ^ 64"
    using aead_box.seal_length [OF assms(1) n(1) i] aead_box.seal_length [OF assms(1) n(2) u] assms(5) [OF m]
    by (simp add: EMPTY_ENVELOPE_LEN_def NONCE_LEN_def TAG_LEN_def)
  with assms(4) show ?thesis by (auto simp: st' fits_def)
qed

end
