(* ===== verification/Store_Demo.thy ===== *)
theory Store_Demo
  imports Store_Live
begin

text \<open>
  The theorems on the concept store, applied to a small store: a note that is written, replaced,
  restored and deleted.
\<close>

section \<open>A small store\<close>

text \<open>One scope, one kind of note, two bodies.\<close>

definition note_fm :: frontmatter where
  "note_fm = default_frontmatter\<lparr>fm_type := str ''Note'', fm_confirmed_at := Some []\<rparr>"

definition note_yaml :: yaml where
  "note_yaml = \<lparr>from_yaml = (\<lambda>t. if t = str ''type: Note'' @ [NL] then Some note_fm else None),
     to_yaml = (\<lambda>fm. if fm = note_fm then Some (fence @ [NL] @ str ''type: Note'' @ [NL]) else None)\<rparr>"

definition note_json :: doc_json where
  "note_json = \<lparr>dj_to = (\<lambda>x. if x = (str ''/x'', str ''old'') then Some [1] else if x = (str ''/x'', str ''new'') then Some [2] else None),
     dj_from = (\<lambda>b. if b = [1] then Some (str ''/x'', str ''old'') else if b = [2] then Some (str ''/x'', str ''new'') else None)\<rparr>"

definition note_store :: concept_store where
  "note_store = \<lparr>cs_prims = toy_prims, cs_meta = ascii_json, cs_doc = note_json, cs_yaml = note_yaml, cs_lower = (\<lambda>s. s),
     cs_rfc3339_ok = (\<lambda>_. True), cs_globals = boot_tunables, cs_scope_id = str ''user:u'', cs_scope = demo_scope,
     cs_provenance = None, cs_revision_op = None\<rparr>"

definition note_draws :: put_draws where
  "note_draws = \<lparr>pd_confirmed_at = [], pd_revision_at = [], pd_revision_nonces = (\<lambda>_. replicate 12 0), pd_inner_nonce = replicate 12 0,
     pd_outer_nonce = replicate 12 0, pd_tmp = [], pd_registry_at = [], pd_index_nonce = replicate 12 0\<rparr>"

definition note_of :: "rstring \<Rightarrow> concept" where
  "note_of body = \<lparr>co_frontmatter = note_fm, co_body = body, co_source_path = str ''/x''\<rparr>"

definition empty_state :: store_state where
  "empty_state = \<lparr>st_files = Map.empty, st_registry = [], st_index = \<lparr>ib_tokens = [], ib_docs = []\<rparr>, st_revisions = [],
     st_vector_queue = [], st_vector_rows = [], st_vector_cache = [], st_cache_epoch = 0\<rparr>"

lemma good_note_yaml: "good_yaml note_yaml"
  unfolding good_yaml_def note_yaml_def by (auto split: if_splits) code_simp+

lemma note_store_sel [simp]:
  "cs_prims note_store = toy_prims" "cs_meta note_store = ascii_json" "cs_doc note_store = note_json"
  "cs_yaml note_store = note_yaml" "cs_lower note_store = (\<lambda>s. s)" "cs_scope_id note_store = str ''user:u''"
  "cs_rfc3339_ok note_store = (\<lambda>_. True)" "cs_scope note_store = demo_scope" "cs_provenance note_store = None"
  "cs_revision_op note_store = None"
  by (simp_all add: note_store_def)

lemma note_store_ok: "store_ok note_store" "live_store note_store" "good_doc_json note_json"
proof -
  show "store_ok note_store" by (simp add: store_ok_def good_toy_prims good_ascii_json good_note_yaml)
  have "gcm_seal toy_prims k n a p \<noteq> None" for k n a p by (simp add: toy_prims_def)
  moreover have "list_all is_scalar p \<Longrightarrow> meta_to_json ascii_json p \<noteq> None" for p by (simp add: ascii_json_def)
  ultimately show "live_store note_store" by (simp only: live_store_def note_store_sel good_toy_prims simp_thms) blast
  show "good_doc_json note_json" by (auto simp: good_doc_json_def note_json_def split: if_splits)
qed

lemma note_draws_ok: "draws_ok note_draws"
  by (simp add: draws_ok_def note_draws_def NONCE_LEN_def)

lemma stamp_note [simp]: "stamp note_store (pd_confirmed_at note_draws) (note_of body) = note_of body"
  by (simp add: stamp_def note_store_def note_draws_def note_of_def note_fm_def)

definition note_md :: "rstring \<Rightarrow> rstring" where
  "note_md body = fence @ [NL] @ str ''type: Note'' @ [NL] @ fence @ [NL] @ body"

lemma note_markdown: "to_markdown note_yaml (note_of body) = Inr (note_md body)"
proof -
  have "trim_end (trim_start_matches (fence @ [NL]) (fence @ [NL] @ str ''type: Note'' @ [NL])) = str ''type: Note''" by code_simp
  then show ?thesis by (simp add: to_markdown_def note_yaml_def note_of_def note_md_def)
qed

definition note_body :: "rstring \<Rightarrow> bool" where
  "note_body body \<longleftrightarrow> body = str ''old'' \<or> body = str ''new''"

lemma note_facts:
  assumes "note_body body"
  shows "batch_ok note_store [(note_draws, note_of body)]" "writable note_store note_draws (note_of body)"
    "dj_to (cs_doc note_store) (concept_title (note_of body), snippet_of (co_body (note_of body))) \<noteq> None"
    "inj_on (token_of (store_index note_store)) (set (doc_tokens (cs_lower note_store) (note_of body)))"
    "stored_concept note_store note_draws (note_of body) = note_of body"
proof -
  show "batch_ok note_store [(note_draws, note_of body)]"
    unfolding batch_ok_def note_store_sel by (simp add: note_of_def note_fm_def) code_simp
  have "trim (str ''Note'') \<noteq> []" by code_simp
  moreover have "list_all is_scalar (note_md body)"
    using assms by (auto simp: note_body_def note_md_def fence_def is_scalar_def)
  ultimately show "writable note_store note_draws (note_of body)"
    using note_draws_ok by (simp add: writable_def note_markdown) (simp add: note_of_def note_fm_def)
next
  show "dj_to (cs_doc note_store) (concept_title (note_of body), snippet_of (co_body (note_of body))) \<noteq> None"
    using assms
    by (auto simp: note_body_def note_json_def concept_title_def note_of_def note_fm_def default_frontmatter_def snippet_of_def
        trim_def trim_start_def trim_end_def is_whitespace_def)
  have "doc_tokens (\<lambda>s. s) (note_of body) = [body]"
    using assms unfolding note_body_def by (elim disjE) (simp_all only:, code_simp+)
  then show "inj_on (token_of (store_index note_store)) (set (doc_tokens (cs_lower note_store) (note_of body)))"
    by simp
  have "crlf_to_lf body = body" using assms unfolding note_body_def by auto
  then show "stored_concept note_store note_draws (note_of body) = note_of body"
    by (simp add: stored_concept_def) (simp add: note_of_def)
qed

text \<open>What holds between the operations on the note.\<close>

definition note_entry :: "rstring \<times> concept_entry" where
  "note_entry = (str ''user:u'', \<lparr>ce_path = str ''/x'', ce_title = str ''/x'', ce_concept_type = str ''Note'', ce_updated_at = []\<rparr>)"

definition note_inv :: "history \<Rightarrow> nat \<Rightarrow> store_state \<Rightarrow> bool" where
  "note_inv h lo st \<longleftrightarrow> (st_registry st = [] \<or> st_registry st = [note_entry]) \<and> fits (st_files st)
     \<and> chain_holds (store_revisions note_store) (store_token note_store (str ''/x'')) h lo (st_revisions st)
     \<and> readable note_store (str ''/x'') st"

abbreviation write_note :: "rstring option \<Rightarrow> rstring option \<Rightarrow> rstring \<Rightarrow> step" where
  "write_note opo so body \<equiv> put_batch_with_revision note_store (\<lambda>_. note_draws) [(note_draws, note_of body)] opo so"

lemma note_of_sel [simp]: "co_source_path (note_of body) = str ''/x''" "co_frontmatter (note_of body) = note_fm" "co_body (note_of body) = body"
  by (simp_all add: note_of_def)

lemma note_registry:
  assumes "st_registry st = [] \<or> st_registry st = [note_entry]"
  shows "st_registry (snd (registry_step note_store note_draws (note_of body) st)) = [note_entry]"
  using assms by (auto simp: registry_step_def registry_upsert_def note_entry_def concept_title_def note_fm_def
      default_frontmatter_def note_draws_def)

lemma note_listed:
  assumes "st_registry st = [] \<or> st_registry st = [note_entry]"
  shows "list_concepts note_store st = [] \<or> list_concepts note_store st = [snd note_entry]"
  using assms by (auto simp: list_concepts_def order_by_def note_entry_def)

lemma note_dirs:
  assumes "st_registry st = [] \<or> st_registry st = [note_entry]"
  shows "index_dirs (list_concepts note_store st) = [[]]"
  using note_listed [OF assms]
proof
  show "index_dirs (list_concepts note_store st) = [[]]" if "list_concepts note_store st = []" unfolding that by code_simp
  show "index_dirs (list_concepts note_store st) = [[]]" if "list_concepts note_store st = [snd note_entry]" unfolding that by code_simp
qed

lemma note_apart:
  assumes "st_registry st = [] \<or> st_registry st = [note_entry]"
  shows "apart note_store (str ''/x'') st"
proof -
  have "stored_at note_store (str ''/x'') \<noteq> stored_at note_store (index_path [])" by code_simp
  then show ?thesis by (simp only: apart_def note_dirs [OF assms] list.pred_inject simp_thms)
qed

lemma note_index_small:
  assumes "st_registry st = [] \<or> st_registry st = [note_entry]"
  shows "length (as_bytes (index_content (list_concepts note_store st) [])) < 1000"
  using note_listed [OF assms]
proof
  show "length (as_bytes (index_content (list_concepts note_store st) [])) < 1000" if "list_concepts note_store st = []"
    unfolding that by code_simp
  show "length (as_bytes (index_content (list_concepts note_store st) [])) < 1000" if "list_concepts note_store st = [snd note_entry]"
    unfolding that by code_simp
qed

lemma note_inv_empty: "note_inv [] 0 empty_state"
  by (simp add: note_inv_def empty_state_def fits_def chain_holds_def readable_def read_raw_def read_file_def validate_path_def
      starts_with_def Let_def)

lemma note_small: "note_body body \<Longrightarrow> length (as_bytes (note_md body)) < 1000" "length (as_bytes (str ''/x'')) < 1000"
  "length (as_bytes (index_path [])) < 1000"
proof -
  show "length (as_bytes (note_md body)) < 1000" if "note_body body"
    using that unfolding note_body_def by (elim disjE) (simp_all only:, code_simp+)
  show "length (as_bytes (str ''/x'')) < 1000" by code_simp
  show "length (as_bytes (index_path [])) < 1000" by code_simp
qed

lemma note_meta_small:
  assumes "length (as_bytes p) < 1000" "length content < 1000" "meta_to_json (cs_meta note_store) p = Some meta"
  shows "74 + length meta + length content < 2 ^ 64"
  using assms by (simp add: ascii_json_def split: if_splits)

lemma note_fits:
  assumes body: "note_body body" and put: "write_note opo so body st = (Inr (), st')"
    and inv: "fits (st_files st)" "st_registry st = [] \<or> st_registry st = [note_entry]"
  shows "fits (st_files st') \<and> st_registry st' = [note_entry]"
proof -
  note good = good_toy_prims note_draws_ok
  obtain md st1 st2 st0 where md: "to_markdown (cs_yaml note_store) (note_of body) = Inr md"
    and 1: "revision_step note_store note_draws opo so (note_of body) md st = (Inr (), st1)"
    and 2: "write_raw note_store note_draws (str ''/x'') (as_bytes md) st1 = (Inr (), st2)"
    and reg: "st_registry st' = st_registry (snd (registry_step note_store note_draws (note_of body) st))"
    and f: "st_files st0 = st_files st2" "st_files st' = st_files (snd (regen_index_md note_store (\<lambda>_. note_draws) st0))"
    and reg0: "st_registry st0 = st_registry st'"
    by (rule put_one_steps [OF put, unfolded stamp_note note_of_sel])
  have r: "st_registry st' = [note_entry]" using reg note_registry [OF inv(2)] by simp
  have m: "md = note_md body" using md by (simp add: note_markdown)
  have "fits (st_files st1)" using revision_step_state [of note_store note_draws opo so "note_of body" md st] 1 inv(1) by auto
  then have "fits (st_files st2)"
    using write_fits [OF _ good(2) 2] note_meta_small [OF note_small(2) note_small(1) [OF body]] good(1) by (simp add: m)
  then have f0: "fits (st_files st0)" by (simp add: f(1))
  have r0: "st_registry st0 = [] \<or> st_registry st0 = [note_entry]" using r reg0 by simp
  let ?w = "write_raw note_store note_draws (index_path []) (as_bytes (index_content (list_concepts note_store st0) []))"
  have regen: "regen_index_md note_store (\<lambda>_. note_draws) st0 = run_steps [?w] st0"
    by (simp only: regen_index_md_def regen_steps_def Let_def note_dirs [OF r0] list.map)
  have "path_ok (index_path [])" by (simp add: path_ok_def index_path_def starts_with_def is_scalar_def)
  then obtain st3 where w: "?w st0 = (Inr (), st3)" by (rule write_raw_total [OF note_store_ok(2)])
  have "fits (st_files st3)"
    using write_fits [OF _ good(2) w f0] note_meta_small [OF note_small(3) note_index_small [OF r0]] good(1) by simp
  moreover have "st_files st' = st_files st3" unfolding f(2) regen using w by simp
  ultimately show ?thesis using r by simp
qed

lemma note_path: "path_ok (str ''/x'')" "\<not> starts_with (str ''/x'') queue_prefix"
  by (simp_all add: path_ok_def starts_with_def is_scalar_def queue_prefix_def)

lemma note_yaml_prints: "to_yaml note_yaml note_fm \<noteq> None"
  by (simp add: note_yaml_def)

lemma note_paths_ok: "note_inv h lo st \<Longrightarrow> paths_ok note_store st"
  using note_listed [of st] note_path(1) by (auto simp: note_inv_def paths_ok_def note_entry_def)

text \<open>A write of the note gets through, reads back, and keeps what holds.\<close>

lemma note_write:
  assumes body: "note_body body" and inv: "note_inv h lo st" and small: "length h + 1 < 2 ^ 63"
    and tag: "case opo of None \<Rightarrow> True | Some tag \<Rightarrow> tag \<in> set REVISION_OPS \<and> (tag = str ''restore'' \<longrightarrow> so \<noteq> None)"
  obtains st' n payload lo' where "write_note opo so body st = (Inr (), st')" "note_inv (h @ [(n, payload)]) lo' st'"
    "get_concept note_store (str ''/x'') st' = Inr (note_of body)" "st_registry st' = [note_entry]"
proof -
  have inv': "st_registry st = [] \<or> st_registry st = [note_entry]" "fits (st_files st)" "readable note_store (str ''/x'') st"
    "chain_holds (store_revisions note_store) (store_token note_store (str ''/x'')) h lo (st_revisions st)"
    using inv by (simp_all only: note_inv_def)
  obtain st' where put: "write_note opo so body st = (Inr (), st')"
    using write_total [OF note_store_ok(2), where c = "note_of body" and d = note_draws and st = st and opo = opo and so = so
        and h = h and lo = lo and draws = "\<lambda>_. note_draws"]
      note_path(1) note_facts [OF body] note_yaml_prints inv' note_paths_ok [OF inv] tag small by auto
  have f: "fits (st_files st')" "st_registry st' = [note_entry]"
    using note_fits [OF body put inv'(2,1)] by blast+
  have "apart note_store (str ''/x'') st'" by (rule note_apart) (simp add: f(2))
  then have get: "get_concept note_store (str ''/x'') st' = Inr (note_of body)"
    using put_one_get [OF note_store_ok(1) note_facts(2) [OF body] f(1) _ put] note_facts(5) [OF body] by simp
  then have "readable note_store (str ''/x'') st'" by (rule get_concept_raw) (simp add: readable_def)
  moreover obtain n payload lo' where "chain_holds (store_revisions note_store) (store_token note_store (str ''/x''))
      (h @ [(n, payload)]) lo' (st_revisions st')"
    using write_chain [OF _ note_draws_ok _ put, of h lo] inv'(4) small note_path(2) good_toy_prims by auto
  ultimately have "note_inv (h @ [(n, payload)]) lo' st'" using f by (simp only: note_inv_def) blast
  then show thesis by (rule that [OF put _ get f(2)])
qed

lemma put_note: "put note_store draws note_draws (note_of body) st = put_batch_with_revision note_store draws [(note_draws, note_of body)] None None st"
  using note_path(2) by (simp add: put_def put_batch_def put_batch_internal_def)

section \<open>The theorems at work\<close>

theorem batch_guards_first_witness:
  "\<exists>e. put_batch note_store (\<lambda>_. note_draws) [(note_draws, (note_of [])\<lparr>co_source_path := str ''/index.md''\<rparr>)] empty_state = (Inl e, empty_state)"
proof -
  have "is_reserved_filename (basename (str ''/index.md''))" by code_simp
  then have "\<not> batch_ok note_store [(note_draws, (note_of [])\<lparr>co_source_path := str ''/index.md''\<rparr>)]"
    by (simp add: batch_ok_def)
  then show ?thesis using batch_guards_first by blast
qed

theorem put_succeeds_witness:
  "\<exists>st'. put note_store (\<lambda>_. note_draws) note_draws (note_of (str ''old'')) empty_state = (Inr (), st')"
proof -
  have body: "note_body (str ''old'')" by (simp add: note_body_def)
  have inv: "chain_holds (store_revisions note_store) (store_token note_store (str ''/x'')) [] 0 (st_revisions empty_state)"
    "readable note_store (str ''/x'') empty_state"
    using note_inv_empty by (simp_all only: note_inv_def)
  show ?thesis
    by (rule put_succeeds [OF note_store_ok(2), where h = "[]" and lo = 0])
      (use note_facts [OF body] note_path note_yaml_prints inv note_paths_ok [OF note_inv_empty] in simp_all)
qed

theorem put_never_ghosts_witness:
  "store_inv note_store (stopped_put note_store (\<lambda>_. note_draws) [(note_draws, note_of (str ''old''))] None None 3 0 empty_state)"
proof -
  have "store_inv note_store empty_state" by (simp add: store_inv_def empty_state_def)
  with put_never_ghosts [of note_store empty_state] good_toy_prims show ?thesis by (simp only: note_store_sel)
qed

text \<open>The note after its first write, and after its second.\<close>

lemma note_first:
  obtains st n p lo where "put note_store (\<lambda>_. note_draws) note_draws (note_of (str ''old'')) empty_state = (Inr (), st)"
    "note_inv [(n, p)] lo st" "get_concept note_store (str ''/x'') st = Inr (note_of (str ''old''))" "st_registry st = [note_entry]"
  by (rule note_write [OF _ note_inv_empty, where body = "str ''old''" and opo = None and so = None])
    (use put_note in \<open>simp_all add: note_body_def\<close>)

theorem put_then_get_witness:
  "\<exists>st'. put note_store (\<lambda>_. note_draws) note_draws (note_of (str ''old'')) empty_state = (Inr (), st') \<and>
     get_concept note_store (str ''/x'') st' = Inr (note_of (str ''old''))"
proof -
  have body: "note_body (str ''old'')" by (simp add: note_body_def)
  obtain st n p lo where st: "put note_store (\<lambda>_. note_draws) note_draws (note_of (str ''old'')) empty_state = (Inr (), st)"
    "note_inv [(n, p)] lo st" "st_registry st = [note_entry]" by (rule note_first)
  have "apart note_store (str ''/x'') st" by (rule note_apart) (simp add: st(3))
  moreover have "index_holds (store_index note_store) [] (st_index empty_state)" by (simp add: empty_state_def index_holds_empty)
  ultimately show ?thesis
    using put_then_get [OF note_store_ok(1) _ note_facts(2) [OF body] _ _ st(1), of "[]"] st note_store_ok(3) note_facts(5) [OF body]
    by (auto simp: note_inv_def)
qed

text \<open>Restoring the note to the last row of its chain, when that row holds the old text.\<close>

lemma note_restore:
  assumes inv: "note_inv (h @ [(n, pre)]) lo st" "lo < length h + 1" "length h + 2 < 2 ^ 63"
    and pre: "from_utf8 pre = Some md0" "concept_parse note_yaml (str ''/x'') md0 = Inr (note_of (str ''old''))"
  obtains st' where "restore note_store (\<lambda>_. note_draws) note_draws (str ''/x'') (length h + 1) st = (Inr (), st')"
    "fits (st_files st')" "apart note_store (str ''/x'') st'"
proof -
  let ?s = "str ''restored to revision '' @ show_nat (length h + 1)"
  have body: "note_body (str ''old'')" by (simp add: note_body_def)
  have "chain_holds (store_revisions note_store) (store_token note_store (str ''/x'')) (h @ [(n, pre)]) lo (st_revisions st)"
    using inv(1) by (simp only: note_inv_def)
  note run = restore_run [OF this inv(2) _ pre(1) _ note_path(2), of "note_of (str ''old'')" "\<lambda>_. note_draws" note_draws]
  have tag: "str ''restore'' \<in> set REVISION_OPS" by (simp add: REVISION_OPS_def)
  obtain st' n' p' lo' where st': "write_note (Some (str ''restore'')) (Some ?s) (str ''old'') st = (Inr (), st')"
    "note_inv ((h @ [(n, pre)]) @ [(n', p')]) lo' st'" "st_registry st' = [note_entry]"
    by (rule note_write [OF body inv(1), where opo = "Some (str ''restore'')" and so = "Some ?s"])
      (use inv(3) tag in \<open>simp_all del: str_Cons\<close>)
  have "apart note_store (str ''/x'') st'" by (rule note_apart) (simp add: st'(3))
  moreover have "fits (st_files st')" using st'(2) by (simp only: note_inv_def)
  ultimately show thesis using run st'(1) pre(2) inv(3) that by simp
qed

theorem restore_undoes_put_witness:
  "\<exists>st st1 st2. put note_store (\<lambda>_. note_draws) note_draws (note_of (str ''old'')) empty_state = (Inr (), st) \<and>
     put note_store (\<lambda>_. note_draws) note_draws (note_of (str ''new'')) st = (Inr (), st1) \<and>
     get_concept note_store (str ''/x'') st1 = Inr (note_of (str ''new'')) \<and>
     restore note_store (\<lambda>_. note_draws) note_draws (str ''/x'') 2 st1 = (Inr (), st2) \<and>
     get_concept note_store (str ''/x'') st2 = Inr (note_of (str ''old''))"
proof -
  have old: "note_body (str ''old'')" by (simp add: note_body_def)
  obtain st n p lo where st: "put note_store (\<lambda>_. note_draws) note_draws (note_of (str ''old'')) empty_state = (Inr (), st)"
    "note_inv [(n, p)] lo st" "get_concept note_store (str ''/x'') st = Inr (note_of (str ''old''))" "st_registry st = [note_entry]"
    by (rule note_first)
  obtain st1 n1 p1 lo1 where st1: "write_note None None (str ''new'') st = (Inr (), st1)"
    "note_inv ([(n, p)] @ [(n1, p1)]) lo1 st1" "get_concept note_store (str ''/x'') st1 = Inr (note_of (str ''new''))"
    by (rule note_write [OF _ st(2), where body = "str ''new''" and opo = None and so = None]) (simp_all add: note_body_def)
  have put: "put note_store (\<lambda>_. note_draws) note_draws (note_of (str ''new'')) st = (Inr (), st1)" using st1(1) by (simp only: put_note)
  have reg: "registry_has note_store (str ''/x'') st" by (simp add: registry_has_def st(4) note_entry_def)
  have chain: "chain_holds (store_revisions note_store) (store_token note_store (str ''/x'')) [(n, p)] lo (st_revisions st)"
    using st(2) by (simp only: note_inv_def)
  note c = note_of_sel(1) [of "str ''new''"]
  obtain pre md0 n' lo' where u: "from_utf8 pre = Some md0" "concept_parse (cs_yaml note_store) (str ''/x'') md0 = Inr (note_of (str ''old''))"
    "lo' < length [(n, p)] + 1"
    "chain_holds (store_revisions note_store) (store_token note_store (str ''/x'')) ([(n, p)] @ [(n', pre)]) lo' (st_revisions st1)"
    by (rule put_update_row [OF note_store_ok(1) _ _ _ _ _ put note_draws_ok, unfolded c, OF _ st(3) reg chain]) simp_all
  have inv: "note_inv ([(n, p)] @ [(n', pre)]) lo' st1" using st1(2) u(4) by (simp only: note_inv_def simp_thms)
  obtain st2 where st2: "restore note_store (\<lambda>_. note_draws) note_draws (str ''/x'') (length [(n, p)] + 1) st1 = (Inr (), st2)"
    "fits (st_files st2)" "apart note_store (str ''/x'') st2"
    by (rule note_restore [OF inv u(3) _ u(1)]) (use u(2) in simp_all)
  have "get_concept note_store (str ''/x'') st2 = Inr (note_of (str ''old''))"
    using restore_undoes_put [OF note_store_ok(1) _ _ _ _ _ put note_draws_ok, unfolded c, OF _ st(3) reg chain _ st2(1) note_facts(2) [OF old] st2(2,3)]
      note_facts(5) [OF old] by simp
  then show ?thesis using st(1) put st1(3) st2(1) by (auto simp: numeral_2_eq_2)
qed

theorem restore_undoes_delete_witness:
  "\<exists>st st1. put note_store (\<lambda>_. note_draws) note_draws (note_of (str ''old'')) empty_state = (Inr (), st) \<and>
     delete_concept note_store (\<lambda>_. note_draws) note_draws (str ''/x'') st = (Inr (), st1) \<and>
     delete_concept note_store (\<lambda>_. note_draws) note_draws (str ''/x'') st1 = (Inl (Store_not_found (str ''/x'')), st1)"
proof -
  obtain st n p lo where st: "put note_store (\<lambda>_. note_draws) note_draws (note_of (str ''old'')) empty_state = (Inr (), st)"
    "note_inv [(n, p)] lo st" "get_concept note_store (str ''/x'') st = Inr (note_of (str ''old''))" "st_registry st = [note_entry]"
    by (rule note_first)
  obtain pre md0 where pre: "read_raw note_store (str ''/x'') st = Inr pre" by (rule get_concept_raw [OF st(3)])
  have chain: "chain_holds (store_revisions note_store) (store_token note_store (str ''/x'')) [(n, p)] lo (st_revisions st)"
    using st(2) by (simp only: note_inv_def)
  obtain st1 where st1: "delete_concept note_store (\<lambda>_. note_draws) note_draws (str ''/x'') st = (Inr (), st1)"
    using delete_total [OF note_store_ok(2) note_path pre note_paths_ok [OF st(2)] chain, of "\<lambda>_. note_draws" note_draws] by auto
  have good: "good_prims (cs_prims note_store)" by (simp add: good_toy_prims)
  obtain sa where "st_registry st1 = filter (\<lambda>(s, e). \<not> (s = cs_scope_id note_store \<and> ce_path e = str ''/x'')) (st_registry st)"
    by (rule delete_run [OF good pre st1])
  then have "apart note_store (str ''/x'') st1" by (intro note_apart) (simp add: st(4) note_entry_def)
  then show ?thesis
    using restore_undoes_delete [OF note_store_ok(1) st(3) chain _ st1 note_draws_ok] st(1) st1 by simp
qed

end
