(* ===== verification/Book_Ingest.thy ===== *)
theory Book_Ingest
  imports Book_Catalog Store_Demo
begin

text \<open>
  Ingesting a book: \<^verbatim>\<open>crates/mycelium-librarian/src/ingest.rs\<close>.  The full text goes to the stacks, a file
  of the library repository; the catalog goes to the concept store of the same directory and key.
  \<open>L\<close> is that store, \<^verbatim>\<open>ConceptStore::for_service(store, key, library_dir, "library")\<close>.
\<close>

datatype ingest_error = Ingest_store store_error | Ingest_repo file_repo_error | Empty_text | No_chapters

fun show_ingest_error :: "(store_error \<Rightarrow> rstring) \<Rightarrow> (file_repo_error \<Rightarrow> rstring) \<Rightarrow> ingest_error \<Rightarrow> rstring" where
  "show_ingest_error s r (Ingest_store e) = str ''store error: '' @ s e"
| "show_ingest_error s r (Ingest_repo e) = str ''file repo error: '' @ r e"
| "show_ingest_error s r Empty_text = str ''book text is empty''"
| "show_ingest_error s r No_chapters = str ''book has no chapters (no `# ` headings)''"

definition stack_path_for :: "rstring \<Rightarrow> rstring" where
  "stack_path_for slug = str ''/library/'' @ slug @ str ''.md''"

definition library_store :: "service_key \<Rightarrow> concept_store \<Rightarrow> concept_store" where
  "library_store key base = concept_store_for_service key (str ''library'') base"

definition write_stack_text ::
  "concept_store \<Rightarrow> put_draws \<Rightarrow> rstring \<Rightarrow> rstring \<Rightarrow> store_state \<Rightarrow> (ingest_error + unit) \<times> store_state" where
  "write_stack_text L d slug text st =
     (if trim text = [] then (Inl Empty_text, st)
      else
        (case write_file (cs_prims L) (cs_meta L) (pd_inner_nonce d) (pd_outer_nonce d) (pd_tmp d) (stack_path_for slug)
            (as_bytes text) (cs_scope L) (st_files st) of
           (Inl e, files) \<Rightarrow> (Inl (Ingest_repo e), st\<lparr>st_files := files\<rparr>)
         | (Inr _, files) \<Rightarrow> (Inr (), st\<lparr>st_files := files\<rparr>)))"

definition read_stack_text :: "concept_store \<Rightarrow> rstring \<Rightarrow> store_state \<Rightarrow> ingest_error + rstring" where
  "read_stack_text L slug st =
     (case read_file (cs_prims L) (cs_meta L) (stack_path_for slug) (cs_scope L) (st_files st) of
        Inl e \<Rightarrow> Inl (Ingest_repo e)
      | Inr b \<Rightarrow> ok_or (from_utf8 b) (Ingest_store (Store_not_found (stack_path_for slug))))"

text \<open>\<^verbatim>\<open>delete_book\<close>: every step is best effort.  \<open>dd path\<close> is what the deletion of a path draws.\<close>

definition delete_book ::
  "concept_store \<Rightarrow> (rstring \<Rightarrow> rstring \<Rightarrow> put_draws) \<Rightarrow> (rstring \<Rightarrow> put_draws) \<Rightarrow> rstring \<Rightarrow> store_state \<Rightarrow> store_state" where
  "delete_book L draws dd slug st =
     (let entries = list_prefix L (str ''/'' @ slug @ str ''/'') st;
          st1 = foldl (\<lambda>s e. snd (delete_concept L (draws (ce_path e)) (dd (ce_path e)) (ce_path e) s)) st entries in
      st1\<lparr>st_files := snd (delete_file (cs_prims L) (stack_path_for slug) (cs_scope L) (st_files st1))\<rparr>)"

definition catalog_concepts :: "unicode \<Rightarrow> book_catalog \<Rightarrow> chapter_outline list \<Rightarrow> concept list" where
  "catalog_concepts U cat chapters = build_hub_concept cat chapters # map (build_chapter_concept U cat) chapters"

definition write_catalog ::
  "concept_store \<Rightarrow> unicode \<Rightarrow> (rstring \<Rightarrow> put_draws) \<Rightarrow> (nat \<Rightarrow> put_draws) \<Rightarrow> book_catalog \<Rightarrow> chapter_outline list \<Rightarrow> store_state
   \<Rightarrow> (ingest_error + rstring list) \<times> store_state" where
  "write_catalog L U draws ds cat chapters st =
     (if chapters = [] then (Inl No_chapters, st)
      else
        (let concepts = catalog_concepts U cat chapters in
         case put_batch (with_provenance (str ''ingest'') L) draws (map (\<lambda>(i, c). (ds i, c)) (enumerate 0 concepts)) st of
           (Inl e, st') \<Rightarrow> (Inl (Ingest_store e), st')
         | (Inr _, st') \<Rightarrow> (Inr (map co_source_path concepts), st')))"

definition ingest_book ::
  "concept_store \<Rightarrow> unicode \<Rightarrow> (rstring \<Rightarrow> put_draws) \<Rightarrow> (nat \<Rightarrow> put_draws) \<Rightarrow> put_draws \<Rightarrow> rstring \<Rightarrow> rstring \<Rightarrow> book_catalog \<Rightarrow> store_state
   \<Rightarrow> (ingest_error + rstring list) \<times> store_state" where
  "ingest_book L U draws ds d slug text cat st =
     (case write_stack_text L d slug text st of
        (Inl e, st') \<Rightarrow> (Inl e, st')
      | (Inr _, st') \<Rightarrow> write_catalog L U draws ds cat (parse_outline U text) st')"

section \<open>Where a book's files lie\<close>

lemma catalog_paths:
  "map co_source_path (catalog_concepts U cat chapters) = hub_path (bc_slug cat) # map (chapter_path (bc_slug cat)) chapters"
  by (simp add: catalog_concepts_def build_hub_concept_def build_chapter_concept_def Let_def)

lemma split_slash:
  "SLASH \<notin> set a \<Longrightarrow> SLASH \<notin> set b \<Longrightarrow> a @ SLASH # x = b @ SLASH # y \<longleftrightarrow> a = b \<and> x = y"
proof (induction a arbitrary: b)
  case Nil
  then show ?case by (cases b) auto
next
  case (Cons c a)
  then show ?case by (cases b) auto
qed

text \<open>The catalog of a book lies apart from every book's text, unless the book is called \<^verbatim>\<open>library\<close>.\<close>

lemma stack_apart_from_catalog:
  assumes "SLASH \<notin> set b" "b \<noteq> str ''library''"
  shows "stack_path_for a \<noteq> hub_path b \<and> stack_path_for a \<noteq> chapter_path b ch"
proof -
  have "str ''library'' @ SLASH # x \<noteq> b @ SLASH # y" for x y
    using assms by (subst split_slash) auto
  then show ?thesis by (simp add: stack_path_for_def hub_path_def chapter_path_def)
qed

lemma stack_paths_differ: "stack_path_for a = stack_path_for b \<longleftrightarrow> a = b"
  by (simp add: stack_path_for_def)

text \<open>The text of a book called \<^verbatim>\<open>book\<close> and the hub of one called \<^verbatim>\<open>library\<close> are one file.\<close>

lemma library_hub_is_a_stack: "stack_path_for (str ''book'') = hub_path (str ''library'')"
  by (simp add: stack_path_for_def hub_path_def)

section \<open>The text survives its catalog\<close>

lemma write_stack_text_raw:
  "write_stack_text L d slug text st =
     (if trim text = [] then (Inl Empty_text, st)
      else (case write_raw L d (stack_path_for slug) (as_bytes text) st of
              (Inl (Store_repo e), st') \<Rightarrow> (Inl (Ingest_repo e), st') | (Inl e, st') \<Rightarrow> (Inl (Ingest_store e), st') | (Inr u, st') \<Rightarrow> (Inr (), st')))"
  by (simp add: write_stack_text_def write_raw_def split: prod.splits sum.splits)

lemma stored_at_provenance [simp]: "stored_at (with_provenance src L) = stored_at L"
  by (simp add: fun_eq_iff stored_at_def with_provenance_def)

lemma apart_provenance [simp]: "apart (with_provenance src L) p st = apart L p st"
proof -
  have "list_concepts (with_provenance src L) st = list_concepts L st" by (simp add: list_concepts_def with_provenance_def)
  then show ?thesis by (simp add: apart_def)
qed

text \<open>The writes of a batch leave the file of a path alone when none of the concepts is stored there.\<close>

lemma batch_other:
  assumes "good_prims (cs_prims S)" "\<forall>x \<in> set xs. stored_at S (co_source_path (snd x)) \<noteq> stored_at S p"
  shows "st_files (snd (run_steps (concat (map (put_steps S opo so) xs)) st)) (stored_at S p) = st_files st (stored_at S p)"
proof (rule run_steps_invariant)
  fix f and st1 :: store_state
  assume "f \<in> set (concat (map (put_steps S opo so) xs))" and I: "st_files st1 (stored_at S p) = st_files st (stored_at S p)"
  then obtain d c where x: "(d, c) \<in> set xs" "f \<in> set (put_steps S opo so (d, c))" by auto
  have ne: "stored_at S p \<noteq> stored_at S (co_source_path c)" using assms(2) x(1) by fastforce
  show "st_files (snd (f st1)) (stored_at S p) = st_files st (stored_at S p)"
  proof (cases "to_markdown (cs_yaml S) c")
    case (Inl e)
    then show ?thesis using x(2) I by (simp add: put_steps_def)
  next
    case (Inr md)
    obtain rows where rows: "snd (revision_step S d opo so c md st1) = st1\<lparr>st_revisions := rows\<rparr>" using revision_step_state by blast
    have "st_files (snd (index_step S d c st1)) = st_files st1" by (simp add: index_step_def split: sum.splits)
    then show ?thesis using x(2) Inr I rows write_raw_other [OF assms(1) ne]
      by (auto simp: put_steps_def registry_step_def vector_step_def)
  qed
qed simp

lemma put_batch_other:
  assumes "good_prims (cs_prims S)" "\<forall>x \<in> set xs. stored_at S (co_source_path (snd x)) \<noteq> stored_at S p"
    and "apart S p (snd (put_batch S draws xs st))"
  shows "st_files (snd (put_batch S draws xs st)) (stored_at S p) = st_files st (stored_at S p)"
proof -
  let ?opo = "cs_revision_op S"
  consider "snd (put_batch S draws xs st) = st"
    | stamped where "stamp_all S xs = Inr stamped" "snd (put_batch S draws xs st) = snd (run_steps (concat (map (put_steps S ?opo None) stamped)
          @ [regen_index_md S draws, \<lambda>st. (Inr (), invalidate_scope (cs_scope_id S) st)]) st)"
    by (cases "find (\<lambda>(d, c). starts_with (co_source_path c) queue_prefix) xs"; cases "stamp_all S xs"; cases "xs = []")
      (auto simp: put_batch_def put_batch_internal_def put_batch_with_revision_def)
  then show ?thesis
  proof cases
    case 2
    have "map (co_source_path \<circ> snd) stamped = map (co_source_path \<circ> snd) xs"
      using 2(1) by (auto simp: stamp_all_Inr case_prod_beta)
    then have "(\<lambda>x. co_source_path (snd x)) ` set stamped = (\<lambda>x. co_source_path (snd x)) ` set xs"
      by (metis (no_types, lifting) comp_def image_cong set_map)
    then have ne: "\<forall>x \<in> set stamped. stored_at S (co_source_path (snd x)) \<noteq> stored_at S p" using assms(2) by (metis (no_types, lifting) image_iff)
    let ?run = "run_steps (concat (map (put_steps S ?opo None) stamped)) st"
    obtain r st1 where r: "?run = (r, st1)" by (cases ?run)
    have f1: "st_files st1 (stored_at S p) = st_files st (stored_at S p)" using batch_other [OF assms(1) ne, of ?opo None st] r by simp
    show ?thesis
    proof (cases r)
      case (Inl e)
      then show ?thesis using 2(2) r f1 by (simp add: run_steps_append)
    next
      case (Inr u)
      let ?g = "regen_index_md S draws st1"
      obtain files where g: "snd ?g = st1\<lparr>st_files := files\<rparr>" using regen_state by blast
      have fin: "st_registry (snd (put_batch S draws xs st)) = st_registry st1"
        "st_files (snd (put_batch S draws xs st)) = st_files (snd ?g)"
        using 2(2) r Inr g by (cases ?g; cases "fst ?g"; simp add: run_steps_append invalidate_scope_def)+
      then show ?thesis using regen_other [OF assms(1)] apart_cong [OF fin(1)] assms(3) f1 by simp
    qed
  qed simp
qed

text \<open>The text of a book survives its catalog.  Once the stacks have the text, reading it back gives
  exactly the text, whatever becomes of the catalog: written in full, refused, or stopped by an
  error after any number of its concepts.  The names of the catalog's files and of the directory
  indexes must differ from the text's.\<close>
theorem stack_text_survives:
  assumes "store_ok L" "draws_ok d" "list_all is_scalar text"
    and "write_stack_text L d slug text st = (Inr (), st1)"
    and "ingest_book L U draws ds d slug text cat st = (r, st')" "fits (st_files st')"
    and names: "stored_at L (stack_path_for slug) \<notin> stored_at L ` set (map co_source_path (catalog_concepts U cat (parse_outline U text)))"
      "apart L (stack_path_for slug) st'"
  shows "read_stack_text L slug st' = Inr text"
proof -
  let ?p = "stack_path_for slug" and ?S = "with_provenance (str ''ingest'') L"
  have good: "good_prims (cs_prims L)" "good_json (cs_meta L)" using assms(1) by (simp_all add: store_ok_def)
  have w: "write_raw L d ?p (as_bytes text) st = (Inr (), st1)"
    using assms(4) by (auto simp: write_stack_text_raw split: if_splits prod.splits sum.splits store_error.splits)
  have holds: "file_holds L ?p (as_bytes text) (st_files st1)" by (rule file_holds_write [OF w good(1) assms(2)])
  have cat: "write_catalog L U draws ds cat (parse_outline U text) st1 = (r, st')"
    using assms(4,5) by (simp add: ingest_book_def)
  have "st_files st' (stored_at L ?p) = st_files st1 (stored_at L ?p)"
  proof (cases "parse_outline U text = []")
    case True
    then show ?thesis using cat by (simp add: write_catalog_def)
  next
    case False
    let ?cs = "catalog_concepts U cat (parse_outline U text)"
    let ?xs = "map (\<lambda>(i, c). (ds i, c)) (enumerate 0 ?cs)"
    have st': "st' = snd (put_batch ?S draws ?xs st1)"
      using cat False by (auto simp: write_catalog_def Let_def split: prod.splits sum.splits)
    have "snd x \<in> set ?cs" if "x \<in> set ?xs" for x
      using that by (auto simp: in_set_enumerate_eq)
    moreover have "stored_at L (co_source_path c) \<noteq> stored_at L ?p" if "c \<in> set ?cs" for c
      using names(1) imageI [OF imageI [OF that], of "stored_at L" co_source_path] by auto
    ultimately have "\<forall>x \<in> set ?xs. stored_at ?S (co_source_path (snd x)) \<noteq> stored_at ?S ?p" by simp
    moreover have "apart ?S ?p (snd (put_batch ?S draws ?xs st1))"
      using names(2) by (simp add: st')
    moreover have "good_prims (cs_prims ?S)" using good(1) by (simp add: with_provenance_def)
    ultimately show ?thesis using put_batch_other [of ?S ?xs ?p draws st1] by (simp add: st')
  qed
  then have "file_holds L ?p (as_bytes text) (st_files st')" using holds by (simp add: file_holds_def)
  then have "read_raw L ?p st' = Inr (as_bytes text)" by (rule file_holds_read [OF good assms(6)])
  then show ?thesis using from_utf8_as_bytes [OF assms(3)] by (simp add: read_stack_text_def read_raw_def)
qed

section \<open>A small book\<close>

text \<open>A batch whose first concept cannot be printed changes nothing.\<close>

lemma unprintable_batch:
  assumes "to_markdown (cs_yaml S) (stamp S (pd_confirmed_at d) c) = Inl e"
  shows "\<exists>e'. put_batch S draws ((d, c) # xs) st = (Inl e', st)"
proof (cases "stamp_all S ((d, c) # xs)")
  case (Inl e')
  then show ?thesis
    by (cases "find (\<lambda>(d, c). starts_with (co_source_path c) queue_prefix) ((d, c) # xs)")
      (auto simp del: stamp_all.simps find.simps simp: put_batch_def put_batch_internal_def put_batch_with_revision_def)
next
  case (Inr stamped)
  then have "stamped = map (\<lambda>(d, c). (d, stamp S (pd_confirmed_at d) c)) ((d, c) # xs)" by (simp only: stamp_all_Inr)
  then have "run_steps (concat (map (put_steps S (cs_revision_op S) None) stamped)
      @ [regen_index_md S draws, \<lambda>st. (Inr (), invalidate_scope (cs_scope_id S) st)]) st = (Inl (Store_parse e), st)"
    using assms by (simp add: put_steps_def)
  with Inr show ?thesis
    by (cases "find (\<lambda>(d, c). starts_with (co_source_path c) queue_prefix) ((d, c) # xs)")
      (auto simp del: stamp_all.simps find.simps simp: put_batch_def put_batch_internal_def put_batch_with_revision_def)
qed

definition small_catalog :: book_catalog where
  "small_catalog = heuristic_catalog (str ''b'') (str ''B'') (parse_outline ascii_unicode plain_book)"

lemma plain_outline_eval:
  "parse_outline ascii_unicode plain_book =
     [\<lparr>ch_index = 1, ch_title = str ''A'', ch_slug = str ''a'',
       ch_sections = [\<lparr>so_index = 1, so_title = str ''S'', so_anchor_id = None\<rparr>], ch_anchor_id = None\<rparr>,
      \<lparr>ch_index = 2, ch_title = str ''B'', ch_slug = str ''b'', ch_sections = [], ch_anchor_id = None\<rparr>]"
  by (simp add: outline_eval plain_book_def)

lemma small_paths:
  "map co_source_path (catalog_concepts ascii_unicode small_catalog (parse_outline ascii_unicode plain_book)) =
     [str ''/b/book.md'', str ''/b/ch-1-a.md'', str ''/b/ch-2-b.md'']"
  unfolding catalog_paths plain_outline_eval
  by (simp add: small_catalog_def heuristic_catalog_def hub_path_def chapter_path_def chapter_anchor_id_def show_nat.simps)

text \<open>The catalog of the small book is refused, since the store prints notes only; its text stays readable.\<close>

theorem stack_text_survives_witness:
  "\<exists>e st'. ingest_book note_store ascii_unicode (\<lambda>_. note_draws) (\<lambda>_. note_draws) note_draws (str ''b'') plain_book small_catalog empty_state
      = (Inl e, st') \<and> read_stack_text note_store (str ''b'') st' = Inr plain_book"
proof -
  let ?p = "stack_path_for (str ''b'')"
  have p: "path_ok ?p" by (simp add: path_ok_def stack_path_for_def starts_with_def is_scalar_def)
  obtain st1 where w: "write_raw note_store note_draws ?p (as_bytes plain_book) empty_state = (Inr (), st1)"
    "st_registry st1 = st_registry empty_state" by (rule write_raw_total [OF note_store_ok(2) p])
  have "trim plain_book \<noteq> []" by (simp add: outline_eval plain_book_def)
  with w have s1: "write_stack_text note_store note_draws (str ''b'') plain_book empty_state = (Inr (), st1)"
    by (simp add: write_stack_text_raw)
  have "fits (st_files empty_state)" by (simp add: fits_def empty_state_def)
  moreover have len: "utf8_len ?p = 13" "length (as_bytes plain_book) = 13"
    by (simp_all add: stack_path_for_def plain_book_def utf8_len_char_def utf8_char_def)
  moreover have "length meta = 13" if "meta_to_json ascii_json ?p = Some meta" for meta
    using that len(1) by (auto simp: ascii_json_def length_as_bytes split: if_splits)
  ultimately have fits: "fits (st_files st1)"
    using write_fits [OF _ note_draws_ok w(1)] good_toy_prims by force
  let ?S = "with_provenance (str ''ingest'') note_store"
  let ?chs = "parse_outline ascii_unicode plain_book"
  have "to_markdown (cs_yaml ?S) (stamp ?S (pd_confirmed_at note_draws) (build_hub_concept small_catalog ?chs)) = Inl Yaml"
    by (simp add: to_markdown_def note_yaml_def with_provenance_def stamp_def build_hub_concept_def note_fm_def Let_def note_store_def default_frontmatter_def)
  from unprintable_batch [OF this, of "\<lambda>_. note_draws" "map (\<lambda>(i, c). (note_draws, c))
      (enumerate 1 (map (build_chapter_concept ascii_unicode small_catalog) ?chs))" st1]
  obtain e where "put_batch ?S (\<lambda>_. note_draws) (map (\<lambda>(i, c). (note_draws, c)) (enumerate 0 (catalog_concepts ascii_unicode small_catalog ?chs))) st1 = (Inl e, st1)"
    by (auto simp: catalog_concepts_def)
  then have cat: "write_catalog note_store ascii_unicode (\<lambda>_. note_draws) (\<lambda>_. note_draws) small_catalog ?chs st1 = (Inl (Ingest_store e), st1)"
    by (simp add: write_catalog_def plain_outline_eval)
  then have ing: "ingest_book note_store ascii_unicode (\<lambda>_. note_draws) (\<lambda>_. note_draws) note_draws (str ''b'') plain_book small_catalog empty_state
      = (Inl (Ingest_store e), st1)"
    using s1 by (simp add: ingest_book_def)
  have ap: "apart note_store ?p st1"
  proof -
    have "index_dirs (list_concepts note_store st1) = [[]]" by (simp add: list_concepts_def w(2) empty_state_def index_dirs_def)
    moreover have "stored_at note_store ?p \<noteq> stored_at note_store (index_path [])" by code_simp
    ultimately show ?thesis by (simp only: apart_def list.pred_inject simp_thms)
  qed
  have names: "stored_at note_store ?p \<notin> stored_at note_store ` set (map co_source_path (catalog_concepts ascii_unicode small_catalog ?chs))"
    unfolding small_paths by code_simp
  have scalar: "list_all is_scalar plain_book" by (simp add: plain_book_def is_scalar_def)
  from stack_text_survives [OF note_store_ok(1) note_draws_ok scalar s1 ing fits names ap] ing show ?thesis by blast
qed

end
