(* ===== verification/Ingest_Jobs.thy ===== *)
theory Ingest_Jobs
  imports Book_Ingest Mutation_Queue
begin

text \<open>
  Ingest jobs: the tables of \<^verbatim>\<open>crates/mycelium-store/src/books.rs\<close> and the worker of
  \<^verbatim>\<open>crates/mycelium-librarian/src/worker.rs\<close>.  A call of \<^verbatim>\<open>submit\<close> or \<^verbatim>\<open>run_job\<close> is a task that takes one
  step per lock or statement; the tasks of a process interleave at will, a statement may fail, and a
  restart forgets the tasks, the slots and the staged texts.
\<close>

section \<open>Tables\<close>

datatype books_error = Books_db rstring | Duplicate_slug rstring | Book_not_found rstring

record book_row =
  bk_id :: uuid
  bk_shelf :: uuid
  bk_slug :: rstring
  bk_title :: rstring
  bk_stack_path :: rstring
  bk_created_at :: timestamp

record job_row =
  j_id :: uuid
  j_shelf :: uuid
  j_book :: uuid
  j_user :: uuid
  j_status :: rstring
  j_detail :: rstring
  j_created_at :: timestamp
  j_updated_at :: timestamp

record ingest_job =
  jb_id :: uuid
  jb_shelf :: uuid
  jb_book :: uuid
  jb_user :: uuid
  jb_status :: ingest_status
  jb_detail :: rstring
  jb_created_at :: timestamp
  jb_updated_at :: timestamp

record library_db =
  ld_shelves :: "uuid list"
  ld_users :: "(uuid \<times> rstring) list"
  ld_books :: "book_row list"
  ld_jobs :: "job_row list"

definition fk_failed :: books_error where
  "fk_failed = Books_db (str ''FOREIGN KEY constraint failed'')"

definition delete_book_row :: "rstring \<Rightarrow> library_db \<Rightarrow> (books_error + unit) \<times> library_db" where
  "delete_book_row slug db =
     (let gone = filter (\<lambda>b. bk_slug b = slug) (ld_books db) in
      if gone = [] then (Inl (Book_not_found slug), db)
      else (Inr (), db\<lparr>ld_books := delete_where (\<lambda>b. bk_slug b = slug) (ld_books db),
              ld_jobs := delete_where (\<lambda>j. j_book j \<in> set (map bk_id gone)) (ld_jobs db)\<rparr>))"

definition create_book ::
  "uuid \<Rightarrow> timestamp \<Rightarrow> uuid \<Rightarrow> rstring \<Rightarrow> rstring \<Rightarrow> rstring \<Rightarrow> library_db \<Rightarrow> (books_error + uuid) \<times> library_db" where
  "create_book new_id now shelf slug title stack_path db =
     (if list_ex (\<lambda>b. bk_slug b = slug \<or> bk_id b = new_id) (ld_books db) then (Inl (Duplicate_slug slug), db)
      else if shelf \<notin> set (ld_shelves db) then (Inl fk_failed, db)
      else (Inr new_id, db\<lparr>ld_books := ld_books db @ [\<lparr>bk_id = new_id, bk_shelf = shelf, bk_slug = slug, bk_title = title,
              bk_stack_path = stack_path, bk_created_at = now\<rparr>]\<rparr>))"

definition book_by_slug :: "rstring \<Rightarrow> library_db \<Rightarrow> book_row option" where
  "book_by_slug slug db = fetch_optional (\<lambda>b. bk_slug b = slug) (ld_books db)"

definition books_on_shelf :: "uuid \<Rightarrow> library_db \<Rightarrow> (rstring \<times> rstring) list" where
  "books_on_shelf shelf db =
     map (\<lambda>b. (bk_slug b, bk_title b)) (order_by bk_slug (filter (\<lambda>b. bk_shelf b = shelf) (ld_books db)))"

definition create_ingest_job ::
  "uuid \<Rightarrow> timestamp \<Rightarrow> uuid \<Rightarrow> uuid \<Rightarrow> uuid \<Rightarrow> library_db \<Rightarrow> (books_error + uuid) \<times> library_db" where
  "create_ingest_job new_id now shelf book user db =
     (if list_ex (\<lambda>j. j_id j = new_id) (ld_jobs db) then (Inl (Books_db (str ''UNIQUE constraint failed'')), db)
      else if shelf \<notin> set (ld_shelves db) \<or> book \<notin> set (map bk_id (ld_books db)) \<or> user \<notin> set (map fst (ld_users db))
      then (Inl fk_failed, db)
      else (Inr new_id, db\<lparr>ld_jobs := ld_jobs db @ [\<lparr>j_id = new_id, j_shelf = shelf, j_book = book, j_user = user,
              j_status = str ''pending'', j_detail = [], j_created_at = now, j_updated_at = now\<rparr>]\<rparr>))"

definition update_ingest_job :: "timestamp \<Rightarrow> uuid \<Rightarrow> ingest_status \<Rightarrow> rstring \<Rightarrow> library_db \<Rightarrow> library_db" where
  "update_ingest_job now job status detail db =
     db\<lparr>ld_jobs := update_where (\<lambda>j. j_id j = job)
        (\<lambda>j. j\<lparr>j_status := ingest_status_as_str status, j_detail := detail, j_updated_at := now\<rparr>) (ld_jobs db)\<rparr>"

definition claim_ingest_job :: "timestamp \<Rightarrow> uuid \<Rightarrow> library_db \<Rightarrow> bool \<times> library_db" where
  "claim_ingest_job now job db =
     (0 < rows_affected (\<lambda>j. j_id j = job \<and> j_status j = str ''pending'') (ld_jobs db),
      db\<lparr>ld_jobs := update_where (\<lambda>j. j_id j = job \<and> j_status j = str ''pending'')
        (\<lambda>j. j\<lparr>j_status := str ''running'', j_detail := [], j_updated_at := now\<rparr>) (ld_jobs db)\<rparr>)"

definition decode_job :: "timestamp \<Rightarrow> job_row \<Rightarrow> ingest_job" where
  "decode_job now j =
     \<lparr>jb_id = j_id j, jb_shelf = j_shelf j, jb_book = j_book j, jb_user = j_user j,
      jb_status = (case ingest_status_parse (j_status j) of Some s \<Rightarrow> s | None \<Rightarrow> IngestFailed),
      jb_detail = j_detail j, jb_created_at = j_created_at j, jb_updated_at = now\<rparr>"

definition fetch_ingest_job :: "timestamp \<Rightarrow> uuid \<Rightarrow> library_db \<Rightarrow> ingest_job option" where
  "fetch_ingest_job now job db = map_option (decode_job now) (fetch_optional (\<lambda>j. j_id j = job) (ld_jobs db))"

text \<open>Newest first; SQLite leaves the order of equal dates open, the model takes the later row first.\<close>

definition list_ingest_jobs :: "timestamp \<Rightarrow> nat \<Rightarrow> library_db \<Rightarrow> ingest_job list" where
  "list_ingest_jobs now limit db = map (decode_job now) (take limit (rev (order_by j_created_at (ld_jobs db))))"

definition with_status :: "rstring \<Rightarrow> library_db \<Rightarrow> uuid list" where
  "with_status s db = map j_id (filter (\<lambda>j. j_status j = s) (ld_jobs db))"

definition pending_ingest_jobs :: "library_db \<Rightarrow> uuid list" where
  "pending_ingest_jobs db = with_status (str ''pending'') db"

definition fail_stale_running_jobs :: "timestamp \<Rightarrow> library_db \<Rightarrow> uuid list \<times> library_db" where
  "fail_stale_running_jobs now db =
     (let ids = with_status (str ''running'') db in
      (ids, foldl (\<lambda>d i. update_ingest_job now i IngestFailed (str ''interrupted by restart'') d) db ids))"

record pending_job_row =
  pj_id :: uuid
  pj_slug :: rstring
  pj_username :: rstring
  pj_created_at :: timestamp

definition pending_ingest_job_rows :: "library_db \<Rightarrow> pending_job_row list" where
  "pending_ingest_job_rows db =
     concat (map (\<lambda>j. [\<lparr>pj_id = j_id j, pj_slug = bk_slug b, pj_username = name, pj_created_at = j_created_at j\<rparr>.
         b \<leftarrow> ld_books db, bk_id b = j_book j, (u, name) \<leftarrow> ld_users db, u = j_user j])
       (order_by j_created_at (filter (\<lambda>j. j_status j = str ''pending'') (ld_jobs db))))"

section \<open>Worker\<close>

datatype worker_error =
    Worker_books books_error
  | Worker_ingest ingest_error
  | Worker_book_not_found rstring
  | User_busy

record staged_book =
  sg_slug :: rstring
  sg_title :: rstring
  sg_text :: rstring

record worker =
  wk_db :: library_db
  wk_slots :: "uuid \<rightharpoonup> uuid"
  wk_staged :: "uuid \<rightharpoonup> staged_book"

record submission =
  sb_shelf :: uuid
  sb_user :: uuid
  sb_slug :: rstring
  sb_title :: rstring
  sb_text :: rstring

record submitted_job =
  sj_job :: uuid
  sj_book :: uuid
  sj_slug :: rstring

text \<open>\<^verbatim>\<open>ingest_one\<close>, over the library's store.\<close>

definition ingest_one ::
  "concept_store \<Rightarrow> unicode \<Rightarrow> (rstring \<Rightarrow> llm_error + rstring) \<Rightarrow> (rstring \<Rightarrow> llm_book option) \<Rightarrow> (rstring \<Rightarrow> put_draws) \<Rightarrow> (nat \<Rightarrow> put_draws)
   \<Rightarrow> put_draws \<Rightarrow> rstring \<Rightarrow> rstring \<Rightarrow> rstring \<Rightarrow> store_state \<Rightarrow> (worker_error + nat) \<times> store_state" where
  "ingest_one L U ask from_json draws ds d slug title text st =
     (let outline = parse_outline U text; cat = build_catalog (Some ask) from_json slug title outline text in
      case ingest_book L U draws ds d slug text cat st of
        (Inl e, st') \<Rightarrow> (Inl (Worker_ingest e), st')
      | (Inr written, st') \<Rightarrow> (Inr (length written), st'))"

text \<open>Where a task is, with what it holds.\<close>

datatype task =
    Submit_reserve submission
  | Submit_book submission
  | Submit_job submission uuid
  | Submit_stage submission uuid uuid
  | Submit_point submission uuid uuid
  | Submit_undo submission worker_error
  | Submit_done "worker_error + submitted_job"
  | Run_read uuid
  | Run_claim uuid uuid
  | Run_take uuid uuid
  | Run_ingest uuid uuid staged_book
  | Run_settle uuid uuid ingest_status rstring
  | Run_release uuid uuid
  | Run_done "worker_error + unit"

text \<open>What a step meets: the clock, a new identifier, whether the statement fails, how the ingest ends
  and how its error reads.\<close>

record step_env =
  se_now :: timestamp
  se_uuid :: uuid
  se_fails :: "rstring option"
  se_ingest :: "worker_error + nat"
  se_show :: "worker_error \<Rightarrow> rstring"

definition lost_text :: rstring where
  "lost_text = str ''staged text lost after restart '' @ [8212] @ str '' re-upload the book''"

definition db_failed :: "rstring \<Rightarrow> worker_error" where
  "db_failed e = Worker_books (Books_db e)"

text \<open>\<^verbatim>\<open>submit\<close> and \<^verbatim>\<open>run_job\<close>.\<close>

fun task_step :: "step_env \<Rightarrow> task \<Rightarrow> worker \<Rightarrow> task \<times> worker" where
  "task_step E (Submit_reserve s) w =
     (if wk_slots w (sb_user s) \<noteq> None then (Submit_done (Inl User_busy), w)
      else (Submit_book s, w\<lparr>wk_slots := (wk_slots w)(sb_user s \<mapsto> 0)\<rparr>))"
| "task_step E (Submit_book s) w =
     (case se_fails E of
        Some e \<Rightarrow> (Submit_undo s (db_failed e), w)
      | None \<Rightarrow>
          (case create_book (se_uuid E) (se_now E) (sb_shelf s) (sb_slug s) (sb_title s) (stack_path_for (sb_slug s)) (wk_db w) of
             (Inl e, db) \<Rightarrow> (Submit_undo s (Worker_books e), w\<lparr>wk_db := db\<rparr>)
           | (Inr book, db) \<Rightarrow> (Submit_job s book, w\<lparr>wk_db := db\<rparr>)))"
| "task_step E (Submit_job s book) w =
     (case se_fails E of
        Some e \<Rightarrow> (Submit_undo s (db_failed e), w)
      | None \<Rightarrow>
          (case create_ingest_job (se_uuid E) (se_now E) (sb_shelf s) book (sb_user s) (wk_db w) of
             (Inl e, db) \<Rightarrow> (Submit_undo s (Worker_books e), w\<lparr>wk_db := db\<rparr>)
           | (Inr job, db) \<Rightarrow> (Submit_stage s book job, w\<lparr>wk_db := db\<rparr>)))"
| "task_step E (Submit_stage s book job) w =
     (Submit_point s book job,
      w\<lparr>wk_staged := (wk_staged w)(job \<mapsto> \<lparr>sg_slug = sb_slug s, sg_title = sb_title s, sg_text = sb_text s\<rparr>)\<rparr>)"
| "task_step E (Submit_point s book job) w =
     (Submit_done (Inr \<lparr>sj_job = job, sj_book = book, sj_slug = sb_slug s\<rparr>), w\<lparr>wk_slots := (wk_slots w)(sb_user s \<mapsto> job)\<rparr>)"
| "task_step E (Submit_undo s e) w = (Submit_done (Inl e), w\<lparr>wk_slots := (wk_slots w)(sb_user s := None)\<rparr>)"
| "task_step E (Run_read job) w =
     (case se_fails E of
        Some e \<Rightarrow> (Run_done (Inl (db_failed e)), w)
      | None \<Rightarrow> (case fetch_ingest_job (se_now E) job (wk_db w) of None \<Rightarrow> (Run_done (Inr ()), w) | Some j \<Rightarrow> (Run_claim job (jb_user j), w)))"
| "task_step E (Run_claim job user) w =
     (case se_fails E of
        Some e \<Rightarrow> (Run_done (Inl (db_failed e)), w)
      | None \<Rightarrow>
          (case claim_ingest_job (se_now E) job (wk_db w) of
             (claimed, db) \<Rightarrow> (if claimed then Run_take job user else Run_done (Inr ()), w\<lparr>wk_db := db\<rparr>)))"
| "task_step E (Run_take job user) w =
     (case wk_staged w job of
        None \<Rightarrow> (Run_settle job user IngestFailed lost_text, w)
      | Some b \<Rightarrow> (Run_ingest job user b, w\<lparr>wk_staged := (wk_staged w)(job := None)\<rparr>))"
| "task_step E (Run_ingest job user b) w =
     (case se_ingest E of
        Inr n \<Rightarrow> (Run_settle job user IngestDone (show_nat n @ str '' catalog concepts written''), w)
      | Inl e \<Rightarrow> (Run_settle job user IngestFailed (se_show E e), w))"
| "task_step E (Run_settle job user status detail) w =
     (case se_fails E of
        Some e \<Rightarrow> (Run_done (Inl (db_failed e)), w)
      | None \<Rightarrow> (Run_release job user, w\<lparr>wk_db := update_ingest_job (se_now E) job status detail (wk_db w)\<rparr>))"
| "task_step E (Run_release job user) w = (Run_done (Inr ()), w\<lparr>wk_slots := (wk_slots w)(user := None)\<rparr>)"
| "task_step E (Submit_done r) w = (Submit_done r, w)"
| "task_step E (Run_done r) w = (Run_done r, w)"

definition ingest_recover_on_boot :: "timestamp \<Rightarrow> worker \<Rightarrow> uuid list \<times> worker" where
  "ingest_recover_on_boot now w =
     (let db = snd (fail_stale_running_jobs now (wk_db w)) in (pending_ingest_jobs db, w\<lparr>wk_db := db\<rparr>))"

text \<open>\<^verbatim>\<open>run_pending\<close> starts one \<^verbatim>\<open>run_job\<close> after the other; the upload handler starts one for its own job.\<close>

definition job_status :: "timestamp \<Rightarrow> uuid \<Rightarrow> worker \<Rightarrow> (uuid \<times> ingest_status \<times> rstring) option" where
  "job_status now job w = map_option (\<lambda>j. (jb_id j, jb_status j, jb_detail j)) (fetch_ingest_job now job (wk_db w))"

section \<open>The process\<close>

text \<open>The tasks of a process over one worker, the identifiers drawn so far, and the jobs whose ingest began,
  in order.\<close>

record process =
  pr_worker :: worker
  pr_tasks :: "task list"
  pr_used :: "uuid list"
  pr_ingested :: "uuid list"

fun ingests :: "task \<Rightarrow> uuid list" where
  "ingests (Run_ingest job _ _) = [job]"
| "ingests _ = []"

inductive process_step :: "process \<Rightarrow> process \<Rightarrow> bool" where
  submit_start: "process_step p (p\<lparr>pr_tasks := pr_tasks p @ [Submit_reserve s]\<rparr>)"
| run_start: "process_step p (p\<lparr>pr_tasks := pr_tasks p @ [Run_read job]\<rparr>)"
| task_moves:
    "i < length (pr_tasks p) \<Longrightarrow> se_uuid E \<notin> set (pr_used p) \<Longrightarrow> task_step E (pr_tasks p ! i) (pr_worker p) = (t, w) \<Longrightarrow>
     process_step p \<lparr>pr_worker = w, pr_tasks = (pr_tasks p)[i := t], pr_used = se_uuid E # pr_used p,
       pr_ingested = pr_ingested p @ ingests t\<rparr>"
| book_replaced:
    "process_step p (p\<lparr>pr_worker := (pr_worker p)\<lparr>wk_db := snd (delete_book_row slug (wk_db (pr_worker p)))\<rparr>\<rparr>)"
| restart:
    "process_step p (p\<lparr>pr_worker := snd (ingest_recover_on_boot now \<lparr>wk_db = wk_db (pr_worker p), wk_slots = Map.empty, wk_staged = Map.empty\<rparr>),
       pr_tasks := []\<rparr>)"

inductive process_reach :: "library_db \<Rightarrow> process \<Rightarrow> bool" for db :: library_db where
  boot: "process_reach db \<lparr>pr_worker = \<lparr>wk_db = db, wk_slots = Map.empty, wk_staged = Map.empty\<rparr>, pr_tasks = [],
     pr_used = map j_id (ld_jobs db), pr_ingested = []\<rparr>"
| step: "process_reach db p \<Longrightarrow> process_step p p' \<Longrightarrow> process_reach db p'"

section \<open>A job runs once and keeps its verdict\<close>

abbreviation jobs_of :: "process \<Rightarrow> job_row list" where
  "jobs_of p \<equiv> ld_jobs (wk_db (pr_worker p))"

fun runs :: "task \<Rightarrow> uuid option" where
  "runs (Run_take job _) = Some job"
| "runs (Run_ingest job _ _) = Some job"
| "runs (Run_settle job _ _ _) = Some job"
| "runs _ = None"

fun about_to_ingest :: "task \<Rightarrow> uuid option" where
  "about_to_ingest (Run_take job _) = Some job"
| "about_to_ingest _ = None"

fun verdict_ok :: "task \<Rightarrow> bool" where
  "verdict_ok (Run_settle _ _ status _) \<longleftrightarrow> status = IngestDone \<or> status = IngestFailed"
| "verdict_ok _ \<longleftrightarrow> True"

definition tasks_apart :: "task list \<Rightarrow> bool" where
  "tasks_apart ts \<longleftrightarrow>
     (\<forall>i k j. i < length ts \<longrightarrow> k < length ts \<longrightarrow> runs (ts ! i) = Some j \<longrightarrow> runs (ts ! k) = Some j \<longrightarrow> i = k)"

definition task_fits :: "job_row list \<Rightarrow> uuid list \<Rightarrow> uuid list \<Rightarrow> task \<Rightarrow> bool" where
  "task_fits jobs used done t \<longleftrightarrow> verdict_ok t \<and> (\<forall>j. about_to_ingest t = Some j \<longrightarrow> j \<notin> set done)
     \<and> (\<forall>j. runs t = Some j \<longrightarrow> j \<in> set used \<and> (\<forall>r \<in> set jobs. j_id r = j \<longrightarrow> j_status r = str ''running''))"

definition rows_fit :: "job_row list \<Rightarrow> uuid list \<Rightarrow> uuid list \<Rightarrow> bool" where
  "rows_fit jobs used done \<longleftrightarrow> distinct (map j_id jobs) \<and> j_id ` set jobs \<subseteq> set used \<and> distinct done \<and> set done \<subseteq> set used
     \<and> (\<forall>r \<in> set jobs. j_id r \<in> set done \<longrightarrow> j_status r \<noteq> str ''pending'')"

definition process_inv :: "process \<Rightarrow> bool" where
  "process_inv p \<longleftrightarrow> rows_fit (jobs_of p) (pr_used p) (pr_ingested p) \<and> tasks_apart (pr_tasks p)
     \<and> (\<forall>t \<in> set (pr_tasks p). task_fits (jobs_of p) (pr_used p) (pr_ingested p) t)"

lemma about_runs: "about_to_ingest t = Some j \<Longrightarrow> runs t = Some j"
  by (cases t) simp_all

lemma tasks_apartD: "tasks_apart ts \<Longrightarrow> i < length ts \<Longrightarrow> k < length ts \<Longrightarrow> runs (ts ! i) = Some j \<Longrightarrow> runs (ts ! k) = Some j \<Longrightarrow> i = k"
  unfolding tasks_apart_def by blast

lemma tasks_apart_update:
  assumes "tasks_apart ts" and new: "\<And>j k. runs t = Some j \<Longrightarrow> k < length ts \<Longrightarrow> k \<noteq> i \<Longrightarrow> runs (ts ! k) \<noteq> Some j"
  shows "tasks_apart (ts[i := t])"
  unfolding tasks_apart_def
proof (intro allI impI)
  fix a b j
  assume ab: "a < length (ts[i := t])" "b < length (ts[i := t])" "runs (ts[i := t] ! a) = Some j" "runs (ts[i := t] ! b) = Some j"
  consider "a = i" "b = i" | "a = i" "b \<noteq> i" | "a \<noteq> i" "b = i" | "a \<noteq> i" "b \<noteq> i" by blast
  then show "a = b" using ab new [of j] tasks_apartD [OF assms(1), of a b j] by cases auto
qed

lemma tasks_apart_keep:
  assumes "tasks_apart ts" "i < length ts" "runs t = None \<or> runs t = runs (ts ! i)"
  shows "tasks_apart (ts[i := t])"
proof (rule tasks_apart_update [OF assms(1)])
  fix j k assume "runs t = Some j" "k < length ts" "k \<noteq> i"
  with assms tasks_apartD [OF assms(1), of i k j] show "runs (ts ! k) \<noteq> Some j" by auto
qed

lemma process_invI:
  assumes "rows_fit (ld_jobs (wk_db w)) used done" "tasks_apart (ts[i := t])" "task_fits (ld_jobs (wk_db w)) used done t"
    and "\<And>k. k < length ts \<Longrightarrow> k \<noteq> i \<Longrightarrow> task_fits (ld_jobs (wk_db w)) used done (ts ! k)"
  shows "process_inv \<lparr>pr_worker = w, pr_tasks = ts[i := t], pr_used = used, pr_ingested = done\<rparr>"
proof -
  have "task_fits (ld_jobs (wk_db w)) used done x" if "x \<in> set (ts[i := t])" for x
  proof -
    from that obtain k where "k < length ts" "x = ts[i := t] ! k" by (auto simp: in_set_conv_nth)
    then show ?thesis using assms(3) assms(4) [of k] by (cases "k = i") auto
  qed
  with assms(1,2) show ?thesis by (simp add: process_inv_def)
qed

text \<open>Steps that leave the job table alone.\<close>

lemma quiet_step:
  assumes inv: "process_inv p" and i: "i < length (pr_tasks p)" and jobs: "ld_jobs (wk_db w) = jobs_of p"
    and t: "runs t = None \<or> runs t = runs (pr_tasks p ! i)" "verdict_ok t" "about_to_ingest t = None" "ingests t = []"
  shows "process_inv \<lparr>pr_worker = w, pr_tasks = (pr_tasks p)[i := t], pr_used = u # pr_used p, pr_ingested = pr_ingested p @ ingests t\<rparr>"
proof -
  have "task_fits (jobs_of p) (u # pr_used p) (pr_ingested p) x" if "x \<in> set (pr_tasks p)" for x
    using inv that by (auto simp: process_inv_def task_fits_def)
  moreover from this [OF nth_mem [OF i]] have "task_fits (jobs_of p) (u # pr_used p) (pr_ingested p) t"
    using t by (auto simp: task_fits_def)
  moreover have "tasks_apart ((pr_tasks p)[i := t])" using inv i t(1) by (intro tasks_apart_keep) (simp_all add: process_inv_def)
  moreover have "rows_fit (jobs_of p) (u # pr_used p) (pr_ingested p)" using inv by (auto simp: process_inv_def rows_fit_def)
  ultimately show ?thesis unfolding t(4) append_Nil2 by (intro process_invI) (simp_all add: jobs)
qed

lemma claim_jobs:
  "claim_ingest_job now job db = (c, db') \<Longrightarrow>
   ld_jobs db' = update_where (\<lambda>j. j_id j = job \<and> j_status j = str ''pending'') (\<lambda>j. j\<lparr>j_status := str ''running'', j_detail := [], j_updated_at := now\<rparr>) (ld_jobs db)
   \<and> (c \<longleftrightarrow> (\<exists>r \<in> set (ld_jobs db). j_id r = job \<and> j_status r = str ''pending''))"
  by (auto simp: claim_ingest_job_def rows_affected_pos)

lemma claim_step:
  assumes inv: "process_inv p" and i: "i < length (pr_tasks p)" "pr_tasks p ! i = Run_claim job user"
    and c: "claim_ingest_job now job (wk_db (pr_worker p)) = (True, db)"
  shows "process_inv \<lparr>pr_worker = (pr_worker p)\<lparr>wk_db := db\<rparr>, pr_tasks = (pr_tasks p)[i := Run_take job user], pr_used = u # pr_used p,
    pr_ingested = pr_ingested p\<rparr>"
proof -
  let ?jobs = "ld_jobs db"
  have J: "?jobs = update_where (\<lambda>j. j_id j = job \<and> j_status j = str ''pending'') (\<lambda>j. j\<lparr>j_status := str ''running'', j_detail := [], j_updated_at := now\<rparr>) (jobs_of p)"
    using claim_jobs [OF c] by blast
  obtain r where r: "r \<in> set (jobs_of p)" "j_id r = job" "j_status r = str ''pending''" using claim_jobs [OF c] by blast
  have rows: "rows_fit (jobs_of p) (pr_used p) (pr_ingested p)" using inv by (simp add: process_inv_def)
  have uniq: "x = r" if "x \<in> set (jobs_of p)" "j_id x = job" for x
    using rows that r by (auto simp: rows_fit_def distinct_map inj_on_def)
  have others: "runs x \<noteq> Some job" if "x \<in> set (pr_tasks p)" for x
    using inv that r by (auto simp: process_inv_def task_fits_def)
  have row: "\<exists>x0 \<in> set (jobs_of p). j_id x = j_id x0 \<and> (j_id x0 = job \<and> j_status x = str ''running'' \<or> j_id x0 \<noteq> job \<and> j_status x = j_status x0)"
    if "x \<in> set ?jobs" for x
    using that uniq r(3) unfolding J set_update_where by auto
  have ids: "map j_id ?jobs = map j_id (jobs_of p)" unfolding J by (rule update_where_key) simp
  have "rows_fit ?jobs (u # pr_used p) (pr_ingested p)"
    using rows row ids arg_cong [OF ids, of set] unfolding rows_fit_def by (fastforce simp: image_subset_iff)
  moreover have "tasks_apart ((pr_tasks p)[i := Run_take job user])"
    using inv others by (intro tasks_apart_update) (auto simp: process_inv_def)
  moreover have "job \<notin> set (pr_ingested p)" "job \<in> set (pr_used p)" using rows r by (auto simp: rows_fit_def)
  then have "task_fits ?jobs (u # pr_used p) (pr_ingested p) (Run_take job user)" using row by (fastforce simp: task_fits_def)
  moreover have "task_fits ?jobs (u # pr_used p) (pr_ingested p) x" if "x \<in> set (pr_tasks p)" for x
    using inv that others [OF that] row unfolding process_inv_def task_fits_def by fastforce
  ultimately show ?thesis by (intro process_invI) simp_all
qed

lemma take_step:
  assumes inv: "process_inv p" and i: "i < length (pr_tasks p)" "pr_tasks p ! i = Run_take job user" and jobs: "ld_jobs (wk_db w) = jobs_of p"
  shows "process_inv \<lparr>pr_worker = w, pr_tasks = (pr_tasks p)[i := Run_ingest job user b], pr_used = u # pr_used p,
    pr_ingested = pr_ingested p @ [job]\<rparr>"
proof -
  have fits: "task_fits (jobs_of p) (pr_used p) (pr_ingested p) x" if "x \<in> set (pr_tasks p)" for x
    using inv that by (simp add: process_inv_def)
  have own: "job \<notin> set (pr_ingested p)" "job \<in> set (pr_used p)" "\<forall>r \<in> set (jobs_of p). j_id r = job \<longrightarrow> j_status r = str ''running''"
    using fits [OF nth_mem [OF i(1)]] i(2) by (auto simp: task_fits_def)
  have apart: "tasks_apart (pr_tasks p)" using inv by (simp add: process_inv_def)
  have "rows_fit (jobs_of p) (u # pr_used p) (pr_ingested p @ [job])"
    using inv own by (auto simp: process_inv_def rows_fit_def)
  moreover have "tasks_apart ((pr_tasks p)[i := Run_ingest job user b])" using apart i by (intro tasks_apart_keep) simp_all
  moreover have "task_fits (jobs_of p) (u # pr_used p) (pr_ingested p @ [job]) (Run_ingest job user b)" using own by (simp add: task_fits_def)
  moreover have "task_fits (jobs_of p) (u # pr_used p) (pr_ingested p @ [job]) (pr_tasks p ! k)" if k: "k < length (pr_tasks p)" "k \<noteq> i" for k
  proof -
    have "runs (pr_tasks p ! k) \<noteq> Some job" using tasks_apartD [OF apart i(1) k(1), of job] i(2) k(2) by auto
    then have "about_to_ingest (pr_tasks p ! k) \<noteq> Some job" using about_runs by blast
    then show ?thesis using fits [OF nth_mem [OF k(1)]] by (auto simp: task_fits_def)
  qed
  ultimately show ?thesis by (intro process_invI) (simp_all add: jobs)
qed

lemma create_step:
  assumes inv: "process_inv p" and i: "i < length (pr_tasks p)" and u: "u \<notin> set (pr_used p)"
    and c: "create_ingest_job u now shelf book user (wk_db (pr_worker p)) = (Inr job, db)" and t: "runs t = None" "verdict_ok t" "ingests t = []"
  shows "process_inv \<lparr>pr_worker = (pr_worker p)\<lparr>wk_db := db\<rparr>, pr_tasks = (pr_tasks p)[i := t], pr_used = u # pr_used p, pr_ingested = pr_ingested p\<rparr>"
proof -
  have fresh: "\<not> list_ex (\<lambda>j. j_id j = u) (jobs_of p)" and "\<exists>r. ld_jobs db = jobs_of p @ [r] \<and> j_id r = u"
    using c by (auto simp: create_ingest_job_def split: if_splits)
  then obtain r where r: "ld_jobs db = jobs_of p @ [r]" "j_id r = u" by blast
  have "u \<notin> j_id ` set (jobs_of p)" using fresh by (auto simp: list_ex_iff)
  note r = r this
  have fits: "task_fits (jobs_of p) (pr_used p) (pr_ingested p) x" if "x \<in> set (pr_tasks p)" for x
    using inv that by (simp add: process_inv_def)
  have "rows_fit (ld_jobs db) (u # pr_used p) (pr_ingested p)"
    using inv r u by (auto simp: process_inv_def rows_fit_def)
  moreover have "tasks_apart ((pr_tasks p)[i := t])" using inv i t(1) by (intro tasks_apart_keep) (simp_all add: process_inv_def)
  moreover have "about_to_ingest t = None" using t(1) about_runs [of t] by (cases "about_to_ingest t") auto
  then have "task_fits (ld_jobs db) (u # pr_used p) (pr_ingested p) t" using t by (simp add: task_fits_def)
  moreover have "task_fits (ld_jobs db) (u # pr_used p) (pr_ingested p) x" if "x \<in> set (pr_tasks p)" for x
    using fits [OF that] u r by (auto simp: task_fits_def)
  ultimately show ?thesis by (intro process_invI) simp_all
qed

lemma settle_step:
  assumes inv: "process_inv p" and i: "i < length (pr_tasks p)" "pr_tasks p ! i = Run_settle job user status detail"
  shows "process_inv \<lparr>pr_worker = (pr_worker p)\<lparr>wk_db := update_ingest_job now job status detail (wk_db (pr_worker p))\<rparr>,
    pr_tasks = (pr_tasks p)[i := Run_release job user], pr_used = u # pr_used p, pr_ingested = pr_ingested p\<rparr>"
proof -
  let ?jobs = "ld_jobs (update_ingest_job now job status detail (wk_db (pr_worker p)))"
  have fits: "task_fits (jobs_of p) (pr_used p) (pr_ingested p) x" if "x \<in> set (pr_tasks p)" for x
    using inv that by (simp add: process_inv_def)
  have st: "ingest_status_as_str status \<noteq> str ''pending''"
    using fits [OF nth_mem [OF i(1)]] i(2) by (auto simp: task_fits_def)
  have apart: "tasks_apart (pr_tasks p)" and rows: "rows_fit (jobs_of p) (pr_used p) (pr_ingested p)"
    using inv by (simp_all add: process_inv_def)
  have ids: "map j_id ?jobs = map j_id (jobs_of p)"
    unfolding update_ingest_job_def library_db.simps by (simp add: row_simps)
  have row: "\<exists>x0 \<in> set (jobs_of p). j_id x = j_id x0 \<and> (j_id x0 = job \<and> j_status x = ingest_status_as_str status \<or> j_id x0 \<noteq> job \<and> j_status x = j_status x0)"
    if "x \<in> set ?jobs" for x
    using that by (auto simp: update_ingest_job_def set_update_where)
  have "rows_fit ?jobs (u # pr_used p) (pr_ingested p)"
    using rows row ids arg_cong [OF ids, of set] st unfolding rows_fit_def by (fastforce simp: image_subset_iff)
  moreover have "tasks_apart ((pr_tasks p)[i := Run_release job user])" using apart i by (intro tasks_apart_keep) simp_all
  moreover have "task_fits ?jobs (u # pr_used p) (pr_ingested p) (Run_release job user)" by (simp add: task_fits_def)
  moreover have "task_fits ?jobs (u # pr_used p) (pr_ingested p) (pr_tasks p ! k)" if k: "k < length (pr_tasks p)" "k \<noteq> i" for k
  proof -
    have "runs (pr_tasks p ! k) \<noteq> Some job" using tasks_apartD [OF apart i(1) k(1), of job] i(2) k(2) by auto
    then show ?thesis using fits [OF nth_mem [OF k(1)]] row unfolding task_fits_def by fastforce
  qed
  ultimately show ?thesis by (intro process_invI) simp_all
qed

lemma delete_jobs:
  "\<exists>P. ld_jobs (snd (delete_book_row slug db)) = filter P (ld_jobs db)"
  by (auto simp: delete_book_row_def Let_def delete_where_def intro: exI [of _ "\<lambda>_. True"])

lemma stale_jobs:
  fixes db :: library_db and now :: timestamp
  defines "db' \<equiv> snd (fail_stale_running_jobs now db)"
  shows "map j_id (ld_jobs db') = map j_id (ld_jobs db)"
    and "x \<in> set (ld_jobs db') \<Longrightarrow> x \<in> set (ld_jobs db) \<and> j_status x \<noteq> str ''running'' \<or> j_status x = str ''failed''"
    and "distinct (map j_id (ld_jobs db)) \<Longrightarrow> x \<in> set (ld_jobs db) \<Longrightarrow> j_status x \<noteq> str ''running'' \<Longrightarrow> x \<in> set (ld_jobs db')"
proof -
  let ?f = "\<lambda>d i. update_ingest_job now i IngestFailed (str ''interrupted by restart'') d"
  have fold: "ld_jobs (foldl ?f d ids) =
      map (\<lambda>j. if j_id j \<in> set ids then j\<lparr>j_status := str ''failed'', j_detail := str ''interrupted by restart'', j_updated_at := now\<rparr> else j) (ld_jobs d)"
    for d ids
    by (induction ids arbitrary: d) (auto simp: update_ingest_job_def update_where_def)
  let ?ids = "with_status (str ''running'') db"
  have eq: "ld_jobs db' = map (\<lambda>j. if j_id j \<in> set ?ids then j\<lparr>j_status := str ''failed'', j_detail := str ''interrupted by restart'', j_updated_at := now\<rparr> else j) (ld_jobs db)"
    unfolding db'_def fail_stale_running_jobs_def Let_def snd_conv by (rule fold)
  show "map j_id (ld_jobs db') = map j_id (ld_jobs db)" unfolding eq by (simp add: comp_def cong: if_cong)
  show "x \<in> set (ld_jobs db) \<and> j_status x \<noteq> str ''running'' \<or> j_status x = str ''failed''" if "x \<in> set (ld_jobs db')"
    using that unfolding eq by (auto simp: with_status_def split: if_splits)
  assume x: "distinct (map j_id (ld_jobs db))" "x \<in> set (ld_jobs db)" "j_status x \<noteq> str ''running''"
  then have "j_id x \<notin> set ?ids" by (auto simp: with_status_def distinct_map inj_on_def)
  then show "x \<in> set (ld_jobs db')" unfolding eq using x(2) by (auto intro!: image_eqI [of _ _ x])
qed

lemma process_inv_step: "process_step p p' \<Longrightarrow> process_inv p \<Longrightarrow> process_inv p'"
proof (induction rule: process_step.induct)
  case (submit_start p s)
  have "tasks_apart (pr_tasks p @ [Submit_reserve s])"
    using submit_start by (auto simp: process_inv_def tasks_apart_def nth_append split: if_splits)
  then show ?case using submit_start by (simp add: process_inv_def task_fits_def)
next
  case (run_start p job)
  have "tasks_apart (pr_tasks p @ [Run_read job])"
    using run_start by (auto simp: process_inv_def tasks_apart_def nth_append split: if_splits)
  then show ?case using run_start by (simp add: process_inv_def task_fits_def)
next
  case (task_moves i p E t w)
  note quiet = quiet_step [OF task_moves(4) task_moves(1)]
  show ?case
  proof (cases "pr_tasks p ! i")
    case (Submit_book s)
    then show ?thesis using task_moves(3) by (intro quiet) (auto simp: create_book_def split: option.splits if_splits)
  next
    case (Submit_job s book)
    show ?thesis
    proof (cases "\<exists>job db. se_fails E = None \<and> create_ingest_job (se_uuid E) (se_now E) (sb_shelf s) book (sb_user s) (wk_db (pr_worker p)) = (Inr job, db)")
      case True
      then obtain job db where "se_fails E = None"
        "create_ingest_job (se_uuid E) (se_now E) (sb_shelf s) book (sb_user s) (wk_db (pr_worker p)) = (Inr job, db)" by blast
      with Submit_job task_moves create_step [OF task_moves(4,1,2)] show ?thesis by auto
    next
      case False
      then show ?thesis using Submit_job task_moves(3)
        by (intro quiet) (auto simp: create_ingest_job_def split: option.splits if_splits prod.splits sum.splits)
    qed
  next
    case (Run_claim job user)
    show ?thesis
    proof (cases "\<exists>db. se_fails E = None \<and> claim_ingest_job (se_now E) job (wk_db (pr_worker p)) = (True, db)")
      case True
      then obtain db where "se_fails E = None" "claim_ingest_job (se_now E) job (wk_db (pr_worker p)) = (True, db)" by blast
      with Run_claim task_moves claim_step [OF task_moves(4,1)] show ?thesis by auto
    next
      case False
      have "ld_jobs (wk_db w) = jobs_of p" "t = Run_done (Inr ()) \<or> (\<exists>e. t = Run_done (Inl e))"
        using False Run_claim task_moves(3) claim_jobs [of "se_now E" job "wk_db (pr_worker p)"]
        by (auto split: option.splits prod.splits if_splits intro!: update_where_none)
      then show ?thesis by (intro quiet) auto
    qed
  next
    case (Run_take job user)
    show ?thesis
    proof (cases "wk_staged (pr_worker p) job")
      case None
      then show ?thesis using Run_take task_moves(3) by (intro quiet) auto
    next
      case (Some b)
      then have "t = Run_ingest job user b" "ld_jobs (wk_db w) = jobs_of p" using Run_take task_moves(3) by auto
      then show ?thesis using take_step [OF task_moves(4,1) Run_take] by simp
    qed
  next
    case (Run_settle job user status detail)
    show ?thesis
    proof (cases "se_fails E")
      case None
      then show ?thesis using Run_settle task_moves(3) settle_step [OF task_moves(4,1) Run_settle, where now = "se_now E"] by auto
    next
      case (Some e)
      then show ?thesis using Run_settle task_moves(3) by (intro quiet) auto
    qed
  next
    case (Submit_done r)
    then have "t = Submit_done r" "w = pr_worker p" using task_moves(3) by simp_all
    then show ?thesis by (intro quiet) simp_all
  next
    case (Run_done r)
    then have "t = Run_done r" "w = pr_worker p" using task_moves(3) by simp_all
    then show ?thesis by (intro quiet) simp_all
  qed (use task_moves(3) in \<open>auto intro!: quiet split: option.splits if_splits sum.splits\<close>)
next
  case (book_replaced p slug)
  obtain P where "ld_jobs (snd (delete_book_row slug (wk_db (pr_worker p)))) = filter P (jobs_of p)" using delete_jobs by blast
  then show ?case using book_replaced by (auto simp: process_inv_def rows_fit_def task_fits_def distinct_map_filter)
next
  case (restart p now)
  let ?db = "snd (fail_stale_running_jobs now (wk_db (pr_worker p)))"
  have ids: "map j_id (ld_jobs ?db) = map j_id (jobs_of p)" by (rule stale_jobs(1))
  have rows: "rows_fit (jobs_of p) (pr_used p) (pr_ingested p)" using restart by (simp add: process_inv_def)
  have "j_status x \<noteq> str ''pending''" if "x \<in> set (ld_jobs ?db)" "j_id x \<in> set (pr_ingested p)" for x
    using stale_jobs(2) [OF that(1)] that(2) rows by (elim disjE) (auto simp: rows_fit_def)
  then have "rows_fit (ld_jobs ?db) (pr_used p) (pr_ingested p)"
    using rows ids arg_cong [OF ids, of set] unfolding rows_fit_def set_map by simp
  then show ?case by (simp add: process_inv_def tasks_apart_def ingest_recover_on_boot_def Let_def)
qed

lemma process_reach_inv: "process_reach db p \<Longrightarrow> distinct (map j_id (ld_jobs db)) \<Longrightarrow> process_inv p"
proof (induction rule: process_reach.induct)
  case boot
  then show ?case by (simp add: process_inv_def rows_fit_def tasks_apart_def)
qed (auto intro: process_inv_step)

text \<open>A row with a verdict.\<close>

definition settled_row :: "job_row \<Rightarrow> bool" where
  "settled_row r \<longleftrightarrow> j_status r = str ''done'' \<or> j_status r = str ''failed''"

lemma update_keeps:
  "r \<in> set rows \<Longrightarrow> \<not> P r \<Longrightarrow> r \<in> set (update_where P f rows)"
  by (auto simp: set_update_where)

lemma verdict_kept:
  assumes inv: "process_inv p" and step: "process_step p p'" and r: "r \<in> set (jobs_of p)" "settled_row r"
  shows "r \<in> set (jobs_of p') \<or> j_id r \<notin> j_id ` set (jobs_of p')"
  using step
proof cases
  case (task_moves i E t w)
  have "r \<in> set (ld_jobs (wk_db w))"
  proof (cases "pr_tasks p ! i")
    case (Run_claim job user)
    then show ?thesis using task_moves(4) r by (auto simp: settled_row_def claim_ingest_job_def split: option.splits intro!: update_keeps)
  next
    case (Run_settle job user status detail)
    have "task_fits (jobs_of p) (pr_used p) (pr_ingested p) (pr_tasks p ! i)"
      using inv nth_mem [OF task_moves(2)] by (simp add: process_inv_def)
    then have "j_id r \<noteq> job" using Run_settle r by (auto simp: task_fits_def settled_row_def)
    then show ?thesis using task_moves(4) Run_settle r by (auto simp: update_ingest_job_def split: option.splits intro!: update_keeps)
  qed (use task_moves(4) r in \<open>auto simp: create_book_def create_ingest_job_def split: option.splits if_splits sum.splits\<close>)
  then show ?thesis using task_moves(1) by simp
next
  case (book_replaced slug)
  obtain P where P: "ld_jobs (snd (delete_book_row slug (wk_db (pr_worker p)))) = filter P (jobs_of p)" using delete_jobs by blast
  have "x = r" if "x \<in> set (jobs_of p)" "j_id x = j_id r" for x
    using inv that r(1) by (auto simp: process_inv_def rows_fit_def distinct_map inj_on_def)
  then show ?thesis using r(1) book_replaced P by auto
next
  case (restart now)
  have "j_status r \<noteq> str ''running''" using r(2) by (auto simp: settled_row_def)
  then show ?thesis using stale_jobs(3) [of "wk_db (pr_worker p)" r now] inv r(1) restart
    by (simp add: ingest_recover_on_boot_def Let_def process_inv_def rows_fit_def)
qed (use r in simp_all)

text \<open>C13.  A job runs once and keeps its verdict.  Whatever uploads, sweeps, replacements of books, failing
  statements and restarts interleave, no job begins its ingest twice; and a job that is done or
  failed stays so, with its detail, until its row goes with the book.\<close>
theorem ingest_runs_once:
  assumes "process_reach db p" "distinct (map j_id (ld_jobs db))"
  shows "distinct (pr_ingested p)
    \<and> (\<forall>p' r. process_step p p' \<longrightarrow> r \<in> set (jobs_of p) \<longrightarrow> settled_row r \<longrightarrow> r \<in> set (jobs_of p') \<or> j_id r \<notin> j_id ` set (jobs_of p'))"
proof -
  have inv: "process_inv p" by (rule process_reach_inv [OF assms])
  then have "distinct (pr_ingested p)" by (simp add: process_inv_def rows_fit_def)
  then show ?thesis using verdict_kept [OF inv] by blast
qed

section \<open>One run\<close>

text \<open>\<^verbatim>\<open>run_job\<close> on its own: at most six steps.\<close>

definition run_job :: "step_env \<Rightarrow> uuid \<Rightarrow> worker \<Rightarrow> task \<times> worker" where
  "run_job E job w = ((\<lambda>(t, w). task_step E t w) ^^ 6) (Run_read job, w)"

definition job_verdict :: "step_env \<Rightarrow> uuid \<Rightarrow> worker \<Rightarrow> ingest_status \<times> rstring" where
  "job_verdict E job w =
     (case wk_staged w job of
        None \<Rightarrow> (IngestFailed, lost_text)
      | Some b \<Rightarrow> (case se_ingest E of Inr n \<Rightarrow> (IngestDone, show_nat n @ str '' catalog concepts written'') | Inl e \<Rightarrow> (IngestFailed, se_show E e)))"

lemma update_claimed:
  "update_where (\<lambda>j. j_id j = job) (\<lambda>j. j\<lparr>j_status := s, j_detail := d, j_updated_at := now\<rparr>)
     (update_where (\<lambda>j. j_id j = job \<and> j_status j = x) (\<lambda>j. j\<lparr>j_status := y, j_detail := z, j_updated_at := now\<rparr>) rows)
   = update_where (\<lambda>j. j_id j = job) (\<lambda>j. j\<lparr>j_status := s, j_detail := d, j_updated_at := now\<rparr>) rows"
  by (induction rows) auto

lemma staged_none [simp]: "wk_staged w job = None \<Longrightarrow> (wk_staged w)(job := None) = wk_staged w"
  by auto

text \<open>C14.  A run settles its job.  Without failing statements, running a pending job ends, gives its row the
  verdict of the ingest, or the request to upload again when no text is staged for it, and releases
  the text and the user's slot; running a job that is not pending, or has no row, changes nothing.\<close>
theorem run_job_settles:
  assumes "se_fails E = None"
  shows "fst (run_job E job w) = Run_done (Inr ())
    \<and> (case fetch_optional (\<lambda>j. j_id j = job) (ld_jobs (wk_db w)) of
         None \<Rightarrow> snd (run_job E job w) = w
       | Some r \<Rightarrow>
           distinct (map j_id (ld_jobs (wk_db w))) \<longrightarrow>
           snd (run_job E job w) =
             (if j_status r = str ''pending''
              then \<lparr>wk_db = (case job_verdict E job w of (status, detail) \<Rightarrow> update_ingest_job (se_now E) job status detail (wk_db w)),
                    wk_slots = (wk_slots w)(j_user r := None), wk_staged = (wk_staged w)(job := None)\<rparr>
              else w))"
proof (cases "fetch_optional (\<lambda>j. j_id j = job) (ld_jobs (wk_db w))")
  case None
  then show ?thesis using assms by (simp add: run_job_def fetch_ingest_job_def numeral_eq_Suc)
next
  case (Some r)
  let ?p = "\<lambda>j. j_id j = job \<and> j_status j = str ''pending''"
  have r: "r \<in> set (ld_jobs (wk_db w))" "j_id r = job" using fetch_optional_SomeD [OF Some] by simp_all
  have read: "fetch_ingest_job (se_now E) job (wk_db w) = Some (decode_job (se_now E) r)" by (simp add: fetch_ingest_job_def Some)
  have user: "jb_user (decode_job (se_now E) r) = j_user r" by (simp add: decode_job_def)
  show ?thesis
  proof (cases "\<exists>x \<in> set (ld_jobs (wk_db w)). ?p x")
    case True
    have p: "distinct (map j_id (ld_jobs (wk_db w))) \<Longrightarrow> j_status r = str ''pending''"
      using True r by (auto simp: distinct_map inj_on_def)
    have "0 < rows_affected ?p (ld_jobs (wk_db w))" using True by (simp add: rows_affected_pos)
    with p show ?thesis using assms read user Some
      by (cases "wk_staged w job"; cases "se_ingest E")
        (simp_all add: run_job_def claim_ingest_job_def job_verdict_def update_ingest_job_def update_claimed numeral_eq_Suc)
  next
    case False
    then have none: "\<not> 0 < rows_affected ?p (ld_jobs (wk_db w))" by (simp add: rows_affected_pos)
    have "update_where ?p f (ld_jobs (wk_db w)) = ld_jobs (wk_db w)" for f by (rule update_where_none) (use False in blast)
    moreover have "j_status r \<noteq> str ''pending''" using False r by blast
    ultimately show ?thesis using assms read user Some none
      by (simp add: run_job_def claim_ingest_job_def numeral_eq_Suc)
  qed
qed

section \<open>Schedules\<close>

datatype event = Ev_submit submission | Ev_run uuid | Ev_task nat step_env | Ev_restart timestamp

fun event_ok :: "event \<Rightarrow> process \<Rightarrow> bool" where
  "event_ok (Ev_task i E) p \<longleftrightarrow> i < length (pr_tasks p) \<and> se_uuid E \<notin> set (pr_used p)"
| "event_ok _ p \<longleftrightarrow> True"

fun happen :: "event \<Rightarrow> process \<Rightarrow> process" where
  "happen (Ev_submit s) p = p\<lparr>pr_tasks := pr_tasks p @ [Submit_reserve s]\<rparr>"
| "happen (Ev_run job) p = p\<lparr>pr_tasks := pr_tasks p @ [Run_read job]\<rparr>"
| "happen (Ev_task i E) p =
     (case task_step E (pr_tasks p ! i) (pr_worker p) of (t, w) \<Rightarrow>
        \<lparr>pr_worker = w, pr_tasks = (pr_tasks p)[i := t], pr_used = se_uuid E # pr_used p, pr_ingested = pr_ingested p @ ingests t\<rparr>)"
| "happen (Ev_restart now) p =
     p\<lparr>pr_worker := snd (ingest_recover_on_boot now \<lparr>wk_db = wk_db (pr_worker p), wk_slots = Map.empty, wk_staged = Map.empty\<rparr>), pr_tasks := []\<rparr>"

fun schedule :: "event list \<Rightarrow> process \<Rightarrow> process option" where
  "schedule [] p = Some p"
| "schedule (e # es) p = (if event_ok e p then schedule es (happen e p) else None)"

lemma schedule_reach: "process_reach db p \<Longrightarrow> schedule es p = Some p' \<Longrightarrow> process_reach db p'"
proof (induction es arbitrary: p)
  case (Cons e es)
  have "process_step p (happen e p)" if "event_ok e p"
  proof (cases e)
    case (Ev_task i E)
    obtain t w where "task_step E (pr_tasks p ! i) (pr_worker p) = (t, w)" by fastforce
    then show ?thesis using that Ev_task process_step.task_moves [of i p E t w] by simp
  qed (auto intro: process_step.intros)
  with Cons show ?case by (auto split: if_splits intro: process_reach.step)
qed simp

definition small_db :: library_db where
  "small_db = \<lparr>ld_shelves = [1], ld_users = [(7, str ''ann'')], ld_books = [], ld_jobs = []\<rparr>"

definition fresh_process :: "library_db \<Rightarrow> process" where
  "fresh_process db = \<lparr>pr_worker = \<lparr>wk_db = db, wk_slots = Map.empty, wk_staged = Map.empty\<rparr>, pr_tasks = [],
     pr_used = map j_id (ld_jobs db), pr_ingested = []\<rparr>"

definition calm :: "uuid \<Rightarrow> step_env" where
  "calm u = \<lparr>se_now = 5, se_uuid = u, se_fails = None, se_ingest = Inr 3, se_show = (\<lambda>_. [])\<rparr>"

definition upload :: "rstring \<Rightarrow> submission" where
  "upload slug = \<lparr>sb_shelf = 1, sb_user = 7, sb_slug = slug, sb_title = slug, sb_text = plain_book\<rparr>"

text \<open>An upload and its run, undisturbed.\<close>

definition quiet_day :: "event list" where
  "quiet_day = [Ev_submit (upload (str ''a'')), Ev_task 0 (calm 10), Ev_task 0 (calm 11), Ev_task 0 (calm 12), Ev_task 0 (calm 13), Ev_task 0 (calm 14),
     Ev_run 12, Ev_task 1 (calm 15), Ev_task 1 (calm 16), Ev_task 1 (calm 17), Ev_task 1 (calm 18), Ev_task 1 (calm 19), Ev_task 1 (calm 20)]"

lemmas ingest_eval = small_db_def fresh_process_def calm_def upload_def create_book_def create_ingest_job_def fetch_ingest_job_def
  decode_job_def claim_ingest_job_def update_ingest_job_def update_where_def rows_affected_def fetch_optional_def
  ingest_status_parse_def

lemma quiet_day_eval:
  "\<exists>p. schedule quiet_day (fresh_process small_db) = Some p \<and> pr_ingested p = [12] \<and> wk_slots (pr_worker p) 7 = None
    \<and> wk_staged (pr_worker p) 12 = None \<and> map (\<lambda>j. (j_id j, j_status j)) (jobs_of p) = [(12, str ''done'')]"
  by (simp add: quiet_day_def ingest_eval)

theorem ingest_runs_once_witness:
  "\<exists>p. schedule quiet_day (fresh_process small_db) = Some p \<and> process_reach small_db p \<and> distinct (pr_ingested p) \<and> pr_ingested p \<noteq> []"
proof -
  obtain p where p: "schedule quiet_day (fresh_process small_db) = Some p" "pr_ingested p = [12]" using quiet_day_eval by blast
  have "process_reach small_db (fresh_process small_db)" unfolding fresh_process_def by (rule process_reach.boot)
  then have "process_reach small_db p" using p(1) by (rule schedule_reach)
  then show ?thesis using ingest_runs_once [of small_db p] p by (simp add: small_db_def)
qed

text \<open>
  The sweep of the wake loop can take a job between its row and its staged text: it fails the job and
  frees the slot, the upload then takes the slot again for a job that is over, and nothing will
  free it before a restart.  Every later upload of the user is refused.
\<close>

definition swept_upload :: "event list" where
  "swept_upload = [Ev_submit (upload (str ''a'')), Ev_task 0 (calm 10), Ev_task 0 (calm 11), Ev_task 0 (calm 12),
     Ev_run 12, Ev_task 1 (calm 15), Ev_task 1 (calm 16), Ev_task 1 (calm 17), Ev_task 1 (calm 18), Ev_task 1 (calm 19),
     Ev_task 0 (calm 20), Ev_task 0 (calm 21)]"

lemma swept_upload_strands_user:
  "\<exists>p. schedule swept_upload (fresh_process small_db) = Some p \<and> wk_slots (pr_worker p) 7 = Some 12
    \<and> map (\<lambda>j. (j_id j, j_status j)) (jobs_of p) = [(12, str ''failed'')]
    \<and> pr_tasks p = [Submit_done (Inr \<lparr>sj_job = 12, sj_book = 11, sj_slug = str ''a''\<rparr>), Run_done (Inr ())]
    \<and> fst (task_step E (Submit_reserve (upload slug)) (pr_worker p)) = Submit_done (Inl User_busy)"
  by (simp add: swept_upload_def ingest_eval)

text \<open>
  After a restart a job of the user is pending without a slot.  The run that fails it frees the slot of
  the user's next job, while that job is being ingested: a third job starts beside the second.
\<close>

definition two_at_once :: "event list" where
  "two_at_once = [Ev_submit (upload (str ''a'')), Ev_task 0 (calm 10), Ev_task 0 (calm 11), Ev_task 0 (calm 12), Ev_restart 6,
     Ev_submit (upload (str ''b'')), Ev_task 0 (calm 20), Ev_task 0 (calm 21), Ev_task 0 (calm 22), Ev_task 0 (calm 23), Ev_task 0 (calm 24),
     Ev_run 22, Ev_task 1 (calm 25), Ev_task 1 (calm 26), Ev_task 1 (calm 27),
     Ev_run 12, Ev_task 2 (calm 31), Ev_task 2 (calm 32), Ev_task 2 (calm 33), Ev_task 2 (calm 34), Ev_task 2 (calm 35),
     Ev_submit (upload (str ''c'')), Ev_task 3 (calm 40), Ev_task 3 (calm 41), Ev_task 3 (calm 42), Ev_task 3 (calm 43), Ev_task 3 (calm 44),
     Ev_run 42, Ev_task 4 (calm 45), Ev_task 4 (calm 46), Ev_task 4 (calm 47)]"

lemma two_jobs_of_one_user:
  "\<exists>p b c. schedule two_at_once (fresh_process small_db) = Some p \<and> pr_tasks p ! 1 = Run_ingest 22 7 b \<and> pr_tasks p ! 4 = Run_ingest 42 7 c"
  by (simp add: two_at_once_def ingest_eval ingest_recover_on_boot_def fail_stale_running_jobs_def with_status_def Let_def)

definition staged_worker :: worker where
  "staged_worker = \<lparr>wk_db = small_db\<lparr>ld_jobs := [\<lparr>j_id = 12, j_shelf = 1, j_book = 11, j_user = 7, j_status = str ''pending'',
     j_detail = [], j_created_at = 1, j_updated_at = 1\<rparr>]\<rparr>, wk_slots = [7 \<mapsto> 12],
     wk_staged = [12 \<mapsto> \<lparr>sg_slug = str ''a'', sg_title = str ''A'', sg_text = plain_book\<rparr>]\<rparr>"

theorem run_job_settles_witness:
  "fst (run_job (calm 30) 12 staged_worker) = Run_done (Inr ())
   \<and> map j_status (ld_jobs (wk_db (snd (run_job (calm 30) 12 staged_worker)))) = [str ''done'']
   \<and> wk_slots (snd (run_job (calm 30) 12 staged_worker)) 7 = None"
  using run_job_settles [of "calm 30" 12 staged_worker]
  by (simp add: ingest_eval staged_worker_def job_verdict_def)

end
