(* ===== verification/Chat_Store.thy ===== *)
theory Chat_Store
  imports Crypto_Box
begin

text \<open>
  Chat session history: \<^verbatim>\<open>crates/mycelium-store/src/chat.rs\<close> over the tables of the migrations
  \<^verbatim>\<open>0008_chat_sessions.sql\<close> and \<^verbatim>\<open>0009_chat_waiting.sql\<close>.  A transaction, and a statement outside one, is one
  function application; \<^verbatim>\<open>delete_session\<close>, which issues two statements of its own, is given as the two.  The CHECK
  constraints of the tables restrict roles and statuses to the written forms, so those columns are kept
  decoded.  Clock readings, new identifiers and nonces are arguments; the text form of identifiers
  belongs to a third-party crate and is a field of the environment.
\<close>

section \<open>Enumerations\<close>

datatype chat_role = Role_user | Role_tool | Role_assistant | Role_error

fun chat_role_as_str :: "chat_role \<Rightarrow> rstring" where
  "chat_role_as_str Role_user = str ''user''"
| "chat_role_as_str Role_tool = str ''tool''"
| "chat_role_as_str Role_assistant = str ''assistant''"
| "chat_role_as_str Role_error = str ''error''"

definition chat_role_from_str :: "rstring \<Rightarrow> chat_role option" where
  "chat_role_from_str s =
     (if s = str ''user'' then Some Role_user
      else if s = str ''tool'' then Some Role_tool
      else if s = str ''assistant'' then Some Role_assistant
      else if s = str ''error'' then Some Role_error
      else None)"

datatype chat_turn_status =
  Turn_running | Turn_done | Turn_failed | Turn_interrupted | Turn_abandoned | Turn_waiting_backend

fun chat_turn_status_as_str :: "chat_turn_status \<Rightarrow> rstring" where
  "chat_turn_status_as_str Turn_running = str ''running''"
| "chat_turn_status_as_str Turn_done = str ''done''"
| "chat_turn_status_as_str Turn_failed = str ''failed''"
| "chat_turn_status_as_str Turn_interrupted = str ''interrupted''"
| "chat_turn_status_as_str Turn_abandoned = str ''abandoned''"
| "chat_turn_status_as_str Turn_waiting_backend = str ''waiting_backend''"

definition chat_turn_status_from_str :: "rstring \<Rightarrow> chat_turn_status option" where
  "chat_turn_status_from_str s =
     (if s = str ''running'' then Some Turn_running
      else if s = str ''done'' then Some Turn_done
      else if s = str ''failed'' then Some Turn_failed
      else if s = str ''interrupted'' then Some Turn_interrupted
      else if s = str ''abandoned'' then Some Turn_abandoned
      else if s = str ''waiting_backend'' then Some Turn_waiting_backend
      else None)"

interpretation chat_role_codec: str_codec chat_role_as_str chat_role_from_str
proof
  show "chat_role_from_str (chat_role_as_str x) = Some x" for x
    by (cases x) (simp_all add: chat_role_from_str_def)
  show "chat_role_as_str x = s" if "chat_role_from_str s = Some x" for s x
    using that by (auto simp: chat_role_from_str_def split: if_splits)
qed

interpretation turn_status_codec: str_codec chat_turn_status_as_str chat_turn_status_from_str
proof
  show "chat_turn_status_from_str (chat_turn_status_as_str x) = Some x" for x
    by (cases x) (simp_all add: chat_turn_status_from_str_def)
  show "chat_turn_status_as_str x = s" if "chat_turn_status_from_str s = Some x" for s x
    using that by (auto simp: chat_turn_status_from_str_def split: if_splits)
qed

section \<open>Rows and errors\<close>

record chat_message_row =
  row_seq :: int
  row_role :: chat_role
  row_content :: rstring

record chat_session_summary =
  sm_id :: uuid
  sm_title :: rstring
  sm_updated_at :: timestamp

record chat_turn_row =
  tr_id :: uuid
  tr_session :: uuid
  tr_user_seq :: int
  tr_status :: chat_turn_status
  tr_attempts :: int
  tr_created_at :: timestamp

record admin_waiting_turn =
  aw_turn :: uuid
  aw_session :: uuid
  aw_user :: uuid
  aw_username :: rstring
  aw_status :: chat_turn_status
  aw_attempts :: int
  aw_created_at :: timestamp
  aw_last_error :: "rstring option"

record chat_session_meta =
  me_id :: uuid
  me_title :: rstring
  me_turn_status :: "chat_turn_status option"
  me_turn_resumable :: bool
  me_max_seq :: int

text \<open>\<open>Chat_db\<close> stands for an error of the driver; its text is not modelled.\<close>

datatype chat_error = Chat_db | Chat_crypto crypto_error | Chat_not_found | Chat_conflict

text \<open>Rows of \<^verbatim>\<open>chat_sessions\<close>, \<^verbatim>\<open>chat_messages\<close> and \<^verbatim>\<open>chat_turns\<close>.\<close>

record session_rec =
  s_id :: uuid
  s_user :: uuid
  s_title :: rstring
  s_created_at :: timestamp
  s_updated_at :: timestamp

record message_rec =
  m_session :: uuid
  m_seq :: int
  m_role :: chat_role
  m_sealed :: rstring
  m_created_at :: timestamp

record turn_rec =
  t_id :: uuid
  t_session :: uuid
  t_user_seq :: int
  t_status :: chat_turn_status
  t_attempts :: int
  t_created_at :: timestamp
  t_updated_at :: timestamp
  t_park_state :: chat_turn_status
  t_last_error :: "rstring option"

record chat_db =
  cd_users :: "(uuid \<times> rstring) list"
  cd_sessions :: "session_rec list"
  cd_messages :: "message_rec list"
  cd_turns :: "turn_rec list"

record chat_env =
  ce_prims :: prims
  ce_uuid :: "uuid \<Rightarrow> rstring"

definition MAX_SESSIONS_PER_USER :: nat where "MAX_SESSIONS_PER_USER = 100"

definition UNREADABLE_TITLE :: rstring where "UNREADABLE_TITLE = str ''(unreadable)''"

definition turn_row :: "turn_rec \<Rightarrow> chat_turn_row" where
  "turn_row t = \<lparr>tr_id = t_id t, tr_session = t_session t, tr_user_seq = t_user_seq t, tr_status = t_status t,
     tr_attempts = t_attempts t, tr_created_at = t_created_at t\<rparr>"

section \<open>Sealing\<close>

text \<open>Decimal text of an \<^verbatim>\<open>i64\<close>.\<close>

definition show_int :: "int \<Rightarrow> rstring" where
  "show_int n = (if n < 0 then str ''-'' @ show_nat (nat (- n)) else show_nat (nat n))"

definition message_aad :: "chat_env \<Rightarrow> uuid \<Rightarrow> int \<Rightarrow> rstring" where
  "message_aad E session seq = str ''chat:'' @ ce_uuid E session @ str '':'' @ show_int seq"

definition title_aad :: "chat_env \<Rightarrow> uuid \<Rightarrow> rstring" where
  "title_aad E session = str ''chat:'' @ ce_uuid E session @ str '':title''"

definition seal_hex :: "chat_env \<Rightarrow> bytes \<Rightarrow> rstring \<Rightarrow> rstring \<Rightarrow> dek \<Rightarrow> chat_error + rstring" where
  "seal_hex E nonce plain aad dek =
     (case seal_chat (ce_prims E) nonce (as_bytes plain) aad dek of
        Inl e \<Rightarrow> Inl (Chat_crypto e)
      | Inr sealed \<Rightarrow> Inr (hex_encode (ce_prims E) sealed))"

definition open_hex :: "chat_env \<Rightarrow> rstring \<Rightarrow> rstring \<Rightarrow> dek \<Rightarrow> chat_error + rstring" where
  "open_hex E sealed aad dek =
     and_then (ok_or (hex_decode (ce_prims E) sealed) (Chat_crypto Decrypt)) (\<lambda>b.
       case open_chat (ce_prims E) b aad dek of
         Inl e \<Rightarrow> Inl (Chat_crypto e)
       | Inr plain \<Rightarrow> ok_or (from_utf8 plain) (Chat_crypto Decrypt))"

definition chat_dek :: "chat_env \<Rightarrow> master_key \<Rightarrow> dek" where
  "chat_dek E master = chat_keys_from_master_key (ce_prims E) master"

section \<open>Sessions\<close>

definition owned :: "uuid \<Rightarrow> uuid \<Rightarrow> chat_db \<Rightarrow> bool" where
  "owned user session db \<longleftrightarrow> fetch_optional (\<lambda>s. s_id s = session \<and> s_user s = user) (cd_sessions db) \<noteq> None"

text \<open>Deleting sessions, with the cascade to their messages and turns.\<close>

definition drop_sessions :: "(uuid \<Rightarrow> bool) \<Rightarrow> chat_db \<Rightarrow> chat_db" where
  "drop_sessions p db = db\<lparr>cd_sessions := delete_where (\<lambda>s. p (s_id s)) (cd_sessions db),
     cd_messages := delete_where (\<lambda>m. p (m_session m)) (cd_messages db),
     cd_turns := delete_where (\<lambda>t. p (t_session t)) (cd_turns db)\<rparr>"

text \<open>A turn that still owes an answer.\<close>

definition owes :: "turn_rec \<Rightarrow> bool" where
  "owes t \<longleftrightarrow> t_status t = Turn_running \<or> (t_status t = Turn_interrupted \<and> t_attempts t = 0) \<or>
     t_status t = Turn_waiting_backend"

definition prunable :: "uuid \<Rightarrow> chat_db \<Rightarrow> session_rec list" where
  "prunable user db = order_by s_updated_at
     (filter (\<lambda>s. s_user s = user \<and> \<not> (\<exists>t \<in> set (cd_turns db). t_session t = s_id s \<and> owes t)) (cd_sessions db))"

definition prune_sessions :: "uuid \<Rightarrow> chat_db \<Rightarrow> chat_db" where
  "prune_sessions user db =
     (let n = count_where (\<lambda>s. s_user s = user) (cd_sessions db) in
      if MAX_SESSIONS_PER_USER \<le> n
      then let ids = map s_id (take (n + 1 - MAX_SESSIONS_PER_USER) (prunable user db)) in
        drop_sessions (\<lambda>i. i \<in> set ids) db
      else db)"

text \<open>The insert fails on a used identifier and on an unknown user; the transaction then leaves nothing.\<close>

definition chat_create_session ::
  "chat_env \<Rightarrow> bytes \<Rightarrow> uuid \<Rightarrow> timestamp \<Rightarrow> uuid \<Rightarrow> master_key \<Rightarrow> rstring \<Rightarrow> chat_db \<Rightarrow> (chat_error + uuid) \<times> chat_db" where
  "chat_create_session E nonce new now user master title db =
     (let db' = prune_sessions user db in
      case seal_hex E nonce title (title_aad E new) (chat_dek E master) of
        Inl e \<Rightarrow> (Inl e, db)
      | Inr sealed \<Rightarrow>
          if new \<in> s_id ` set (cd_sessions db') \<or> user \<notin> fst ` set (cd_users db) then (Inl Chat_db, db)
          else (Inr new, db'\<lparr>cd_sessions := cd_sessions db' @
            [\<lparr>s_id = new, s_user = user, s_title = sealed, s_created_at = now, s_updated_at = now\<rparr>]\<rparr>))"

definition open_title :: "chat_env \<Rightarrow> master_key \<Rightarrow> uuid \<Rightarrow> rstring \<Rightarrow> rstring" where
  "open_title E master session sealed =
     (case open_hex E sealed (title_aad E session) (chat_dek E master) of Inl e \<Rightarrow> UNREADABLE_TITLE | Inr title \<Rightarrow> title)"

text \<open>\<^verbatim>\<open>ORDER BY updated_at DESC\<close>; where SQL leaves the order of equal keys open the later row comes first.\<close>

definition list_sessions :: "chat_env \<Rightarrow> uuid \<Rightarrow> master_key \<Rightarrow> chat_db \<Rightarrow> chat_session_summary list" where
  "list_sessions E user master db =
     map (\<lambda>s. \<lparr>sm_id = s_id s, sm_title = open_title E master (s_id s) (s_title s), sm_updated_at = s_updated_at s\<rparr>)
       (rev (order_by s_updated_at (filter (\<lambda>s. s_user s = user) (cd_sessions db))))"

definition max_seq :: "uuid \<Rightarrow> chat_db \<Rightarrow> int" where
  "max_seq session db = foldr max (map m_seq (filter (\<lambda>m. m_session m = session) (cd_messages db))) 0"

definition session_turns :: "uuid \<Rightarrow> uuid \<Rightarrow> chat_db \<Rightarrow> turn_rec list" where
  "session_turns user session db = filter (\<lambda>t. t_session t = session \<and> owned user session db) (cd_turns db)"

definition latest_turn :: "uuid \<Rightarrow> uuid \<Rightarrow> chat_db \<Rightarrow> chat_turn_row option" where
  "latest_turn user session db =
     map_option turn_row (get_at (rev (order_by t_created_at (session_turns user session db))) 0)"

definition running_turn :: "uuid \<Rightarrow> uuid \<Rightarrow> chat_db \<Rightarrow> chat_turn_row option" where
  "running_turn user session db =
     map_option turn_row (get_at (filter (\<lambda>t. t_status t = Turn_running) (session_turns user session db)) 0)"

definition session_meta :: "chat_env \<Rightarrow> uuid \<Rightarrow> master_key \<Rightarrow> uuid \<Rightarrow> chat_db \<Rightarrow> chat_error + chat_session_meta" where
  "session_meta E user master session db =
     (case fetch_optional (\<lambda>s. s_id s = session \<and> s_user s = user) (cd_sessions db) of
        None \<Rightarrow> Inl Chat_not_found
      | Some s \<Rightarrow>
          (case (case latest_turn user session db of
                   Some t \<Rightarrow>
                     if tr_status t \<noteq> Turn_abandoned
                     then (Some (tr_status t), tr_status t = Turn_interrupted \<and> tr_attempts t = 0 \<or> tr_status t = Turn_waiting_backend)
                     else (None, False)
                 | None \<Rightarrow> (None, False)) of
             (status, resumable) \<Rightarrow>
               Inr \<lparr>me_id = session, me_title = open_title E master session (s_title s), me_turn_status = status,
                 me_turn_resumable = resumable, me_max_seq = max_seq session db\<rparr>))"

text \<open>\<^verbatim>\<open>delete_session\<close>: the count of running turns, then the delete.\<close>

definition delete_blocked :: "uuid \<Rightarrow> uuid \<Rightarrow> chat_db \<Rightarrow> bool" where
  "delete_blocked user session db \<longleftrightarrow>
     0 < count_where (\<lambda>t. t_status t = Turn_running) (session_turns user session db)"

definition delete_owned :: "uuid \<Rightarrow> uuid \<Rightarrow> chat_db \<Rightarrow> (chat_error + unit) \<times> chat_db" where
  "delete_owned user session db =
     (if owned user session db then (Inr (), drop_sessions (\<lambda>i. i = session) db) else (Inl Chat_not_found, db))"

definition chat_delete_session :: "uuid \<Rightarrow> uuid \<Rightarrow> chat_db \<Rightarrow> (chat_error + unit) \<times> chat_db" where
  "chat_delete_session user session db =
     (if delete_blocked user session db then (Inl Chat_conflict, db) else delete_owned user session db)"

section \<open>Messages\<close>

definition open_message :: "chat_env \<Rightarrow> master_key \<Rightarrow> message_rec \<Rightarrow> chat_message_row option" where
  "open_message E master m =
     (case open_hex E (m_sealed m) (message_aad E (m_session m) (m_seq m)) (chat_dek E master) of
        Inl e \<Rightarrow> None
      | Inr content \<Rightarrow> Some \<lparr>row_seq = m_seq m, row_role = m_role m, row_content = content\<rparr>)"

definition messages_after ::
  "chat_env \<Rightarrow> uuid \<Rightarrow> master_key \<Rightarrow> uuid \<Rightarrow> int \<Rightarrow> chat_db \<Rightarrow> chat_error + chat_message_row list" where
  "messages_after E user master session after db =
     (if \<not> owned user session db then Inl Chat_not_found
      else Inr (List.map_filter (open_message E master)
        (order_by m_seq (filter (\<lambda>m. m_session m = session \<and> after < m_seq m) (cd_messages db)))))"

definition touch_session :: "timestamp \<Rightarrow> uuid \<Rightarrow> uuid \<Rightarrow> chat_db \<Rightarrow> chat_db" where
  "touch_session now user session db = db\<lparr>cd_sessions :=
     update_where (\<lambda>s. s_id s = session \<and> s_user s = user) (\<lambda>s. s\<lparr>s_updated_at := now\<rparr>) (cd_sessions db)\<rparr>"

text \<open>The insert of a message, with the number it was given.\<close>

definition add_message :: "timestamp \<Rightarrow> uuid \<Rightarrow> uuid \<Rightarrow> chat_role \<Rightarrow> rstring \<Rightarrow> chat_db \<Rightarrow> chat_db" where
  "add_message now user session role sealed db =
     touch_session now user session
       (db\<lparr>cd_messages := cd_messages db @
         [\<lparr>m_session = session, m_seq = max_seq session db + 1, m_role = role, m_sealed = sealed, m_created_at = now\<rparr>]\<rparr>)"

definition append_message ::
  "chat_env \<Rightarrow> bytes \<Rightarrow> timestamp \<Rightarrow> uuid \<Rightarrow> master_key \<Rightarrow> uuid \<Rightarrow> chat_role \<Rightarrow> rstring \<Rightarrow> chat_db \<Rightarrow> (chat_error + int) \<times> chat_db" where
  "append_message E nonce now user master session role content db =
     (if \<not> owned user session db then (Inl Chat_not_found, db)
      else let seq = max_seq session db + 1 in
        case seal_hex E nonce content (message_aad E session seq) (chat_dek E master) of
          Inl e \<Rightarrow> (Inl e, db)
        | Inr sealed \<Rightarrow> (Inr seq, add_message now user session role sealed db))"

section \<open>Turns\<close>

definition supersede :: "timestamp \<Rightarrow> uuid \<Rightarrow> chat_db \<Rightarrow> chat_db" where
  "supersede now session db = db\<lparr>cd_turns :=
     update_where (\<lambda>t. t_session t = session \<and> t_status t \<in> {Turn_interrupted, Turn_waiting_backend})
       (\<lambda>t. t\<lparr>t_status := Turn_abandoned, t_updated_at := now\<rparr>) (cd_turns db)\<rparr>"

text \<open>The unique index: no second running turn in a session.\<close>

definition running_in :: "uuid \<Rightarrow> chat_db \<Rightarrow> bool" where
  "running_in session db \<longleftrightarrow> (\<exists>t \<in> set (cd_turns db). t_session t = session \<and> t_status t = Turn_running)"

definition create_turn ::
  "chat_env \<Rightarrow> bytes \<Rightarrow> uuid \<Rightarrow> timestamp \<Rightarrow> uuid \<Rightarrow> master_key \<Rightarrow> uuid \<Rightarrow> rstring \<Rightarrow> chat_db
   \<Rightarrow> (chat_error + chat_turn_row) \<times> chat_db" where
  "create_turn E nonce new now user master session message db =
     (if \<not> owned user session db then (Inl Chat_not_found, db)
      else let db1 = supersede now session db; seq = max_seq session db1 + 1 in
        case seal_hex E nonce message (message_aad E session seq) (chat_dek E master) of
          Inl e \<Rightarrow> (Inl e, db)
        | Inr sealed \<Rightarrow>
            (let db2 = add_message now user session Role_user sealed db1;
                 t = \<lparr>t_id = new, t_session = session, t_user_seq = seq, t_status = Turn_running, t_attempts = 0,
                   t_created_at = now, t_updated_at = now, t_park_state = Turn_interrupted, t_last_error = None\<rparr> in
             if running_in session db2 \<or> new \<in> t_id ` set (cd_turns db2) then (Inl Chat_conflict, db)
             else (Inr (turn_row t), db2\<lparr>cd_turns := cd_turns db2 @ [t]\<rparr>)))"

text \<open>A conditional update that makes turns running, under the unique index: when a second running turn of a
  session would result, the statement fails.\<close>

definition set_running :: "(turn_rec \<Rightarrow> bool) \<Rightarrow> (turn_rec \<Rightarrow> turn_rec) \<Rightarrow> chat_db \<Rightarrow> (chat_error + bool) \<times> chat_db" where
  "set_running p u db =
     (if \<exists>t \<in> set (cd_turns db). p t \<and> running_in (t_session t) db then (Inl Chat_db, db)
      else (Inr (0 < rows_affected p (cd_turns db)), db\<lparr>cd_turns := update_where p u (cd_turns db)\<rparr>))"

definition claim_resumable :: "timestamp \<Rightarrow> uuid \<Rightarrow> uuid \<Rightarrow> uuid \<Rightarrow> chat_db \<Rightarrow> (chat_error + bool) \<times> chat_db" where
  "claim_resumable now user session turn db =
     set_running (\<lambda>t. t_id t = turn \<and> t_session t = session \<and> t_status t = Turn_interrupted \<and> t_attempts t = 0 \<and>
         owned user session db)
       (\<lambda>t. t\<lparr>t_status := Turn_running, t_attempts := t_attempts t + 1, t_park_state := Turn_interrupted, t_updated_at := now\<rparr>) db"

definition claim_waiting :: "timestamp \<Rightarrow> uuid \<Rightarrow> uuid \<Rightarrow> uuid \<Rightarrow> chat_db \<Rightarrow> (chat_error + bool) \<times> chat_db" where
  "claim_waiting now user session turn db =
     set_running (\<lambda>t. t_id t = turn \<and> t_session t = session \<and> t_status t = Turn_waiting_backend \<and> owned user session db)
       (\<lambda>t. t\<lparr>t_status := Turn_running, t_park_state := Turn_waiting_backend, t_updated_at := now\<rparr>) db"

text \<open>A turn of one of the user's sessions.\<close>

definition turn_of :: "uuid \<Rightarrow> uuid \<Rightarrow> chat_db \<Rightarrow> turn_rec \<Rightarrow> bool" where
  "turn_of user turn db t \<longleftrightarrow> t_id t = turn \<and> owned user (t_session t) db"

definition leave_running :: "uuid \<Rightarrow> uuid \<Rightarrow> (turn_rec \<Rightarrow> turn_rec) \<Rightarrow> chat_db \<Rightarrow> (chat_error + unit) \<times> chat_db" where
  "leave_running user turn u db =
     (let p = \<lambda>t. turn_of user turn db t \<and> t_status t = Turn_running in
      if rows_affected p (cd_turns db) = 0 \<and> \<not> (\<exists>t \<in> set (cd_turns db). turn_of user turn db t)
      then (Inl Chat_not_found, db)
      else (Inr (), db\<lparr>cd_turns := update_where p u (cd_turns db)\<rparr>))"

definition finalize_turn :: "timestamp \<Rightarrow> uuid \<Rightarrow> uuid \<Rightarrow> chat_turn_status \<Rightarrow> chat_db \<Rightarrow> (chat_error + unit) \<times> chat_db" where
  "finalize_turn now user turn status db = leave_running user turn (\<lambda>t. t\<lparr>t_status := status, t_updated_at := now\<rparr>) db"

definition park_waiting :: "timestamp \<Rightarrow> uuid \<Rightarrow> uuid \<Rightarrow> rstring option \<Rightarrow> chat_db \<Rightarrow> (chat_error + unit) \<times> chat_db" where
  "park_waiting now user turn err db =
     leave_running user turn (\<lambda>t. t\<lparr>t_status := Turn_waiting_backend, t_last_error := err, t_updated_at := now\<rparr>) db"

definition boot_sweep :: "timestamp \<Rightarrow> chat_db \<Rightarrow> nat \<times> chat_db" where
  "boot_sweep now db =
     (rows_affected (\<lambda>t. t_status t = Turn_running) (cd_turns db),
      db\<lparr>cd_turns := update_where (\<lambda>t. t_status t = Turn_running)
        (\<lambda>t. t\<lparr>t_status := t_park_state t, t_updated_at := now\<rparr>) (cd_turns db)\<rparr>)"

section \<open>Scans\<close>

text \<open>Turns with the owner of their session, oldest first.\<close>

definition owner_of :: "uuid \<Rightarrow> chat_db \<Rightarrow> uuid option" where
  "owner_of session db = map_option s_user (fetch_optional (\<lambda>s. s_id s = session) (cd_sessions db))"

definition turns_where :: "(turn_rec \<Rightarrow> bool) \<Rightarrow> chat_db \<Rightarrow> (uuid \<times> turn_rec) list" where
  "turns_where p db =
     List.map_filter (\<lambda>t. map_option (\<lambda>u. (u, t)) (owner_of (t_session t) db)) (order_by t_created_at (filter p (cd_turns db)))"

definition resumable_turns :: "chat_db \<Rightarrow> (uuid \<times> chat_turn_row) list" where
  "resumable_turns db =
     map (map_prod id turn_row) (turns_where (\<lambda>t. t_status t = Turn_interrupted \<and> t_attempts t = 0) db)"

definition waiting_turns :: "chat_db \<Rightarrow> (uuid \<times> chat_turn_row) list" where
  "waiting_turns db = map (map_prod id turn_row) (turns_where (\<lambda>t. t_status t = Turn_waiting_backend) db)"

definition awaits_backend :: "turn_rec \<Rightarrow> bool" where
  "awaits_backend t \<longleftrightarrow> t_status t = Turn_waiting_backend \<or> (t_status t = Turn_interrupted \<and> t_attempts t = 0)"

definition admin_waiting_turns :: "chat_db \<Rightarrow> admin_waiting_turn list" where
  "admin_waiting_turns db =
     List.map_filter (\<lambda>(u, t). map_option (\<lambda>name. \<lparr>aw_turn = t_id t, aw_session = t_session t, aw_user = u, aw_username = name,
         aw_status = t_status t, aw_attempts = t_attempts t, aw_created_at = t_created_at t, aw_last_error = t_last_error t\<rparr>)
         (map_of (cd_users db) u))
       (turns_where awaits_backend db)"

definition waiting_turn_count :: "chat_db \<Rightarrow> nat" where
  "waiting_turn_count db = count_where awaits_backend (cd_turns db)"

section \<open>Operations as one step function\<close>

text \<open>
  Everything that writes the tables; deleting a user cascades to the sessions.  \<open>Op_delete\<close> is the second statement of
  \<^verbatim>\<open>delete_session\<close>, so that other operations can come between the check and the delete.
\<close>

datatype chat_op =
    Op_create_session bytes uuid timestamp uuid master_key rstring
  | Op_delete uuid uuid
  | Op_append bytes timestamp uuid master_key uuid chat_role rstring
  | Op_create_turn bytes uuid timestamp uuid master_key uuid rstring
  | Op_claim_resumable timestamp uuid uuid uuid
  | Op_claim_waiting timestamp uuid uuid uuid
  | Op_finalize timestamp uuid uuid chat_turn_status
  | Op_park timestamp uuid uuid "rstring option"
  | Op_sweep timestamp
  | Op_user_deleted uuid

definition drop_user :: "uuid \<Rightarrow> chat_db \<Rightarrow> chat_db" where
  "drop_user user db =
     (drop_sessions (\<lambda>i. \<exists>s \<in> set (cd_sessions db). s_id s = i \<and> s_user s = user) db)\<lparr>
       cd_users := delete_where (\<lambda>u. fst u = user) (cd_users db)\<rparr>"

fun chat_step :: "chat_env \<Rightarrow> chat_op \<Rightarrow> chat_db \<Rightarrow> chat_db" where
  "chat_step E (Op_create_session nonce new now user master title) db = snd (chat_create_session E nonce new now user master title db)"
| "chat_step E (Op_delete user session) db = snd (delete_owned user session db)"
| "chat_step E (Op_append nonce now user master session role content) db =
     snd (append_message E nonce now user master session role content db)"
| "chat_step E (Op_create_turn nonce new now user master session message) db =
     snd (create_turn E nonce new now user master session message db)"
| "chat_step E (Op_claim_resumable now user session turn) db = snd (claim_resumable now user session turn db)"
| "chat_step E (Op_claim_waiting now user session turn) db = snd (claim_waiting now user session turn db)"
| "chat_step E (Op_finalize now user turn status) db = snd (finalize_turn now user turn status db)"
| "chat_step E (Op_park now user turn err) db = snd (park_waiting now user turn err db)"
| "chat_step E (Op_sweep now) db = snd (boot_sweep now db)"
| "chat_step E (Op_user_deleted user) db = drop_user user db"

definition chat_run :: "chat_env \<Rightarrow> chat_op list \<Rightarrow> chat_db \<Rightarrow> chat_db" where
  "chat_run E ops db = foldl (\<lambda>d op. chat_step E op d) db ops"

definition empty_chat :: "(uuid \<times> rstring) list \<Rightarrow> chat_db" where
  "empty_chat users = \<lparr>cd_users = users, cd_sessions = [], cd_messages = [], cd_turns = []\<rparr>"

section \<open>Invariant\<close>

definition transcript :: "uuid \<Rightarrow> chat_db \<Rightarrow> message_rec list" where
  "transcript session db = filter (\<lambda>m. m_session m = session) (cd_messages db)"

definition open_turn :: "turn_rec \<Rightarrow> bool" where
  "open_turn t \<longleftrightarrow> t_status t \<in> {Turn_running, Turn_interrupted, Turn_waiting_backend}"

definition open_turns :: "uuid \<Rightarrow> chat_db \<Rightarrow> turn_rec list" where
  "open_turns session db = filter (\<lambda>t. t_session t = session \<and> open_turn t) (cd_turns db)"

text \<open>Message numbers of every session run from 1, in the order of insertion.\<close>

definition numbered :: "message_rec list \<Rightarrow> bool" where
  "numbered ms \<longleftrightarrow> (\<forall>session. map m_seq (filter (\<lambda>m. m_session m = session) ms) =
     map int [1..<Suc (length (filter (\<lambda>m. m_session m = session) ms))])"

text \<open>A turn row: its message exists and is the user's, it was resumed at most once, and it parks where a claim put it.\<close>

definition turn_ok :: "message_rec list \<Rightarrow> turn_rec \<Rightarrow> bool" where
  "turn_ok ms t \<longleftrightarrow> (\<exists>m \<in> set ms. m_session m = t_session t \<and> m_seq m = t_user_seq t \<and> m_role m = Role_user) \<and>
     t_attempts t \<in> {0, 1} \<and> t_park_state t \<in> {Turn_interrupted, Turn_waiting_backend}"

definition linked :: "chat_db \<Rightarrow> bool" where
  "linked db \<longleftrightarrow> distinct (map s_id (cd_sessions db)) \<and> distinct (map t_id (cd_turns db)) \<and>
     m_session ` set (cd_messages db) \<subseteq> s_id ` set (cd_sessions db) \<and>
     t_session ` set (cd_turns db) \<subseteq> s_id ` set (cd_sessions db)"

definition chat_inv :: "chat_db \<Rightarrow> bool" where
  "chat_inv db \<longleftrightarrow> linked db \<and> numbered (cd_messages db) \<and> (\<forall>session. length (open_turns session db) \<le> 1) \<and>
     (\<forall>t \<in> set (cd_turns db). turn_ok (cd_messages db) t)"

named_theorems chat_defs \<open>definitions of the table updates\<close>

lemmas [chat_defs] = drop_sessions_def touch_session_def add_message_def supersede_def open_turns_def

lemma chat_inv_empty: "chat_inv (empty_chat users)"
  by (simp add: chat_inv_def linked_def numbered_def open_turns_def empty_chat_def)

lemma filter_both: "filter p (delete_where q rows) = filter (\<lambda>r. p r \<and> \<not> q r) rows"
  by (simp add: delete_where_def conj_commute)

lemma numbered_drop:
  assumes "numbered ms"
  shows "numbered (delete_where (\<lambda>m. p (m_session m)) ms)"
  unfolding numbered_def filter_both
proof (rule allI)
  fix i
  have eq: "filter (\<lambda>m. m_session m = i \<and> \<not> p (m_session m)) ms = (if p i then [] else filter (\<lambda>m. m_session m = i) ms)"
    by (auto intro: filter_cong)
  show "map m_seq (filter (\<lambda>m. m_session m = i \<and> \<not> p (m_session m)) ms) =
      map int [1..<Suc (length (filter (\<lambda>m. m_session m = i \<and> \<not> p (m_session m)) ms))]"
    using assms unfolding eq numbered_def by (cases "p i") (simp_all del: upt_Suc)
qed

lemma length_filter_mono: "(\<And>r. r \<in> set rows \<Longrightarrow> p r \<Longrightarrow> q r) \<Longrightarrow> length (filter p rows) \<le> length (filter q rows)"
  using count_where_mono [of rows p q] by (simp add: count_where_def)

lemma open_turns_drop: "length (open_turns i (drop_sessions p db)) \<le> length (open_turns i db)"
  unfolding open_turns_def drop_sessions_def by (simp add: filter_both) (rule length_filter_mono, simp)

lemma linked_drop: "linked db \<Longrightarrow> linked (drop_sessions p db)"
  unfolding linked_def drop_sessions_def
  by (simp add: delete_where_def distinct_map_filter image_subset_iff image_iff) metis

lemma turn_ok_drop: "turn_ok ms t \<Longrightarrow> \<not> p (t_session t) \<Longrightarrow> turn_ok (delete_where (\<lambda>m. p (m_session m)) ms) t"
  by (auto simp: turn_ok_def)

lemma chat_inv_drop: "chat_inv db \<Longrightarrow> chat_inv (drop_sessions p db)"
proof -
  assume inv: "chat_inv db"
  then have "length (open_turns i (drop_sessions p db)) \<le> 1" for i
    using open_turns_drop [of i p db] unfolding chat_inv_def by (meson le_trans)
  moreover from inv have "turn_ok (cd_messages (drop_sessions p db)) t" if "t \<in> set (cd_turns (drop_sessions p db))" for t
    using that unfolding chat_inv_def by (auto simp: drop_sessions_def intro: turn_ok_drop)
  ultimately show ?thesis
    using inv linked_drop numbered_drop unfolding chat_inv_def by (auto simp: drop_sessions_def)
qed

lemma chat_inv_cong:
  "map s_id (cd_sessions db) = map s_id (cd_sessions db') \<Longrightarrow> cd_messages db = cd_messages db' \<Longrightarrow> cd_turns db = cd_turns db' \<Longrightarrow>
   chat_inv db = chat_inv db'"
proof -
  assume ids: "map s_id (cd_sessions db) = map s_id (cd_sessions db')"
  then have "s_id ` set (cd_sessions db) = s_id ` set (cd_sessions db')" by (metis list.set_map)
  moreover assume "cd_messages db = cd_messages db'" "cd_turns db = cd_turns db'"
  ultimately show ?thesis using ids by (simp add: chat_inv_def linked_def open_turns_def)
qed

lemma chat_inv_touch [simp]: "chat_inv (touch_session now user session db) = chat_inv db"
  by (rule chat_inv_cong) (simp_all add: touch_session_def row_simps)

lemma max_seq_numbered: "chat_inv db \<Longrightarrow> max_seq i db = int (length (transcript i db))"
proof -
  have shift: "foldr max (map int [1..<Suc n]) a = max a (int n)" if "0 \<le> a" for n a
    using that by (induction n arbitrary: a) (auto simp: max_def)
  then have fold: "foldr max (map int [1..<Suc n]) 0 = int n" for n by (simp del: upt_Suc)
  assume "chat_inv db"
  then have "map m_seq (transcript i db) = map int [1..<Suc (length (transcript i db))]"
    unfolding chat_inv_def numbered_def transcript_def by blast
  then show ?thesis by (simp only: max_seq_def transcript_def [symmetric] fold)
qed

lemma transcript_drop: "\<not> p i \<Longrightarrow> transcript i (drop_sessions p db) = transcript i db"
  unfolding transcript_def drop_sessions_def by (simp add: filter_both) (rule filter_cong, auto)

text \<open>A transcript grows at its end.\<close>

lemma transcript_add_message:
  "transcript i (add_message now user session role sealed db) =
     transcript i db @ (if i = session then
       [\<lparr>m_session = session, m_seq = max_seq session db + 1, m_role = role, m_sealed = sealed, m_created_at = now\<rparr>] else [])"
  by (simp add: transcript_def add_message_def touch_session_def)

lemma owned_iff: "owned user session db \<longleftrightarrow> (\<exists>s \<in> set (cd_sessions db). s_id s = session \<and> s_user s = user)"
  by (auto simp: owned_def fetch_optional_None)

lemma owned_session: "owned user session db \<Longrightarrow> session \<in> s_id ` set (cd_sessions db)"
  by (auto simp: owned_iff)

lemma turn_ok_mono: "turn_ok ms t \<Longrightarrow> set ms \<subseteq> set ms' \<Longrightarrow> turn_ok ms' t"
  unfolding turn_ok_def by blast

lemma chat_inv_add_message:
  assumes inv: "chat_inv db" and own: "session \<in> s_id ` set (cd_sessions db)"
  shows "chat_inv (add_message now user session role sealed db)"
proof -
  let ?m = "\<lparr>m_session = session, m_seq = max_seq session db + 1, m_role = role, m_sealed = sealed, m_created_at = now\<rparr>"
  let ?db = "db\<lparr>cd_messages := cd_messages db @ [?m]\<rparr>"
  have "numbered (cd_messages ?db)"
    unfolding numbered_def
  proof (rule allI)
    fix i
    have "map m_seq (filter (\<lambda>m. m_session m = i) (cd_messages db)) =
        map int [1..<Suc (length (filter (\<lambda>m. m_session m = i) (cd_messages db)))]"
      using inv unfolding chat_inv_def numbered_def by blast
    then show "map m_seq (filter (\<lambda>m. m_session m = i) (cd_messages ?db)) =
        map int [1..<Suc (length (filter (\<lambda>m. m_session m = i) (cd_messages ?db)))]"
      using max_seq_numbered [OF inv, of session] by (auto simp: transcript_def)
  qed
  moreover have "turn_ok (cd_messages ?db) t" if "t \<in> set (cd_turns db)" for t
    using inv that by (auto simp: chat_inv_def intro: turn_ok_mono)
  moreover have "linked ?db" using inv own by (auto simp: chat_inv_def linked_def)
  ultimately have "chat_inv ?db" using inv by (auto simp: chat_inv_def open_turns_def)
  then show ?thesis by (simp add: add_message_def)
qed

text \<open>An update of turns that opens none keeps the invariant.\<close>

lemma open_turns_update:
  assumes "\<And>t. t \<in> set ts \<Longrightarrow> p t \<Longrightarrow> t_session (u t) = t_session t \<and> (open_turn (u t) \<longrightarrow> open_turn t)"
  shows "length (filter (\<lambda>t. t_session t = i \<and> open_turn t) (update_where p u ts)) \<le>
    length (filter (\<lambda>t. t_session t = i \<and> open_turn t) ts)"
  using count_where_update_le [of ts p "\<lambda>t. t_session t = i \<and> open_turn t" u] assms by (auto simp: count_where_def)

lemma chat_inv_update_turns:
  assumes inv: "chat_inv db"
    and u: "\<And>t. t \<in> set (cd_turns db) \<Longrightarrow> p t \<Longrightarrow>
      t_id (u t) = t_id t \<and> t_session (u t) = t_session t \<and> t_user_seq (u t) = t_user_seq t \<and>
      t_attempts (u t) \<in> {0, 1} \<and> t_park_state (u t) \<in> {Turn_interrupted, Turn_waiting_backend} \<and>
      (open_turn (u t) \<longrightarrow> open_turn t)"
  shows "chat_inv (db\<lparr>cd_turns := update_where p u (cd_turns db)\<rparr>)"
proof -
  let ?db = "db\<lparr>cd_turns := update_where p u (cd_turns db)\<rparr>"
  have ids: "map t_id (update_where p u (cd_turns db)) = map t_id (cd_turns db)"
    and ss: "map t_session (update_where p u (cd_turns db)) = map t_session (cd_turns db)"
    using u by (auto simp: update_where_def)
  have "t_session ` set (update_where p u (cd_turns db)) = t_session ` set (cd_turns db)"
    using ss by (metis list.set_map)
  then have "linked ?db" using inv ids by (auto simp: chat_inv_def linked_def)
  moreover have "length (open_turns i ?db) \<le> length (open_turns i db)" for i
    using open_turns_update [of "cd_turns db" p u i] u by (simp add: open_turns_def)
  then have "length (open_turns i ?db) \<le> 1" for i
    using inv unfolding chat_inv_def by (meson le_trans)
  moreover have "turn_ok (cd_messages db) t" if "t \<in> set (update_where p u (cd_turns db))" for t
  proof -
    from that obtain t0 where t0: "t0 \<in> set (cd_turns db)" "t = (if p t0 then u t0 else t0)"
      by (auto simp: set_update_where)
    with inv have "turn_ok (cd_messages db) t0" by (auto simp: chat_inv_def)
    with t0 u [OF t0(1)] show ?thesis by (auto simp: turn_ok_def)
  qed
  ultimately show ?thesis using inv by (auto simp: chat_inv_def)
qed

lemma turn_okD:
  assumes "chat_inv db" "t \<in> set (cd_turns db)"
  shows "t_attempts t \<in> {0, 1}" "t_park_state t \<in> {Turn_interrupted, Turn_waiting_backend}"
  using assms by (auto simp: chat_inv_def turn_ok_def)

lemma chat_inv_set_running:
  assumes "chat_inv db"
    and "\<And>t. t \<in> set (cd_turns db) \<Longrightarrow> p t \<Longrightarrow> open_turn t \<and>
      t_id (u t) = t_id t \<and> t_session (u t) = t_session t \<and> t_user_seq (u t) = t_user_seq t \<and>
      t_attempts (u t) \<in> {0, 1} \<and> t_park_state (u t) \<in> {Turn_interrupted, Turn_waiting_backend}"
  shows "chat_inv (snd (set_running p u db))"
  using chat_inv_update_turns [OF assms(1), of p u] assms by (auto simp: set_running_def)

lemma chat_inv_claims:
  assumes "chat_inv db"
  shows "chat_inv (snd (claim_resumable now user session turn db))"
    and "chat_inv (snd (claim_waiting now user session turn db))"
  unfolding claim_resumable_def claim_waiting_def
  by (rule chat_inv_set_running; use assms turn_okD [OF assms] in \<open>auto simp: open_turn_def\<close>)+

lemma chat_inv_leave_running:
  assumes "chat_inv db"
    and "\<And>t. t_id (u t) = t_id t \<and> t_session (u t) = t_session t \<and> t_user_seq (u t) = t_user_seq t \<and>
      t_attempts (u t) = t_attempts t \<and> t_park_state (u t) = t_park_state t"
  shows "chat_inv (snd (leave_running user turn u db))"
  using chat_inv_update_turns [OF assms(1), of "\<lambda>t. turn_of user turn db t \<and> t_status t = Turn_running" u]
    turn_okD [OF assms(1)] assms
  by (auto simp: leave_running_def Let_def open_turn_def)

lemma chat_inv_sweep:
  assumes "chat_inv db"
  shows "chat_inv (snd (boot_sweep now db))"
  unfolding boot_sweep_def snd_conv
  by (rule chat_inv_update_turns) (use assms turn_okD [OF assms] in \<open>auto simp: open_turn_def\<close>)

lemma chat_inv_prune: "chat_inv db \<Longrightarrow> chat_inv (prune_sessions user db)"
  by (simp add: prune_sessions_def Let_def chat_inv_drop)

lemma chat_inv_add_session:
  "chat_inv db \<Longrightarrow> s_id s \<notin> s_id ` set (cd_sessions db) \<Longrightarrow> chat_inv (db\<lparr>cd_sessions := cd_sessions db @ [s]\<rparr>)"
  by (auto simp: chat_inv_def linked_def open_turns_def)

lemma chat_inv_create_session:
  assumes "chat_inv db"
  shows "chat_inv (snd (chat_create_session E nonce new now user master title db))"
  using assms chat_inv_add_session [OF chat_inv_prune [OF assms]]
  by (auto simp: chat_create_session_def Let_def split: sum.splits)

lemma chat_inv_supersede:
  assumes "chat_inv db"
  shows "chat_inv (supersede now session db)"
  unfolding supersede_def
  by (rule chat_inv_update_turns) (use assms turn_okD [OF assms] in \<open>auto simp: open_turn_def\<close>)

text \<open>After superseding, only a running turn is open.\<close>

lemma update_where_origin: "r \<in> set (update_where p u rows) \<Longrightarrow> \<exists>r0 \<in> set rows. r = (if p r0 then u r0 else r0)"
  unfolding set_update_where by (erule imageE) (rule bexI)

lemma superseded_open:
  assumes "t \<in> set (cd_turns (supersede now session db))" "t_session t = session" "open_turn t"
  shows "t_status t = Turn_running"
proof -
  let ?p = "\<lambda>t. t_session t = session \<and> t_status t \<in> {Turn_interrupted, Turn_waiting_backend}"
  let ?u = "\<lambda>t. t\<lparr>t_status := Turn_abandoned, t_updated_at := now\<rparr>"
  have "cd_turns (supersede now session db) = update_where ?p ?u (cd_turns db)" by (simp add: supersede_def)
  with assms(1) have "t \<in> set (update_where ?p ?u (cd_turns db))" by (simp only:)
  from update_where_origin [OF this] obtain t0 where t: "t = (if ?p t0 then ?u t0 else t0)" by (rule bexE)
  show ?thesis
  proof (cases "?p t0")
    case True
    with t assms(3) show ?thesis by (simp add: open_turn_def)
  next
    case False
    with t assms(2,3) show ?thesis by (auto simp: open_turn_def)
  qed
qed

lemma superseded_idle:
  assumes "\<not> running_in session (supersede now session db)"
  shows "open_turns session (supersede now session db) = []"
  using superseded_open [of _ now session db] assms
  unfolding running_in_def open_turns_def filter_empty_conv by blast

lemma add_message_sel [simp]:
  "cd_turns (add_message now user session role sealed db) = cd_turns db"
  "cd_users (add_message now user session role sealed db) = cd_users db"
  by (simp_all add: add_message_def touch_session_def)

lemma supersede_sel [simp]:
  "cd_sessions (supersede now session db) = cd_sessions db" "cd_messages (supersede now session db) = cd_messages db"
  "cd_users (supersede now session db) = cd_users db" "max_seq i (supersede now session db) = max_seq i db"
  by (simp_all add: supersede_def max_seq_def)

text \<open>What a successful \<^verbatim>\<open>create_turn\<close> did.\<close>

definition new_turn :: "uuid \<Rightarrow> timestamp \<Rightarrow> uuid \<Rightarrow> int \<Rightarrow> turn_rec" where
  "new_turn new now session seq = \<lparr>t_id = new, t_session = session, t_user_seq = seq, t_status = Turn_running, t_attempts = 0,
     t_created_at = now, t_updated_at = now, t_park_state = Turn_interrupted, t_last_error = None\<rparr>"

lemma create_turn_cases:
  obtains (refused) e where "create_turn E nonce new now user master session message db = (Inl e, db)"
  | (made) sealed where "owned user session db"
      "seal_hex E nonce message (message_aad E session (max_seq session db + 1)) (chat_dek E master) = Inr sealed"
      "\<not> running_in session (supersede now session db)" "new \<notin> t_id ` set (cd_turns (supersede now session db))"
      "create_turn E nonce new now user master session message db =
        (Inr (turn_row (new_turn new now session (max_seq session db + 1))),
         (add_message now user session Role_user sealed (supersede now session db))\<lparr>cd_turns :=
           cd_turns (supersede now session db) @ [new_turn new now session (max_seq session db + 1)]\<rparr>)"
proof (cases "fst (create_turn E nonce new now user master session message db)")
  case (Inl e)
  then have "create_turn E nonce new now user master session message db = (Inl e, db)"
    by (auto simp: create_turn_def Let_def split: if_splits sum.splits)
  then show thesis by (rule refused)
next
  case (Inr t)
  then show thesis
    by (auto simp: create_turn_def Let_def new_turn_def running_in_def split: if_splits sum.splits intro!: made)
qed

lemma chat_inv_create_turn:
  assumes inv: "chat_inv db"
  shows "chat_inv (snd (create_turn E nonce new now user master session message db))"
proof (cases rule: create_turn_cases [of E nonce new now user master session message db])
  case refused
  with inv show ?thesis by simp
next
  case (made sealed)
  let ?db = "add_message now user session Role_user sealed (supersede now session db)"
  let ?t = "new_turn new now session (max_seq session db + 1)"
  have db: "chat_inv ?db"
    using inv made(1) by (simp add: chat_inv_add_message chat_inv_supersede owned_session)
  have ids: "s_id ` set (cd_sessions ?db) = s_id ` set (cd_sessions db)"
    by (simp only: list.set_map [symmetric]) (simp add: add_message_def touch_session_def row_simps)
  from superseded_idle [OF made(3)] have idle: "open_turns session ?db = []" by (simp add: open_turns_def)
  have "length (open_turns i (?db\<lparr>cd_turns := cd_turns ?db @ [?t]\<rparr>)) \<le> 1" for i
    using db idle by (cases "i = session") (auto simp: chat_inv_def open_turns_def new_turn_def)
  moreover have "turn_ok (cd_messages ?db) ?t"
    by (auto simp: turn_ok_def new_turn_def add_message_def touch_session_def)
  moreover have "linked (?db\<lparr>cd_turns := cd_turns ?db @ [?t]\<rparr>)"
    using db made(4) owned_session [OF made(1)] unfolding chat_inv_def linked_def by (auto simp: ids new_turn_def)
  ultimately show ?thesis using db by (simp add: made(5) chat_inv_def)
qed

lemma chat_inv_step: "chat_inv db \<Longrightarrow> chat_inv (chat_step E op db)"
proof (cases op)
  case (Op_delete user session)
  then show "chat_inv db \<Longrightarrow> ?thesis" by (simp add: delete_owned_def chat_inv_drop)
next
  case (Op_append nonce now user master session role content)
  then show "chat_inv db \<Longrightarrow> ?thesis"
    by (auto simp: append_message_def Let_def intro: chat_inv_add_message owned_session split: sum.splits)
next
  case (Op_finalize now user turn status)
  then show "chat_inv db \<Longrightarrow> ?thesis" by (simp add: finalize_turn_def chat_inv_leave_running)
next
  case (Op_park now user turn err)
  then show "chat_inv db \<Longrightarrow> ?thesis" by (simp add: park_waiting_def chat_inv_leave_running)
next
  case (Op_user_deleted user)
  then show "chat_inv db \<Longrightarrow> ?thesis"
    using chat_inv_cong [of "drop_user user db"
        "drop_sessions (\<lambda>i. \<exists>s \<in> set (cd_sessions db). s_id s = i \<and> s_user s = user) db"]
    by (simp add: drop_user_def chat_inv_drop)
qed (simp_all add: chat_inv_create_session chat_inv_create_turn chat_inv_claims chat_inv_sweep)

lemma chat_inv_run: "chat_inv db \<Longrightarrow> chat_inv (chat_run E ops db)"
  unfolding chat_run_def by (induction ops arbitrary: db) (simp_all add: chat_inv_step)

text \<open>Two open turns of a session are the same row.\<close>

lemma open_turns_eq:
  assumes "chat_inv db" "t \<in> set (cd_turns db)" "t' \<in> set (cd_turns db)" "open_turn t" "open_turn t'" "t_session t = t_session t'"
  shows "t = t'"
proof -
  let ?o = "open_turns (t_session t) db"
  have "t \<in> set ?o" "t' \<in> set ?o" using assms by (auto simp: open_turns_def)
  moreover have "length ?o \<le> 1" using assms(1) by (auto simp: chat_inv_def)
  ultimately show ?thesis by (cases ?o) auto
qed

lemma set_running_never_fails:
  assumes "chat_inv db" "\<And>t. t \<in> set (cd_turns db) \<Longrightarrow> p t \<Longrightarrow> open_turn t \<and> t_status t \<noteq> Turn_running"
  shows "fst (set_running p u db) = Inr (\<exists>t \<in> set (cd_turns db). p t)"
proof -
  have "\<not> (\<exists>t \<in> set (cd_turns db). p t \<and> running_in (t_session t) db)"
    using assms open_turns_eq [OF assms(1)] by (auto simp: running_in_def open_turn_def)
  then show ?thesis by (simp add: set_running_def rows_affected_pos)
qed

section \<open>Transcripts\<close>

definition good_chat_env :: "chat_env \<Rightarrow> bool" where
  "good_chat_env E \<longleftrightarrow> good_prims (ce_prims E)"

lemma open_seal_hex:
  assumes "good_chat_env E" "length nonce = NONCE_LEN" "list_all is_scalar plain"
    and "seal_hex E nonce plain aad dek = Inr sealed"
  shows "open_hex E sealed aad dek = Inr plain"
proof -
  from assms(4) obtain b where b: "seal_chat (ce_prims E) nonce (as_bytes plain) aad dek = Inr b"
    "sealed = hex_encode (ce_prims E) b"
    by (auto simp: seal_hex_def split: sum.splits)
  have good: "good_prims (ce_prims E)" using assms(1) by (simp add: good_chat_env_def)
  show ?thesis
    using chat_box.open_seal [OF good assms(2) b(1)] good_primsD(7) [OF good] from_utf8_as_bytes [OF assms(3)]
    by (simp add: open_hex_def b(2))
qed

lemma sorted_transcript: "chat_inv db \<Longrightarrow> sorted (map m_seq (transcript i db))"
proof -
  assume "chat_inv db"
  then have "map m_seq (transcript i db) = map int [1..<Suc (length (transcript i db))]"
    unfolding chat_inv_def numbered_def transcript_def by blast
  moreover have "sorted (map int [a..<b])" for a b by (simp add: sorted_map)
  ultimately show ?thesis by metis
qed

lemma messages_after_transcript:
  assumes "chat_inv db" "owned user session db"
  shows "messages_after E user master session after db =
    Inr (List.map_filter (open_message E master) (filter (\<lambda>m. after < m_seq m) (transcript session db)))"
proof -
  let ?f = "filter (\<lambda>m. after < m_seq m) (transcript session db)"
  have "sorted (map m_seq ?f)"
    using sorted_transcript [OF assms(1)] by (rule sorted_filter)
  then have "order_by m_seq ?f = ?f" by (simp add: order_by_def sorted_sort_id sort_key_id_if_sorted)
  moreover have "filter (\<lambda>m. m_session m = session \<and> after < m_seq m) (cd_messages db) = ?f"
    by (simp add: transcript_def conj_commute)
  ultimately show ?thesis using assms(2) by (simp add: messages_after_def)
qed

lemma map_filter_append: "List.map_filter f (xs @ ys) = List.map_filter f xs @ List.map_filter f ys"
  by (simp add: List.map_filter_def)

lemma owned_add_message [simp]: "owned u i (add_message now user session role sealed db) = owned u i db"
  by (auto simp: owned_def add_message_def touch_session_def fetch_optional_update)

lemma messages_add_other:
  "other \<noteq> session \<Longrightarrow> filter (\<lambda>m. m_session m = other \<and> p m) (cd_messages (add_message now user session role sealed db)) =
    filter (\<lambda>m. m_session m = other \<and> p m) (cd_messages db)"
  by (simp add: add_message_def touch_session_def)

lemma append_message_Inr:
  assumes "append_message E nonce now user master session role content db = (Inr seq, db')"
  obtains sealed where "owned user session db" "seq = max_seq session db + 1" "db' = add_message now user session role sealed db"
    "seal_hex E nonce content (message_aad E session seq) (chat_dek E master) = Inr sealed"
  using assms by (auto simp: append_message_def Let_def split: if_splits sum.splits)

lemma sealed_row_opens:
  assumes "good_chat_env E" "length nonce = NONCE_LEN" "list_all is_scalar content"
    and "seal_hex E nonce content (message_aad E (m_session m) (m_seq m)) (chat_dek E master) = Inr (m_sealed m)"
  shows "open_message E master m = Some \<lparr>row_seq = m_seq m, row_role = m_role m, row_content = content\<rparr>"
  using open_seal_hex [OF assms] by (simp add: open_message_def)

section \<open>Pruning\<close>

definition in_debt :: "chat_db \<Rightarrow> session_rec \<Rightarrow> bool" where
  "in_debt db s \<longleftrightarrow> (\<exists>t \<in> set (cd_turns db). t_session t = s_id s \<and> owes t)"

definition sessions_of :: "uuid \<Rightarrow> chat_db \<Rightarrow> session_rec list" where
  "sessions_of user db = filter (\<lambda>s. s_user s = user) (cd_sessions db)"

lemma prunable_sorted: "prunable user db = order_by s_updated_at (filter (\<lambda>s. \<not> in_debt db s) (sessions_of user db))"
  by (simp add: prunable_def in_debt_def sessions_of_def conj_commute)

lemma set_prunable: "set (prunable user db) = {s \<in> set (cd_sessions db). s_user s = user \<and> \<not> in_debt db s}"
  by (auto simp: prunable_sorted sessions_of_def)

lemma distinct_prunable: "linked db \<Longrightarrow> distinct (prunable user db)"
  by (simp add: prunable_def order_by_def linked_def distinct_map)

lemma length_remove_all:
  "distinct xs \<Longrightarrow> distinct ys \<Longrightarrow> set ys \<subseteq> set xs \<Longrightarrow> length (filter (\<lambda>x. x \<notin> set ys) xs) = length xs - length ys"
proof -
  assume d: "distinct xs" "distinct ys" "set ys \<subseteq> set xs"
  have "length (filter (\<lambda>x. x \<notin> set ys) xs) = card (set xs - set ys)"
    using d(1) by (simp add: distinct_card [symmetric] set_diff_eq)
  then show ?thesis using d by (simp add: card_Diff_subset distinct_card)
qed

text \<open>The sessions pruned from a database with sessions at or above the cap: the oldest without debts.\<close>

definition pruned :: "uuid \<Rightarrow> chat_db \<Rightarrow> session_rec list" where
  "pruned user db = (let n = length (sessions_of user db) in
     if MAX_SESSIONS_PER_USER \<le> n then take (n + 1 - MAX_SESSIONS_PER_USER) (prunable user db) else [])"

lemma prune_pruned: "prune_sessions user db = drop_sessions (\<lambda>i. i \<in> s_id ` set (pruned user db)) db"
  by (simp add: prune_sessions_def pruned_def Let_def sessions_of_def count_where_def drop_sessions_def delete_where_def)

lemma pruned_subset: "set (pruned user db) \<subseteq> set (prunable user db)"
  by (auto simp: pruned_def Let_def dest: in_set_takeD)

lemma pruned_by_id:
  assumes "linked db" "s \<in> set (cd_sessions db)"
  shows "s_id s \<in> s_id ` set (pruned user db) \<longleftrightarrow> s \<in> set (pruned user db)"
proof
  assume "s_id s \<in> s_id ` set (pruned user db)"
  then obtain x where x: "x \<in> set (pruned user db)" "s_id s = s_id x" by (rule imageE)
  then have "x \<in> set (cd_sessions db)" using pruned_subset [of user db] by (auto simp: set_prunable)
  moreover have "inj_on s_id (set (cd_sessions db))" using assms(1) by (simp add: linked_def distinct_map)
  ultimately show "s \<in> set (pruned user db)" using x assms(2) inj_onD by metis
qed (rule imageI)

lemma pruned_oldest:
  "s \<in> set (pruned user db) \<Longrightarrow> s' \<in> set (prunable user db) \<Longrightarrow> s' \<notin> set (pruned user db) \<Longrightarrow> s_updated_at s \<le> s_updated_at s'"
proof -
  let ?k = "length (sessions_of user db) + 1 - MAX_SESSIONS_PER_USER" and ?P = "prunable user db"
  assume a: "s \<in> set (pruned user db)" "s' \<in> set ?P" "s' \<notin> set (pruned user db)"
  then have p: "pruned user db = take ?k ?P" by (auto simp: pruned_def Let_def split: if_splits)
  have "sorted (map s_updated_at (take ?k ?P @ drop ?k ?P))"
    by (simp add: prunable_sorted sorted_order_by)
  moreover have "s' \<in> set (drop ?k ?P)" using a(2,3) p by (metis UnE append_take_drop_id set_append)
  ultimately show ?thesis using a(1) p by (simp add: sorted_append del: append_take_drop_id)
qed

lemma count_after_prune:
  assumes "linked db"
  shows "length (sessions_of user (prune_sessions user db)) = length (sessions_of user db) - length (pruned user db)"
proof -
  have "sessions_of user (prune_sessions user db) = filter (\<lambda>s. s \<notin> set (pruned user db)) (sessions_of user db)"
    using pruned_by_id [OF assms]
    by (auto simp: prune_pruned drop_sessions_def delete_where_def sessions_of_def intro!: filter_cong)
  moreover have "distinct (sessions_of user db)" "distinct (pruned user db)"
    using assms distinct_prunable [OF assms] by (auto simp: sessions_of_def linked_def distinct_map pruned_def Let_def)
  moreover have "set (pruned user db) \<subseteq> set (sessions_of user db)"
    using pruned_subset [of user db] set_prunable [of user db] by (auto simp: sessions_of_def)
  ultimately show ?thesis by (simp add: length_remove_all)
qed

lemma length_pruned:
  "length (pruned user db) = (if MAX_SESSIONS_PER_USER \<le> length (sessions_of user db)
     then min (length (filter (\<lambda>s. \<not> in_debt db s) (sessions_of user db))) (length (sessions_of user db) + 1 - MAX_SESSIONS_PER_USER) else 0)"
  by (simp add: pruned_def Let_def prunable_sorted order_by_def)

section \<open>What a user sees\<close>

text \<open>The rows of a user: the sessions, and the messages and turns of those sessions.\<close>

record user_view =
  uv_sessions :: "session_rec list"
  uv_messages :: "message_rec list"
  uv_turns :: "turn_rec list"

definition view_of :: "uuid \<Rightarrow> chat_db \<Rightarrow> user_view" where
  "view_of user db = \<lparr>uv_sessions = sessions_of user db,
     uv_messages = filter (\<lambda>m. owned user (m_session m) db) (cd_messages db),
     uv_turns = filter (\<lambda>t. owned user (t_session t) db) (cd_turns db)\<rparr>"

text \<open>On whose behalf an operation runs.\<close>

fun actor :: "chat_op \<Rightarrow> uuid option" where
  "actor (Op_create_session nonce new now user master title) = Some user"
| "actor (Op_delete user session) = Some user"
| "actor (Op_append nonce now user master session role content) = Some user"
| "actor (Op_create_turn nonce new now user master session message) = Some user"
| "actor (Op_claim_resumable now user session turn) = Some user"
| "actor (Op_claim_waiting now user session turn) = Some user"
| "actor (Op_finalize now user turn status) = Some user"
| "actor (Op_park now user turn err) = Some user"
| "actor (Op_sweep now) = None"
| "actor (Op_user_deleted user) = Some user"

lemma owned_sessions_of: "owned user i db \<longleftrightarrow> i \<in> s_id ` set (sessions_of user db)"
  by (auto simp: owned_iff sessions_of_def)

lemma owned_cong: "sessions_of user db = sessions_of user db' \<Longrightarrow> owned user i db = owned user i db'"
  by (simp add: owned_sessions_of)

lemma owner_unique:
  assumes "linked db" "owned a i db" "owned u i db"
  shows "a = u"
proof -
  from assms obtain s s' where "s \<in> set (cd_sessions db)" "s' \<in> set (cd_sessions db)" "s_id s = i" "s_id s' = i" "s_user s = a" "s_user s' = u"
    by (auto simp: owned_iff)
  moreover have "inj_on s_id (set (cd_sessions db))" using assms(1) by (simp add: linked_def distinct_map)
  ultimately show ?thesis using inj_onD by metis
qed

lemma view_drop:
  assumes "\<And>i. p i \<Longrightarrow> \<not> owned user i db"
  shows "view_of user (drop_sessions p db) = view_of user db"
proof -
  have s: "sessions_of user (drop_sessions p db) = sessions_of user db"
    unfolding sessions_of_def drop_sessions_def using assms
    by (simp add: filter_both) (rule filter_cong, auto simp: owned_iff)
  note o = owned_cong [OF s]
  have "filter (\<lambda>m. owned user (m_session m) db) (cd_messages (drop_sessions p db)) = filter (\<lambda>m. owned user (m_session m) db) (cd_messages db)"
    and "filter (\<lambda>t. owned user (t_session t) db) (cd_turns (drop_sessions p db)) = filter (\<lambda>t. owned user (t_session t) db) (cd_turns db)"
    unfolding drop_sessions_def using assms by (simp_all add: filter_both) (rule filter_cong, auto)+
  then show ?thesis by (simp add: view_of_def s o)
qed

lemma view_add_message:
  assumes "user \<noteq> a" "\<not> owned user session db"
  shows "view_of user (add_message now a session role sealed db) = view_of user db"
proof -
  have "sessions_of user (add_message now a session role sealed db) = sessions_of user db"
    unfolding sessions_of_def add_message_def touch_session_def
    using assms(1) by simp (rule filter_update_where_other, auto)
  then show ?thesis using assms(2) owned_add_message by (simp add: view_of_def) (simp add: add_message_def touch_session_def)
qed

lemma view_turns:
  assumes "filter (\<lambda>t. owned user (t_session t) db) ts = filter (\<lambda>t. owned user (t_session t) db) (cd_turns db)"
  shows "view_of user (db\<lparr>cd_turns := ts\<rparr>) = view_of user db"
  using assms by (simp add: view_of_def sessions_of_def owned_def)

lemma view_update_turns:
  assumes "\<And>t. p t \<Longrightarrow> \<not> owned user (t_session t) db" "\<And>t. t_session (u t) = t_session t"
  shows "view_of user (db\<lparr>cd_turns := update_where p u (cd_turns db)\<rparr>) = view_of user db"
  by (rule view_turns, rule filter_update_where_other) (use assms in auto)

lemma view_create_turn:
  assumes "linked db" "user \<noteq> a"
  shows "view_of user (snd (create_turn E nonce new now a master session message db)) = view_of user db"
proof (cases rule: create_turn_cases [of E nonce new now a master session message db])
  case (made sealed)
  have no: "\<not> owned user session db" using assms made(1) owner_unique by blast
  let ?d = "supersede now session db"
  have "view_of user ?d = view_of user db"
    unfolding supersede_def by (rule view_update_turns) (use no in auto)
  moreover have no': "\<not> owned user session ?d" using no by (simp add: owned_def)
  then have "view_of user (add_message now a session Role_user sealed ?d) = view_of user ?d"
    using assms(2) by (rule view_add_message [rotated])
  moreover have "view_of user ((add_message now a session Role_user sealed ?d)\<lparr>cd_turns := cd_turns ?d @ [new_turn new now session n]\<rparr>) =
      view_of user (add_message now a session Role_user sealed ?d)" for n
    by (rule view_turns) (use no' in \<open>simp add: new_turn_def\<close>)
  ultimately show ?thesis by (simp add: made(5))
qed simp

lemma view_create_session:
  assumes "linked db" "user \<noteq> a"
  shows "view_of user (snd (chat_create_session E nonce new now a master title db)) = view_of user db"
proof -
  have "view_of user (prune_sessions a db) = view_of user db"
    unfolding prune_pruned
  proof (rule view_drop)
    fix i assume "i \<in> s_id ` set (pruned a db)"
    then have "owned a i db" using pruned_subset [of a db] by (auto simp: set_prunable owned_iff)
    then show "\<not> owned user i db" using assms owner_unique by blast
  qed
  moreover have "view_of user (d\<lparr>cd_sessions := cd_sessions d @ [s]\<rparr>) = view_of user d" if "s_user s = a" for d s
  proof -
    have "sessions_of user (d\<lparr>cd_sessions := cd_sessions d @ [s]\<rparr>) = sessions_of user d"
      using that assms(2) by (simp add: sessions_of_def)
    from owned_cong [OF this] this show ?thesis by (simp add: view_of_def)
  qed
  ultimately show ?thesis by (auto simp: chat_create_session_def Let_def split: sum.splits)
qed

lemma view_leave_running:
  assumes "linked db" "user \<noteq> a" "\<And>t. t_session (u t) = t_session t"
  shows "view_of user (snd (leave_running a turn u db)) = view_of user db"
proof -
  have "view_of user (db\<lparr>cd_turns := update_where (\<lambda>t. turn_of a turn db t \<and> t_status t = Turn_running) u (cd_turns db)\<rparr>) = view_of user db"
    by (rule view_update_turns) (use assms owner_unique [OF assms(1)] in \<open>auto simp: turn_of_def\<close>)
  then show ?thesis by (simp add: leave_running_def Let_def)
qed

lemma view_claims:
  assumes "linked db" "user \<noteq> a"
  shows "view_of user (snd (claim_resumable now a session turn db)) = view_of user db"
    and "view_of user (snd (claim_waiting now a session turn db)) = view_of user db"
  unfolding claim_resumable_def claim_waiting_def set_running_def
  using assms owner_unique [OF assms(1)] by (auto intro!: view_update_turns)

lemma view_delete:
  assumes "linked db" "user \<noteq> a"
  shows "view_of user (snd (delete_owned a session db)) = view_of user db"
  unfolding delete_owned_def using owner_unique [OF assms(1)] assms(2) by (auto intro!: view_drop)

lemma view_append:
  assumes "linked db" "user \<noteq> a"
  shows "view_of user (snd (append_message E nonce now a master session role content db)) = view_of user db"
  unfolding append_message_def Let_def using owner_unique [OF assms(1)] assms(2)
  by (auto split: sum.splits intro!: view_add_message)

lemma view_drop_user:
  assumes "linked db" "user \<noteq> a"
  shows "view_of user (drop_user a db) = view_of user db"
proof -
  let ?d = "drop_sessions (\<lambda>i. \<exists>s \<in> set (cd_sessions db). s_id s = i \<and> s_user s = a) db"
  have "view_of user ?d = view_of user db"
  proof (rule view_drop)
    fix i assume "\<exists>s \<in> set (cd_sessions db). s_id s = i \<and> s_user s = a"
    then have "owned a i db" by (simp add: owned_iff)
    then show "\<not> owned user i db" using assms owner_unique by blast
  qed
  moreover have "view_of user (drop_user a db) = view_of user ?d"
    by (simp add: drop_user_def view_of_def sessions_of_def owned_def)
  ultimately show ?thesis by simp
qed

lemma view_step:
  assumes "linked db" and "actor op = Some a" "a \<noteq> user"
  shows "view_of user (chat_step E op db) = view_of user db"
  using assms(2,3)
  by (cases op) (simp_all add: view_create_session view_create_turn view_claims view_leave_running view_delete view_append
      view_drop_user assms(1) finalize_turn_def park_waiting_def)

text \<open>Reads depend on the user's rows alone.\<close>

lemma owned_view: "owned user i db \<longleftrightarrow> i \<in> s_id ` set (uv_sessions (view_of user db))"
  by (simp add: view_of_def owned_sessions_of)

lemma filter_owned_view:
  "owned user i db \<Longrightarrow> filter (\<lambda>m. m_session m = i \<and> q m) (cd_messages db) =
     filter (\<lambda>m. m_session m = i \<and> q m) (uv_messages (view_of user db))"
  "session_turns user i db = filter (\<lambda>t. t_session t = i) (uv_turns (view_of user db))"
  by (auto simp: view_of_def session_turns_def intro: filter_cong)

lemma fetch_optional_filter: "fetch_optional (\<lambda>s. p s \<and> q s) rows = fetch_optional p (filter q rows)"
  by (induction rows) auto

lemma max_seq_view: "owned user i db \<Longrightarrow> max_seq i db = foldr max (map m_seq (filter (\<lambda>m. m_session m = i) (uv_messages (view_of user db)))) 0"
  using filter_owned_view(1) [of user i db "\<lambda>_. True"] by (simp add: max_seq_def)

lemma reads_by_view:
  assumes "view_of user db = view_of user db'"
  shows "list_sessions E user master db = list_sessions E user master db'"
    and "messages_after E user master session after db = messages_after E user master session after db'"
    and "session_meta E user master session db = session_meta E user master session db'"
    and "running_turn user session db = running_turn user session db'"
proof -
  note o = owned_view [of user _ db] owned_view [of user _ db', folded assms]
  have ss: "sessions_of user db = sessions_of user db'" using assms by (simp add: view_of_def)
  have st: "session_turns user i db = session_turns user i db'" for i using assms by (simp add: filter_owned_view)
  show "list_sessions E user master db = list_sessions E user master db'"
    using ss by (simp add: list_sessions_def sessions_of_def)
  show "messages_after E user master session after db = messages_after E user master session after db'"
    using filter_owned_view(1) [of user session db] filter_owned_view(1) [of user session db'] assms
    by (auto simp: messages_after_def o)
  show "running_turn user session db = running_turn user session db'" by (simp add: running_turn_def st)
  have f: "fetch_optional (\<lambda>s. s_id s = session \<and> s_user s = user) (cd_sessions d) = fetch_optional (\<lambda>s. s_id s = session) (sessions_of user d)" for d
    by (simp add: fetch_optional_filter sessions_of_def)
  have m: "max_seq session db = max_seq session db'" if "fetch_optional (\<lambda>s. s_id s = session) (sessions_of user db) = Some s" for s
    using that max_seq_view [of user session db] max_seq_view [of user session db'] assms f [of db] f [of db'] ss
    by (simp add: owned_def)
  show "session_meta E user master session db = session_meta E user master session db'"
    by (auto simp: session_meta_def f ss latest_turn_def st m [unfolded ss] split: option.split)
qed

section \<open>Properties\<close>

text \<open>C17.  The turn state machine keeps its rules in every reachable database, whatever the order of the operations: a session has at
  most one turn that is running, interrupted or waiting for the backend; its messages are numbered 1, 2, 3 in the order
  they were written; every turn answers an existing message of the user and was resumed after a crash at most once; and
  a claim never meets the unique index, so it reports whether it matched and never a database error.\<close>
theorem chat_one_open_turn:
  fixes E ops users
  defines "db \<equiv> chat_run E ops (empty_chat users)"
  shows "length (open_turns session db) \<le> 1 \<and>
    map m_seq (transcript session db) = map int [1..<Suc (length (transcript session db))] \<and>
    list_all (\<lambda>t. t_attempts t \<in> {0, 1} \<and>
      list_ex (\<lambda>m. m_seq m = t_user_seq t \<and> m_role m = Role_user) (transcript (t_session t) db)) (cd_turns db) \<and>
    fst (claim_resumable now user session turn db) \<noteq> Inl Chat_db \<and> fst (claim_waiting now user session turn db) \<noteq> Inl Chat_db"
proof -
  have inv: "chat_inv db" unfolding db_def by (rule chat_inv_run [OF chat_inv_empty])
  then have "list_all (\<lambda>t. t_attempts t \<in> {0, 1} \<and>
      list_ex (\<lambda>m. m_seq m = t_user_seq t \<and> m_role m = Role_user) (transcript (t_session t) db)) (cd_turns db)"
    by (fastforce simp: chat_inv_def turn_ok_def list_all_iff list_ex_iff transcript_def)
  moreover have "fst (claim_resumable now user session turn db) \<noteq> Inl Chat_db"
    "fst (claim_waiting now user session turn db) \<noteq> Inl Chat_db"
    unfolding claim_resumable_def claim_waiting_def
    by (subst set_running_never_fails [OF inv]; simp add: open_turn_def)+
  ultimately show ?thesis using inv unfolding chat_inv_def numbered_def transcript_def by blast
qed

text \<open>What is appended is what is read.  A message that was accepted gets the next number of its session, and from then on
  the owner reads the old transcript followed by the message, with its role and its text; the transcripts of all other
  sessions read as before, for every user and key.\<close>
theorem transcript_append_read:
  assumes "good_chat_env E" "chat_inv db" "length nonce = NONCE_LEN" "list_all is_scalar content"
    and app: "append_message E nonce now user master session role content db = (Inr seq, db')"
  shows "seq = int (length (transcript session db)) + 1 \<and>
    messages_after E user master session after db' =
      map_sum id (\<lambda>rows. rows @ (if after < seq then [\<lparr>row_seq = seq, row_role = role, row_content = content\<rparr>] else []))
        (messages_after E user master session after db) \<and>
    (other = session \<or> messages_after E user' master' other after db' = messages_after E user' master' other after db)"
proof (rule append_message_Inr [OF app])
  fix sealed
  assume own: "owned user session db" and seq: "seq = max_seq session db + 1"
    and db': "db' = add_message now user session role sealed db"
    and sealed: "seal_hex E nonce content (message_aad E session seq) (chat_dek E master) = Inr sealed"
  let ?m = "\<lparr>m_session = session, m_seq = seq, m_role = role, m_sealed = sealed, m_created_at = now\<rparr>"
  have inv': "chat_inv db'" unfolding db' using assms(2) own by (simp add: chat_inv_add_message owned_session)
  have m: "open_message E master ?m = Some \<lparr>row_seq = seq, row_role = role, row_content = content\<rparr>"
    using sealed_row_opens [OF assms(1,3,4), of ?m master] sealed by simp
  have tr: "transcript session db' = transcript session db @ [?m]"
    by (simp add: db' transcript_add_message seq)
  have "messages_after E user master session after db' =
      map_sum id (\<lambda>rows. rows @ (if after < seq then [\<lparr>row_seq = seq, row_role = role, row_content = content\<rparr>] else []))
        (messages_after E user master session after db)"
    using own m messages_after_transcript [OF inv', of user session] messages_after_transcript [OF assms(2), of user session]
    by (simp add: db' tr [unfolded db'] map_filter_append)
  moreover have "messages_after E user' master' other after db' = messages_after E user' master' other after db" if "other \<noteq> session"
    using that by (simp add: messages_after_def db' messages_add_other)
  ultimately show ?thesis using max_seq_numbered [OF assms(2)] by (auto simp: seq)
qed

text \<open>Making room never costs an answer.  When \<^verbatim>\<open>create_session\<close> succeeds, every session that disappeared belongs to the same
  user, owes no answer (no running, waiting or still resumable turn) and is no more recent than any other session of the user
  that could have gone instead; the transcripts of all remaining sessions are untouched; and the user ends with at most
  the cap of sessions, or with the new one beside those in debt.\<close>
theorem prune_spares_debts:
  assumes "chat_inv db" "new \<notin> s_id ` set (cd_sessions db)"
    and made: "chat_create_session E nonce new now user master title db = (Inr made, db')"
  shows "list_all (\<lambda>s. s \<in> set (cd_sessions db') \<and> transcript (s_id s) db' = transcript (s_id s) db \<or>
      s_user s = user \<and> \<not> in_debt db s \<and>
      list_all (\<lambda>s'. in_debt db s' \<or> s' \<notin> set (cd_sessions db') \<or> s_updated_at s \<le> s_updated_at s') (sessions_of user db))
      (cd_sessions db) \<and>
    length (sessions_of user db') \<le> max MAX_SESSIONS_PER_USER (1 + length (filter (in_debt db) (sessions_of user db)))"
proof -
  let ?p = "pruned user db"
  have linked: "linked db" using assms(1) by (simp add: chat_inv_def)
  from made obtain s where s: "cd_sessions db' = cd_sessions (prune_sessions user db) @ [s]" "s_user s = user" "s_id s = new"
    and rest: "cd_messages db' = cd_messages (prune_sessions user db)"
    by (auto simp: chat_create_session_def Let_def split: sum.splits if_splits)
  have kept: "x \<in> set (cd_sessions db') \<longleftrightarrow> x \<notin> set ?p" if "x \<in> set (cd_sessions db)" for x
  proof -
    from that assms(2) s(3) have "x \<noteq> s" by auto
    with that show ?thesis
      using pruned_by_id [OF linked that, of user] by (simp add: s(1) prune_pruned drop_sessions_def)
  qed
  have "transcript (s_id x) db' = transcript (s_id x) db" if "x \<in> set (cd_sessions db)" "x \<notin> set ?p" for x
    using that pruned_by_id [OF linked that(1), of user]
    using transcript_drop [of "\<lambda>i. i \<in> s_id ` set ?p" "s_id x" db] by (simp add: transcript_def rest prune_pruned)
  moreover have "s_user x = user \<and> \<not> in_debt db x" if "x \<in> set ?p" for x
    using that pruned_subset [of user db] by (auto simp: set_prunable)
  moreover have "s_updated_at x \<le> s_updated_at x'"
    if "x \<in> set ?p" "x' \<in> set (sessions_of user db)" "\<not> in_debt db x'" "x' \<in> set (cd_sessions db')" for x x'
    using that kept [of x'] pruned_oldest [of x user db x'] by (simp add: set_prunable sessions_of_def)
  ultimately have "list_all (\<lambda>s. s \<in> set (cd_sessions db') \<and> transcript (s_id s) db' = transcript (s_id s) db \<or>
      s_user s = user \<and> \<not> in_debt db s \<and>
      list_all (\<lambda>s'. in_debt db s' \<or> s' \<notin> set (cd_sessions db') \<or> s_updated_at s \<le> s_updated_at s') (sessions_of user db))
      (cd_sessions db)"
    unfolding list_all_iff using kept by metis
  moreover have "length (filter (in_debt db) (sessions_of user db)) + length (filter (\<lambda>s. \<not> in_debt db s) (sessions_of user db)) =
      length (sessions_of user db)"
    by (rule sum_length_filter_compl)
  then have "length (sessions_of user db') \<le> max MAX_SESSIONS_PER_USER (1 + length (filter (in_debt db) (sessions_of user db)))"
    using count_after_prune [OF linked, of user] length_pruned [of user db] s(2)
    by (simp add: sessions_of_def s(1) MAX_SESSIONS_PER_USER_def split: if_splits)
  ultimately show ?thesis by blast
qed

text \<open>C21.  Users do not see each other.  Whatever an operation on behalf of another user does, everything a user can read stays as it
  was: the list of sessions, the metadata, the messages and the running turn of every session, under every key.  And
  every operation on a session of someone else answers as for a session that does not exist, and changes nothing.\<close>
theorem chat_users_apart:
  assumes "chat_inv db" "actor op = Some a" "a \<noteq> user"
  shows "list_sessions E user master (chat_step E op db) = list_sessions E user master db \<and>
    messages_after E user master session after (chat_step E op db) = messages_after E user master session after db \<and>
    session_meta E user master session (chat_step E op db) = session_meta E user master session db \<and>
    running_turn user session (chat_step E op db) = running_turn user session db \<and>
    (owned user session db \<or>
      messages_after E user master session after db = Inl Chat_not_found \<and>
      session_meta E user master session db = Inl Chat_not_found \<and>
      running_turn user session db = None \<and>
      create_turn E nonce new now user master session message db = (Inl Chat_not_found, db) \<and>
      append_message E nonce now user master session role message db = (Inl Chat_not_found, db) \<and>
      chat_delete_session user session db = (Inl Chat_not_found, db) \<and>
      claim_resumable now user session turn db = (Inr False, db) \<and> claim_waiting now user session turn db = (Inr False, db))"
proof -
  have "view_of user (chat_step E op db) = view_of user db"
    using view_step assms unfolding chat_inv_def by blast
  note same = reads_by_view [OF this]
  have "claim_resumable now user session turn db = (Inr False, db)" "claim_waiting now user session turn db = (Inr False, db)"
    if "\<not> owned user session db"
    using that by (simp_all add: claim_resumable_def claim_waiting_def set_running_def update_where_none rows_affected_def)
  then show ?thesis
    using same by (auto simp: messages_after_def session_meta_def running_turn_def session_turns_def create_turn_def
        append_message_def chat_delete_session_def delete_blocked_def delete_owned_def owned_def)
qed

section \<open>Examples\<close>

definition demo_chat_env :: chat_env where
  "demo_chat_env = \<lparr>ce_prims = toy_prims, ce_uuid = show_nat\<rparr>"

lemma good_demo_chat_env: "good_chat_env demo_chat_env"
  by (simp add: good_chat_env_def demo_chat_env_def good_toy_prims)

lemma demo_seals: "\<exists>sealed. seal_hex demo_chat_env nonce plain aad (chat_dek demo_chat_env master) = Inr sealed"
  by (simp add: seal_hex_def seal_chat_def aead_seal_def demo_chat_env_def toy_prims_def chat_dek_def
      chat_keys_from_master_key_def derive_dek_from_def)

definition session_no :: "nat \<Rightarrow> session_rec" where
  "session_no i = \<lparr>s_id = i, s_user = 1, s_title = [], s_created_at = i, s_updated_at = i\<rparr>"

definition demo_chat :: "nat \<Rightarrow> chat_db" where
  "demo_chat n = (empty_chat [(1, str ''ann''), (2, str ''bob'')])\<lparr>cd_sessions := map session_no [0..<n]\<rparr>"

lemma demo_chat_inv: "chat_inv (demo_chat n)"
  by (simp add: demo_chat_def empty_chat_def chat_inv_def linked_def numbered_def open_turns_def session_no_def comp_def)

lemma demo_owned: "i < n \<Longrightarrow> owned 1 i (demo_chat n)"
  by (force simp: owned_iff demo_chat_def session_no_def)

theorem transcript_append_read_witness:
  "\<exists>db'. append_message demo_chat_env (replicate 12 0) 5 1 (MasterKey []) 0 Role_user (str ''hi'') (demo_chat 1) = (Inr 1, db') \<and>
     messages_after demo_chat_env 1 (MasterKey []) 0 0 db' = Inr [\<lparr>row_seq = 1, row_role = Role_user, row_content = str ''hi''\<rparr>]"
proof -
  let ?a = "append_message demo_chat_env (replicate 12 0) 5 1 (MasterKey []) 0 Role_user (str ''hi'') (demo_chat 1)"
  have m: "max_seq 0 (demo_chat 1) = 0" by (simp add: max_seq_def demo_chat_def empty_chat_def)
  obtain sealed where "seal_hex demo_chat_env (replicate 12 0) (str ''hi'') (message_aad demo_chat_env 0 1)
      (chat_dek demo_chat_env (MasterKey [])) = Inr sealed" using demo_seals by blast
  then have a: "?a = (Inr 1, snd ?a)" using demo_owned [of 0 1] m by (simp add: append_message_def del: str_Cons)
  have "messages_after demo_chat_env 1 (MasterKey []) 0 0 (demo_chat 1) = Inr []"
    using messages_after_transcript [OF demo_chat_inv, of 1 0 1 demo_chat_env "MasterKey []" 0] demo_owned [of 0 1]
    by (simp add: transcript_def demo_chat_def empty_chat_def)
  with transcript_append_read [OF good_demo_chat_env demo_chat_inv _ _ a, of 0] a show ?thesis
    by (auto simp: NONCE_LEN_def is_scalar_def)
qed

theorem prune_spares_debts_witness:
  "\<exists>db'. chat_create_session demo_chat_env (replicate 12 0) 100 200 1 (MasterKey []) (str ''new'') (demo_chat 100) = (Inr 100, db') \<and>
     length (sessions_of 1 db') \<le> 100"
proof -
  let ?c = "chat_create_session demo_chat_env (replicate 12 0) 100 200 1 (MasterKey []) (str ''new'') (demo_chat 100)"
  have new: "100 \<notin> s_id ` set (cd_sessions (demo_chat 100))" by (auto simp: demo_chat_def session_no_def)
  then have "100 \<notin> s_id ` set (cd_sessions (prune_sessions 1 (demo_chat 100)))"
    by (auto simp: prune_pruned drop_sessions_def)
  moreover obtain sealed where "seal_hex demo_chat_env (replicate 12 0) (str ''new'') (title_aad demo_chat_env 100)
      (chat_dek demo_chat_env (MasterKey [])) = Inr sealed" using demo_seals by blast
  ultimately have c: "?c = (Inr 100, snd ?c)"
    by (simp add: chat_create_session_def Let_def demo_chat_def empty_chat_def del: str_Cons)
  have "filter (in_debt (demo_chat 100)) (sessions_of 1 (demo_chat 100)) = []"
    by (simp add: in_debt_def demo_chat_def empty_chat_def)
  with prune_spares_debts [OF demo_chat_inv new c] have "length (sessions_of 1 (snd ?c)) \<le> 100"
    by (simp add: MAX_SESSIONS_PER_USER_def)
  with c show ?thesis by blast
qed

theorem chat_users_apart_witness:
  "list_sessions demo_chat_env 1 (MasterKey []) (chat_step demo_chat_env (Op_delete 2 0) (demo_chat 1)) =
     list_sessions demo_chat_env 1 (MasterKey []) (demo_chat 1) \<and>
   messages_after demo_chat_env 2 (MasterKey []) 0 0 (demo_chat 1) = Inl Chat_not_found"
proof -
  have "\<not> owned 2 0 (demo_chat 1)" by (simp add: owned_iff demo_chat_def session_no_def)
  then show ?thesis
    using chat_users_apart [OF demo_chat_inv, of "Op_delete 2 0" 2 1 demo_chat_env "MasterKey []" 1]
      chat_users_apart [OF demo_chat_inv, of "Op_delete 1 0" 1 2 demo_chat_env "MasterKey []" 1 0 0]
    by simp
qed

end
