(* ===== verification/Chat_Runner.thy ===== *)
theory Chat_Runner
  imports Chat_Store Queue_Worker
begin

text \<open>
  The detached chat runner, \<^verbatim>\<open>crates/mycelium-web/src/chat_runner.rs\<close>: the registry of live runs, the
  conversation rebuilt from a transcript, and a run as the list of its atomic steps over the chat tables and the registry, with
  the guard that acts when the task dies.  What the agent does, what the gate answers and what the
  health machine says are inputs of a run.
\<close>

section \<open>Events and registry\<close>

datatype sse_kind =
    Sse_session uuid
  | Sse_queued nat
  | Sse_admitted
  | Sse_tool rstring rstring
  | Sse_done rstring
  | Sse_assistant rstring
  | Sse_error rstring

record sse_event =
  se_kind :: sse_kind
  se_seq :: int

text \<open>
  A live entry is the sender of a broadcast channel; it is kept as the events sent on it so far.  A
  subscriber is a position in that list; removing the entry drops the sender, which closes the channel.
\<close>

type_synonym run_registry = "uuid \<rightharpoonup> sse_event list"

definition register :: "uuid \<Rightarrow> run_registry \<Rightarrow> run_registry" where
  "register turn runs = runs(turn \<mapsto> [])"

definition subscribe :: "uuid \<Rightarrow> run_registry \<Rightarrow> nat option" where
  "subscribe turn runs = map_option length (runs turn)"

definition unregister :: "uuid \<Rightarrow> run_registry \<Rightarrow> run_registry" where
  "unregister turn runs = runs(turn := None)"

definition contains :: "uuid \<Rightarrow> run_registry \<Rightarrow> bool" where
  "contains turn runs \<longleftrightarrow> runs turn \<noteq> None"

definition send_broadcast :: "uuid \<Rightarrow> sse_event \<Rightarrow> run_registry \<Rightarrow> run_registry" where
  "send_broadcast turn event runs = (case runs turn of Some sent \<Rightarrow> runs(turn \<mapsto> sent @ [event]) | None \<Rightarrow> runs)"

section \<open>History\<close>

definition MAX_HISTORY_PAIRS :: nat where "MAX_HISTORY_PAIRS = 20"

text \<open>The loop over the rows: the pairs found and the user's message that waits for a reply.\<close>

fun history_pairs ::
  "int \<Rightarrow> chat_message_row list \<Rightarrow> (rstring \<times> rstring) list \<Rightarrow> rstring option \<Rightarrow> (rstring \<times> rstring) list \<times> rstring option" where
  "history_pairs user_seq [] pairs pending = (pairs, pending)"
| "history_pairs user_seq (row # rows) pairs pending =
     (if user_seq < row_seq row then (pairs, pending)
      else case row_role row of
        Role_user \<Rightarrow> history_pairs user_seq rows pairs (Some (row_content row))
      | Role_assistant \<Rightarrow>
          (case pending of
             Some msg \<Rightarrow> history_pairs user_seq rows (pairs @ [(msg, row_content row)]) None
           | None \<Rightarrow> history_pairs user_seq rows pairs None)
      | _ \<Rightarrow> history_pairs user_seq rows pairs pending)"

definition conversation_of :: "(rstring \<times> rstring) list \<times> rstring option \<Rightarrow> conversation_turn list" where
  "conversation_of h = (case h of (pairs, pending) \<Rightarrow>
     concat (map (\<lambda>(msg, reply). [User_turn msg, Assistant_turn reply]) (drop (length pairs - MAX_HISTORY_PAIRS) pairs)) @
     (case pending of Some msg \<Rightarrow> [User_turn msg] | None \<Rightarrow> []))"

definition rebuild_history :: "chat_env \<Rightarrow> uuid \<Rightarrow> master_key \<Rightarrow> uuid \<Rightarrow> int \<Rightarrow> chat_db \<Rightarrow> chat_error + conversation_turn list" where
  "rebuild_history E user master session user_seq db =
     map_sum id (\<lambda>rows. conversation_of (history_pairs user_seq rows [] None)) (messages_after E user master session 0 db)"

section \<open>Runs\<close>

datatype agent_event = Ev_tool rstring rstring | Ev_done rstring | Ev_failed rstring

definition LLM_UNAVAILABLE :: rstring where
  "LLM_UNAVAILABLE = str ''the librarian is unavailable (no LLM backend reachable) '' @ [8212] @ str '' configure one in the admin portal''"

definition CHAT_CAPACITY_MSG :: rstring where
  "CHAT_CAPACITY_MSG = str ''LLM at capacity '' @ [8212] @ str '' turn not started (queue full)''"

definition llm_failure_detail :: "llm_error \<Rightarrow> backend_state \<Rightarrow> rstring" where
  "llm_failure_detail e backend = (if backend = Disabled then LLM_UNAVAILABLE else short_detail (show_llm_error e))"

text \<open>
  Who runs which turn, and what the run meets: the health state at admission and at its end, the queue positions and the
  answer of the gate, the events of the agent and its result.  \<open>ri_tool_json\<close> is the JSON text of a
  tool event (\<^verbatim>\<open>serde_json\<close>).
\<close>

record run_id =
  ri_user :: uuid
  ri_master :: master_key
  ri_session :: uuid
  ri_turn :: uuid
  ri_user_seq :: int
  ri_resumed :: bool
  ri_tool_json :: "rstring \<Rightarrow> rstring \<Rightarrow> rstring"

record run_fate =
  rf_health :: backend_state
  rf_positions :: "nat list"
  rf_admission :: "gate_error + unit"
  rf_events :: "agent_event list"
  rf_result :: "agent_error + rstring"
  rf_health_after :: backend_state

text \<open>
  The atomic steps of a runner.  \<open>A_start\<close> reads the history and plans the rest; \<open>A_persist\<close> appends a row and keeps its number with the event to send; \<open>A_broadcast\<close> sends
  what was kept, if a row was written; \<open>A_queue\<close> sends an event that has no row.  \<open>A_guard\<close> is the drop of the guard.
\<close>

datatype run_action =
    A_start run_fate
  | A_persist chat_role rstring sse_kind
  | A_broadcast
  | A_queue sse_kind
  | A_finalize chat_turn_status
  | A_park rstring
  | A_unregister
  | A_guard

fun event_row :: "run_id \<Rightarrow> agent_event \<Rightarrow> chat_role \<times> rstring \<times> sse_kind" where
  "event_row R (Ev_tool name detail) = (Role_tool, ri_tool_json R name detail, Sse_tool name detail)"
| "event_row R (Ev_done reply) = (Role_assistant, reply, Sse_done reply)"
| "event_row R (Ev_failed msg) = (Role_error, msg, Sse_error msg)"

definition emit_event :: "run_id \<Rightarrow> agent_event \<Rightarrow> run_action list" where
  "emit_event R ev = (case event_row R ev of (role, content, kind) \<Rightarrow> [A_persist role content kind, A_broadcast])"

definition finish_turn :: "chat_turn_status \<Rightarrow> rstring option \<Rightarrow> run_action list" where
  "finish_turn status error_row =
     (case error_row of Some message \<Rightarrow> [A_persist Role_error message (Sse_error message), A_broadcast] | None \<Rightarrow> []) @
     [A_finalize status, A_unregister]"

definition park_turn :: "rstring \<Rightarrow> run_action list" where
  "park_turn why = [A_park why, A_unregister]"

fun is_done_event :: "agent_event \<Rightarrow> bool" where
  "is_done_event (Ev_done _) = True"
| "is_done_event _ = False"

fun is_failed_event :: "agent_event \<Rightarrow> bool" where
  "is_failed_event (Ev_failed _) = True"
| "is_failed_event _ = False"

text \<open>After the agent: what its result makes of the turn.\<close>

definition after_run :: "run_id \<Rightarrow> run_fate \<Rightarrow> run_action list" where
  "after_run R F =
     (case rf_result F of
        Inr reply \<Rightarrow>
          (if list_ex is_done_event (rf_events F) then [] else emit_event R (Ev_done reply)) @ finish_turn Turn_done None
      | Inl (Agent_llm e) \<Rightarrow>
          if is_backend_down e \<and> rf_health_after F \<noteq> Disabled then park_turn (short_detail (show_llm_error e))
          else finish_turn (if ri_resumed R then Turn_interrupted else Turn_failed) (Some (llm_failure_detail e (rf_health_after F)))
      | Inl e \<Rightarrow>
          finish_turn Turn_failed (if list_ex is_failed_event (rf_events F) then None else Some (show_agent_error e)))"

text \<open>\<^verbatim>\<open>run_chat_turn\<close>, for the history it read.\<close>

definition run_chat_turn :: "run_id \<Rightarrow> run_fate \<Rightarrow> chat_error + conversation_turn list \<Rightarrow> run_action list" where
  "run_chat_turn R F hist =
     (case hist of
        Inl e \<Rightarrow> finish_turn Turn_failed (Some (str ''the librarian could not read the session transcript''))
      | Inr h \<Rightarrow>
          if rf_health F = Red then park_turn (short_detail (str ''backend unhealthy at admission''))
          else map (\<lambda>p. A_queue (Sse_queued p)) (rf_positions F) @
            (case rf_admission F of
               Inl GateClosed \<Rightarrow> finish_turn Turn_interrupted None
             | Inl GateTimeout \<Rightarrow> finish_turn Turn_failed (Some CHAT_CAPACITY_MSG)
             | Inr _ \<Rightarrow>
                 (if rf_positions F \<noteq> [] then [A_queue Sse_admitted] else []) @
                 concat (map (emit_event R) (rf_events F)) @ after_run R F))"

section \<open>Executing the steps\<close>

record chat_world =
  cw_db :: chat_db
  cw_runs :: run_registry

text \<open>A task: the steps still to do and the event kept for the next broadcast.\<close>

record run_task =
  rt_id :: run_id
  rt_kept :: "sse_event option"
  rt_todo :: "run_action list"

text \<open>The clock and the nonce a step draws.\<close>

record step_draw =
  sd_now :: timestamp
  sd_nonce :: bytes

definition guard_status :: "run_id \<Rightarrow> chat_turn_status" where
  "guard_status R = (if ri_resumed R then Turn_interrupted else Turn_failed)"

text \<open>The drop of the guard: nothing when the entry is gone, otherwise the three calls; no broadcast follows its row.\<close>

definition guard_drop :: "run_id \<Rightarrow> run_registry \<Rightarrow> run_action list" where
  "guard_drop R runs =
     (if \<not> contains (ri_turn R) runs then []
      else [A_finalize (guard_status R),
        A_persist Role_error (str ''the librarian stopped unexpectedly'') (Sse_error (str ''the librarian stopped unexpectedly'')),
        A_unregister])"

fun run_action_step :: "chat_env \<Rightarrow> step_draw \<Rightarrow> run_id \<Rightarrow> run_action \<Rightarrow> sse_event option \<Rightarrow> chat_world \<Rightarrow>
    sse_event option \<times> run_action list \<times> chat_world" where
  "run_action_step E d R (A_start F) kept w =
     (None, run_chat_turn R F (rebuild_history E (ri_user R) (ri_master R) (ri_session R) (ri_user_seq R) (cw_db w)), w)"
| "run_action_step E d R (A_persist role content kind) kept w =
     (case append_message E (sd_nonce d) (sd_now d) (ri_user R) (ri_master R) (ri_session R) role content (cw_db w) of
        (Inr seq, db) \<Rightarrow> (Some \<lparr>se_kind = kind, se_seq = seq\<rparr>, [], w\<lparr>cw_db := db\<rparr>)
      | (Inl e, db) \<Rightarrow> (None, [], w\<lparr>cw_db := db\<rparr>))"
| "run_action_step E d R A_broadcast kept w =
     (None, [], case kept of Some ev \<Rightarrow> w\<lparr>cw_runs := send_broadcast (ri_turn R) ev (cw_runs w)\<rparr> | None \<Rightarrow> w)"
| "run_action_step E d R (A_queue kind) kept w =
     (None, [], w\<lparr>cw_runs := send_broadcast (ri_turn R) \<lparr>se_kind = kind, se_seq = 0\<rparr> (cw_runs w)\<rparr>)"
| "run_action_step E d R (A_finalize status) kept w =
     (None, [], w\<lparr>cw_db := snd (finalize_turn (sd_now d) (ri_user R) (ri_turn R) status (cw_db w))\<rparr>)"
| "run_action_step E d R (A_park why) kept w =
     (None, [], w\<lparr>cw_db := snd (park_waiting (sd_now d) (ri_user R) (ri_turn R) (Some why) (cw_db w))\<rparr>)"
| "run_action_step E d R A_unregister kept w = (None, [], w\<lparr>cw_runs := unregister (ri_turn R) (cw_runs w)\<rparr>)"
| "run_action_step E d R A_guard kept w = (None, guard_drop R (cw_runs w), w)"

fun task_turn :: "chat_env \<Rightarrow> step_draw \<Rightarrow> run_task \<Rightarrow> chat_world \<Rightarrow> run_task \<times> chat_world" where
  "task_turn E d t w =
     (case rt_todo t of
        [] \<Rightarrow> (t, w)
      | a # rest \<Rightarrow>
          (case run_action_step E d (rt_id t) a (rt_kept t) w of
             (kept, plan, w') \<Rightarrow> (t\<lparr>rt_kept := kept, rt_todo := plan @ rest\<rparr>, w')))"

text \<open>\<^verbatim>\<open>spawn_chat_run\<close>: the entry first, then the task, whose guard is dropped at its end.\<close>

definition spawn_chat_run :: "run_id \<Rightarrow> run_fate \<Rightarrow> chat_world \<Rightarrow> run_task \<times> chat_world" where
  "spawn_chat_run R F w =
     (\<lparr>rt_id = R, rt_kept = None, rt_todo = [A_start F, A_guard]\<rparr>,
      w\<lparr>cw_runs := register (ri_turn R) (cw_runs w)\<rparr>)"

text \<open>A task that panics or is aborted does nothing more but drop its guard.\<close>

definition task_dies :: "run_task \<Rightarrow> run_task" where
  "task_dies t = t\<lparr>rt_kept := None, rt_todo := [A_guard]\<rparr>"

text \<open>A task alone, with one draw for every step.\<close>

fun run_task_alone :: "chat_env \<Rightarrow> step_draw list \<Rightarrow> run_task \<Rightarrow> chat_world \<Rightarrow> run_task \<times> chat_world" where
  "run_task_alone E [] t w = (t, w)"
| "run_task_alone E (d # ds) t w = (case task_turn E d t w of (t', w') \<Rightarrow> run_task_alone E ds t' w')"

section \<open>A run winds up\<close>

definition is_running :: "uuid \<Rightarrow> chat_db \<Rightarrow> bool" where
  "is_running turn db \<longleftrightarrow> list_ex (\<lambda>t. t_id t = turn \<and> t_status t = Turn_running) (cd_turns db)"

text \<open>The turn of a run is one of its user's.\<close>

definition turn_owned :: "run_id \<Rightarrow> chat_db \<Rightarrow> bool" where
  "turn_owned R db \<longleftrightarrow> (\<forall>t \<in> set (cd_turns db). t_id t = ri_turn R \<longrightarrow> owned (ri_user R) (t_session t) db)"

text \<open>The entry is removed only after the turn was told to stop; \<open>stopped\<close> says that this has happened.\<close>

fun safe_script :: "bool \<Rightarrow> run_action list \<Rightarrow> bool" where
  "safe_script stopped [] = True"
| "safe_script stopped (A_start F # rest) = (rest = [A_guard])"
| "safe_script stopped (A_guard # rest) = (rest = [])"
| "safe_script stopped (A_finalize status # rest) = (status \<noteq> Turn_running \<and> safe_script True rest)"
| "safe_script stopped (A_park why # rest) = safe_script True rest"
| "safe_script stopped (A_unregister # rest) = (stopped \<and> safe_script stopped rest)"
| "safe_script stopped (A_persist role content kind # rest) = safe_script stopped rest"
| "safe_script stopped (A_broadcast # rest) = safe_script stopped rest"
| "safe_script stopped (A_queue kind # rest) = safe_script stopped rest"

fun quiet :: "run_action \<Rightarrow> bool" where
  "quiet (A_persist role content kind) = True"
| "quiet A_broadcast = True"
| "quiet (A_queue kind) = True"
| "quiet _ = False"

lemma safe_script_quiet: "list_all quiet xs \<Longrightarrow> safe_script b (xs @ ys) = safe_script b ys"
proof (induction xs)
  case (Cons a xs)
  then show ?case by (cases a) auto
qed simp

lemma quiet_emit: "list_all quiet (emit_event R ev)"
  by (simp add: emit_event_def split: prod.split)

lemma quiet_emits: "list_all quiet (concat (map (emit_event R) evs))"
  by (induction evs) (simp_all add: quiet_emit)

text \<open>Every plan is quiet steps, one that stops the turn, and the removal of the entry.\<close>

lemma finish_shape: "\<exists>xs. finish_turn status row = xs @ [A_finalize status, A_unregister] \<and> list_all quiet xs \<and> length xs \<le> 2"
  by (cases row) (auto simp: finish_turn_def)

definition stops :: "run_action \<Rightarrow> bool" where
  "stops a \<longleftrightarrow> (case a of A_finalize s \<Rightarrow> s \<noteq> Turn_running | A_park _ \<Rightarrow> True | _ \<Rightarrow> False)"

definition winds_up :: "nat \<Rightarrow> run_action list \<Rightarrow> bool" where
  "winds_up n acts \<longleftrightarrow> (\<exists>xs a. acts = xs @ [a, A_unregister] \<and> list_all quiet xs \<and> stops a \<and> length xs \<le> n)"

lemma winds_up_quiet: "winds_up n acts \<Longrightarrow> list_all quiet xs \<Longrightarrow> length xs + n \<le> m \<Longrightarrow> winds_up m (xs @ acts)"
  unfolding winds_up_def by (metis append_assoc length_append list_all_append add_le_mono le_refl le_trans)

lemma winds_up_finish: "status \<noteq> Turn_running \<Longrightarrow> winds_up 2 (finish_turn status row)"
  using finish_shape [of status row] unfolding winds_up_def stops_def by fastforce

lemma winds_up_park: "winds_up 2 (park_turn why)"
  unfolding winds_up_def park_turn_def stops_def by (intro exI [of _ "[]"] exI [of _ "A_park why"]) simp

lemma winds_up_after: "winds_up 4 (after_run R F)"
proof -
  have weaken: "winds_up 2 acts \<Longrightarrow> winds_up 4 acts" for acts using winds_up_quiet [of 2 acts "[]" 4] by simp
  have "length (emit_event R ev) = 2" for ev by (simp add: emit_event_def split: prod.split)
  then have "winds_up 4 (emit_event R ev @ finish_turn Turn_done None)" for ev
    by (intro winds_up_quiet [of 2]) (simp_all add: winds_up_finish quiet_emit)
  then show ?thesis
    by (auto simp: after_run_def weaken winds_up_finish winds_up_park split: sum.split agent_error.split)
qed

definition run_bound :: "run_fate \<Rightarrow> nat" where
  "run_bound F = length (rf_positions F) + 2 * length (rf_events F) + 12"

lemma winds_up_run: "winds_up (length (rf_positions F) + 2 * length (rf_events F) + 5) (run_chat_turn R F h)"
proof -
  let ?n = "length (rf_positions F) + 2 * length (rf_events F) + 5" and ?q = "map (\<lambda>p. A_queue (Sse_queued p)) (rf_positions F)"
  have q: "list_all quiet ?q" by (simp add: list_all_iff)
  have weaken: "winds_up 2 acts \<Longrightarrow> winds_up ?n acts" for acts using winds_up_quiet [of 2 acts "[]" ?n] by simp
  have len: "length (concat (map (emit_event R) evs)) = 2 * length evs" for evs
    by (induction evs) (simp_all add: emit_event_def split: prod.split)
  have "winds_up ?n (?q @ finish_turn s row)" if "s \<noteq> Turn_running" for s row
    by (rule winds_up_quiet [OF winds_up_finish [OF that] q]) simp
  moreover have "winds_up ?n (?q @ (if rf_positions F \<noteq> [] then [A_queue Sse_admitted] else []) @ concat (map (emit_event R) (rf_events F)) @ after_run R F)"
    using winds_up_quiet [OF winds_up_after, of "?q @ (if rf_positions F \<noteq> [] then [A_queue Sse_admitted] else []) @ concat (map (emit_event R) (rf_events F))" ?n R F]
      q quiet_emits [of R "rf_events F"] by (simp add: len)
  ultimately show ?thesis
    by (auto simp: run_chat_turn_def weaken winds_up_finish winds_up_park split: sum.split gate_error.split)
qed

lemma winds_up_safe: "winds_up n acts \<Longrightarrow> safe_script b (acts @ [A_guard])"
proof -
  assume "winds_up n acts"
  then obtain xs a where "acts = xs @ [a, A_unregister]" "list_all quiet xs" "stops a" unfolding winds_up_def by blast
  then show ?thesis by (cases a) (simp_all add: safe_script_quiet stops_def)
qed

lemma safe_guard_drop: "safe_script b (guard_drop R runs)"
  by (simp add: guard_drop_def guard_status_def)

text \<open>What holds of a task and the world between any two of its steps.\<close>

definition task_inv :: "run_task \<Rightarrow> chat_world \<Rightarrow> bool" where
  "task_inv t w \<longleftrightarrow> chat_inv (cw_db w) \<and> turn_owned (rt_id t) (cw_db w) \<and>
     (contains (ri_turn (rt_id t)) (cw_runs w) \<or> \<not> is_running (ri_turn (rt_id t)) (cw_db w)) \<and>
     (rt_todo t = [] \<longrightarrow> \<not> contains (ri_turn (rt_id t)) (cw_runs w)) \<and>
     (rt_todo t \<noteq> [] \<longrightarrow> last (rt_todo t) \<in> {A_guard, A_unregister}) \<and>
     (\<exists>stopped. safe_script stopped (rt_todo t) \<and> (stopped \<longrightarrow> \<not> is_running (ri_turn (rt_id t)) (cw_db w)))"

lemma stop_turn:
  assumes inv: "chat_inv db" "turn_owned R db"
    and u: "\<And>t. t_id (u t) = t_id t \<and> t_session (u t) = t_session t \<and> t_user_seq (u t) = t_user_seq t \<and>
      t_attempts (u t) = t_attempts t \<and> t_park_state (u t) = t_park_state t \<and> t_status (u t) \<noteq> Turn_running"
  shows "chat_inv (snd (leave_running (ri_user R) (ri_turn R) u db)) \<and> turn_owned R (snd (leave_running (ri_user R) (ri_turn R) u db)) \<and>
    \<not> is_running (ri_turn R) (snd (leave_running (ri_user R) (ri_turn R) u db))"
proof -
  let ?p = "\<lambda>t. turn_of (ri_user R) (ri_turn R) db t \<and> t_status t = Turn_running"
  let ?db = "snd (leave_running (ri_user R) (ri_turn R) u db)"
  have "?db = db\<lparr>cd_turns := update_where ?p u (cd_turns db)\<rparr> \<or> ?db = db \<and> (\<forall>t \<in> set (cd_turns db). \<not> turn_of (ri_user R) (ri_turn R) db t)"
    by (simp add: leave_running_def Let_def)
  then show ?thesis
  proof
    assume db: "?db = db\<lparr>cd_turns := update_where ?p u (cd_turns db)\<rparr>"
    have "t_id t = ri_turn R \<longrightarrow> t_status t \<noteq> Turn_running \<and> owned (ri_user R) (t_session t) db"
      if "t \<in> set (update_where ?p u (cd_turns db))" for t
    proof -
      from update_where_origin [OF that] obtain t0 where "t0 \<in> set (cd_turns db)" "t = (if ?p t0 then u t0 else t0)" by (rule bexE)
      then show ?thesis using inv(2) u by (auto simp: turn_owned_def turn_of_def)
    qed
    then have "\<not> is_running (ri_turn R) ?db" "turn_owned R ?db"
      by (auto simp: db is_running_def list_ex_iff turn_owned_def owned_def)
    then show ?thesis using chat_inv_leave_running [OF inv(1), of u "ri_user R" "ri_turn R"] u by blast
  next
    assume db: "?db = db \<and> (\<forall>t \<in> set (cd_turns db). \<not> turn_of (ri_user R) (ri_turn R) db t)"
    then have "\<not> is_running (ri_turn R) db"
      using inv(2) by (auto simp: is_running_def list_ex_iff turn_owned_def turn_of_def)
    then show ?thesis using db inv by simp
  qed
qed

lemma append_message_db:
  assumes "chat_inv db"
  shows "chat_inv (snd (append_message E nonce now user master session role content db))"
    and "cd_turns (snd (append_message E nonce now user master session role content db)) = cd_turns db"
    and "owned u i (snd (append_message E nonce now user master session role content db)) = owned u i db"
proof -
  show "chat_inv (snd (append_message E nonce now user master session role content db))"
    using chat_inv_step [OF assms, of E "Op_append nonce now user master session role content"] by simp
qed (auto simp: append_message_def Let_def split: sum.split)

lemma task_inv_frame:
  assumes "task_inv t w" "rt_todo t = a # rest" "rt_id t' = rt_id t" "rt_todo t' = rest" "quiet a"
    and "chat_inv (cw_db w')" "cd_turns (cw_db w') = cd_turns (cw_db w)" "\<And>u i. owned u i (cw_db w') = owned u i (cw_db w)"
    and "contains (ri_turn (rt_id t)) (cw_runs w') = contains (ri_turn (rt_id t)) (cw_runs w)"
  shows "task_inv t' w'"
proof -
  have "rest \<noteq> []" using assms(1,2,5) by (cases a) (auto simp: task_inv_def)
  moreover have "safe_script b (a # rest) = safe_script b rest" for b using assms(5) by (cases a) simp_all
  ultimately show ?thesis using assms by (simp add: task_inv_def turn_owned_def is_running_def)
qed

lemma contains_send [simp]: "contains i (send_broadcast turn ev runs) = contains i runs"
  by (auto simp: contains_def send_broadcast_def split: option.split)

lemma task_inv_stop:
  assumes "task_inv t w" "rt_todo t = a # rest" "rt_id t' = rt_id t" "rt_todo t' = rest" "stops a"
    and "chat_inv (cw_db w') \<and> turn_owned (rt_id t) (cw_db w') \<and> \<not> is_running (ri_turn (rt_id t)) (cw_db w')"
    and "cw_runs w' = cw_runs w"
  shows "task_inv t' w'"
proof -
  have "rest \<noteq> []" using assms(1,2,5) by (cases a) (auto simp: task_inv_def stops_def)
  moreover have "safe_script b (a # rest) \<Longrightarrow> safe_script True rest" for b using assms(5) by (cases a) (simp_all add: stops_def)
  ultimately show ?thesis using assms by (auto simp: task_inv_def)
qed

lemma task_turn_inv:
  assumes inv: "task_inv t w"
  shows "task_inv (fst (task_turn E d t w)) (snd (task_turn E d t w))"
proof (cases "rt_todo t")
  case Nil
  then show ?thesis using inv by simp
next
  case (Cons a rest)
  let ?R = "rt_id t"
  have c: "chat_inv (cw_db w)" "turn_owned ?R (cw_db w)" using inv by (simp_all add: task_inv_def)
  obtain b where b: "safe_script b (a # rest)" "b \<longrightarrow> \<not> is_running (ri_turn ?R) (cw_db w)"
    using inv Cons by (auto simp: task_inv_def)
  show ?thesis
  proof (cases a)
    case (A_start F)
    let ?script = "run_chat_turn ?R F (rebuild_history E (ri_user ?R) (ri_master ?R) (ri_session ?R) (ri_user_seq ?R) (cw_db w))"
    have "rest = [A_guard]" using b A_start by simp
    then show ?thesis using inv winds_up_safe [OF winds_up_run, of False ?R F] Cons A_start by (auto simp: task_inv_def)
  next
    case (A_persist role content kind)
    let ?app = "append_message E (sd_nonce d) (sd_now d) (ri_user ?R) (ri_master ?R) (ri_session ?R) role content (cw_db w)"
    have "snd (task_turn E d t w) = w\<lparr>cw_db := snd ?app\<rparr> \<and> rt_id (fst (task_turn E d t w)) = ?R \<and> rt_todo (fst (task_turn E d t w)) = rest"
      using Cons A_persist by (cases ?app; cases "fst ?app") simp_all
    then show ?thesis
      by (intro task_inv_frame [OF inv Cons]) (simp_all add: A_persist append_message_db [OF c(1)])
  next
    case A_broadcast
    then show ?thesis
      by (intro task_inv_frame [OF inv Cons]) (simp_all add: Cons c split: option.split)
  next
    case (A_queue kind)
    then show ?thesis by (intro task_inv_frame [OF inv Cons]) (simp_all add: Cons c)
  next
    case (A_finalize status)
    then show ?thesis
      using b(1) by (intro task_inv_stop [OF inv Cons]) (simp_all add: Cons stops_def finalize_turn_def stop_turn [OF c])
  next
    case (A_park why)
    then show ?thesis
      by (intro task_inv_stop [OF inv Cons]) (simp_all add: Cons stops_def park_waiting_def stop_turn [OF c])
  next
    case A_unregister
    then have "safe_script True rest" "\<not> is_running (ri_turn ?R) (cw_db w)" using b by (cases b; simp)+
    then show ?thesis using inv Cons A_unregister by (auto simp: task_inv_def contains_def unregister_def)
  next
    case A_guard
    then have "rest = []" using b by simp
    then show ?thesis using inv safe_guard_drop Cons A_guard by (auto simp: task_inv_def guard_drop_def guard_status_def)
  qed
qed

lemma run_task_alone_inv: "task_inv t w \<Longrightarrow> task_inv (fst (run_task_alone E ds t w)) (snd (run_task_alone E ds t w))"
proof (induction ds arbitrary: t w)
  case (Cons d ds)
  from task_turn_inv [OF Cons.prems, of E d] Cons.IH show ?case by (simp split: prod.split) (metis fst_conv snd_conv)
qed simp

text \<open>The number of steps a task can still take.\<close>

fun action_cost :: "run_action \<Rightarrow> nat" where
  "action_cost (A_start F) = length (rf_positions F) + 2 * length (rf_events F) + 8"
| "action_cost A_guard = 4"
| "action_cost _ = 1"

definition steps_left :: "run_action list \<Rightarrow> nat" where
  "steps_left acts = sum_list (map action_cost acts)"

lemma steps_left_simps [simp]:
  "steps_left [] = 0" "steps_left (a # acts) = action_cost a + steps_left acts" "steps_left (xs @ ys) = steps_left xs + steps_left ys"
  by (simp_all add: steps_left_def)

lemma steps_left_quiet: "list_all quiet xs \<Longrightarrow> steps_left xs = length xs"
proof (induction xs)
  case (Cons a xs)
  then show ?case by (cases a) auto
qed simp

lemma winds_up_steps: "winds_up n acts \<Longrightarrow> steps_left acts \<le> n + 2"
proof -
  assume "winds_up n acts"
  then obtain xs a where "acts = xs @ [a, A_unregister]" "list_all quiet xs" "stops a" "length xs \<le> n" unfolding winds_up_def by blast
  then show ?thesis by (cases a) (simp_all add: steps_left_quiet stops_def)
qed

lemma task_turn_steps:
  "rt_todo t \<noteq> [] \<Longrightarrow> steps_left (rt_todo (fst (task_turn E d t w))) < steps_left (rt_todo t)"
proof (cases "rt_todo t")
  case (Cons a rest)
  show ?thesis
  proof (cases a)
    case (A_start F)
    let ?hist = "rebuild_history E (ri_user (rt_id t)) (ri_master (rt_id t)) (ri_session (rt_id t)) (ri_user_seq (rt_id t)) (cw_db w)"
    show ?thesis using Cons A_start winds_up_steps [OF winds_up_run [of F "rt_id t" ?hist]] by simp
  next
    case (A_persist role content kind)
    then show ?thesis using Cons by (simp split: prod.split sum.split)
  qed (use Cons in \<open>simp_all add: guard_drop_def\<close>)
qed simp

lemma run_task_alone_steps: "steps_left (rt_todo (fst (run_task_alone E ds t w))) \<le> steps_left (rt_todo t)"
proof (induction ds arbitrary: t w)
  case (Cons d ds)
  have "steps_left (rt_todo (fst (task_turn E d t w))) \<le> steps_left (rt_todo t)"
    using task_turn_steps [of t E d w] by (cases "rt_todo t") auto
  with Cons.IH [of "fst (task_turn E d t w)" "snd (task_turn E d t w)"] show ?case
    by (simp del: task_turn.simps split: prod.split) (metis fst_conv snd_conv le_trans)
qed simp

lemma run_task_alone_ends: "steps_left (rt_todo t) \<le> length ds \<Longrightarrow> rt_todo (fst (run_task_alone E ds t w)) = []"
proof (induction ds arbitrary: t w)
  case Nil
  then show ?case by (cases "rt_todo t"; cases "hd (rt_todo t)") auto
next
  case (Cons d ds)
  have "steps_left (rt_todo (fst (task_turn E d t w))) \<le> length ds"
  proof (cases "rt_todo t")
    case Nil
    then show ?thesis by simp
  next
    case (Cons a rest)
    then show ?thesis using task_turn_steps [of t E d w] Cons.prems by simp
  qed
  with Cons.IH show ?case by (simp split: prod.split) (metis fst_conv)
qed

lemma task_id [simp]: "rt_id (fst (task_turn E d t w)) = rt_id t"
  by (cases "rt_todo t"; cases "hd (rt_todo t)") (auto split: prod.split)

lemma run_task_alone_id [simp]: "rt_id (fst (run_task_alone E ds t w)) = rt_id t"
proof (induction ds arbitrary: t w)
  case (Cons d ds)
  then show ?case using task_id [of E d t w] by (simp split: prod.split) (metis fst_conv)
qed simp

lemma task_inv_dies: "task_inv t w \<Longrightarrow> task_inv (task_dies t) w"
  by (auto simp: task_inv_def task_dies_def)

lemma spawn_inv:
  assumes "chat_inv (cw_db w)" "turn_owned R (cw_db w)"
  shows "task_inv (fst (spawn_chat_run R F w)) (snd (spawn_chat_run R F w))"
  using assms by (auto simp: task_inv_def spawn_chat_run_def contains_def register_def)


section \<open>The conversation given to the model\<close>

text \<open>The specification: of the user and assistant rows up to the trigger, the neighbours user-then-assistant.\<close>

definition spoken :: "int \<Rightarrow> chat_message_row list \<Rightarrow> chat_message_row list" where
  "spoken user_seq rows = filter (\<lambda>r. row_seq r \<le> user_seq \<and> row_role r \<in> {Role_user, Role_assistant}) rows"

definition answered :: "chat_message_row list \<Rightarrow> (rstring \<times> rstring) list" where
  "answered rows = map (\<lambda>(a, b). (row_content a, row_content b))
     (filter (\<lambda>(a, b). row_role a = Role_user \<and> row_role b = Role_assistant) (zip rows (tl rows)))"

definition unanswered :: "chat_message_row list \<Rightarrow> rstring option" where
  "unanswered rows = (if rows \<noteq> [] \<and> row_role (last rows) = Role_user then Some (row_content (last rows)) else None)"

definition pending_row :: "rstring option \<Rightarrow> chat_message_row" where
  "pending_row pending = (case pending of Some m \<Rightarrow> \<lparr>row_seq = 0, row_role = Role_user, row_content = m\<rparr>
     | None \<Rightarrow> \<lparr>row_seq = 0, row_role = Role_assistant, row_content = []\<rparr>)"

lemma answered_Cons2:
  "answered (a # b # rows) = (if row_role a = Role_user \<and> row_role b = Role_assistant then [(row_content a, row_content b)] else []) @
     answered (b # rows)"
  by (simp add: answered_def)

lemma answered_head:
  "row_role a = row_role a' \<Longrightarrow> (row_role a = Role_user \<longrightarrow> row_content a = row_content a') \<Longrightarrow> answered (a # rows) = answered (a' # rows)"
  by (cases rows) (auto simp: answered_def)

lemma unanswered_Cons: "unanswered (a # rows) = (if rows = [] then (if row_role a = Role_user then Some (row_content a) else None) else unanswered rows)"
  by (simp add: unanswered_def)

lemma pending_row_sel:
  "row_role (pending_row p) = (if p = None then Role_assistant else Role_user)" "p = Some m \<Longrightarrow> row_content (pending_row p) = m"
  by (simp_all add: pending_row_def split: option.split)

lemma history_pairs_spoken:
  assumes "sorted (map row_seq rows)"
  shows "history_pairs user_seq rows pairs pending =
    (pairs @ answered (pending_row pending # spoken user_seq rows), unanswered (pending_row pending # spoken user_seq rows))"
  using assms
proof (induction rows arbitrary: pairs pending)
  case Nil
  then show ?case by (cases pending) (simp_all add: spoken_def answered_def unanswered_def pending_row_def)
next
  case (Cons r rows)
  show ?case
  proof (cases "user_seq < row_seq r")
    case True
    then have "spoken user_seq (r # rows) = []"
      using Cons.prems by (auto simp: spoken_def filter_empty_conv)
    then show ?thesis using True by (cases pending) (simp_all add: answered_def unanswered_def pending_row_def)
  next
    case False
    have sorted: "sorted (map row_seq rows)" using Cons.prems by simp
    note IH = Cons.IH [OF sorted]
    show ?thesis
    proof (cases "row_role r")
      case Role_user
      have "answered (r # xs) = answered (pending_row (Some (row_content r)) # xs)"
        and "unanswered (r # xs) = unanswered (pending_row (Some (row_content r)) # xs)" for xs
        using Role_user answered_head [of r "pending_row (Some (row_content r))" xs]
        by (simp_all add: pending_row_sel unanswered_Cons)
      then show ?thesis using False Role_user by (simp add: IH spoken_def answered_Cons2 unanswered_Cons [of "pending_row pending"])
    next
      case Role_assistant
      have "answered (r # xs) = answered (pending_row None # xs)" and "unanswered (r # xs) = unanswered (pending_row None # xs)" for xs
        using Role_assistant answered_head [of r "pending_row None" xs] by (simp_all add: pending_row_sel unanswered_Cons)
      then show ?thesis using False Role_assistant
        by (cases pending) (simp_all add: IH spoken_def answered_Cons2 unanswered_Cons [of "pending_row pending" for pending] pending_row_sel)
    qed (use False in \<open>simp_all add: IH spoken_def\<close>)
  qed
qed

lemma history_pairs_rows:
  assumes "sorted (map row_seq rows)"
  shows "history_pairs user_seq rows [] None = (answered (spoken user_seq rows), unanswered (spoken user_seq rows))"
proof -
  have "answered (pending_row None # xs) = answered xs" for xs
    by (cases xs) (simp_all add: answered_def pending_row_def)
  moreover have "unanswered (pending_row None # xs) = unanswered xs" for xs
    by (simp add: unanswered_Cons pending_row_sel) (simp add: unanswered_def)
  ultimately show ?thesis by (simp add: history_pairs_spoken [OF assms])
qed

lemma map_filter_seqs: "map row_seq (List.map_filter (open_message E master) ms) = map m_seq (filter (\<lambda>m. open_message E master m \<noteq> None) ms)"
  by (induction ms) (auto simp: open_message_def split: sum.splits)

lemma read_rows_sorted:
  assumes "chat_inv db" "messages_after E user master session after db = Inr rows"
  shows "sorted (map row_seq rows)" "distinct (map row_seq rows)"
proof -
  have own: "owned user session db" using assms(2) by (auto simp: messages_after_def split: if_splits)
  have rows: "rows = List.map_filter (open_message E master) (filter (\<lambda>m. after < m_seq m) (transcript session db))"
    using messages_after_transcript [OF assms(1) own] assms(2) by simp
  have seqs: "map m_seq (transcript session db) = map int [1..<Suc (length (transcript session db))]"
    using assms(1) unfolding chat_inv_def numbered_def transcript_def by blast
  have "sorted (map m_seq (transcript session db))" by (rule sorted_transcript [OF assms(1)])
  then show "sorted (map row_seq rows)" by (simp add: rows map_filter_seqs sorted_filter)
  have "distinct (map m_seq (transcript session db))" unfolding seqs by (simp add: distinct_map)
  then show "distinct (map row_seq rows)" by (simp add: rows map_filter_seqs distinct_map_filter)
qed

lemma last_spoken:
  assumes "sorted (map row_seq rows)" "distinct (map row_seq rows)" "r \<in> set rows" "row_seq r = user_seq" "row_role r = Role_user"
  shows "spoken user_seq rows \<noteq> [] \<and> last (spoken user_seq rows) = r"
proof -
  from assms(3) obtain xs ys where rows: "rows = xs @ r # ys" by (meson split_list)
  have "\<forall>y \<in> set ys. user_seq < row_seq y"
    using assms(1,2,4) by (force simp: rows sorted_append)
  then have "spoken user_seq ys = []" by (force simp: spoken_def filter_empty_conv)
  then show ?thesis using assms(4,5) by (simp add: rows spoken_def)
qed

lemma dialogue_shape:
  "length (concat (map (\<lambda>(m, r). [User_turn m, Assistant_turn r]) ps)) = 2 * length ps"
  "i < 2 * length ps \<Longrightarrow> is_user (concat (map (\<lambda>(m, r). [User_turn m, Assistant_turn r]) ps) ! i) \<longleftrightarrow> even i"
proof -
  show "length (concat (map (\<lambda>(m, r). [User_turn m, Assistant_turn r]) ps)) = 2 * length ps"
    by (induction ps) (auto split: prod.split)
  show "i < 2 * length ps \<Longrightarrow> is_user (concat (map (\<lambda>(m, r). [User_turn m, Assistant_turn r]) ps) ! i) \<longleftrightarrow> even i"
  proof (induction ps arbitrary: i)
    case (Cons p ps)
    then show ?case by (cases p; cases i; cases "i - 1") auto
  qed simp
qed

text \<open>C20.  The model sees the right conversation.  For a turn whose message can be read, the rebuilt history is the last twenty exchanges
  (a message of the user directly followed, among the spoken rows up to the turn, by a reply) and then the message itself; so it
  starts and ends with the user, the speakers alternate, and it has at most 41 entries.  Rows of tools and
  errors, and anything written after the message, are not in it.\<close>
theorem chat_history_rebuilt:
  fixes user_seq :: int and msg :: rstring
  assumes "chat_inv db" and rows: "messages_after E user master session 0 db = Inr rows"
    and trigger: "\<lparr>row_seq = user_seq, row_role = Role_user, row_content = msg\<rparr> \<in> set rows"
  defines "pairs \<equiv> answered (spoken user_seq rows)"
  defines "talk \<equiv> concat (map (\<lambda>(m, r). [User_turn m, Assistant_turn r]) (drop (length pairs - 20) pairs)) @ [User_turn msg]"
  shows "rebuild_history E user master session user_seq db = Inr talk \<and> length talk \<le> 41 \<and>
    list_all (\<lambda>i. is_user (talk ! i) = even i) [0..<length talk]"
proof -
  note s = read_rows_sorted [OF assms(1) rows]
  from last_spoken [OF s trigger] have "unanswered (spoken user_seq rows) = Some msg" by (simp add: unanswered_def)
  then have eq: "rebuild_history E user master session user_seq db = Inr talk"
    by (simp add: rebuild_history_def rows history_pairs_rows [OF s(1)] conversation_of_def talk_def pairs_def MAX_HISTORY_PAIRS_def)
  have len: "length talk = 2 * length (drop (length pairs - 20) pairs) + 1"
    by (simp add: talk_def dialogue_shape(1) del: length_drop)
  have "is_user (talk ! i) = even i" if i: "i < length talk" for i
  proof (cases "i < 2 * length (drop (length pairs - 20) pairs)")
    case True
    then show ?thesis using dialogue_shape(2) [OF True] by (simp add: talk_def nth_append dialogue_shape(1) del: length_drop)
  next
    case False
    then have "i = 2 * length (drop (length pairs - 20) pairs)" using i unfolding len by linarith
    then show ?thesis by (simp add: talk_def nth_append dialogue_shape(1) del: length_drop)
  qed
  moreover have "length talk \<le> 41" unfolding len by simp
  ultimately show ?thesis using eq by (simp add: list_all_iff)
qed

section \<open>The stream is a view of the transcript\<close>

fun has_row :: "sse_kind \<Rightarrow> bool" where
  "has_row (Sse_queued _) = False"
| "has_row Sse_admitted = False"
| "has_row _ = True"

definition with_rows :: "sse_event list \<Rightarrow> sse_event list" where
  "with_rows evs = filter (\<lambda>e. has_row (se_kind e)) evs"

text \<open>An event shows a row: same number, and role, sealed text and kind come from one agent event.\<close>

definition shows_row :: "chat_env \<Rightarrow> run_id \<Rightarrow> sse_event \<Rightarrow> message_rec \<Rightarrow> bool" where
  "shows_row E R e m \<longleftrightarrow> se_seq e = m_seq m \<and>
     (\<exists>ev nonce content. event_row R ev = (m_role m, content, se_kind e) \<and>
       seal_hex E nonce content (message_aad E (ri_session R) (m_seq m)) (chat_dek E (ri_master R)) = Inr (m_sealed m))"

text \<open>In a script every row comes from an agent event and is followed by its broadcast, or by the end.\<close>

fun shown_script :: "run_id \<Rightarrow> bool \<Rightarrow> run_action list \<Rightarrow> bool" where
  "shown_script R kept [] = True"
| "shown_script R kept (A_broadcast # rest) = shown_script R False rest"
| "shown_script R kept (A_unregister # rest) = shown_script R False rest"
| "shown_script R kept (A_persist role content kind # rest) =
     (\<not> kept \<and> (\<exists>ev. event_row R ev = (role, content, kind)) \<and> shown_script R True rest)"
| "shown_script R kept (A_queue kind # rest) = (\<not> kept \<and> \<not> has_row kind \<and> shown_script R False rest)"
| "shown_script R kept (A_start F # rest) = (\<not> kept \<and> rest = [A_guard])"
| "shown_script R kept (A_guard # rest) = (\<not> kept \<and> rest = [])"
| "shown_script R kept (_ # rest) = (\<not> kept \<and> shown_script R False rest)"

lemma event_row_kind [simp]: "event_row R ev = (role, content, kind) \<Longrightarrow> has_row kind"
  by (cases ev) auto

lemma shown_emit: "shown_script R False (emit_event R ev @ rest) = shown_script R False rest"
  by (auto simp: emit_event_def split: prod.split)

lemma shown_emits: "shown_script R False (concat (map (emit_event R) evs) @ rest) = shown_script R False rest"
  by (induction evs) (simp_all add: shown_emit)

lemma shown_finish: "shown_script R False (finish_turn status row @ [A_guard])"
  by (auto simp: finish_turn_def intro: exI [of _ "Ev_failed m" for m] split: option.split)

lemma shown_park: "shown_script R False (park_turn why @ [A_guard])"
  by (simp add: park_turn_def)

lemma shown_after: "shown_script R False (after_run R F @ [A_guard])"
  by (simp add: after_run_def shown_finish shown_park shown_emit split: sum.split agent_error.split)

lemma shown_queue: "shown_script R False (map (\<lambda>p. A_queue (Sse_queued p)) ps @ rest) = shown_script R False rest"
  by (induction ps) simp_all

lemma shown_run: "shown_script R False (run_chat_turn R F h @ [A_guard])"
  by (simp add: run_chat_turn_def shown_finish shown_park shown_after shown_emits shown_queue
      split: sum.split gate_error.split)

lemma shown_guard: "shown_script R False (guard_drop R runs)"
  by (auto simp: guard_drop_def intro: exI [of _ "Ev_failed m" for m])

definition mirrored :: "chat_env \<Rightarrow> message_rec list \<Rightarrow> run_task \<Rightarrow> chat_world \<Rightarrow> bool" where
  "mirrored E old t w \<longleftrightarrow> shown_script (rt_id t) (rt_kept t \<noteq> None) (rt_todo t) \<and>
     (\<forall>ev. rt_kept t = Some ev \<longrightarrow> has_row (se_kind ev)) \<and>
     (\<exists>new. transcript (ri_session (rt_id t)) (cw_db w) = old @ new \<and>
       (\<forall>sent. cw_runs w (ri_turn (rt_id t)) = Some sent \<longrightarrow>
         list_all2 (shows_row E (rt_id t)) (with_rows sent @ (case rt_kept t of Some ev \<Rightarrow> [ev] | None \<Rightarrow> [])) new))"

lemma with_rows_snoc: "with_rows (evs @ [e]) = with_rows evs @ (if has_row (se_kind e) then [e] else [])"
  by (simp add: with_rows_def)

lemma finalize_transcript [simp]:
  "transcript i (snd (finalize_turn now user turn status db)) = transcript i db"
  "transcript i (snd (park_waiting now user turn err db)) = transcript i db"
  by (simp_all add: transcript_def finalize_turn_def park_waiting_def leave_running_def Let_def)

lemma shown_weaken: "shown_script R True acts \<Longrightarrow> shown_script R False acts"
proof (cases acts)
  case (Cons a rest)
  then show "shown_script R True acts \<Longrightarrow> ?thesis" by (cases a) auto
qed simp

lemma mirrored_step:
  assumes m: "mirrored E old t w"
  shows "mirrored E old (fst (task_turn E d t w)) (snd (task_turn E d t w))"
proof (cases "rt_todo t")
  case Nil
  then show ?thesis using m by simp
next
  case (Cons a rest)
  let ?R = "rt_id t"
  from m obtain new where script: "shown_script ?R (rt_kept t \<noteq> None) (a # rest)"
    and kept: "\<And>ev. rt_kept t = Some ev \<Longrightarrow> has_row (se_kind ev)"
    and tr: "transcript (ri_session ?R) (cw_db w) = old @ new"
    and sent: "\<And>sent. cw_runs w (ri_turn ?R) = Some sent \<Longrightarrow>
      list_all2 (shows_row E ?R) (with_rows sent @ (case rt_kept t of Some ev \<Rightarrow> [ev] | None \<Rightarrow> [])) new"
    unfolding mirrored_def Cons by blast
  show ?thesis
  proof (cases a)
    case (A_start F)
    then show ?thesis using script tr sent Cons by (simp add: mirrored_def shown_run)
  next
    case (A_persist role content kind)
    let ?app = "append_message E (sd_nonce d) (sd_now d) (ri_user ?R) (ri_master ?R) (ri_session ?R) role content (cw_db w)"
    from script A_persist obtain ev where none: "rt_kept t = None" and ev: "event_row ?R ev = (role, content, kind)"
      and rest: "shown_script ?R True rest" by auto
    show ?thesis
    proof (cases "fst ?app")
      case (Inl e)
      then have "?app = (Inl e, cw_db w)" by (auto simp: append_message_def Let_def split: if_splits sum.splits)
      then show ?thesis using Cons A_persist tr sent none shown_weaken [OF rest] by (simp add: mirrored_def)
    next
      case (Inr seq)
      then have "?app = (Inr seq, snd ?app)" by (metis prod.collapse)
      then show ?thesis
      proof (rule append_message_Inr)
        fix sealed
        assume seq: "seq = max_seq (ri_session ?R) (cw_db w) + 1"
          and db: "snd ?app = add_message (sd_now d) (ri_user ?R) (ri_session ?R) role sealed (cw_db w)"
          and seal: "seal_hex E (sd_nonce d) content (message_aad E (ri_session ?R) seq) (chat_dek E (ri_master ?R)) = Inr sealed"
        let ?m = "\<lparr>m_session = ri_session ?R, m_seq = seq, m_role = role, m_sealed = sealed, m_created_at = sd_now d\<rparr>"
        have "shows_row E ?R \<lparr>se_kind = kind, se_seq = seq\<rparr> ?m" using ev seal by (auto simp: shows_row_def)
        moreover have "?app = (Inr seq, add_message (sd_now d) (ri_user ?R) (ri_session ?R) role sealed (cw_db w))"
          using Inr db by (metis prod.collapse)
        ultimately show ?thesis
          using Cons A_persist tr sent none rest ev
          by (auto simp: mirrored_def transcript_add_message seq intro!: list_all2_appendI)
      qed
    qed
  next
    case A_broadcast
    have "list_all2 (shows_row E ?R) (with_rows sent') new"
      if "cw_runs (snd (task_turn E d t w)) (ri_turn ?R) = Some sent'" for sent'
      using that Cons A_broadcast sent kept
      by (auto simp: send_broadcast_def with_rows_snoc split: option.splits)
    then show ?thesis using script Cons A_broadcast tr by (auto simp: mirrored_def split: option.splits)
  next
    case (A_queue kind)
    then show ?thesis using script Cons tr sent
      by (auto simp: mirrored_def send_broadcast_def with_rows_snoc split: option.splits)
  next
    case (A_finalize status)
    then show ?thesis using script Cons tr sent by (auto simp: mirrored_def)
  next
    case (A_park why)
    then show ?thesis using script Cons tr sent by (auto simp: mirrored_def)
  next
    case A_unregister
    then show ?thesis using script Cons tr by (auto simp: mirrored_def unregister_def)
  next
    case A_guard
    then show ?thesis using script Cons tr sent shown_guard by (auto simp: mirrored_def)
  qed
qed

lemma mirrored_alone: "mirrored E old t w \<Longrightarrow> mirrored E old (fst (run_task_alone E ds t w)) (snd (run_task_alone E ds t w))"
proof (induction ds arbitrary: t w)
  case (Cons d ds)
  from mirrored_step [OF Cons.prems, of d] Cons.IH show ?case
    by (simp del: task_turn.simps split: prod.split) (metis fst_conv snd_conv)
qed simp

text \<open>C19.  The transcript is never behind the stream.  After any number of steps of a run, while its channel is open: the events with a row
  that were sent are, in order and with the same numbers, the rows the run has written to the transcript, except that
  the last row may not have been sent yet; each shows the role and the text that were sealed into its row.\<close>
theorem stream_mirrors_transcript:
  defines "spawned R F w \<equiv> spawn_chat_run R F w"
  assumes steps: "run_task_alone E ds (fst (spawned R F w)) (snd (spawned R F w)) = (t, w')"
    and live: "cw_runs w' (ri_turn R) = Some sent"
  shows "\<exists>new unsent. transcript (ri_session R) (cw_db w') = transcript (ri_session R) (cw_db w) @ new @ unsent \<and>
    list_all2 (shows_row E R) (with_rows sent) new \<and> length unsent \<le> 1"
proof -
  have "mirrored E (transcript (ri_session R) (cw_db w)) (fst (spawned R F w)) (snd (spawned R F w))"
    by (simp add: mirrored_def spawned_def spawn_chat_run_def register_def with_rows_def)
  from mirrored_alone [OF this, of ds] steps have m: "mirrored E (transcript (ri_session R) (cw_db w)) t w'" by simp
  have id: "rt_id t = R"
    using run_task_alone_id [of E ds "fst (spawned R F w)" "snd (spawned R F w)"] steps
    by (metis fst_conv run_task.select_convs(1) spawn_chat_run_def spawned_def)
  from m live obtain new where new: "transcript (ri_session R) (cw_db w') = transcript (ri_session R) (cw_db w) @ new"
    "list_all2 (shows_row E R) (with_rows sent @ (case rt_kept t of Some ev \<Rightarrow> [ev] | None \<Rightarrow> [])) new"
    unfolding mirrored_def id by blast
  from new(2) obtain as bs where "new = as @ bs" "list_all2 (shows_row E R) (with_rows sent) as"
    "list_all2 (shows_row E R) (case rt_kept t of Some ev \<Rightarrow> [ev] | None \<Rightarrow> []) bs"
    by (auto simp: list_all2_append1)
  moreover from this(3) have "length bs \<le> 1" by (auto dest: list_all2_lengthD split: option.splits)
  ultimately show ?thesis using new(1) by auto
qed

section \<open>Races and repeats\<close>

text \<open>A turn that was parked for the backend has not spent its one resume: \<^verbatim>\<open>claim_waiting\<close> leaves \<^verbatim>\<open>attempts\<close> at 0.  When its
  resumed run then meets an error that is not weather, the run writes an error row and finalizes
  the turn as interrupted, and the next pass claims and runs it again.\<close>
lemma weather_resume_not_final:
  assumes "chat_inv db" "owned user session db" "row \<in> set (cd_turns db)" "t_id row = turn" "t_session row = session"
    "t_status row = Turn_waiting_backend" "t_attempts row = 0"
    and R: "ri_resumed R" and F: "rf_result F = Inl (Agent_llm (Status 400 body))"
  shows "after_run R F = finish_turn Turn_interrupted (Some (llm_failure_detail (Status 400 body) (rf_health_after F)))"
    and "fst (claim_resumable now user session turn
      (snd (finalize_turn now user turn Turn_interrupted (snd (claim_waiting now user session turn db))))) = Inr True"
proof -
  show "after_run R F = finish_turn Turn_interrupted (Some (llm_failure_detail (Status 400 body) (rf_health_after F)))"
    using R F by (simp add: after_run_def)
  let ?p = "\<lambda>t. t_id t = turn \<and> t_session t = session \<and> t_status t = Turn_waiting_backend \<and> owned user session db"
  let ?u = "\<lambda>t. t\<lparr>t_status := Turn_running, t_park_state := Turn_waiting_backend, t_updated_at := now\<rparr>"
  let ?row1 = "?u row" and ?db1 = "snd (claim_waiting now user session turn db)"
  have "\<not> (\<exists>t \<in> set (cd_turns db). ?p t \<and> running_in (t_session t) db)"
    using open_turns_eq [OF assms(1)] assms(3-6) by (fastforce simp: running_in_def open_turn_def)
  then have db1: "?db1 = db\<lparr>cd_turns := update_where ?p ?u (cd_turns db)\<rparr>" 
    unfolding claim_waiting_def set_running_def by (subst if_not_P) (assumption, simp)
  then have row1: "?row1 \<in> set (cd_turns ?db1)" using update_where_mem [OF assms(3), of ?p ?u] assms(2,4-6) by simp
  have own1: "owned user i ?db1 = owned user i db" for i by (simp add: db1 owned_def)
  let ?q = "\<lambda>t. turn_of user turn ?db1 t \<and> t_status t = Turn_running" and ?v = "\<lambda>t. t\<lparr>t_status := Turn_interrupted, t_updated_at := now\<rparr>"
  let ?db2 = "snd (finalize_turn now user turn Turn_interrupted ?db1)"
  have q: "?q ?row1" using assms(2,4,5) by (simp add: turn_of_def own1)
  then have db2: "?db2 = ?db1\<lparr>cd_turns := update_where ?q ?v (cd_turns ?db1)\<rparr>"
    using row1 by (auto simp: finalize_turn_def leave_running_def Let_def)
  then have row2: "?v ?row1 \<in> set (cd_turns ?db2)" using update_where_mem [OF row1, of ?q ?v] q by simp
  have inv2: "chat_inv ?db2"
    using chat_inv_step [OF chat_inv_step [OF assms(1), of undefined "Op_claim_waiting now user session turn"],
      of undefined "Op_finalize now user turn Turn_interrupted"] by simp
  have own2: "owned user session ?db2" using assms(2) by (simp add: db2 own1 [symmetric]) (simp add: owned_def)
  let ?r = "\<lambda>t. t_id t = turn \<and> t_session t = session \<and> t_status t = Turn_interrupted \<and> t_attempts t = 0 \<and> owned user session ?db2"
  have "?r (?v ?row1)" using assms(4,5,7) own2 by simp
  then have "\<exists>t \<in> set (cd_turns ?db2). ?r t" using row2 by (rule bexI)
  moreover have "fst (set_running ?r u ?db2) = Inr (\<exists>t \<in> set (cd_turns ?db2). ?r t)" for u
    by (rule set_running_never_fails [OF inv2]) (simp add: open_turn_def)
  ultimately show "fst (claim_resumable now user session turn ?db2) = Inr True"
    unfolding claim_resumable_def by (simp only:)
qed

text \<open>\<^verbatim>\<open>park_turn\<close> removes the entry of its turn by the turn's identifier after the park is visible.  A resume that claims the turn in
  between registers its own run under the same identifier; the first run then removes that
  entry, the second run's events reach nobody, and when the second run dies its guard finds no entry and leaves the turn running.\<close>
lemma parked_run_disarms_next:
  assumes first: "rt_id t1 = R1" "rt_todo t1 = [A_unregister, A_guard]" and same: "ri_turn R1 = ri_turn R2"
    and claimed: "is_running (ri_turn R2) (cw_db w)"
    and spawned: "spawn_chat_run R2 F w = (t2, w1)"
    and first_goes_on: "task_turn E d t1 w1 = (t1', w2)"
    and second_dies: "run_task_alone E ds (task_dies t2) w2 = (t2', w3)"
  shows "\<not> contains (ri_turn R2) (cw_runs w2) \<and> is_running (ri_turn R2) (cw_db w3)"
proof -
  have w2: "\<not> contains (ri_turn R2) (cw_runs w2)" "cw_db w2 = cw_db w"
    using first same spawned first_goes_on by (auto simp: spawn_chat_run_def contains_def unregister_def)
  have "rt_id t2 = R2" using spawned by (auto simp: spawn_chat_run_def)
  then have dead: "rt_todo (fst (task_turn E d' (task_dies t2) w2)) = [] \<and> snd (task_turn E d' (task_dies t2) w2) = w2" for d'
    using w2(1) by (simp add: task_dies_def guard_drop_def)
  have idle: "rt_todo t = [] \<Longrightarrow> run_task_alone E ds t w = (t, w)" for ds t w by (induction ds) simp_all
  have "w3 = w2"
  proof (cases ds)
    case (Cons d' ds')
    then have "run_task_alone E ds' (fst (task_turn E d' (task_dies t2) w2)) w2 = (t2', w3)"
      using second_dies dead [of d'] by (simp del: task_turn.simps split: prod.splits)
    then show ?thesis using dead [of d'] idle by simp
  next
    case Nil
    then show ?thesis using second_dies by simp
  qed
  then show ?thesis using w2 claimed by simp
qed

section \<open>Examples\<close>

definition demo_run_id :: run_id where
  "demo_run_id = \<lparr>ri_user = 1, ri_master = MasterKey [], ri_session = 0, ri_turn = 9, ri_user_seq = 1, ri_resumed = False,
     ri_tool_json = (\<lambda>name detail. name)\<rparr>"

definition demo_fate :: run_fate where
  "demo_fate = \<lparr>rf_health = Green, rf_positions = [], rf_admission = Inr (), rf_events = [Ev_done (str ''yes'')],
     rf_result = Inr (str ''yes''), rf_health_after = Green\<rparr>"

definition demo_draw :: step_draw where
  "demo_draw = \<lparr>sd_now = 6, sd_nonce = replicate 12 0\<rparr>"

definition demo_run_db :: chat_db where
  "demo_run_db = (demo_chat 1)\<lparr>
     cd_messages := [\<lparr>m_session = 0, m_seq = 1, m_role = Role_user, m_sealed = [], m_created_at = 5\<rparr>],
     cd_turns := [new_turn 9 5 0 1]\<rparr>"

definition demo_world :: chat_world where
  "demo_world = \<lparr>cw_db = demo_run_db, cw_runs = Map.empty\<rparr>"

lemma demo_run_inv: "chat_inv demo_run_db"
  by (simp add: demo_run_db_def demo_chat_def empty_chat_def chat_inv_def linked_def numbered_def open_turns_def turn_ok_def
      session_no_def new_turn_def)

lemma demo_turn_owned: "turn_owned demo_run_id demo_run_db"
  by (simp add: turn_owned_def demo_run_db_def demo_run_id_def new_turn_def owned_def demo_chat_def session_no_def)


theorem stream_mirrors_transcript_witness:
  "\<exists>t w' sent. run_task_alone demo_chat_env (replicate 3 demo_draw) (fst (spawn_chat_run demo_run_id demo_fate demo_world))
      (snd (spawn_chat_run demo_run_id demo_fate demo_world)) = (t, w') \<and>
    cw_runs w' 9 = Some sent \<and> length (with_rows sent) = 1 \<and> length (transcript 0 (cw_db w')) \<ge> 2"
proof -
  let ?s = "spawn_chat_run demo_run_id demo_fate demo_world"
  let ?e = "run_task_alone demo_chat_env (replicate 3 demo_draw) (fst ?s) (snd ?s)"
  obtain h where h: "rebuild_history demo_chat_env 1 (MasterKey []) 0 1 demo_run_db = Inr h"
    by (simp add: rebuild_history_def messages_after_def demo_run_db_def owned_def demo_chat_def session_no_def)
  have own: "owned 1 0 demo_run_db" by (simp add: demo_run_db_def owned_def demo_chat_def session_no_def)
  have n: "max_seq 0 demo_run_db = 1" by (simp add: max_seq_def demo_run_db_def)
  obtain sealed where "seal_hex demo_chat_env (replicate 12 0) (str ''yes'') (message_aad demo_chat_env 0 2)
      (chat_dek demo_chat_env (MasterKey [])) = Inr sealed" using demo_seals by blast
  then have app: "append_message demo_chat_env (replicate 12 0) 6 1 (MasterKey []) 0 Role_assistant (str ''yes'') demo_run_db =
      (Inr 2, add_message 6 1 0 Role_assistant sealed demo_run_db)"
    using own n by (simp add: append_message_def del: str_Cons)
  obtain w' where e: "?e = (fst ?e, w')" and sent: "cw_runs w' 9 = Some [\<lparr>se_kind = Sse_done (str ''yes''), se_seq = 2\<rparr>]"
    by (simp add: spawn_chat_run_def demo_world_def demo_run_id_def demo_fate_def demo_draw_def h run_chat_turn_def
        emit_event_def app numeral_3_eq_3 register_def send_broadcast_def del: str_Cons One_nat_def)
  from stream_mirrors_transcript [OF e, of "[\<lparr>se_kind = Sse_done (str ''yes''), se_seq = 2\<rparr>]"] sent
  obtain new unsent where tr: "transcript 0 (cw_db w') = transcript 0 demo_run_db @ new @ unsent"
    and "length new = 1"
    by (auto simp: demo_run_id_def demo_world_def with_rows_def dest: list_all2_lengthD)
  then have "length (transcript 0 (cw_db w')) \<ge> 2" by (simp add: transcript_def demo_run_db_def)
  moreover have "length (with_rows [\<lparr>se_kind = Sse_done (str ''yes''), se_seq = 2\<rparr>]) = 1" by (simp add: with_rows_def)
  ultimately show ?thesis using e sent by blast
qed

theorem chat_history_rebuilt_witness:
  "\<exists>db. rebuild_history demo_chat_env 1 (MasterKey []) 0 1 db = Inr [User_turn (str ''hi'')]"
proof -
  have n: "max_seq 0 (demo_chat 1) = 0" by (simp add: max_seq_def demo_chat_def empty_chat_def)
  obtain sealed where sealed: "seal_hex demo_chat_env (replicate 12 0) (str ''hi'') (message_aad demo_chat_env 0 1)
      (chat_dek demo_chat_env (MasterKey [])) = Inr sealed" using demo_seals by blast
  let ?m = "\<lparr>m_session = 0, m_seq = 1, m_role = Role_user, m_sealed = sealed, m_created_at = 5\<rparr>"
  let ?db = "add_message 5 1 0 Role_user sealed (demo_chat 1)"
  have inv: "chat_inv ?db" by (rule chat_inv_add_message [OF demo_chat_inv]) (simp add: demo_chat_def session_no_def)
  have own: "owned 1 0 ?db" using demo_owned [of 0 1] by simp
  have "open_message demo_chat_env (MasterKey []) ?m = Some \<lparr>row_seq = 1, row_role = Role_user, row_content = str ''hi''\<rparr>"
    using sealed_row_opens [OF good_demo_chat_env, of "replicate 12 0" "str ''hi''" ?m "MasterKey []"] sealed
    by (simp add: NONCE_LEN_def is_scalar_def)
  moreover have "transcript 0 ?db = [?m]"
    unfolding transcript_add_message n by (simp add: transcript_def demo_chat_def empty_chat_def)
  ultimately have rows: "messages_after demo_chat_env 1 (MasterKey []) 0 0 ?db =
      Inr [\<lparr>row_seq = 1, row_role = Role_user, row_content = str ''hi''\<rparr>]"
    using messages_after_transcript [OF inv own, of demo_chat_env "MasterKey []" 0] by simp
  from chat_history_rebuilt [OF inv rows, of 1 "str ''hi''"] show ?thesis
    by (intro exI [of _ ?db]) (simp add: spoken_def answered_def del: str_Cons)
qed

end
