(* ===== verification/Chat_Resume.thy ===== *)
theory Chat_Resume
  imports Chat_Runner
begin

text \<open>
  The chat resume worker, \<^verbatim>\<open>crates/mycelium-web/src/chat_resume.rs\<close>: one pass over the turns that are owed an answer.
  The health state, the key recovery, the user records and the gate's answers are inputs of the pass, and so is what other
  tasks do to the tables before each claim.  The 60 second ticker is not modelled.
\<close>

section \<open>A pass\<close>

record resume_env =
  rp_health :: backend_state
  rp_key :: "uuid \<Rightarrow> master_key option"
  rp_record :: "uuid \<Rightarrow> bool"
  rp_permit :: "uuid \<Rightarrow> bool"
  rp_between :: "uuid \<Rightarrow> chat_op list"
  rp_now :: timestamp
  rp_tool_json :: "rstring \<Rightarrow> rstring \<Rightarrow> rstring"

text \<open>Both supplies, oldest first; a stable sort, as \<^verbatim>\<open>sort_by\<close> is.\<close>

definition resume_supply :: "chat_db \<Rightarrow> (uuid \<times> chat_turn_row) list" where
  "resume_supply db = sort_key (\<lambda>(u, t). tr_created_at t) (resumable_turns db @ waiting_turns db)"

text \<open>The keys of the \<^verbatim>\<open>BTreeMap\<close>, and the turns of one key.\<close>

definition supply_users :: "(uuid \<times> chat_turn_row) list \<Rightarrow> uuid list" where
  "supply_users turns = sorted_list_of_set (set (map fst turns))"

definition turns_of_user :: "uuid \<Rightarrow> (uuid \<times> chat_turn_row) list \<Rightarrow> chat_turn_row list" where
  "turns_of_user user turns = map snd (filter (\<lambda>(u, t). u = user) turns)"

definition claim_turn :: "timestamp \<Rightarrow> uuid \<Rightarrow> chat_turn_row \<Rightarrow> chat_db \<Rightarrow> (chat_error + bool) \<times> chat_db" where
  "claim_turn now user t db =
     (if tr_status t = Turn_waiting_backend then claim_waiting now user (tr_session t) (tr_id t) db
      else claim_resumable now user (tr_session t) (tr_id t) db)"

definition resumed_run :: "resume_env \<Rightarrow> uuid \<Rightarrow> master_key \<Rightarrow> chat_turn_row \<Rightarrow> run_id" where
  "resumed_run P user master t = \<lparr>ri_user = user, ri_master = master, ri_session = tr_session t, ri_turn = tr_id t,
     ri_user_seq = tr_user_seq t, ri_resumed = True, ri_tool_json = rp_tool_json P\<rparr>"

text \<open>The turns of one user: permit first, then the claim, then the run is registered and spawned.\<close>

fun resume_turns :: "chat_env \<Rightarrow> resume_env \<Rightarrow> uuid \<Rightarrow> master_key \<Rightarrow> chat_turn_row list \<Rightarrow> chat_world \<Rightarrow>
    (chat_error + run_id list) \<times> chat_world" where
  "resume_turns E P user master [] w = (Inr [], w)"
| "resume_turns E P user master (t # ts) w =
     (if \<not> rp_permit P (tr_id t) then resume_turns E P user master ts w
      else case claim_turn (rp_now P) user t (chat_run E (rp_between P (tr_id t)) (cw_db w)) of
        (Inl e, db) \<Rightarrow> (Inl e, w\<lparr>cw_db := db\<rparr>)
      | (Inr False, db) \<Rightarrow> resume_turns E P user master ts (w\<lparr>cw_db := db\<rparr>)
      | (Inr True, db) \<Rightarrow>
          (case resume_turns E P user master ts \<lparr>cw_db = db, cw_runs = register (tr_id t) (cw_runs w)\<rparr> of
             (Inl e, w') \<Rightarrow> (Inl e, w')
           | (Inr runs, w') \<Rightarrow> (Inr (resumed_run P user master t # runs), w')))"

fun resume_users :: "chat_env \<Rightarrow> resume_env \<Rightarrow> (uuid \<times> chat_turn_row) list \<Rightarrow> uuid list \<Rightarrow> chat_world \<Rightarrow>
    (chat_error + run_id list) \<times> chat_world" where
  "resume_users E P turns [] w = (Inr [], w)"
| "resume_users E P turns (u # us) w =
     (case rp_key P u of
        None \<Rightarrow> resume_users E P turns us w
      | Some master \<Rightarrow>
          if \<not> rp_record P u then resume_users E P turns us w
          else case resume_turns E P u master (turns_of_user u turns) w of
            (Inl e, w') \<Rightarrow> (Inl e, w')
          | (Inr runs, w') \<Rightarrow>
              (case resume_users E P turns us w' of
                 (Inl e, w'') \<Rightarrow> (Inl e, w'')
               | (Inr runs', w'') \<Rightarrow> (Inr (runs @ runs'), w'')))"

definition resume_run_pending :: "chat_env \<Rightarrow> resume_env \<Rightarrow> chat_world \<Rightarrow> (chat_error + run_id list) \<times> chat_world" where
  "resume_run_pending E P w =
     (if rp_health P \<in> {Red, Disabled} then (Inr [], w)
      else let turns = resume_supply (cw_db w) in
        if turns = [] then (Inr [], w) else resume_users E P turns (supply_users turns) w)"

section \<open>Claims of one pass\<close>

text \<open>What a claim makes of a row.\<close>

definition claimed :: "timestamp \<Rightarrow> turn_rec \<Rightarrow> turn_rec" where
  "claimed now t =
     (if t_status t = Turn_waiting_backend
      then t\<lparr>t_status := Turn_running, t_park_state := Turn_waiting_backend, t_updated_at := now\<rparr>
      else t\<lparr>t_status := Turn_running, t_attempts := t_attempts t + 1, t_park_state := Turn_interrupted, t_updated_at := now\<rparr>)"

definition claim_all :: "timestamp \<Rightarrow> uuid set \<Rightarrow> turn_rec list \<Rightarrow> turn_rec list" where
  "claim_all now ids ts = update_where (\<lambda>t. t_id t \<in> ids) (claimed now) ts"

lemma awaits_open: "awaits_backend t \<Longrightarrow> open_turn t \<and> t_status t \<noteq> Turn_running"
  by (auto simp: awaits_backend_def open_turn_def)

lemma distinct_id_eq: "distinct (map k xs) \<Longrightarrow> x \<in> set xs \<Longrightarrow> y \<in> set xs \<Longrightarrow> k x = k y \<Longrightarrow> x = y"
  by (auto simp: distinct_map dest: inj_onD)

lemma claim_turn_one:
  assumes inv: "chat_inv db" and t: "t \<in> set (cd_turns db)" "awaits_backend t" and own: "owned user (t_session t) db"
  shows "claim_turn now user (turn_row t) db = (Inr True, db\<lparr>cd_turns := claim_all now {t_id t} (cd_turns db)\<rparr>)"
proof -
  have ids: "distinct (map t_id (cd_turns db))" using inv by (simp add: chat_inv_def linked_def)
  have only: "x = t" if "x \<in> set (cd_turns db)" "t_id x = t_id t" for x using distinct_id_eq [OF ids that(1) t(1)] that(2) by simp
  have free: "\<not> running_in (t_session t) db"
  proof
    assume "running_in (t_session t) db"
    then obtain r where "r \<in> set (cd_turns db)" "t_session r = t_session t" "t_status r = Turn_running"
      unfolding running_in_def by blast
    then show False using open_turns_eq [OF inv _ t(1), of r] awaits_open [OF t(2)] by (auto simp: open_turn_def)
  qed
  have go: "set_running p u db = (Inr True, db\<lparr>cd_turns := claim_all now {t_id t} (cd_turns db)\<rparr>)"
    if "\<And>x. p x \<Longrightarrow> t_id x = t_id t" "p t" "u t = claimed now t" for p u
  proof -
    have p: "p x \<longleftrightarrow> x = t" if "x \<in> set (cd_turns db)" for x using that only \<open>p t\<close> that(1) \<open>\<And>x. p x \<Longrightarrow> t_id x = t_id t\<close> by blast
    have "update_where p u (cd_turns db) = claim_all now {t_id t} (cd_turns db)"
      unfolding claim_all_def update_where_def using p only \<open>u t = claimed now t\<close> by (auto intro!: map_cong)
    moreover have "\<not> (\<exists>x \<in> set (cd_turns db). p x \<and> running_in (t_session x) db)" using p free by blast
    moreover have "0 < rows_affected p (cd_turns db)" using t(1) \<open>p t\<close> by (auto simp: rows_affected_pos)
    ultimately show ?thesis by (simp add: set_running_def)
  qed
  show ?thesis
  proof (cases "t_status t = Turn_waiting_backend")
    case True
    then show ?thesis
      unfolding claim_turn_def claim_waiting_def using own by (simp add: turn_row_def) (rule go; simp add: claimed_def)
  next
    case False
    then have "t_status t = Turn_interrupted" "t_attempts t = 0" using t(2) by (auto simp: awaits_backend_def)
    then show ?thesis
      unfolding claim_turn_def claim_resumable_def using own by (simp add: turn_row_def) (rule go; simp add: claimed_def)
  qed
qed

lemma claim_all_insert: "i \<notin> ids \<Longrightarrow> claim_all now {i} (claim_all now ids ts) = claim_all now (insert i ids) ts"
proof -
  have "t_id (claimed now t) = t_id t" for t by (simp add: claimed_def)
  then show "i \<notin> ids \<Longrightarrow> ?thesis" by (auto simp: claim_all_def update_where_def)
qed

lemma claim_all_mem: "t \<in> set ts \<Longrightarrow> t_id t \<notin> ids \<Longrightarrow> t \<in> set (claim_all now ids ts)"
  using update_where_mem [of t ts "\<lambda>t. t_id t \<in> ids" "claimed now"] by (simp add: claim_all_def)

lemma claim_all_empty [simp]: "claim_all now {} ts = ts"
  by (simp add: claim_all_def update_where_def)

text \<open>Rows of the supply that are still unclaimed: each stands for a row of the table with its owner.\<close>

definition supplied :: "chat_db \<Rightarrow> uuid \<Rightarrow> chat_turn_row \<Rightarrow> bool" where
  "supplied db user r \<longleftrightarrow> (\<exists>t \<in> set (cd_turns db). r = turn_row t \<and> awaits_backend t \<and> owned user (t_session t) db)"

definition eligible :: "resume_env \<Rightarrow> uuid \<Rightarrow> chat_turn_row list \<Rightarrow> uuid list" where
  "eligible P user ts = (if rp_key P user \<noteq> None \<and> rp_record P user then map tr_id (filter (\<lambda>t. rp_permit P (tr_id t)) ts) else [])"

text \<open>A table with some rows claimed.\<close>

definition with_claims :: "timestamp \<Rightarrow> uuid set \<Rightarrow> chat_db \<Rightarrow> chat_db" where
  "with_claims now ids db = db\<lparr>cd_turns := claim_all now ids (cd_turns db)\<rparr>"

definition registered :: "uuid list \<Rightarrow> run_registry \<Rightarrow> run_registry" where
  "registered ids runs = foldl (\<lambda>r i. register i r) runs ids"

lemma supplied_later:
  "supplied db user r \<Longrightarrow> tr_id r \<notin> ids \<Longrightarrow> supplied (with_claims now ids db) user r"
  unfolding supplied_def with_claims_def
  by (force simp: turn_row_def owned_def intro: claim_all_mem)

lemma claim_supplied:
  assumes "chat_inv (with_claims now ids db)" "supplied db user r" "tr_id r \<notin> ids"
  shows "claim_turn now user r (with_claims now ids db) = (Inr True, with_claims now (insert (tr_id r) ids) db)"
    and "chat_inv (with_claims now (insert (tr_id r) ids) db)"
proof -
  from supplied_later [OF assms(2,3), of now] obtain t where t: "t \<in> set (cd_turns (with_claims now ids db))" "r = turn_row t"
    "awaits_backend t" "owned user (t_session t) (with_claims now ids db)" unfolding supplied_def by blast
  have "tr_id r = t_id t" by (simp add: t(2) turn_row_def)
  then show claim: "claim_turn now user r (with_claims now ids db) = (Inr True, with_claims now (insert (tr_id r) ids) db)"
    using claim_turn_one [OF assms(1) t(1,3,4), of now] claim_all_insert [OF assms(3), of now "cd_turns db"]
    by (simp add: t(2) with_claims_def)
  have "chat_inv (snd (claim_turn now user r (with_claims now ids db)))"
    using chat_inv_claims [OF assms(1)] by (simp add: claim_turn_def)
  then show "chat_inv (with_claims now (insert (tr_id r) ids) db)" by (simp add: claim)
qed

lemma resume_turns_claims:
  assumes "rp_between P = (\<lambda>_. [])" "chat_inv (with_claims (rp_now P) ids db)"
    and "\<And>r. r \<in> set ts \<Longrightarrow> supplied db user r" "distinct (map tr_id ts)" "set (map tr_id ts) \<inter> ids = {}"
    and new: "new = map tr_id (filter (\<lambda>t. rp_permit P (tr_id t)) ts)"
  shows "resume_turns E P user master ts \<lparr>cw_db = with_claims (rp_now P) ids db, cw_runs = runs\<rparr> =
      (Inr (map (resumed_run P user master) (filter (\<lambda>t. rp_permit P (tr_id t)) ts)),
       \<lparr>cw_db = with_claims (rp_now P) (ids \<union> set new) db, cw_runs = registered new runs\<rparr>) \<and>
    chat_inv (with_claims (rp_now P) (ids \<union> set new) db)"
  using assms(2-6)
proof (induction ts arbitrary: ids runs new)
  case Nil
  then show ?case by (simp add: registered_def)
next
  case (Cons r ts)
  show ?case
  proof (cases "rp_permit P (tr_id r)")
    case False
    then show ?thesis using Cons.IH [of ids new runs] Cons.prems by simp
  next
    case True
    let ?ids = "insert (tr_id r) ids" and ?new = "map tr_id (filter (\<lambda>t. rp_permit P (tr_id t)) ts)"
    have r: "supplied db user r" "tr_id r \<notin> ids" using Cons.prems by auto
    note claim = claim_supplied [OF Cons.prems(1) r]
    have "set (map tr_id ts) \<inter> ?ids = {}" using Cons.prems(3,4) by auto
    then have IH: "resume_turns E P user master ts \<lparr>cw_db = with_claims (rp_now P) ?ids db, cw_runs = register (tr_id r) runs\<rparr> =
        (Inr (map (resumed_run P user master) (filter (\<lambda>t. rp_permit P (tr_id t)) ts)),
         \<lparr>cw_db = with_claims (rp_now P) (?ids \<union> set ?new) db, cw_runs = registered ?new (register (tr_id r) runs)\<rparr>) \<and>
      chat_inv (with_claims (rp_now P) (?ids \<union> set ?new) db)"
      using Cons.IH [OF claim(2), of ?new "register (tr_id r) runs"] Cons.prems by simp
    have new: "new = tr_id r # ?new" using Cons.prems(5) True by simp
    show ?thesis using IH True claim(1) by (simp add: new assms(1) chat_run_def registered_def)
  qed
qed

section \<open>The supply\<close>

lemma owner_of_ownedD:
  assumes "owner_of i db = Some u"
  shows "owned u i db"
proof -
  from assms obtain s where "fetch_optional (\<lambda>s. s_id s = i) (cd_sessions db) = Some s" and u: "s_user s = u"
    unfolding owner_of_def by blast
  from fetch_optional_SomeD [OF this(1)] show ?thesis using u by (auto simp: owned_iff)
qed

lemma owner_of_owned:
  assumes "linked db"
  shows "owner_of i db = Some u \<longleftrightarrow> owned u i db"
proof
  assume own: "owned u i db"
  then have "fetch_optional (\<lambda>s. s_id s = i) (cd_sessions db) \<noteq> None" by (auto simp: owned_iff fetch_optional_None)
  then obtain v where v: "owner_of i db = Some v" by (auto simp: owner_of_def)
  from owner_of_ownedD [OF this] have "v = u" using own owner_unique [OF assms] by blast
  with v show "owner_of i db = Some u" by simp
qed (rule owner_of_ownedD)

lemma turn_has_owner:
  assumes "linked db" "t \<in> set (cd_turns db)"
  shows "\<exists>u. owner_of (t_session t) db = Some u"
proof -
  from assms obtain s where "s \<in> set (cd_sessions db)" "s_id s = t_session t" by (auto simp: linked_def)
  then have "owned (s_user s) (t_session t) db" by (auto simp: owned_iff)
  then show ?thesis using owner_of_owned [OF assms(1)] by blast
qed

lemma map_filter_total:
  assumes "\<forall>x \<in> set xs. f x \<noteq> None"
  shows "List.map_filter f xs = map (\<lambda>x. the (f x)) xs"
  using assms by (induction xs) auto

lemma turns_where_map:
  assumes "linked db"
  shows "turns_where p db = map (\<lambda>t. (the (owner_of (t_session t) db), t)) (order_by t_created_at (filter p (cd_turns db)))"
proof -
  have "turns_where p db = map (\<lambda>t. the (map_option (\<lambda>u. (u, t)) (owner_of (t_session t) db))) (order_by t_created_at (filter p (cd_turns db)))"
    unfolding turns_where_def by (rule map_filter_total) (use turn_has_owner [OF assms] in force)
  also have "\<dots> = map (\<lambda>t. (the (owner_of (t_session t) db), t)) (order_by t_created_at (filter p (cd_turns db)))"
  proof (rule map_cong [OF refl])
    fix t assume "t \<in> set (order_by t_created_at (filter p (cd_turns db)))"
    then obtain u where "owner_of (t_session t) db = Some u" using turn_has_owner [OF assms, of t] by auto
    then show "the (map_option (\<lambda>u. (u, t)) (owner_of (t_session t) db)) = (the (owner_of (t_session t) db), t)" by simp
  qed
  finally show ?thesis .
qed

lemma supply_ids:
  assumes "linked db"
  shows "distinct (map (tr_id \<circ> snd) (resume_supply db))"
proof -
  let ?r = "filter (\<lambda>t. t_status t = Turn_interrupted \<and> t_attempts t = 0) (cd_turns db)"
    and ?w = "filter (\<lambda>t. t_status t = Turn_waiting_backend) (cd_turns db)"
  have "map (tr_id \<circ> snd) (resumable_turns db) = map t_id (order_by t_created_at ?r)"
    "map (tr_id \<circ> snd) (waiting_turns db) = map t_id (order_by t_created_at ?w)"
    by (simp_all add: resumable_turns_def waiting_turns_def turns_where_map [OF assms] turn_row_def)
  moreover have d: "distinct (map t_id (cd_turns db))" using assms by (simp add: linked_def)
  moreover have "distinct (map t_id (order_by t_created_at (filter p (cd_turns db))))" for p
    using distinct_map_filter [OF d, of p] by (simp add: order_by_def distinct_map)
  moreover have "t_id ` set ?r \<inter> t_id ` set ?w = {}"
  proof (rule equals0I)
    fix i assume "i \<in> t_id ` set ?r \<inter> t_id ` set ?w"
    then obtain x y where xy: "x \<in> set ?r" "y \<in> set ?w" "t_id x = t_id y" by (auto simp: image_iff)
    then have "x = y" using distinct_id_eq [OF d, of x y] by simp
    with xy show False by simp
  qed
  ultimately have "distinct (map (tr_id \<circ> snd) (resumable_turns db) @ map (tr_id \<circ> snd) (waiting_turns db))"
    by (simp only: distinct_append) simp
  then have "distinct (map (tr_id \<circ> snd) (resumable_turns db @ waiting_turns db))" by (simp only: map_append)
  then have "distinct (resumable_turns db @ waiting_turns db)" "inj_on (tr_id \<circ> snd) (set (resumable_turns db @ waiting_turns db))"
    by (simp_all only: distinct_map)
  then show ?thesis by (simp only: resume_supply_def distinct_map distinct_sort set_sort simp_thms)
qed

lemma supply_iff:
  assumes "linked db"
  shows "(u, r) \<in> set (resume_supply db) \<longleftrightarrow> supplied db u r"
proof -
  have "(u, r) \<in> set (resume_supply db) \<longleftrightarrow>
      (\<exists>t \<in> set (cd_turns db). awaits_backend t \<and> u = the (owner_of (t_session t) db) \<and> r = turn_row t)"
    by (auto simp: resume_supply_def resumable_turns_def waiting_turns_def turns_where_map [OF assms] awaits_backend_def)
  also have "\<dots> \<longleftrightarrow> supplied db u r"
    unfolding supplied_def
  proof (intro bex_cong refl)
    fix t assume "t \<in> set (cd_turns db)"
    then obtain v where v: "owner_of (t_session t) db = Some v" using turn_has_owner [OF assms] by blast
    then have "owned u (t_session t) db \<longleftrightarrow> v = u" using owner_of_owned [OF assms, of "t_session t" u] by simp
    then show "(awaits_backend t \<and> u = the (owner_of (t_session t) db) \<and> r = turn_row t) \<longleftrightarrow>
        (r = turn_row t \<and> awaits_backend t \<and> owned u (t_session t) db)" using v by auto
  qed
  finally show ?thesis .
qed

definition eligible_ids :: "resume_env \<Rightarrow> (uuid \<times> chat_turn_row) list \<Rightarrow> uuid list \<Rightarrow> uuid list" where
  "eligible_ids P turns users = concat (map (\<lambda>u. eligible P u (turns_of_user u turns)) users)"

lemma turns_of_user_mem: "r \<in> set (turns_of_user u turns) \<longleftrightarrow> (u, r) \<in> set turns"
  by (force simp: turns_of_user_def)

lemma turns_of_user_distinct: "distinct (map (tr_id \<circ> snd) turns) \<Longrightarrow> distinct (map tr_id (turns_of_user u turns))"
  by (simp add: turns_of_user_def distinct_map_filter comp_def)

lemma resume_users_claims:
  assumes "rp_between P = (\<lambda>_. [])" "linked db" "distinct (map (tr_id \<circ> snd) turns)"
    and "\<And>u r. (u, r) \<in> set turns \<Longrightarrow> supplied db u r"
    and "chat_inv (with_claims (rp_now P) ids db)" "distinct us"
    and "\<And>u r. u \<in> set us \<Longrightarrow> (u, r) \<in> set turns \<Longrightarrow> tr_id r \<notin> ids"
  shows "\<exists>spawned. resume_users E P turns us \<lparr>cw_db = with_claims (rp_now P) ids db, cw_runs = runs\<rparr> =
      (Inr spawned, \<lparr>cw_db = with_claims (rp_now P) (ids \<union> set (eligible_ids P turns us)) db,
         cw_runs = registered (eligible_ids P turns us) runs\<rparr>) \<and>
    map ri_turn spawned = eligible_ids P turns us"
  using assms(5-7)
proof (induction us arbitrary: ids runs)
  case Nil
  then show ?case by (simp add: eligible_ids_def registered_def)
next
  case (Cons u us)
  let ?ts = "turns_of_user u turns" and ?new = "eligible P u (turns_of_user u turns)"
  have rest: "eligible_ids P turns (u # us) = ?new @ eligible_ids P turns us" by (simp add: eligible_ids_def)
  show ?case
  proof (cases "rp_key P u \<noteq> None \<and> rp_record P u")
    case False
    then have "?new = []" by (auto simp: eligible_def)
    moreover have "resume_users E P turns (u # us) w = resume_users E P turns us w" for w
      using False by (auto split: option.split)
    ultimately show ?thesis using Cons.IH [OF Cons.prems(1), of runs] Cons.prems rest by auto
  next
    case True
    then obtain master where key: "rp_key P u = Some master" and rec_ok: "rp_record P u" by auto
    have new: "?new = map tr_id (filter (\<lambda>t. rp_permit P (tr_id t)) ?ts)" using True by (simp add: eligible_def)
    have "tr_id r \<notin> ids" if "(u, r) \<in> set turns" for r using Cons.prems(3) [of u r] that by simp
    then have "set (map tr_id ?ts) \<inter> ids = {}" by (auto simp: turns_of_user_mem)
    moreover have "supplied db u r" if "r \<in> set ?ts" for r using that assms(4) by (simp add: turns_of_user_mem)
    ultimately have both: "resume_turns E P u master ?ts \<lparr>cw_db = with_claims (rp_now P) ids db, cw_runs = runs\<rparr> =
        (Inr (map (resumed_run P u master) (filter (\<lambda>t. rp_permit P (tr_id t)) ?ts)),
         \<lparr>cw_db = with_claims (rp_now P) (ids \<union> set ?new) db, cw_runs = registered ?new runs\<rparr>) \<and>
      chat_inv (with_claims (rp_now P) (ids \<union> set ?new) db)"
      using resume_turns_claims [OF assms(1) Cons.prems(1) _ turns_of_user_distinct [OF assms(3)] _ new] by blast
    then have step: "resume_turns E P u master ?ts \<lparr>cw_db = with_claims (rp_now P) ids db, cw_runs = runs\<rparr> =
        (Inr (map (resumed_run P u master) (filter (\<lambda>t. rp_permit P (tr_id t)) ?ts)),
         \<lparr>cw_db = with_claims (rp_now P) (ids \<union> set ?new) db, cw_runs = registered ?new runs\<rparr>)"
      and inv: "chat_inv (with_claims (rp_now P) (ids \<union> set ?new) db)"
      by simp_all
    have apart: "tr_id r \<notin> ids \<union> set ?new" if v: "v \<in> set us" "(v, r) \<in> set turns" for v r
    proof
      assume "tr_id r \<in> ids \<union> set ?new"
      moreover have "tr_id r \<notin> ids" using Cons.prems(3) [of v r] v by simp
      ultimately have "tr_id r \<in> set ?new" by simp
      then obtain r' where "r' \<in> set ?ts" "tr_id r = tr_id r'" unfolding new by auto
      then have "(v, r) = (u, r')" using distinct_id_eq [OF assms(3) v(2), of "(u, r')"] by (simp add: turns_of_user_mem)
      then show False using Cons.prems(2) v(1) by simp
    qed
    have "\<exists>spawned. resume_users E P turns us \<lparr>cw_db = with_claims (rp_now P) (ids \<union> set ?new) db, cw_runs = registered ?new runs\<rparr> =
        (Inr spawned, \<lparr>cw_db = with_claims (rp_now P) (ids \<union> set ?new \<union> set (eligible_ids P turns us)) db,
         cw_runs = registered (eligible_ids P turns us) (registered ?new runs)\<rparr>) \<and> map ri_turn spawned = eligible_ids P turns us"
      by (rule Cons.IH [where runs = "registered ?new runs", OF inv]) (use Cons.prems(2) apart in simp_all)
    then obtain spawned where "resume_users E P turns us \<lparr>cw_db = with_claims (rp_now P) (ids \<union> set ?new) db, cw_runs = registered ?new runs\<rparr> =
        (Inr spawned, \<lparr>cw_db = with_claims (rp_now P) (ids \<union> set ?new \<union> set (eligible_ids P turns us)) db,
         cw_runs = registered (eligible_ids P turns us) (registered ?new runs)\<rparr>)" "map ri_turn spawned = eligible_ids P turns us"
      by blast
    then show ?thesis
      using step key rec_ok
      by (simp add: rest Un_assoc registered_def) (simp add: new resumed_run_def)
  qed
qed

text \<open>Which rows a pass picks.\<close>

lemma eligible_ids_iff:
  assumes linked: "linked db"
  shows "i \<in> set (eligible_ids P (resume_supply db) (supply_users (resume_supply db))) \<longleftrightarrow>
    (\<exists>u r. supplied db u r \<and> tr_id r = i \<and> rp_permit P i \<and> rp_key P u \<noteq> None \<and> rp_record P u)"
proof -
  let ?turns = "resume_supply db"
  have "i \<in> set (eligible P u (turns_of_user u ?turns)) \<longleftrightarrow>
      (\<exists>r. (u, r) \<in> set ?turns \<and> tr_id r = i \<and> rp_permit P i \<and> rp_key P u \<noteq> None \<and> rp_record P u)" for u
    by (auto simp: eligible_def image_iff simp flip: turns_of_user_mem)
  moreover have "(u, r) \<in> set ?turns \<Longrightarrow> u \<in> set (supply_users ?turns)" for u r by (force simp: supply_users_def)
  ultimately show ?thesis unfolding eligible_ids_def set_concat set_map supply_iff [OF linked, symmetric] by blast
qed

lemma supplied_row_iff:
  assumes "linked db" "t \<in> set (cd_turns db)"
  shows "supplied db u r \<and> tr_id r = t_id t \<longleftrightarrow> r = turn_row t \<and> awaits_backend t \<and> owned u (t_session t) db"
proof
  have d: "distinct (map t_id (cd_turns db))" using assms by (simp add: linked_def)
  assume "supplied db u r \<and> tr_id r = t_id t"
  then obtain x where x: "x \<in> set (cd_turns db)" "r = turn_row x" "awaits_backend x" "owned u (t_session x) db" "t_id x = t_id t"
    unfolding supplied_def by (auto simp: turn_row_def)
  then have "x = t" using distinct_id_eq [OF d x(1) assms(2)] by simp
  with x show "r = turn_row t \<and> awaits_backend t \<and> owned u (t_session t) db" by simp
qed (use assms(2) in \<open>auto simp: supplied_def turn_row_def\<close>)

section \<open>Properties\<close>


section \<open>Example\<close>

definition parked_db :: chat_db where
  "parked_db = demo_run_db\<lparr>cd_turns := [(new_turn 9 5 0 1)\<lparr>t_status := Turn_waiting_backend\<rparr>]\<rparr>"

definition open_pass :: resume_env where
  "open_pass = \<lparr>rp_health = Green, rp_key = (\<lambda>u. Some (MasterKey [])), rp_record = (\<lambda>u. True), rp_permit = (\<lambda>t. True),
     rp_between = (\<lambda>t. []), rp_now = 7, rp_tool_json = (\<lambda>name detail. name)\<rparr>"


end
