(* ===== verification/Fallback.thy ===== *)
theory Fallback
  imports Store_Demo Link_Graph Hot_Memory
begin

text \<open>
  The deterministic fallbacks of the mutation queue, \<^verbatim>\<open>crates/mycelium-librarian/src/fallback.rs\<close>, over the concept store
  and the hot memory: a direct write on add, a dated addendum on update, wiring and flagging on maintain.  The time texts,
  clock readings and what a write draws are inputs, one bundle per write.
\<close>

section \<open>Paths and titles\<close>

definition trim_char :: "nat \<Rightarrow> rstring \<Rightarrow> rstring" where
  "trim_char c s = rev (dropWhile (\<lambda>x. x = c) (rev (dropWhile (\<lambda>x. x = c) s)))"

fun kebab_chars :: "bool \<Rightarrow> rstring \<Rightarrow> rstring" where
  "kebab_chars prev_dash [] = []"
| "kebab_chars prev_dash (c # s) =
     (if is_ascii_alphanumeric c then ascii_lower c # kebab_chars False s
      else if \<not> prev_dash then DASH # kebab_chars True s
      else kebab_chars prev_dash s)"

definition slugify_text :: "rstring \<Rightarrow> rstring" where
  "slugify_text s = trim_char DASH (kebab_chars True (take 64 s))"

definition derive_title :: "rstring \<Rightarrow> rstring" where
  "derive_title content =
     trim (take 80 (case find (\<lambda>l. trim l \<noteq> []) (str_lines content) of Some l \<Rightarrow> l | None \<Rightarrow> str ''untitled''))"

definition path_slug :: "rstring \<Rightarrow> rstring" where
  "path_slug p = join_with [SLASH] (filter (\<lambda>s. s \<noteq> []) (map slugify_text (split_on SLASH (trim_char SLASH p))))"

definition derive_path :: "rstring option \<Rightarrow> rstring option \<Rightarrow> rstring \<Rightarrow> rstring" where
  "derive_path path_hint shelf content =
     (let hinted = (case path_hint of Some p \<Rightarrow> path_slug p | None \<Rightarrow> []);
          slug = (if hinted = [] then slugify_text (derive_title content) else hinted);
          s = (case shelf of Some s \<Rightarrow> slugify_text s | None \<Rightarrow> []);
          shelf_part = (if s = [] then [] else s @ [SLASH]) in
      [SLASH] @ shelf_part @ slug @ str ''.md'')"

definition canonical_hint :: "rstring \<Rightarrow> rstring" where
  "canonical_hint p =
     (let trimmed = trim_char SLASH (trim p) in
      if trimmed = [] then str ''/untitled.md''
      else if ends_with trimmed (str ''.md'') then [SLASH] @ trimmed
      else [SLASH] @ trimmed @ str ''.md'')"

definition MAX_SEARCH_TERMS :: nat where "MAX_SEARCH_TERMS = 32"

definition search_terms :: "rstring \<Rightarrow> rstring list" where
  "search_terms question = take MAX_SEARCH_TERMS (split_whitespace question)"

section \<open>Writes\<close>

type_synonym fb_world = "store_state \<times> hot_global"

record fb_draws =
  fd_stamp :: rstring
  fd_put :: put_draws
  fd_regen :: "rstring \<Rightarrow> put_draws"
  fd_hot :: timestamp

text \<open>\<^verbatim>\<open>cs.put(..).await?\<close> followed by the record in the hot memory.\<close>

definition put_and_record :: "concept_store \<Rightarrow> fb_draws \<Rightarrow> concept \<Rightarrow> fb_world \<Rightarrow> (store_error + unit) \<times> fb_world" where
  "put_and_record S D c w =
     (case put S (fd_regen D) (fd_put D) c (fst w) of
        (Inl e, st) \<Rightarrow> (Inl e, (st, snd w))
      | (Inr _, st) \<Rightarrow> (Inr (), (st, record_hot_write (fd_hot D) (cs_scope_id S) (co_source_path c) (snd w))))"

section \<open>Add\<close>

definition suffixed :: "rstring \<Rightarrow> 32 word \<Rightarrow> rstring" where
  "suffixed base n = trim_end_matches (str ''.md'') base @ [DASH] @ show_nat (unat n) @ str ''.md''"

text \<open>The loop over the candidate paths; \<open>None\<close> is "still looking".\<close>

fun free_path :: "nat \<Rightarrow> concept_store \<Rightarrow> store_state \<Rightarrow> rstring \<Rightarrow> rstring \<Rightarrow> rstring \<Rightarrow> 32 word \<Rightarrow> (store_error + rstring) option" where
  "free_path 0 S st content base path n = None"
| "free_path (Suc fuel) S st content base path n =
     (case get_concept S path st of
        Inr existing \<Rightarrow>
          if trim (co_body existing) = trim content then Some (Inr path)
          else free_path fuel S st content base (suffixed base n) (n + 1)
      | Inl (Store_not_found p) \<Rightarrow> Some (Inr path)
      | Inl e \<Rightarrow> Some (Inl e))"

definition added_concept :: "rstring \<Rightarrow> rstring option \<Rightarrow> rstring \<Rightarrow> rstring \<Rightarrow> concept" where
  "added_concept content concept_type now path =
     (let ty = (case concept_type of Some t \<Rightarrow> if trim t = [] then str ''Note'' else trim t | None \<Rightarrow> str ''Note'') in
      \<lparr>co_frontmatter = default_frontmatter\<lparr>fm_type := ty, fm_title := Some (derive_title content), fm_timestamp := Some now\<rparr>,
       co_body = content, co_source_path = path\<rparr>)"

definition write_add ::
  "nat \<Rightarrow> concept_store \<Rightarrow> fb_draws \<Rightarrow> rstring \<Rightarrow> rstring option \<Rightarrow> rstring option \<Rightarrow> rstring option \<Rightarrow> fb_world \<Rightarrow>
   ((store_error + rstring) \<times> fb_world) option" where
  "write_add fuel S D content path_hint shelf concept_type w =
     (let base = derive_path path_hint shelf content in
      case free_path fuel S (fst w) content base base 2 of
        None \<Rightarrow> None
      | Some (Inl e) \<Rightarrow> Some (Inl e, w)
      | Some (Inr path) \<Rightarrow>
          (case put_and_record S D (added_concept content concept_type (fd_stamp D) path) w of
             (Inl e, w') \<Rightarrow> Some (Inl e, w')
           | (Inr _, w') \<Rightarrow> Some (Inr path, w')))"

section \<open>Update\<close>

definition resolve_target :: "concept_store \<Rightarrow> store_state \<Rightarrow> rstring \<Rightarrow> rstring option \<Rightarrow> store_error + rstring" where
  "resolve_target S st instruction path_hint =
     (case path_hint of
        Some p \<Rightarrow> Inr (canonical_hint p)
      | None \<Rightarrow>
          (case store_search S st (new_query (search_terms instruction)) of
             [] \<Rightarrow> Inl (Store_not_found (str ''no matching concept''))
           | h # hs \<Rightarrow> Inr (sr_concept_path h)))"

definition addendum :: "rstring \<Rightarrow> rstring \<Rightarrow> rstring" where
  "addendum now instruction = [NL, NL] @ str ''<!-- mycelium2:update:'' @ now @ str '' -->'' @ [NL] @ instruction @ [NL]"

definition amended_concept :: "rstring \<Rightarrow> rstring \<Rightarrow> concept \<Rightarrow> concept" where
  "amended_concept now instruction c =
     c\<lparr>co_body := trim_end (co_body c) @ addendum now instruction,
       co_frontmatter := (co_frontmatter c)\<lparr>fm_timestamp := Some now\<rparr>\<rparr>"

definition addendum_update ::
  "concept_store \<Rightarrow> fb_draws \<Rightarrow> rstring \<Rightarrow> rstring option \<Rightarrow> fb_world \<Rightarrow> (store_error + rstring) \<times> fb_world" where
  "addendum_update S D instruction path_hint w =
     (case resolve_target S (fst w) instruction path_hint of
        Inl e \<Rightarrow> (Inl e, w)
      | Inr path \<Rightarrow>
          (case get_concept S path (fst w) of
             Inl e \<Rightarrow> (Inl e, w)
           | Inr c \<Rightarrow>
               (case put S (fd_regen D) (fd_put D) (amended_concept (fd_stamp D) instruction c) (fst w) of
                  (Inl e, st) \<Rightarrow> (Inl e, (st, snd w))
                | (Inr _, st) \<Rightarrow> (Inr path, (st, record_hot_write (fd_hot D) (cs_scope_id S) path (snd w))))))"

section \<open>Maintain\<close>

definition readable_concepts :: "concept_store \<Rightarrow> store_state \<Rightarrow> concept list" where
  "readable_concepts S st =
     concat (map (\<lambda>e. case get_concept S (ce_path e) st of Inr c \<Rightarrow> [c] | Inl _ \<Rightarrow> []) (list_concepts S st))"

definition title_tokens :: "concept_store \<Rightarrow> concept \<Rightarrow> rstring list" where
  "title_tokens S c = tokenize (cs_lower S) (case fm_title (co_frontmatter c) of Some t \<Rightarrow> t | None \<Rightarrow> [])"

definition title_overlap :: "concept_store \<Rightarrow> concept \<Rightarrow> concept \<Rightarrow> nat" where
  "title_overlap S c other = length (filter (\<lambda>t. t \<in> set (title_tokens S other)) (title_tokens S c))"

text \<open>The loop of \<^verbatim>\<open>best_related\<close>: the first of the largest overlaps; \<^verbatim>\<open>f32\<close> holds the small counts exactly.\<close>

fun best_scan :: "concept_store \<Rightarrow> concept \<Rightarrow> rstring \<Rightarrow> (nat \<times> concept) option \<Rightarrow> concept list \<Rightarrow> (nat \<times> concept) option" where
  "best_scan S c path best [] = best"
| "best_scan S c path best (other # cs) =
     (let n = title_overlap S c other in
      if co_source_path other = path then best_scan S c path best cs
      else if 0 < n \<and> (case best of None \<Rightarrow> True | Some (b, _) \<Rightarrow> b < n) then best_scan S c path (Some (n, other)) cs
      else best_scan S c path best cs)"

definition best_related :: "concept_store \<Rightarrow> concept list \<Rightarrow> rstring \<Rightarrow> (rstring \<times> rstring) option" where
  "best_related S concepts path =
     (case find (\<lambda>c. co_source_path c = path) concepts of
        None \<Rightarrow> None
      | Some c \<Rightarrow> map_option (\<lambda>(n, other). (trim_start_matches [SLASH] (co_source_path other),
          case fm_title (co_frontmatter other) of Some t \<Rightarrow> t | None \<Rightarrow> co_source_path other)) (best_scan S c path None concepts))"

definition safe_title :: "rstring \<Rightarrow> rstring" where
  "safe_title t = filter (\<lambda>c. c \<notin> {OPEN_BRACKET, CLOSE_BRACKET, OPEN_PAREN, CLOSE_PAREN}) t"

definition related_line :: "rstring \<times> rstring \<Rightarrow> rstring" where
  "related_line target = [NL, NL] @ str ''Related: ['' @ safe_title (snd target) @ str ''](/'' @ fst target @ str '')'' @ [NL]"

definition wire_orphan :: "concept_store \<Rightarrow> fb_draws \<Rightarrow> concept list \<Rightarrow> rstring \<Rightarrow> fb_world \<Rightarrow> bool \<times> fb_world" where
  "wire_orphan S D concepts orphan w =
     (case (best_related S concepts orphan, get_concept S orphan (fst w)) of
        (Some target, Inr c) \<Rightarrow>
          if contains_str (co_body c) (str ''](/'' @ fst target @ str '')'') then (False, w)
          else (case put_and_record S D (c\<lparr>co_body := co_body c @ related_line target\<rparr>) w of
             (Inl _, w') \<Rightarrow> (False, w')
           | (Inr _, w') \<Rightarrow> (True, w'))
      | _ \<Rightarrow> (False, w))"

text \<open>\<^verbatim>\<open>str::find\<close>: the first place where the pattern starts.\<close>

definition find_str :: "rstring \<Rightarrow> rstring \<Rightarrow> nat option" where
  "find_str s p = find (\<lambda>i. starts_with (drop i s) p) [0..<length s + 1]"

definition BROKEN_MARK :: rstring where "BROKEN_MARK = str '' <!-- mycelium2:broken-link -->''"

definition flag_body :: "rstring \<Rightarrow> rstring \<Rightarrow> rstring option" where
  "flag_body target body =
     (let pattern = str '']('' @ target @ str '')'' in
      map_option (\<lambda>idx. let after = idx + length pattern in take after body @ BROKEN_MARK @ drop after body) (find_str body pattern))"

definition flag_broken :: "concept_store \<Rightarrow> fb_draws \<Rightarrow> rstring \<times> rstring \<Rightarrow> fb_world \<Rightarrow> bool \<times> fb_world" where
  "flag_broken S D broken w =
     (case get_concept S (fst broken) (fst w) of
        Inl _ \<Rightarrow> (False, w)
      | Inr c \<Rightarrow>
          (case flag_body (snd broken) (co_body c) of
             None \<Rightarrow> (False, w)
           | Some body \<Rightarrow>
               (case put_and_record S D (c\<lparr>co_body := body\<rparr>) w of
                  (Inl _, w') \<Rightarrow> (False, w')
                | (Inr _, w') \<Rightarrow> (True, w'))))"

text \<open>A loop of repairs counts those that got through.\<close>

fun count_repairs :: "('x \<Rightarrow> fb_world \<Rightarrow> bool \<times> fb_world) \<Rightarrow> 'x list \<Rightarrow> fb_world \<Rightarrow> nat \<times> fb_world" where
  "count_repairs f [] w = (0, w)"
| "count_repairs f (x # xs) w =
     (case f x w of (done, w1) \<Rightarrow> (case count_repairs f xs w1 of (n, w2) \<Rightarrow> ((if done then 1 else 0) + n, w2)))"

definition healthy_text :: "graph_health \<Rightarrow> rstring" where
  "healthy_text h = str ''Memory is healthy '' @ [8212] @ str '' '' @ show_nat (gh_concept_count h) @ str '' concepts, ''
     @ show_nat (gh_edge_count h) @ str '' links, no orphans, no broken links. Nothing to repair.''"

definition maintained_text :: "nat \<Rightarrow> nat \<Rightarrow> nat \<Rightarrow> graph_health \<Rightarrow> rstring" where
  "maintained_text entries wired fixed h = str ''maintained '' @ show_nat entries @ str '' concepts: wired '' @ show_nat wired
     @ str '' orphans, flagged '' @ show_nat fixed @ str '' broken links (graph: '' @ show_nat (gh_concept_count h) @ str '' concepts, ''
     @ show_nat (gh_edge_count h) @ str '' edges, '' @ show_nat (gh_broken_link_count h) @ str '' broken, ''
     @ show_nat (gh_orphan_count h) @ str '' orphans before)''"

definition wire_and_flag :: "concept_store \<Rightarrow> (rstring \<Rightarrow> fb_draws) \<Rightarrow> (rstring \<times> rstring \<Rightarrow> fb_draws) \<Rightarrow> fb_world \<Rightarrow> rstring \<times> fb_world" where
  "wire_and_flag S D1 D2 w =
     (let concepts = readable_concepts S (fst w); g = build_graph concepts; h = health_of g in
      if gh_orphan_count h = 0 \<and> gh_broken_link_count h = 0 then (healthy_text h, w)
      else case count_repairs (\<lambda>p. wire_orphan S (D1 p) concepts p) (gr_orphans g) w of
        (wired, w1) \<Rightarrow>
          (case count_repairs (\<lambda>b. flag_broken S (D2 b) b) (gr_broken_links g) w1 of
             (fixed, w2) \<Rightarrow> (maintained_text (length (list_concepts S (fst w))) wired fixed h, w2)))"

section \<open>Instructions for the agent\<close>

definition add_instruction :: "rstring \<Rightarrow> rstring option \<Rightarrow> rstring option \<Rightarrow> rstring" where
  "add_instruction content path concept_type =
     str (''Persist the following knowledge into the knowledge base. First search for '' @
          ''related or owning concepts. If this is an attribute or detail of an '' @
          ''existing concept, patch it into that concept rather than creating a new '' @
          ''one. Only a distinct stand-alone entity or substantial topic gets its own '' @
          ''concept '') @ [8212] @
     str ('' and then you must also patch the related existing concepts to '' @
          ''link back to it. This is content to store, not a message to answer '') @ [8212] @
     str '' you must use the write tools.'' @ [NL, NL] @ str ''KNOWLEDGE TO RECORD:'' @ [NL] @ content @
     (case path of None \<Rightarrow> [] | Some p \<Rightarrow> [NL, NL] @ str ''If it fits, place new content at '' @ p @ str ''.'') @
     (case concept_type of None \<Rightarrow> []
      | Some k \<Rightarrow> [NL, NL] @ str ''The knowledge is of kind/type '' @ [34] @ k @ [34] @ str '' '' @ [8212] @
          str '' use it as the concept `type`.'')"

definition update_instruction :: "rstring \<Rightarrow> rstring option \<Rightarrow> rstring" where
  "update_instruction instruction_text path =
     str (''Apply the following change to the knowledge base. Locate the concept(s) '' @
          ''the change concerns (search first, read them), then apply targeted edits '' @
          ''with the write tools. This is a change to apply, not a message to answer.'') @ [NL, NL] @
     str ''CHANGE TO APPLY:'' @ [NL] @ instruction_text @
     (case path of None \<Rightarrow> [] | Some p \<Rightarrow> [NL, NL] @ str ''The target concept is at '' @ p @ str ''.'')"

definition or_none :: "rstring \<Rightarrow> rstring" where
  "or_none s = (if s = [] then str ''(none)'' else s)"

definition maintain_instruction :: "concept_store \<Rightarrow> store_state \<Rightarrow> rstring \<times> graph_health" where
  "maintain_instruction S st =
     (let g = build_graph (readable_concepts S st);
          orphan_list = join_with [NL] (map (\<lambda>p. str ''- '' @ p) (gr_orphans g));
          broken_list = join_with [NL] (map (\<lambda>b. str ''- '' @ fst b @ str '' '' @ [8594] @ str '' '' @ snd b @ str '' (missing)'') (gr_broken_links g)) in
      (str ''Repair the knowledge graph. This is a maintenance task '' @ [8212] @ str '' use the write tools.'' @ [NL, NL] @
       str (''ORPHANED CONCEPTS (no other concept links to them). For each, read it and the '' @
            ''concepts it relates to, then wire it in: patch a genuinely related concept to '' @
            ''reference it, and/or add outbound links from it to related concepts. Do NOT '' @
            ''invent relationships that don'') @ [39] @ str ''t exist '' @ [8212] @
       str ('' if an orphan genuinely relates to '' @ ''nothing, leave it.'') @ [NL] @ or_none orphan_list @ [NL, NL] @
       str (''BROKEN LINKS (target does not exist). Fix the path if the target was renamed/moved, '' @
            ''or remove the link if the target is gone.'') @ [NL] @ or_none broken_list @ [NL, NL] @
       str ''Follow the enrich / link-both-ways rules. Read concepts before editing.'',
       health_of g))"

section \<open>What a write leaves alone\<close>

text \<open>A readable file tells its path, so two paths never share one.\<close>

lemma read_same_file:
  assumes "read_raw S p st = Inr a" "read_raw S q st = Inr b" "stored_at S p = stored_at S q"
  shows "p = q"
  using assms by (auto simp: read_raw_def read_file_Inr stored_at_def)

lemma get_reads: "get_concept S p st = Inr c \<Longrightarrow> \<exists>b. read_raw S p st = Inr b"
  by (auto elim: get_concept_raw)

lemma get_path: "get_concept S p st = Inr c \<Longrightarrow> co_source_path c = p"
  by (auto simp: get_concept_def concept_parse_def and_then_eq_Inr lift_error_def
      split: sum.splits option.splits file_repo_error.splits if_splits prod.splits)

lemma get_cong: "st_files st' (stored_at S p) = st_files st (stored_at S p) \<Longrightarrow> get_concept S p st' = get_concept S p st"
  using read_file_cong [of "st_files st'" "cs_prims S" "cs_scope S" p "st_files st" "cs_meta S"]
  by (simp add: get_concept_def read_raw_def stored_at_def)

text \<open>Only the file of the concept and the directory indexes change, wherever the write stops.\<close>

lemma put_other:
  assumes good: "good_prims (cs_prims S)" and p: "stored_at S p \<noteq> stored_at S (co_source_path c)"
    and a: "apart S p (snd (put S draws d c st))"
  shows "st_files (snd (put S draws d c st)) (stored_at S p) = st_files st (stored_at S p)"
proof (cases "put S draws d c st = put_batch_with_revision S draws [(d, c)] (cs_revision_op S) None st
    \<and> (\<exists>md. stamp_all S [(d, c)] = Inr [(d, stamp S (pd_confirmed_at d) c)] \<and> to_markdown (cs_yaml S) (stamp S (pd_confirmed_at d) c) = Inr md)")
  case False
  have "snd (put S draws d c st) = st"
  proof (cases "put S draws d c st = put_batch_with_revision S draws [(d, c)] (cs_revision_op S) None st")
    case True
    show ?thesis
    proof (cases "stamp_all S [(d, c)]")
      case (Inl e)
      then show ?thesis unfolding True by (simp add: put_batch_with_revision_def del: stamp_all.simps)
    next
      case (Inr x)
      then have "x = [(d, stamp S (pd_confirmed_at d) c)]" by (simp add: stamp_all_Inr del: stamp_all.simps)
      with False True Inr obtain e where "to_markdown (cs_yaml S) (stamp S (pd_confirmed_at d) c) = Inl e"
        by (cases "to_markdown (cs_yaml S) (stamp S (pd_confirmed_at d) c)") auto
      with Inr \<open>x = _\<close> show ?thesis unfolding True by (simp add: put_batch_with_revision_def put_steps_def del: stamp_all.simps)
    qed
  qed (auto simp: put_def put_batch_def put_batch_internal_def)
  then show ?thesis by simp
next
  case True
  let ?c = "stamp S (pd_confirmed_at d) c" and ?same = "\<lambda>s. st_files s (stored_at S p) = st_files st (stored_at S p)"
  from True obtain md where md: "to_markdown (cs_yaml S) ?c = Inr md" and st: "stamp_all S [(d, c)] = Inr [(d, ?c)]" by blast
  let ?five = "[revision_step S d (cs_revision_op S) None ?c md, write_raw S d (co_source_path c) (as_bytes md), registry_step S d ?c,
    index_step S d ?c, vector_step S ?c]"
  have run: "put S draws d c st = run_steps (?five @ [regen_index_md S draws, \<lambda>st. (Inr (), invalidate_scope (cs_scope_id S) st)]) st"
    using True md st by (simp only: put_batch_with_revision_def put_steps_def sum.case prod.case list.distinct if_False list.map
        concat.simps append_Nil2 append_Nil append_Cons stamp_sel)
  have five: "?same (snd (run_steps ?five st))"
  proof (rule run_steps_invariant)
    fix f and s :: store_state assume "f \<in> set ?five" "?same s"
    then show "?same (snd (f s))"
      using write_raw_other [OF good p, of d "as_bytes md" s] revision_step_state [of S d "cs_revision_op S" None ?c md s]
      by (auto simp: registry_step_def index_step_def vector_step_def split: sum.splits)
  qed simp
  show ?thesis
  proof (cases "run_steps ?five st")
    case (Pair r s5)
    show ?thesis
    proof (cases r)
      case (Inl e)
      then show ?thesis using five Pair unfolding run run_steps_append by simp
    next
      case (Inr u)
      obtain files where f: "snd (regen_index_md S draws s5) = s5\<lparr>st_files := files\<rparr>" using regen_state by blast
      have put: "snd (put S draws d c st) = snd (regen_index_md S draws s5)
          \<or> snd (put S draws d c st) = invalidate_scope (cs_scope_id S) (snd (regen_index_md S draws s5))"
        unfolding run run_steps_append Pair Inr by (cases "regen_index_md S draws s5") (auto split: sum.splits)
      then have same: "st_registry (snd (put S draws d c st)) = st_registry s5"
          "st_files (snd (put S draws d c st)) = st_files (snd (regen_index_md S draws s5))"
        using f by (auto simp: invalidate_scope_def)
      have "apart S p s5" using a apart_cong [OF same(1)] by simp
      then have "st_files (snd (regen_index_md S draws s5)) (stored_at S p) = st_files s5 (stored_at S p)"
        by (rule regen_other [OF good])
      then show ?thesis using five Pair same(2) by simp
    qed
  qed
qed

lemma record_fst [simp]: "fst (snd (put_and_record S D c w)) = snd (put S (fd_regen D) (fd_put D) c (fst w))"
  by (auto simp: put_and_record_def split: prod.splits sum.splits)

lemma put_and_record_Inr:
  "put_and_record S D c w = (Inr (), w') \<longleftrightarrow> (\<exists>st. put S (fd_regen D) (fd_put D) c (fst w) = (Inr (), st) \<and>
     w' = (st, record_hot_write (fd_hot D) (cs_scope_id S) (co_source_path c) (snd w)))"
  by (auto simp: put_and_record_def split: prod.splits sum.splits)

text \<open>What a successful put leaves of its concept.\<close>

lemma put_leaves:
  assumes "good_prims (cs_prims S)" "draws_ok d" "put S draws d c st = (Inr (), st')"
  shows "\<exists>md. to_markdown (cs_yaml S) (stamp S (pd_confirmed_at d) c) = Inr md \<and>
    (apart S (co_source_path c) st' \<longrightarrow> file_holds S (co_source_path c) (as_bytes md) (st_files st')) \<and>
    (\<exists>e \<in> set (list_concepts S st'). ce_path e = co_source_path c \<and> ce_title e = concept_title c)"
proof -
  let ?c = "stamp S (pd_confirmed_at d) c"
  obtain md st1 st2 st0 where md: "to_markdown (cs_yaml S) ?c = Inr md"
    and w: "write_raw S d (co_source_path c) (as_bytes md) st1 = (Inr (), st2)"
    and reg: "st_registry st' = st_registry (snd (registry_step S d ?c st))"
    and f: "st_files st0 = st_files st2" "st_files st' = st_files (snd (regen_index_md S draws st0))"
    and same: "st_registry st0 = st_registry st'"
    by (rule put_one_steps [OF put_batch_one(1) [OF assms(3)]])
  have held: "file_holds S (co_source_path c) (as_bytes md) (st_files st2)" by (rule file_holds_write [OF w assms(1,2)])
  have "file_holds S (co_source_path c) (as_bytes md) (st_files st')" if "apart S (co_source_path c) st'"
    using held regen_other [OF assms(1), of "co_source_path c" st0 draws] that f by (simp add: apart_cong [OF same] file_holds_def)
  moreover let ?e = "\<lparr>ce_path = co_source_path c, ce_title = concept_title ?c, ce_concept_type = fm_type (co_frontmatter ?c),
      ce_updated_at = pd_registry_at d\<rparr>"
  have "(cs_scope_id S, ?e) \<in> set (st_registry st')" unfolding reg by (simp add: registry_step_def registry_upsert_mem)
  then have "?e \<in> set (list_concepts S st')" by (force simp: list_concepts_def)
  moreover have "concept_title ?c = concept_title c" by (rule stamp_title)
  ultimately show ?thesis using md by (intro exI [of _ md]) force
qed

section \<open>The search for a free path\<close>

lemma free_path_Inr:
  "free_path fuel S st content base path n = Some (Inr found) \<Longrightarrow>
     (found = path \<or> (\<exists>k. found = suffixed base k)) \<and>
     ((\<exists>p. get_concept S found st = Inl (Store_not_found p)) \<or>
      (\<exists>c. get_concept S found st = Inr c \<and> trim (co_body c) = trim content))"
proof (induction fuel arbitrary: path n)
  case (Suc fuel)
  show ?case
  proof (cases "get_concept S path st")
    case (Inl e)
    with Suc.prems show ?thesis by (cases e) auto
  next
    case (Inr c)
    show ?thesis
    proof (cases "trim (co_body c) = trim content")
      case False
      with Suc.prems Inr have "free_path fuel S st content base (suffixed base n) (n + 1) = Some (Inr found)" by simp
      from Suc.IH [OF this] show ?thesis by blast
    qed (use Suc.prems Inr in auto)
  qed
qed simp

text \<open>As long as the search goes on, every candidate is a readable file.\<close>

lemma free_path_None:
  "free_path (Suc fuel) S st content base path n = None \<Longrightarrow>
     (\<exists>c. get_concept S path st = Inr c) \<and> (\<forall>i < fuel. \<exists>c. get_concept S (suffixed base (n + of_nat i)) st = Inr c)"
proof (induction fuel arbitrary: path n)
  case 0
  then show ?case by (auto split: sum.splits store_error.splits)
next
  case (Suc fuel)
  obtain c where c: "get_concept S path st = Inr c" and "free_path (Suc fuel) S st content base (suffixed base n) (n + 1) = None"
    using Suc.prems by (subst (asm) free_path.simps) (auto split: sum.splits store_error.splits if_splits)
  from Suc.IH [OF this(2)] have "\<exists>c. get_concept S (suffixed base n) st = Inr c"
    "\<forall>i < fuel. \<exists>c. get_concept S (suffixed base (n + 1 + of_nat i)) st = Inr c" by blast+
  then have "\<exists>c. get_concept S (suffixed base (n + of_nat i)) st = Inr c" if "i < Suc fuel" for i
    using that by (cases i) (auto simp: add.assoc)
  with c show ?case by blast
qed

lemma suffixed_inject: "suffixed base m = suffixed base n \<longleftrightarrow> m = n"
  by (simp add: suffixed_def flip: word_unat_eq_iff)

lemma of_nat_inj_32: "i < 2 ^ 32 \<Longrightarrow> j < 2 ^ 32 \<Longrightarrow> (of_nat i :: 32 word) = of_nat j \<longleftrightarrow> i = j"
  using unat_of_nat [of i, where 'a = 32] unat_of_nat [of j, where 'a = 32] by (simp add: word_unat_eq_iff)

lemma readable_files_distinct:
  assumes "\<forall>i < m. \<exists>c. get_concept S (path i) st = Inr c" "inj_on path {..<m}" "finite (dom (st_files st))"
  shows "m \<le> card (dom (st_files st))"
proof -
  have "\<exists>b. read_raw S (path i) st = Inr b" if "i < m" for i using assms(1) that get_reads by blast
  then have reads: "\<exists>b. read_raw S (path i) st = Inr b" "stored_at S (path i) \<in> dom (st_files st)" if "i < m" for i
    using that by (auto simp: read_raw_def read_file_Inr stored_at_def)
  have "inj_on (\<lambda>i. stored_at S (path i)) {..<m}"
  proof (rule inj_onI)
    fix i j assume ij: "i \<in> {..<m}" "j \<in> {..<m}" "stored_at S (path i) = stored_at S (path j)"
    with reads(1) [of i] reads(1) [of j] have "path i = path j" using read_same_file by blast
    with ij assms(2) show "i = j" by (auto dest: inj_onD)
  qed
  then have "card {..<m} \<le> card (dom (st_files st))"
    by (rule card_inj_on_le) (use reads(2) assms(3) in auto)
  then show ?thesis by simp
qed

lemma free_path_more: "free_path fuel S st content base path n = Some r \<Longrightarrow> free_path (fuel + k) S st content base path n = Some r"
  by (induction fuel arbitrary: path n) (auto split: sum.splits store_error.splits if_splits)

lemma free_path_ends:
  assumes "finite (dom (st_files st))" "card (dom (st_files st)) + 2 \<le> fuel" "card (dom (st_files st)) < 2 ^ 32"
  shows "free_path fuel S st content base path n \<noteq> None"
proof -
  let ?m = "Suc (card (dom (st_files st)))"
  have "free_path (Suc ?m) S st content base path n \<noteq> None"
  proof
    assume "free_path (Suc ?m) S st content base path n = None"
    from free_path_None [OF this] have all: "\<forall>i < ?m. \<exists>c. get_concept S (suffixed base (n + of_nat i)) st = Inr c" by blast
    have "inj_on (\<lambda>i. suffixed base (n + of_nat i)) {..<?m}"
      using assms(3) by (auto simp: inj_on_def suffixed_inject of_nat_inj_32)
    from readable_files_distinct [OF all this assms(1)] show False by simp
  qed
  moreover obtain k where "fuel = Suc ?m + k" using assms(2) le_Suc_ex by (metis add_2_eq_Suc')
  ultimately show ?thesis using free_path_more by (metis not_Some_eq)
qed

section \<open>Properties\<close>

text \<open>The record of a write in the hot memory: the path is the freshest, cached answers are gone.\<close>

definition hot_head :: "fb_draws \<Rightarrow> rstring \<Rightarrow> rstring \<Rightarrow> hot_global \<Rightarrow> bool" where
  "hot_head D scope path hot \<longleftrightarrow> (\<exists>s. scopes_of hot scope = Some s \<and> hot_qas s = [] \<and>
     hot_concepts s \<noteq> [] \<and> last (hot_concepts s) = (path, fd_hot D))"

lemma drop_oldest_last: "0 < n \<Longrightarrow> xs \<noteq> [] \<Longrightarrow> drop_oldest n xs \<noteq> [] \<and> last (drop_oldest n xs) = last xs"
  by (induction n xs rule: drop_oldest.induct) auto

lemma record_hot_head: "hot_head D scope path (record_hot_write (fd_hot D) scope path hot)"
  using drop_oldest_last [of MAX_CONCEPTS "forget_path path (hot_concepts (fst (state_for scope hot))) @ [(path, fd_hot D)]"]
  by (simp add: hot_head_def record_hot_write_def Let_def put_state_def split_def MAX_CONCEPTS_def scopes_of_def)

text \<open>A concept that reads survives a write to a path that does not read, or reads as something else.\<close>

lemma put_spares:
  assumes good: "good_prims (cs_prims S)" and c: "get_concept S p st = Inr c"
    and path: "(\<exists>q. get_concept S (co_source_path x) st = Inl (Store_not_found q)) \<or> (\<exists>c'. get_concept S (co_source_path x) st = Inr c')"
    and other: "p \<noteq> co_source_path x" and a: "apart S p (snd (put S draws d x st))"
  shows "get_concept S p (snd (put S draws d x st)) = Inr c"
proof -
  obtain b where b: "read_raw S p st = Inr b" using get_reads [OF c] by blast
  have "stored_at S p \<noteq> stored_at S (co_source_path x)"
  proof
    assume same: "stored_at S p = stored_at S (co_source_path x)"
    have "read_raw S (co_source_path x) st \<noteq> Inl Not_found"
      using b same by (auto simp: read_raw_def read_file_Inr stored_at_def) (auto simp: read_file_def Let_def validate_path_def crypto_err_def
          split_outer_def ok_or_def and_then_def split: sum.splits if_splits option.splits)
    with path obtain b' where "read_raw S (co_source_path x) st = Inr b'"
      by (cases "read_raw S (co_source_path x) st") (auto simp: get_concept_def split: file_repo_error.splits)
    with read_same_file [OF b this same] other show False by simp
  qed
  from get_cong [OF put_other [OF good this a]] c show ?thesis by simp
qed


text \<open>A deterministic add ends: with fewer files than numbers to try, two more looks than there are files are enough.\<close>
theorem fallback_add_returns:
  assumes "finite (dom (st_files (fst w)))" "card (dom (st_files (fst w))) + 2 \<le> fuel" "card (dom (st_files (fst w))) < 2 ^ 32"
  shows "\<exists>r w'. write_add fuel S D content hint shelf ty w = Some (r, w')"
  using free_path_ends [OF assms, of S content "derive_path hint shelf content" "derive_path hint shelf content" 2]
  by (auto simp: write_add_def Let_def split: option.split sum.split prod.split)


section \<open>Flags pile up\<close>

text \<open>Flagging the same link again puts another marker at the same place: the link stays broken, so every maintain run adds one.\<close>

lemma find_str_Some:
  "find_str s p = Some i \<longleftrightarrow> i \<le> length s \<and> starts_with (drop i s) p \<and> (\<forall>j < i. \<not> starts_with (drop j s) p)"
proof -
  have "find_str s p = Some i \<longleftrightarrow> (\<exists>k < length s + 1. starts_with (drop ([0..<length s + 1] ! k) s) p \<and>
      i = [0..<length s + 1] ! k \<and> (\<forall>j < k. \<not> starts_with (drop ([0..<length s + 1] ! j) s) p))"
    unfolding find_str_def find_Some_iff by simp
  also have "\<dots> \<longleftrightarrow> (\<exists>k < length s + 1. starts_with (drop k s) p \<and> i = k \<and> (\<forall>j < k. \<not> starts_with (drop j s) p))"
    by (intro ex_cong conj_cong refl) (simp_all del: upt_Suc)
  finally show ?thesis by auto
qed

lemma starts_with_drop_insert:
  assumes "j + length p \<le> length u"
  shows "starts_with (drop j (u @ v)) p = starts_with (drop j (u @ w)) p"
  using assms by (simp add: starts_with_def)

lemma flag_body_again:
  assumes "flag_body target body = Some once"
  shows "\<exists>twice. flag_body target once = Some twice \<and> length twice = length once + length BROKEN_MARK"
proof -
  let ?p = "str '']('' @ target @ str '')''"
  from assms obtain i where i: "find_str body ?p = Some i" "once = take (i + length ?p) body @ BROKEN_MARK @ drop (i + length ?p) body"
    by (auto simp: flag_body_def Let_def)
  let ?u = "take (i + length ?p) body"
  have occurs: "i \<le> length body" "starts_with (drop i body) ?p" "\<forall>j < i. \<not> starts_with (drop j body) ?p"
    using i(1) unfolding find_str_Some by blast+
  then have len: "i + length ?p \<le> length body" by (auto simp: starts_with_iff dest!: arg_cong [of _ _ length])
  have same: "starts_with (drop j once) ?p = starts_with (drop j body) ?p" if "j \<le> i" for j
  proof -
    have "j + length ?p \<le> length ?u" using that len by simp
    from starts_with_drop_insert [OF this, of "BROKEN_MARK @ drop (i + length ?p) body" "drop (i + length ?p) body"]
    show ?thesis by (simp only: i(2) append_take_drop_id)
  qed
  have "i \<le> length once" using len by (simp add: i(2))
  then have "find_str once ?p = Some i" using occurs(2,3) same by (simp only: find_str_Some) simp
  then show ?thesis by (simp only: flag_body_def Let_def) simp
qed

section \<open>Titles without ASCII letters\<close>

text \<open>A text whose title has no ASCII letter or digit is filed under an empty name.\<close>

lemma derive_path_no_ascii:
  assumes "list_all (\<lambda>c. \<not> is_ascii_alphanumeric c) (derive_title content)"
  shows "derive_path None None content = str ''/.md''"
proof -
  have "list_all (\<lambda>c. \<not> is_ascii_alphanumeric c) s \<Longrightarrow> kebab_chars True s = []" for s by (induction s) auto
  moreover have "list_all (\<lambda>c. \<not> is_ascii_alphanumeric c) (take 64 (derive_title content))"
    using assms by (auto simp: list_all_iff dest: in_set_takeD)
  ultimately show ?thesis by (simp add: derive_path_def slugify_text_def trim_char_def)
qed

section \<open>A small store\<close>

text \<open>A memo is added under the hint \<open>x\<close> and then amended; the serialisers know its front matter.\<close>

definition memo_fm :: frontmatter where
  "memo_fm = default_frontmatter\<lparr>fm_type := str ''Note'', fm_title := Some (str ''old''), fm_timestamp := Some [], fm_confirmed_at := Some []\<rparr>"

definition memo_yaml :: yaml where
  "memo_yaml = \<lparr>from_yaml = (\<lambda>t. if t = str ''type: Note'' @ [NL] then Some memo_fm else None),
     to_yaml = (\<lambda>fm. if fm = memo_fm then Some (fence @ [NL] @ str ''type: Note'' @ [NL]) else None)\<rparr>"

definition memo_store :: concept_store where
  "memo_store = note_store\<lparr>cs_yaml := memo_yaml, cs_doc := \<lparr>dj_to = (\<lambda>x. Some [1]), dj_from = (\<lambda>b. None)\<rparr>\<rparr>"

definition memo_draws :: fb_draws where
  "memo_draws = \<lparr>fd_stamp = [], fd_put = note_draws, fd_regen = (\<lambda>_. note_draws), fd_hot = 5\<rparr>"

definition memo_path :: rstring where "memo_path = str ''/x.md''"

definition memo_of :: "rstring \<Rightarrow> concept" where
  "memo_of body = \<lparr>co_frontmatter = memo_fm, co_body = body, co_source_path = memo_path\<rparr>"

definition memo_md :: "rstring \<Rightarrow> rstring" where
  "memo_md body = fence @ [NL] @ str ''type: Note'' @ [NL] @ fence @ [NL] @ body"

lemma good_memo_yaml: "good_yaml memo_yaml"
proof -
  let ?y = "fence @ [NL] @ str ''type: Note'' @ [NL]" let ?t = "trim_end (trim_start_matches (fence @ [NL]) ?y)"
  have "to_yaml note_yaml note_fm = Some ?y" by (simp add: note_yaml_def)
  then have y: "from_yaml note_yaml (?t @ [NL]) = Some note_fm" "CR \<notin> set ?y" "list_all (\<lambda>l. \<not> is_fence l) (split_inclusive NL (?t @ [NL]))"
    using good_note_yaml unfolding good_yaml_def Let_def by blast+
  then have "?t @ [NL] = str ''type: Note'' @ [NL]" by (simp only: note_yaml_def yaml.select_convs option.distinct split: if_splits)
  with y(2,3) have memo: "from_yaml memo_yaml (?t @ [NL]) = Some memo_fm \<and> CR \<notin> set ?y \<and> list_all (\<lambda>l. \<not> is_fence l) (split_inclusive NL (?t @ [NL]))"
    by (simp only: memo_yaml_def yaml.select_convs if_True simp_thms)
  show ?thesis unfolding good_yaml_def Let_def
  proof (intro allI impI)
    fix fm y assume "to_yaml memo_yaml fm = Some y"
    then have "fm = memo_fm \<and> y = ?y" by (auto simp only: memo_yaml_def yaml.select_convs split: if_splits)
    with memo show "from_yaml memo_yaml (trim_end (trim_start_matches (fence @ [NL]) y) @ [NL]) = Some fm \<and> CR \<notin> set y \<and>
        list_all (\<lambda>l. \<not> is_fence l) (split_inclusive NL (trim_end (trim_start_matches (fence @ [NL]) y) @ [NL]))"
      by (simp only: simp_thms)
  qed
qed

lemma memo_sel [simp]:
  "cs_prims memo_store = toy_prims" "cs_meta memo_store = ascii_json" "cs_yaml memo_store = memo_yaml"
  "cs_lower memo_store = (\<lambda>s. s)" "cs_rfc3339_ok memo_store = (\<lambda>_. True)" "cs_scope memo_store = demo_scope"
  "cs_scope_id memo_store = str ''user:u''"
  "cs_provenance memo_store = None" "cs_revision_op memo_store = None" "dj_to (cs_doc memo_store) = (\<lambda>x. Some [1])"
  "fd_put memo_draws = note_draws" "fd_regen memo_draws = (\<lambda>_. note_draws)" "fd_stamp memo_draws = []"
  by (simp_all add: memo_store_def memo_draws_def)

lemma memo_store_ok: "store_ok memo_store" "live_store memo_store"
proof -
  show "store_ok memo_store" by (simp add: store_ok_def good_toy_prims good_ascii_json good_memo_yaml)
  show "live_store memo_store" using note_store_ok(2) by (simp add: live_store_def)
qed

lemma memo_stamp [simp]: "stamp memo_store (pd_confirmed_at note_draws) (memo_of body) = memo_of body"
  by (simp add: stamp_def note_draws_def memo_of_def memo_fm_def)

lemma memo_sels [simp]: "co_source_path (memo_of body) = memo_path" "co_frontmatter (memo_of body) = memo_fm" "co_body (memo_of body) = body"
  by (simp_all add: memo_of_def)

lemma memo_markdown: "to_markdown memo_yaml (memo_of body) = Inr (memo_md body)"
proof -
  have "trim_end (trim_start_matches (fence @ [NL]) (fence @ [NL] @ str ''type: Note'' @ [NL])) = str ''type: Note''" by code_simp
  then show ?thesis by (simp add: to_markdown_def memo_yaml_def memo_md_def)
qed

lemma memo_token_head:
  assumes "token_of (store_index memo_store) s = token_of (store_index memo_store) t" "s \<noteq> []" "t \<noteq> []"
  shows "hd (as_bytes s) = hd (as_bytes t)"
proof -
  let ?k = "token_key (store_index_keys memo_store)"
  from assms(1) have "toy_unhex (toy_hex (pad_to 32 (as_bytes s @ ?k))) = toy_unhex (toy_hex (pad_to 32 (as_bytes t @ ?k)))"
    by (simp add: token_of_def store_index_def index_token_def toy_prims_def)
  then have "pad_to 32 (as_bytes s @ ?k) = pad_to 32 (as_bytes t @ ?k)" by (simp add: toy_hex_props)
  then have "hd (pad_to 32 (as_bytes s @ ?k)) = hd (pad_to 32 (as_bytes t @ ?k))" by simp
  moreover have "as_bytes u \<noteq> []" if "u \<noteq> []" for u using that by (cases u) (auto simp: as_bytes_def utf8_char_def)
  ultimately show ?thesis using assms(2,3) by (simp add: pad_to_def hd_append)
qed

text \<open>The two texts of the memo.\<close>

definition memo_body :: "rstring \<Rightarrow> bool" where
  "memo_body body \<longleftrightarrow> body = str ''old'' \<or> body = str ''old'' @ addendum [] (str ''n'')"

lemma memo_facts:
  assumes "memo_body body"
  shows "list_all is_scalar (memo_md body)" "length (as_bytes (memo_md body)) < 1000" "crlf_to_lf body = body"
    "inj_on (token_of (store_index memo_store)) (set (doc_tokens (\<lambda>s. s) (memo_of body)))"
proof -
  show "list_all is_scalar (memo_md body)"
    using assms by (auto simp: memo_body_def memo_md_def fence_def addendum_def is_scalar_def)
  show "length (as_bytes (memo_md body)) < 1000" using assms unfolding memo_body_def by (elim disjE) (simp_all only:, code_simp+)
  show "crlf_to_lf body = body" using assms by (auto simp: memo_body_def addendum_def intro: crlf_no_cr)
  have "doc_tokens (\<lambda>s. s) (memo_of body) \<in> {[str ''old'', str ''old''], [str ''old'', str ''old'', str ''mycelium2'', str ''update'']}"
    using assms unfolding memo_body_def by (elim disjE) (simp_all only:, code_simp+)
  moreover have "distinct (map (token_of (store_index memo_store)) [str ''old'', str ''mycelium2'', str ''update''])"
    by (auto simp: as_bytes_def utf8_char_def byte_of_def dest!: memo_token_head)
  then have "inj_on (token_of (store_index memo_store)) {str ''old'', str ''mycelium2'', str ''update''}"
    by (simp only: distinct_map list.set)
  ultimately show "inj_on (token_of (store_index memo_store)) (set (doc_tokens (\<lambda>s. s) (memo_of body)))"
    by (elim insertE emptyE) (auto elim!: inj_on_subset)
qed

text \<open>A put that goes through leaves every file within the bound.\<close>

lemma put_fits:
  assumes good: "good_prims (cs_prims S)" and draws: "draws_ok d" "\<And>dir. draws_ok (draws dir)"
    and put: "put S draws d c st = (Inr (), st')" and st: "fits (st_files st)"
    and md: "\<And>md meta. to_markdown (cs_yaml S) (stamp S (pd_confirmed_at d) c) = Inr md \<Longrightarrow> meta_to_json (cs_meta S) (co_source_path c) = Some meta \<Longrightarrow>
      74 + length meta + length (as_bytes md) < 2 ^ 64"
    and idx: "\<And>dir meta. dir \<in> set (index_dirs (list_concepts S st')) \<Longrightarrow> meta_to_json (cs_meta S) (index_path dir) = Some meta \<Longrightarrow>
      74 + length meta + length (as_bytes (index_content (list_concepts S st') dir)) < 2 ^ 64"
  shows "fits (st_files st')"
proof -
  let ?c = "stamp S (pd_confirmed_at d) c"
  obtain m st1 st2 st0 where m: "to_markdown (cs_yaml S) ?c = Inr m"
    and 1: "revision_step S d (cs_revision_op S) None ?c m st = (Inr (), st1)"
    and 2: "write_raw S d (co_source_path c) (as_bytes m) st1 = (Inr (), st2)"
    and f: "st_files st0 = st_files st2" "st_files st' = st_files (snd (regen_index_md S draws st0))"
    and reg: "st_registry st0 = st_registry st'"
    by (rule put_one_steps [OF put_batch_one(1) [OF put]])
  have "fits (st_files st1)" using revision_step_state [of S d "cs_revision_op S" None ?c m st] 1 st by auto
  then have f0: "fits (st_files st0)" using write_fits [OF good draws(1) 2] md [OF m] f(1) by simp
  have list: "list_concepts S st0 = list_concepts S st'" by (simp add: list_concepts_def reg)
  have "fits (st_files (snd (regen_index_md S draws st0)))"
    unfolding regen_index_md_def
  proof (rule run_steps_invariant)
    fix g and s :: store_state assume g: "g \<in> set (regen_steps S draws st0)" and s: "fits (st_files s)"
    then obtain dir where dir: "dir \<in> set (index_dirs (list_concepts S st'))"
      and g': "g = write_raw S (draws dir) (index_path dir) (as_bytes (index_content (list_concepts S st') dir))"
      by (auto simp: regen_steps_def Let_def list)
    show "fits (st_files (snd (g s)))"
    proof (cases "g s")
      case (Pair r s')
      show ?thesis
      proof (cases r)
        case (Inl e)
        then have "st_files s' = st_files s" using Pair by (auto simp: g' write_raw_def write_file_def split: sum.splits)
        then show ?thesis using s Pair by simp
      next
        case (Inr u)
        then have "write_raw S (draws dir) (index_path dir) (as_bytes (index_content (list_concepts S st') dir)) s = (Inr (), s')"
          using Pair by (simp add: g')
        from write_fits [OF good draws(2) this s idx [OF dir]] show ?thesis using Pair by simp
      qed
    qed
  qed (rule f0)
  then show ?thesis by (simp add: f(2))
qed

text \<open>What holds of the memo store between the operations.\<close>

definition memo_entry :: "rstring \<times> concept_entry" where
  "memo_entry = (str ''user:u'', \<lparr>ce_path = memo_path, ce_title = str ''old'', ce_concept_type = str ''Note'', ce_updated_at = []\<rparr>)"

definition memo_inv :: "history \<Rightarrow> nat \<Rightarrow> store_state \<Rightarrow> bool" where
  "memo_inv h lo st \<longleftrightarrow> (st_registry st = [] \<or> st_registry st = [memo_entry]) \<and> fits (st_files st)
     \<and> chain_holds (store_revisions memo_store) (store_token memo_store memo_path) h lo (st_revisions st)
     \<and> readable memo_store memo_path st"

lemma memo_dirs:
  assumes "st_registry st = [] \<or> st_registry st = [memo_entry]"
  shows "index_dirs (list_concepts memo_store st) = [[]]"
    "length (as_bytes (index_content (list_concepts memo_store st) [])) < 1000"
proof -
  have "list_concepts memo_store st = [] \<or> list_concepts memo_store st = [snd memo_entry]"
    using assms by (auto simp: list_concepts_def order_by_def memo_entry_def)
  then show "index_dirs (list_concepts memo_store st) = [[]]"
    "length (as_bytes (index_content (list_concepts memo_store st) [])) < 1000"
    by (elim disjE; simp only:; code_simp)+
qed

lemma memo_registry:
  assumes "st_registry st = [] \<or> st_registry st = [memo_entry]"
  shows "st_registry (snd (registry_step memo_store note_draws (memo_of body) st)) = [memo_entry]"
  using assms by (auto simp: registry_step_def registry_upsert_def memo_entry_def concept_title_def memo_fm_def
      default_frontmatter_def note_draws_def)

lemma memo_path_ok: "path_ok memo_path" "\<not> starts_with memo_path queue_prefix"
  by (simp_all add: memo_path_def path_ok_def starts_with_def is_scalar_def queue_prefix_def)

lemma memo_write:
  assumes body: "memo_body body" and inv: "memo_inv h lo st" and small: "length h + 1 < 2 ^ 63"
  obtains st' n payload lo' where "put memo_store (\<lambda>_. note_draws) note_draws (memo_of body) st = (Inr (), st')"
    "memo_inv (h @ [(n, payload)]) lo' st'" "get_concept memo_store memo_path st' = Inr (memo_of body)"
    "apart memo_store memo_path st'"
proof -
  note good = good_toy_prims note_draws_ok
  have inv': "st_registry st = [] \<or> st_registry st = [memo_entry]" "fits (st_files st)" "readable memo_store memo_path st"
    "chain_holds (store_revisions memo_store) (store_token memo_store memo_path) h lo (st_revisions st)"
    using inv by (simp_all only: memo_inv_def)
  have paths: "paths_ok memo_store st" using inv'(1) memo_path_ok by (auto simp: paths_ok_def list_concepts_def order_by_def memo_entry_def)
  have ok: "batch_ok memo_store [(note_draws, memo_of body)]" unfolding batch_ok_def by (simp add: memo_path_def memo_fm_def) code_simp
  have yaml: "to_yaml memo_yaml memo_fm \<noteq> None" by (simp add: memo_yaml_def)
  obtain st' where "put_batch_with_revision memo_store (\<lambda>_. note_draws) [(note_draws, memo_of body)] None None st = (Inr (), st')"
    using write_total [OF memo_store_ok(2), where c = "memo_of body" and d = note_draws and st = st and opo = None and so = None
        and h = h and lo = lo and draws = "\<lambda>_. note_draws"]
      memo_path_ok(1) ok yaml memo_facts(4) [OF body] inv' paths small by auto
  then have put: "put memo_store (\<lambda>_. note_draws) note_draws (memo_of body) st = (Inr (), st')"
    using memo_path_ok(2) by (simp add: put_def put_batch_def put_batch_internal_def)
  have reg: "st_registry st' = [memo_entry]"
    by (rule put_one_steps [OF put_batch_one(1) [OF put]]) (simp add: memo_registry [OF inv'(1)])
  note dirs = memo_dirs [of st', OF disjI2 [OF reg]]
  have meta: "length meta < 1000" if "meta_to_json ascii_json p = Some meta" "length (as_bytes p) < 1000" for p meta
    using that by (simp add: ascii_json_def split: if_splits)
  have lens: "length (as_bytes memo_path) < 1000" "length (as_bytes (index_path [])) < 1000" by code_simp+
  have fits: "fits (st_files st')"
    by (rule put_fits [OF _ good(2) good(2) put inv'(2)])
      (use good(1) meta lens memo_facts(2) [OF body] dirs memo_markdown [of body] in \<open>fastforce+\<close>)
  have "stored_at memo_store memo_path \<noteq> stored_at memo_store (index_path [])" by code_simp
  then have apart: "apart memo_store memo_path st'" by (simp only: apart_def dirs list.pred_inject simp_thms)
  have "trim (str ''Note'') \<noteq> []" by code_simp
  then have "writable memo_store note_draws (memo_of body)"
    using good(2) memo_facts(1) [OF body] by (simp add: writable_def memo_markdown) (simp add: memo_fm_def)
  from put_one_get [OF memo_store_ok(1) this fits _ put_batch_one(1) [OF put]] apart memo_facts(3) [OF body]
  have get: "get_concept memo_store memo_path st' = Inr (memo_of body)" by (simp add: stored_concept_def)
  have "readable memo_store memo_path st'" by (rule get_concept_raw [OF get]) (simp add: readable_def)
  moreover obtain n payload lo' where "chain_holds (store_revisions memo_store) (store_token memo_store memo_path)
      (h @ [(n, payload)]) lo' (st_revisions st')"
    using write_chain [OF _ good(2) _ put_batch_one(1) [OF put], of h lo] inv'(4) small memo_path_ok(2) good(1) by auto
  ultimately have "memo_inv (h @ [(n, payload)]) lo' st'" using fits reg by (simp only: memo_inv_def) blast
  then show thesis by (rule that [OF put _ get apart])
qed

lemma memo_inv_empty: "memo_inv [] 0 empty_state"
  by (simp add: memo_inv_def empty_state_def fits_def chain_holds_def readable_def read_raw_def read_file_def validate_path_def
      starts_with_def Let_def memo_path_def)

lemma put_stamped:
  "stamp S (pd_confirmed_at d) x = stamp S (pd_confirmed_at d) c \<Longrightarrow> co_source_path x = co_source_path c \<Longrightarrow>
     put S draws d x st = put S draws d c st"
  by (simp add: put_def put_batch_def put_batch_internal_def put_batch_with_revision_def)

lemma memo_added: "put memo_store draws note_draws (added_concept (str ''old'') None [] memo_path) st = put memo_store draws note_draws (memo_of (str ''old'')) st"
proof (rule put_stamped)
  have "derive_title (str ''old'') = str ''old''" by code_simp
  then show "stamp memo_store (pd_confirmed_at note_draws) (added_concept (str ''old'') None [] memo_path) =
      stamp memo_store (pd_confirmed_at note_draws) (memo_of (str ''old''))"
    by (simp add: added_concept_def stamp_def note_draws_def memo_of_def memo_fm_def)
qed (simp add: added_concept_def)

lemma memo_first:
  obtains w n payload lo where
    "write_add 2 memo_store memo_draws (str ''old'') (Some (str ''x'')) None None (empty_state, None) = Some (Inr memo_path, w)"
    "memo_inv [(n, payload)] lo (fst w)" "get_concept memo_store memo_path (fst w) = Inr (memo_of (str ''old''))"
    "apart memo_store memo_path (fst w)"
proof -
  obtain st n p lo where st: "put memo_store (\<lambda>_. note_draws) note_draws (memo_of (str ''old'')) empty_state = (Inr (), st)"
    "memo_inv ([] @ [(n, p)]) lo st" "get_concept memo_store memo_path st = Inr (memo_of (str ''old''))" "apart memo_store memo_path st"
    by (rule memo_write [OF _ memo_inv_empty, where body = "str ''old''"]) (simp_all add: memo_body_def)
  have base: "derive_path (Some (str ''x'')) None (str ''old'') = memo_path" by code_simp
  have "get_concept memo_store memo_path empty_state = Inl (Store_not_found memo_path)"
    by (simp add: get_concept_def read_raw_def read_file_def validate_path_def empty_state_def Let_def memo_path_def starts_with_def)
  then have "free_path 2 memo_store empty_state (str ''old'') memo_path memo_path 2 = Some (Inr memo_path)"
    by (simp add: numeral_2_eq_2)
  then have "\<exists>hot. write_add 2 memo_store memo_draws (str ''old'') (Some (str ''x'')) None None (empty_state, None) = Some (Inr memo_path, (st, hot))"
    by (simp add: write_add_def base put_and_record_def memo_added st(1) del: str_Cons)
  with st(2-4) show thesis using that by fastforce
qed


theorem fallback_add_returns_witness:
  "\<exists>r w. write_add 2 memo_store memo_draws (str ''old'') (Some (str ''x'')) None None (empty_state, None) = Some (r, w)"
  using fallback_add_returns [of "(empty_state, None)" 2] by (simp add: empty_state_def)


end
