(* ===== verification/Agent_Tools.thy ===== *)
theory Agent_Tools
  imports Fallback Queue_Worker Book_Library
begin

text \<open>
  The tools of the librarian agent, \<^verbatim>\<open>crates/mycelium-librarian/src/agent.rs\<close>: search over the scopes of a caller, reading of
  concepts and passages, and the write tools; and the traces of \<^verbatim>\<open>trace.rs\<close>.  The JSON parser and printer, the embedding
  service with the vector rows, and the stack reader are parameters.
\<close>

section \<open>JSON values\<close>

datatype json =
    J_null
  | J_bool bool
  | J_num real
  | J_str rstring
  | J_arr "json list"
  | J_obj "(rstring \<times> json) list"

fun as_str :: "json \<Rightarrow> rstring option" where
  "as_str (J_str s) = Some s"
| "as_str _ = None"

fun as_bool :: "json \<Rightarrow> bool option" where
  "as_bool (J_bool b) = Some b"
| "as_bool _ = None"

fun as_array :: "json \<Rightarrow> json list option" where
  "as_array (J_arr a) = Some a"
| "as_array _ = None"

fun as_object :: "json \<Rightarrow> (rstring \<times> json) list option" where
  "as_object (J_obj m) = Some m"
| "as_object _ = None"

type_synonym json_args = "(rstring \<times> json) list"

definition arg_opt :: "json_args \<Rightarrow> rstring \<Rightarrow> rstring option" where
  "arg_opt args key = Option.bind (map_of args key) as_str"

definition arg_str :: "json_args \<Rightarrow> rstring \<Rightarrow> rstring" where
  "arg_str args key = (case arg_opt args key of Some s \<Rightarrow> s | None \<Rightarrow> [])"

definition arg_obj :: "json_args \<Rightarrow> rstring \<Rightarrow> json_args option" where
  "arg_obj args key = Option.bind (map_of args key) as_object"

definition include_inactive_arg :: "json_args \<Rightarrow> bool" where
  "include_inactive_arg args = (case Option.bind (map_of args (str ''include_inactive'')) as_bool of Some b \<Rightarrow> b | None \<Rightarrow> False)"

fun opt_json :: "rstring option \<Rightarrow> json" where
  "opt_json None = J_null"
| "opt_json (Some s) = J_str s"

section \<open>Books\<close>

definition parse_book_uri :: "rstring \<Rightarrow> (rstring \<times> rstring) option" where
  "parse_book_uri uri =
     (case strip_prefix uri (str ''book://'') of
        None \<Rightarrow> None
      | Some rest \<Rightarrow>
          (case (case split_once 35 rest of Some x \<Rightarrow> x | None \<Rightarrow> (rest, [])) of
             (slug, anchor) \<Rightarrow>
               if slug = [] \<or> slug = str ''.'' \<or> slug = str ''..'' \<or> SLASH \<in> set slug \<or> BACKSLASH \<in> set slug \<or> 0 \<in> set slug then None
               else Some (slug, anchor)))"

definition is_chapter_anchor :: "rstring \<Rightarrow> bool" where
  "is_chapter_anchor anchor =
     (let parts = split_on DASH anchor in
      3 \<le> length parts \<and> parts ! 0 = str ''ch'' \<and> list_all is_ascii_digit (parts ! 1) \<and> parts ! 1 \<noteq> [] \<and>
      (length parts = 3 \<and> \<not> list_all is_ascii_digit (parts ! 2) \<or> 3 < length parts))"

definition anchor_line :: "rstring \<Rightarrow> rstring option" where
  "anchor_line t =
     (case strip_prefix t (str ''#'') of
        None \<Rightarrow> None
      | Some h \<Rightarrow>
          (let heading = trim_start h in
           case find_str heading (str ''{#'') of
             None \<Rightarrow> None
           | Some brace \<Rightarrow>
               (case find_str (drop brace heading) (str ''}'') of
                  None \<Rightarrow> None
                | Some stop \<Rightarrow>
                    (let anchor = take (stop - 2) (drop (brace + 2) heading) in
                     if is_chapter_anchor anchor then Some (str ''- '' @ anchor @ str '' '' @ [8212] @ str '' '' @ trim (take brace heading))
                     else None))))"

text \<open>The loop over the lines; \<open>n\<close> is what the cap of 120 leaves.\<close>

fun anchor_lines :: "nat \<Rightarrow> bool \<Rightarrow> rstring list \<Rightarrow> rstring list" where
  "anchor_lines n in_fence [] = []"
| "anchor_lines n in_fence (line # ls) =
     (let t = trim_start line in
      if starts_with t (str ''```'') \<or> starts_with t (str ''~~~'') then anchor_lines n (\<not> in_fence) ls
      else if in_fence then anchor_lines n in_fence ls
      else case anchor_line t of
        None \<Rightarrow> if n = 0 then [] else anchor_lines n in_fence ls
      | Some l \<Rightarrow> l # (if n \<le> 1 then [] else anchor_lines (n - 1) in_fence ls))"

definition list_chapter_anchors :: "rstring \<Rightarrow> rstring" where
  "list_chapter_anchors text =
     (let out = anchor_lines 120 False (str_lines text) in
      if out = [] then str ''(none found)'' else join_with [NL] out)"

section \<open>Scopes\<close>

text \<open>A scope: its store with what it holds, and \<^verbatim>\<open>top_cosine\<close> over its vector rows.\<close>

record scope_view =
  sv_store :: concept_store
  sv_state :: store_state
  sv_cosine :: "real list \<Rightarrow> rstring \<Rightarrow> nat \<Rightarrow> (rstring \<times> real) list option"

record embed_client =
  em_batch :: "rstring list \<Rightarrow> rstring + real list list"
  em_model :: rstring

record agent_scopes =
  as_skills :: "scope_view option"
  as_library :: "scope_view option"
  as_stack :: "(rstring \<Rightarrow> rstring + rstring) option"
  as_visible :: "rstring list option"
  as_trace :: "rstring option"
  as_embed :: "embed_client option"

definition library_path_visible :: "agent_scopes \<Rightarrow> rstring \<Rightarrow> bool" where
  "library_path_visible Z path =
     (case as_visible Z of
        None \<Rightarrow> True
      | Some vis \<Rightarrow> hd (split_on SLASH (trim_start_matches [SLASH] path)) \<in> set vis)"

section \<open>Search over the scopes\<close>

datatype fuse_sources = Lexical_only | Hybrid_of "real list" rstring | Vec_only "real list" rstring

definition LEX_POOL :: nat where "LEX_POOL = 50"

definition question_qvec :: "search_query \<Rightarrow> embed_client option \<Rightarrow> (real list \<times> rstring) option" where
  "question_qvec query embedding =
     (case embedding of
        None \<Rightarrow> None
      | Some client \<Rightarrow>
          (let question_text = join_with [SPACE] (sq_terms query) in
           if question_text = [] then None
           else case em_batch client [question_text] of
             Inr (v # vs) \<Rightarrow> if v = [] then None else Some (v, em_model client)
           | _ \<Rightarrow> None))"

text \<open>\<open>None\<close>: the explicit vector mode has no vector, so there are no hits.\<close>

definition choose_sources :: "backend_state \<Rightarrow> search_query \<Rightarrow> embed_client option \<Rightarrow> fuse_sources option" where
  "choose_sources health query embedding =
     (case sq_mode query of
        Lexical \<Rightarrow> Some Lexical_only
      | VectorOnly \<Rightarrow> map_option (\<lambda>(v, m). Vec_only v m) (question_qvec query embedding)
      | Auto \<Rightarrow>
          if embedding \<noteq> None \<and> health \<in> {Green, Yellow}
          then Some (case question_qvec query embedding of Some (v, m) \<Rightarrow> Hybrid_of v m | None \<Rightarrow> Lexical_only)
          else Some Lexical_only)"

definition view_search :: "scope_view \<Rightarrow> search_query \<Rightarrow> search_result list" where
  "view_search V query = store_search (sv_store V) (sv_state V) query"

definition ranked_lex_pool :: "scope_view \<Rightarrow> search_query \<Rightarrow> search_result list" where
  "ranked_lex_pool V query = take LEX_POOL (view_search V query)"

definition vec_pool :: "scope_view \<Rightarrow> real list \<Rightarrow> rstring \<Rightarrow> (rstring \<times> real) list" where
  "vec_pool V qvec model = (case sv_cosine V qvec model LEX_POOL of Some pairs \<Rightarrow> pairs | None \<Rightarrow> [])"

fun f32_value :: "f32 \<Rightarrow> real" where
  "f32_value (Finite x) = real_of_rat x"
| "f32_value _ = 0"

definition fusion_params :: "tunables \<Rightarrow> rrf_params" where
  "fusion_params g = (case live_rrf_params g of (k, wl, wv) \<Rightarrow> \<lparr>rp_rrf_k = real k, rp_w_lex = f32_value wl, rp_w_vec = f32_value wv\<rparr>)"

definition fused_hits :: "scope_view \<Rightarrow> search_query \<Rightarrow> real list \<Rightarrow> rstring \<Rightarrow> search_result list" where
  "fused_hits V query qvec model =
     (let lex_hits = ranked_lex_pool V query; pool = vec_pool V qvec model in
      if lex_hits = [] \<and> pool = [] then []
      else map (\<lambda>(path, fused_score).
          case find (\<lambda>h. sr_concept_path h = path) lex_hits of
            Some h \<Rightarrow> \<lparr>sr_concept_path = path, sr_title = sr_title h, sr_snippet = sr_snippet h, sr_score = fused_score\<rparr>
          | None \<Rightarrow> \<lparr>sr_concept_path = path, sr_title = [], sr_snippet = [], sr_score = fused_score\<rparr>)
        (rrf_fuse (map (\<lambda>h. (sr_concept_path h, sr_score h)) lex_hits) pool (fusion_params (cs_globals (sv_store V)))))"

definition vector_hits :: "scope_view \<Rightarrow> real list \<Rightarrow> rstring \<Rightarrow> search_result list" where
  "vector_hits V qvec model =
     map (\<lambda>(path, c). \<lparr>sr_concept_path = path, sr_title = [], sr_snippet = [], sr_score = c\<rparr>) (vec_pool V qvec model)"

definition scope_hits :: "fuse_sources \<Rightarrow> agent_scopes \<Rightarrow> search_query \<Rightarrow> rstring \<Rightarrow> scope_view \<Rightarrow> search_result list" where
  "scope_hits fuse Z query tag V =
     (case fuse of
        Lexical_only \<Rightarrow> filter (\<lambda>h. \<not> (tag = str ''library'' \<and> \<not> library_path_visible Z (sr_concept_path h))) (view_search V query)
      | Hybrid_of qvec model \<Rightarrow> fused_hits V query qvec model
      | Vec_only qvec model \<Rightarrow> vector_hits V qvec model)"

definition enrich_hit :: "scope_view \<Rightarrow> rstring \<Rightarrow> rstring \<times> rstring" where
  "enrich_hit V path =
     (case get_concept (sv_store V) path (sv_state V) of
        Inr c \<Rightarrow> (concept_title c, snippet_of (co_body c))
      | Inl _ \<Rightarrow> (path, []))"

type_synonym scoped_hit = "rstring \<times> search_result"

definition scope_sources :: "scope_view option \<Rightarrow> agent_scopes \<Rightarrow> (rstring \<times> scope_view option) list" where
  "scope_sources user Z = [(str ''user'', user), (str ''skills'', as_skills Z), (str ''library'', as_library Z)]"

definition enrich_scoped :: "(rstring \<times> scope_view option) list \<Rightarrow> scoped_hit \<Rightarrow> scoped_hit" where
  "enrich_scoped sources x =
     (case x of (tag, h) \<Rightarrow>
        if sr_title h \<noteq> [] then (tag, h)
        else case find (\<lambda>(t, V). t = tag) sources of
          Some (_, Some V) \<Rightarrow>
            (case enrich_hit V (sr_concept_path h) of (title, snippet) \<Rightarrow> (tag, h\<lparr>sr_title := title, sr_snippet := snippet\<rparr>))
        | _ \<Rightarrow> (tag, h))"

definition collect_hits :: "fuse_sources \<Rightarrow> scope_view option \<Rightarrow> agent_scopes \<Rightarrow> search_query \<Rightarrow> scoped_hit list" where
  "collect_hits fuse user Z query =
     concat (map (\<lambda>(tag, V). case V of None \<Rightarrow> [] | Some V \<Rightarrow> map (Pair tag) (scope_hits fuse Z query tag V)) (scope_sources user Z))"

definition cross_scope_hits ::
  "backend_state \<Rightarrow> scope_view option \<Rightarrow> agent_scopes \<Rightarrow> search_query \<Rightarrow> nat \<Rightarrow> embed_client option \<Rightarrow> scoped_hit list" where
  "cross_scope_hits health user Z query cap embedding =
     (case choose_sources health query embedding of
        None \<Rightarrow> []
      | Some fuse \<Rightarrow>
          (let all_hits = collect_hits fuse user Z query;
               kept = (if fuse = Lexical_only then all_hits
                 else filter (\<lambda>(tag, h). tag \<noteq> str ''library'' \<or> library_path_visible Z (sr_concept_path h)) all_hits);
               top = take cap (sort_key (\<lambda>(tag, h). result_key h) kept) in
           if fuse = Lexical_only then top else map (enrich_scoped (scope_sources user Z)) top))"

text \<open>The lifecycle fields of a hit, and the hit as the tools report it.\<close>

record hit_field =
  hf_description :: "rstring option"
  hf_timestamp :: "rstring option"
  hf_confirmed_at :: "rstring option"
  hf_status :: "rstring option"
  hf_superseded_by :: "rstring option"

definition no_fields :: hit_field where
  "no_fields = \<lparr>hf_description = None, hf_timestamp = None, hf_confirmed_at = None, hf_status = None, hf_superseded_by = None\<rparr>"

definition hit_fields :: "scope_view \<Rightarrow> rstring \<Rightarrow> hit_field" where
  "hit_fields V path =
     (case get_concept (sv_store V) path (sv_state V) of
        Inr c \<Rightarrow> (let fm = co_frontmatter c in
          \<lparr>hf_description = fm_description fm, hf_timestamp = fm_timestamp fm, hf_confirmed_at = fm_confirmed_at fm,
           hf_status = fm_status fm, hf_superseded_by = fm_superseded_by fm\<rparr>)
      | Inl _ \<Rightarrow> no_fields)"

definition fields_of :: "scope_view \<Rightarrow> agent_scopes \<Rightarrow> rstring \<Rightarrow> rstring \<Rightarrow> hit_field" where
  "fields_of user Z tag path =
     (if tag = str ''user'' then hit_fields user path
      else if tag = str ''skills'' then (case as_skills Z of Some V \<Rightarrow> hit_fields V path | None \<Rightarrow> no_fields)
      else if tag = str ''library'' then (case as_library Z of Some V \<Rightarrow> hit_fields V path | None \<Rightarrow> no_fields)
      else no_fields)"

definition hit_json :: "scope_view \<Rightarrow> agent_scopes \<Rightarrow> scoped_hit \<Rightarrow> json" where
  "hit_json user Z x =
     (case x of (tag, h) \<Rightarrow>
       (let f = fields_of user Z tag (sr_concept_path h) in
        J_obj [(str ''scope'', J_str tag), (str ''path'', J_str (sr_concept_path h)), (str ''title'', J_str (sr_title h)),
          (str ''description'', opt_json (hf_description f)), (str ''snippet'', J_str (sr_snippet h)), (str ''score'', J_num (sr_score h)),
          (str ''timestamp'', opt_json (hf_timestamp f)), (str ''confirmed_at'', opt_json (hf_confirmed_at f)),
          (str ''status'', opt_json (hf_status f)), (str ''superseded_by'', opt_json (hf_superseded_by f))]))"

definition format_tree :: "concept_store \<Rightarrow> store_state \<Rightarrow> rstring" where
  "format_tree S st =
     join_with [NL] (str ''/'' # map (\<lambda>e. str ''  '' @ ce_path e @ str ''  ['' @ ce_concept_type e @ str ''] '' @ ce_title e)
       (order_by ce_path (list_concepts S st)))"

section \<open>Traces\<close>

text \<open>\<^verbatim>\<open>trace.rs\<close>: the steps of a run and its record.\<close>

record trace_step =
  tp_seq :: nat
  tp_tool :: rstring
  tp_summary :: rstring
  tp_paths :: "rstring list"
  tp_write :: bool

datatype trace_outcome = Trace_success | Trace_partial | Trace_failed
datatype trace_kind = Trace_query | Trace_mutation | Trace_chat

definition truncate_text :: "rstring \<Rightarrow> nat \<Rightarrow> rstring" where
  "truncate_text s n = (if n < length s then take (n - 1) s @ [8230] else s)"

definition record_step :: "rstring \<Rightarrow> rstring \<Rightarrow> rstring list \<Rightarrow> bool \<Rightarrow> trace_step list \<Rightarrow> trace_step list" where
  "record_step tool summary paths write steps =
     steps @ [\<lparr>tp_seq = length steps + 1, tp_tool = tool, tp_summary = truncate_text summary 300, tp_paths = paths, tp_write = write\<rparr>]"

definition short_path :: "rstring \<Rightarrow> rstring" where
  "short_path p = last (split_on SLASH p)"

definition first_path :: "rstring \<Rightarrow> trace_step \<Rightarrow> rstring" where
  "first_path other s = (case tp_paths s of p # _ \<Rightarrow> p | [] \<Rightarrow> other)"

definition step_notation :: "trace_step \<Rightarrow> rstring" where
  "step_notation s =
     (let tool = tp_tool s in
      if tool = str ''search_knowledge'' then
        str ''search '' @ [34] @ truncate_text (tp_summary s) 30 @ [34] @ str '' ('' @ show_nat (length (tp_paths s)) @ str '')''
      else if tool = str ''read_concept'' then str ''read '' @ short_path (first_path (tp_summary s) s)
      else if tool = str ''read_passage'' then str ''passage '' @ truncate_text (tp_summary s) 40
      else if tool = str ''list_directory'' then str ''browse layout''
      else if tool = str ''lint_knowledge'' then str ''lint graph''
      else if tool = str ''write_concept'' then str ''write '' @ short_path (first_path [] s)
      else if tool = str ''patch_concept'' then str ''patch '' @ short_path (first_path [] s)
      else if tool = str ''delete_concept'' then str ''delete '' @ short_path (first_path [] s)
      else tool)"

fun outcome_marker :: "trace_outcome \<Rightarrow> rstring" where
  "outcome_marker Trace_success = [10003]"
| "outcome_marker Trace_partial = [9888] @ str '' partial''"
| "outcome_marker Trace_failed = [10007]"

definition build_notation :: "trace_step list \<Rightarrow> trace_outcome \<Rightarrow> rstring" where
  "build_notation steps outcome =
     join_with (str '' '' @ [8594] @ str '' '') (map step_notation steps @ [outcome_marker outcome])"

record agent_trace =
  tr_trace_id :: rstring
  tr_kind :: trace_kind
  tr_input :: rstring
  tr_started_at :: rstring
  tr_duration_ms :: nat
  tr_steps :: "trace_step list"
  tr_answer :: rstring
  tr_notation :: rstring
  tr_outcome :: trace_outcome

text \<open>What finalizing and saving a trace draw: its identifier, its time and duration, whether it serializes and whether the
  statements get through.\<close>

record trace_draws =
  td_id :: rstring
  td_at :: rstring
  td_ms :: nat
  td_serializes :: bool
  td_insert_ok :: bool
  td_prune_ok :: bool

definition finalize_trace ::
  "trace_draws \<Rightarrow> trace_kind \<Rightarrow> rstring \<Rightarrow> rstring \<Rightarrow> trace_outcome \<Rightarrow> trace_step list \<Rightarrow> agent_trace" where
  "finalize_trace d kind input reply outcome steps =
     \<lparr>tr_trace_id = td_id d, tr_kind = kind, tr_input = truncate_text input 300, tr_started_at = td_at d, tr_duration_ms = td_ms d,
      tr_steps = steps, tr_answer = truncate_text reply 500, tr_notation = build_notation steps outcome, tr_outcome = outcome\<rparr>"

text \<open>The table \<^verbatim>\<open>agent_traces\<close>: rows of a scope and a trace, keyed by identifier.\<close>

type_synonym trace_table = "(rstring \<times> agent_trace) list"

definition newest_first :: "agent_trace list \<Rightarrow> agent_trace list" where
  "newest_first ts = rev (sort_key (\<lambda>t. (tr_started_at t, tr_trace_id t)) ts)"

definition scope_traces :: "rstring \<Rightarrow> trace_table \<Rightarrow> agent_trace list" where
  "scope_traces scope rows = map snd (filter (\<lambda>(s, t). s = scope) rows)"

definition MAX_TRACES :: nat where "MAX_TRACES = 50"

definition prune_traces :: "rstring \<Rightarrow> trace_table \<Rightarrow> trace_table" where
  "prune_traces scope rows =
     (let kept = map tr_trace_id (take MAX_TRACES (newest_first (scope_traces scope rows))) in
      filter (\<lambda>(s, t). \<not> (s = scope \<and> tr_trace_id t \<notin> set kept)) rows)"

definition save_trace :: "trace_draws \<Rightarrow> rstring \<Rightarrow> agent_trace \<Rightarrow> trace_table \<Rightarrow> trace_table" where
  "save_trace d scope trace rows =
     (if \<not> td_serializes d \<or> \<not> td_insert_ok d \<or> tr_trace_id trace \<in> set (map (tr_trace_id \<circ> snd) rows) then rows
      else (let rows' = rows @ [(scope, trace)] in if td_prune_ok d then prune_traces scope rows' else rows'))"

definition list_traces :: "rstring \<Rightarrow> nat \<Rightarrow> trace_table \<Rightarrow> agent_trace list" where
  "list_traces scope n rows = take n (newest_first (scope_traces scope rows))"

section \<open>Tools\<close>

record agent_env =
  ae_parse :: "rstring \<Rightarrow> rstring + json"
  ae_print :: "json \<Rightarrow> rstring"
  ae_show_store :: "store_error \<Rightarrow> rstring"
  ae_health :: backend_state
  ae_cosine :: "real list \<Rightarrow> rstring \<Rightarrow> nat \<Rightarrow> (rstring \<times> real) list option"
  ae_draws :: "nat \<Rightarrow> fb_draws"

record agent_state =
  ag_store :: store_state
  ag_hot :: hot_global
  ag_steps :: "trace_step list"
  ag_calls :: nat

fun cs_error :: "agent_env \<Rightarrow> store_error \<Rightarrow> agent_error" where
  "cs_error A (Store_not_found p) = Agent_store (Cs_not_found p)"
| "cs_error A e = Agent_store (Cs_other (ae_show_store A e))"

type_synonym tool_result = "agent_error + (rstring \<times> rstring option)"

text \<open>How an arm of the tool dispatch ends: with \<^verbatim>\<open>return\<close> or \<^verbatim>\<open>?\<close>, past the trace, or with the value of the \<^verbatim>\<open>match\<close>.\<close>

datatype tool_exit = Early tool_result | Reached tool_result

definition user_view :: "agent_env \<Rightarrow> concept_store \<Rightarrow> store_state \<Rightarrow> scope_view" where
  "user_view A S st = \<lparr>sv_store = S, sv_state = st, sv_cosine = ae_cosine A\<rparr>"

definition no_match_notice :: rstring where
  "no_match_notice =
     str ''No keyword matches '' @ [8212] @ str ('' but this search is literal, not semantic. The knowledge may exist under different '' @
       ''wording. Retry with synonyms or broader terms, review the layout below, and read_concept ANY concept whose type, name, or '' @
       ''description could plausibly relate.'')"

definition tool_search :: "agent_env \<Rightarrow> concept_store \<Rightarrow> agent_scopes \<Rightarrow> json_args \<Rightarrow> store_state \<Rightarrow> tool_exit" where
  "tool_search A S Z args st =
     (let q0 = new_query (take 32 (split_whitespace (arg_str args (str ''query''))));
          q = (if include_inactive_arg args then q0\<lparr>sq_status_filter := All\<rparr> else q0);
          user = user_view A S st;
          hits = cross_scope_hits (ae_health A) (Some user) Z q 10 (as_embed Z) in
      Reached (Inr (ae_print A
        (if hits \<noteq> [] then J_obj [(str ''hits'', J_arr (map (hit_json user Z) hits))]
         else J_obj [(str ''hits'', J_arr []), (str ''notice'', J_str no_match_notice), (str ''bundle_layout'', J_str (format_tree S st))]),
        None)))"

definition find_concept :: "concept_store \<Rightarrow> agent_scopes \<Rightarrow> rstring \<Rightarrow> store_state \<Rightarrow> concept option" where
  "find_concept S Z path st =
     (case get_concept S path st of
        Inr c \<Rightarrow> Some c
      | Inl _ \<Rightarrow>
          (case (case as_skills Z of Some V \<Rightarrow> get_concept (sv_store V) path (sv_state V) | None \<Rightarrow> Inl (Store_not_found path)) of
             Inr c \<Rightarrow> Some c
           | Inl _ \<Rightarrow>
               (case as_library Z of
                  None \<Rightarrow> None
                | Some V \<Rightarrow>
                    if \<not> library_path_visible Z path then None
                    else (case get_concept (sv_store V) path (sv_state V) of Inr c \<Rightarrow> Some c | Inl _ \<Rightarrow> None))))"

definition tool_read :: "agent_env \<Rightarrow> concept_store \<Rightarrow> agent_scopes \<Rightarrow> json_args \<Rightarrow> store_state \<Rightarrow> tool_exit" where
  "tool_read A S Z args st =
     (let path = arg_str args (str ''path'') in
      case find_concept S Z path st of
        None \<Rightarrow> Early (Inl (Agent_store (Cs_not_found path)))
      | Some c \<Rightarrow>
          (case to_markdown (cs_yaml S) c of
             Inl e \<Rightarrow> Early (Inl (cs_error A (Store_parse e)))
           | Inr markdown \<Rightarrow>
               Reached (Inr (ae_print A (J_obj [(str ''path'', J_str (co_source_path c)), (str ''markdown'', J_str markdown)]), None))))"

definition tool_list :: "agent_env \<Rightarrow> concept_store \<Rightarrow> store_state \<Rightarrow> tool_exit" where
  "tool_list A S st = Reached (Inr (ae_print A (J_obj [(str ''layout'', J_str (format_tree S st))]), None))"

definition tool_lint :: "agent_env \<Rightarrow> concept_store \<Rightarrow> store_state \<Rightarrow> tool_exit" where
  "tool_lint A S st =
     (let g = build_graph (readable_concepts S st); h = health_of g in
      Reached (Inr (ae_print A (J_obj [(str ''concepts'', J_num (real (gh_concept_count h))), (str ''links'', J_num (real (gh_edge_count h))),
        (str ''orphans'', J_arr (map J_str (gr_orphans g))),
        (str ''broken_links'', J_arr (map (\<lambda>b. J_str (fst b @ str '' '' @ [8594] @ str '' '' @ snd b)) (gr_broken_links g)))]), None)))"

definition passage_reply :: "agent_env \<Rightarrow> rstring \<Rightarrow> rstring \<Rightarrow> rstring \<Rightarrow> rstring \<times> rstring option" where
  "passage_reply A resource key text = (ae_print A (J_obj [(str ''resource'', J_str resource), (key, J_str text)]), None)"

text \<open>Extraction never panics (\<open>extract_total\<close>), so its \<open>None\<close> is not told from an unknown anchor.\<close>

definition passage_of_text :: "agent_env \<Rightarrow> rstring \<Rightarrow> rstring \<Rightarrow> rstring \<Rightarrow> rstring \<Rightarrow> tool_exit" where
  "passage_of_text A resource slug anchor text =
     (if anchor = [] then Early (Inr (passage_reply A resource (str ''passage'')
          (str ''No anchor given. Chapter anchors in this book:'' @ [NL] @ list_chapter_anchors text)))
      else case extract_passage slug anchor text of
        Some (Inr p) \<Rightarrow> Reached (Inr (passage_reply A resource (str ''passage'') (ps_text p)))
      | _ \<Rightarrow> Reached (Inr (passage_reply A resource (str ''passage'')
          (str ''No passage for anchor '' @ [34] @ anchor @ [34] @ str '' in book '' @ [34] @ slug @ [34] @
           str ''. Chapter anchors in this book:'' @ [NL] @ list_chapter_anchors text))))"

definition tool_passage :: "agent_env \<Rightarrow> agent_scopes \<Rightarrow> json_args \<Rightarrow> tool_exit" where
  "tool_passage A Z args =
     (let resource = trim (arg_str args (str ''resource'')) in
      if resource = [] then Early (Inl (BadToolArgs (str ''read_passage'') (str ''resource is required'')))
      else case parse_book_uri resource of
        None \<Rightarrow> Early (Inr (passage_reply A resource (str ''error'')
          (str ''Not a book:// URI '' @ [8212] @ str '' expected book://<slug>#<anchor>, taken from a concept'' @ [39] @ str ''s `resource` field.'')))
      | Some (slug, anchor) \<Rightarrow>
          (case as_stack Z of
             None \<Rightarrow> Early (Inr (passage_reply A resource (str ''error'') (str ''No library configured on this instance; cannot read passages.'')))
           | Some reader \<Rightarrow>
               if (case as_visible Z of Some vis \<Rightarrow> slug \<notin> set vis | None \<Rightarrow> False)
               then Early (Inr (passage_reply A resource (str ''error'') (str ''Book not found in library.'')))
               else (case reader slug of
                 Inl e \<Rightarrow> Reached (Inr (passage_reply A resource (str ''error'') e))
               | Inr text \<Rightarrow> passage_of_text A resource slug anchor text)))"

section \<open>Write tools\<close>

definition read_only_error :: "rstring \<Rightarrow> tool_exit" where
  "read_only_error name = Early (Inl (BadToolArgs name (str ''write tool in read-only mode'')))"

definition str_items :: "json list \<Rightarrow> rstring list" where
  "str_items a = List.map_filter as_str a"

definition written_concept :: "json_args \<Rightarrow> concept" where
  "written_concept args =
     (let fm = (case arg_obj args (str ''frontmatter'') of Some m \<Rightarrow> m | None \<Rightarrow> []);
          ty = (case arg_opt fm (str ''type'') of Some t \<Rightarrow> if trim t = [] then str ''Note'' else trim t | None \<Rightarrow> str ''Note'');
          tags = (case Option.bind (map_of fm (str ''tags'')) as_array of Some a \<Rightarrow> str_items a | None \<Rightarrow> []) in
      \<lparr>co_frontmatter = default_frontmatter\<lparr>fm_type := ty, fm_title := arg_opt fm (str ''title''),
          fm_description := arg_opt fm (str ''description''), fm_tags := tags\<rparr>,
       co_body = arg_str args (str ''body''), co_source_path = arg_str args (str ''path'')\<rparr>)"

definition put_reply ::
  "agent_env \<Rightarrow> concept_store \<Rightarrow> fb_draws \<Rightarrow> rstring \<Rightarrow> concept \<Rightarrow> store_state \<Rightarrow> tool_exit \<times> store_state" where
  "put_reply A S D key c st =
     (case put S (fd_regen D) (fd_put D) c st of
        (Inl e, st') \<Rightarrow> (Early (Inl (cs_error A e)), st')
      | (Inr _, st') \<Rightarrow>
          (Reached (Inr (ae_print A (J_obj [(key, J_str (co_source_path c))]), Some (co_source_path c))), st'))"

definition tool_write ::
  "agent_env \<Rightarrow> concept_store \<Rightarrow> fb_draws \<Rightarrow> bool \<Rightarrow> json_args \<Rightarrow> store_state \<Rightarrow> tool_exit \<times> store_state" where
  "tool_write A S D allow_writes args st =
     (if \<not> allow_writes then (read_only_error (str ''write_concept''), st)
      else put_reply A S D (str ''written'') (written_concept args) st)"

definition merge_key :: "frontmatter \<Rightarrow> rstring \<times> json \<Rightarrow> frontmatter" where
  "merge_key fm x =
     (case x of (key, v) \<Rightarrow>
        if key = str ''title'' then fm\<lparr>fm_title := as_str v\<rparr>
        else if key = str ''description'' then fm\<lparr>fm_description := as_str v\<rparr>
        else if key = str ''resource'' then fm\<lparr>fm_resource := as_str v\<rparr>
        else if key = str ''status'' then fm\<lparr>fm_status := as_str v\<rparr>
        else if key = str ''superseded_by'' then fm\<lparr>fm_superseded_by := as_str v\<rparr>
        else if key = str ''valid_to'' then fm\<lparr>fm_valid_to := as_str v\<rparr>
        else if key = str ''tags'' then fm\<lparr>fm_tags := (case as_array v of Some a \<Rightarrow> str_items a | None \<Rightarrow> [])\<rparr>
        else fm)"

text \<open>The loop of \<^verbatim>\<open>replace_section\<close>: the text so far, whether the heading was met, whether the lines are in its section.\<close>

fun section_lines :: "rstring \<Rightarrow> rstring \<Rightarrow> rstring \<times> bool \<times> bool \<Rightarrow> rstring list \<Rightarrow> rstring \<times> bool \<times> bool" where
  "section_lines start content acc [] = acc"
| "section_lines start content (out, replaced, in_target) (line # ls) =
     (if trim line = start then section_lines start content (out @ start @ [NL] @ content @ [NL], True, True) ls
      else
        (let in_target = in_target \<and> \<not> starts_with line (str ''# '') in
         section_lines start content (if in_target then out else out @ line @ [NL], replaced, in_target) ls))"

definition replace_section :: "rstring \<Rightarrow> rstring \<Rightarrow> rstring \<Rightarrow> rstring" where
  "replace_section body heading content =
     (let start = str ''# '' @ heading in
      case section_lines start content ([], False, False) (str_lines body) of
        (out, replaced, in_target) \<Rightarrow>
          if replaced then out
          else (if out \<noteq> [] \<and> \<not> ends_with out [NL] then out @ [NL] else out) @ start @ [NL] @ content @ [NL])"

definition patched_body :: "json_args \<Rightarrow> rstring \<Rightarrow> rstring" where
  "patched_body args body =
     (case arg_opt args (str ''body'') of
        Some (c # b) \<Rightarrow> c # b
      | _ \<Rightarrow>
          (case arg_obj args (str ''replace_section'') of
             Some sec \<Rightarrow> replace_section body (arg_str sec (str ''heading'')) (arg_str sec (str ''content''))
           | None \<Rightarrow> (case arg_opt args (str ''replace_body'') of Some b \<Rightarrow> b | None \<Rightarrow> body)))"

definition patched_concept :: "json_args \<Rightarrow> concept \<Rightarrow> concept" where
  "patched_concept args c =
     c\<lparr>co_frontmatter := foldl merge_key (co_frontmatter c) (case arg_obj args (str ''frontmatter'') of Some m \<Rightarrow> m | None \<Rightarrow> []),
       co_body := patched_body args (co_body c)\<rparr>"

definition tool_patch ::
  "agent_env \<Rightarrow> concept_store \<Rightarrow> fb_draws \<Rightarrow> bool \<Rightarrow> json_args \<Rightarrow> store_state \<Rightarrow> tool_exit \<times> store_state" where
  "tool_patch A S D allow_writes args st =
     (if \<not> allow_writes then (read_only_error (str ''patch_concept''), st)
      else case get_concept S (arg_str args (str ''path'')) st of
        Inl e \<Rightarrow> (Early (Inl (cs_error A e)), st)
      | Inr c \<Rightarrow> put_reply A S D (str ''patched'') (patched_concept args c) st)"

definition tool_delete ::
  "agent_env \<Rightarrow> concept_store \<Rightarrow> fb_draws \<Rightarrow> bool \<Rightarrow> json_args \<Rightarrow> store_state \<Rightarrow> tool_exit \<times> store_state" where
  "tool_delete A S D allow_writes args st =
     (if \<not> allow_writes then (read_only_error (str ''delete_concept''), st)
      else
        (let path = arg_str args (str ''path'') in
         case delete_concept S (fd_regen D) (fd_put D) path st of
           (Inl e, st') \<Rightarrow> (Early (Inl (cs_error A e)), st')
         | (Inr _, st') \<Rightarrow> (Reached (Inr (ae_print A (J_obj [(str ''deleted'', J_str path)]), Some path)), st')))"

section \<open>One tool call\<close>

definition run_tool ::
  "agent_env \<Rightarrow> concept_store \<Rightarrow> agent_scopes \<Rightarrow> fb_draws \<Rightarrow> bool \<Rightarrow> rstring \<Rightarrow> json_args \<Rightarrow> store_state \<Rightarrow> tool_exit \<times> store_state" where
  "run_tool A S Z D allow_writes name args st =
     (if name = str ''search_knowledge'' then (tool_search A S Z args st, st)
      else if name = str ''read_concept'' then (tool_read A S Z args st, st)
      else if name = str ''list_directory'' then (tool_list A S st, st)
      else if name = str ''lint_knowledge'' then (tool_lint A S st, st)
      else if name = str ''read_passage'' then (tool_passage A Z args, st)
      else if name = str ''write_concept'' then tool_write A S D allow_writes args st
      else if name = str ''patch_concept'' then tool_patch A S D allow_writes args st
      else if name = str ''delete_concept'' then tool_delete A S D allow_writes args st
      else (Reached (Inl (BadToolArgs name (str ''unknown tool''))), st))"

definition step_summary :: "rstring \<Rightarrow> json_args \<Rightarrow> rstring" where
  "step_summary name args =
     arg_str args (if name = str ''search_knowledge'' then str ''query'' else if name = str ''read_passage'' then str ''resource'' else str ''path'')"

definition hit_paths :: "agent_env \<Rightarrow> rstring \<Rightarrow> rstring list option" where
  "hit_paths A result =
     (case ae_parse A result of
        Inr v \<Rightarrow> (case Option.bind (as_object v) (\<lambda>m. Option.bind (map_of m (str ''hits'')) as_array) of
          Some hits \<Rightarrow> Some (List.map_filter (\<lambda>h. Option.bind (as_object h) (\<lambda>m. arg_opt m (str ''path''))) hits)
        | None \<Rightarrow> None)
      | Inl _ \<Rightarrow> None)"

definition step_paths :: "agent_env \<Rightarrow> rstring \<Rightarrow> rstring \<Rightarrow> rstring option \<Rightarrow> rstring list" where
  "step_paths A name result written =
     (let paths = (case written of Some p \<Rightarrow> [p] | None \<Rightarrow> []) in
      if name = str ''search_knowledge'' then (case hit_paths A result of Some ps \<Rightarrow> ps | None \<Rightarrow> paths) else paths)"

definition note_hot :: "timestamp \<Rightarrow> rstring \<Rightarrow> rstring \<Rightarrow> rstring option \<Rightarrow> hot_global \<Rightarrow> hot_global" where
  "note_hot now scope name written hot =
     (case written of
        None \<Rightarrow> hot
      | Some p \<Rightarrow> if name = str ''delete_concept'' then record_hot_delete scope p hot else record_hot_write now scope p hot)"

definition execute_tool_tracked ::
  "agent_env \<Rightarrow> concept_store \<Rightarrow> agent_scopes \<Rightarrow> bool \<Rightarrow> tool_call \<Rightarrow> agent_state \<Rightarrow> tool_result \<times> agent_state" where
  "execute_tool_tracked A S Z allow_writes call g =
     (let name = tc_name call; D = ae_draws A (ag_calls g); g1 = g\<lparr>ag_calls := ag_calls g + 1\<rparr> in
      case ae_parse A (tc_arguments call) of
        Inl e \<Rightarrow> (Inl (BadToolArgs name e), g1)
      | Inr v \<Rightarrow>
          (case as_object v of
             None \<Rightarrow> (Inl (BadToolArgs name (str ''arguments must be a JSON object'')), g1)
           | Some args \<Rightarrow>
               (case run_tool A S Z D allow_writes name args (ag_store g) of
                  (Early r, st) \<Rightarrow> (r, g1\<lparr>ag_store := st\<rparr>)
                | (Reached (Inl e), st) \<Rightarrow>
                    (Inl e, g1\<lparr>ag_store := st, ag_steps := record_step name (str ''(error)'') [] False (ag_steps g)\<rparr>)
                | (Reached (Inr (result, written)), st) \<Rightarrow>
                    (Inr (result, written), g1\<lparr>ag_store := st,
                       ag_steps := record_step name (step_summary name args) (step_paths A name result written) (written \<noteq> None) (ag_steps g),
                       ag_hot := note_hot (fd_hot D) (cs_scope_id S) name written (ag_hot g)\<rparr>))))"

section \<open>Reading changes nothing\<close>

lemma run_tool_read_only: "snd (run_tool A S Z D False name args st) = st"
  by (simp add: run_tool_def tool_write_def tool_patch_def tool_delete_def)

lemma run_tool_read_only_written:
  "fst (run_tool A S Z D False name args st) = Early (Inr (result, written)) \<or>
   fst (run_tool A S Z D False name args st) = Reached (Inr (result, written)) \<Longrightarrow> written = None"
  by (auto simp: run_tool_def tool_write_def tool_patch_def tool_delete_def read_only_error_def tool_search_def tool_read_def tool_list_def
      tool_lint_def tool_passage_def passage_of_text_def passage_reply_def Let_def split: if_splits option.splits sum.splits prod.splits)

lemma run_tool_early_written: "fst (run_tool A S Z D aw name args st) = Early (Inr (result, written)) \<Longrightarrow> written = None"
  by (auto simp: run_tool_def tool_write_def tool_patch_def tool_delete_def put_reply_def read_only_error_def tool_search_def tool_read_def
      tool_list_def tool_lint_def tool_passage_def passage_of_text_def passage_reply_def Let_def split: if_splits option.splits sum.splits prod.splits)

lemma search_writes_nothing:
  "fst (run_tool A S Z D aw (str ''search_knowledge'') args st) = Reached (Inr (result, written)) \<Longrightarrow> written = None"
  by (simp add: run_tool_def tool_search_def Let_def)

text \<open>A call either leaves store, hot memory and trace alone, or is the run of its tool.\<close>

lemma execute_cases:
  assumes "execute_tool_tracked A S Z aw call g = (r, g')"
  obtains e where "r = Inl e" "ag_store g' = ag_store g" "ag_hot g' = ag_hot g" "ag_steps g' = ag_steps g"
  | args exit where "run_tool A S Z (ae_draws A (ag_calls g)) aw (tc_name call) args (ag_store g) = (exit, ag_store g')"
      "exit = Early r" "ag_hot g' = ag_hot g" "ag_steps g' = ag_steps g"
  | args exit e where "run_tool A S Z (ae_draws A (ag_calls g)) aw (tc_name call) args (ag_store g) = (exit, ag_store g')"
      "exit = Reached (Inl e)" "r = Inl e" "ag_hot g' = ag_hot g"
      "ag_steps g' = record_step (tc_name call) (str ''(error)'') [] False (ag_steps g)"
  | args exit result written where "run_tool A S Z (ae_draws A (ag_calls g)) aw (tc_name call) args (ag_store g) = (exit, ag_store g')"
      "exit = Reached (Inr (result, written))" "r = Inr (result, written)"
      "ag_hot g' = note_hot (fd_hot (ae_draws A (ag_calls g))) (cs_scope_id S) (tc_name call) written (ag_hot g)"
      "ag_steps g' = record_step (tc_name call) (step_summary (tc_name call) args) (step_paths A (tc_name call) result written)
         (written \<noteq> None) (ag_steps g)"
proof (cases "ae_parse A (tc_arguments call)")
  case (Inl e)
  then show thesis using assms that(1) by (auto simp: execute_tool_tracked_def Let_def)
next
  case (Inr v)
  show thesis
  proof (cases "as_object v")
    case None
    then show thesis using assms Inr that(1) by (auto simp: execute_tool_tracked_def Let_def)
  next
    case (Some args)
    obtain exit st where run: "run_tool A S Z (ae_draws A (ag_calls g)) aw (tc_name call) args (ag_store g) = (exit, st)"
      by (cases "run_tool A S Z (ae_draws A (ag_calls g)) aw (tc_name call) args (ag_store g)")
    show thesis
    proof (cases exit)
      case (Early x)
      then have "r = x" "g' = g\<lparr>ag_calls := ag_calls g + 1, ag_store := st\<rparr>"
        using assms Inr Some run by (auto simp: execute_tool_tracked_def Let_def)
      then show thesis using that(2) run Early by simp
    next
      case (Reached x)
      show thesis
      proof (cases x)
        case (Inl e)
        then show thesis using assms \<open>ae_parse A (tc_arguments call) = Inr v\<close> Some run Reached that(3)
          by (auto simp: execute_tool_tracked_def Let_def)
      next
        case x: (Inr y)
        obtain result written where "y = (result, written)" by (cases y)
        then show thesis using assms Inr Some run Reached x that(4)
          by (auto simp: execute_tool_tracked_def Let_def)
      qed
    qed
  qed
qed

lemma execute_read_only:
  assumes "execute_tool_tracked A S Z False call g = (r, g')"
  shows "ag_store g' = ag_store g \<and> ag_hot g' = ag_hot g \<and> (\<forall>result written. r = Inr (result, written) \<longrightarrow> written = None)"
  using assms
proof (cases rule: execute_cases)
  case (2 args exit)
  then show ?thesis
    using run_tool_read_only [of A S Z "ae_draws A (ag_calls g)" "tc_name call" args "ag_store g"]
      run_tool_read_only_written [of A S Z "ae_draws A (ag_calls g)" "tc_name call" args "ag_store g"] by auto
next
  case (3 args exit e)
  then show ?thesis
    using run_tool_read_only [of A S Z "ae_draws A (ag_calls g)" "tc_name call" args "ag_store g"] by simp
next
  case (4 args exit result written)
  then have "written = None"
    using run_tool_read_only_written [of A S Z "ae_draws A (ag_calls g)" "tc_name call" args "ag_store g" result written] by simp
  with 4 show ?thesis
    using run_tool_read_only [of A S Z "ae_draws A (ag_calls g)" "tc_name call" args "ag_store g"] by (simp add: note_hot_def)
qed simp

text \<open>The steps of the trace that write name the paths of the writes.\<close>

definition trace_writes :: "trace_step list \<Rightarrow> rstring list" where
  "trace_writes steps = concat (map tp_paths (filter tp_write steps))"

lemma trace_writes_record [simp]:
  "trace_writes (record_step tool summary paths write steps) = trace_writes steps @ (if write then paths else [])"
  by (simp add: trace_writes_def record_step_def)

lemma execute_traced:
  assumes "execute_tool_tracked A S Z aw call g = (r, g')"
  shows "trace_writes (ag_steps g') = trace_writes (ag_steps g) @ (case r of Inr (_, Some p) \<Rightarrow> [p] | _ \<Rightarrow> [])"
  using assms
proof (cases rule: execute_cases)
  case (2 args exit)
  then show ?thesis
    using run_tool_early_written [of A S Z "ae_draws A (ag_calls g)" aw "tc_name call" args "ag_store g"]
    by (auto split: sum.split option.split)
next
  case (4 args exit result written)
  then show ?thesis
    using search_writes_nothing [of A S Z "ae_draws A (ag_calls g)" aw args "ag_store g" result written]
    by (cases written) (auto simp: step_paths_def Let_def simp del: str_Cons)
qed simp_all

section \<open>Hits\<close>

lemma result_key_enriched: "result_key (snd (enrich_scoped sources x)) = result_key (snd x)" "fst (enrich_scoped sources x) = fst x"
    "sr_concept_path (snd (enrich_scoped sources x)) = sr_concept_path (snd x)"
  by (auto simp: enrich_scoped_def result_key_def split: prod.splits option.splits)

lemma sort_key_take_least:
  assumes "y \<in> set (take n (sort_key f xs))" "x \<in> set xs" "x \<notin> set (take n (sort_key f xs))"
  shows "f y \<le> f x"
proof -
  let ?s = "sort_key f xs"
  have "x \<in> set (drop n ?s)" using assms(2,3) append_take_drop_id [of n ?s] by (metis Un_iff set_append set_sort)
  moreover have "sorted (map f (take n ?s) @ map f (drop n ?s))"
    using sorted_sort_key [of f xs] by (metis append_take_drop_id map_append)
  ultimately show ?thesis using assms(1) by (auto simp: sorted_append)
qed

lemma sort_key_take_all: "length (take n (sort_key f xs)) < n \<Longrightarrow> set (take n (sort_key f xs)) = set xs"
  by (simp add: not_le)

lemma library_hit_visible:
  assumes "x \<in> set (cross_scope_hits health user Z query cap embedding)" "fst x = str ''library''"
  shows "library_path_visible Z (sr_concept_path (snd x))"
proof -
  obtain fuse where fuse: "choose_sources health query embedding = Some fuse"
    using assms(1) by (cases "choose_sources health query embedding") (simp_all add: cross_scope_hits_def)
  show ?thesis
  proof (cases "fuse = Lexical_only")
    case True
    then have "x \<in> set (collect_hits Lexical_only user Z query)"
      using assms(1) fuse by (auto simp: cross_scope_hits_def Let_def dest: in_set_takeD)
    then show ?thesis using assms(2) by (auto simp: collect_hits_def scope_hits_def scope_sources_def split: option.splits)
  next
    case False
    then obtain y where y: "x = enrich_scoped (scope_sources user Z) y"
      "y \<in> set (filter (\<lambda>(tag, h). tag \<noteq> str ''library'' \<or> library_path_visible Z (sr_concept_path h)) (collect_hits fuse user Z query))"
      using assms(1) fuse by (auto simp: cross_scope_hits_def Let_def dest!: in_set_takeD)
    then show ?thesis using assms(2) by (auto simp: result_key_enriched)
  qed
qed

lemma cross_scope_sorted:
  "length (cross_scope_hits health user Z query cap embedding) \<le> cap \<and>
   sorted (map (result_key \<circ> snd) (cross_scope_hits health user Z query cap embedding))"
proof (cases "choose_sources health query embedding")
  case (Some fuse)
  let ?key = "\<lambda>(tag, h). result_key h"
  have k: "?key = result_key \<circ> snd" by (simp add: fun_eq_iff)
  have "sorted (map (result_key \<circ> snd) (take cap (sort_key ?key xs)))" for xs :: "scoped_hit list"
    using sorted_wrt_take [OF sorted_sort_key [of "result_key \<circ> snd" xs], of cap] by (simp add: k take_map)
  moreover have "map (result_key \<circ> snd) (map (enrich_scoped (scope_sources user Z)) xs) = map (result_key \<circ> snd) xs" for xs
    by (simp add: result_key_enriched)
  ultimately show ?thesis using Some by (simp only: cross_scope_hits_def option.case Let_def split: if_split) simp
qed (simp add: cross_scope_hits_def)

section \<open>Properties of the tools\<close>

text \<open>C32.  The hits of a search are ranked and respect the shelves.  There are at most as many as asked for, best score first and paths in
  order among equals, and none is of a book the caller may not see.  A keyword search, besides, misses none of the better ones:
  every hit of a scope that the caller may see is in the list, or the list is full of hits that rank no lower.\<close>
theorem hits_ranked_and_visible:
  fixes user Z query cap embedding health
  defines "R \<equiv> cross_scope_hits health user Z query cap embedding"
  shows "length R \<le> cap \<and> sorted (map (result_key \<circ> snd) R)
    \<and> list_all (\<lambda>(tag, h). tag = str ''library'' \<longrightarrow> library_path_visible Z (sr_concept_path h)) R
    \<and> (sq_mode query = Lexical \<longrightarrow>
        list_all (\<lambda>(tag, V). case V of None \<Rightarrow> True | Some V \<Rightarrow>
          list_all (\<lambda>h. (tag = str ''library'' \<longrightarrow> library_path_visible Z (sr_concept_path h)) \<longrightarrow>
            (tag, h) \<in> set R \<or> length R = cap \<and> list_all (\<lambda>y. result_key (snd y) \<le> result_key h) R) (view_search V query))
          (scope_sources user Z))"
proof -
  have "list_all (\<lambda>(tag, h). tag = str ''library'' \<longrightarrow> library_path_visible Z (sr_concept_path h)) R"
    using library_hit_visible [of _ health user Z query cap embedding] by (fastforce simp: R_def list_all_iff)
  moreover have found: "(tag, h) \<in> set R \<or> length R = cap \<and> (\<forall>y \<in> set R. result_key (snd y) \<le> result_key h)"
    if lex: "sq_mode query = Lexical" and V: "(tag, Some V) \<in> set (scope_sources user Z)" and h: "h \<in> set (view_search V query)"
      and vis: "tag = str ''library'' \<longrightarrow> library_path_visible Z (sr_concept_path h)" for tag V h
  proof (cases "(tag, h) \<in> set R")
    case False
    let ?all = "collect_hits Lexical_only user Z query"
    have R: "R = take cap (sort_key (result_key \<circ> snd) ?all)"
      using lex by (simp add: R_def cross_scope_hits_def choose_sources_def case_prod_unfold comp_def)
    have "(tag, h) \<in> set (map (Pair tag) (scope_hits Lexical_only Z query tag V))" using h vis by (simp add: scope_hits_def)
    then have mem: "(tag, h) \<in> set ?all" using V by (force simp: collect_hits_def)
    have "result_key (snd y) \<le> result_key h" if "y \<in> set R" for y
      using sort_key_take_least [of y cap "result_key \<circ> snd" ?all "(tag, h)"] that mem False by (simp add: R)
    moreover have "\<not> length R < cap" using sort_key_take_all [of cap "result_key \<circ> snd" ?all] mem False by (auto simp: R)
    moreover have "length R \<le> cap" by (simp add: R)
    ultimately show ?thesis by auto
  qed simp
  have "sq_mode query = Lexical \<longrightarrow>
        list_all (\<lambda>(tag, V). case V of None \<Rightarrow> True | Some V \<Rightarrow>
          list_all (\<lambda>h. (tag = str ''library'' \<longrightarrow> library_path_visible Z (sr_concept_path h)) \<longrightarrow>
            (tag, h) \<in> set R \<or> length R = cap \<and> list_all (\<lambda>y. result_key (snd y) \<le> result_key h) R) (view_search V query))
          (scope_sources user Z)"
    unfolding list_all_iff
  proof (intro impI ballI)
    fix x assume lex: "sq_mode query = Lexical" and x: "x \<in> set (scope_sources user Z)"
    obtain tag V where "x = (tag, V)" by (cases x)
    then show "case x of (tag, V) \<Rightarrow> case V of None \<Rightarrow> True | Some V \<Rightarrow>
        \<forall>h \<in> set (view_search V query). (tag = str ''library'' \<longrightarrow> library_path_visible Z (sr_concept_path h)) \<longrightarrow>
          (tag, h) \<in> set R \<or> length R = cap \<and> (\<forall>y \<in> set R. result_key (snd y) \<le> result_key h)"
      using found [OF lex] x by (cases V) (simp_all del: str_Cons)
  qed
  ultimately show ?thesis using cross_scope_sorted [of health user Z query cap embedding] unfolding R_def by blast
qed

text \<open>What the caller may see of two libraries is the same.\<close>

definition same_visible :: "agent_scopes \<Rightarrow> scope_view \<Rightarrow> scope_view \<Rightarrow> bool" where
  "same_visible Z L L' \<longleftrightarrow>
     (\<forall>p. library_path_visible Z p \<longrightarrow> get_concept (sv_store L) p (sv_state L) = get_concept (sv_store L') p (sv_state L')) \<and>
     (\<forall>q. filter (\<lambda>h. library_path_visible Z (sr_concept_path h)) (view_search L q) =
          filter (\<lambda>h. library_path_visible Z (sr_concept_path h)) (view_search L' q))"

text \<open>Take two libraries and two stacks that agree on the books the caller may see.  A tool of a caller without an embedding
  service answers and acts the same on both, whatever it is called with.\<close>

lemma run_tool_hidden:
  assumes "as_visible Z = Some vis" "as_embed Z = None" "as_library Z = Some L" "as_stack Z = Some reader"
    and "same_visible Z L L'" "\<And>slug. slug \<in> set vis \<Longrightarrow> reader slug = reader' slug"
  shows "run_tool A S (Z\<lparr>as_library := Some L', as_stack := Some reader'\<rparr>) D aw name args st = run_tool A S Z D aw name args st"
proof -
  let ?Z = "Z\<lparr>as_library := Some L', as_stack := Some reader'\<rparr>"
  have vis: "library_path_visible ?Z = library_path_visible Z" by (simp add: fun_eq_iff library_path_visible_def)
  have get: "library_path_visible Z p \<Longrightarrow> get_concept (sv_store L') p (sv_state L') = get_concept (sv_store L) p (sv_state L)"
    and search: "filter (\<lambda>h. library_path_visible Z (sr_concept_path h)) (view_search L' q) =
      filter (\<lambda>h. library_path_visible Z (sr_concept_path h)) (view_search L q)" for p q
    using assms(5) by (simp_all add: same_visible_def)
  have sources: "choose_sources h q None = (if sq_mode q = VectorOnly then None else Some Lexical_only)" for h q
    by (simp add: choose_sources_def question_qvec_def split: search_mode.split)
  have collect: "collect_hits Lexical_only user ?Z q = collect_hits Lexical_only user Z q" for user q
    using search [of q] assms(3) by (simp add: collect_hits_def scope_sources_def scope_hits_def vis split: option.split)
  have hits: "cross_scope_hits h user ?Z q cap None = cross_scope_hits h user Z q cap None" for h user q cap
    by (simp add: cross_scope_hits_def sources collect)
  have "hit_json user ?Z x = hit_json user Z x" if "x \<in> set (cross_scope_hits h (Some user) Z q cap None)" for x h user q cap
    using library_hit_visible [OF that] get [of "sr_concept_path (snd x)"] assms(3)
    by (auto simp: hit_json_def fields_of_def hit_fields_def Let_def split: prod.split option.split)
  then have "tool_search A S ?Z args st = tool_search A S Z args st"
    using assms(2) hits by (simp add: tool_search_def Let_def cong: map_cong)
  moreover have "tool_read A S ?Z args st = tool_read A S Z args st"
    using get [of "arg_str args (str ''path'')"] assms(3) by (simp add: tool_read_def find_concept_def vis Let_def split: sum.split option.split)
  moreover have "tool_passage A ?Z args = tool_passage A Z args"
    using assms(1,4,6) by (auto simp: tool_passage_def Let_def split: option.split prod.split)
  ultimately show ?thesis by (simp add: run_tool_def)
qed

section \<open>A caller with one shelf\<close>

definition demo_agent :: agent_env where
  "demo_agent = \<lparr>ae_parse = (\<lambda>t. if t = [] then Inl [] else Inr (J_obj [(str ''path'', J_str t), (str ''resource'', J_str t)])),
     ae_print = (\<lambda>_. []), ae_show_store = (\<lambda>_. []), ae_health = Green, ae_cosine = (\<lambda>_ _ _. None), ae_draws = (\<lambda>_. memo_draws)\<rparr>"

definition demo_library :: scope_view where
  "demo_library = \<lparr>sv_store = memo_store, sv_state = empty_state, sv_cosine = (\<lambda>_ _ _. Some [(str ''/seen/a.md'', 1), (str ''/hidden/b.md'', 2)])\<rparr>"

definition demo_scopes :: agent_scopes where
  "demo_scopes = \<lparr>as_skills = None, as_library = Some demo_library, as_stack = Some (\<lambda>slug. if slug = str ''seen'' then Inr [] else Inl []),
     as_visible = Some [str ''seen''], as_trace = None, as_embed = None\<rparr>"

definition demo_embed :: embed_client where
  "demo_embed = \<lparr>em_batch = (\<lambda>_. Inr [[1]]), em_model = []\<rparr>"

theorem hits_ranked_and_visible_witness:
  "list_all (\<lambda>(tag, h). tag = str ''library'' \<longrightarrow> library_path_visible demo_scopes (sr_concept_path h))
     (cross_scope_hits Green None demo_scopes ((new_query [str ''q''])\<lparr>sq_mode := VectorOnly\<rparr>) 3 (Some demo_embed)) \<and>
   map (sr_concept_path \<circ> snd) (cross_scope_hits Green None demo_scopes ((new_query [str ''q''])\<lparr>sq_mode := VectorOnly\<rparr>) 3 (Some demo_embed))
     = [str ''/seen/a.md'']"
proof -
  let ?q = "(new_query [str ''q''])\<lparr>sq_mode := VectorOnly\<rparr>"
  have vis: "library_path_visible demo_scopes (str ''/seen/a.md'')" "\<not> library_path_visible demo_scopes (str ''/hidden/b.md'')" by code_simp+
  have "choose_sources Green ?q (Some demo_embed) = Some (Vec_only [1] [])"
    by (simp add: choose_sources_def question_qvec_def demo_embed_def new_query_def)
  then have "map (sr_concept_path \<circ> snd) (cross_scope_hits Green None demo_scopes ?q 3 (Some demo_embed)) = [str ''/seen/a.md'']"
    using vis by (simp add: cross_scope_hits_def collect_hits_def scope_sources_def scope_hits_def vector_hits_def vec_pool_def demo_library_def
        demo_scopes_def enrich_scoped_def split: option.split prod.split)
  then show ?thesis
    using hits_ranked_and_visible [of Green None demo_scopes ?q 3 "Some demo_embed"] by blast
qed

end
