(* ===== verification/Agent_Prompt.thy ===== *)
theory Agent_Prompt
  imports Agent_Tools
begin

text \<open>
  What the librarian agent tells the model, \<^verbatim>\<open>crates/mycelium-librarian/src/agent.rs\<close>: the system prompt with its
  operating rules, the layout of the bundle and the section of the mode, and the specifications of the tools it offers.  The printer of
  JSON is a parameter; the process-wide cache of schemas, which hands out the same value, is left out.
\<close>

section \<open>The system prompt\<close>

datatype agent_mode = Mode_query | Mode_mutate | Mode_chat

definition LARGE_BUNDLE_THRESHOLD :: nat where "LARGE_BUNDLE_THRESHOLD = 300"

definition OPERATING_RULES :: rstring where
  "OPERATING_RULES =
     str ''1. SEARCH FIRST. Before adding anything, search for existing concepts the new knowledge relates to.'' @ [NL] @
     str ''2. ENRICH OVER CREATE. A fact that is an attribute of an existing concept gets patched INTO that concept '' @ [8212] @
     str '' not filed as its own concept.'' @ [NL] @
     str ''3. LINK BOTH WAYS. A new concept must be wired into the graph: link it to related concepts AND patch those to '' @
     str ''reference it back.'' @ [NL] @
     str ''4. REUSE TYPES. Prefer a type already in use. Types currently in the bundle: {types_list}.'' @ [NL] @
     str ''5. PLACE DELIBERATELY. Choose directories by subject area; reuse existing directories; short kebab-case '' @
     str ''filenames.'' @ [NL] @
     str ''6. WRITE FOR THE NEXT READER. One-line descriptions; concise, factual, self-contained bodies.'' @ [NL] @
     str ''7. PREFER PATCH OVER REWRITE. Use patch_concept for small changes.'' @ [NL] @ str ''8. DEPRECATE, DON'' @ [39] @
     str ''T DELETE. When knowledge is outdated: patch the OLD concept '' @ [8212] @
     str '' status: superseded + superseded_by: <new-concept-path> '' @ [8212] @
     str '' or status: retired. Never leave a live concept contradicting a new one. Use delete_concept only for '' @
     str ''wrong/harmful content or on explicit request.'' @ [NL] @
     str ''9. CITE WHEN ANSWERING. Ground every claim in concepts you actually read; list their paths. If the knowledge '' @
     str ''base doesn'' @ [39] @ str ''t contain the answer, say so plainly '' @ [8212] @ str '' never invent knowledge.''"

text \<open>\<^verbatim>\<open>str::replacen\<close> with count 1: the first place of the pattern.\<close>

definition replace_first :: "rstring \<Rightarrow> rstring \<Rightarrow> rstring \<Rightarrow> rstring" where
  "replace_first pat to s = (case find_str s pat of Some i \<Rightarrow> take i s @ to @ drop (i + length pat) s | None \<Rightarrow> s)"

definition operating_rules :: "rstring \<Rightarrow> rstring" where
  "operating_rules types_list = replace_first (str ''{types_list}'') types_list OPERATING_RULES"

fun mode_section :: "agent_mode \<Rightarrow> rstring" where
  "mode_section Mode_query =
     str ''## Your task mode: QUERY (read-only)'' @ [NL, NL] @ str ''Answer the user'' @ [39] @
     str ''s question from the knowledge base. Search, read the relevant concepts, then answer. End your answer with a '' @ [34] @
     str ''Sources:'' @ [34] @ str '' line listing the bundle paths you used.'' @ [NL, NL] @ str ''RETRIEVAL PROTOCOL '' @ [8212] @
     str '' search is keyword-based, not semantic, so one empty search proves nothing:'' @ [NL] @ str ''1. Search with the question'' @
     [39] @ str ''s key terms.'' @ [NL] @
     str ''2. On a miss, retry once or twice with synonyms, broader terms, or related entities.'' @ [NL] @
     str ''3. Still nothing? Check the bundle layout (above, or via list_directory) and read_concept EVERY concept whose '' @
     str ''type, name, or description could plausibly relate. Search hits carry lifecycle fields (status, superseded_by, '' @
     str ''confirmed_at). A hit with status: superseded is an old version '' @ [8212] @
     str '' follow its superseded_by to the current concept instead of enriching it; a retired hit is withdrawn knowledge '' @ [8212] @
     str '' never restate it as current without checking a live source.'' @ [NL] @
     str ''4. Only after steps 1-3 may you answer that the knowledge base has no coverage; then suggest what concept could '' @
     str ''be added.''"
| "mode_section Mode_mutate =
     str ''## Your task mode: MUTATE'' @ [NL, NL] @ str ''The input is knowledge to persist or a change to apply '' @ [8212] @
     str '' NOT a message to reply to. Do not respond conversationally. You MUST act with the write tools.'' @ [NL, NL] @
     str ''WRITE PROTOCOL:'' @ [NL] @
     str ''1. Search for concepts the knowledge relates to or belongs to; read the strongest candidates.'' @ [NL] @
     str ''2. CHECK FOR CONTRADICTION. If the new knowledge conflicts with an existing concept, update it '' @ [8212] @
     str '' never leave two contradictory claims standing. When replacing a concept entirely, set its status to superseded '' @
     str ''and its superseded_by to the new concept'' @ [39] @
     str ''s path (rule 8). Search hits carry lifecycle fields (status, superseded_by, confirmed_at). A hit with status: '' @
     str ''superseded is an old version '' @ [8212] @
     str '' follow its superseded_by to the current concept instead of enriching it; a retired hit is withdrawn knowledge '' @ [8212] @
     str '' never restate it as current without checking a live source.'' @ [NL] @
     str ''3. ENRICH OVER CREATE: a fact that belongs to an existing concept gets patched into it; only a distinct entity '' @
     str ''gets its own concept.'' @ [NL] @ str ''4. LINK BOTH WAYS: new concepts must be wired into the graph '' @ [8212] @
     str '' link related concepts and patch them to reference back.'' @ [NL] @
     str ''5. Finish with a one-sentence summary of what changed and the paths touched.''"
| "mode_section Mode_chat =
     str ''## Your task mode: CHAT'' @ [NL, NL] @
     str ''You are conversing with the user about their knowledge base. Answer questions (search and read first, cite '' @
     str ''paths), and when the user asks to record or change knowledge, use the write tools following the MUTATE '' @
     str ''protocol. Be concise.''"

definition bundle_types :: "concept_entry list \<Rightarrow> rstring list" where
  "bundle_types entries = remdups_adj (sort (filter (\<lambda>t. t \<noteq> []) (map ce_concept_type entries)))"

definition bundle_tree :: "concept_store \<Rightarrow> store_state \<Rightarrow> rstring" where
  "bundle_tree S st =
     (let entries = list_concepts S st in
      if LARGE_BUNDLE_THRESHOLD < length entries
      then str ''(large bundle: '' @ show_nat (length entries) @ str '' concepts '' @ [8212] @ str '' use search/read tools to navigate)''
      else format_tree S st)"

definition types_text :: "rstring list \<Rightarrow> rstring" where
  "types_text types =
     (if types = [] then str ''(none yet '' @ [8212] @ str '' you set the precedent; choose short, reusable names)''
      else join_with (str '', '') types)"

definition prompt_text :: "rstring \<Rightarrow> rstring \<Rightarrow> rstring \<Rightarrow> rstring" where
  "prompt_text rules tree mode_text =
     str ''You are the Knowledge Keeper '' @ [8212] @
     str '' an agent that manages a knowledge base conforming to the Open Knowledge Format (OKF).'' @ [NL, NL] @
     str ''## The OKF format'' @ [NL, NL] @
     str ''- The knowledge base is a directory tree of markdown files; every concept is one .md file with YAML frontmatter.'' @ [NL] @
     str ''- The only REQUIRED frontmatter field is `type` (free-form, e.g. '' @ [34] @ str ''Decision'' @ [34] @ str '', '' @ [34] @
     str ''How-To'' @ [34] @ str '', '' @ [34] @ str ''Playbook'' @ [34] @
     str ''). Recommended: `title`, `description` (one line), `resource`, `tags` (list).'' @ [NL] @
     str ''- `index.md` and `log.md` are RESERVED '' @ [8212] @ str '' never create concepts with those names.'' @ [NL] @
     str ''- Cross-link related concepts with bundle-relative markdown links: `[Customers table](/tables/customers.md)`. '' @
     str ''Link liberally; broken links are tolerated.'' @ [NL] @
     str ''- **Book library (card catalog)**: some shelves catalog books. A `Book` or `Chapter` concept has a small '' @
     str ''summary body and a `resource: book://<slug>#<anchor>` field '' @ [8212] @
     str '' the FULL text lives in the library stacks, NOT in the concept body. To read a chapter'' @ [39] @
     str ''s full text, call the `read_passage` tool with that `resource`. Never assume a chapter concept'' @ [39] @
     str ''s body is the whole chapter.'' @ [NL, NL] @ str ''## Operating rules'' @ [NL, NL] @
     rules @
     [NL, NL] @ str ''## Current bundle layout'' @ [NL, NL] @
     tree @
     [NL, NL] @
     mode_text"

definition build_system_prompt :: "concept_store \<Rightarrow> store_state \<Rightarrow> agent_mode \<Rightarrow> rstring" where
  "build_system_prompt S st mode =
     prompt_text (operating_rules (types_text (bundle_types (list_concepts S st)))) (bundle_tree S st) (mode_section mode)"

section \<open>The tools on offer\<close>

definition search_knowledge_spec :: "(json \<Rightarrow> rstring) \<Rightarrow> tool_spec" where
  "search_knowledge_spec pr =
     make_tool_spec (str ''search_knowledge'')
       (str ''Search the knowledge base by keywords. Returns ranked hits with paths and snippets. NOTE: matching is '' @
        str ''keyword-based, not semantic '' @ [8212] @ str '' a miss does NOT mean the knowledge is absent.'')
       (pr (J_obj [(str ''type'', J_str (str ''object'')),
               (str ''properties'', J_obj [(str ''query'', J_obj [(str ''type'', J_str (str ''string'')),
                             (str ''description'', J_str (str ''Keywords to search for''))]),
                      (str ''include_inactive'', J_obj [(str ''type'', J_str (str ''boolean'')),
                             (str ''description'', J_str (str ''Include retired/superseded concepts (history queries). Default false.''))])]),
               (str ''required'', J_arr [J_str (str ''query'')])]))"

definition read_passage_spec :: "(json \<Rightarrow> rstring) \<Rightarrow> tool_spec" where
  "read_passage_spec pr =
     make_tool_spec (str ''read_passage'')
       (str ''Read a full passage from a book in the library stacks. A catalog `Book`/`Chapter` concept has a small '' @
        str ''summary body and a `resource` field like `book://<slug>#<anchor>` '' @ [8212] @
        str '' call this with that resource to fetch the full chapter/section text on demand. Do NOT assume a chapter '' @
        str ''concept'' @ [39] @ str ''s body is the whole chapter; it is only a summary '' @ [8212] @
        str '' use read_passage for the full text.'')
       (pr (J_obj [(str ''type'', J_str (str ''object'')),
               (str ''properties'', J_obj [(str ''resource'', J_obj [(str ''type'', J_str (str ''string'')),
                             (str ''description'', J_str (str ''A book://<slug>#<anchor> URI, taken from a concept'' @ [39] @ str ''s `resource` field''))])]),
               (str ''required'', J_arr [J_str (str ''resource'')])]))"

definition read_concept_spec :: "(json \<Rightarrow> rstring) \<Rightarrow> tool_spec" where
  "read_concept_spec pr =
     make_tool_spec (str ''read_concept'')
       (str ''Read one concept document in full: frontmatter and markdown body.'')
       (pr (J_obj [(str ''type'', J_str (str ''object'')),
               (str ''properties'', J_obj [(str ''path'', J_obj [(str ''type'', J_str (str ''string'')),
                             (str ''description'', J_str (str ''Bundle-relative path starting with /, ending in .md''))])]),
               (str ''required'', J_arr [J_str (str ''path'')])]))"

definition list_directory_spec :: "(json \<Rightarrow> rstring) \<Rightarrow> tool_spec" where
  "list_directory_spec pr =
     make_tool_spec (str ''list_directory'')
       (str ''List the bundle'' @ [39] @
        str ''s concepts with types and titles. Use to understand structure and decide where new concepts belong.'')
       (pr (J_obj [(str ''type'', J_str (str ''object'')),
               (str ''properties'', J_obj [])]))"

definition lint_knowledge_spec :: "(json \<Rightarrow> rstring) \<Rightarrow> tool_spec" where
  "lint_knowledge_spec pr =
     make_tool_spec (str ''lint_knowledge'')
       (str ''Graph health check: orphaned concepts (nothing links to them) and broken links.'')
       (pr (J_obj [(str ''type'', J_str (str ''object'')),
               (str ''properties'', J_obj [])]))"

definition write_concept_spec :: "(json \<Rightarrow> rstring) \<Rightarrow> tool_spec" where
  "write_concept_spec pr =
     make_tool_spec (str ''write_concept'')
       (str ''Create a new concept or fully overwrite an existing one. Frontmatter must include a non-empty '' @ [39] @ str ''type'' @
        [39] @ str ''.'')
       (pr (J_obj [(str ''type'', J_str (str ''object'')),
               (str ''properties'', J_obj [(str ''path'', J_obj [(str ''type'', J_str (str ''string'')),
                             (str ''description'', J_str (str ''Bundle-relative path starting with /, ending in .md''))]),
                      (str ''frontmatter'', J_obj [(str ''type'', J_str (str ''object'')),
                             (str ''properties'', J_obj [(str ''type'', J_obj [(str ''type'', J_str (str ''string'')),
                                           (str ''description'', J_str (str ''Concept kind, e.g. '' @ [39] @ str ''Decision'' @ [39] @ str ''. Required.''))]),
                                    (str ''title'', J_obj [(str ''type'', J_str (str ''string''))]),
                                    (str ''description'', J_obj [(str ''type'', J_str (str ''string''))]),
                                    (str ''tags'', J_obj [(str ''type'', J_str (str ''array'')),
                                           (str ''items'', J_obj [(str ''type'', J_str (str ''string''))])])]),
                             (str ''required'', J_arr [J_str (str ''type'')])]),
                      (str ''body'', J_obj [(str ''type'', J_str (str ''string'')),
                             (str ''description'', J_str (str ''Markdown body (no frontmatter block)''))])]),
               (str ''required'', J_arr [J_str (str ''path''), J_str (str ''frontmatter''), J_str (str ''body'')])]))"

definition patch_concept_spec :: "(json \<Rightarrow> rstring) \<Rightarrow> tool_spec" where
  "patch_concept_spec pr =
     make_tool_spec (str ''patch_concept'')
       (str ''Targeted update of an existing concept: merge frontmatter keys (null deletes a key) and/or replace one '' @
        str ''top-level '' @ [39] @ str ''# Section'' @ [39] @
        str '' body section, or replace the whole body. Prefer this over write_concept for small edits.'')
       (pr (J_obj [(str ''type'', J_str (str ''object'')),
               (str ''properties'', J_obj [(str ''path'', J_obj [(str ''type'', J_str (str ''string'')),
                             (str ''description'', J_str (str ''Bundle-relative path starting with /, ending in .md''))]),
                      (str ''frontmatter'', J_obj [(str ''type'', J_str (str ''object'')),
                             (str ''description'', J_str (str ''Frontmatter keys to merge; set a key to null to remove it''))]),
                      (str ''replace_section'', J_obj [(str ''type'', J_str (str ''object'')),
                             (str ''properties'', J_obj [(str ''heading'', J_obj [(str ''type'', J_str (str ''string'')),
                                           (str ''description'', J_str (str ''Top-level heading name, e.g. '' @ [39] @ str ''Schema'' @ [39]))]),
                                    (str ''content'', J_obj [(str ''type'', J_str (str ''string'')),
                                           (str ''description'', J_str (str ''New content for that section''))])])]),
                      (str ''replace_body'', J_obj [(str ''type'', J_str (str ''string'')),
                             (str ''description'', J_str (str ''Replace the entire markdown body (frontmatter untouched)''))]),
                      (str ''body'', J_obj [(str ''type'', J_str (str ''string'')),
                             (str ''description'', J_str (str ''Whole-body replace verbatim (frontmatter untouched); an empty string changes nothing. Outranks '' @
                                     str ''replace_section/replace_body when several are sent.''))])]),
               (str ''required'', J_arr [J_str (str ''path'')])]))"

definition delete_concept_spec :: "(json \<Rightarrow> rstring) \<Rightarrow> tool_spec" where
  "delete_concept_spec pr =
     make_tool_spec (str ''delete_concept'')
       (str ''Permanently delete a concept. Prefer lifecycle retirement instead: patch the concept with status: '' @
        str ''retired (or status: superseded + superseded_by pointing at the replacement). Use delete_concept only '' @
        str ''when content is wrong/harmful or deletion was explicitly requested.'')
       (pr (J_obj [(str ''type'', J_str (str ''object'')),
               (str ''properties'', J_obj [(str ''path'', J_obj [(str ''type'', J_str (str ''string'')),
                             (str ''description'', J_str (str ''Bundle-relative path starting with /, ending in .md''))])]),
               (str ''required'', J_arr [J_str (str ''path'')])]))"

definition read_tool_specs :: "(json \<Rightarrow> rstring) \<Rightarrow> tool_spec list" where
  "read_tool_specs pr = [search_knowledge_spec pr, read_passage_spec pr, read_concept_spec pr, list_directory_spec pr, lint_knowledge_spec pr]"

definition all_tool_specs :: "(json \<Rightarrow> rstring) \<Rightarrow> tool_spec list" where
  "all_tool_specs pr = read_tool_specs pr @ [write_concept_spec pr, patch_concept_spec pr, delete_concept_spec pr]"

section \<open>What is offered is what runs\<close>

lemmas spec_defs = search_knowledge_spec_def read_passage_spec_def read_concept_spec_def list_directory_spec_def lint_knowledge_spec_def
  write_concept_spec_def patch_concept_spec_def delete_concept_spec_def

lemma offered_names:
  "map ts_name (read_tool_specs pr) = map str [''search_knowledge'', ''read_passage'', ''read_concept'', ''list_directory'', ''lint_knowledge'']"
  "map ts_name (all_tool_specs pr) = map ts_name (read_tool_specs pr) @ map str [''write_concept'', ''patch_concept'', ''delete_concept'']"
  by (simp_all add: all_tool_specs_def read_tool_specs_def spec_defs make_tool_spec_def del: str_Cons)

end
