(* ===== verification/Agent_Loop.thy ===== *)
theory Agent_Loop
  imports Agent_Prompt Chat_Runner
begin

text \<open>
  The agent's runs, \<^verbatim>\<open>crates/mycelium-librarian/src/agent.rs\<close>: the loop that asks the model, runs the tools it calls and hands
  the results back, in the query, mutation and chat modes, with the trace of the run.  The endpoint may answer each round as it likes: its
  transport in round \<open>k\<close> is \<open>le_http k\<close>.
\<close>

section \<open>Runs\<close>

definition MAX_STEPS :: nat where "MAX_STEPS = 30"

record loop_env =
  le_client :: llm_client
  le_http :: "nat \<Rightarrow> transport"
  le_now :: "nat \<Rightarrow> timestamp"
  le_trace :: trace_draws

definition ask_model ::
  "loop_env \<Rightarrow> rstring \<Rightarrow> tool_spec list \<Rightarrow> real \<Rightarrow> nat \<Rightarrow> conversation_turn list \<Rightarrow> llm_globals
   \<Rightarrow> (llm_error + step_output) \<times> llm_globals" where
  "ask_model E system tools temperature k conversation G =
     chat_with_tools ((le_client E)\<lparr>cl_http := le_http E k\<rparr>) (le_now E k) system conversation tools temperature G"

text \<open>A failed tool goes back to the model as its result.\<close>

fun tool_text :: "agent_env \<Rightarrow> tool_result \<Rightarrow> rstring" where
  "tool_text A (Inr (result, _)) = result"
| "tool_text A (Inl e) = ae_print A (J_obj [(str ''error'', J_str (show_agent_error e))])"

fun written_path :: "tool_result \<Rightarrow> rstring list" where
  "written_path (Inr (_, Some p)) = [p]"
| "written_path _ = []"

fun run_calls ::
  "agent_env \<Rightarrow> concept_store \<Rightarrow> agent_scopes \<Rightarrow> bool \<Rightarrow> tool_call list \<Rightarrow> conversation_turn list \<Rightarrow> rstring list \<Rightarrow> agent_state
   \<Rightarrow> conversation_turn list \<times> rstring list \<times> agent_state" where
  "run_calls A S Z allow_writes [] conversation files g = (conversation, files, g)"
| "run_calls A S Z allow_writes (call # calls) conversation files g =
     (case execute_tool_tracked A S Z allow_writes call g of
        (r, g') \<Rightarrow>
          run_calls A S Z allow_writes calls (conversation @ [Tool_result (tc_id call) (tool_text A r)]) (files @ written_path r) g')"

text \<open>How the rounds end: with an answer, with a failed call of the model, or at the step cap.\<close>

datatype loop_exit = Answered rstring | Llm_failed llm_error | Step_cap

fun agent_rounds ::
  "loop_env \<Rightarrow> agent_env \<Rightarrow> concept_store \<Rightarrow> agent_scopes \<Rightarrow> rstring \<Rightarrow> tool_spec list \<Rightarrow> bool \<Rightarrow> real \<Rightarrow> nat \<Rightarrow> nat
   \<Rightarrow> conversation_turn list \<Rightarrow> rstring list \<Rightarrow> agent_state \<Rightarrow> llm_globals \<Rightarrow> loop_exit \<times> rstring list \<times> agent_state \<times> llm_globals" where
  "agent_rounds E A S Z system tools allow_writes temperature k 0 conversation files g G = (Step_cap, files, g, G)"
| "agent_rounds E A S Z system tools allow_writes temperature k (Suc n) conversation files g G =
     (case ask_model E system tools temperature k conversation G of
        (Inl e, G') \<Rightarrow> (Llm_failed e, files, g, G')
      | (Inr (Step_text t), G') \<Rightarrow> (Answered t, files, g, G')
      | (Inr (Step_tool_calls calls), G') \<Rightarrow>
          (case run_calls A S Z allow_writes calls (conversation @ [Assistant_tool_calls calls]) files g of
             (conversation', files', g') \<Rightarrow>
               agent_rounds E A S Z system tools allow_writes temperature (k + 1) n conversation' files' g' G'))"

text \<open>What a run reads and changes: the store of the caller, the hot memory, the state of the model client, the traces.\<close>

record agent_world =
  aw_store :: store_state
  aw_hot :: hot_global
  aw_globals :: llm_globals
  aw_traces :: trace_table

definition run_start :: "agent_world \<Rightarrow> agent_state" where
  "run_start w = \<lparr>ag_store = aw_store w, ag_hot = aw_hot w, ag_steps = [], ag_calls = 0\<rparr>"

definition leave_run :: "agent_state \<Rightarrow> llm_globals \<Rightarrow> agent_world \<Rightarrow> agent_world" where
  "leave_run g G w = w\<lparr>aw_store := ag_store g, aw_hot := ag_hot g, aw_globals := G\<rparr>"

definition keep_trace ::
  "loop_env \<Rightarrow> agent_scopes \<Rightarrow> trace_kind \<Rightarrow> rstring \<Rightarrow> rstring \<Rightarrow> trace_outcome \<Rightarrow> trace_step list \<Rightarrow> agent_world \<Rightarrow> agent_world" where
  "keep_trace E Z kind input reply outcome steps w =
     (case as_trace Z of
        None \<Rightarrow> w
      | Some scope \<Rightarrow>
          w\<lparr>aw_traces := save_trace (le_trace E) scope (finalize_trace (le_trace E) kind input reply outcome steps) (aw_traces w)\<rparr>)"

definition agent_loop_tracked ::
  "loop_env \<Rightarrow> agent_env \<Rightarrow> concept_store \<Rightarrow> agent_scopes \<Rightarrow> rstring \<Rightarrow> rstring \<Rightarrow> tool_spec list \<Rightarrow> bool \<Rightarrow> real \<Rightarrow> nat
   \<Rightarrow> agent_world \<Rightarrow> (agent_error + rstring \<times> rstring list) \<times> agent_world" where
  "agent_loop_tracked E A S Z system prompt tools allow_writes temperature max_steps w =
     (let kind = (if allow_writes then Trace_mutation else Trace_query) in
      case agent_rounds E A S Z system tools allow_writes temperature 0 max_steps [User_turn prompt] [] (run_start w) (aw_globals w) of
        (Answered reply, files, g, G) \<Rightarrow>
          (Inr (reply, files), keep_trace E Z kind prompt reply Trace_success (ag_steps g) (leave_run g G w))
      | (Llm_failed e, files, g, G) \<Rightarrow> (Inl (Agent_llm e), leave_run g G w)
      | (Step_cap, files, g, G) \<Rightarrow>
          (Inl StepCapExceeded,
           keep_trace E Z kind prompt (str ''agent exceeded step cap'') Trace_failed (ag_steps g) (leave_run g G w)))"

definition agent_loop ::
  "loop_env \<Rightarrow> agent_env \<Rightarrow> concept_store \<Rightarrow> agent_scopes \<Rightarrow> rstring \<Rightarrow> rstring \<Rightarrow> tool_spec list \<Rightarrow> bool \<Rightarrow> real
   \<Rightarrow> agent_world \<Rightarrow> (agent_error + rstring) \<times> agent_world" where
  "agent_loop E A S Z system prompt tools allow_writes temperature w =
     map_prod (map_sum id fst) id (agent_loop_tracked E A S Z system prompt tools allow_writes temperature MAX_STEPS w)"

record query_result =
  qr_answer :: rstring
  qr_steps :: nat

definition run_query ::
  "loop_env \<Rightarrow> agent_env \<Rightarrow> concept_store \<Rightarrow> agent_scopes \<Rightarrow> rstring \<Rightarrow> agent_world \<Rightarrow> (agent_error + query_result) \<times> agent_world" where
  "run_query E A S Z question w =
     map_prod (map_sum id (\<lambda>reply. \<lparr>qr_answer = reply, qr_steps = 0\<rparr>)) id
       (agent_loop E A S Z (build_system_prompt S (aw_store w) Mode_query) question (read_tool_specs (ae_print A)) False (2 / 10) w)"

definition run_mutation_capped ::
  "loop_env \<Rightarrow> agent_env \<Rightarrow> concept_store \<Rightarrow> agent_scopes \<Rightarrow> rstring \<Rightarrow> nat \<Rightarrow> agent_world
   \<Rightarrow> (agent_error + mutation_result) \<times> agent_world" where
  "run_mutation_capped E A S Z instruction max_steps w =
     map_prod (map_sum id (\<lambda>(summary, files). \<lparr>mr_summary = summary, mr_files_changed = files, mr_steps = 0\<rparr>)) id
       (agent_loop_tracked E A S Z (build_system_prompt S (aw_store w) Mode_mutate) instruction (all_tool_specs (ae_print A)) True (2 / 10)
          max_steps w)"

definition run_mutation ::
  "loop_env \<Rightarrow> agent_env \<Rightarrow> concept_store \<Rightarrow> agent_scopes \<Rightarrow> rstring \<Rightarrow> agent_world \<Rightarrow> (agent_error + mutation_result) \<times> agent_world" where
  "run_mutation E A S Z instruction w =
     map_prod (map_sum id (\<lambda>(summary, files). \<lparr>mr_summary = summary, mr_files_changed = files, mr_steps = 0\<rparr>)) id
       (agent_loop_tracked E A S Z (build_system_prompt S (aw_store w) Mode_mutate) instruction (all_tool_specs (ae_print A)) True (2 / 10)
          MAX_STEPS w)"

section \<open>Chat\<close>

text \<open>The chat loop is the same loop over a history; it announces every call and its end, and keeps no list of files.\<close>

fun chat_calls ::
  "agent_env \<Rightarrow> concept_store \<Rightarrow> agent_scopes \<Rightarrow> tool_call list \<Rightarrow> conversation_turn list \<Rightarrow> agent_event list \<Rightarrow> agent_state
   \<Rightarrow> conversation_turn list \<times> agent_event list \<times> agent_state" where
  "chat_calls A S Z [] conversation events g = (conversation, events, g)"
| "chat_calls A S Z (call # calls) conversation events g =
     (let events' = events @ [Ev_tool (tc_name call) (take 120 (tc_arguments call))] in
      case execute_tool_tracked A S Z True call g of
        (r, g') \<Rightarrow> chat_calls A S Z calls (conversation @ [Tool_result (tc_id call) (tool_text A r)]) events' g')"

fun chat_rounds ::
  "loop_env \<Rightarrow> agent_env \<Rightarrow> concept_store \<Rightarrow> agent_scopes \<Rightarrow> rstring \<Rightarrow> tool_spec list \<Rightarrow> nat \<Rightarrow> nat
   \<Rightarrow> conversation_turn list \<Rightarrow> agent_event list \<Rightarrow> agent_state \<Rightarrow> llm_globals \<Rightarrow> loop_exit \<times> agent_event list \<times> agent_state \<times> llm_globals" where
  "chat_rounds E A S Z system tools k 0 conversation events g G = (Step_cap, events, g, G)"
| "chat_rounds E A S Z system tools k (Suc n) conversation events g G =
     (case ask_model E system tools (2 / 10) k conversation G of
        (Inl e, G') \<Rightarrow> (Llm_failed e, events, g, G')
      | (Inr (Step_text t), G') \<Rightarrow> (Answered t, events, g, G')
      | (Inr (Step_tool_calls calls), G') \<Rightarrow>
          (case chat_calls A S Z calls (conversation @ [Assistant_tool_calls calls]) events g of
             (conversation', events', g') \<Rightarrow> chat_rounds E A S Z system tools (k + 1) n conversation' events' g' G'))"

fun user_text :: "conversation_turn \<Rightarrow> rstring option" where
  "user_text (User_turn u) = Some u"
| "user_text _ = None"

definition last_input :: "conversation_turn list \<Rightarrow> rstring" where
  "last_input past = (case List.map_filter user_text (rev past) of u # _ \<Rightarrow> u | [] \<Rightarrow> [])"

definition run_chat_streaming ::
  "loop_env \<Rightarrow> agent_env \<Rightarrow> concept_store \<Rightarrow> agent_scopes \<Rightarrow> conversation_turn list \<Rightarrow> agent_world
   \<Rightarrow> (agent_error + rstring) \<times> agent_event list \<times> agent_world" where
  "run_chat_streaming E A S Z past w =
     (case chat_rounds E A S Z (build_system_prompt S (aw_store w) Mode_chat) (all_tool_specs (ae_print A)) 0 MAX_STEPS past []
         (run_start w) (aw_globals w) of
        (Answered reply, events, g, G) \<Rightarrow>
          (Inr reply, events @ [Ev_done reply],
           keep_trace E Z Trace_chat (last_input past) reply Trace_success (ag_steps g) (leave_run g G w))
      | (Llm_failed e, events, g, G) \<Rightarrow> (Inl (Agent_llm e), events, leave_run g G w)
      | (Step_cap, events, g, G) \<Rightarrow>
          (Inl StepCapExceeded, events @ [Ev_failed (show_agent_error StepCapExceeded)],
           keep_trace E Z Trace_chat (last_input past) (show_agent_error StepCapExceeded) Trace_failed (ag_steps g) (leave_run g G w)))"

definition run_chat ::
  "loop_env \<Rightarrow> agent_env \<Rightarrow> concept_store \<Rightarrow> agent_scopes \<Rightarrow> conversation_turn list \<Rightarrow> agent_world \<Rightarrow> (agent_error + rstring) \<times> agent_world" where
  "run_chat E A S Z past w = (case run_chat_streaming E A S Z past w of (r, events, w') \<Rightarrow> (r, w'))"

section \<open>The tool protocol\<close>

text \<open>
  What the endpoint accepts: a message with tool calls is followed by one result for each of its calls, and by nothing else
  before; a result answers a call that is still open.
\<close>

fun tool_protocol :: "rstring list \<Rightarrow> chat_message list \<Rightarrow> bool" where
  "tool_protocol pending [] \<longleftrightarrow> pending = []"
| "tool_protocol pending (m # ms) \<longleftrightarrow>
     (if cm_role m = str ''tool''
      then (case cm_tool_call_id m of Some i \<Rightarrow> i \<in> set pending \<and> tool_protocol (remove1 i pending) ms | None \<Rightarrow> False)
      else pending = [] \<and> tool_protocol (case cm_tool_calls m of Some calls \<Rightarrow> map tc_id calls | None \<Rightarrow> []) ms)"

text \<open>The same on the turns of a conversation.\<close>

fun turns_ok :: "rstring list \<Rightarrow> conversation_turn list \<Rightarrow> bool" where
  "turns_ok pending [] \<longleftrightarrow> pending = []"
| "turns_ok pending (Tool_result i _ # ts) \<longleftrightarrow> i \<in> set pending \<and> turns_ok (remove1 i pending) ts"
| "turns_ok pending (Assistant_tool_calls calls # ts) \<longleftrightarrow> pending = [] \<and> turns_ok (map tc_id calls) ts"
| "turns_ok pending (t # ts) \<longleftrightarrow> pending = [] \<and> turns_ok [] ts"

lemma sent_roles: "str ''user'' \<noteq> str ''tool''" "str ''assistant'' \<noteq> str ''tool''" "str ''system'' \<noteq> str ''tool''"
  by simp_all

lemma messages_ok: "tool_protocol pending (map turn_message (map bound_turn ts)) \<longleftrightarrow> turns_ok pending ts"
proof (induction ts arbitrary: pending)
  case (Cons t ts)
  then show ?case by (cases t) (simp_all add: text_message_def sent_roles del: str_Cons)
qed simp

lemma turns_ok_append: "turns_ok pending xs \<Longrightarrow> turns_ok [] ys \<Longrightarrow> turns_ok pending (xs @ ys)"
  by (induction pending xs rule: turns_ok.induct) simp_all

lemma turns_ok_results: "turns_ok pending ts \<Longrightarrow> turns_ok [] (dropWhile is_tool_result ts)"
  by (induction pending ts rule: turns_ok.induct) auto

lemma turns_ok_drop_unit: "turns_ok [] ts \<Longrightarrow> turns_ok [] (drop (unit_len ts) ts)"
proof (cases ts)
  case (Cons t r)
  assume ok: "turns_ok [] ts"
  show ?thesis
  proof (cases t)
    case (User_turn x)
    then show ?thesis using ok Cons by (cases r; cases "hd r") (auto simp: unit_len_def unit_end_def)
  next
    case (Assistant_tool_calls cs)
    then show ?thesis using ok Cons turns_ok_results [of "map tc_id cs" r] by (simp add: unit_len_simps dropWhile_eq_drop)
  qed (use ok Cons in \<open>simp_all add: unit_len_def unit_end_def\<close>)
qed simp

lemma turns_ok_units:
  "turns_ok [] (drop s turns) \<Longrightarrow> u \<in> set (units_from turns s) \<Longrightarrow> turns_ok [] (drop (fst u) turns)"
proof (induction turns s rule: units_from.induct)
  case (1 turns s)
  have "s < length turns" using 1(3) by (subst (asm) units_from.simps) (simp split: if_splits)
  moreover have "turns_ok [] (drop (unit_end turns s) turns)"
    using turns_ok_drop_unit [OF 1(2)] by (simp add: unit_end_len add.commute)
  ultimately show ?case using 1 by (cases "u = (s, unit_end turns s)") (auto simp: units_from.simps [of turns s])
qed

lemma turns_ok_trim:
  assumes "turns_ok [] turns"
  shows "turns_ok [] (trim_conversation turns)"
proof (cases "turns = []")
  case True
  then show ?thesis by (simp add: trim_conversation_def units_from.simps get_at_def split: option.split)
next
  case False
  then obtain n where n: "n < length (units_from turns 0)" "trim_conversation turns = drop (fst (units_from turns 0 ! n)) turns"
    by (rule trim_unit)
  then show ?thesis using turns_ok_units [of 0 turns "units_from turns 0 ! n"] assms by simp
qed

lemma request_ok: "turns_ok [] turns \<Longrightarrow> tool_protocol [] (cq_messages (tools_request C system turns tools temperature))"
  using messages_ok [of "[]" "trim_conversation turns"] turns_ok_trim [of turns]
  by (simp add: tools_request_def text_message_def sent_roles del: str_Cons map_map)

lemma run_calls_ok: "\<exists>rs. fst (run_calls A S Z aw calls conversation files g) = conversation @ rs \<and> turns_ok (map tc_id calls) rs"
proof (induction calls arbitrary: conversation files g)
  case (Cons call calls)
  obtain r g' where "execute_tool_tracked A S Z aw call g = (r, g')" by (cases "execute_tool_tracked A S Z aw call g")
  moreover obtain rs where "turns_ok (map tc_id calls) rs" "fst (run_calls A S Z aw calls (conversation @ [Tool_result (tc_id call) (tool_text A r)])
      (files @ written_path r) g') = (conversation @ [Tool_result (tc_id call) (tool_text A r)]) @ rs"
    using Cons.IH by blast
  ultimately show ?case by (intro exI [of _ "Tool_result (tc_id call) (tool_text A r) # rs"]) simp
qed simp

text \<open>The chat loop runs the same calls.\<close>

lemma chat_calls_run:
  "chat_calls A S Z calls conversation events g =
     (fst (run_calls A S Z True calls conversation files g),
      events @ map (\<lambda>c. Ev_tool (tc_name c) (take 120 (tc_arguments c))) calls,
      snd (snd (run_calls A S Z True calls conversation files g)))"
proof (induction calls arbitrary: conversation events files g)
  case (Cons call calls)
  obtain r g' where "execute_tool_tracked A S Z True call g = (r, g')" by (cases "execute_tool_tracked A S Z True call g")
  then show ?case
    using Cons.IH [of "conversation @ [Tool_result (tc_id call) (tool_text A r)]" "events @ [Ev_tool (tc_name call) (take 120 (tc_arguments call))]"
        g' "files @ written_path r"] by simp
qed simp

section \<open>Only requests within the protocol are sent\<close>

lemma after_calls_ok:
  assumes "turns_ok [] conversation" "run_calls A S Z aw calls (conversation @ [Assistant_tool_calls calls]) files g = (conversation', files', g')"
  shows "turns_ok [] conversation'"
  using run_calls_ok [of A S Z aw calls "conversation @ [Assistant_tool_calls calls]" files g] assms
  by (auto intro: turns_ok_append)

lemma after_chat_calls_ok:
  assumes "turns_ok [] conversation" "chat_calls A S Z calls (conversation @ [Assistant_tool_calls calls]) events g = (conversation', events', g')"
  shows "turns_ok [] conversation'"
  using run_calls_ok [of A S Z True calls "conversation @ [Assistant_tool_calls calls]" "[]" g] assms
  by (auto simp: chat_calls_run [of A S Z calls _ events g "[]"] intro!: turns_ok_append)

text \<open>Two endpoints that agree on the requests within the protocol give the same reply.\<close>

lemma ask_model_same:
  assumes agree: "\<And>url key body. tool_protocol [] (cq_messages body) \<Longrightarrow> http k url key body = http' k url key body"
    and ok: "turns_ok [] conversation"
  shows "ask_model (E\<lparr>le_http := http\<rparr>) system tools temperature k conversation G =
    ask_model (E\<lparr>le_http := http'\<rparr>) system tools temperature k conversation G"
proof -
  let ?C = "\<lambda>h. (le_client E)\<lparr>cl_http := h k\<rparr>"
  have req: "tools_request (?C h) system conversation tools temperature = tools_request (le_client E) system conversation tools temperature" for h
    by (simp add: tools_request_def)
  have "exchange (?C http) (tools_request (le_client E) system conversation tools temperature) =
      exchange (?C http') (tools_request (le_client E) system conversation tools temperature)"
    by (simp add: exchange_def post_chat_def completions_url_def agree [OF request_ok [OF ok]])
  then show ?thesis by (simp add: ask_model_def chat_with_tools_def chat_with_tools_impl_def req)
qed

lemma agent_rounds_same:
  assumes "\<And>j url key body. j < k + n \<Longrightarrow> tool_protocol [] (cq_messages body) \<Longrightarrow> http j url key body = http' j url key body"
    and "turns_ok [] conversation"
  shows "agent_rounds (E\<lparr>le_http := http\<rparr>) A S Z system tools aw temperature k n conversation files g G =
    agent_rounds (E\<lparr>le_http := http'\<rparr>) A S Z system tools aw temperature k n conversation files g G"
  using assms
proof (induction n arbitrary: k conversation files g G)
  case (Suc n)
  have ask: "ask_model (E\<lparr>le_http := http\<rparr>) system tools temperature k conversation G =
      ask_model (E\<lparr>le_http := http'\<rparr>) system tools temperature k conversation G"
    by (rule ask_model_same) (use Suc.prems in simp_all)
  have rest: "agent_rounds (E\<lparr>le_http := http\<rparr>) A S Z system tools aw temperature (Suc k) n c f g' G' =
      agent_rounds (E\<lparr>le_http := http'\<rparr>) A S Z system tools aw temperature (Suc k) n c f g' G'"
    if "run_calls A S Z aw calls (conversation @ [Assistant_tool_calls calls]) files g = (c, f, g')" for c f g' G' calls
    by (rule Suc.IH) (use Suc.prems after_calls_ok that in auto)
  show ?case by (auto simp: ask rest split: prod.split sum.split step_output.split)
qed simp

lemma chat_rounds_same:
  assumes "\<And>j url key body. j < k + n \<Longrightarrow> tool_protocol [] (cq_messages body) \<Longrightarrow> http j url key body = http' j url key body"
    and "turns_ok [] conversation"
  shows "chat_rounds (E\<lparr>le_http := http\<rparr>) A S Z system tools k n conversation events g G =
    chat_rounds (E\<lparr>le_http := http'\<rparr>) A S Z system tools k n conversation events g G"
  using assms
proof (induction n arbitrary: k conversation events g G)
  case (Suc n)
  have ask: "ask_model (E\<lparr>le_http := http\<rparr>) system tools temperature k conversation G =
      ask_model (E\<lparr>le_http := http'\<rparr>) system tools temperature k conversation G" for temperature
    by (rule ask_model_same) (use Suc.prems in simp_all)
  have rest: "chat_rounds (E\<lparr>le_http := http\<rparr>) A S Z system tools (Suc k) n c ev g' G' =
      chat_rounds (E\<lparr>le_http := http'\<rparr>) A S Z system tools (Suc k) n c ev g' G'"
    if "chat_calls A S Z calls (conversation @ [Assistant_tool_calls calls]) events g = (c, ev, g')" for c ev g' G' calls
    by (rule Suc.IH) (use Suc.prems after_chat_calls_ok that in auto)
  show ?case by (auto simp: ask rest split: prod.split sum.split step_output.split)
qed simp

text \<open>What a chat starts from is in order.\<close>

lemma history_turns_ok: "turns_ok [] (conversation_of h)"
proof -
  have "turns_ok [] (concat (map (\<lambda>(msg, reply). [User_turn msg, Assistant_turn reply]) pairs))" for pairs
    by (induction pairs) auto
  then show ?thesis by (cases h) (auto simp: conversation_of_def intro: turns_ok_append split: option.split)
qed

lemma keep_trace_http [simp]: "keep_trace (E\<lparr>le_http := http\<rparr>) = keep_trace E"
  by (simp add: fun_eq_iff keep_trace_def split: option.split)

text \<open>C28.  The agent keeps the protocol of tool calls.  Take two endpoints that agree, in the first \<open>MAX_STEPS\<close> rounds, on the requests
  in which every tool call is answered by exactly one result before anything else follows.  Query, mutation and chat runs are the same on both,
  whatever the model asks for and however the conversation is trimmed: no other request is ever sent, and none after the last
  round.\<close>
theorem agent_speaks_protocol:
  assumes "\<And>k url key body. k < MAX_STEPS \<Longrightarrow> tool_protocol [] (cq_messages body) \<Longrightarrow> http k url key body = http' k url key body"
  shows "run_query (E\<lparr>le_http := http\<rparr>) A S Z question w = run_query (E\<lparr>le_http := http'\<rparr>) A S Z question w \<and>
    run_mutation (E\<lparr>le_http := http\<rparr>) A S Z instruction w = run_mutation (E\<lparr>le_http := http'\<rparr>) A S Z instruction w \<and>
    run_chat_streaming (E\<lparr>le_http := http\<rparr>) A S Z (conversation_of h) w =
      run_chat_streaming (E\<lparr>le_http := http'\<rparr>) A S Z (conversation_of h) w"
proof -
  have rounds: "agent_rounds (E\<lparr>le_http := http\<rparr>) A S Z system tools aw temperature 0 MAX_STEPS [User_turn prompt] files g G =
      agent_rounds (E\<lparr>le_http := http'\<rparr>) A S Z system tools aw temperature 0 MAX_STEPS [User_turn prompt] files g G"
    for system tools aw temperature prompt files g G
    by (rule agent_rounds_same) (use assms in simp_all)
  have chat: "chat_rounds (E\<lparr>le_http := http\<rparr>) A S Z system tools 0 MAX_STEPS (conversation_of h) events g G =
      chat_rounds (E\<lparr>le_http := http'\<rparr>) A S Z system tools 0 MAX_STEPS (conversation_of h) events g G" for system tools events g G
    by (rule chat_rounds_same) (use assms history_turns_ok in simp_all)
  show ?thesis
    unfolding run_query_def run_mutation_def run_chat_streaming_def agent_loop_def agent_loop_tracked_def rounds chat keep_trace_http by simp
qed

section \<open>Effects and traces of a run\<close>

lemma agent_rounds_step:
  assumes "agent_rounds E A S Z system tools aw temperature k (Suc n) conversation files g G = (exit, files', g', G')"
  obtains "files' = files" "g' = g"
  | calls c f g1 G1 where "run_calls A S Z aw calls (conversation @ [Assistant_tool_calls calls]) files g = (c, f, g1)"
      "agent_rounds E A S Z system tools aw temperature (k + 1) n c f g1 G1 = (exit, files', g', G')"
  using assms by (auto split: prod.splits sum.splits step_output.splits)

lemma run_calls_traced:
  "run_calls A S Z aw calls conversation files g = (conversation', files', g') \<Longrightarrow> files = trace_writes (ag_steps g) \<Longrightarrow>
   files' = trace_writes (ag_steps g')"
proof (induction calls arbitrary: conversation files g)
  case (Cons call calls)
  obtain r g1 where ex: "execute_tool_tracked A S Z aw call g = (r, g1)" by (cases "execute_tool_tracked A S Z aw call g")
  have "files @ written_path r = trace_writes (ag_steps g1)"
    using execute_traced [OF ex] Cons.prems(2) by (auto split: sum.splits option.splits)
  then show ?case using Cons.IH Cons.prems(1) ex by simp
qed simp

lemma agent_rounds_traced:
  "agent_rounds E A S Z system tools aw temperature k n conversation files g G = (exit, files', g', G') \<Longrightarrow>
   files = trace_writes (ag_steps g) \<Longrightarrow> files' = trace_writes (ag_steps g')"
proof (induction n arbitrary: k conversation files g G)
  case (Suc n)
  from Suc.prems(1) show ?case
  proof (rule agent_rounds_step)
    fix calls c f g1 G1
    assume "run_calls A S Z aw calls (conversation @ [Assistant_tool_calls calls]) files g = (c, f, g1)"
      and rest: "agent_rounds E A S Z system tools aw temperature (k + 1) n c f g1 G1 = (exit, files', g', G')"
    then have "f = trace_writes (ag_steps g1)" using run_calls_traced Suc.prems(2) by blast
    then show ?thesis using Suc.IH [OF rest] by blast
  qed (use Suc.prems(2) in simp)
qed simp

lemma run_calls_read_only:
  "run_calls A S Z False calls conversation files g = (conversation', files', g') \<Longrightarrow> ag_store g' = ag_store g \<and> ag_hot g' = ag_hot g"
proof (induction calls arbitrary: conversation files g)
  case (Cons call calls)
  obtain r g1 where ex: "execute_tool_tracked A S Z False call g = (r, g1)" by (cases "execute_tool_tracked A S Z False call g")
  then show ?case using Cons execute_read_only [OF ex] by auto
qed simp

lemma agent_rounds_read_only:
  "agent_rounds E A S Z system tools False temperature k n conversation files g G = (exit, files', g', G') \<Longrightarrow>
   ag_store g' = ag_store g \<and> ag_hot g' = ag_hot g"
proof (induction n arbitrary: k conversation files g G)
  case (Suc n)
  from Suc.prems show ?case
  proof (rule agent_rounds_step)
    fix calls c f g1 G1
    assume "run_calls A S Z False calls (conversation @ [Assistant_tool_calls calls]) files g = (c, f, g1)"
      and rest: "agent_rounds E A S Z system tools False temperature (k + 1) n c f g1 G1 = (exit, files', g', G')"
    then have "ag_store g1 = ag_store g \<and> ag_hot g1 = ag_hot g" using run_calls_read_only by blast
    then show ?thesis using Suc.IH [OF rest] by simp
  qed simp
qed simp

lemma keep_trace_fields [simp]:
  "aw_store (keep_trace E Z kind input reply outcome steps w) = aw_store w"
  "aw_hot (keep_trace E Z kind input reply outcome steps w) = aw_hot w"
  by (simp_all add: keep_trace_def split: option.split)

text \<open>C30.  A query changes nothing: whatever the model answers, and whichever tools it calls, a query run leaves the store and the hot
  memory as they were.\<close>
theorem query_run_writes_nothing:
  "aw_store (snd (run_query E A S Z question w)) = aw_store w \<and> aw_hot (snd (run_query E A S Z question w)) = aw_hot w"
proof -
  obtain exit files g G where rounds:
    "agent_rounds E A S Z (build_system_prompt S (aw_store w) Mode_query) (read_tool_specs (ae_print A)) False (2 / 10) 0 MAX_STEPS
       [User_turn question] [] (run_start w) (aw_globals w) = (exit, files, g, G)"
    by (metis prod_cases4)
  then have "ag_store g = aw_store w \<and> ag_hot g = aw_hot w" using agent_rounds_read_only [OF rounds] by (simp add: run_start_def)
  then show ?thesis using rounds
    by (cases exit) (simp_all add: run_query_def agent_loop_def agent_loop_tracked_def leave_run_def del: One_nat_def)
qed


section \<open>Hidden books\<close>

text \<open>Scopes whose tools act the same give the same runs.\<close>

lemma runs_same_scopes:
  assumes tools: "\<And>D aw name args st. run_tool A S Z' D aw name args st = run_tool A S Z D aw name args st"
    and traced: "as_trace Z' = as_trace Z"
  shows "agent_loop_tracked E A S Z' = agent_loop_tracked E A S Z" "run_chat_streaming E A S Z' = run_chat_streaming E A S Z"
proof -
  have "execute_tool_tracked A S Z' = execute_tool_tracked A S Z"
    by (intro ext) (simp only: execute_tool_tracked_def tools)
  then have "run_calls A S Z' aw calls c f g = run_calls A S Z aw calls c f g"
    and "chat_calls A S Z' calls c ev g = chat_calls A S Z calls c ev g" for aw calls c f g ev
    by (induction calls arbitrary: c f ev g) (simp_all split: prod.split)
  then have "agent_rounds E A S Z' system ts aw temperature k n c f g G = agent_rounds E A S Z system ts aw temperature k n c f g G"
    and "chat_rounds E A S Z' system ts k n c ev g G = chat_rounds E A S Z system ts k n c ev g G" for system ts aw temperature k n c f ev g G
    by (induction n arbitrary: k c f ev g G) (simp_all split: prod.split sum.split step_output.split)
  moreover have "keep_trace E Z' = keep_trace E Z" by (simp add: fun_eq_iff keep_trace_def traced)
  ultimately show "agent_loop_tracked E A S Z' = agent_loop_tracked E A S Z" "run_chat_streaming E A S Z' = run_chat_streaming E A S Z"
    by (intro ext, simp only: agent_loop_tracked_def run_chat_streaming_def)+
qed


section \<open>A small run\<close>

text \<open>An endpoint that first calls a tool and then answers, and one that refuses requests outside the protocol.\<close>

definition demo_call :: tool_call where
  "demo_call = \<lparr>tc_id = [1], tc_kind = [], tc_name = str ''list_directory'', tc_arguments = str ''/''\<rparr>"

definition demo_http :: "nat \<Rightarrow> transport" where
  "demo_http k url key body = Inr \<lparr>hr_status = 200, hr_text = [],
     hr_json = Inr [if k = 0 then \<lparr>rm_content = None, rm_tool_calls = Some [demo_call]\<rparr>
                   else \<lparr>rm_content = Some (str ''done''), rm_tool_calls = None\<rparr>]\<rparr>"

definition strict_http :: "nat \<Rightarrow> transport" where
  "strict_http k url key body = (if tool_protocol [] (cq_messages body) then demo_http k url key body else Inl [])"

definition demo_loop :: loop_env where
  "demo_loop = \<lparr>le_client = \<lparr>cl_http = demo_http 0, cl_base_url = [], cl_model = [], cl_api_key = None\<rparr>, le_http = demo_http, le_now = (\<lambda>_. 0),
     le_trace = \<lparr>td_id = [1], td_at = [2], td_ms = 3, td_serializes = True, td_insert_ok = True, td_prune_ok = True\<rparr>\<rparr>"

lemma demo_ask:
  "\<exists>G'. ask_model (demo_loop\<lparr>le_http := demo_http\<rparr>) system tools temperature k conversation G =
     (Inr (if k = 0 then Step_tool_calls [demo_call] else Step_text (str ''done'')), G')"
  by (simp add: ask_model_def chat_with_tools_def chat_with_tools_impl_def exchange_def post_chat_def demo_http_def is_success_def
      record_outcome_def demo_loop_def Let_def del: str_Cons)

lemma demo_rounds:
  "\<exists>g' G'. agent_rounds (demo_loop\<lparr>le_http := demo_http\<rparr>) demo_agent memo_store Z system tools aw temperature 0 (Suc (Suc n)) conversation [] g G =
     (Answered (str ''done''), [], g', G')"
proof -
  obtain G1 where first: "ask_model (demo_loop\<lparr>le_http := demo_http\<rparr>) system tools temperature 0 conversation G = (Inr (Step_tool_calls [demo_call]), G1)"
    using demo_ask [of system tools temperature 0 conversation G] by auto
  have second: "\<exists>G'. ask_model (demo_loop\<lparr>le_http := demo_http\<rparr>) system tools temperature (Suc 0) c G1 = (Inr (Step_text (str ''done'')), G')" for c
    using demo_ask [of system tools temperature "Suc 0" c G1] by (simp del: str_Cons)
  obtain r g1 where run: "execute_tool_tracked demo_agent memo_store Z aw demo_call g = (r, g1)" "written_path r = []"
    by (auto simp: execute_tool_tracked_def demo_call_def demo_agent_def run_tool_def tool_list_def Let_def)
  obtain G2 where "ask_model (demo_loop\<lparr>le_http := demo_http\<rparr>) system tools temperature (Suc 0)
      (conversation @ [Assistant_tool_calls [demo_call], Tool_result (tc_id demo_call) (tool_text demo_agent r)]) G1 = (Inr (Step_text (str ''done'')), G2)"
    using second by blast
  then show ?thesis using first run by (simp del: str_Cons)
qed

definition loop_world :: agent_world where
  "loop_world = \<lparr>aw_store = empty_state, aw_hot = None, aw_globals = \<lparr>lg_last_success = 0, lg_health = \<lparr>configured = True, consecutive_failures = 0,
     down_since = None, last_observation = None, checked_at = None\<rparr>\<rparr>, aw_traces = []\<rparr>"

theorem agent_speaks_protocol_witness:
  "fst (run_query (demo_loop\<lparr>le_http := strict_http\<rparr>) demo_agent memo_store demo_scopes (str ''what?'') loop_world) =
     Inr \<lparr>qr_answer = str ''done'', qr_steps = 0\<rparr>"
proof -
  have "run_query (demo_loop\<lparr>le_http := demo_http\<rparr>) demo_agent memo_store demo_scopes (str ''what?'') loop_world =
      run_query (demo_loop\<lparr>le_http := strict_http\<rparr>) demo_agent memo_store demo_scopes (str ''what?'') loop_world"
    using agent_speaks_protocol [of demo_http strict_http demo_loop demo_agent memo_store demo_scopes "str ''what?''" loop_world "[]" "([], None)"]
    by (simp add: strict_http_def del: str_Cons)
  moreover have "\<exists>w'. run_query (demo_loop\<lparr>le_http := demo_http\<rparr>) demo_agent memo_store demo_scopes question w =
      (Inr \<lparr>qr_answer = str ''done'', qr_steps = 0\<rparr>, w')" for question w
    using demo_rounds [of demo_scopes "build_system_prompt memo_store (aw_store w) Mode_query" "read_tool_specs (ae_print demo_agent)" False "2 / 10" 28
        "[User_turn question]" "run_start w" "aw_globals w"]
    by (auto simp: run_query_def agent_loop_def agent_loop_tracked_def MAX_STEPS_def Let_def eval_nat_numeral simp del: str_Cons agent_rounds.simps)
  ultimately show ?thesis by (metis fst_conv)
qed



end
