(* ===== verification/Spec2Isabelle.thy ===== *)
theory Spec2Isabelle
  imports Queue_Enqueue Llm_Gate_Safety Llm_Health Query_Cache File_Repo Config_Store Auth_Login Link_Graph Ingest_Jobs Chat_Resume Agent_Loop
begin

text \<open>
  Verification library of Mycelium2, a self-hosted knowledge base: a Rust workspace whose crates
  \<^verbatim>\<open>mycelium-crypto\<close>, \<^verbatim>\<open>mycelium-core\<close>, \<^verbatim>\<open>mycelium-store\<close>, \<^verbatim>\<open>mycelium-auth\<close>, \<^verbatim>\<open>mycelium-librarian\<close> and parts of
  \<^verbatim>\<open>mycelium-mcp\<close> and \<^verbatim>\<open>mycelium-web\<close> are modelled.  Paths below are relative to \<^verbatim>\<open>src/crates/\<close>.

  \<^bold>\<open>The program and its parts.\<close>  Every concept (a markdown file with a YAML front matter) lives in an encrypted
  repository under a scope, with a registry row, an encrypted search index, vectors and a revision log kept beside it by
  the concept store.  Users log in with a password that also unseals their master key; the process keeps a second seal under
  its service key so that background work can run when nobody is logged in.  MCP clients submit mutations, which
  are rows of a queue with an encrypted payload; a drain claims them and runs an LLM agent over the concept store, or
  a deterministic fallback.  Queries go through an exact cache, a hot memory and the agent.  Books are ingested by jobs that write
  the text to the stacks and a catalog of concepts.  Chat sessions are rows with encrypted messages; a submitted
  turn is run by a detached task that writes the transcript and streams it, and a resume worker takes up turns that a
  crash or an outage left open.  All LLM traffic passes one admission gate and reports to one health registry.

  \<^bold>\<open>How the model is built.\<close>  A Rust \<^verbatim>\<open>struct\<close> is a \<^verbatim>\<open>record\<close>, an \<^verbatim>\<open>enum\<close> a \<^verbatim>\<open>datatype\<close>, \<^verbatim>\<open>Result\<close> is \<open>error + 'a\<close> with \<open>Inl\<close> for
  the error, \<^verbatim>\<open>Option\<close> is \<open>option\<close>; bytes are \<open>8 word\<close>, strings are lists of Unicode scalar values, counters whose wrap-around
  matters are words and the others naturals.  An SQLite table is the list of its rows in insertion order, and a statement is one function
  on it with the affected rows; a statement or a transaction is atomic, what lies between two of them is not.  So an
  operation made of several effects is a list of steps, a crash is a stop between two steps, and other tasks act
  between steps (events of \<^verbatim>\<open>Queue_Events\<close>, \<open>chat_op\<close>s of \<^verbatim>\<open>Chat_Store\<close>, critical sections of \<^verbatim>\<open>Llm_Gate\<close>).  Clock readings, nonces and fresh
  identifiers are inputs.  Third-party code is a parameter of the definitions that use it: the cryptographic primitives
  (record \<open>prims\<close>, with \<open>good_prims\<close> for the documented laws: opening a sealed box gives the text back, a box that opens was sealed
  with that key and those associated data), YAML, JSON, tokenisers, HTTP, the language model, and the file system where it can fail.
  Every hypothesis on a parameter is met by a concrete instance in a witness.

  \<^bold>\<open>Theories, from the bottom.\<close>
  \<^item> \<^verbatim>\<open>Myc_Prelude\<close>: results, table statements, simplification collections, the contracts \<open>str_codec\<close> (an enumeration and its strings)
    and \<open>keyed_store\<close> (read your write).  \<^verbatim>\<open>Rust_Text\<close>: the string functions of the Rust library that the sources call, UTF-8 included.
  \<^item> \<^verbatim>\<open>Crypto_Box\<close> (\<^verbatim>\<open>mycelium-crypto/src\<close>: \<^verbatim>\<open>aead.rs\<close>, \<^verbatim>\<open>envelope.rs\<close>, \<^verbatim>\<open>file.rs\<close>, \<^verbatim>\<open>keys.rs\<close>, \<^verbatim>\<open>store_keys.rs\<close>, \<^verbatim>\<open>chat_keys.rs\<close>): envelopes and key
    derivation; the contract \<open>authenticated_box\<close>, interpreted for the three kinds of boxes.  \<^verbatim>\<open>Key_Seal\<close> (\<^verbatim>\<open>seal.rs\<close>, \<^verbatim>\<open>service.rs\<close>): master key seals,
    password change, recovery key rotation, the service key file.
  \<^item> \<^verbatim>\<open>Concept_Text\<close> (\<^verbatim>\<open>mycelium-core/src\<close>: \<^verbatim>\<open>concept.rs\<close>, \<^verbatim>\<open>bundle.rs\<close>, \<^verbatim>\<open>shelf.rs\<close>): parsing, printing, validation.  \<^verbatim>\<open>Link_Graph\<close> (\<^verbatim>\<open>links.rs\<close>, \<^verbatim>\<open>graph.rs\<close>),
    \<^verbatim>\<open>Search_Core\<close> (\<^verbatim>\<open>search.rs\<close>, with the contract \<open>lexical_index\<close>), \<^verbatim>\<open>Book_Library\<close> (\<^verbatim>\<open>library.rs\<close>).
  \<^item> \<^verbatim>\<open>File_Repo\<close>, \<^verbatim>\<open>Config_Store\<close>, \<^verbatim>\<open>Search_Index\<close>, \<^verbatim>\<open>Lifecycle\<close> and \<^verbatim>\<open>Revision_Log\<close>, \<^verbatim>\<open>Mutation_Queue\<close> with \<^verbatim>\<open>Queue_Events\<close>, \<^verbatim>\<open>Concept_Store\<close>,
    \<^verbatim>\<open>Chat_Store\<close>: the files of \<^verbatim>\<open>mycelium-store/src\<close> (\<^verbatim>\<open>file_repo.rs\<close>, \<^verbatim>\<open>config.rs\<close>, \<^verbatim>\<open>search_index.rs\<close>, \<^verbatim>\<open>revisions.rs\<close>, \<^verbatim>\<open>mutation_queue.rs\<close>,
    \<^verbatim>\<open>concept_store.rs\<close>, \<^verbatim>\<open>chat.rs\<close>).  \<^verbatim>\<open>Store_Safety\<close> and \<^verbatim>\<open>Store_Live\<close> hold the theorems on the concept store, \<^verbatim>\<open>Store_Demo\<close> their application to a small store.
  \<^item> \<^verbatim>\<open>Auth_Session\<close>, \<^verbatim>\<open>Auth_Login\<close> (\<^verbatim>\<open>mycelium-auth/src\<close>): throttle, sessions, API keys, roles; accounts, passwords, TOTP, login and logout.
  \<^item> \<^verbatim>\<open>Llm_Gate\<close>, \<^verbatim>\<open>Llm_Gate_Safety\<close>, \<^verbatim>\<open>Llm_Health\<close>, \<^verbatim>\<open>Llm_Client\<close>, \<^verbatim>\<open>Hot_Memory\<close>, \<^verbatim>\<open>Query_Cache\<close>, \<^verbatim>\<open>Queue_Worker\<close> with \<^verbatim>\<open>Queue_Drain\<close> and \<^verbatim>\<open>Queue_Enqueue\<close>,
    \<^verbatim>\<open>Book_Catalog\<close>, \<^verbatim>\<open>Book_Ingest\<close>, \<^verbatim>\<open>Ingest_Jobs\<close>: the files of \<^verbatim>\<open>mycelium-librarian/src\<close> (\<^verbatim>\<open>llm_gate.rs\<close>, \<^verbatim>\<open>llm_health.rs\<close>, \<^verbatim>\<open>llm.rs\<close>, \<^verbatim>\<open>hot_memory.rs\<close>,
    \<^verbatim>\<open>query_cache.rs\<close>, \<^verbatim>\<open>queue_worker.rs\<close>, \<^verbatim>\<open>extract.rs\<close>, \<^verbatim>\<open>ingest.rs\<close>, \<^verbatim>\<open>worker.rs\<close> with \<^verbatim>\<open>mycelium-store/src/books.rs\<close>).
  \<^item> \<^verbatim>\<open>Chat_Runner\<close>, \<^verbatim>\<open>Chat_Resume\<close> (\<^verbatim>\<open>mycelium-web/src/chat_runner.rs\<close>, \<^verbatim>\<open>chat_resume.rs\<close>): the detached run and the resume pass.
\<close>

text \<open>
  \<^bold>\<open>What the lemmas show.\<close>
  \<^item> Cryptography: what was sealed opens, nothing else opens, and the master key survives every sequence of password changes and
    key rotations (\<^verbatim>\<open>Crypto_Box\<close>, \<^verbatim>\<open>Key_Seal\<close>); the encrypted repository is a keyed store whose writes are atomic under crashes.
  \<^item> Concept store: guards come before any effect; whatever step of a write is the last one, search returns no concept without a
    registry row; a write can be read back, searched and undone; refusals have stated causes only.  The one
    operation that breaks the order, the removal, is shown to break it.
  \<^item> Mutation queue: claims are exclusive, the depth cap holds, a receipt stands for a readable payload, a drain turn
    settles its item and returns its gate slot, a drain pass ends.
  \<^item> LLM gate: the interleaved critical sections neither leak nor duplicate slots, no slot idles while a waiter may run, limits hold,
    and waiters are served in order up to the per-user cap.  The client's trimmed conversation keeps tool calls paired with their results and fits the budget.
  \<^item> Chat: at most one open turn of a session in every reachable database, transcripts are gapless, users cannot see or change each other's
    sessions, pruning spares owed answers; a run stopped after any number of steps leaves no running turn once its guard dropped; the
    stream mirrors the transcript; a resume pass claims exactly the eligible turns.
  \<^item> Text: markdown round trips, search ranks, link graph, passages of books and catalogs agree with reference definitions.
  \<^item> Accounts: login soundness, session lifetime, revocation, throttling as a function of the failure history.

  \<^bold>\<open>Bounds and fuel.\<close>  Recursion is structural or has a measure, with two exceptions.  A drain pass goes on while items become due again, so \<open>drain_loop\<close> takes
  fuel; the theorem \<open>run_pending_ends\<close> of \<^verbatim>\<open>Queue_Drain\<close> shows that one more than (rows) times (elapsed half minutes plus one) is enough, because every failed turn dates its item at least
  30 seconds ahead.  A chat run is executed step by step beside other tasks; \<open>run_bound\<close> (its planned events and gate positions, plus a constant)
  steps suffice for it to end.  String scanners that jump ahead are recursive on the remaining length.

  \<^bold>\<open>Not modelled.\<close>  The HTTP handlers and pages, the assets, TLS administration and certificates, the health endpoint and the dream scheduler
  (\<^verbatim>\<open>mycelium-web/src\<close>: request and response plumbing over the components above), HTML rendering (\<^verbatim>\<open>mycelium-ui\<close>), the server binary and
  the command line client (process set-up, HTTP calls), federated login (thin adapters over third-party crates), store bootstrap,
  migrations and backup (file copies and SQL scripts), skill archives, the dream and embedding jobs and the vector worker (calls of external
  models), and of every modelled component the spawned wake loops and the log lines.  Search scores are real numbers; the
  rounding of \<^verbatim>\<open>f32\<close> is left out.
\<close>

end
